(* ===== verification/Prelude.thy ===== *)
theory Prelude
  imports Main "HOL-Library.Word" "HOL-Library.Multiset"
begin

text \<open>
  Shared vocabulary of the development: the three-way comparison of
  \<^verbatim>\<open>std::cmp::Ordering\<close>, Rust's \<^verbatim>\<open>Result\<close> as a sum, generic lemmas on
  lists and association lists that the data structures use, and the collections of
  simplification rules that the component proofs draw on.
\<close>

section \<open>Rule collections\<close>

named_theorems mem_simps \<open>effects of the memory primitives on the fields of a memory\<close>
named_theorems prog_defs \<open>definitions of the translated source functions\<close>

section \<open>Comparison and results\<close>

text \<open>\<^verbatim>\<open>std::cmp::Ordering\<close> and \<^verbatim>\<open>Ord::cmp\<close> on a totally ordered key type.\<close>

datatype ordering = Less | Equal | Greater

definition cmp :: "'a::linorder \<Rightarrow> 'a \<Rightarrow> ordering" where
  "cmp x y = (if x < y then Less else if x = y then Equal else Greater)"

lemma cmp_simps [simp]:
  "cmp x y = Less \<longleftrightarrow> x < y"
  "cmp x y = Equal \<longleftrightarrow> x = y"
  "cmp x y = Greater \<longleftrightarrow> y < x"
  by (auto simp: cmp_def)

lemma cmp_cases:
  obtains (Less) "cmp x y = Less" "x < y"
  | (Equal) "cmp x y = Equal" "x = y"
  | (Greater) "cmp x y = Greater" "y < x"
  by (cases "cmp x y") auto

lemma case_cmp:
  "(case cmp x y of Less \<Rightarrow> a | Equal \<Rightarrow> b | Greater \<Rightarrow> c)
    = (if x < y then a else if x = y then b else c)"
  by (simp add: cmp_def)

text \<open>\<^verbatim>\<open>Result<T, E>\<close> is \<open>'e + 't\<close>: \<open>Inl\<close> is \<^verbatim>\<open>Err\<close>, \<open>Inr\<close> is \<^verbatim>\<open>Ok\<close>.\<close>

definition is_ok :: "'e + 't \<Rightarrow> bool" where
  "is_ok r = (case r of Inl _ \<Rightarrow> False | Inr _ \<Rightarrow> True)"

lemma is_ok_simps [simp]: "\<not> is_ok (Inl e)" "is_ok (Inr x)"
  by (simp_all add: is_ok_def)

section \<open>Lists\<close>

lemma last_append_Cons [simp]: "last (x # xs @ [y]) = y"
  by simp

lemma sorted_wrt_append_mid:
  "sorted_wrt P (xs @ y # zs) \<longleftrightarrow>
     sorted_wrt P (xs @ zs) \<and> (\<forall>x\<in>set xs. P x y) \<and> (\<forall>z\<in>set zs. P y z)"
  by (auto simp: sorted_wrt_append)

lemma map_of_map_None_iff:
  "map_of (map (\<lambda>x. (f x, g x)) xs) k = None \<longleftrightarrow> k \<notin> f ` set xs"
  by (induction xs) auto

lemma map_of_append_None:
  "map_of xs k = None \<Longrightarrow> map_of (xs @ ys) k = map_of ys k"
  by (simp add: map_add_def)

end
