(* ===== verification/Crossbeam.thy ===== *)
theory Crossbeam
  imports Prelude
begin

unbundle bit_operations_syntax

text \<open>
  The interface through which the data structures of \<^verbatim>\<open>src/\<close> touch shared memory:
  the crates \<^verbatim>\<open>crossbeam_ebr\<close> and \<^verbatim>\<open>crossbeam_pebr\<close>, whose sources are
  submodules outside the repository.  Nothing of them is implemented here.  A source function
  is translated into a tree of the interface calls it makes (type \<open>prog\<close>): every call
  is a constructor and the rest of the function is a continuation of the answer.  The
  implementation of the interface is a parameter, a record \<open>crossbeam\<close> of functions on
  an arbitrary state; the locale \<open>crossbeam_api\<close> states what the documentation of the
  crates promises about them.  \<open>run\<close> executes a tree on such an implementation,
  \<open>wp\<close> is the weakest precondition calculus in which the component proofs are done, and
  \<open>wp_sound\<close> connects the two.
\<close>

section \<open>Pointers and memory\<close>

type_synonym addr = nat

text \<open>\<^verbatim>\<open>Shared<T>\<close>: an address with a tag in its unused low bits.\<close>

datatype shared = Shared (raw: addr) (tag: nat)

definition null :: shared where
  "null = Shared 0 0"

definition is_null :: "shared \<Rightarrow> bool" where
  "is_null p \<longleftrightarrow> raw p = 0"

definition with_tag :: "shared \<Rightarrow> nat \<Rightarrow> shared" where
  "with_tag p t = Shared (raw p) t"

lemma shared_simps [simp]:
  "raw null = 0" "tag null = 0" "is_null null" "is_null (Shared a t) \<longleftrightarrow> a = 0"
  "raw (with_tag p t) = raw p" "tag (with_tag p t) = t"
  "with_tag (with_tag p t) u = with_tag p u"
  by (simp_all add: null_def is_null_def with_tag_def)

lemma with_tag_same [simp]: "with_tag p (tag p) = p"
  by (simp add: with_tag_def)

lemma with_tag_eq_iff: "with_tag p t = q \<longleftrightarrow> raw p = raw q \<and> tag q = t"
  by (cases q) (auto simp: with_tag_def)

lemma shared_eq_iff: "p = q \<longleftrightarrow> raw p = raw q \<and> tag p = tag q"
  by (cases p; cases q) simp

text \<open>A location is an \<^verbatim>\<open>Atomic\<close> field \<open>'f\<close> of the structure at an address.\<close>

type_synonym 'f loc = "addr \<times> 'f"

text \<open>
  What the interface calls act on.  \<open>obj\<close> holds the plain fields of every allocated
  node, \<open>cell\<close> the \<^verbatim>\<open>Atomic\<close> fields, \<open>statics\<close> the addresses of
  structures that are not allocated through \<^verbatim>\<open>Owned\<close> (the \<^verbatim>\<open>List\<close>
  headers and tree roots).  \<open>garbage\<close> are the nodes handed to
  \<^verbatim>\<open>defer_destroy\<close> and not reclaimed yet; \<open>retired\<close>, \<open>freed\<close> and
  \<open>dropped\<close> are histories: every node ever given to \<^verbatim>\<open>defer_destroy\<close>, every
  node dropped through \<^verbatim>\<open>Owned\<close>, every node whose \<^verbatim>\<open>ManuallyDrop\<close> value
  was dropped in place.  \<open>shield\<close> is what each live \<^verbatim>\<open>Shield\<close> protects and
  \<open>ejections\<close> bounds how often the guard will still be ejected.
\<close>

record ('f, 'n) mem =
  cell :: "'f loc \<Rightarrow> shared"
  obj :: "addr \<Rightarrow> 'n option"
  statics :: "addr set"
  garbage :: "addr list"
  retired :: "addr list"
  freed :: "addr list"
  dropped :: "addr list"
  shield :: "nat \<Rightarrow> shared option"
  ejections :: nat

definition live :: "('f, 'n) mem \<Rightarrow> addr \<Rightarrow> bool" where
  "live m a \<longleftrightarrow> obj m a \<noteq> None \<or> a \<in> statics m"

definition fresh :: "('f, 'n) mem \<Rightarrow> addr \<Rightarrow> bool" where
  "fresh m a \<longleftrightarrow> a \<noteq> 0 \<and> obj m a = None \<and> a \<notin> statics m"

definition set_cell :: "'f loc \<Rightarrow> shared \<Rightarrow> ('f, 'n) mem \<Rightarrow> ('f, 'n) mem" where
  "set_cell l p m = m\<lparr>cell := (cell m)(l := p)\<rparr>"

definition set_obj :: "addr \<Rightarrow> 'n \<Rightarrow> ('f, 'n) mem \<Rightarrow> ('f, 'n) mem" where
  "set_obj a n m = m\<lparr>obj := (obj m)(a \<mapsto> n)\<rparr>"

definition init_cells :: "addr \<Rightarrow> ('f \<times> shared) list \<Rightarrow> ('f loc \<Rightarrow> shared) \<Rightarrow> 'f loc \<Rightarrow> shared" where
  "init_cells a fs c l = (if fst l = a then (case map_of fs (snd l) of None \<Rightarrow> c l | Some p \<Rightarrow> p) else c l)"

definition alloc :: "addr \<Rightarrow> 'n \<Rightarrow> ('f \<times> shared) list \<Rightarrow> ('f, 'n) mem \<Rightarrow> ('f, 'n) mem" where
  "alloc a n fs m = m\<lparr>obj := (obj m)(a \<mapsto> n), cell := init_cells a fs (cell m)\<rparr>"

definition free :: "addr \<Rightarrow> ('f, 'n) mem \<Rightarrow> ('f, 'n) mem" where
  "free a m = m\<lparr>obj := (obj m)(a := None), freed := freed m @ [a]\<rparr>"

definition drop_val :: "addr \<Rightarrow> ('f, 'n) mem \<Rightarrow> ('f, 'n) mem" where
  "drop_val a m = m\<lparr>dropped := dropped m @ [a]\<rparr>"

definition retire :: "addr \<Rightarrow> ('f, 'n) mem \<Rightarrow> ('f, 'n) mem" where
  "retire a m = m\<lparr>garbage := garbage m @ [a], retired := retired m @ [a]\<rparr>"

text \<open>Reclaiming some retired nodes: the collector runs their deferred destruction.\<close>

definition reclaim :: "addr set \<Rightarrow> ('f, 'n) mem \<Rightarrow> ('f, 'n) mem" where
  "reclaim R m = m\<lparr>obj := (obj m) |` (- (R \<inter> set (garbage m))),
                   garbage := filter (\<lambda>a. a \<notin> R) (garbage m)\<rparr>"

definition set_shield :: "nat \<Rightarrow> shared option \<Rightarrow> ('f, 'n) mem \<Rightarrow> ('f, 'n) mem" where
  "set_shield i p m = m\<lparr>shield := (shield m)(i := p)\<rparr>"

definition use_ejection :: "('f, 'n) mem \<Rightarrow> ('f, 'n) mem" where
  "use_ejection m = m\<lparr>ejections := ejections m - 1\<rparr>"

subsection \<open>Effects on the fields\<close>

lemma set_cell_fields [simp, mem_simps]:
  "cell (set_cell l p m) = (cell m)(l := p)"
  "obj (set_cell l p m) = obj m"
  "statics (set_cell l p m) = statics m"
  "garbage (set_cell l p m) = garbage m"
  "retired (set_cell l p m) = retired m"
  "freed (set_cell l p m) = freed m"
  "dropped (set_cell l p m) = dropped m"
  "shield (set_cell l p m) = shield m"
  "ejections (set_cell l p m) = ejections m"
  by (simp_all add: set_cell_def)

lemma set_obj_fields [simp, mem_simps]:
  "cell (set_obj a n m) = cell m"
  "obj (set_obj a n m) = (obj m)(a \<mapsto> n)"
  "statics (set_obj a n m) = statics m"
  "garbage (set_obj a n m) = garbage m"
  "retired (set_obj a n m) = retired m"
  "freed (set_obj a n m) = freed m"
  "dropped (set_obj a n m) = dropped m"
  "shield (set_obj a n m) = shield m"
  "ejections (set_obj a n m) = ejections m"
  by (simp_all add: set_obj_def)

lemma alloc_fields [simp, mem_simps]:
  "cell (alloc a n fs m) = init_cells a fs (cell m)"
  "obj (alloc a n fs m) = (obj m)(a \<mapsto> n)"
  "statics (alloc a n fs m) = statics m"
  "garbage (alloc a n fs m) = garbage m"
  "retired (alloc a n fs m) = retired m"
  "freed (alloc a n fs m) = freed m"
  "dropped (alloc a n fs m) = dropped m"
  "shield (alloc a n fs m) = shield m"
  "ejections (alloc a n fs m) = ejections m"
  by (simp_all add: alloc_def)

lemma free_fields [simp, mem_simps]:
  "cell (free a m) = cell m"
  "obj (free a m) = (obj m)(a := None)"
  "statics (free a m) = statics m"
  "garbage (free a m) = garbage m"
  "retired (free a m) = retired m"
  "freed (free a m) = freed m @ [a]"
  "dropped (free a m) = dropped m"
  "shield (free a m) = shield m"
  "ejections (free a m) = ejections m"
  by (simp_all add: free_def)

lemma drop_val_fields [simp, mem_simps]:
  "cell (drop_val a m) = cell m"
  "obj (drop_val a m) = obj m"
  "statics (drop_val a m) = statics m"
  "garbage (drop_val a m) = garbage m"
  "retired (drop_val a m) = retired m"
  "freed (drop_val a m) = freed m"
  "dropped (drop_val a m) = dropped m @ [a]"
  "shield (drop_val a m) = shield m"
  "ejections (drop_val a m) = ejections m"
  by (simp_all add: drop_val_def)

lemma retire_fields [simp, mem_simps]:
  "cell (retire a m) = cell m"
  "obj (retire a m) = obj m"
  "statics (retire a m) = statics m"
  "garbage (retire a m) = garbage m @ [a]"
  "retired (retire a m) = retired m @ [a]"
  "freed (retire a m) = freed m"
  "dropped (retire a m) = dropped m"
  "shield (retire a m) = shield m"
  "ejections (retire a m) = ejections m"
  by (simp_all add: retire_def)

lemma reclaim_fields [simp, mem_simps]:
  "cell (reclaim R m) = cell m"
  "obj (reclaim R m) = (obj m) |` (- (R \<inter> set (garbage m)))"
  "statics (reclaim R m) = statics m"
  "garbage (reclaim R m) = filter (\<lambda>a. a \<notin> R) (garbage m)"
  "retired (reclaim R m) = retired m"
  "freed (reclaim R m) = freed m"
  "dropped (reclaim R m) = dropped m"
  "shield (reclaim R m) = shield m"
  "ejections (reclaim R m) = ejections m"
  by (simp_all add: reclaim_def)

lemma set_shield_fields [simp, mem_simps]:
  "cell (set_shield i q m) = cell m"
  "obj (set_shield i q m) = obj m"
  "statics (set_shield i q m) = statics m"
  "garbage (set_shield i q m) = garbage m"
  "retired (set_shield i q m) = retired m"
  "freed (set_shield i q m) = freed m"
  "dropped (set_shield i q m) = dropped m"
  "shield (set_shield i q m) = (shield m)(i := q)"
  "ejections (set_shield i q m) = ejections m"
  by (simp_all add: set_shield_def)

lemma use_ejection_fields [simp, mem_simps]:
  "cell (use_ejection m) = cell m"
  "obj (use_ejection m) = obj m"
  "statics (use_ejection m) = statics m"
  "garbage (use_ejection m) = garbage m"
  "retired (use_ejection m) = retired m"
  "freed (use_ejection m) = freed m"
  "dropped (use_ejection m) = dropped m"
  "shield (use_ejection m) = shield m"
  "ejections (use_ejection m) = ejections m - 1"
  by (simp_all add: use_ejection_def)

lemma init_cells_apply [simp]:
  "a \<noteq> b \<Longrightarrow> init_cells a fs c (b, f) = c (b, f)"
  "init_cells a fs c (a, f) = (case map_of fs f of None \<Rightarrow> c (a, f) | Some p \<Rightarrow> p)"
  by (simp_all add: init_cells_def)

lemma reclaim_none [simp]: "reclaim {} m = m"
  by (simp add: reclaim_def restrict_map_def)

lemma live_simps [simp]:
  "live (set_cell l p m) b \<longleftrightarrow> live m b"
  "live (set_obj a n m) b \<longleftrightarrow> b = a \<or> live m b"
  "live (alloc a n fs m) b \<longleftrightarrow> b = a \<or> live m b"
  "live (retire a m) b \<longleftrightarrow> live m b"
  "live (drop_val a m) b \<longleftrightarrow> live m b"
  "live (set_shield i q m) b \<longleftrightarrow> live m b"
  "live (use_ejection m) b \<longleftrightarrow> live m b"
  by (auto simp: live_def)

lemma live_reclaim [simp]: "b \<notin> set (garbage m) \<Longrightarrow> live (reclaim R m) b \<longleftrightarrow> live m b"
  by (simp add: live_def)

lemma obj_reclaim [simp]: "b \<notin> set (garbage m) \<Longrightarrow> obj (reclaim R m) b = obj m b"
  by simp

lemma live_static [simp]: "a \<in> statics m \<Longrightarrow> live m a"
  by (simp add: live_def)

lemma live_obj [simp]: "obj m a = Some n \<Longrightarrow> live m a"
  by (simp add: live_def)

lemma freshD:
  "fresh m a \<Longrightarrow> a \<noteq> 0" "fresh m a \<Longrightarrow> obj m a = None" "fresh m a \<Longrightarrow> a \<notin> statics m"
  by (simp_all add: fresh_def)

section \<open>Framing\<close>

text \<open>
  \<open>garbage_ok\<close>: what is retired is allocated, and retired once.  \<open>frame A m m'\<close>:
  going from \<open>m\<close> to \<open>m'\<close> leaves every live node outside \<open>A\<close> that has not
  been retired as it was, and retires nodes of \<open>A\<close> only.
\<close>

definition garbage_ok :: "('f, 'n) mem \<Rightarrow> bool" where
  "garbage_ok m \<longleftrightarrow> distinct (garbage m) \<and>
     (\<forall>a\<in>set (garbage m). obj m a \<noteq> None \<and> a \<notin> statics m)"

definition frame :: "addr set \<Rightarrow> ('f, 'n) mem \<Rightarrow> ('f, 'n) mem \<Rightarrow> bool" where
  "frame A m m' \<longleftrightarrow> statics m' = statics m \<and> set (garbage m') \<subseteq> set (garbage m) \<union> A \<and>
     (\<forall>a. a \<notin> A \<longrightarrow> live m a \<longrightarrow> a \<notin> set (garbage m) \<longrightarrow>
        obj m' a = obj m a \<and> (\<forall>f. cell m' (a, f) = cell m (a, f)))"

lemma frame_refl [simp]: "frame A m m"
  by (simp add: frame_def)

lemma frame_mono: "frame A m m' \<Longrightarrow> A \<subseteq> B \<Longrightarrow> frame B m m'"
  by (auto simp: frame_def)

lemma frame_statics: "frame A m m' \<Longrightarrow> statics m' = statics m"
  by (simp add: frame_def)

lemma frame_at:
  assumes "frame A m m'" "a \<notin> A" "live m a" "a \<notin> set (garbage m)"
  shows "obj m' a = obj m a" "cell m' (a, f) = cell m (a, f)" "live m' a" "a \<notin> set (garbage m')"
  using assms by (auto simp: frame_def live_def)

lemma frame_trans:
  assumes "frame A m m1" "frame B m1 m2" and "B \<subseteq> A \<union> {a. \<not> live m a}"
  shows "frame (A \<union> {a. \<not> live m a}) m m2"
  unfolding frame_def
proof (intro conjI allI impI)
  show "statics m2 = statics m"
    using assms by (simp add: frame_def)
  show "set (garbage m2) \<subseteq> set (garbage m) \<union> (A \<union> {a. \<not> live m a})"
    using assms unfolding frame_def by blast
next
  fix a f
  assume a: "a \<notin> A \<union> {a. \<not> live m a}" "live m a" "a \<notin> set (garbage m)"
  then have A: "a \<notin> A" and B: "a \<notin> B" using assms(3) by auto
  note 1 = frame_at[OF assms(1) A a(2,3)]
  note 2 = frame_at[OF assms(2) B 1(3,4)]
  from 1 2 show "obj m2 a = obj m a" "cell m2 (a, f) = cell m (a, f)" by simp_all
qed

lemma frame_not_live:
  assumes "frame (A \<union> {a. \<not> live m a}) m m'"
    and "set (garbage m') \<subseteq> set (garbage m) \<union> A"
  shows "frame A m m'"
  using assms by (auto simp: frame_def)

lemma frame_trans_same:
  assumes "frame A m m1" "frame B m1 m2" and "B \<subseteq> A"
  shows "frame A m m2"
proof (rule frame_not_live)
  show "frame (A \<union> {a. \<not> live m a}) m m2"
    using assms by (intro frame_trans[of A m m1 B]) auto
  show "set (garbage m2) \<subseteq> set (garbage m) \<union> A"
    using assms unfolding frame_def by blast
qed

lemma frame_set_cell [simp]: "a \<in> A \<Longrightarrow> frame A m (set_cell (a, f) p m)"
  by (auto simp: frame_def)

lemma frame_retire: "a \<in> A \<Longrightarrow> frame A m (reclaim R (retire a m))"
  by (auto simp: frame_def restrict_map_def)

lemma frame_alloc: "fresh m a \<Longrightarrow> frame A m (alloc a n fs m)"
  by (auto simp: frame_def fresh_def live_def)

lemma frame_free: "a \<in> A \<Longrightarrow> frame A m (free a m)"
  by (auto simp: frame_def)

lemma frame_drop_val [simp]: "frame A m (drop_val a m)"
  by (auto simp: frame_def)

lemma garbage_ok_simps [simp]:
  "garbage_ok (set_cell l p m) \<longleftrightarrow> garbage_ok m"
  "garbage_ok (drop_val a m) \<longleftrightarrow> garbage_ok m"
  "garbage_ok (set_shield i q m) \<longleftrightarrow> garbage_ok m"
  "garbage_ok (use_ejection m) \<longleftrightarrow> garbage_ok m"
  by (simp_all add: garbage_ok_def)

lemma garbage_ok_reclaim [simp]: "garbage_ok m \<Longrightarrow> garbage_ok (reclaim R m)"
  by (auto simp: garbage_ok_def)

lemma garbage_ok_retire:
  "garbage_ok m \<Longrightarrow> obj m a \<noteq> None \<Longrightarrow> a \<notin> statics m \<Longrightarrow> a \<notin> set (garbage m) \<Longrightarrow>
    garbage_ok (retire a m)"
  by (auto simp: garbage_ok_def)

lemma garbage_ok_alloc: "garbage_ok m \<Longrightarrow> garbage_ok (alloc a n fs m)"
  by (auto simp: garbage_ok_def)

lemma garbage_ok_free: "garbage_ok m \<Longrightarrow> a \<notin> set (garbage m) \<Longrightarrow> garbage_ok (free a m)"
  by (auto simp: garbage_ok_def)

lemma garbage_ok_fresh: "garbage_ok m \<Longrightarrow> fresh m a \<Longrightarrow> a \<notin> set (garbage m)"
  by (auto simp: garbage_ok_def fresh_def)

section \<open>Programs: trees of interface calls\<close>

datatype shield_error = Ejected

text \<open>
  One constructor per interface call; \<open>Ret\<close> returns, \<open>Panic\<close> is a Rust panic
  (an \<^verbatim>\<open>unwrap\<close> of \<^verbatim>\<open>None\<close> or a failed assertion) and
  \<open>Out_of_fuel\<close> cuts off a loop whose fuel is used up.
\<close>

datatype ('f, 'n, 'a) prog =
    Ret 'a
  | Load "'f loc" "shared \<Rightarrow> ('f, 'n, 'a) prog"
  | Store "'f loc" shared "('f, 'n, 'a) prog"
  | Compare_and_set "'f loc" shared shared "(shared + shared) \<Rightarrow> ('f, 'n, 'a) prog"
  | Fetch_or "'f loc" nat "shared \<Rightarrow> ('f, 'n, 'a) prog"
  | Deref shared "'n \<Rightarrow> ('f, 'n, 'a) prog"
  | Deref_mut shared 'n "('f, 'n, 'a) prog"
  | Owned_new 'n "('f \<times> shared) list" "shared \<Rightarrow> ('f, 'n, 'a) prog"
  | Drop_owned shared "('f, 'n, 'a) prog"
  | Drop_value shared "('f, 'n, 'a) prog"
  | Defer_destroy shared "('f, 'n, 'a) prog"
  | Shield_null "nat \<Rightarrow> ('f, 'n, 'a) prog"
  | Shield_new shared "(shield_error + nat) \<Rightarrow> ('f, 'n, 'a) prog"
  | Shield_drop nat "('f, 'n, 'a) prog"
  | Defend nat shared "(shield_error + unit) \<Rightarrow> ('f, 'n, 'a) prog"
  | Defend_fake nat shared "('f, 'n, 'a) prog"
  | Release nat "('f, 'n, 'a) prog"
  | Shield_shared nat "shared \<Rightarrow> ('f, 'n, 'a) prog"
  | Repin "('f, 'n, 'a) prog"
  | Panic
  | Out_of_fuel

primrec bind :: "('f, 'n, 'a) prog \<Rightarrow> ('a \<Rightarrow> ('f, 'n, 'b) prog) \<Rightarrow> ('f, 'n, 'b) prog" where
  "bind (Ret x) f = f x"
| "bind (Load l k) f = Load l (\<lambda>x. bind (k x) f)"
| "bind (Store l p k) f = Store l p (bind k f)"
| "bind (Compare_and_set l u v k) f = Compare_and_set l u v (\<lambda>x. bind (k x) f)"
| "bind (Fetch_or l t k) f = Fetch_or l t (\<lambda>x. bind (k x) f)"
| "bind (Deref p k) f = Deref p (\<lambda>x. bind (k x) f)"
| "bind (Deref_mut p n k) f = Deref_mut p n (bind k f)"
| "bind (Owned_new n fs k) f = Owned_new n fs (\<lambda>x. bind (k x) f)"
| "bind (Drop_owned p k) f = Drop_owned p (bind k f)"
| "bind (Drop_value p k) f = Drop_value p (bind k f)"
| "bind (Defer_destroy p k) f = Defer_destroy p (bind k f)"
| "bind (Shield_null k) f = Shield_null (\<lambda>x. bind (k x) f)"
| "bind (Shield_new p k) f = Shield_new p (\<lambda>x. bind (k x) f)"
| "bind (Shield_drop i k) f = Shield_drop i (bind k f)"
| "bind (Defend i p k) f = Defend i p (\<lambda>x. bind (k x) f)"
| "bind (Defend_fake i p k) f = Defend_fake i p (bind k f)"
| "bind (Release i k) f = Release i (bind k f)"
| "bind (Shield_shared i k) f = Shield_shared i (\<lambda>x. bind (k x) f)"
| "bind (Repin k) f = Repin (bind k f)"
| "bind Panic f = Panic"
| "bind Out_of_fuel f = Out_of_fuel"

lemma bind_Ret [simp]: "bind p Ret = p"
  by (induction p) auto

lemma bind_assoc: "bind (bind p f) g = bind p (\<lambda>x. bind (f x) g)"
  by (induction p) auto

section \<open>The interface as a parameter\<close>

record ('f, 'n, 's) crossbeam =
  x_load :: "'f loc \<Rightarrow> 's \<Rightarrow> shared \<times> 's"
  x_store :: "'f loc \<Rightarrow> shared \<Rightarrow> 's \<Rightarrow> 's"
  x_compare_and_set :: "'f loc \<Rightarrow> shared \<Rightarrow> shared \<Rightarrow> 's \<Rightarrow> (shared + shared) \<times> 's"
  x_fetch_or :: "'f loc \<Rightarrow> nat \<Rightarrow> 's \<Rightarrow> shared \<times> 's"
  x_deref :: "shared \<Rightarrow> 's \<Rightarrow> 'n \<times> 's"
  x_deref_mut :: "shared \<Rightarrow> 'n \<Rightarrow> 's \<Rightarrow> 's"
  x_owned_new :: "'n \<Rightarrow> ('f \<times> shared) list \<Rightarrow> 's \<Rightarrow> shared \<times> 's"
  x_drop_owned :: "shared \<Rightarrow> 's \<Rightarrow> 's"
  x_drop_value :: "shared \<Rightarrow> 's \<Rightarrow> 's"
  x_defer_destroy :: "shared \<Rightarrow> 's \<Rightarrow> 's"
  x_shield_null :: "'s \<Rightarrow> nat \<times> 's"
  x_shield_new :: "shared \<Rightarrow> 's \<Rightarrow> (shield_error + nat) \<times> 's"
  x_shield_drop :: "nat \<Rightarrow> 's \<Rightarrow> 's"
  x_defend :: "nat \<Rightarrow> shared \<Rightarrow> 's \<Rightarrow> (shield_error + unit) \<times> 's"
  x_defend_fake :: "nat \<Rightarrow> shared \<Rightarrow> 's \<Rightarrow> 's"
  x_release :: "nat \<Rightarrow> 's \<Rightarrow> 's"
  x_shield_shared :: "nat \<Rightarrow> 's \<Rightarrow> shared \<times> 's"
  x_repin :: "'s \<Rightarrow> 's"

datatype 'a outcome = Returned 'a | Panicked | Exhausted

text \<open>Running a program alone on an implementation of the interface.\<close>

primrec run :: "('f, 'n, 's) crossbeam \<Rightarrow> ('f, 'n, 'a) prog \<Rightarrow> 's \<Rightarrow> 'a outcome \<times> 's" where
  "run X (Ret x) s = (Returned x, s)"
| "run X (Load l k) s = (case x_load X l s of (p, s') \<Rightarrow> run X (k p) s')"
| "run X (Store l p k) s = run X k (x_store X l p s)"
| "run X (Compare_and_set l u v k) s =
     (case x_compare_and_set X l u v s of (r, s') \<Rightarrow> run X (k r) s')"
| "run X (Fetch_or l t k) s = (case x_fetch_or X l t s of (p, s') \<Rightarrow> run X (k p) s')"
| "run X (Deref p k) s = (case x_deref X p s of (n, s') \<Rightarrow> run X (k n) s')"
| "run X (Deref_mut p n k) s = run X k (x_deref_mut X p n s)"
| "run X (Owned_new n fs k) s = (case x_owned_new X n fs s of (p, s') \<Rightarrow> run X (k p) s')"
| "run X (Drop_owned p k) s = run X k (x_drop_owned X p s)"
| "run X (Drop_value p k) s = run X k (x_drop_value X p s)"
| "run X (Defer_destroy p k) s = run X k (x_defer_destroy X p s)"
| "run X (Shield_null k) s = (case x_shield_null X s of (i, s') \<Rightarrow> run X (k i) s')"
| "run X (Shield_new p k) s = (case x_shield_new X p s of (r, s') \<Rightarrow> run X (k r) s')"
| "run X (Shield_drop i k) s = run X k (x_shield_drop X i s)"
| "run X (Defend i p k) s = (case x_defend X i p s of (r, s') \<Rightarrow> run X (k r) s')"
| "run X (Defend_fake i p k) s = run X k (x_defend_fake X i p s)"
| "run X (Release i k) s = run X k (x_release X i s)"
| "run X (Shield_shared i k) s = (case x_shield_shared X i s of (p, s') \<Rightarrow> run X (k p) s')"
| "run X (Repin k) s = run X k (x_repin X s)"
| "run X Panic s = (Panicked, s)"
| "run X Out_of_fuel s = (Exhausted, s)"

lemma run_bind:
  "run X (bind p f) s =
     (case run X p s of
        (Returned x, s') \<Rightarrow> run X (f x) s'
      | (Panicked, s') \<Rightarrow> (Panicked, s')
      | (Exhausted, s') \<Rightarrow> (Exhausted, s'))"
  by (induction p arbitrary: s) (auto split: prod.splits)

section \<open>Weakest preconditions over the documented behaviour\<close>

text \<open>
  \<open>wp p Q m\<close>: from memory \<open>m\<close>, whatever the interface answers within its
  documentation, the program meets the safety contract of every call it makes, returns, and the
  result and final memory satisfy \<open>Q\<close>.  The choices left open are the address of an
  allocation, which retired nodes the collector has reclaimed after a
  \<^verbatim>\<open>defer_destroy\<close> or a \<^verbatim>\<open>repin\<close> (possibly the node just retired), and
  whether a \<^verbatim>\<open>defend\<close> reports an ejection.
\<close>

primrec wp :: "('f, 'n, 'a) prog \<Rightarrow> ('a \<Rightarrow> ('f, 'n) mem \<Rightarrow> bool) \<Rightarrow> ('f, 'n) mem \<Rightarrow> bool" where
  "wp (Ret x) Q m = Q x m"
| "wp (Load l k) Q m = (live m (fst l) \<and> wp (k (cell m l)) Q m)"
| "wp (Store l p k) Q m = (live m (fst l) \<and> wp k Q (set_cell l p m))"
| "wp (Compare_and_set l u v k) Q m =
     (live m (fst l) \<and>
      (if cell m l = u then wp (k (Inr v)) Q (set_cell l v m) else wp (k (Inl (cell m l))) Q m))"
| "wp (Fetch_or l t k) Q m =
     (live m (fst l) \<and>
      wp (k (cell m l)) Q (set_cell l (with_tag (cell m l) (tag (cell m l) OR t)) m))"
| "wp (Deref p k) Q m = (\<exists>n. obj m (raw p) = Some n \<and> wp (k n) Q m)"
| "wp (Deref_mut p n k) Q m = (obj m (raw p) \<noteq> None \<and> wp k Q (set_obj (raw p) n m))"
| "wp (Owned_new n fs k) Q m = (\<forall>a. fresh m a \<longrightarrow> wp (k (Shared a 0)) Q (alloc a n fs m))"
| "wp (Drop_owned p k) Q m =
     (obj m (raw p) \<noteq> None \<and> raw p \<notin> set (garbage m) \<and> wp k Q (free (raw p) m))"
| "wp (Drop_value p k) Q m = (obj m (raw p) \<noteq> None \<and> wp k Q (drop_val (raw p) m))"
| "wp (Defer_destroy p k) Q m =
     (obj m (raw p) \<noteq> None \<and> raw p \<notin> set (garbage m) \<and>
      (\<forall>R. wp k Q (reclaim R (retire (raw p) m))))"
| "wp (Shield_null k) Q m =
     (\<forall>i. shield m i = None \<longrightarrow> wp (k i) Q (set_shield i (Some null) m))"
| "wp (Shield_new p k) Q m =
     ((\<forall>i. shield m i = None \<longrightarrow> wp (k (Inr i)) Q (set_shield i (Some p) m)) \<and>
      (0 < ejections m \<longrightarrow> wp (k (Inl Ejected)) Q (use_ejection m)))"
| "wp (Shield_drop i k) Q m = (shield m i \<noteq> None \<and> wp k Q (set_shield i None m))"
| "wp (Defend i p k) Q m =
     (shield m i \<noteq> None \<and>
      wp (k (Inr ())) Q (set_shield i (Some p) m) \<and>
      (0 < ejections m \<longrightarrow>
        (\<forall>q. wp (k (Inl Ejected)) Q (use_ejection (set_shield i (Some q) m)))))"
| "wp (Defend_fake i p k) Q m = (shield m i \<noteq> None \<and> wp k Q (set_shield i (Some p) m))"
| "wp (Release i k) Q m = (shield m i \<noteq> None \<and> wp k Q (set_shield i (Some null) m))"
| "wp (Shield_shared i k) Q m = (\<exists>p. shield m i = Some p \<and> wp (k p) Q m)"
| "wp (Repin k) Q m = (\<forall>R. wp k Q (reclaim R m))"
| "wp Panic Q m = False"
| "wp Out_of_fuel Q m = False"

lemma wp_bind: "wp (bind p f) Q m = wp p (\<lambda>x. wp (f x) Q) m"
  by (induction p arbitrary: m) auto

lemma wp_Ret [simp]: "wp (Ret x) Q = Q x"
  by (rule ext) simp

lemma wp_mono:
  "wp p Q m \<Longrightarrow> (\<And>x m'. Q x m' \<Longrightarrow> Q' x m') \<Longrightarrow> wp p Q' m"
  by (induction p arbitrary: m) (auto split: if_splits)

lemma wp_bind_mono:
  assumes "wp p Q' m" and "\<And>x m'. Q' x m' \<Longrightarrow> wp (f x) Q m'"
  shows "wp (bind p f) Q m"
  unfolding wp_bind using assms by (rule wp_mono)

section \<open>Safe runs\<close>

text \<open>
  \<open>safe_run X view p s\<close>: in the run of \<open>p\<close> from \<open>s\<close> every call meets its
  safety contract when it is made: \<^verbatim>\<open>Atomic\<close> accesses and dereferences go to live
  memory, nothing is freed or retired twice, and only existing shields are used.
\<close>

primrec safe_run :: "('f, 'n, 's) crossbeam \<Rightarrow> ('s \<Rightarrow> ('f, 'n) mem) \<Rightarrow> ('f, 'n, 'a) prog \<Rightarrow> 's \<Rightarrow> bool" where
  "safe_run X view (Ret x) s = True"
| "safe_run X view (Load l k) s =
     (live (view s) (fst l) \<and> (case x_load X l s of (p, s') \<Rightarrow> safe_run X view (k p) s'))"
| "safe_run X view (Store l p k) s =
     (live (view s) (fst l) \<and> safe_run X view k (x_store X l p s))"
| "safe_run X view (Compare_and_set l u v k) s =
     (live (view s) (fst l) \<and>
      (case x_compare_and_set X l u v s of (r, s') \<Rightarrow> safe_run X view (k r) s'))"
| "safe_run X view (Fetch_or l t k) s =
     (live (view s) (fst l) \<and> (case x_fetch_or X l t s of (p, s') \<Rightarrow> safe_run X view (k p) s'))"
| "safe_run X view (Deref p k) s =
     (obj (view s) (raw p) \<noteq> None \<and> (case x_deref X p s of (n, s') \<Rightarrow> safe_run X view (k n) s'))"
| "safe_run X view (Deref_mut p n k) s =
     (obj (view s) (raw p) \<noteq> None \<and> safe_run X view k (x_deref_mut X p n s))"
| "safe_run X view (Owned_new n fs k) s =
     (case x_owned_new X n fs s of (p, s') \<Rightarrow> safe_run X view (k p) s')"
| "safe_run X view (Drop_owned p k) s =
     (obj (view s) (raw p) \<noteq> None \<and> raw p \<notin> set (garbage (view s)) \<and>
      safe_run X view k (x_drop_owned X p s))"
| "safe_run X view (Drop_value p k) s =
     (obj (view s) (raw p) \<noteq> None \<and> safe_run X view k (x_drop_value X p s))"
| "safe_run X view (Defer_destroy p k) s =
     (obj (view s) (raw p) \<noteq> None \<and> raw p \<notin> set (garbage (view s)) \<and>
      safe_run X view k (x_defer_destroy X p s))"
| "safe_run X view (Shield_null k) s =
     (case x_shield_null X s of (i, s') \<Rightarrow> safe_run X view (k i) s')"
| "safe_run X view (Shield_new p k) s =
     (case x_shield_new X p s of (r, s') \<Rightarrow> safe_run X view (k r) s')"
| "safe_run X view (Shield_drop i k) s =
     (shield (view s) i \<noteq> None \<and> safe_run X view k (x_shield_drop X i s))"
| "safe_run X view (Defend i p k) s =
     (shield (view s) i \<noteq> None \<and>
      (case x_defend X i p s of (r, s') \<Rightarrow> safe_run X view (k r) s'))"
| "safe_run X view (Defend_fake i p k) s =
     (shield (view s) i \<noteq> None \<and> safe_run X view k (x_defend_fake X i p s))"
| "safe_run X view (Release i k) s =
     (shield (view s) i \<noteq> None \<and> safe_run X view k (x_release X i s))"
| "safe_run X view (Shield_shared i k) s =
     (shield (view s) i \<noteq> None \<and>
      (case x_shield_shared X i s of (p, s') \<Rightarrow> safe_run X view (k p) s'))"
| "safe_run X view (Repin k) s = safe_run X view k (x_repin X s)"
| "safe_run X view Panic s = False"
| "safe_run X view Out_of_fuel s = False"

section \<open>What the documentation promises\<close>

text \<open>
  \<open>view\<close> reads the memory off the state of an implementation and \<open>ok\<close> is the
  implementation's own invariant.  Each law is the documentation of one call; the calls that are
  \<^verbatim>\<open>unsafe\<close> are specified only where their safety contract holds.
\<close>

locale crossbeam_api =
  fixes X :: "('f, 'n, 's) crossbeam"
    and view :: "'s \<Rightarrow> ('f, 'n) mem"
    and ok :: "'s \<Rightarrow> bool"
  assumes load: "ok s \<Longrightarrow> live (view s) (fst l) \<Longrightarrow> x_load X l s = (p, s') \<Longrightarrow>
      ok s' \<and> p = cell (view s) l \<and> view s' = view s"
    and store: "ok s \<Longrightarrow> live (view s) (fst l) \<Longrightarrow> x_store X l p s = s' \<Longrightarrow>
      ok s' \<and> view s' = set_cell l p (view s)"
    and compare_and_set: "ok s \<Longrightarrow> live (view s) (fst l) \<Longrightarrow> x_compare_and_set X l u v s = (r, s') \<Longrightarrow>
      ok s' \<and> (if cell (view s) l = u then r = Inr v \<and> view s' = set_cell l v (view s)
               else r = Inl (cell (view s) l) \<and> view s' = view s)"
    and fetch_or: "ok s \<Longrightarrow> live (view s) (fst l) \<Longrightarrow> x_fetch_or X l t s = (p, s') \<Longrightarrow>
      ok s' \<and> p = cell (view s) l \<and>
      view s' = set_cell l (with_tag p (tag p OR t)) (view s)"
    and deref: "ok s \<Longrightarrow> obj (view s) (raw p) = Some n \<Longrightarrow> x_deref X p s = (n', s') \<Longrightarrow>
      ok s' \<and> n' = n \<and> view s' = view s"
    and deref_mut: "ok s \<Longrightarrow> obj (view s) (raw p) \<noteq> None \<Longrightarrow> x_deref_mut X p n s = s' \<Longrightarrow>
      ok s' \<and> view s' = set_obj (raw p) n (view s)"
    and owned_new: "ok s \<Longrightarrow> x_owned_new X n fs s = (p, s') \<Longrightarrow>
      ok s' \<and> tag p = 0 \<and> fresh (view s) (raw p) \<and> view s' = alloc (raw p) n fs (view s)"
    and drop_owned: "ok s \<Longrightarrow> obj (view s) (raw p) \<noteq> None \<Longrightarrow> raw p \<notin> set (garbage (view s)) \<Longrightarrow>
      x_drop_owned X p s = s' \<Longrightarrow> ok s' \<and> view s' = free (raw p) (view s)"
    and drop_value: "ok s \<Longrightarrow> obj (view s) (raw p) \<noteq> None \<Longrightarrow> x_drop_value X p s = s' \<Longrightarrow>
      ok s' \<and> view s' = drop_val (raw p) (view s)"
    and defer_destroy: "ok s \<Longrightarrow> obj (view s) (raw p) \<noteq> None \<Longrightarrow> raw p \<notin> set (garbage (view s)) \<Longrightarrow>
      x_defer_destroy X p s = s' \<Longrightarrow>
      ok s' \<and> (\<exists>R. view s' = reclaim R (retire (raw p) (view s)))"
    and shield_null: "ok s \<Longrightarrow> x_shield_null X s = (i, s') \<Longrightarrow>
      ok s' \<and> shield (view s) i = None \<and> view s' = set_shield i (Some null) (view s)"
    and shield_new: "ok s \<Longrightarrow> x_shield_new X p s = (rn, s') \<Longrightarrow>
      ok s' \<and> (case rn of
        Inr i \<Rightarrow> shield (view s) i = None \<and> view s' = set_shield i (Some p) (view s)
      | Inl Ejected \<Rightarrow> 0 < ejections (view s) \<and> view s' = use_ejection (view s))"
    and shield_drop: "ok s \<Longrightarrow> shield (view s) i \<noteq> None \<Longrightarrow> x_shield_drop X i s = s' \<Longrightarrow>
      ok s' \<and> view s' = set_shield i None (view s)"
    and defend: "ok s \<Longrightarrow> shield (view s) i \<noteq> None \<Longrightarrow> x_defend X i p s = (rd, s') \<Longrightarrow>
      ok s' \<and> (case rd of
        Inr _ \<Rightarrow> view s' = set_shield i (Some p) (view s)
      | Inl Ejected \<Rightarrow> 0 < ejections (view s) \<and>
          (\<exists>q. view s' = use_ejection (set_shield i (Some q) (view s))))"
    and defend_fake: "ok s \<Longrightarrow> shield (view s) i \<noteq> None \<Longrightarrow> x_defend_fake X i p s = s' \<Longrightarrow>
      ok s' \<and> view s' = set_shield i (Some p) (view s)"
    and release: "ok s \<Longrightarrow> shield (view s) i \<noteq> None \<Longrightarrow> x_release X i s = s' \<Longrightarrow>
      ok s' \<and> view s' = set_shield i (Some null) (view s)"
    and shield_shared: "ok s \<Longrightarrow> shield (view s) i = Some p \<Longrightarrow> x_shield_shared X i s = (q, s') \<Longrightarrow>
      ok s' \<and> q = p \<and> view s' = view s"
    and repin: "ok s \<Longrightarrow> x_repin X s = s' \<Longrightarrow> ok s' \<and> (\<exists>R. view s' = reclaim R (view s))"
begin

text \<open>Adequacy: a weakest precondition gives a real run that returns.\<close>

lemma wp_sound:
  assumes "wp p Q (view s)" and "ok s"
  shows "\<exists>x s'. run X p s = (Returned x, s') \<and> safe_run X view p s \<and> ok s' \<and> Q x (view s')"
  using assms
proof (induction p arbitrary: s)
  case (Load l k)
  obtain q s' where "x_load X l s = (q, s')" by fastforce
  with Load load[of s l q s'] show ?case by auto
next
  case (Store l p k)
  with store[OF Store.prems(2) _ refl, of l p] show ?case by auto
next
  case (Compare_and_set l u v k)
  obtain r s' where "x_compare_and_set X l u v s = (r, s')" by fastforce
  with Compare_and_set compare_and_set[of s l u v r s'] show ?case by (auto split: if_splits)
next
  case (Fetch_or l t k)
  obtain q s' where "x_fetch_or X l t s = (q, s')" by fastforce
  with Fetch_or fetch_or[of s l t q s'] show ?case by auto
next
  case (Deref p k)
  obtain n s' where "x_deref X p s = (n, s')" by fastforce
  with Deref deref[of s p _ n s'] show ?case by auto
next
  case (Deref_mut p n k)
  with deref_mut[OF Deref_mut.prems(2) _ refl, of p n] show ?case by auto
next
  case (Owned_new n fs k)
  obtain q s' where q: "x_owned_new X n fs s = (q, s')" by fastforce
  with owned_new[OF Owned_new.prems(2) q] have "q = Shared (raw q) 0"
    by (cases q) simp
  with q Owned_new owned_new[OF Owned_new.prems(2) q] show ?case
    by (metis (no_types, lifting) case_prod_conv rangeI run.simps(8) safe_run.simps(8) wp.simps(8))
next
  case (Drop_owned p k)
  with drop_owned[OF Drop_owned.prems(2) _ _ refl, of p] show ?case by auto
next
  case (Drop_value p k)
  with drop_value[OF Drop_value.prems(2) _ refl, of p] show ?case by auto
next
  case (Defer_destroy p k)
  with defer_destroy[OF Defer_destroy.prems(2) _ _ refl, of p] show ?case by fastforce
next
  case (Shield_null k)
  obtain i s' where "x_shield_null X s = (i, s')" by fastforce
  with Shield_null shield_null[of s i s'] show ?case by auto
next
  case (Shield_new p k)
  obtain r s' where "x_shield_new X p s = (r, s')" by fastforce
  with Shield_new shield_new[of s p r s'] show ?case
    by (auto split: sum.splits shield_error.splits)
next
  case (Shield_drop i k)
  with shield_drop[OF Shield_drop.prems(2) _ refl, of i] show ?case by auto
next
  case (Defend i p k)
  obtain r s' where "x_defend X i p s = (r, s')" by fastforce
  with Defend defend[of s i p r s'] show ?case
    by (auto split: sum.splits shield_error.splits)
next
  case (Defend_fake i p k)
  with defend_fake[OF Defend_fake.prems(2) _ refl, of i p] show ?case by auto
next
  case (Release i k)
  with release[OF Release.prems(2) _ refl, of i] show ?case by auto
next
  case (Shield_shared i k)
  obtain q s' where "x_shield_shared X i s = (q, s')" by fastforce
  with Shield_shared shield_shared[of s i _ q s'] show ?case by auto
next
  case (Repin k)
  with repin[OF Repin.prems(2) refl] show ?case by fastforce
qed auto

end

text \<open>
  How results about a run are stated: the program returns, meets the safety contract of every call
  it makes, leaves the implementation in order, and its result and final memory satisfy \<open>Q\<close>.
\<close>

definition completes ::
  "('f, 'n, 's) crossbeam \<Rightarrow> ('s \<Rightarrow> ('f, 'n) mem) \<Rightarrow> ('s \<Rightarrow> bool) \<Rightarrow> ('f, 'n, 'a) prog \<Rightarrow> 's \<Rightarrow>
    ('a \<Rightarrow> ('f, 'n) mem \<Rightarrow> bool) \<Rightarrow> bool" where
  "completes X view ok p s Q \<longleftrightarrow>
     (\<exists>x s'. run X p s = (Returned x, s') \<and> safe_run X view p s \<and> ok s' \<and> Q x (view s'))"

lemma wp_completes:
  "crossbeam_api X view ok \<Longrightarrow> ok s \<Longrightarrow> wp p Q (view s) \<Longrightarrow> completes X view ok p s Q"
  unfolding completes_def by (rule crossbeam_api.wp_sound)

section \<open>A sequentially consistent implementation\<close>

text \<open>
  An implementation of the interface that meets the laws, for evaluating the translated code on
  concrete inputs: addresses and shield numbers are handed out in increasing order, a list of
  booleans says which of the next \<^verbatim>\<open>defend\<close> calls find the guard ejected, and
  \<^verbatim>\<open>repin\<close> reclaims everything retired.
\<close>

record ('f, 'n) sc =
  sc_mem :: "('f, 'n) mem"
  sc_next :: addr
  sc_next_shield :: nat
  sc_eject :: "bool list"

definition sc_view :: "('f, 'n) sc \<Rightarrow> ('f, 'n) mem" where
  "sc_view s = (sc_mem s)\<lparr>ejections := length (filter id (sc_eject s))\<rparr>"

definition sc_ok :: "('f, 'n) sc \<Rightarrow> bool" where
  "sc_ok s \<longleftrightarrow> 0 < sc_next s \<and>
     (\<forall>a\<ge>sc_next s. obj (sc_mem s) a = None \<and> a \<notin> statics (sc_mem s)) \<and>
     (\<forall>i\<ge>sc_next_shield s. shield (sc_mem s) i = None)"

definition sc_upd :: "(('f, 'n) mem \<Rightarrow> ('f, 'n) mem) \<Rightarrow> ('f, 'n) sc \<Rightarrow> ('f, 'n) sc" where
  "sc_upd g s = s\<lparr>sc_mem := g (sc_mem s)\<rparr>"

definition sc_defend :: "nat \<Rightarrow> shared \<Rightarrow> ('f, 'n) sc \<Rightarrow> (shield_error + unit) \<times> ('f, 'n) sc" where
  "sc_defend i p s =
     (let s' = sc_upd (set_shield i (Some p)) (s\<lparr>sc_eject := tl (sc_eject s)\<rparr>)
      in (if sc_eject s \<noteq> [] \<and> hd (sc_eject s) then Inl Ejected else Inr (), s'))"

definition sc_shield_new :: "shared \<Rightarrow> ('f, 'n) sc \<Rightarrow> (shield_error + nat) \<times> ('f, 'n) sc" where
  "sc_shield_new p s =
     (let i = sc_next_shield s; s' = s\<lparr>sc_eject := tl (sc_eject s)\<rparr>
      in if sc_eject s \<noteq> [] \<and> hd (sc_eject s) then (Inl Ejected, s')
         else (Inr i, sc_upd (set_shield i (Some p)) (s'\<lparr>sc_next_shield := Suc i\<rparr>)))"

definition sc_api :: "('f, 'n, ('f, 'n) sc) crossbeam" where
  "sc_api = \<lparr>
     x_load = (\<lambda>l s. (cell (sc_mem s) l, s)),
     x_store = (\<lambda>l p. sc_upd (set_cell l p)),
     x_compare_and_set = (\<lambda>l u v s. if cell (sc_mem s) l = u then (Inr v, sc_upd (set_cell l v) s)
                                    else (Inl (cell (sc_mem s) l), s)),
     x_fetch_or = (\<lambda>l t s. (cell (sc_mem s) l,
        sc_upd (set_cell l (with_tag (cell (sc_mem s) l) (tag (cell (sc_mem s) l) OR t))) s)),
     x_deref = (\<lambda>p s. (the (obj (sc_mem s) (raw p)), s)),
     x_deref_mut = (\<lambda>p n. sc_upd (set_obj (raw p) n)),
     x_owned_new = (\<lambda>n fs s. (Shared (sc_next s) 0,
        sc_upd (alloc (sc_next s) n fs) (s\<lparr>sc_next := Suc (sc_next s)\<rparr>))),
     x_drop_owned = (\<lambda>p. sc_upd (free (raw p))),
     x_drop_value = (\<lambda>p. sc_upd (drop_val (raw p))),
     x_defer_destroy = (\<lambda>p. sc_upd (retire (raw p))),
     x_shield_null = (\<lambda>s. (sc_next_shield s,
        sc_upd (set_shield (sc_next_shield s) (Some null)) (s\<lparr>sc_next_shield := Suc (sc_next_shield s)\<rparr>))),
     x_shield_new = sc_shield_new,
     x_shield_drop = (\<lambda>i. sc_upd (set_shield i None)),
     x_defend = sc_defend,
     x_defend_fake = (\<lambda>i p. sc_upd (set_shield i (Some p))),
     x_release = (\<lambda>i. sc_upd (set_shield i (Some null))),
     x_shield_shared = (\<lambda>i s. (the (shield (sc_mem s) i), s)),
     x_repin = (\<lambda>s. sc_upd (reclaim (set (garbage (sc_mem s)))) s)\<rparr>"

lemma sc_upd_sel [simp]:
  "sc_mem (sc_upd g s) = g (sc_mem s)" "sc_next (sc_upd g s) = sc_next s"
  "sc_next_shield (sc_upd g s) = sc_next_shield s" "sc_eject (sc_upd g s) = sc_eject s"
  by (simp_all add: sc_upd_def)

lemma sc_view_fields [simp]:
  "cell (sc_view s) = cell (sc_mem s)" "obj (sc_view s) = obj (sc_mem s)"
  "statics (sc_view s) = statics (sc_mem s)" "garbage (sc_view s) = garbage (sc_mem s)"
  "retired (sc_view s) = retired (sc_mem s)" "freed (sc_view s) = freed (sc_mem s)"
  "dropped (sc_view s) = dropped (sc_mem s)" "shield (sc_view s) = shield (sc_mem s)"
  "ejections (sc_view s) = length (filter id (sc_eject s))"
  by (simp_all add: sc_view_def)

lemma mem_eqI:
  fixes m m' :: "('f, 'n) mem"
  assumes "cell m = cell m'" "obj m = obj m'" "statics m = statics m'" "garbage m = garbage m'"
    "retired m = retired m'" "freed m = freed m'" "dropped m = dropped m'" "shield m = shield m'"
    "ejections m = ejections m'"
  shows "m = m'"
  using assms by simp

interpretation sc: crossbeam_api sc_api sc_view sc_ok
proof (unfold_locales, goal_cases)
  case (1 s l p s') then show ?case by (auto simp: sc_api_def)
next
  case (2 s l p s') then show ?case by (auto simp: sc_api_def sc_ok_def intro: mem_eqI)
next
  case (3 s l u v r s') then show ?case
    by (auto simp: sc_api_def sc_ok_def intro: mem_eqI split: if_splits)
next
  case (4 s l t p s') then show ?case by (auto simp: sc_api_def sc_ok_def intro: mem_eqI)
next
  case (5 s p n n' s') then show ?case by (auto simp: sc_api_def)
next
  case (6 s p n s') then show ?case
    by (auto simp: sc_api_def sc_ok_def intro: mem_eqI)
next
  case (7 s n fs p s') then show ?case
    by (auto simp: sc_api_def sc_ok_def fresh_def intro: mem_eqI)
next
  case (8 s p s') then show ?case by (auto simp: sc_api_def sc_ok_def intro: mem_eqI)
next
  case (9 s p s') then show ?case by (auto simp: sc_api_def sc_ok_def intro: mem_eqI)
next
  case (10 s p s') then show ?case
    by (auto simp: sc_api_def sc_ok_def intro: mem_eqI exI[of _ "{}"])
next
  case (11 s i s') then show ?case by (auto simp: sc_api_def sc_ok_def intro: mem_eqI)
next
  case (12 s p rn s') then show ?case
    by (cases "sc_eject s") (auto simp: sc_api_def sc_ok_def sc_shield_new_def Let_def intro: mem_eqI split: if_splits)
next
  case (13 s i s') then show ?case by (auto simp: sc_api_def sc_ok_def intro: mem_eqI)
next
  case (14 s i p rd s') then show ?case
    by (cases "sc_eject s") (auto simp: sc_api_def sc_ok_def sc_defend_def Let_def intro!: mem_eqI exI[of _ p] split: if_splits)
next
  case (15 s i p s') then show ?case by (auto simp: sc_api_def sc_ok_def intro: mem_eqI)
next
  case (16 s i s') then show ?case by (auto simp: sc_api_def sc_ok_def intro: mem_eqI)
next
  case (17 s i p q s') then show ?case by (auto simp: sc_api_def)
next
  case (18 s s') then show ?case
    by (auto simp: sc_api_def sc_ok_def restrict_map_def intro!: mem_eqI exI[of _ "set (garbage (sc_mem s))"])
qed

text \<open>A state to start from: the given structures are allocated, nothing else is.\<close>

definition sc_start :: "addr set \<Rightarrow> addr \<Rightarrow> ('f loc \<Rightarrow> shared) \<Rightarrow> (addr \<rightharpoonup> 'n) \<Rightarrow> bool list \<Rightarrow> ('f, 'n) sc" where
  "sc_start A a c h es = \<lparr>
     sc_mem = \<lparr>cell = c, obj = h, statics = A, garbage = [], retired = [], freed = [], dropped = [],
       shield = Map.empty, ejections = 0\<rparr>,
     sc_next = a, sc_next_shield = 0, sc_eject = es\<rparr>"

lemma sc_ok_start:
  "0 < a \<Longrightarrow> A \<subseteq> {..<a} \<Longrightarrow> dom h \<subseteq> {..<a} \<Longrightarrow> sc_ok (sc_start A a c h es)"
  by (force simp: sc_ok_def sc_start_def)

lemma sc_start_sel [simp]:
  "sc_mem (sc_start A a c h es) = \<lparr>cell = c, obj = h, statics = A, garbage = [], retired = [],
     freed = [], dropped = [], shield = Map.empty, ejections = 0\<rparr>"
  "sc_next (sc_start A a c h es) = a" "sc_eject (sc_start A a c h es) = es"
  by (simp_all add: sc_start_def)

lemma garbage_ok_start [simp]: "garbage_ok (sc_view (sc_start A a c h es))"
  by (simp add: garbage_ok_def)

end
