(* ===== verification/Concurrent_Map.thy ===== *)
theory Concurrent_Map
  imports Crossbeam
begin

text \<open>
  The trait \<^verbatim>\<open>ConcurrentMap\<close> of \<^verbatim>\<open>src/src/ebr/concurrent_map.rs\<close> as a
  record of its methods, what an implementation promises (\<open>map_impl\<close>), and what clients
  may conclude: any sequence of calls answers as a finite map would.
\<close>

section \<open>The trait\<close>

text \<open>
  \<open>'h\<close> stands for \<^verbatim>\<open>&self\<close>: where the structure lives.  The \<open>nat\<close>
  argument bounds the loops of a call.
\<close>

record ('h, 'k, 'v, 'f, 'n) concurrent_map =
  map_new :: "'h \<Rightarrow> ('f, 'n, unit) prog"
  map_get :: "'h \<Rightarrow> nat \<Rightarrow> 'k \<Rightarrow> ('f, 'n, 'v option) prog"
  map_insert :: "'h \<Rightarrow> nat \<Rightarrow> 'k \<Rightarrow> 'v \<Rightarrow> ('f, 'n, bool) prog"
  map_remove :: "'h \<Rightarrow> nat \<Rightarrow> 'k \<Rightarrow> ('f, 'n, 'v option) prog"

datatype ('k, 'v) request = Get_req 'k | Insert_req 'k 'v | Remove_req 'k

datatype 'v response = Got "'v option" | Inserted bool | Removed "'v option"

fun req_key :: "('k, 'v) request \<Rightarrow> 'k" where
  "req_key (Get_req k) = k"
| "req_key (Insert_req k v) = k"
| "req_key (Remove_req k) = k"

text \<open>The abstract specification: the calls on a finite map.\<close>

fun spec_call :: "('k, 'v) request \<Rightarrow> ('k \<rightharpoonup> 'v) \<Rightarrow> 'v response \<times> ('k \<rightharpoonup> 'v)" where
  "spec_call (Get_req k) M = (Got (M k), M)"
| "spec_call (Insert_req k v) M =
     (if M k = None then (Inserted True, M(k \<mapsto> v)) else (Inserted False, M))"
| "spec_call (Remove_req k) M = (Removed (M k), M(k := None))"

fun spec_calls :: "('k, 'v) request list \<Rightarrow> ('k \<rightharpoonup> 'v) \<Rightarrow> 'v response list \<times> ('k \<rightharpoonup> 'v)" where
  "spec_calls [] M = ([], M)"
| "spec_calls (q # qs) M =
     (case spec_call q M of (r, M1) \<Rightarrow> case spec_calls qs M1 of (rs, M2) \<Rightarrow> (r # rs, M2))"

section \<open>Clients\<close>

fun call :: "('h, 'k, 'v, 'f, 'n) concurrent_map \<Rightarrow> 'h \<Rightarrow> nat \<Rightarrow> ('k, 'v) request \<Rightarrow> ('f, 'n, 'v response) prog" where
  "call D h n (Get_req k) = bind (map_get D h n k) (\<lambda>r. Ret (Got r))"
| "call D h n (Insert_req k v) = bind (map_insert D h n k v) (\<lambda>r. Ret (Inserted r))"
| "call D h n (Remove_req k) = bind (map_remove D h n k) (\<lambda>r. Ret (Removed r))"

fun calls :: "('h, 'k, 'v, 'f, 'n) concurrent_map \<Rightarrow> 'h \<Rightarrow> nat \<Rightarrow> ('k, 'v) request list \<Rightarrow> ('f, 'n, 'v response list) prog" where
  "calls D h n [] = Ret []"
| "calls D h n (q # qs) = bind (call D h n q) (\<lambda>r. bind (calls D h n qs) (\<lambda>rs. Ret (r # rs)))"

section \<open>What an implementation promises\<close>

text \<open>
  \<open>repr h m M s\<close>: in memory \<open>m\<close> the structure at \<open>h\<close> represents the map
  \<open>M\<close>, and \<open>s\<close> bounds its size; a call needs fuel above that bound.
\<close>

locale map_impl =
  fixes D :: "('h, 'k, 'v, 'f, 'n) concurrent_map"
    and place :: "'h \<Rightarrow> ('f, 'n) mem \<Rightarrow> bool"
    and repr :: "'h \<Rightarrow> ('f, 'n) mem \<Rightarrow> ('k \<rightharpoonup> 'v) \<Rightarrow> nat \<Rightarrow> bool"
  assumes new_wp: "place h m \<Longrightarrow> wp (map_new D h) (\<lambda>_ m'. repr h m' Map.empty 0) m"
    and get_wp: "repr h m M s \<Longrightarrow> s < n \<Longrightarrow>
      wp (map_get D h n k) (\<lambda>r m'. r = M k \<and> repr h m' M s) m"
    and insert_wp: "repr h m M s \<Longrightarrow> s < n \<Longrightarrow>
      wp (map_insert D h n k v)
        (\<lambda>r m'. r = (M k = None) \<and> repr h m' (if M k = None then M(k \<mapsto> v) else M) (Suc s)) m"
    and remove_wp: "repr h m M s \<Longrightarrow> s < n \<Longrightarrow>
      wp (map_remove D h n k) (\<lambda>r m'. r = M k \<and> repr h m' (M(k := None)) s) m"
    and repr_mono: "repr h m M s \<Longrightarrow> s \<le> s' \<Longrightarrow> repr h m M s'"
begin

lemma call_wp:
  assumes "repr h m M s" "s < n"
  shows "wp (call D h n q) (\<lambda>r m'. \<exists>M'. spec_call q M = (r, M') \<and> repr h m' M' (Suc s)) m"
proof (cases q)
  case (Get_req k)
  then show ?thesis
    by (auto simp: wp_bind intro!: wp_mono[OF get_wp[OF assms]] intro: repr_mono)
next
  case (Insert_req k v)
  then show ?thesis
    by (auto simp: wp_bind intro!: wp_mono[OF insert_wp[OF assms]])
next
  case (Remove_req k)
  then show ?thesis
    by (auto simp: wp_bind intro!: wp_mono[OF remove_wp[OF assms]] intro: repr_mono)
qed

lemma calls_wp:
  assumes "repr h m M s" "s + length qs \<le> n"
  shows "wp (calls D h n qs)
    (\<lambda>rs m'. \<exists>M'. spec_calls qs M = (rs, M') \<and> repr h m' M' (s + length qs)) m"
  using assms
proof (induction qs arbitrary: m M s)
  case (Cons q qs)
  show ?case
    unfolding calls.simps
  proof (rule wp_bind_mono[OF call_wp[OF Cons.prems(1)]], goal_cases)
    case (2 r m1)
    then obtain M1 where M1: "spec_call q M = (r, M1)" "repr h m1 M1 (Suc s)" by blast
    show ?case
      using Cons.prems M1 by (auto simp: wp_bind intro!: wp_mono[OF Cons.IH[OF M1(2)]])
  qed (use Cons.prems in auto)
qed simp

text \<open>A new structure, then any sequence of calls.\<close>

lemma session_wp:
  assumes "place h m" "length qs \<le> n"
  shows "wp (bind (map_new D h) (\<lambda>_. calls D h n qs))
    (\<lambda>rs m'. \<exists>M'. spec_calls qs Map.empty = (rs, M') \<and> repr h m' M' (length qs)) m"
proof (rule wp_bind_mono[OF new_wp[OF assms(1)]])
  fix x :: unit and m' assume r: "repr h m' Map.empty 0"
  show "wp (calls D h n qs)
      (\<lambda>rs m'. \<exists>M'. spec_calls qs Map.empty = (rs, M') \<and> repr h m' M' (length qs)) m'"
    using calls_wp[OF r, of qs n] assms(2) by simp
qed

end

end
