(* ===== verification/Interleaving.thy ===== *)
theory Interleaving
  imports Concurrent_Map
begin

text \<open>
  Several threads on one map, under epoch-based reclamation.  A configuration holds the state of the
  reclamation library and, for every thread, the calls it still wants to make and the rest of the one
  it is in; \<open>tick\<close> lets one thread make its next interface call, so a schedule, a list of
  thread numbers, is an interleaving.  The locale \<open>ebr_threads\<close> states what the library promises
  to threads that share it, \<open>cwp\<close> is a weakest precondition under interference, and
  \<open>concurrent_object.interleave_correct\<close> derives from it that every interleaving is memory safe
  and linearizable.
\<close>

type_synonym tid = nat

section \<open>One interface call\<close>

fun step1 :: "('f, 'n, 's) crossbeam \<Rightarrow> ('f, 'n, 'a) prog \<Rightarrow> 's \<Rightarrow> ('f, 'n, 'a) prog \<times> 's" where
  "step1 X (Load l k) s = (case x_load X l s of (p, s') \<Rightarrow> (k p, s'))"
| "step1 X (Store l p k) s = (k, x_store X l p s)"
| "step1 X (Compare_and_set l u v k) s = (case x_compare_and_set X l u v s of (r, s') \<Rightarrow> (k r, s'))"
| "step1 X (Fetch_or l t k) s = (case x_fetch_or X l t s of (p, s') \<Rightarrow> (k p, s'))"
| "step1 X (Deref p k) s = (case x_deref X p s of (n, s') \<Rightarrow> (k n, s'))"
| "step1 X (Deref_mut p n k) s = (k, x_deref_mut X p n s)"
| "step1 X (Owned_new n fs k) s = (case x_owned_new X n fs s of (p, s') \<Rightarrow> (k p, s'))"
| "step1 X (Drop_owned p k) s = (k, x_drop_owned X p s)"
| "step1 X (Drop_value p k) s = (k, x_drop_value X p s)"
| "step1 X (Defer_destroy p k) s = (k, x_defer_destroy X p s)"
| "step1 X (Shield_null k) s = (case x_shield_null X s of (i, s') \<Rightarrow> (k i, s'))"
| "step1 X (Shield_new p k) s = (case x_shield_new X p s of (r, s') \<Rightarrow> (k r, s'))"
| "step1 X (Shield_drop i k) s = (k, x_shield_drop X i s)"
| "step1 X (Defend i p k) s = (case x_defend X i p s of (r, s') \<Rightarrow> (k r, s'))"
| "step1 X (Defend_fake i p k) s = (k, x_defend_fake X i p s)"
| "step1 X (Release i k) s = (k, x_release X i s)"
| "step1 X (Shield_shared i k) s = (case x_shield_shared X i s of (p, s') \<Rightarrow> (k p, s'))"
| "step1 X (Repin k) s = (k, x_repin X s)"
| "step1 X p s = (p, s)"

text \<open>A run alone is this step, repeated.\<close>

lemma run_step1: "run X p s = (case step1 X p s of (p', s') \<Rightarrow> run X p' s')"
  by (cases p) (simp_all split: prod.splits)

text \<open>The safety contract of the next call.\<close>

fun safe_call :: "('f, 'n, 'a) prog \<Rightarrow> ('f, 'n) mem \<Rightarrow> bool" where
  "safe_call (Load l k) m = live m (fst l)"
| "safe_call (Store l p k) m = live m (fst l)"
| "safe_call (Compare_and_set l u v k) m = live m (fst l)"
| "safe_call (Fetch_or l t k) m = live m (fst l)"
| "safe_call (Deref p k) m = (obj m (raw p) \<noteq> None)"
| "safe_call (Deref_mut p n k) m = (obj m (raw p) \<noteq> None)"
| "safe_call (Drop_owned p k) m = (obj m (raw p) \<noteq> None \<and> raw p \<notin> set (garbage m))"
| "safe_call (Drop_value p k) m = (obj m (raw p) \<noteq> None)"
| "safe_call (Defer_destroy p k) m = (obj m (raw p) \<noteq> None \<and> raw p \<notin> set (garbage m))"
| "safe_call (Shield_drop i k) m = (shield m i \<noteq> None)"
| "safe_call (Defend i p k) m = (shield m i \<noteq> None)"
| "safe_call (Defend_fake i p k) m = (shield m i \<noteq> None)"
| "safe_call (Release i k) m = (shield m i \<noteq> None)"
| "safe_call (Shield_shared i k) m = (shield m i \<noteq> None)"
| "safe_call Panic m = False"
| "safe_call p m = True"

section \<open>What the library promises to threads\<close>

text \<open>
  A pinned thread is recorded with the number of nodes that had been retired when it was pinned.
  Reclaiming \<open>S\<close> spares the pinned threads if nothing in it was retired after one of them was
  pinned: \<^verbatim>\<open>defer_destroy\<close> is documented to run once all threads that are pinned by then have
  been unpinned.
\<close>

definition spares :: "addr set \<Rightarrow> (tid \<Rightarrow> nat option) \<Rightarrow> ('f, 'n) mem \<Rightarrow> bool" where
  "spares S P m \<longleftrightarrow> (\<forall>t n. P t = Some n \<longrightarrow> S \<inter> set (garbage m) \<inter> set (drop n (retired m)) = {})"

locale ebr_threads =
  fixes X :: "tid \<Rightarrow> ('f, 'n, 's) crossbeam"
    and pin unpin :: "tid \<Rightarrow> 's \<Rightarrow> 's"
    and view :: "'s \<Rightarrow> ('f, 'n) mem"
    and pinned :: "'s \<Rightarrow> tid \<Rightarrow> nat option"
    and ok :: "'s \<Rightarrow> bool"
  assumes api: "crossbeam_api (X t) view ok"
    and keeps_pins: "ok s \<Longrightarrow> safe_call c (view s) \<Longrightarrow> (\<forall>k. c \<noteq> Repin k) \<Longrightarrow>
      pinned (snd (step1 (X t) (c :: ('f, 'n, unit) prog) s)) = pinned s"
    and defer_spares: "ok s \<Longrightarrow> obj (view s) (raw p) \<noteq> None \<Longrightarrow> raw p \<notin> set (garbage (view s)) \<Longrightarrow>
      \<exists>S. spares S (pinned s) (retire (raw p) (view s)) \<and>
        view (x_defer_destroy (X t) p s) = reclaim S (retire (raw p) (view s))"
    and pin: "ok s \<Longrightarrow> pinned s t = None \<Longrightarrow>
      ok (pin t s) \<and> pinned (pin t s) = (pinned s)(t \<mapsto> length (retired (view s))) \<and>
      (\<exists>S. spares S (pinned s) (view s) \<and> view (pin t s) = reclaim S (view s))"
    and unpin: "ok s \<Longrightarrow> pinned s t \<noteq> None \<Longrightarrow>
      ok (unpin t s) \<and> pinned (unpin t s) = (pinned s)(t := None) \<and>
      (\<exists>S. spares S ((pinned s)(t := None)) (view s) \<and> view (unpin t s) = reclaim S (view s))"


section \<open>Configurations and schedules\<close>

record ('k, 'v, 'f, 'n, 's) config =
  state :: 's
  todo :: "tid \<Rightarrow> ('k, 'v) request list"
  running :: "tid \<Rightarrow> (('k, 'v) request \<times> nat \<times> ('f, 'n, 'v response) prog) option"
  finished :: "(tid \<times> ('k, 'v) request \<times> 'v response \<times> nat \<times> nat) list"
  clock :: nat

text \<open>
  Thread \<open>t\<close> moves: it pins itself and starts its next call, makes one interface call, or, when
  the call has returned, unpins itself and records the answer with the times at which the call
  began and ended.
\<close>

definition tick ::
  "(tid \<Rightarrow> ('f, 'n, 's) crossbeam) \<Rightarrow> (tid \<Rightarrow> 's \<Rightarrow> 's) \<Rightarrow> (tid \<Rightarrow> 's \<Rightarrow> 's) \<Rightarrow>
    (('k, 'v) request \<Rightarrow> ('f, 'n, 'v response) prog) \<Rightarrow> tid \<Rightarrow>
    ('k, 'v, 'f, 'n, 's) config \<Rightarrow> ('k, 'v, 'f, 'n, 's) config" where
  "tick X pin unpin code t c =
     (case running c t of
        None \<Rightarrow>
          (case todo c t of
             [] \<Rightarrow> c
           | q # qs \<Rightarrow> c\<lparr>state := pin t (state c), todo := (todo c)(t := qs),
               running := (running c)(t \<mapsto> (q, clock c, code q))\<rparr>)
      | Some (q, i, Ret r) \<Rightarrow> c\<lparr>state := unpin t (state c), running := (running c)(t := None),
          finished := finished c @ [(t, q, r, i, Suc (clock c))]\<rparr>
      | Some (q, i, p) \<Rightarrow> c\<lparr>state := snd (step1 (X t) p (state c)),
          running := (running c)(t \<mapsto> (q, i, fst (step1 (X t) p (state c))))\<rparr>)
     \<lparr>clock := Suc (clock c)\<rparr>"

definition interleave ::
  "(tid \<Rightarrow> ('f, 'n, 's) crossbeam) \<Rightarrow> (tid \<Rightarrow> 's \<Rightarrow> 's) \<Rightarrow> (tid \<Rightarrow> 's \<Rightarrow> 's) \<Rightarrow>
    (('k, 'v) request \<Rightarrow> ('f, 'n, 'v response) prog) \<Rightarrow> tid list \<Rightarrow>
    ('k, 'v, 'f, 'n, 's) config \<Rightarrow> ('k, 'v, 'f, 'n, 's) config" where
  "interleave X pin unpin code sched c = fold (tick X pin unpin code) sched c"

definition start_config :: "'s \<Rightarrow> (tid \<Rightarrow> ('k, 'v) request list) \<Rightarrow> ('k, 'v, 'f, 'n, 's) config" where
  "start_config s qs = \<lparr>state = s, todo = qs, running = (\<lambda>_. None), finished = [], clock = 0\<rparr>"

lemma start_config_sel [simp]:
  "state (start_config s qs) = s" "todo (start_config s qs) = qs" "running (start_config s qs) t = None"
  "finished (start_config s qs) = []" "clock (start_config s qs) = 0"
  by (simp_all add: start_config_def)

section \<open>Linearizability\<close>

text \<open>
  \<open>A\<close> lists the abstract map after every tick of the schedule.  A finished call is linearized if
  one of the ticks of its thread between beginning and end is its effect on the map, with the answer it
  gave, and the others change nothing; or if none of its ticks changes the map, and its answer was right, without a change, at
  some moment between beginning and end.  A call in progress has had its effect or not.  No other tick changes
  the map.
\<close>

definition silent :: "('k \<rightharpoonup> 'v) list \<Rightarrow> tid list \<Rightarrow> tid \<Rightarrow> nat \<Rightarrow> nat \<Rightarrow> nat set \<Rightarrow> bool" where
  "silent A sched t i j T \<longleftrightarrow> (\<forall>\<tau>. i \<le> \<tau> \<and> \<tau> < j \<and> sched ! \<tau> = t \<and> \<tau> \<notin> T \<longrightarrow> A ! Suc \<tau> = A ! \<tau>)"

definition effect_at ::
  "('k \<rightharpoonup> 'v) list \<Rightarrow> tid list \<Rightarrow> tid \<Rightarrow> ('k, 'v) request \<Rightarrow> 'v response \<Rightarrow> nat \<Rightarrow> nat \<Rightarrow> bool" where
  "effect_at A sched t q r i j \<longleftrightarrow>
     (\<exists>\<tau>. i \<le> \<tau> \<and> \<tau> < j \<and> sched ! \<tau> = t \<and> spec_call q (A ! \<tau>) = (r, A ! Suc \<tau>) \<and> silent A sched t i j {\<tau>})"

text \<open>The answers to a request that are right without a change of the map.\<close>

definition right :: "('k, 'v) request \<Rightarrow> ('k \<rightharpoonup> 'v) \<Rightarrow> 'v response set" where
  "right q M = {r. spec_call q M = (r, M)}"

definition read_at ::
  "('k \<rightharpoonup> 'v) list \<Rightarrow> tid list \<Rightarrow> tid \<Rightarrow> ('k, 'v) request \<Rightarrow> 'v response \<Rightarrow> nat \<Rightarrow> nat \<Rightarrow> bool" where
  "read_at A sched t q r i j \<longleftrightarrow> (\<exists>\<tau>. i \<le> \<tau> \<and> \<tau> \<le> j \<and> r \<in> right q (A ! \<tau>)) \<and> silent A sched t i j {}"

definition linearized ::
  "('k \<rightharpoonup> 'v) list \<Rightarrow> tid list \<Rightarrow> tid \<times> ('k, 'v) request \<times> 'v response \<times> nat \<times> nat \<Rightarrow> bool" where
  "linearized A sched = (\<lambda>(t, q, r, i, j). j \<le> length sched \<and> (effect_at A sched t q r i j \<or> read_at A sched t q r i j))"

definition linearizable ::
  "('k \<rightharpoonup> 'v) list \<Rightarrow> tid list \<Rightarrow> ('k, 'v, 'f, 'n, 's) config \<Rightarrow> bool" where
  "linearizable A sched c \<longleftrightarrow>
     (\<forall>e\<in>set (finished c). linearized A sched e) \<and>
     (\<forall>t q i p. running c t = Some (q, i, p) \<longrightarrow>
        silent A sched t i (length sched) {} \<or> (\<exists>r. effect_at A sched t q r i (length sched))) \<and>
     (\<forall>\<tau><length sched. A ! Suc \<tau> \<noteq> A ! \<tau> \<longrightarrow>
        (\<exists>q r i j. (sched ! \<tau>, q, r, i, j) \<in> set (finished c) \<and> i \<le> \<tau> \<and> \<tau> < j) \<or>
        (\<exists>q i p. running c (sched ! \<tau>) = Some (q, i, p) \<and> i \<le> \<tau>))"

text \<open>The abstract maps along a schedule.\<close>

definition maps_along ::
  "(('k, 'v, 'f, 'n, 's) config \<Rightarrow> ('k \<rightharpoonup> 'v)) \<Rightarrow> (tid list \<Rightarrow> ('k, 'v, 'f, 'n, 's) config) \<Rightarrow> tid list \<Rightarrow>
    ('k \<rightharpoonup> 'v) list" where
  "maps_along f at sched = map (\<lambda>\<tau>. f (at (take \<tau> sched))) [0..<Suc (length sched)]"

lemma maps_along_Nil: "maps_along f at [] = [f (at [])]"
  by (simp add: maps_along_def)

lemma maps_along_snoc: "maps_along f at (sched @ [t]) = maps_along f at sched @ [f (at (sched @ [t]))]"
  by (simp add: maps_along_def)

lemma length_maps_along [simp]: "length (maps_along f at sched) = Suc (length sched)"
  by (simp add: maps_along_def)

lemma last_maps_along: "maps_along f at sched ! length sched = f (at sched)"
  by (simp add: maps_along_def nth_append)


subsection \<open>Extending a schedule by one tick\<close>

lemma silent_prefix:
  "length A = Suc (length ss) \<Longrightarrow> j \<le> length ss \<Longrightarrow> silent (A @ [a]) (ss @ [u]) t i j T = silent A ss t i j T"
  unfolding silent_def by (intro all_cong1) (auto simp: nth_append)

lemma silent_snoc:
  assumes "length A = Suc (length ss)" "silent A ss t i (length ss) T" "u \<noteq> t \<or> a = A ! length ss \<or> length ss \<in> T"
  shows "silent (A @ [a]) (ss @ [u]) t i (Suc (length ss)) T"
  using assms unfolding silent_def by (auto simp: nth_append less_Suc_eq)

lemma silent_mono: "silent A ss t i j T \<Longrightarrow> T \<subseteq> T' \<Longrightarrow> silent A ss t i j T'"
  by (auto simp: silent_def)

lemma effect_at_prefix:
  "length A = Suc (length ss) \<Longrightarrow> j \<le> length ss \<Longrightarrow> effect_at A ss t q r i j \<Longrightarrow> effect_at (A @ [a]) (ss @ [u]) t q r i j"
  unfolding effect_at_def by (fastforce simp: nth_append silent_prefix)

lemma effect_at_snoc:
  assumes "length A = Suc (length ss)" "effect_at A ss t q r i (length ss)" "u \<noteq> t \<or> a = A ! length ss"
  shows "effect_at (A @ [a]) (ss @ [u]) t q r i (Suc (length ss))"
proof -
  from assms(2) obtain \<tau> where \<tau>: "i \<le> \<tau>" "\<tau> < length ss" "ss ! \<tau> = t" "spec_call q (A ! \<tau>) = (r, A ! Suc \<tau>)"
    "silent A ss t i (length ss) {\<tau>}" unfolding effect_at_def by blast
  then show ?thesis
    using silent_snoc[OF assms(1) \<tau>(5), of u a] assms(1,3)
    unfolding effect_at_def by (intro exI[of _ \<tau>]) (auto simp: nth_append)
qed

lemma effect_at_now:
  assumes "length A = Suc (length ss)" "silent A ss t i (length ss) {}" "i \<le> length ss"
    and "spec_call q (A ! length ss) = (r, a)"
  shows "effect_at (A @ [a]) (ss @ [t]) t q r i (Suc (length ss))"
  using assms silent_snoc[OF assms(1) silent_mono[OF assms(2)], of "{length ss}" t a]
  unfolding effect_at_def by (intro exI[of _ "length ss"]) (auto simp: nth_append)

text \<open>
  What is known about a call in progress: \<open>C\<close> are answers that were right, without a change, at some moment since it began,
  and \<open>e\<close> is the answer of the tick that was its effect, if there was one.
\<close>

definition witnessed :: "('k \<rightharpoonup> 'v) list \<Rightarrow> tid list \<Rightarrow> ('k, 'v) request \<Rightarrow> nat \<Rightarrow> 'v response \<Rightarrow> bool" where
  "witnessed A ss q i r \<longleftrightarrow> (\<exists>\<tau>. i \<le> \<tau> \<and> \<tau> \<le> length ss \<and> r \<in> right q (A ! \<tau>))"

definition tracked ::
  "('k \<rightharpoonup> 'v) list \<Rightarrow> tid list \<Rightarrow> tid \<Rightarrow> ('k, 'v) request \<Rightarrow> nat \<Rightarrow> 'v response set \<Rightarrow> 'v response option \<Rightarrow> bool" where
  "tracked A ss t q i C e \<longleftrightarrow> i \<le> length ss \<and> (\<forall>r\<in>C. witnessed A ss q i r) \<and>
     (case e of None \<Rightarrow> silent A ss t i (length ss) {} | Some r \<Rightarrow> effect_at A ss t q r i (length ss))"

lemma witnessed_snoc:
  "length A = Suc (length ss) \<Longrightarrow> witnessed A ss q i r \<Longrightarrow> witnessed (A @ [a]) (ss @ [u]) q i r"
  unfolding witnessed_def by (force simp: nth_append)

lemma witnessed_now:
  "length A = Suc (length ss) \<Longrightarrow> i \<le> length ss \<Longrightarrow> r \<in> right q a \<Longrightarrow> witnessed (A @ [a]) (ss @ [u]) q i r"
  unfolding witnessed_def by (rule exI[of _ "Suc (length ss)"]) (simp add: nth_append)

lemma tracked_snoc:
  assumes "length A = Suc (length ss)" "tracked A ss t q i C e" "u \<noteq> t \<or> a = A ! length ss"
  shows "tracked (A @ [a]) (ss @ [u]) t q i C e"
  using assms silent_snoc[OF assms(1), of t i "{}" u a] effect_at_snoc[OF assms(1), of t q _ i u a]
  unfolding tracked_def by (auto simp: witnessed_snoc split: option.splits)

lemma tracked_candidates:
  assumes "length A = Suc (length ss)" "tracked A ss t q i C e" "u \<noteq> t \<or> a = A ! length ss" "C' \<subseteq> C \<union> right q a"
  shows "tracked (A @ [a]) (ss @ [u]) t q i C' e"
proof -
  have "witnessed (A @ [a]) (ss @ [u]) q i r" if "r \<in> right q a" for r
    by (rule witnessed_now[OF assms(1) _ that]) (use assms(2) in \<open>simp add: tracked_def\<close>)
  moreover have "tracked (A @ [a]) (ss @ [u]) t q i C e" using tracked_snoc assms by blast
  ultimately show ?thesis using assms(4) unfolding tracked_def by blast
qed

lemma tracked_effect:
  assumes "length A = Suc (length ss)" "tracked A ss t q i C None" "spec_call q (A ! length ss) = (r, a)"
  shows "tracked (A @ [a]) (ss @ [t]) t q i C (Some r)"
  using assms effect_at_now[OF assms(1) _ _ assms(3), of t i] unfolding tracked_def by (auto simp: witnessed_snoc)

text \<open>When a call returns an answer that is its effect or was witnessed, it is linearized.\<close>

lemma tracked_finish:
  assumes "length A = Suc (length ss)" "tracked A ss t q i C e" "e = Some r \<or> e = None \<and> r \<in> C"
  shows "linearized (A @ [A ! length ss]) (ss @ [t]) (t, q, r, i, Suc (length ss))"
proof (cases e)
  case None
  with assms(2,3) have w: "witnessed A ss q i r" "silent A ss t i (length ss) {}" by (auto simp: tracked_def)
  have "silent (A @ [A ! length ss]) (ss @ [t]) t i (Suc (length ss)) {}" using silent_snoc[OF assms(1) w(2)] by simp
  with witnessed_snoc[OF assms(1) w(1)] show ?thesis by (auto simp: linearized_def read_at_def witnessed_def)
next
  case (Some r')
  with assms(2,3) have "effect_at A ss t q r i (length ss)" by (auto simp: tracked_def)
  from effect_at_snoc[OF assms(1) this] show ?thesis by (simp add: linearized_def)
qed

lemma read_at_prefix:
  assumes "length A = Suc (length ss)" "j \<le> length ss" "read_at A ss t q r i j"
  shows "read_at (A @ [a]) (ss @ [u]) t q r i j"
proof -
  from assms(3) obtain \<tau> where "i \<le> \<tau>" "\<tau> \<le> j" "r \<in> right q (A ! \<tau>)" "silent A ss t i j {}" unfolding read_at_def by blast
  then show ?thesis using assms(1,2) unfolding read_at_def by (auto simp: silent_prefix nth_append intro!: exI[of _ \<tau>])
qed

lemma linearized_snoc:
  "length A = Suc (length ss) \<Longrightarrow> linearized A ss e \<Longrightarrow> linearized (A @ [a]) (ss @ [u]) e"
  unfolding linearized_def by (auto simp: effect_at_prefix read_at_prefix split: prod.splits)


section \<open>Weakest preconditions under interference\<close>

text \<open>
  A world is what the reasoning of a thread is about: the memory, who is pinned, what is known of each
  call in progress, and the ghost state of the object.
\<close>

record ('f, 'n, 'k, 'v, 'g) world =
  w_mem :: "('f, 'n) mem"
  w_pins :: "tid \<Rightarrow> nat option"
  w_call :: "tid \<Rightarrow> (('k, 'v) request \<times> 'v response set \<times> 'v response option) option"
  w_ghost :: 'g

text \<open>
  \<open>cwp R G p Q w\<close>: let the other threads move by \<open>R\<close> before every call of \<open>p\<close>;
  then each call meets its contract, what it does is a move in \<open>G\<close>, and if \<open>p\<close> returns,
  \<open>Q\<close> holds.  Nothing is claimed about a retry loop that the others keep from ending.
\<close>

definition moves ::
  "(('f, 'n, 'k, 'v, 'g) world \<Rightarrow> ('f, 'n, 'k, 'v, 'g) world \<Rightarrow> bool) \<Rightarrow> ('f, 'n, 'k, 'v, 'g) world \<Rightarrow> ('f, 'n) mem \<Rightarrow>
    (('f, 'n, 'k, 'v, 'g) world \<Rightarrow> bool) \<Rightarrow> bool" where
  "moves G w m P \<longleftrightarrow> (\<exists>w'. w_mem w' = m \<and> G w w' \<and> P w')"

lemma movesI: "w_mem w' = m \<Longrightarrow> G w w' \<Longrightarrow> P w' \<Longrightarrow> moves G w m P"
  unfolding moves_def by blast

lemma moves_mono: "moves G w m P \<Longrightarrow> (\<And>w'. P w' \<Longrightarrow> P' w') \<Longrightarrow> moves G w m P'"
  unfolding moves_def by blast

primrec cwp ::
  "(('f, 'n, 'k, 'v, 'g) world \<Rightarrow> ('f, 'n, 'k, 'v, 'g) world \<Rightarrow> bool) \<Rightarrow>
    (('f, 'n, 'k, 'v, 'g) world \<Rightarrow> ('f, 'n, 'k, 'v, 'g) world \<Rightarrow> bool) \<Rightarrow> ('f, 'n, 'a) prog \<Rightarrow>
    ('a \<Rightarrow> ('f, 'n, 'k, 'v, 'g) world \<Rightarrow> bool) \<Rightarrow> ('f, 'n, 'k, 'v, 'g) world \<Rightarrow> bool" where
  "cwp R G (Ret x) Q w = Q x w"
| "cwp R G (Load l k) Q w = (\<forall>w1. R w w1 \<longrightarrow> live (w_mem w1) (fst l) \<and>
     moves G w1 (w_mem w1) (cwp R G (k (cell (w_mem w1) l)) Q))"
| "cwp R G (Store l p k) Q w = (\<forall>w1. R w w1 \<longrightarrow> live (w_mem w1) (fst l) \<and>
     moves G w1 (set_cell l p (w_mem w1)) (cwp R G k Q))"
| "cwp R G (Compare_and_set l u v k) Q w = (\<forall>w1. R w w1 \<longrightarrow> live (w_mem w1) (fst l) \<and>
     (if cell (w_mem w1) l = u
      then moves G w1 (set_cell l v (w_mem w1)) (cwp R G (k (Inr v)) Q)
      else moves G w1 (w_mem w1) (cwp R G (k (Inl (cell (w_mem w1) l))) Q)))"
| "cwp R G (Fetch_or l t k) Q w = (\<forall>w1. R w w1 \<longrightarrow> live (w_mem w1) (fst l) \<and>
     moves G w1 (set_cell l (with_tag (cell (w_mem w1) l) (tag (cell (w_mem w1) l) OR t)) (w_mem w1)) (cwp R G (k (cell (w_mem w1) l)) Q))"
| "cwp R G (Deref p k) Q w = (\<forall>w1. R w w1 \<longrightarrow> (\<exists>n. obj (w_mem w1) (raw p) = Some n \<and>
     moves G w1 (w_mem w1) (cwp R G (k n) Q)))"
| "cwp R G (Owned_new n fs k) Q w = (\<forall>w1. R w w1 \<longrightarrow> (\<forall>a. fresh (w_mem w1) a \<longrightarrow>
     moves G w1 (alloc a n fs (w_mem w1)) (cwp R G (k (Shared a 0)) Q)))"
| "cwp R G (Drop_owned p k) Q w = (\<forall>w1. R w w1 \<longrightarrow> obj (w_mem w1) (raw p) \<noteq> None \<and>
     raw p \<notin> set (garbage (w_mem w1)) \<and>
     moves G w1 (free (raw p) (w_mem w1)) (cwp R G k Q))"
| "cwp R G (Drop_value p k) Q w = (\<forall>w1. R w w1 \<longrightarrow> obj (w_mem w1) (raw p) \<noteq> None \<and>
     moves G w1 (drop_val (raw p) (w_mem w1)) (cwp R G k Q))"
| "cwp R G (Defer_destroy p k) Q w = (\<forall>w1. R w w1 \<longrightarrow> obj (w_mem w1) (raw p) \<noteq> None \<and>
     raw p \<notin> set (garbage (w_mem w1)) \<and>
     (\<forall>S. spares S (w_pins w1) (retire (raw p) (w_mem w1)) \<longrightarrow>
        moves G w1 (reclaim S (retire (raw p) (w_mem w1))) (cwp R G k Q)))"
| "cwp R G (Deref_mut p n k) Q w = False"
| "cwp R G (Shield_null k) Q w = False"
| "cwp R G (Shield_new p k) Q w = False"
| "cwp R G (Shield_drop i k) Q w = False"
| "cwp R G (Defend i p k) Q w = False"
| "cwp R G (Defend_fake i p k) Q w = False"
| "cwp R G (Release i k) Q w = False"
| "cwp R G (Shield_shared i k) Q w = False"
| "cwp R G (Repin k) Q w = False"
| "cwp R G Panic Q w = False"
| "cwp R G Out_of_fuel Q w = True"

lemma cwp_bind: "cwp R G (bind p f) Q = cwp R G p (\<lambda>x. cwp R G (f x) Q)"
  by (induction p) (rule ext, simp)+

lemma cwp_mono:
  assumes "cwp R G p Q w" and mono: "\<And>x w'. Q x w' \<Longrightarrow> Q' x w'"
  shows "cwp R G p Q' w"
  using assms(1)
proof (induction p arbitrary: w)
  case (Ret x)
  then show ?case by (simp add: mono)
next
  case (Compare_and_set l u v k)
  show ?case
    unfolding cwp.simps
  proof (intro allI impI conjI)
    fix w1 assume w1: "R w w1"
    with Compare_and_set.prems show "live (w_mem w1) (fst l)" by simp
    show "if cell (w_mem w1) l = u then moves G w1 (set_cell l v (w_mem w1)) (cwp R G (k (Inr v)) Q')
      else moves G w1 (w_mem w1) (cwp R G (k (Inl (cell (w_mem w1) l))) Q')"
      using Compare_and_set.prems[unfolded cwp.simps, THEN spec, THEN mp, OF w1] Compare_and_set.IH[OF rangeI]
      by (cases "cell (w_mem w1) l = u") (auto elim!: moves_mono)
  qed
next
  case (Deref q k)
  show ?case
    unfolding cwp.simps
  proof (intro allI impI)
    fix w1 assume "R w w1"
    with Deref.prems obtain n where n: "obj (w_mem w1) (raw q) = Some n" "moves G w1 (w_mem w1) (cwp R G (k n) Q)"
      by auto
    have "moves G w1 (w_mem w1) (cwp R G (k n) Q')" by (rule moves_mono[OF n(2)]) (rule Deref.IH[OF rangeI])
    with n(1) show "\<exists>n. obj (w_mem w1) (raw q) = Some n \<and> moves G w1 (w_mem w1) (cwp R G (k n) Q')" by blast
  qed
next
  case (Owned_new n fs k)
  show ?case
    unfolding cwp.simps
  proof (intro allI impI)
    fix w1 a assume "R w w1" "fresh (w_mem w1) a"
    with Owned_new.prems have "moves G w1 (alloc a n fs (w_mem w1)) (cwp R G (k (Shared a 0)) Q)" by simp
    then show "moves G w1 (alloc a n fs (w_mem w1)) (cwp R G (k (Shared a 0)) Q')"
      by (rule moves_mono) (rule Owned_new.IH[OF rangeI])
  qed
next
  case (Defer_destroy q k)
  show ?case
    unfolding cwp.simps
  proof (intro allI impI conjI)
    fix w1 S assume "R w w1" "spares S (w_pins w1) (retire (raw q) (w_mem w1))"
    with Defer_destroy.prems have "moves G w1 (reclaim S (retire (raw q) (w_mem w1))) (cwp R G k Q)" by simp
    then show "moves G w1 (reclaim S (retire (raw q) (w_mem w1))) (cwp R G k Q')"
      by (rule moves_mono) (rule Defer_destroy.IH)
  qed (use Defer_destroy.prems in simp_all)
qed (auto elim!: moves_mono)

lemma cwp_bind_mono:
  assumes "cwp R G p Q' w" "\<And>x w'. Q' x w' \<Longrightarrow> cwp R G (f x) Q w'"
  shows "cwp R G (bind p f) Q w"
  unfolding cwp_bind using assms by (rule cwp_mono)

text \<open>Interference before the first call changes nothing.\<close>

lemma cwp_rely:
  assumes "\<And>a b c. R a b \<Longrightarrow> R b c \<Longrightarrow> R a c" "\<And>x w w'. Q x w \<Longrightarrow> R w w' \<Longrightarrow> Q x w'"
    and "cwp R G p Q w" "R w w'"
  shows "cwp R G p Q w'"
proof -
  have tr: "R w w1" if "R w' w1" for w1 using assms(1)[OF assms(4) that] .
  show ?thesis
  proof (cases p)
    case (Ret x)
    with assms(3) assms(2)[OF _ assms(4)] show ?thesis by simp
  qed (use assms(3) tr in auto)
qed


context ebr_threads
begin

lemma step1_pins:
  assumes "ok s" "safe_call p (view s)" "\<forall>k. p \<noteq> Repin k"
  shows "pinned (snd (step1 (X t) p s)) = pinned s"
proof -
  let ?c = "bind p (\<lambda>_. Ret ())"
  have "snd (step1 (X t) ?c s) = snd (step1 (X t) p s)" by (cases p) (simp_all split: prod.splits)
  moreover have "safe_call ?c (view s)" "\<forall>k. ?c \<noteq> Repin k" using assms(2,3) by (cases p; simp)+
  ultimately show ?thesis using keeps_pins[OF assms(1), of ?c t] by simp
qed

text \<open>One call of a thread whose weakest precondition holds.\<close>

lemma cwp_step:
  assumes "ok s" "w_mem w = view s" "w_pins w = pinned s" "R w w" "cwp R G p Q w"
    and "\<forall>x. p \<noteq> Ret x" "p \<noteq> Out_of_fuel"
  shows "safe_call p (view s) \<and> ok (snd (step1 (X t) p s)) \<and> pinned (snd (step1 (X t) p s)) = pinned s \<and>
    (\<exists>w'. w_mem w' = view (snd (step1 (X t) p s)) \<and> G w w' \<and> cwp R G (fst (step1 (X t) p s)) Q w')"
proof -
  have safe: "safe_call p (view s)" using assms by (cases p) auto
  have "\<forall>k. p \<noteq> Repin k" using assms(5) by (cases p) auto
  then have pins: "pinned (snd (step1 (X t) p s)) = pinned s" by (rule step1_pins[OF assms(1) safe])
  have "ok (snd (step1 (X t) p s)) \<and> moves G w (view (snd (step1 (X t) p s))) (cwp R G (fst (step1 (X t) p s)) Q)"
  proof (cases p)
    case (Load l k)
    obtain q s' where x: "x_load (X t) l s = (q, s')" by fastforce
    with crossbeam_api.load[OF api assms(1) _ x] safe assms Load show ?thesis by auto
  next
    case (Store l q k)
    with crossbeam_api.store[OF api assms(1) _ refl, of l t q] safe assms show ?thesis by auto
  next
    case (Compare_and_set l u v k)
    obtain r s' where x: "x_compare_and_set (X t) l u v s = (r, s')" by fastforce
    with crossbeam_api.compare_and_set[OF api assms(1) _ x] safe assms Compare_and_set show ?thesis
      by (auto split: if_splits)
  next
    case (Fetch_or l b k)
    obtain q s' where x: "x_fetch_or (X t) l b s = (q, s')" by fastforce
    with crossbeam_api.fetch_or[OF api assms(1) _ x] safe assms Fetch_or show ?thesis by auto
  next
    case (Deref q k)
    obtain n s' where x: "x_deref (X t) q s = (n, s')" by fastforce
    with crossbeam_api.deref[OF api assms(1) _ x] safe assms Deref show ?thesis by fastforce
  next
    case (Owned_new n fs k)
    obtain q s' where x: "x_owned_new (X t) n fs s = (q, s')" by fastforce
    with crossbeam_api.owned_new[OF api assms(1) x] have q: "q = Shared (raw q) 0" by (cases q) auto
    with crossbeam_api.owned_new[OF api assms(1) x] x assms Owned_new show ?thesis by (cases q) auto
  next
    case (Drop_owned q k)
    with crossbeam_api.drop_owned[OF api assms(1) _ _ refl, of q t] safe assms show ?thesis by auto
  next
    case (Drop_value q k)
    with crossbeam_api.drop_value[OF api assms(1) _ refl, of q t] safe assms show ?thesis by auto
  next
    case (Defer_destroy q k)
    with crossbeam_api.defer_destroy[OF api assms(1) _ _ refl, of q t] defer_spares[OF assms(1), of q t] safe assms
    show ?thesis by fastforce
  qed (use assms in auto)
  with safe pins show ?thesis unfolding moves_def by blast
qed

end


section \<open>Concurrent objects\<close>

text \<open>
  A move of thread \<open>t\<close>: it keeps the invariant, the others can live with it, and with respect to
  its call it either leaves the map alone, and possibly notes an answer that is right at this moment, or
  is the effect of the call.  For the other calls in progress it may note answers that are right after it.
\<close>

definition hears ::
  "('k \<rightharpoonup> 'v) \<Rightarrow> (('k, 'v) request \<times> 'v response set \<times> 'v response option) option \<Rightarrow>
    (('k, 'v) request \<times> 'v response set \<times> 'v response option) option \<Rightarrow> bool" where
  "hears M c c' \<longleftrightarrow> (case c of None \<Rightarrow> c' = None
     | Some (q, C, e) \<Rightarrow> \<exists>C'. c' = Some (q, C', e) \<and> C \<subseteq> C' \<and> C' \<subseteq> C \<union> right q M)"

definition learns ::
  "(('k, 'v) request \<times> 'v response set \<times> 'v response option) option \<Rightarrow>
    (('k, 'v) request \<times> 'v response set \<times> 'v response option) option \<Rightarrow> bool" where
  "learns c c' \<longleftrightarrow> (case c of None \<Rightarrow> c' = None | Some (q, C, e) \<Rightarrow> \<exists>C'. c' = Some (q, C', e) \<and> C \<subseteq> C')"

lemma learns_refl [simp]: "learns c c"
  by (auto simp: learns_def split: option.splits)

lemma learns_trans: "learns c c' \<Longrightarrow> learns c' c'' \<Longrightarrow> learns c c''"
  by (fastforce simp: learns_def split: option.splits)

lemma hears_refl [simp]: "hears M c c"
  by (auto simp: hears_def split: option.splits)

lemma hears_learns: "hears M c c' \<Longrightarrow> learns c c'"
  by (auto simp: hears_def learns_def split: option.splits)

definition call_step ::
  "(('f, 'n) mem \<Rightarrow> 'k \<rightharpoonup> 'v) \<Rightarrow> tid \<Rightarrow> ('f, 'n, 'k, 'v, 'g) world \<Rightarrow> ('f, 'n, 'k, 'v, 'g) world \<Rightarrow> bool" where
  "call_step absm t w w' \<longleftrightarrow> (\<exists>q C e C' e'. w_call w t = Some (q, C, e) \<and> w_call w' t = Some (q, C', e') \<and>
     (absm (w_mem w') = absm (w_mem w) \<and> e' = e \<and> C' \<subseteq> C \<union> right q (absm (w_mem w)) \<or>
      e = None \<and> C' = C \<and> (\<exists>r. e' = Some r \<and> spec_call q (absm (w_mem w)) = (r, absm (w_mem w')))))"

definition own_move ::
  "(('f, 'n) mem \<Rightarrow> 'k \<rightharpoonup> 'v) \<Rightarrow> (('f, 'n, 'k, 'v, 'g) world \<Rightarrow> bool) \<Rightarrow>
    (tid \<Rightarrow> ('f, 'n, 'k, 'v, 'g) world \<Rightarrow> ('f, 'n, 'k, 'v, 'g) world \<Rightarrow> bool) \<Rightarrow> tid \<Rightarrow>
    ('f, 'n, 'k, 'v, 'g) world \<Rightarrow> ('f, 'n, 'k, 'v, 'g) world \<Rightarrow> bool" where
  "own_move absm Inv R t w w' \<longleftrightarrow> Inv w' \<and> (\<forall>u. u \<noteq> t \<longrightarrow> R u w w' \<and> hears (absm (w_mem w')) (w_call w u) (w_call w' u)) \<and>
     w_pins w' = w_pins w \<and> call_step absm t w w'"

definition answered ::
  "(tid \<Rightarrow> ('f, 'n, 'k, 'v, 'g) world \<Rightarrow> bool) \<Rightarrow> tid \<Rightarrow> ('k, 'v) request \<Rightarrow> 'v response \<Rightarrow>
    ('f, 'n, 'k, 'v, 'g) world \<Rightarrow> bool" where
  "answered idle t q r w \<longleftrightarrow> idle t w \<and> (\<exists>C e. w_call w t = Some (q, C, e) \<and> (e = Some r \<or> e = None \<and> r \<in> C))"

definition called :: "tid \<Rightarrow> ('k, 'v) request \<Rightarrow> ('f, 'n, 'k, 'v, 'g) world \<Rightarrow> bool" where
  "called t q w \<longleftrightarrow> (\<exists>C. w_call w t = Some (q, C, None))"

text \<open>A call begins with the answers that are right at that moment.\<close>

definition pin_world ::
  "(('f, 'n) mem \<Rightarrow> 'k \<rightharpoonup> 'v) \<Rightarrow> addr set \<Rightarrow> tid \<Rightarrow> ('k, 'v) request \<Rightarrow> ('f, 'n, 'k, 'v, 'g) world \<Rightarrow> ('f, 'n, 'k, 'v, 'g) world" where
  "pin_world absm S t q w = w\<lparr>w_mem := reclaim S (w_mem w), w_pins := (w_pins w)(t \<mapsto> length (retired (w_mem w))),
     w_call := (w_call w)(t \<mapsto> (q, right q (absm (w_mem w)), None))\<rparr>"

definition unpin_world :: "addr set \<Rightarrow> tid \<Rightarrow> ('f, 'n, 'k, 'v, 'g) world \<Rightarrow> ('f, 'n, 'k, 'v, 'g) world" where
  "unpin_world S t w = w\<lparr>w_mem := reclaim S (w_mem w), w_pins := (w_pins w)(t := None), w_call := (w_call w)(t := None)\<rparr>"

locale concurrent_object =
  fixes absm :: "('f, 'n) mem \<Rightarrow> 'k \<rightharpoonup> 'v"
    and Inv :: "('f, 'n, 'k, 'v, 'g) world \<Rightarrow> bool"
    and R :: "tid \<Rightarrow> ('f, 'n, 'k, 'v, 'g) world \<Rightarrow> ('f, 'n, 'k, 'v, 'g) world \<Rightarrow> bool"
    and idle :: "tid \<Rightarrow> ('f, 'n, 'k, 'v, 'g) world \<Rightarrow> bool"
  assumes rely_refl: "Inv w \<Longrightarrow> R t w w"
    and rely_trans: "R t w w' \<Longrightarrow> R t w' w'' \<Longrightarrow> R t w w''"
    and rely_call: "R t w w' \<Longrightarrow> learns (w_call w t) (w_call w' t)"
    and rely_idle: "R t w w' \<Longrightarrow> idle t w \<Longrightarrow> idle t w'"
    and pin_ok: "Inv w \<Longrightarrow> idle t w \<Longrightarrow> w_pins w t = None \<Longrightarrow> spares S (w_pins w) (w_mem w) \<Longrightarrow>
      Inv (pin_world absm S t q w) \<and> idle t (pin_world absm S t q w) \<and> absm (reclaim S (w_mem w)) = absm (w_mem w) \<and>
      (\<forall>u. u \<noteq> t \<longrightarrow> R u w (pin_world absm S t q w))"
    and unpin_ok: "Inv w \<Longrightarrow> idle t w \<Longrightarrow> spares S ((w_pins w)(t := None)) (w_mem w) \<Longrightarrow>
      Inv (unpin_world S t w) \<and> idle t (unpin_world S t w) \<and> absm (reclaim S (w_mem w)) = absm (w_mem w) \<and>
      (\<forall>u. u \<noteq> t \<longrightarrow> R u w (unpin_world S t w))"

text \<open>What holds of a configuration and the schedule that led to it.\<close>

definition thread_good ::
  "(('f, 'n) mem \<Rightarrow> 'k \<rightharpoonup> 'v) \<Rightarrow> (('f, 'n, 'k, 'v, 'g) world \<Rightarrow> bool) \<Rightarrow>
    (tid \<Rightarrow> ('f, 'n, 'k, 'v, 'g) world \<Rightarrow> ('f, 'n, 'k, 'v, 'g) world \<Rightarrow> bool) \<Rightarrow>
    (tid \<Rightarrow> ('f, 'n, 'k, 'v, 'g) world \<Rightarrow> bool) \<Rightarrow> ('k \<rightharpoonup> 'v) list \<Rightarrow> tid list \<Rightarrow>
    ('f, 'n, 'k, 'v, 'g) world \<Rightarrow> tid \<Rightarrow> (('k, 'v) request \<times> nat \<times> ('f, 'n, 'v response) prog) option \<Rightarrow> bool" where
  "thread_good absm Inv R idle A ss w t th =
     (case th of
        None \<Rightarrow> idle t w \<and> w_pins w t = None
      | Some (q, i, p) \<Rightarrow> w_pins w t \<noteq> None \<and>
          (\<exists>C e. w_call w t = Some (q, C, e) \<and> tracked A ss t q i C e) \<and>
          cwp (R t) (own_move absm Inv R t) p (answered idle t q) w)"

definition covered :: "('k \<rightharpoonup> 'v) list \<Rightarrow> tid list \<Rightarrow> ('k, 'v, 'f, 'n, 's) config \<Rightarrow> bool" where
  "covered A ss c \<longleftrightarrow> (\<forall>\<tau><length ss. A ! Suc \<tau> \<noteq> A ! \<tau> \<longrightarrow>
     (\<exists>q r i j. (ss ! \<tau>, q, r, i, j) \<in> set (finished c) \<and> i \<le> \<tau> \<and> \<tau> < j) \<or>
     (\<exists>q i p. running c (ss ! \<tau>) = Some (q, i, p) \<and> i \<le> \<tau>))"

lemma tracked_linearizable:
  assumes "\<And>e. e \<in> set (finished c) \<Longrightarrow> linearized A ss e" "covered A ss c"
    and "\<And>t q i p. running c t = Some (q, i, p) \<Longrightarrow> \<exists>C e. tracked A ss t q i C e"
  shows "linearizable A ss c"
  unfolding linearizable_def
proof (intro conjI allI impI ballI)
  fix t q i p assume "running c t = Some (q, i, p)"
  from assms(3)[OF this] show "silent A ss t i (length ss) {} \<or> (\<exists>r. effect_at A ss t q r i (length ss))"
    by (auto simp: tracked_def split: option.splits)
qed (use assms(1,2) in \<open>auto simp: covered_def\<close>)


text \<open>
  Every interleaving of the given calls: it is linearizable, and at every moment the next call of every
  thread meets its contract.
\<close>

definition interleavings_correct ::
  "(tid \<Rightarrow> ('f, 'n, 's) crossbeam) \<Rightarrow> (tid \<Rightarrow> 's \<Rightarrow> 's) \<Rightarrow> (tid \<Rightarrow> 's \<Rightarrow> 's) \<Rightarrow> ('s \<Rightarrow> ('f, 'n) mem) \<Rightarrow>
    (('f, 'n) mem \<Rightarrow> 'k \<rightharpoonup> 'v) \<Rightarrow> (('k, 'v) request \<Rightarrow> ('f, 'n, 'v response) prog) \<Rightarrow> 's \<Rightarrow>
    (tid \<Rightarrow> ('k, 'v) request list) \<Rightarrow> bool" where
  "interleavings_correct X pin unpin view absm code s qs \<longleftrightarrow>
     (\<forall>sched. let at = (\<lambda>ss. interleave X pin unpin code ss (start_config s qs)) in
        linearizable (maps_along (\<lambda>c. absm (view (state c))) at sched) sched (at sched) \<and>
        (\<forall>t q i p. running (at sched) t = Some (q, i, p) \<longrightarrow> safe_call p (view (state (at sched)))))"

context concurrent_object
begin

lemma thread_good_other:
  assumes "thread_good absm Inv R idle A ss w u th" "R u w w'" "w_pins w' u = w_pins w u" "u \<noteq> t"
    and "length A = Suc (length ss)" "hears a (w_call w u) (w_call w' u)"
  shows "thread_good absm Inv R idle (A @ [a]) (ss @ [t]) w' u th"
proof (cases th)
  case None
  with assms rely_idle show ?thesis by (auto simp: thread_good_def)
next
  case (Some x)
  then obtain q i p where th: "th = Some (q, i, p)" by (cases x) auto
  with assms(1) obtain C e where c: "w_call w u = Some (q, C, e)" "tracked A ss u q i C e" by (auto simp: thread_good_def)
  then obtain C' where c': "w_call w' u = Some (q, C', e)" "C' \<subseteq> C \<union> right q a" using assms(6) by (auto simp: hears_def)
  have "tracked (A @ [a]) (ss @ [t]) u q i C' e" by (rule tracked_candidates[OF assms(5) c(2) _ c'(2)]) (use assms(4) in simp)
  moreover have "cwp (R u) (own_move absm Inv R u) p (answered idle u q) w'"
  proof (rule cwp_rely[OF rely_trans])
    show "cwp (R u) (own_move absm Inv R u) p (answered idle u q) w" using assms(1) th by (simp add: thread_good_def)
    show "answered idle u q x v'" if "answered idle u q x v" "R u v v'" for x v v'
      using that rely_idle rely_call[OF that(2)] unfolding answered_def learns_def by (fastforce split: option.splits)
  qed (use assms in auto)
  ultimately show ?thesis using assms(1,3) th c' by (auto simp: thread_good_def)
qed

text \<open>The invariant of interleavings.\<close>

definition good ::
  "('s \<Rightarrow> ('f, 'n) mem) \<Rightarrow> ('s \<Rightarrow> tid \<Rightarrow> nat option) \<Rightarrow> ('s \<Rightarrow> bool) \<Rightarrow> ('k \<rightharpoonup> 'v) list \<Rightarrow> tid list \<Rightarrow>
    ('k, 'v, 'f, 'n, 's) config \<Rightarrow> bool" where
  "good view pinned ok A ss c \<longleftrightarrow> clock c = length ss \<and> ok (state c) \<and> length A = Suc (length ss) \<and>
     A ! length ss = absm (view (state c)) \<and>
     (\<exists>w. w_mem w = view (state c) \<and> w_pins w = pinned (state c) \<and> Inv w \<and>
        (\<forall>t. thread_good absm Inv R idle A ss w t (running c t))) \<and>
     (\<forall>e\<in>set (finished c). linearized A ss e) \<and> covered A ss c"

text \<open>What a tick has to establish.\<close>

lemma good_tickI:
  assumes g: "good view pinned ok A ss c" and s': "ok (state c')"
    and w': "w_mem w' = view (state c')" "w_pins w' = pinned (state c')" "Inv w'"
    and own: "thread_good absm Inv R idle (A @ [absm (view (state c'))]) (ss @ [t]) w' t (running c' t)"
    and others: "\<And>u. u \<noteq> t \<Longrightarrow> running c' u = running c u \<and>
      thread_good absm Inv R idle (A @ [absm (view (state c'))]) (ss @ [t]) w' u (running c u)"
    and fin: "clock c' = Suc (clock c)"
      "\<And>e. e \<in> set (finished c') \<Longrightarrow> e \<in> set (finished c) \<or> linearized (A @ [absm (view (state c'))]) (ss @ [t]) e"
      "set (finished c) \<subseteq> set (finished c')"
    and cov: "running c t = None \<Longrightarrow> absm (view (state c')) = absm (view (state c))"
      "\<And>q i p. running c t = Some (q, i, p) \<Longrightarrow>
        (\<exists>p'. running c' t = Some (q, i, p')) \<or> (\<exists>r. (t, q, r, i, Suc (length ss)) \<in> set (finished c'))"
  shows "good view pinned ok (A @ [absm (view (state c'))]) (ss @ [t]) c'"
proof -
  let ?A = "A @ [absm (view (state c'))]" and ?ss = "ss @ [t]"
  have A: "length A = Suc (length ss)" "A ! length ss = absm (view (state c))" using g by (auto simp: good_def)
  have "covered ?A ?ss c'"
    unfolding covered_def
  proof (intro allI impI)
    fix \<tau> assume \<tau>: "\<tau> < length ?ss" "?A ! Suc \<tau> \<noteq> ?A ! \<tau>"
    have t_run: "(\<exists>q r i j. (t, q, r, i, j) \<in> set (finished c') \<and> i \<le> \<tau> \<and> \<tau> < j) \<or>
        (\<exists>q i p. running c' t = Some (q, i, p) \<and> i \<le> \<tau>)" if "running c t = Some (q, i, p)" "i \<le> \<tau>" for q i p
      using cov(2)[OF that(1)] that \<tau>(1) by fastforce
    show "(\<exists>q r i j. (?ss ! \<tau>, q, r, i, j) \<in> set (finished c') \<and> i \<le> \<tau> \<and> \<tau> < j) \<or>
        (\<exists>q i p. running c' (?ss ! \<tau>) = Some (q, i, p) \<and> i \<le> \<tau>)"
    proof (cases "\<tau> = length ss")
      case True
      with \<tau>(2) A cov(1) obtain q i p where r: "running c t = Some (q, i, p)"
        by (cases "running c t") (auto simp: nth_append)
      moreover have "i \<le> length ss"
      proof -
        obtain w where "\<forall>t. thread_good absm Inv R idle A ss w t (running c t)" using g unfolding good_def by blast
        then have "thread_good absm Inv R idle A ss w t (Some (q, i, p))" using r by metis
        then show ?thesis by (auto simp: thread_good_def tracked_def)
      qed
      ultimately show ?thesis using t_run True by (auto simp: nth_append)
    next
      case False
      then have lt: "\<tau> < length ss" using \<tau>(1) by simp
      then have ch: "A ! Suc \<tau> \<noteq> A ! \<tau>" using \<tau>(2) A by (auto simp: nth_append)
      have "covered A ss c" using g by (simp add: good_def)
      with lt ch have "(\<exists>q r i j. (ss ! \<tau>, q, r, i, j) \<in> set (finished c) \<and> i \<le> \<tau> \<and> \<tau> < j) \<or>
        (\<exists>q i p. running c (ss ! \<tau>) = Some (q, i, p) \<and> i \<le> \<tau>)" unfolding covered_def by blast
      then show ?thesis
      proof (elim disjE exE conjE)
        fix q i p assume "running c (ss ! \<tau>) = Some (q, i, p)" "i \<le> \<tau>"
        then show ?thesis using t_run others lt by (cases "ss ! \<tau> = t") (auto simp: nth_append)
      next
        fix q r i j assume f: "(ss ! \<tau>, q, r, i, j) \<in> set (finished c)" "i \<le> \<tau>" "\<tau> < j"
        then have "(ss ! \<tau>, q, r, i, j) \<in> set (finished c')" using fin(3) by blast
        with f(2,3) lt show ?thesis by (auto simp: nth_append)
      qed
    qed
  qed
  moreover have "linearized ?A ?ss e" if "e \<in> set (finished c')" for e
  proof -
    have "e \<in> set (finished c) \<Longrightarrow> linearized A ss e" using g by (simp add: good_def)
    then show ?thesis using fin(2)[OF that] linearized_snoc[OF A(1)] by blast
  qed
  moreover have "thread_good absm Inv R idle ?A ?ss w' u (running c' u)" for u
    using own others by (cases "u = t") auto
  ultimately show ?thesis
    using g s' w' fin(1) A by (auto simp: good_def nth_append intro!: exI[of _ w'])
qed


lemma good_tick:
  assumes E: "ebr_threads X pin unpin view pinned ok" and g: "good view pinned ok A ss c"
    and code: "\<And>t q w. Inv w \<Longrightarrow> idle t w \<Longrightarrow> called t q w \<Longrightarrow> w_pins w t \<noteq> None \<Longrightarrow>
      cwp (R t) (own_move absm Inv R t) (code q) (answered idle t q) w"
    and c': "c' = tick X pin unpin code t c"
  shows "good view pinned ok (A @ [absm (view (state c'))]) (ss @ [t]) c'"
proof -
  from g obtain w where w: "w_mem w = view (state c)" "w_pins w = pinned (state c)" "Inv w"
    "\<And>t. thread_good absm Inv R idle A ss w t (running c t)" unfolding good_def by blast
  have A: "length A = Suc (length ss)" "A ! length ss = absm (view (state c))" "ok (state c)" "clock c = length ss"
    using g by (auto simp: good_def)
  show ?thesis
  proof (cases "running c t")
    case None
    have idle: "idle t w" "w_pins w t = None" using w(4)[of t] None by (auto simp: thread_good_def)
    show ?thesis
    proof (cases "todo c t")
      case Nil
      have st: "state c' = state c" "running c' = running c" "finished c' = finished c" "clock c' = Suc (clock c)"
        using c' None Nil by (simp_all add: tick_def)
      show ?thesis
      proof (rule good_tickI[OF g, where w' = w])
        show "running c' u = running c u \<and>
            thread_good absm Inv R idle (A @ [absm (view (state c'))]) (ss @ [t]) w u (running c u)" if "u \<noteq> t" for u
          using thread_good_other[OF w(4) rely_refl[OF w(3)] refl that A(1) hears_refl] st by simp
      qed (use st A w idle None in \<open>auto simp: thread_good_def\<close>)
    next
      case (Cons q qs)
      have st: "state c' = pin t (state c)" "running c' = (running c)(t \<mapsto> (q, clock c, code q))" "finished c' = finished c"
        "clock c' = Suc (clock c)" using c' None Cons by (simp_all add: tick_def)
      from ebr_threads.pin[OF E A(3), of t] idle w(2) obtain S where p: "ok (pin t (state c))"
        "pinned (pin t (state c)) = (pinned (state c))(t \<mapsto> length (retired (view (state c))))"
        "spares S (pinned (state c)) (view (state c))" "view (pin t (state c)) = reclaim S (view (state c))" by auto
      let ?w = "pin_world absm S t q w" and ?C = "right q (absm (w_mem w))"
      have o: "Inv ?w" "idle t ?w" "absm (reclaim S (w_mem w)) = absm (w_mem w)" "\<And>u. u \<noteq> t \<Longrightarrow> R u w ?w"
        using pin_ok[OF w(3) idle, of S q] p(3) w(1,2) by auto
      have "called t q ?w" "w_pins ?w t \<noteq> None" by (simp_all add: pin_world_def called_def)
      note run = code[OF o(1,2) this]
      have same: "absm (view (state c')) = absm (view (state c))" using st(1) p(4) o(3) w(1) by simp
      have "tracked A ss t q (length ss) ?C None" using A(2) w(1) by (auto simp: tracked_def silent_def witnessed_def)
      from tracked_snoc[OF A(1) this, of t "absm (view (state c'))"] same A(2)
      have "tracked (A @ [absm (view (state c'))]) (ss @ [t]) t q (length ss) ?C None" by simp
      then have own: "thread_good absm Inv R idle (A @ [absm (view (state c'))]) (ss @ [t]) ?w t (running c' t)"
        using run st(2) A(4) by (auto simp: thread_good_def pin_world_def)
      show ?thesis
      proof (rule good_tickI[OF g _ _ _ _ own])
        show "running c' u = running c u \<and>
            thread_good absm Inv R idle (A @ [absm (view (state c'))]) (ss @ [t]) ?w u (running c u)" if "u \<noteq> t" for u
          using thread_good_other[OF w(4) o(4)[OF that] _ that A(1)] st that by (simp add: pin_world_def)
      qed (use st A w o same None p in \<open>auto simp: pin_world_def\<close>)
    qed
  next
    case (Some x)
    then obtain q i p where r: "running c t = Some (q, i, p)" by (cases x) auto
    from w(4)[of t] r obtain C e where th: "w_pins w t \<noteq> None" "w_call w t = Some (q, C, e)" "tracked A ss t q i C e"
      "cwp (R t) (own_move absm Inv R t) p (answered idle t q) w" by (auto simp: thread_good_def)
    consider (ret) y where "p = Ret y" | (stuck) "p = Out_of_fuel" | (call) "\<forall>y. p \<noteq> Ret y" "p \<noteq> Out_of_fuel" by blast
    then show ?thesis
    proof cases
      case ret
      have st: "state c' = unpin t (state c)" "running c' = (running c)(t := None)"
        "finished c' = finished c @ [(t, q, y, i, Suc (clock c))]" "clock c' = Suc (clock c)"
        using c' r ret by (simp_all add: tick_def)
      have ans: "idle t w" "e = Some y \<or> e = None \<and> y \<in> C" using th(2,4) ret by (auto simp: answered_def)
      from ebr_threads.unpin[OF E A(3), of t] th(1) w(2) obtain S where p: "ok (unpin t (state c))"
        "pinned (unpin t (state c)) = (pinned (state c))(t := None)"
        "spares S ((pinned (state c))(t := None)) (view (state c))" "view (unpin t (state c)) = reclaim S (view (state c))"
        by auto
      let ?w = "unpin_world S t w"
      have o: "Inv ?w" "idle t ?w" "absm (reclaim S (w_mem w)) = absm (w_mem w)" "\<And>u. u \<noteq> t \<Longrightarrow> R u w ?w"
        using unpin_ok[OF w(3) ans(1), of S] p(3) w(1,2) by auto
      have same: "absm (view (state c')) = A ! length ss" using st(1) p(4) o(3) w(1) A(2) by simp
      show ?thesis
      proof (rule good_tickI[OF g, where w' = ?w])
        show "running c' u = running c u \<and>
            thread_good absm Inv R idle (A @ [absm (view (state c'))]) (ss @ [t]) ?w u (running c u)" if "u \<noteq> t" for u
          using thread_good_other[OF w(4) o(4)[OF that] _ that A(1)] st that by (simp add: unpin_world_def)
        show "e' \<in> set (finished c) \<or> linearized (A @ [absm (view (state c'))]) (ss @ [t]) e'"
          if "e' \<in> set (finished c')" for e'
          using that st(3) tracked_finish[OF A(1) th(3) ans(2)] same A(4) by auto
        show "thread_good absm Inv R idle (A @ [absm (view (state c'))]) (ss @ [t]) ?w t (running c' t)"
          using o(2) st(2) by (simp add: thread_good_def unpin_world_def)
      qed (use st A w o p r in \<open>auto simp: unpin_world_def\<close>)
    next
      case stuck
      have st: "state c' = state c" "running c' = running c" "finished c' = finished c" "clock c' = Suc (clock c)"
        using c' r stuck by (simp_all add: tick_def fun_upd_idem)
      show ?thesis
      proof (rule good_tickI[OF g, where w' = w])
        show "running c' u = running c u \<and>
            thread_good absm Inv R idle (A @ [absm (view (state c'))]) (ss @ [t]) w u (running c u)" if "u \<noteq> t" for u
          using thread_good_other[OF w(4) rely_refl[OF w(3)] refl that A(1) hears_refl] st by simp
        show "thread_good absm Inv R idle (A @ [absm (view (state c'))]) (ss @ [t]) w t (running c' t)"
          using th st r A tracked_snoc[OF A(1) th(3), of t "A ! length ss"] by (auto simp: thread_good_def)
      qed (use st A w r in auto)
    next
      case call
      let ?s = "snd (step1 (X t) p (state c))" and ?p = "fst (step1 (X t) p (state c))"
      have st: "state c' = ?s" "running c' = (running c)(t \<mapsto> (q, i, ?p))" "finished c' = finished c"
        "clock c' = Suc (clock c)"
        using c' r call by (cases p; simp add: tick_def)+
      from ebr_threads.cwp_step[OF E A(3) w(1,2) rely_refl[OF w(3)] th(4) call, of t]
      obtain w' where w': "ok ?s" "pinned ?s = pinned (state c)" "w_mem w' = view ?s" "own_move absm Inv R t w w'"
        "cwp (R t) (own_move absm Inv R t) ?p (answered idle t q) w'" by blast
      have m: "Inv w'" "\<And>u. u \<noteq> t \<Longrightarrow> R u w w'" "w_pins w' = w_pins w" "call_step absm t w w'"
        "\<And>u. u \<noteq> t \<Longrightarrow> hears (absm (w_mem w')) (w_call w u) (w_call w' u)"
        using w'(4) by (auto simp: own_move_def)
      have abs: "A ! length ss = absm (w_mem w)" "absm (view (state c')) = absm (w_mem w')" using A(2) w(1) w'(3) st(1) by simp_all
      from m(4) th(2) obtain C' e' where call': "w_call w' t = Some (q, C', e')" and
        "absm (w_mem w') = absm (w_mem w) \<and> e' = e \<and> C' \<subseteq> C \<union> right q (absm (w_mem w)) \<or>
         e = None \<and> C' = C \<and> (\<exists>r. e' = Some r \<and> spec_call q (absm (w_mem w)) = (r, absm (w_mem w')))"
        unfolding call_step_def by auto
      then have "tracked (A @ [absm (view (state c'))]) (ss @ [t]) t q i C' e'"
        using tracked_candidates[OF A(1) th(3), of t "absm (w_mem w)" C'] tracked_effect[OF A(1), of t q i C _ "absm (w_mem w')"]
          th(3) abs by auto
      then have own: "thread_good absm Inv R idle (A @ [absm (view (state c'))]) (ss @ [t]) w' t (running c' t)"
        using th(1) m(3) call' w'(5) st(2) by (auto simp: thread_good_def)
      show ?thesis
      proof (rule good_tickI[OF g _ _ _ _ own])
        show "running c' u = running c u \<and>
            thread_good absm Inv R idle (A @ [absm (view (state c'))]) (ss @ [t]) w' u (running c u)" if "u \<noteq> t" for u
          using thread_good_other[OF w(4) m(2)[OF that] _ that A(1) m(5)[OF that]] abs st that m(3) by simp
      qed (use st A w w' m r in auto)
    qed
  qed
qed

lemma interleave_good:
  assumes E: "ebr_threads X pin unpin view pinned ok" and s: "ok s" "\<And>t. pinned s t = None"
    and w: "w_mem w = view s" "w_pins w = pinned s" "Inv w" "\<And>t. idle t w"
    and code: "\<And>t q w. Inv w \<Longrightarrow> idle t w \<Longrightarrow> called t q w \<Longrightarrow> w_pins w t \<noteq> None \<Longrightarrow>
      cwp (R t) (own_move absm Inv R t) (code q) (answered idle t q) w"
  shows "good view pinned ok
    (maps_along (\<lambda>c. absm (view (state c))) (\<lambda>ss. interleave X pin unpin code ss (start_config s qs)) sched)
    sched (interleave X pin unpin code sched (start_config s qs))"
proof (induction sched rule: rev_induct)
  case Nil
  have t: "thread_good absm Inv R idle [absm (view s)] [] w t None" for t
    using w(4)[of t] s(2)[of t] w(2) by (simp add: thread_good_def)
  have "good view pinned ok [absm (view s)] [] (start_config s qs)"
    unfolding good_def
  proof (intro conjI exI[of _ w] allI)
    show "thread_good absm Inv R idle [absm (view s)] [] w t (running (start_config s qs) t)" for t using t by simp
  qed (use s(1) w(1-3) in \<open>simp_all add: covered_def\<close>)
  then show ?case by (simp add: maps_along_Nil interleave_def)
next
  case (snoc t sched)
  have step: "interleave X pin unpin code (sched @ [t]) c = tick X pin unpin code t (interleave X pin unpin code sched c)" for c
    by (simp add: interleave_def)
  show ?case
    unfolding maps_along_snoc step by (rule good_tick[OF E snoc.IH _ refl]) (rule code)
qed

lemma good_safe:
  assumes E: "ebr_threads X pin unpin view pinned ok" and g: "good view pinned ok A ss c"
    and r: "running c t = Some (q, i, p)"
  shows "safe_call p (view (state c))"
proof -
  from g r obtain w where w: "ok (state c)" "w_mem w = view (state c)" "w_pins w = pinned (state c)" "Inv w"
    "thread_good absm Inv R idle A ss w t (Some (q, i, p))" unfolding good_def by metis
  then have c: "cwp (R t) (own_move absm Inv R t) p (answered idle t q) w" by (simp add: thread_good_def)
  show ?thesis
  proof (cases "(\<exists>y. p = Ret y) \<or> p = Out_of_fuel")
    case False
    then show ?thesis using ebr_threads.cwp_step[OF E w(1-3) rely_refl[OF w(4)] c, of t] by blast
  qed auto
qed

lemma interleave_correct:
  assumes E: "ebr_threads X pin unpin view pinned ok" and s: "ok s" "\<And>t. pinned s t = None"
    and w: "w_mem w = view s" "w_pins w = pinned s" "Inv w" "\<And>t. idle t w"
    and code: "\<And>t q w. Inv w \<Longrightarrow> idle t w \<Longrightarrow> called t q w \<Longrightarrow> w_pins w t \<noteq> None \<Longrightarrow>
      cwp (R t) (own_move absm Inv R t) (code q) (answered idle t q) w"
  shows "interleavings_correct X pin unpin view absm code s qs"
  unfolding interleavings_correct_def Let_def
proof (intro allI conjI impI)
  fix sched
  let ?c = "interleave X pin unpin code sched (start_config s qs)"
  note g = interleave_good[OF E s w code, of qs sched]
  let ?A = "maps_along (\<lambda>c. absm (view (state c))) (\<lambda>ss. interleave X pin unpin code ss (start_config s qs)) sched"
  from g have lin: "\<forall>e\<in>set (finished ?c). linearized ?A sched e" "covered ?A sched ?c" unfolding good_def by blast+
  from g obtain w where w: "\<And>t. thread_good absm Inv R idle
      (maps_along (\<lambda>c. absm (view (state c))) (\<lambda>ss. interleave X pin unpin code ss (start_config s qs)) sched)
      sched w t (running ?c t)" unfolding good_def by blast
  show "linearizable
      (maps_along (\<lambda>c. absm (view (state c))) (\<lambda>ss. interleave X pin unpin code ss (start_config s qs)) sched) sched ?c"
  proof (rule tracked_linearizable)
    show "\<exists>C e. tracked (maps_along (\<lambda>c. absm (view (state c)))
        (\<lambda>ss. interleave X pin unpin code ss (start_config s qs)) sched) sched t q i C e"
      if "running ?c t = Some (q, i, p)" for t q i p
      using w[of t] that by (auto simp: thread_good_def)
  qed (use lin in blast)+
  show "safe_call p (view (state ?c))" if "running ?c t = Some (q, i, p)" for t q i p
    by (rule good_safe[OF E g that])
qed

text \<open>A thread is pinned during its calls.\<close>

lemma interleave_pinned:
  assumes E: "ebr_threads X pin unpin view pinned ok" and s: "ok s" "\<And>t. pinned s t = None"
    and w: "w_mem w = view s" "w_pins w = pinned s" "Inv w" "\<And>t. idle t w"
    and code: "\<And>t q w. Inv w \<Longrightarrow> idle t w \<Longrightarrow> called t q w \<Longrightarrow> w_pins w t \<noteq> None \<Longrightarrow>
      cwp (R t) (own_move absm Inv R t) (code q) (answered idle t q) w"
    and c: "c = interleave X pin unpin code sched (start_config s qs)" "running c t \<noteq> None"
  shows "ok (state c) \<and> pinned (state c) t \<noteq> None"
proof -
  from interleave_good[OF E s w code, of qs sched] obtain v where v: "ok (state c)" "w_pins v = pinned (state c)"
    "\<And>t. thread_good absm Inv R idle
      (maps_along (\<lambda>c. absm (view (state c))) (\<lambda>ss. interleave X pin unpin code ss (start_config s qs)) sched)
      sched v t (running c t)" unfolding good_def c(1) by blast
  obtain x where x: "running c t = Some x" using c(2) by blast
  from v(3)[of t] v(1,2) show ?thesis unfolding x by (cases x) (auto simp: thread_good_def)
qed

text \<open>When no call is in progress, no thread is pinned, and the invariant holds of the memory with every thread idle.\<close>

lemma interleave_quiescent:
  assumes E: "ebr_threads X pin unpin view pinned ok" and s: "ok s" "\<And>t. pinned s t = None"
    and w: "w_mem w = view s" "w_pins w = pinned s" "Inv w" "\<And>t. idle t w"
    and code: "\<And>t q w. Inv w \<Longrightarrow> idle t w \<Longrightarrow> called t q w \<Longrightarrow> w_pins w t \<noteq> None \<Longrightarrow>
      cwp (R t) (own_move absm Inv R t) (code q) (answered idle t q) w"
    and c: "c = interleave X pin unpin code sched (start_config s qs)" "\<And>t. running c t = None"
  shows "ok (state c) \<and> (\<forall>t. pinned (state c) t = None) \<and> (\<exists>w. w_mem w = view (state c) \<and> Inv w \<and> (\<forall>t. idle t w))"
proof -
  from interleave_good[OF E s w code, of qs sched] obtain v where v: "w_mem v = view (state c)" "Inv v"
    "ok (state c)" "w_pins v = pinned (state c)"
    "\<And>t. thread_good absm Inv R idle
      (maps_along (\<lambda>c. absm (view (state c))) (\<lambda>ss. interleave X pin unpin code ss (start_config s qs)) sched)
      sched v t (running c t)" unfolding good_def c(1) by blast
  then have "idle t v \<and> pinned (state c) t = None" for t using v(5)[of t] c(2) by (simp add: thread_good_def)
  with v(1-3) show ?thesis by blast
qed

end


section \<open>A library that threads can share\<close>

text \<open>
  The implementation of the interface from theory \<^verbatim>\<open>Crossbeam\<close> with a table of pinned threads; unpinning
  reclaims whatever it may.
\<close>

type_synonym ('f, 'n) par = "('f, 'n) sc \<times> (tid \<Rightarrow> nat option)"

definition par_view :: "('f, 'n) par \<Rightarrow> ('f, 'n) mem" where
  "par_view s = sc_view (fst s)"

definition par_ok :: "('f, 'n) par \<Rightarrow> bool" where
  "par_ok s \<longleftrightarrow> sc_ok (fst s)"

definition par_pinned :: "('f, 'n) par \<Rightarrow> tid \<Rightarrow> nat option" where
  "par_pinned s = snd s"

definition par_pin :: "tid \<Rightarrow> ('f, 'n) par \<Rightarrow> ('f, 'n) par" where
  "par_pin t s = (fst s, (snd s)(t \<mapsto> length (retired (sc_mem (fst s)))))"

definition par_unpin :: "tid \<Rightarrow> ('f, 'n) par \<Rightarrow> ('f, 'n) par" where
  "par_unpin t s =
     (let P = (snd s)(t := None); m = sc_mem (fst s);
          S = {a. \<forall>u n. P u = Some n \<longrightarrow> a \<notin> set (drop n (retired m))}
      in (sc_upd (reclaim S) (fst s), P))"

definition par_api :: "tid \<Rightarrow> ('f, 'n, ('f, 'n) par) crossbeam" where
  "par_api t = \<lparr>
     x_load = (\<lambda>l s. map_prod id (\<lambda>y. (y, snd s)) (x_load sc_api l (fst s))),
     x_store = (\<lambda>l p s. (x_store sc_api l p (fst s), snd s)),
     x_compare_and_set = (\<lambda>l u v s. map_prod id (\<lambda>y. (y, snd s)) (x_compare_and_set sc_api l u v (fst s))),
     x_fetch_or = (\<lambda>l b s. map_prod id (\<lambda>y. (y, snd s)) (x_fetch_or sc_api l b (fst s))),
     x_deref = (\<lambda>p s. map_prod id (\<lambda>y. (y, snd s)) (x_deref sc_api p (fst s))),
     x_deref_mut = (\<lambda>p n s. (x_deref_mut sc_api p n (fst s), snd s)),
     x_owned_new = (\<lambda>n fs s. map_prod id (\<lambda>y. (y, snd s)) (x_owned_new sc_api n fs (fst s))),
     x_drop_owned = (\<lambda>p s. (x_drop_owned sc_api p (fst s), snd s)),
     x_drop_value = (\<lambda>p s. (x_drop_value sc_api p (fst s), snd s)),
     x_defer_destroy = (\<lambda>p s. (x_defer_destroy sc_api p (fst s), snd s)),
     x_shield_null = (\<lambda>s. map_prod id (\<lambda>y. (y, snd s)) (x_shield_null sc_api (fst s))),
     x_shield_new = (\<lambda>p s. map_prod id (\<lambda>y. (y, snd s)) (x_shield_new sc_api p (fst s))),
     x_shield_drop = (\<lambda>i s. (x_shield_drop sc_api i (fst s), snd s)),
     x_defend = (\<lambda>i p s. map_prod id (\<lambda>y. (y, snd s)) (x_defend sc_api i p (fst s))),
     x_defend_fake = (\<lambda>i p s. (x_defend_fake sc_api i p (fst s), snd s)),
     x_release = (\<lambda>i s. (x_release sc_api i (fst s), snd s)),
     x_shield_shared = (\<lambda>i s. map_prod id (\<lambda>y. (y, snd s)) (x_shield_shared sc_api i (fst s))),
     x_repin = (\<lambda>s. (x_repin sc_api (fst s), snd s))\<rparr>"

lemmas par_defs = par_api_def par_view_def par_ok_def par_pinned_def

lemma par_lift: "map_prod id (\<lambda>y. (y, P)) z = (r, s) \<longleftrightarrow> z = (r, fst s) \<and> snd s = P"
  by (cases z; cases s) auto

lemma par_crossbeam: "crossbeam_api (par_api t) par_view par_ok"
proof (unfold_locales, goal_cases)
  case (1 s l p s') with sc.load[of "fst s" l p "fst s'"] show ?case by (auto simp: par_defs par_lift)
next
  case (2 s l p s') with sc.store[OF _ _ refl, of "fst s" l p] show ?case by (auto simp: par_defs par_lift)
next
  case (3 s l u v r s') with sc.compare_and_set[of "fst s" l u v r "fst s'"] show ?case by (auto simp: par_defs par_lift)
next
  case (4 s l b p s') with sc.fetch_or[of "fst s" l b p "fst s'"] show ?case by (auto simp: par_defs par_lift)
next
  case (5 s p n n' s') with sc.deref[of "fst s" p n n' "fst s'"] show ?case by (auto simp: par_defs par_lift)
next
  case (6 s p n s') with sc.deref_mut[OF _ _ refl, of "fst s" p n] show ?case by (auto simp: par_defs par_lift)
next
  case (7 s n fs p s') with sc.owned_new[of "fst s" n fs p "fst s'"] show ?case by (auto simp: par_defs par_lift)
next
  case (8 s p s') with sc.drop_owned[OF _ _ _ refl, of "fst s" p] show ?case by (auto simp: par_defs par_lift)
next
  case (9 s p s') with sc.drop_value[OF _ _ refl, of "fst s" p] show ?case by (auto simp: par_defs par_lift)
next
  case (10 s p s') with sc.defer_destroy[OF _ _ _ refl, of "fst s" p] show ?case by (auto simp: par_defs par_lift)
next
  case (11 s i s') with sc.shield_null[of "fst s" i "fst s'"] show ?case by (auto simp: par_defs par_lift)
next
  case (12 s p rn s') with sc.shield_new[of "fst s" p rn "fst s'"] show ?case by (auto simp: par_defs par_lift split: sum.splits shield_error.splits)
next
  case (13 s i s') with sc.shield_drop[OF _ _ refl, of "fst s" i] show ?case by (auto simp: par_defs par_lift)
next
  case (14 s i p rd s') with sc.defend[of "fst s" i p rd "fst s'"] show ?case by (auto simp: par_defs par_lift split: sum.splits shield_error.splits)
next
  case (15 s i p s') with sc.defend_fake[OF _ _ refl, of "fst s" i p] show ?case by (auto simp: par_defs par_lift)
next
  case (16 s i s') with sc.release[OF _ _ refl, of "fst s" i] show ?case by (auto simp: par_defs par_lift)
next
  case (17 s i p q s') with sc.shield_shared[of "fst s" i p q "fst s'"] show ?case by (auto simp: par_defs par_lift)
next
  case (18 s s') with sc.repin[OF _ refl, of "fst s"] show ?case by (auto simp: par_defs par_lift)
qed

interpretation par: ebr_threads par_api par_pin par_unpin par_view par_pinned par_ok
proof (rule ebr_threads.intro, goal_cases)
  case (1 t)
  show ?case by (rule par_crossbeam)
next
  case (2 s c t)
  show ?case by (cases c) (simp_all add: par_api_def par_pinned_def map_prod_def split: prod.splits)
next
  case (3 s p t)
  have "par_view (x_defer_destroy (par_api t) p s) = reclaim {} (retire (raw p) (par_view s))"
    by (auto simp: par_defs sc_api_def intro: mem_eqI)
  moreover have "spares {} (par_pinned s) (retire (raw p) (par_view s))" by (simp add: spares_def)
  ultimately show ?case by blast
next
  case (4 s t)
  have "par_view (par_pin t s) = reclaim {} (par_view s)" by (simp add: par_view_def par_pin_def)
  moreover have "spares {} (par_pinned s) (par_view s)" by (simp add: spares_def)
  ultimately show ?case using 4 by (auto simp: par_defs par_pin_def)
next
  case (5 s t)
  let ?P = "(snd s)(t := None)"
  let ?S = "{a. \<forall>u n. ?P u = Some n \<longrightarrow> a \<notin> set (drop n (retired (sc_mem (fst s))))}"
  have "par_view (par_unpin t s) = reclaim ?S (par_view s)"
    by (auto simp: par_view_def par_unpin_def Let_def intro: mem_eqI)
  moreover have "spares ?S ((par_pinned s)(t := None)) (par_view s)"
    by (auto simp: spares_def par_view_def par_pinned_def simp del: fun_upd_apply)
  moreover have "par_ok (par_unpin t s)"
    using 5 by (auto simp: par_ok_def par_unpin_def sc_ok_def Let_def restrict_map_def)
  ultimately show ?case by (auto simp: par_pinned_def par_unpin_def Let_def simp del: fun_upd_apply)
qed

end
