(* ===== verification/Disjoint_Threads.thy ===== *)
theory Disjoint_Threads
  imports Interleaving
begin

text \<open>
  What linearizability gives to threads that work on keys of their own: each of them sees a sequential map.  The calls
  of a thread are answered as if no other thread existed, whatever the schedule.
\<close>

section \<open>The calls of a thread\<close>

text \<open>The calls that a thread has finished, in order, with their answers and times.\<close>

definition history :: "tid \<Rightarrow> ('k, 'v, 'f, 'n, 's) config \<Rightarrow> (('k, 'v) request \<times> 'v response \<times> nat \<times> nat) list" where
  "history t c = map snd (filter (\<lambda>e. fst e = t) (finished c))"

lemma history_finished: "e \<in> set (history t c) \<longleftrightarrow> (t, e) \<in> set (finished c)"
  by (force simp: history_def)

definition current :: "tid \<Rightarrow> ('k, 'v, 'f, 'n, 's) config \<Rightarrow> ('k, 'v) request list" where
  "current t c = (case running c t of None \<Rightarrow> [] | Some (q, i, p) \<Rightarrow> [q])"

text \<open>When the call in progress began.\<close>

definition since :: "tid \<Rightarrow> ('k, 'v, 'f, 'n, 's) config \<Rightarrow> nat" where
  "since t c = (case running c t of None \<Rightarrow> clock c | Some (q, i, p) \<Rightarrow> i)"

text \<open>A thread makes its calls in the order given, one after the other.\<close>

definition before :: "'q \<times> 'r \<times> nat \<times> nat \<Rightarrow> 'q \<times> 'r \<times> nat \<times> nat \<Rightarrow> bool" where
  "before e e' \<longleftrightarrow> snd (snd (snd e)) \<le> fst (snd (snd e'))"

definition in_order :: "('k, 'v) request list \<Rightarrow> tid \<Rightarrow> ('k, 'v, 'f, 'n, 's) config \<Rightarrow> bool" where
  "in_order qs t c \<longleftrightarrow> map fst (history t c) @ current t c @ todo c t = qs \<and> sorted_wrt before (history t c) \<and>
     (\<forall>(q, r, i, j)\<in>set (history t c). i < j \<and> j \<le> since t c) \<and> since t c \<le> clock c"

lemma in_order_later:
  assumes "in_order qs t c" "history t c' = history t c" "current t c' @ todo c' t = current t c @ todo c t"
    and "since t c \<le> since t c'" "since t c' \<le> clock c'"
  shows "in_order qs t c'"
  using assms unfolding in_order_def by fastforce

lemma in_order_tick:
  assumes "\<And>t. in_order (qs t) t c"
  shows "in_order (qs u) u (tick X pin unpin code t c)"
proof -
  let ?c = "tick X pin unpin code t c"
  note io = assms[of u]
  have cl: "clock ?c = Suc (clock c)" by (simp add: tick_def)
  have now: "since u c \<le> clock c" using io by (simp add: in_order_def)
  consider (other) "u \<noteq> t" | (rest) "u = t" "running c t = None" "todo c t = []"
    | (begin_call) q ps where "u = t" "running c t = None" "todo c t = q # ps"
    | (end_call) q i r where "u = t" "running c t = Some (q, i, Ret r)"
    | (move) q i p where "u = t" "running c t = Some (q, i, p)" "\<forall>r. p \<noteq> Ret r"
    by (metis list.exhaust option.exhaust prod_cases3)
  then show ?thesis
  proof cases
    case other
    then have "history u ?c = history u c" "running ?c u = running c u" "todo ?c u = todo c u"
      by (auto simp: tick_def history_def split: option.splits prod.splits prog.splits list.splits)
    with now cl show ?thesis by (intro in_order_later[OF io]) (auto simp: current_def since_def split: option.splits)
  next
    case rest
    then show ?thesis by (intro in_order_later[OF io]) (simp_all add: tick_def history_def current_def since_def)
  next
    case begin_call
    then show ?thesis by (intro in_order_later[OF io]) (simp_all add: tick_def history_def current_def since_def)
  next
    case end_call
    have h: "history u ?c = history u c @ [(q, r, i, Suc (clock c))]" "running ?c u = None" "todo ?c u = todo c u"
      using end_call by (simp_all add: tick_def history_def)
    have i: "since u c = i" "current u c = [q]" "since u ?c = Suc (clock c)" "current u ?c = []"
      using end_call h(2) cl by (simp_all add: since_def current_def)
    have "in_order (qs u) u c" by (rule io)
    then show ?thesis
      unfolding in_order_def h i cl by (auto simp: sorted_wrt_append before_def) 
  next
    case move
    then have "running ?c u = Some (q, i, fst (step1 (X t) p (state c)))" "history u ?c = history u c" "todo ?c u = todo c u"
      by (cases p; simp add: tick_def history_def)+
    with move now cl show ?thesis by (intro in_order_later[OF io]) (auto simp: current_def since_def)
  qed
qed

lemma interleave_in_order: "in_order (qs t) t (interleave X pin unpin code sched (start_config s qs))"
proof (induction sched arbitrary: t rule: rev_induct)
  case Nil
  show ?case by (simp add: interleave_def in_order_def history_def current_def since_def)
next
  case (snoc u sched)
  have "interleave X pin unpin code (sched @ [u]) (start_config s qs) =
    tick X pin unpin code u (interleave X pin unpin code sched (start_config s qs))" by (simp add: interleave_def)
  with in_order_tick[of qs, OF snoc.IH] show ?case by simp
qed

lemma interleave_clock: "clock (interleave X pin unpin code sched (start_config s qs)) = length sched"
  by (induction sched rule: rev_induct) (simp_all add: interleave_def tick_def)

section \<open>Agreement on a set of keys\<close>

definition agree :: "'k set \<Rightarrow> ('k \<rightharpoonup> 'v) \<Rightarrow> ('k \<rightharpoonup> 'v) \<Rightarrow> bool" where
  "agree K M N \<longleftrightarrow> (\<forall>k\<in>K. M k = N k)"

lemma agree_refl [simp]: "agree K M M"
  by (simp add: agree_def)

lemma agree_sym: "agree K M N \<Longrightarrow> agree K N M"
  by (simp add: agree_def)

lemma agree_trans: "agree K M N \<Longrightarrow> agree K N P \<Longrightarrow> agree K M P"
  by (simp add: agree_def)

lemma agree_interval:
  assumes "\<And>\<tau>. a \<le> \<tau> \<Longrightarrow> \<tau> < b \<Longrightarrow> agree K (A ! Suc \<tau>) (A ! \<tau>)" "a \<le> b"
  shows "agree K (A ! b) (A ! a)"
  using assms(2,1)
proof (induction b rule: dec_induct)
  case (step n)
  then show ?case by (auto intro: agree_trans)
qed simp

lemma spec_call_agree:
  assumes "agree K M N" "req_key q \<in> K"
  shows "fst (spec_call q M) = fst (spec_call q N)" "agree K (snd (spec_call q M)) (snd (spec_call q N))"
  using assms by (cases q; auto simp: agree_def)+

lemma spec_call_frame: "req_key q \<notin> K \<Longrightarrow> agree K (snd (spec_call q M)) M"
  by (cases q) (auto simp: agree_def)

section \<open>Threads on keys of their own\<close>

text \<open>Between two moments, a call in progress changes at most its own key.\<close>

lemma call_agree:
  assumes "effect_at A ss t q r i j \<or> silent A ss t i j {}" "i \<le> \<tau>" "\<tau> < j" "ss ! \<tau> = t" "req_key q \<notin> K"
  shows "agree K (A ! Suc \<tau>) (A ! \<tau>)"
proof (cases "A ! Suc \<tau> = A ! \<tau>")
  case False
  with assms(1-4) obtain \<sigma> where \<sigma>: "spec_call q (A ! \<sigma>) = (r, A ! Suc \<sigma>)" "silent A ss t i j {\<sigma>}"
    unfolding effect_at_def silent_def by blast
  with False assms(2-4) have "\<tau> = \<sigma>" by (auto simp: silent_def)
  with spec_call_frame[OF assms(5), of "A ! \<sigma>"] \<sigma>(1) show ?thesis by simp
qed simp

lemma linearized_cases:
  assumes "linearized A ss (t, q, r, i, j)"
  obtains "effect_at A ss t q r i j" | "read_at A ss t q r i j"
  using assms by (auto simp: linearized_def)

lemma others_agree:
  assumes lin: "linearizable A ss c" and len: "clock c = length ss" and \<tau>: "\<tau> < length ss" "ss ! \<tau> \<noteq> t"
    and io: "\<And>u. in_order (qs u) u c" and K: "\<And>u. u \<noteq> t \<Longrightarrow> req_key ` set (qs u) \<inter> K = {}"
  shows "agree K (A ! Suc \<tau>) (A ! \<tau>)"
proof (cases "A ! Suc \<tau> = A ! \<tau>")
  case False
  let ?u = "ss ! \<tau>"
  have keys: "req_key q \<notin> K" if "q \<in> set (map fst (history ?u c)) \<union> set (current ?u c)" for q
  proof -
    have "map fst (history ?u c) @ current ?u c @ todo c ?u = qs ?u" using io[of ?u] by (simp add: in_order_def)
    from this[symmetric] that have "q \<in> set (qs ?u)" by auto
    with K[OF \<tau>(2)] show ?thesis by blast
  qed
  from lin \<tau>(1) False consider (fin) q r i j where "(?u, q, r, i, j) \<in> set (finished c)" "i \<le> \<tau>" "\<tau> < j"
    | (run) q i p where "running c ?u = Some (q, i, p)" "i \<le> \<tau>" unfolding linearizable_def by blast
  then show ?thesis
  proof cases
    case fin
    then have "linearized A ss (?u, q, r, i, j)" using lin unfolding linearizable_def by blast
    then have "effect_at A ss ?u q r i j \<or> silent A ss ?u i j {}" by (auto simp: linearized_def read_at_def)
    moreover have "req_key q \<notin> K" by (rule keys) (use fin(1) in \<open>force simp: history_finished[symmetric]\<close>)
    ultimately show ?thesis using call_agree fin by blast
  next
    case run
    have "req_key q \<notin> K" by (rule keys) (simp add: current_def run(1))
    moreover have "silent A ss ?u i (length ss) {} \<or> (\<exists>r. effect_at A ss ?u q r i (length ss))"
      using lin run(1) unfolding linearizable_def by blast
    ultimately show ?thesis using call_agree run(2) \<tau>(1) False unfolding silent_def by blast
  qed
qed simp

text \<open>A call of a thread, when nobody else touches its keys.\<close>

lemma window_effect:
  assumes "effect_at A ss t q r i j" "\<And>\<tau>. i \<le> \<tau> \<Longrightarrow> \<tau> < j \<Longrightarrow> ss ! \<tau> \<noteq> t \<Longrightarrow> agree K (A ! Suc \<tau>) (A ! \<tau>)"
    and "req_key q \<in> K" "agree K (A ! i) M"
  shows "r = fst (spec_call q M) \<and> agree K (A ! j) (snd (spec_call q M))"
proof -
  from assms(1) obtain \<sigma> where \<sigma>: "i \<le> \<sigma>" "\<sigma> < j" "spec_call q (A ! \<sigma>) = (r, A ! Suc \<sigma>)" "silent A ss t i j {\<sigma>}"
    unfolding effect_at_def by blast
  have quiet: "agree K (A ! Suc \<tau>) (A ! \<tau>)" if "i \<le> \<tau>" "\<tau> < j" "\<tau> \<noteq> \<sigma>" for \<tau>
    using assms(2)[OF that(1,2)] \<sigma>(4) that by (cases "ss ! \<tau> = t") (auto simp: silent_def)
  have "agree K (A ! \<sigma>) (A ! i)" by (rule agree_interval) (use quiet \<sigma>(1,2) in auto)
  then have M: "agree K (A ! \<sigma>) M" using assms(4) by (rule agree_trans)
  have "agree K (A ! j) (A ! Suc \<sigma>)" by (rule agree_interval) (use quiet \<sigma>(1,2) in auto)
  with spec_call_agree[OF M assms(3)] \<sigma>(3) show ?thesis by (auto intro: agree_trans)
qed

lemma window_read:
  assumes "read_at A ss t q r i j" "\<And>\<tau>. i \<le> \<tau> \<Longrightarrow> \<tau> < j \<Longrightarrow> ss ! \<tau> \<noteq> t \<Longrightarrow> agree K (A ! Suc \<tau>) (A ! \<tau>)"
    and "req_key q \<in> K" "agree K (A ! i) M"
  shows "r = fst (spec_call q M) \<and> agree K (A ! j) (snd (spec_call q M))"
proof -
  from assms(1) obtain \<sigma> where \<sigma>: "i \<le> \<sigma>" "\<sigma> \<le> j" "spec_call q (A ! \<sigma>) = (r, A ! \<sigma>)" "silent A ss t i j {}"
    unfolding read_at_def right_def by blast
  have quiet: "agree K (A ! Suc \<tau>) (A ! \<tau>)" if "i \<le> \<tau>" "\<tau> < j" for \<tau>
    using assms(2)[OF that(1,2)] \<sigma>(4) that by (cases "ss ! \<tau> = t") (auto simp: silent_def)
  have "agree K (A ! \<sigma>) (A ! i)" by (rule agree_interval) (use quiet \<sigma>(1,2) in auto)
  then have M: "agree K (A ! \<sigma>) M" using assms(4) by (rule agree_trans)
  have "agree K (A ! j) (A ! \<sigma>)" by (rule agree_interval) (use quiet \<sigma>(1,2) in auto)
  with spec_call_agree[OF M assms(3)] \<sigma>(3) show ?thesis by (auto intro: agree_trans)
qed

lemma window_agree:
  assumes "linearized A ss (t, q, r, i, j)" "\<And>\<tau>. i \<le> \<tau> \<Longrightarrow> \<tau> < j \<Longrightarrow> ss ! \<tau> \<noteq> t \<Longrightarrow> agree K (A ! Suc \<tau>) (A ! \<tau>)"
    and "req_key q \<in> K" "agree K (A ! i) M"
  shows "r = fst (spec_call q M)" "agree K (A ! j) (snd (spec_call q M))"
  using assms(1) by (cases rule: linearized_cases; use window_effect[OF _ assms(2-4)] window_read[OF _ assms(2-4)] in blast)+

text \<open>A sequence of calls, from the moment \<open>a\<close> to the moment \<open>b\<close>.\<close>

lemma calls_agree:
  assumes "\<forall>(q, r, i, j)\<in>set hs. linearized A ss (t, q, r, i, j) \<and> req_key q \<in> K \<and> a \<le> i \<and> i \<le> j \<and> j \<le> b" "sorted_wrt before hs"
    and "\<And>\<tau>. a \<le> \<tau> \<Longrightarrow> \<tau> < b \<Longrightarrow> ss ! \<tau> \<noteq> t \<or> (\<forall>(q, r, i, j)\<in>set hs. \<not> (i \<le> \<tau> \<and> \<tau> < j)) \<Longrightarrow> agree K (A ! Suc \<tau>) (A ! \<tau>)"
    and "agree K (A ! a) M" "a \<le> b"
  shows "map (fst \<circ> snd) hs = fst (spec_calls (map fst hs) M) \<and> agree K (A ! b) (snd (spec_calls (map fst hs) M))"
  using assms
proof (induction hs arbitrary: a M)
  case Nil
  have "agree K (A ! b) (A ! a)" by (rule agree_interval) (use Nil.prems in auto)
  then show ?case using Nil.prems(4) by (auto intro: agree_trans)
next
  case (Cons e hs)
  obtain q r i j where e: "e = (q, r, i, j)" by (cases e)
  have w: "linearized A ss (t, q, r, i, j)" "req_key q \<in> K" "a \<le> i" "i \<le> j" "j \<le> b" using Cons.prems(1) e by auto
  have later: "j \<le> i'" if "(q', r', i', j') \<in> set hs" for q' r' i' j'
    using Cons.prems(2) that e by (auto simp: before_def)
  have "agree K (A ! i) (A ! a)"
  proof (rule agree_interval[OF Cons.prems(3) w(3)])
    fix \<tau> assume \<tau>: "a \<le> \<tau>" "\<tau> < i"
    show "ss ! \<tau> \<noteq> t \<or> (\<forall>(q, r, i, j)\<in>set (e # hs). \<not> (i \<le> \<tau> \<and> \<tau> < j))"
      using \<tau> w(4) e by (auto dest!: later)
  qed (use w in auto)
  then have i: "agree K (A ! i) M" using Cons.prems(4) by (rule agree_trans)
  have q: "r = fst (spec_call q M)" "agree K (A ! j) (snd (spec_call q M))"
    by (rule window_agree[OF w(1) Cons.prems(3) w(2) i]; use w in auto)+
  have "map (fst \<circ> snd) hs = fst (spec_calls (map fst hs) (snd (spec_call q M))) \<and>
      agree K (A ! b) (snd (spec_calls (map fst hs) (snd (spec_call q M))))"
  proof (rule Cons.IH[where a = j])
    show "\<forall>(q, r, i, j')\<in>set hs. linearized A ss (t, q, r, i, j') \<and> req_key q \<in> K \<and> j \<le> i \<and> i \<le> j' \<and> j' \<le> b"
      using Cons.prems(1) later by auto
    fix \<tau> assume "j \<le> \<tau>" "\<tau> < b" "ss ! \<tau> \<noteq> t \<or> (\<forall>(q, r, i, j)\<in>set hs. \<not> (i \<le> \<tau> \<and> \<tau> < j))"
    then show "agree K (A ! Suc \<tau>) (A ! \<tau>)" using Cons.prems(3) w e by auto
  qed (use Cons.prems q w in auto)
  then show ?case using e q(1) by (auto split: prod.splits)
qed

text \<open>Threads that share no key.\<close>

definition own_keys :: "(tid \<Rightarrow> ('k, 'v) request list) \<Rightarrow> bool" where
  "own_keys qs \<longleftrightarrow> (\<forall>t u. t \<noteq> u \<longrightarrow> req_key ` set (qs t) \<inter> req_key ` set (qs u) = {})"

lemma own_keys_history:
  assumes correct: "interleavings_correct X pin unpin view absm code s qs" and own: "own_keys qs"
    and c: "c = interleave X pin unpin code sched (start_config s qs)"
  shows "map (fst \<circ> snd) (history t c) = fst (spec_calls (map fst (history t c)) (absm (view s)))" (is ?answers)
    and "running c t = None \<Longrightarrow> agree (req_key ` set (qs t)) (absm (view (state c))) (snd (spec_calls (map fst (history t c)) (absm (view s))))"
proof -
  let ?A = "maps_along (\<lambda>c. absm (view (state c))) (\<lambda>ss. interleave X pin unpin code ss (start_config s qs)) sched"
  let ?K = "req_key ` set (qs t)" and ?M = "absm (view s)"
  have lin: "linearizable ?A sched c" using correct unfolding interleavings_correct_def Let_def c by blast
  have io: "in_order (qs u) u c" for u unfolding c by (rule interleave_in_order)
  have len: "clock c = length sched" unfolding c by (rule interleave_clock)
  have hist: "map fst (history t c) @ current t c @ todo c t = qs t" "sorted_wrt before (history t c)" "since t c \<le> length sched"
    "\<forall>(q, r, i, j)\<in>set (history t c). i < j \<and> j \<le> since t c" using io[of t] len by (auto simp: in_order_def)
  have keys: "req_key q \<in> ?K" if "(q, r, i, j) \<in> set (history t c)" for q r i j
    using that hist(1)[symmetric] by force
  have "map (fst \<circ> snd) (history t c) = fst (spec_calls (map fst (history t c)) ?M) \<and>
      agree ?K (?A ! since t c) (snd (spec_calls (map fst (history t c)) ?M))"
  proof (rule calls_agree[where a = 0])
    show "\<forall>(q, r, i, j)\<in>set (history t c). linearized ?A sched (t, q, r, i, j) \<and> req_key q \<in> ?K \<and> 0 \<le> i \<and> i \<le> j \<and> j \<le> since t c"
    proof clarify
      fix q r i j assume e: "(q, r, i, j) \<in> set (history t c)"
      then have "linearized ?A sched (t, q, r, i, j)" using lin by (simp add: linearizable_def history_finished)
      with keys[OF e] hist(4) e show "linearized ?A sched (t, q, r, i, j) \<and> req_key q \<in> ?K \<and> 0 \<le> i \<and> i \<le> j \<and> j \<le> since t c"
        by auto
    qed
    fix \<tau> assume \<tau>: "\<tau> < since t c" "sched ! \<tau> \<noteq> t \<or> (\<forall>(q, r, i, j)\<in>set (history t c). \<not> (i \<le> \<tau> \<and> \<tau> < j))"
    then have lt: "\<tau> < length sched" using hist(3) by simp
    show "agree ?K (?A ! Suc \<tau>) (?A ! \<tau>)"
    proof (cases "sched ! \<tau> = t")
      case True
      have "\<not> (\<exists>q r i j. (t, q, r, i, j) \<in> set (finished c) \<and> i \<le> \<tau> \<and> \<tau> < j)"
        using \<tau>(2) True by (auto simp: history_finished[symmetric])
      moreover have "\<not> (\<exists>q i p. running c t = Some (q, i, p) \<and> i \<le> \<tau>)" using \<tau>(1) by (auto simp: since_def)
      ultimately have "?A ! Suc \<tau> = ?A ! \<tau>" using lin lt True unfolding linearizable_def by blast
      then show ?thesis by simp
    next
      case False
      show ?thesis by (rule others_agree[OF lin len lt False io]) (use own in \<open>auto simp: own_keys_def\<close>)
    qed
  qed (use hist(2) in \<open>simp_all add: maps_along_def interleave_def nth_append del: upt_Suc\<close>)
  then show ?answers and "running c t = None \<Longrightarrow> agree ?K (absm (view (state c))) (snd (spec_calls (map fst (history t c)) ?M))"
    using last_maps_along[of "\<lambda>c. absm (view (state c))" "\<lambda>ss. interleave X pin unpin code ss (start_config s qs)" sched] len
    by (auto simp: since_def c)
qed

text \<open>A key that no thread uses.\<close>

lemma unused_key:
  assumes correct: "interleavings_correct X pin unpin view absm code s qs" and k: "\<And>t. k \<notin> req_key ` set (qs t)"
  shows "absm (view (state (interleave X pin unpin code sched (start_config s qs)))) k = absm (view s) k"
proof -
  let ?c = "interleave X pin unpin code sched (start_config s qs)"
  let ?A = "maps_along (\<lambda>c. absm (view (state c))) (\<lambda>ss. interleave X pin unpin code ss (start_config s qs)) sched"
  have lin: "linearizable ?A sched ?c" using correct unfolding interleavings_correct_def Let_def by blast
  have "agree {k} (?A ! length sched) (?A ! 0)"
  proof (rule agree_interval)
    fix \<tau> assume "\<tau> < length sched"
    then show "agree {k} (?A ! Suc \<tau>) (?A ! \<tau>)"
      by (rule others_agree[where t = "Suc (sched ! \<tau>)", OF lin interleave_clock _ _ interleave_in_order]) (use k in auto)
  qed simp
  moreover have "?A ! 0 = absm (view s)" by (simp add: maps_along_def interleave_def nth_append del: upt_Suc)
  ultimately show ?thesis by (simp add: last_maps_along agree_def)
qed

end
