(* ===== verification/Shared_Map.thy ===== *)
theory Shared_Map
  imports Interleaving
begin

text \<open>
  A map that threads share: a concurrent object whose calls, begun by an idle thread, answer their requests, together with
  the memories in which it is found between calls.
\<close>

locale shared_map = concurrent_object absm Inv R idle
  for absm :: "('f, 'n) mem \<Rightarrow> 'k \<rightharpoonup> 'v"
    and Inv :: "('f, 'n, 'k, 'v, 'g) world \<Rightarrow> bool"
    and R :: "tid \<Rightarrow> ('f, 'n, 'k, 'v, 'g) world \<Rightarrow> ('f, 'n, 'k, 'v, 'g) world \<Rightarrow> bool"
    and idle :: "tid \<Rightarrow> ('f, 'n, 'k, 'v, 'g) world \<Rightarrow> bool" +
  fixes code :: "('k, 'v) request \<Rightarrow> ('f, 'n, 'v response) prog"
    and rest :: "('f, 'n) mem \<Rightarrow> bool"
  assumes serves: "Inv w \<Longrightarrow> idle t w \<Longrightarrow> called t q w \<Longrightarrow> w_pins w t \<noteq> None \<Longrightarrow>
      cwp (R t) (own_move absm Inv R t) (code q) (answered idle t q) w"
    and rest_idle: "rest m \<Longrightarrow> \<exists>w. w_mem w = m \<and> w_pins w = (\<lambda>_. None) \<and> Inv w \<and> (\<forall>t. idle t w)"
    and idle_rest: "Inv w \<Longrightarrow> \<forall>t. idle t w \<Longrightarrow> rest (w_mem w)"
begin

lemma start_world:
  assumes "\<forall>t. P t = None" "rest m"
  obtains w where "w_mem w = m" "w_pins w = P" "Inv w" "\<forall>t. idle t w"
proof -
  from rest_idle[OF assms(2)] obtain w where w: "w_mem w = m" "w_pins w = (\<lambda>_. None)" "Inv w" "\<forall>t. idle t w" by blast
  show thesis by (rule that[of w]) (use w assms(1) in auto)
qed

lemma interleavings:
  assumes "ebr_threads X pin unpin view pinned ok" "ok s" "\<forall>t. pinned s t = None" "rest (view s)"
  shows "interleavings_correct X pin unpin view absm code s qs"
proof -
  obtain w where w: "w_mem w = view s" "w_pins w = pinned s" "Inv w" "\<forall>t. idle t w" by (rule start_world[where P = "pinned s", OF assms(3,4)])
  show ?thesis by (rule interleave_correct[OF assms(1,2) _ w(1-3) spec[OF w(4)]]) (use assms(3) serves in simp_all)
qed

text \<open>When all calls have returned, the map is at rest again.\<close>

lemma rests:
  assumes "ebr_threads X pin unpin view pinned ok" "ok s" "\<forall>t. pinned s t = None" "rest (view s)"
    and c: "c = interleave X pin unpin code sched (start_config s qs)" "\<forall>t. running c t = None"
  shows "rest (view (state c))" "ok (state c)" "\<forall>t. pinned (state c) t = None"
proof -
  obtain w where w: "w_mem w = view s" "w_pins w = pinned s" "Inv w" "\<forall>t. idle t w" by (rule start_world[where P = "pinned s", OF assms(3,4)])
  have q: "ok (state c) \<and> (\<forall>t. pinned (state c) t = None) \<and> (\<exists>w. w_mem w = view (state c) \<and> Inv w \<and> (\<forall>t. idle t w))"
    by (rule interleave_quiescent[OF assms(1,2) _ w(1-3) spec[OF w(4)] _ c(1)]) (use assms(3) c(2) serves in simp_all)
  then show "rest (view (state c))" using idle_rest by force
  show "ok (state c)" "\<forall>t. pinned (state c) t = None" using q by blast+
qed

lemma stays_pinned:
  assumes "ebr_threads X pin unpin view pinned ok" "ok s" "\<forall>t. pinned s t = None" "rest (view s)"
    and c: "c = interleave X pin unpin code sched (start_config s qs)" "running c t \<noteq> None"
  shows "ok (state c)" "pinned (state c) t \<noteq> None"
proof -
  obtain w where w: "w_mem w = view s" "w_pins w = pinned s" "Inv w" "\<forall>t. idle t w" by (rule start_world[where P = "pinned s", OF assms(3,4)])
  have "ok (state c) \<and> pinned (state c) t \<noteq> None"
    by (rule interleave_pinned[OF assms(1,2) _ w(1-3) spec[OF w(4)] _ c]) (use assms(3) serves in simp_all)
  then show "ok (state c)" "pinned (state c) t \<noteq> None" by blast+
qed

end

end
