(* ===== verification/Solo_Runs.thy ===== *)
theory Solo_Runs
  imports Disjoint_Threads Shared_Map
begin

text \<open>
  Progress: a thread that runs alone, while no other call is in progress, finishes its calls.  This links the runs of
  theory \<^verbatim>\<open>Crossbeam\<close>, for which termination is proved, to schedules.
\<close>

section \<open>Induction along a run\<close>

definition makes_call :: "('f, 'n, 'a) prog \<Rightarrow> bool" where
  "makes_call p \<longleftrightarrow> (\<forall>r. p \<noteq> Ret r) \<and> p \<noteq> Panic \<and> p \<noteq> Out_of_fuel"

lemma makes_call_simps [simp]: "\<not> makes_call (Ret r)" "\<not> makes_call Panic" "\<not> makes_call Out_of_fuel"
  by (simp_all add: makes_call_def)

lemma prog_step_induct:
  assumes "\<And>p. (\<And>s. makes_call p \<Longrightarrow> P (fst (step1 X p s))) \<Longrightarrow> P p"
  shows "P p"
  by (induction p; rule assms; simp split: prod.splits)

section \<open>One thread alone\<close>

lemma tick_call:
  assumes "running c t = Some (q, i, p)" "makes_call p"
  shows "tick X pin unpin code t c = c\<lparr>state := snd (step1 (X t) p (state c)),
    running := (running c)(t \<mapsto> (q, i, fst (step1 (X t) p (state c)))), clock := Suc (clock c)\<rparr>"
  using assms by (cases p) (simp_all add: tick_def)

lemma solo_call:
  assumes "running c t = Some (q, i, p)" "run (X t) p (state c) = (Returned r, s')"
  shows "\<exists>k. (tick X pin unpin code t ^^ k) c = c\<lparr>state := s', running := (running c)(t \<mapsto> (q, i, Ret r)), clock := clock c + k\<rparr>"
  using assms
proof (induction p arbitrary: c rule: prog_step_induct[where X = "X t"])
  case (1 p)
  show ?case
  proof (cases "makes_call p")
    case True
    let ?c = "tick X pin unpin code t c"
    note c = tick_call[OF 1(2) True, of X pin unpin code]
    have r: "running ?c t = Some (q, i, fst (step1 (X t) p (state c)))" by (simp add: c)
    have "run (X t) (fst (step1 (X t) p (state c))) (state ?c) = (Returned r, s')"
      using 1(3) by (subst (asm) run_step1) (simp add: c case_prod_unfold)
    from 1(1)[OF True r this] obtain k where k: "(tick X pin unpin code t ^^ k) ?c =
        ?c\<lparr>state := s', running := (running ?c)(t \<mapsto> (q, i, Ret r)), clock := clock ?c + k\<rparr>" by blast
    have "(tick X pin unpin code t ^^ Suc k) c = c\<lparr>state := s', running := (running c)(t \<mapsto> (q, i, Ret r)), clock := clock c + Suc k\<rparr>"
      unfolding funpow_Suc_right o_apply k by (simp only: c) simp
    then show ?thesis by blast
  next
    case False
    then obtain y where "p = Ret y" using 1(3) by (auto simp: makes_call_def)
    with 1(2,3) show ?thesis by (intro exI[of _ 0]) (simp add: fun_upd_idem)
  qed
qed

text \<open>A call from beginning to end.\<close>

lemma solo_request:
  assumes "running c t = None" "todo c t = q # ps" "run (X t) (code q) (pin t (state c)) = (Returned r, s')"
  shows "\<exists>k. (tick X pin unpin code t ^^ k) c =
    c\<lparr>state := unpin t s', todo := (todo c)(t := ps), finished := finished c @ [(t, q, r, clock c, clock c + k)], clock := clock c + k\<rparr>"
proof -
  let ?c = "tick X pin unpin code t c"
  have c: "?c = c\<lparr>state := pin t (state c), todo := (todo c)(t := ps), running := (running c)(t \<mapsto> (q, clock c, code q)), clock := Suc (clock c)\<rparr>"
    using assms(1,2) by (simp add: tick_def)
  have "running ?c t = Some (q, clock c, code q)" "run (X t) (code q) (state ?c) = (Returned r, s')"
    using assms(3) by (simp_all add: c)
  from solo_call[where X = X, OF this] obtain k where k: "(tick X pin unpin code t ^^ k) ?c =
      ?c\<lparr>state := s', running := (running ?c)(t \<mapsto> (q, clock c, Ret r)), clock := clock ?c + k\<rparr>" by blast
  have "(tick X pin unpin code t ^^ Suc (Suc k)) c = tick X pin unpin code t ((tick X pin unpin code t ^^ k) ?c)"
    by (simp add: funpow_swap1)
  also have "\<dots> = c\<lparr>state := unpin t s', todo := (todo c)(t := ps),
      finished := finished c @ [(t, q, r, clock c, clock c + Suc (Suc k))], clock := clock c + Suc (Suc k)\<rparr>"
    unfolding k using assms(1) by (simp only: c) (simp add: tick_def fun_upd_idem)
  finally show ?thesis by blast
qed

section \<open>All calls\<close>

lemma interleave_append: "interleave X pin unpin code (ss @ ts) c = interleave X pin unpin code ts (interleave X pin unpin code ss c)"
  by (simp add: interleave_def)

lemma interleave_replicate: "interleave X pin unpin code (replicate k t) c = (tick X pin unpin code t ^^ k) c"
  by (simp add: interleave_def)

text \<open>
  A shared map whose calls return when they run alone: \<open>repr m b\<close> says that the memory represents a map, with a bound
  \<open>b\<close> on its size that each call raises by at most one, and \<open>fuel\<close> is what the loops of a call may turn.
\<close>

locale progressive_map = shared_map absm Inv R idle code rest
  for absm :: "('f, 'n) mem \<Rightarrow> 'k \<rightharpoonup> 'v"
    and Inv :: "('f, 'n, 'k, 'v, 'g) world \<Rightarrow> bool"
    and R :: "tid \<Rightarrow> ('f, 'n, 'k, 'v, 'g) world \<Rightarrow> ('f, 'n, 'k, 'v, 'g) world \<Rightarrow> bool"
    and idle :: "tid \<Rightarrow> ('f, 'n, 'k, 'v, 'g) world \<Rightarrow> bool"
    and code :: "('k, 'v) request \<Rightarrow> ('f, 'n, 'v response) prog"
    and rest :: "('f, 'n) mem \<Rightarrow> bool" +
  fixes repr :: "('f, 'n) mem \<Rightarrow> nat \<Rightarrow> bool"
    and fuel :: nat
  assumes alone: "repr m b \<Longrightarrow> b < fuel \<Longrightarrow> wp (code q) (\<lambda>_ m'. repr m' (Suc b)) m"
    and repr_reclaim: "repr m b \<Longrightarrow> repr (reclaim S m) b"
    and repr_mono: "repr m b \<Longrightarrow> b \<le> b' \<Longrightarrow> repr m b'"
begin

lemma solo:
  assumes E: "ebr_threads X pin unpin view pinned ok" "ok s" "\<forall>t. pinned s t = None" "rest (view s)"
    and c: "c = interleave X pin unpin code sched (start_config s qs)" "\<forall>t. running c t = None"
    and b: "repr (view (state c)) b" "b < fuel" and t: "todo c t = q # ps"
  obtains sched' c' where "c' = interleave X pin unpin code (sched @ sched') (start_config s qs)"
    "\<forall>t. running c' t = None" "todo c' = (todo c)(t := ps)" "repr (view (state c')) (Suc b)"
proof -
  have q: "ok (state c)" "pinned (state c) t = None" using rests(2,3)[OF E c] by auto
  from ebr_threads.pin[OF E(1) q] obtain S where p: "ok (pin t (state c))" "view (pin t (state c)) = reclaim S (view (state c))"
    by blast
  have "repr (view (pin t (state c))) b" using repr_reclaim[OF b(1)] p(2) by simp
  from wp_completes[OF ebr_threads.api[OF E(1)] p(1) alone[OF this b(2)], of t q]
  obtain r s' where r: "run (X t) (code q) (pin t (state c)) = (Returned r, s')" "repr (view s') (Suc b)"
    by (auto simp: completes_def)
  let ?c1 = "tick X pin unpin code t c"
  have c1: "?c1 = c\<lparr>state := pin t (state c), todo := (todo c)(t := ps), running := (running c)(t \<mapsto> (q, clock c, code q)), clock := Suc (clock c)\<rparr>"
    using c(2) t by (simp add: tick_def)
  have "running ?c1 t = Some (q, clock c, code q)" "run (X t) (code q) (state ?c1) = (Returned r, s')"
    using r(1) by (simp_all add: c1)
  from solo_call[where X = X, OF this] obtain k where k: "(tick X pin unpin code t ^^ k) ?c1 =
      ?c1\<lparr>state := s', running := (running ?c1)(t \<mapsto> (q, clock c, Ret r)), clock := clock ?c1 + k\<rparr>" by blast
  let ?c2 = "(tick X pin unpin code t ^^ k) ?c1"
  have c2: "?c2 = interleave X pin unpin code (sched @ replicate (Suc k) t) (start_config s qs)"
    unfolding interleave_append c(1)[symmetric] interleave_replicate by (simp add: funpow_swap1)
  have "running ?c2 t \<noteq> None" "state ?c2 = s'" unfolding k by simp_all
  then have "ok s'" "pinned s' t \<noteq> None" using stays_pinned[OF E c2] by auto
  from ebr_threads.unpin[OF E(1) this] obtain S' where u: "view (unpin t s') = reclaim S' (view s')" by blast
  let ?c3 = "tick X pin unpin code t ?c2"
  have c3: "?c3 = c\<lparr>state := unpin t s', todo := (todo c)(t := ps),
      finished := finished c @ [(t, q, r, clock c, clock c + Suc (Suc k))], clock := clock c + Suc (Suc k)\<rparr>"
    unfolding k using c(2) by (simp only: c1) (simp add: tick_def fun_upd_idem)
  show thesis
  proof (rule that[of ?c3 "replicate (Suc (Suc k)) t"])
    show "?c3 = interleave X pin unpin code (sched @ replicate (Suc (Suc k)) t) (start_config s qs)"
      unfolding interleave_append c(1)[symmetric] interleave_replicate by (simp add: funpow_swap1)
    show "\<forall>t. running ?c3 t = None" unfolding c3 using c(2) by simp
    show "todo ?c3 = (todo c)(t := ps)" unfolding c3 by simp
    show "repr (view (state ?c3)) (Suc b)" unfolding c3 using repr_reclaim[OF r(2)] u by simp
  qed
qed

text \<open>From any configuration in which no call is in progress, the calls that are left can be finished, one thread after the other.\<close>

lemma all_done:
  assumes E: "ebr_threads X pin unpin view pinned ok" "ok s" "\<forall>t. pinned s t = None" "rest (view s)" and T: "finite T"
    and "c = interleave X pin unpin code sched (start_config s qs)" "\<forall>t. running c t = None"
    and "repr (view (state c)) b" "\<forall>t. t \<notin> T \<longrightarrow> todo c t = []" "b + (\<Sum>t\<in>T. length (todo c t)) \<le> fuel"
  shows "\<exists>sched' c'. c' = interleave X pin unpin code (sched @ sched') (start_config s qs) \<and>
    (\<forall>t. running c' t = None \<and> todo c' t = []) \<and> repr (view (state c')) (b + (\<Sum>t\<in>T. length (todo c t)))"
  using assms(6-)
proof (induction "\<Sum>t\<in>T. length (todo c t)" arbitrary: c sched b)
  case 0
  have "length (todo c t) = 0" if "t \<in> T" for t using "0.hyps" T that by simp
  then have "\<forall>t. running c t = None \<and> todo c t = []" using "0.prems"(2,4) by blast
  moreover have "c = interleave X pin unpin code (sched @ []) (start_config s qs)" using "0.prems"(1) by simp
  moreover have "repr (view (state c)) (b + (\<Sum>t\<in>T. length (todo c t)))" using "0.prems"(3) "0.hyps" by simp
  ultimately show ?case by blast
next
  case (Suc l)
  have "(\<Sum>t\<in>T. length (todo c t)) \<noteq> 0" using Suc.hyps(2) by simp
  then obtain t where t: "t \<in> T" "length (todo c t) \<noteq> 0" by (rule sum.not_neutral_contains_not_neutral)
  then obtain q ps where q: "todo c t = q # ps" by (cases "todo c t") auto
  have b: "b < fuel" using Suc.hyps(2) Suc.prems(5) by simp
  obtain sched' c' where c': "c' = interleave X pin unpin code (sched @ sched') (start_config s qs)"
    "\<forall>t. running c' t = None" "todo c' = (todo c)(t := ps)" "repr (view (state c')) (Suc b)"
    by (rule solo[OF E Suc.prems(1-3) b q])
  have less: "(\<Sum>t\<in>T. length (todo c' t)) = l"
    using Suc.hyps(2) T t(1) q by (simp add: c'(3) sum.remove[of T t])
  have "\<exists>sched'' c''. c'' = interleave X pin unpin code ((sched @ sched') @ sched'') (start_config s qs) \<and>
      (\<forall>t. running c'' t = None \<and> todo c'' t = []) \<and> repr (view (state c'')) (Suc b + (\<Sum>t\<in>T. length (todo c' t)))"
    using Suc.prems(4,5) Suc.hyps(2) t(1) less c'(3) by (intro Suc.hyps(1)[OF less[symmetric] c'(1,2,4)]) auto
  moreover have "Suc b + (\<Sum>t\<in>T. length (todo c' t)) = b + (\<Sum>t\<in>T. length (todo c t))" using less Suc.hyps(2) by simp
  ultimately show ?case unfolding append_assoc by metis
qed

end

end
