(* ===== verification/Decimal.thy ===== *)
theory Decimal
  imports Prelude
begin

text \<open>
  Rust's \<^verbatim>\<open>to_string\<close> on integers: decimal digits, with a sign if negative.  The clients of the maps make
  their keys and values with it.
\<close>

definition digit_char :: "nat \<Rightarrow> char" where
  "digit_char d = char_of (48 + d)"

fun usize_to_string :: "nat \<Rightarrow> string" where
  "usize_to_string n = (if n < 10 then [digit_char n] else usize_to_string (n div 10) @ [digit_char (n mod 10)])"

declare usize_to_string.simps [simp del]

definition i32_to_string :: "int \<Rightarrow> string" where
  "i32_to_string i = (if i < 0 then CHR ''-'' # usize_to_string (nat (- i)) else usize_to_string (nat i))"

section \<open>Reading a number back\<close>

definition digit_value :: "char \<Rightarrow> nat" where
  "digit_value c = of_char c - 48"

definition parse_usize :: "string \<Rightarrow> nat" where
  "parse_usize s = foldl (\<lambda>n c. 10 * n + digit_value c) 0 s"

lemma digit_value_char [simp]: "d < 10 \<Longrightarrow> digit_value (digit_char d) = d"
  by (simp add: digit_value_def digit_char_def)

lemma parse_usize_to_string: "parse_usize (usize_to_string n) = n"
proof (induction n rule: usize_to_string.induct)
  case (1 n)
  then show ?case
    by (subst usize_to_string.simps) (auto simp: parse_usize_def)
qed

lemma usize_to_string_inj: "inj usize_to_string"
  by (rule injI) (metis parse_usize_to_string)

end
