(* ===== verification/Smoke_Test.thy ===== *)
theory Smoke_Test
  imports Solo_Runs Decimal
begin

text \<open>
  The test \<^verbatim>\<open>smoke\<close> of \<^verbatim>\<open>src/src/ebr/concurrent_map.rs\<close>: thirty threads insert disjoint sets of keys,
  half of them remove theirs again, the other half look theirs up, and every answer is asserted.  No assertion fails in any
  interleaving, and there are schedules on which the test ends, for every map that keeps the contract of theory \<^verbatim>\<open>Solo_Runs\<close>.
\<close>

section \<open>The test\<close>

definition THREADS :: nat where
  "THREADS = 30"

definition ELEMENTS_PER_THREADS :: nat where
  "ELEMENTS_PER_THREADS = 1000"

datatype smoke_scope = Inserting | Removing | Getting

text \<open>The keys of thread \<open>t\<close>, before they are shuffled.\<close>

definition smoke_keys :: "tid \<Rightarrow> int list" where
  "smoke_keys t = map (\<lambda>k. int k * int THREADS + int t) [0..<ELEMENTS_PER_THREADS]"

text \<open>The calls of thread \<open>t\<close> in each of the three scopes; \<open>shuffle\<close> is the random generator.\<close>

definition smoke_requests :: "(smoke_scope \<Rightarrow> tid \<Rightarrow> int list \<Rightarrow> int list) \<Rightarrow> smoke_scope \<Rightarrow> tid \<Rightarrow> (int, string) request list" where
  "smoke_requests shuffle sc t =
     (let keys = shuffle sc t (smoke_keys t) in
      case sc of
        Inserting \<Rightarrow> if t < THREADS then map (\<lambda>i. Insert_req i (i32_to_string i)) keys else []
      | Removing \<Rightarrow> if t < THREADS div 2 then map Remove_req keys else []
      | Getting \<Rightarrow> if THREADS div 2 \<le> t \<and> t < THREADS then map Get_req keys else [])"

fun smoke_assert :: "(int, string) request \<Rightarrow> string response \<Rightarrow> bool" where
  "smoke_assert (Insert_req i v) (Inserted b) = b"
| "smoke_assert (Remove_req i) (Removed v) = (v = Some (i32_to_string i))"
| "smoke_assert (Get_req i) (Got v) = (v = Some (i32_to_string i))"
| "smoke_assert q r = False"

text \<open>
  The outcome of \<^verbatim>\<open>thread::scope(...).unwrap()\<close> after a schedule: some thread has failed an assertion, all
  threads have been joined, or some are still at work.
\<close>

datatype 's scope_result = Scope_panicked | Joined 's | Unfinished

definition run_scope ::
  "(tid \<Rightarrow> ('f, 'n, 's) crossbeam) \<Rightarrow> (tid \<Rightarrow> 's \<Rightarrow> 's) \<Rightarrow> (tid \<Rightarrow> 's \<Rightarrow> 's) \<Rightarrow>
    ((int, string) request \<Rightarrow> ('f, 'n, string response) prog) \<Rightarrow> (tid \<Rightarrow> (int, string) request list) \<Rightarrow> tid list \<Rightarrow> 's \<Rightarrow> 's scope_result" where
  "run_scope X pin unpin code qs sched s =
     (let c = interleave X pin unpin code sched (start_config s qs) in
      if \<exists>(t, q, r, i, j)\<in>set (finished c). \<not> smoke_assert q r then Scope_panicked
      else if \<forall>t<THREADS. todo c t = [] \<and> running c t = None then Joined (state c)
      else Unfinished)"

definition smoke ::
  "(tid \<Rightarrow> ('f, 'n, 's) crossbeam) \<Rightarrow> (tid \<Rightarrow> 's \<Rightarrow> 's) \<Rightarrow> (tid \<Rightarrow> 's \<Rightarrow> 's) \<Rightarrow>
    ((int, string) request \<Rightarrow> ('f, 'n, string response) prog) \<Rightarrow> (smoke_scope \<Rightarrow> tid \<Rightarrow> int list \<Rightarrow> int list) \<Rightarrow>
    (smoke_scope \<Rightarrow> tid list) \<Rightarrow> 's \<Rightarrow> 's scope_result" where
  "smoke X pin unpin code shuffle sched s =
     (case run_scope X pin unpin code (smoke_requests shuffle Inserting) (sched Inserting) s of
        Joined s \<Rightarrow>
          (case run_scope X pin unpin code (smoke_requests shuffle Removing) (sched Removing) s of
             Joined s \<Rightarrow> run_scope X pin unpin code (smoke_requests shuffle Getting) (sched Getting) s
           | r \<Rightarrow> r)
      | r \<Rightarrow> r)"

section \<open>Keys\<close>

text \<open>The arithmetic stays within \<^verbatim>\<open>i32\<close>, and the thread of a key is its remainder.\<close>

lemma smoke_keys_mem: "t < THREADS \<Longrightarrow> k \<in> set (smoke_keys t) \<longleftrightarrow> 0 \<le> k \<and> k < int (THREADS * ELEMENTS_PER_THREADS) \<and> k mod int THREADS = int t"
proof
  assume t: "t < THREADS" and k: "0 \<le> k \<and> k < int (THREADS * ELEMENTS_PER_THREADS) \<and> k mod int THREADS = int t"
  let ?d = "nat (k div int THREADS)"
  have "k = int ?d * int THREADS + int t" using k by (simp add: THREADS_def) presburger
  moreover have "?d < ELEMENTS_PER_THREADS" using k by (auto simp: THREADS_def ELEMENTS_PER_THREADS_def)
  ultimately show "k \<in> set (smoke_keys t)" unfolding smoke_keys_def set_map by (intro image_eqI[of _ _ ?d]) simp_all
qed (auto simp: smoke_keys_def THREADS_def ELEMENTS_PER_THREADS_def)

lemma smoke_keys_distinct: "distinct (smoke_keys t)"
  by (auto simp: smoke_keys_def distinct_map inj_on_def THREADS_def)

lemma smoke_keys_i32: "t < THREADS \<Longrightarrow> k \<in> set (smoke_keys t) \<Longrightarrow> 0 \<le> k \<and> k < 2 ^ 31"
  unfolding smoke_keys_mem by (simp add: THREADS_def ELEMENTS_PER_THREADS_def)

section \<open>One scope\<close>

lemma spec_calls_Cons:
  "fst (spec_calls (q # qs) M) = fst (spec_call q M) # fst (spec_calls qs (snd (spec_call q M)))"
  "snd (spec_calls (q # qs) M) = snd (spec_calls qs (snd (spec_call q M)))"
  by (auto split: prod.splits)

lemma spec_calls_append: "fst (spec_calls (qs @ ps) M) = fst (spec_calls qs M) @ fst (spec_calls ps (snd (spec_calls qs M)))"
  by (induction qs arbitrary: M) (simp_all only: append_Nil append_Cons spec_calls_Cons, simp)

lemma length_spec_calls [simp]: "length (fst (spec_calls qs M)) = length qs"
  by (induction qs arbitrary: M) (simp_all add: spec_calls_Cons del: spec_calls.simps(2))

text \<open>If no thread would fail alone, none fails.\<close>

lemma run_scope_safe:
  assumes "interleavings_correct X pin unpin view absm code s qs" "own_keys qs"
    and alone: "\<And>t. list_all2 smoke_assert (qs t) (fst (spec_calls (qs t) (absm (view s))))"
  shows "run_scope X pin unpin code qs sched s \<noteq> Scope_panicked"
proof -
  let ?c = "interleave X pin unpin code sched (start_config s qs)"
  have "smoke_assert q r" if "(t, q, r, i, j) \<in> set (finished ?c)" for t q r i j
  proof -
    let ?h = "history t ?c"
    have "in_order (qs t) t ?c" by (rule interleave_in_order)
    then have ps: "qs t = map fst ?h @ current t ?c @ todo ?c t" by (simp add: in_order_def)
    have "list_all2 smoke_assert (map fst ?h) (fst (spec_calls (map fst ?h) (absm (view s))))"
      using alone[of t] unfolding ps spec_calls_append by (simp add: list_all2_append)
    then have "list_all2 smoke_assert (map fst ?h) (map (fst \<circ> snd) ?h)"
      by (simp only: own_keys_history(1)[OF assms(1,2) refl, where t = t and sched = sched])
    moreover have "(q, r, i, j) \<in> set ?h" using that by (simp add: history_finished)
    ultimately show ?thesis by (force simp: list_all2_map1 list_all2_map2 list_all2_same)
  qed
  then show ?thesis by (auto simp: run_scope_def Let_def)
qed

text \<open>What the map is when all threads have been joined.\<close>

lemma run_scope_joined:
  assumes "interleavings_correct X pin unpin view absm code s qs" "own_keys qs" "\<forall>t. THREADS \<le> t \<longrightarrow> qs t = []"
    and "run_scope X pin unpin code qs sched s = Joined s'"
  obtains c where "c = interleave X pin unpin code sched (start_config s qs)" "state c = s'" "\<forall>t. running c t = None"
    "\<And>t k. k \<in> req_key ` set (qs t) \<Longrightarrow> absm (view s') k = snd (spec_calls (qs t) (absm (view s))) k"
    "\<And>k. (\<And>t. k \<notin> req_key ` set (qs t)) \<Longrightarrow> absm (view s') k = absm (view s) k"
proof -
  let ?c = "interleave X pin unpin code sched (start_config s qs)"
  have c: "state ?c = s'" "\<And>t. t < THREADS \<Longrightarrow> todo ?c t = [] \<and> running ?c t = None"
    using assms(4) by (auto simp: run_scope_def Let_def split: if_splits)
  have io: "in_order (qs t) t ?c" for t by (rule interleave_in_order)
  have r: "running ?c t = None" for t
  proof (cases "t < THREADS")
    case False
    then have "current t ?c = []" using io[of t] assms(3) by (simp add: in_order_def)
    then show ?thesis by (simp add: current_def split: option.splits prod.splits)
  qed (use c(2) in blast)
  have "map fst (history t ?c) = qs t" for t
    using io[of t] c(2)[of t] r[of t] assms(3) by (cases "t < THREADS") (auto simp: in_order_def current_def)
  then have k: "absm (view s') k = snd (spec_calls (qs t) (absm (view s))) k" if "k \<in> req_key ` set (qs t)" for t k
    using own_keys_history(2)[OF assms(1,2) refl r, of t] that c(1) by (auto simp: agree_def)
  show thesis
    by (rule that[of ?c]) (use c(1) r k unused_key[OF assms(1), where sched = sched] in auto)
qed

section \<open>The three scopes\<close>

lemma insert_all_calls:
  "distinct ks \<Longrightarrow> (\<And>k. k \<in> set ks \<Longrightarrow> M k = None) \<Longrightarrow>
    spec_calls (map (\<lambda>k. Insert_req k (f k)) ks) M = (map (\<lambda>_. Inserted True) ks, \<lambda>k. if k \<in> set ks then Some (f k) else M k)"
proof (induction ks arbitrary: M)
  case (Cons k ks)
  then have "spec_calls (map (\<lambda>k. Insert_req k (f k)) ks) (M(k \<mapsto> f k)) =
      (map (\<lambda>_. Inserted True) ks, \<lambda>k'. if k' \<in> set ks then Some (f k') else (M(k \<mapsto> f k)) k')" by (intro Cons.IH) auto
  with Cons.prems show ?case by auto
qed simp

lemma remove_all_calls:
  "distinct ks \<Longrightarrow> spec_calls (map Remove_req ks) M = (map (\<lambda>k. Removed (M k)) ks, \<lambda>k. if k \<in> set ks then None else M k)"
proof (induction ks arbitrary: M)
  case (Cons k ks)
  then have "spec_calls (map Remove_req ks) (M(k := None)) =
      (map (\<lambda>k'. Removed ((M(k := None)) k')) ks, \<lambda>k'. if k' \<in> set ks then None else (M(k := None)) k')" by (intro Cons.IH) auto
  with Cons.prems show ?case by auto
qed simp

lemma get_all_calls: "spec_calls (map Get_req ks) M = (map (\<lambda>k. Got (M k)) ks, M)"
  by (induction ks) auto

definition permutes_keys :: "(smoke_scope \<Rightarrow> tid \<Rightarrow> int list \<Rightarrow> int list) \<Rightarrow> bool" where
  "permutes_keys shuffle \<longleftrightarrow> (\<forall>sc t xs. mset (shuffle sc t xs) = mset xs)"

definition active :: "smoke_scope \<Rightarrow> tid \<Rightarrow> bool" where
  "active sc t \<longleftrightarrow> t < THREADS \<and> (sc = Removing \<longrightarrow> t < THREADS div 2) \<and> (sc = Getting \<longrightarrow> THREADS div 2 \<le> t)"

lemma shuffled:
  assumes "permutes_keys shuffle"
  shows "set (shuffle sc t (smoke_keys t)) = set (smoke_keys t)" "distinct (shuffle sc t (smoke_keys t))"
proof -
  have "mset (shuffle sc t (smoke_keys t)) = mset (smoke_keys t)" using assms by (simp add: permutes_keys_def)
  then show "set (shuffle sc t (smoke_keys t)) = set (smoke_keys t)" "distinct (shuffle sc t (smoke_keys t))"
    using mset_eq_setD mset_eq_imp_distinct_iff smoke_keys_distinct by blast+
qed

lemma smoke_requests_keys:
  assumes "permutes_keys shuffle"
  shows "req_key ` set (smoke_requests shuffle sc t) = (if active sc t then set (smoke_keys t) else {})"
    and "own_keys (smoke_requests shuffle sc)" and "\<forall>t. THREADS \<le> t \<longrightarrow> smoke_requests shuffle sc t = []"
proof -
  show k: "req_key ` set (smoke_requests shuffle sc t) = (if active sc t then set (smoke_keys t) else {})" for t
    by (cases sc) (auto simp: smoke_requests_def active_def image_image shuffled[OF assms] THREADS_def)
  show "own_keys (smoke_requests shuffle sc)"
    unfolding own_keys_def k by (auto simp: active_def smoke_keys_mem)
  show "\<forall>t. THREADS \<le> t \<longrightarrow> smoke_requests shuffle sc t = []"
    by (cases sc) (auto simp: smoke_requests_def THREADS_def)
qed

text \<open>The keys that some thread works on in a scope, and the map before each of them.\<close>

definition scope_keys :: "smoke_scope \<Rightarrow> int set" where
  "scope_keys sc = (\<Union>t\<in>{t. active sc t}. set (smoke_keys t))"

definition map_before :: "smoke_scope \<Rightarrow> int \<rightharpoonup> string" where
  "map_before sc = (\<lambda>k.
     if sc = Removing \<and> k \<in> scope_keys Inserting \<or> sc = Getting \<and> k \<in> scope_keys Getting then Some (i32_to_string k) else None)"

lemma scope_keys_mem: "k \<in> scope_keys sc \<longleftrightarrow> 0 \<le> k \<and> k < int (THREADS * ELEMENTS_PER_THREADS) \<and> active sc (nat (k mod int THREADS))"
proof -
  have "k \<in> scope_keys sc \<longleftrightarrow> (\<exists>t. active sc t \<and> 0 \<le> k \<and> k < int (THREADS * ELEMENTS_PER_THREADS) \<and> k mod int THREADS = int t)"
    unfolding scope_keys_def using smoke_keys_mem by (auto simp: active_def)
  also have "\<dots> \<longleftrightarrow> 0 \<le> k \<and> k < int (THREADS * ELEMENTS_PER_THREADS) \<and> active sc (nat (k mod int THREADS))"
    by (metis THREADS_def nat_int nat_0_le pos_mod_sign of_nat_0_less_iff zero_less_numeral)
  finally show ?thesis .
qed

lemma removed_keys: "k \<in> scope_keys Inserting \<Longrightarrow> k \<notin> scope_keys Removing \<longleftrightarrow> k \<in> scope_keys Getting"
  by (auto simp: scope_keys_mem active_def)

lemma inserted_keys: "k \<in> scope_keys sc \<Longrightarrow> k \<in> scope_keys Inserting"
  by (auto simp: scope_keys_mem active_def)

text \<open>Alone, no thread fails.\<close>

lemma smoke_alone:
  assumes "permutes_keys shuffle"
  shows "list_all2 smoke_assert (smoke_requests shuffle sc t) (fst (spec_calls (smoke_requests shuffle sc t) (map_before sc)))"
proof (cases "active sc t")
  case False
  then have "smoke_requests shuffle sc t = []" by (cases sc) (auto simp: smoke_requests_def active_def THREADS_def)
  then show ?thesis by simp
next
  case True
  let ?ks = "shuffle sc t (smoke_keys t)"
  note sh = shuffled[OF assms, of sc t]
  have mem: "k \<in> scope_keys sc" if "k \<in> set ?ks" for k using that True sh(1) by (auto simp: scope_keys_def)
  show ?thesis
  proof (cases sc)
    case Inserting
    then have "smoke_requests shuffle sc t = map (\<lambda>i. Insert_req i (i32_to_string i)) ?ks" using True by (simp add: smoke_requests_def active_def)
    moreover have "map_before sc k = None" for k using Inserting by (simp add: map_before_def)
    ultimately show ?thesis using insert_all_calls[OF sh(2), of "map_before sc" i32_to_string]
      by (simp add: list_all2_map1 list_all2_map2 list_all2_same)
  next
    case Removing
    then have "smoke_requests shuffle sc t = map Remove_req ?ks" using True by (simp add: smoke_requests_def active_def)
    moreover have "map_before sc k = Some (i32_to_string k)" if "k \<in> set ?ks" for k
      using mem[OF that] Removing by (auto simp: map_before_def scope_keys_mem active_def)
    ultimately show ?thesis using remove_all_calls[OF sh(2), of "map_before sc"]
      by (simp add: list_all2_map1 list_all2_map2 list_all2_same)
  next
    case Getting
    then have "smoke_requests shuffle sc t = map Get_req ?ks" using True by (simp add: smoke_requests_def active_def)
    moreover have "map_before sc k = Some (i32_to_string k)" if "k \<in> set ?ks" for k
      using mem[OF that] Getting by (simp add: map_before_def)
    ultimately show ?thesis using get_all_calls[of ?ks "map_before sc"] by (simp add: list_all2_map1 list_all2_map2 list_all2_same)
  qed
qed

fun map_after :: "smoke_scope \<Rightarrow> int \<rightharpoonup> string" where
  "map_after Inserting = map_before Removing"
| "map_after Removing = map_before Getting"
| "map_after Getting = map_before Getting"

lemma smoke_effect:
  assumes "permutes_keys shuffle" "active sc t" "k \<in> set (smoke_keys t)"
  shows "snd (spec_calls (smoke_requests shuffle sc t) (map_before sc)) k = map_after sc k"
proof -
  let ?ks = "shuffle sc t (smoke_keys t)"
  note sh = shuffled[OF assms(1), of sc t]
  have k: "k \<in> set ?ks" "k \<in> scope_keys sc" "k \<in> scope_keys Inserting"
    using assms(2,3) sh(1) by (auto simp: scope_keys_def active_def)
  show ?thesis
  proof (cases sc)
    case Inserting
    then show ?thesis
      using assms(2) insert_all_calls[OF sh(2), of "map_before sc" i32_to_string] k by (simp add: smoke_requests_def active_def map_before_def)
  next
    case Removing
    then show ?thesis
      using assms(2) remove_all_calls[OF sh(2), of "map_before sc"] k removed_keys[of k] by (simp add: smoke_requests_def active_def map_before_def)
  next
    case Getting
    then show ?thesis
      using assms(2) get_all_calls[of ?ks "map_before sc"] by (simp add: smoke_requests_def active_def)
  qed
qed

lemma smoke_frame: "k \<notin> scope_keys sc \<Longrightarrow> map_before sc k = map_after sc k"
  using removed_keys[of k] inserted_keys[of k] by (cases sc) (auto simp: map_before_def)

lemma smoke_requests_length:
  assumes "permutes_keys shuffle"
  shows "length (smoke_requests shuffle sc t) \<le> ELEMENTS_PER_THREADS"
proof -
  have "length (shuffle sc t (smoke_keys t)) = length (smoke_keys t)"
    using assms by (metis permutes_keys_def size_mset)
  then show ?thesis by (cases sc) (simp_all add: smoke_requests_def smoke_keys_def)
qed

lemma map_before_Inserting: "map_before Inserting = Map.empty"
  by (simp add: map_before_def)

lemma map_after_Getting:
  "map_after Getting = (\<lambda>k. if 0 \<le> k \<and> k < 30000 \<and> 15 \<le> k mod 30 then Some (i32_to_string k) else None)"
proof -
  have "k \<in> scope_keys Getting \<longleftrightarrow> 0 \<le> k \<and> k < 30000 \<and> 15 \<le> k mod 30" for k
    by (auto simp: scope_keys_mem active_def THREADS_def ELEMENTS_PER_THREADS_def)
  then show ?thesis by (auto simp: map_before_def)
qed

text \<open>What the test finds when it is over: the keys of the threads 15 to 29, each with its decimal representation.\<close>

definition smoke_outcome :: "(('f, 'n) mem \<Rightarrow> int \<rightharpoonup> string) \<Rightarrow> ('s \<Rightarrow> ('f, 'n) mem) \<Rightarrow> 's scope_result \<Rightarrow> bool" where
  "smoke_outcome absm view r = (case r of
      Scope_panicked \<Rightarrow> False
    | Joined s \<Rightarrow> absm (view s) = (\<lambda>k. if 0 \<le> k \<and> k < 30000 \<and> 15 \<le> k mod 30 then Some (i32_to_string k) else None)
    | Unfinished \<Rightarrow> True)"

section \<open>The test on a shared map\<close>

locale smoke_map = progressive_map absm Inv R idle code rest repr fuel
  for absm :: "('f, 'n) mem \<Rightarrow> int \<rightharpoonup> string"
    and Inv :: "('f, 'n, int, string, 'g) world \<Rightarrow> bool"
    and R :: "tid \<Rightarrow> ('f, 'n, int, string, 'g) world \<Rightarrow> ('f, 'n, int, string, 'g) world \<Rightarrow> bool"
    and idle :: "tid \<Rightarrow> ('f, 'n, int, string, 'g) world \<Rightarrow> bool"
    and code :: "(int, string) request \<Rightarrow> ('f, 'n, string response) prog"
    and rest :: "('f, 'n) mem \<Rightarrow> bool"
    and repr :: "('f, 'n) mem \<Rightarrow> nat \<Rightarrow> bool"
    and fuel :: nat
begin

lemma scope_safe:
  assumes E: "ebr_threads X pin unpin view pinned ok" "ok s" "\<forall>t. pinned s t = None" "rest (view s)"
    and sh: "permutes_keys shuffle" and M: "absm (view s) = map_before sc"
  shows "run_scope X pin unpin code (smoke_requests shuffle sc) sched s \<noteq> Scope_panicked"
  by (rule run_scope_safe[OF interleavings[OF E] smoke_requests_keys(2)[OF sh]]) (use smoke_alone[OF sh] M in simp)

lemma scope_joined:
  assumes E: "ebr_threads X pin unpin view pinned ok" "ok s" "\<forall>t. pinned s t = None" "rest (view s)"
    and sh: "permutes_keys shuffle" and M: "absm (view s) = map_before sc"
    and j: "run_scope X pin unpin code (smoke_requests shuffle sc) sched s = Joined s'"
  shows "ok s' \<and> (\<forall>t. pinned s' t = None) \<and> rest (view s') \<and> absm (view s') = map_after sc"
proof -
  let ?qs = "smoke_requests shuffle sc"
  note keys = smoke_requests_keys[OF sh, where sc = sc]
  obtain c where c: "c = interleave X pin unpin code sched (start_config s ?qs)" "state c = s'" "\<forall>t. running c t = None"
    and own: "\<And>t k. k \<in> req_key ` set (?qs t) \<Longrightarrow> absm (view s') k = snd (spec_calls (?qs t) (absm (view s))) k"
    and other: "\<And>k. (\<And>t. k \<notin> req_key ` set (?qs t)) \<Longrightarrow> absm (view s') k = absm (view s) k"
    by (rule run_scope_joined[OF interleavings[OF E] keys(2,3) j]) blast
  have "absm (view s') k = map_after sc k" for k
  proof (cases "k \<in> scope_keys sc")
    case True
    then obtain t where t: "active sc t" "k \<in> set (smoke_keys t)" by (auto simp: scope_keys_def)
    then have "k \<in> req_key ` set (?qs t)" by (simp add: keys(1))
    from own[OF this] smoke_effect[OF sh t] M show ?thesis by simp
  next
    case False
    then have "k \<notin> req_key ` set (?qs t)" for t by (auto simp: keys(1) scope_keys_def)
    from other[OF this] smoke_frame[OF False] M show ?thesis by simp
  qed
  with rests[OF E c(1,3)] c(2) show ?thesis by auto
qed

lemma smoke_correct:
  assumes E: "ebr_threads X pin unpin view pinned ok" "ok s" "\<forall>t. pinned s t = None" "rest (view s)"
    and sh: "permutes_keys shuffle" and M: "absm (view s) = Map.empty"
  shows "smoke_outcome absm view (smoke X pin unpin code shuffle sched s)"
proof -
  define ready where "ready sc s \<longleftrightarrow> ok s \<and> (\<forall>t. pinned s t = None) \<and> rest (view s) \<and> absm (view s) = map_before sc" for sc s
  define go where "go sc s = run_scope X pin unpin code (smoke_requests shuffle sc) (sched sc) s" for sc s
  have safe: "go sc s \<noteq> Scope_panicked" if "ready sc s" for sc s
    using that unfolding go_def ready_def by (intro scope_safe[OF E(1) _ _ _ sh]) auto
  have after: "ok s' \<and> (\<forall>t. pinned s' t = None) \<and> rest (view s') \<and> absm (view s') = map_after sc"
    if "ready sc s" "go sc s = Joined s'" for sc s s'
    using that unfolding go_def ready_def by (intro scope_joined[OF E(1) _ _ _ sh]) auto
  have s0: "ready Inserting s" using E(2-) M by (auto simp: ready_def map_before_Inserting)
  have s1: "ready Removing s'" if "go Inserting s = Joined s'" for s' using after[OF s0 that] by (simp add: ready_def)
  have s2: "ready Getting s''" if "go Inserting s = Joined s'" "go Removing s' = Joined s''" for s' s''
    using after[OF s1[OF that(1)] that(2)] by (simp add: ready_def)
  have run: "smoke X pin unpin code shuffle sched s =
      (case go Inserting s of Joined s \<Rightarrow> (case go Removing s of Joined s \<Rightarrow> go Getting s | r \<Rightarrow> r) | r \<Rightarrow> r)"
    unfolding smoke_def go_def by (rule refl)
  show ?thesis
    using safe[OF s0] safe[OF s1] safe[OF s2] after[OF s2] unfolding run smoke_outcome_def map_after_Getting[symmetric]
    by (auto split: scope_result.splits)
qed

text \<open>A scope can be run to its end.\<close>

lemma scope_finishes:
  assumes E: "ebr_threads X pin unpin view pinned ok" "ok s" "\<forall>t. pinned s t = None" "rest (view s)"
    and sh: "permutes_keys shuffle" and M: "absm (view s) = map_before sc"
    and b: "repr (view s) b" "b + THREADS * ELEMENTS_PER_THREADS \<le> fuel"
  shows "\<exists>sched s'. run_scope X pin unpin code (smoke_requests shuffle sc) sched s = Joined s' \<and>
    repr (view s') (b + THREADS * ELEMENTS_PER_THREADS)"
proof -
  let ?qs = "smoke_requests shuffle sc"
  let ?c0 = "start_config s ?qs :: (int, string, 'f, 'n, _) config"
  have sum: "(\<Sum>t\<in>{..<THREADS}. length (?qs t)) \<le> THREADS * ELEMENTS_PER_THREADS"
    using sum_bounded_above[of "{..<THREADS}" "\<lambda>t. length (?qs t)" ELEMENTS_PER_THREADS] smoke_requests_length[OF sh] by simp
  have "\<exists>sched' c'. c' = interleave X pin unpin code ([] @ sched') ?c0 \<and>
      (\<forall>t. running c' t = None \<and> todo c' t = []) \<and> repr (view (state c')) (b + (\<Sum>t\<in>{..<THREADS}. length (todo ?c0 t)))"
    by (rule all_done[OF E, of "{..<THREADS}" ?c0])
      (use b sum smoke_requests_keys(3)[OF sh, of sc] in \<open>auto simp: interleave_def\<close>)
  then obtain sched' c' where c': "c' = interleave X pin unpin code sched' ?c0" "\<forall>t. running c' t = None \<and> todo c' t = []"
    "repr (view (state c')) (b + (\<Sum>t\<in>{..<THREADS}. length (?qs t)))" by auto
  have "run_scope X pin unpin code ?qs sched' s = Joined (state c')"
    using c'(2) scope_safe[OF E sh M, of sched'] unfolding run_scope_def Let_def c'(1)[symmetric] by (simp split: if_splits)
  then show ?thesis using repr_mono[OF c'(3)] sum by (intro exI[of _ sched'] exI[of _ "state c'"]) simp
qed

lemma smoke_finishes:
  assumes E: "ebr_threads X pin unpin view pinned ok" "ok s" "\<forall>t. pinned s t = None" "rest (view s)"
    and sh: "permutes_keys shuffle" and M: "absm (view s) = Map.empty" and r: "repr (view s) 0" "90000 \<le> fuel"
  shows "\<exists>sched s'. smoke X pin unpin code shuffle sched s = Joined s'"
proof -
  let ?go = "\<lambda>sc. run_scope X pin unpin code (smoke_requests shuffle sc)"
  have N: "THREADS * ELEMENTS_PER_THREADS = 30000" by (simp add: THREADS_def ELEMENTS_PER_THREADS_def)
  have M0: "absm (view s) = map_before Inserting" using M by (simp add: map_before_Inserting)
  obtain sched1 s1 where s1: "?go Inserting sched1 s = Joined s1" "repr (view s1) 30000"
    using scope_finishes[OF E sh M0 r(1)] r(2) by (auto simp: N)
  then have r1: "ok s1" "\<forall>t. pinned s1 t = None" "rest (view s1)" "absm (view s1) = map_before Removing"
    using scope_joined[OF E sh M0 s1(1)] by auto
  obtain sched2 s2 where s2: "?go Removing sched2 s1 = Joined s2" "repr (view s2) 60000"
    using scope_finishes[OF E(1) r1(1-3) sh r1(4) s1(2)] r(2) by (auto simp: N)
  then have r2: "ok s2" "\<forall>t. pinned s2 t = None" "rest (view s2)" "absm (view s2) = map_before Getting"
    using scope_joined[OF E(1) r1(1-3) sh r1(4) s2(1)] by auto
  obtain sched3 s3 where s3: "?go Getting sched3 s2 = Joined s3"
    using scope_finishes[OF E(1) r2(1-3) sh r2(4) s2(2)] r(2) by (auto simp: N)
  have "smoke X pin unpin code shuffle (\<lambda>sc. case sc of Inserting \<Rightarrow> sched1 | Removing \<Rightarrow> sched2 | Getting \<Rightarrow> sched3) s = Joined s3"
    using s1(1) s2(1) s3 by (simp add: smoke_def)
  then show ?thesis by blast
qed

end

end
