(* ===== verification/Owned_Nodes.thy ===== *)
theory Owned_Nodes
  imports Interleaving
begin

text \<open>
  Who owns the nodes of a structure that threads share under epoch-based reclamation.  A node is part of the structure, or it
  is held by one thread, which has allocated it and not published it yet or has taken it out and not retired it
  yet, or it waits for destruction.  The steps of the memory interface keep this, and they keep what a pinned thread may still
  look at.
\<close>

section \<open>Ownership\<close>

record ghost =
  priv :: "tid \<Rightarrow> addr set"
  pend :: "tid \<Rightarrow> addr set"

definition held :: "ghost \<Rightarrow> tid \<Rightarrow> addr set" where
  "held g t = priv g t \<union> pend g t"

text \<open>The structure consists of the nodes \<open>A\<close>.\<close>

definition owns :: "('f, 'n) mem \<Rightarrow> ghost \<Rightarrow> addr set \<Rightarrow> bool" where
  "owns m g A \<longleftrightarrow>
     (\<forall>t. \<forall>a\<in>held g t. obj m a \<noteq> None \<and> a \<notin> statics m \<and> a \<notin> set (garbage m) \<and> a \<noteq> 0 \<and> a \<notin> A) \<and>
     (\<forall>t u. t \<noteq> u \<longrightarrow> held g t \<inter> held g u = {}) \<and> (\<forall>t. priv g t \<inter> pend g t = {}) \<and>
     (\<forall>a. obj m a \<noteq> None \<longrightarrow> a \<in> A \<or> (\<exists>t. a \<in> held g t) \<or> a \<in> set (garbage m))"

lemma ownsD:
  assumes "owns m g A"
  shows "a \<in> held g t \<Longrightarrow> obj m a \<noteq> None \<and> a \<notin> statics m \<and> a \<notin> set (garbage m) \<and> a \<noteq> 0 \<and> a \<notin> A"
    "a \<in> held g t \<Longrightarrow> a \<in> held g u \<Longrightarrow> t = u" "priv g t \<inter> pend g t = {}"
    "obj m a \<noteq> None \<Longrightarrow> a \<in> A \<or> (\<exists>t. a \<in> held g t) \<or> a \<in> set (garbage m)"
  using assms unfolding owns_def by blast+

lemma ownsI:
  assumes "\<And>a t. a \<in> held g t \<Longrightarrow> obj m a \<noteq> None \<and> a \<notin> statics m \<and> a \<notin> set (garbage m) \<and> a \<noteq> 0 \<and> a \<notin> A"
    and "\<And>a t u. a \<in> held g t \<Longrightarrow> a \<in> held g u \<Longrightarrow> t = u" "\<And>a t. a \<in> priv g t \<Longrightarrow> a \<notin> pend g t"
    and "\<And>a. obj m a \<noteq> None \<Longrightarrow> a \<in> A \<or> (\<exists>t. a \<in> held g t) \<or> a \<in> set (garbage m)"
  shows "owns m g A"
  unfolding owns_def using assms by blast

lemma owns_private: "owns m g A \<Longrightarrow> a \<in> priv g t \<Longrightarrow> a \<notin> pend g u"
  using ownsD(2)[of m g A a t u] ownsD(3)[of m g A t] by (auto simp: held_def)

text \<open>Each step keeps it.\<close>

lemma owns_set_cell [simp]: "owns (set_cell l p m) g A \<longleftrightarrow> owns m g A"
  by (simp add: owns_def)

lemma owns_drop_val [simp]: "owns (drop_val a m) g A \<longleftrightarrow> owns m g A"
  by (simp add: owns_def)

lemma owns_reclaim:
  assumes "owns m g A"
  shows "owns (reclaim S m) g A"
proof -
  note d = ownsD[OF assms]
  show ?thesis
  proof (rule ownsI, goal_cases)
    case (1 a t)
    with d(1)[OF 1] show ?case by (simp add: restrict_map_def)
  next
    case (2 a t u)
    then show ?case by (rule d(2))
  next
    case (3 a t)
    with d(3)[of t] show ?case by blast
  next
    case (4 a)
    then have "obj m a \<noteq> None" "\<not> (a \<in> S \<and> a \<in> set (garbage m))" by (auto simp: restrict_map_def split: if_splits)
    with d(4)[OF this(1)] show ?case by auto
  qed
qed

lemma owns_retire:
  assumes o: "owns m g A" and a: "a \<in> pend g t" and g': "g' = g\<lparr>pend := (pend g)(t := pend g t - {a})\<rparr>"
  shows "owns (retire a m) g' A"
proof -
  note d = ownsD[OF o]
  have h: "held g' u = held g u - {a}" for u
  proof (cases "u = t")
    case True
    then show ?thesis using a d(3)[of t] by (auto simp: held_def g')
  next
    case False
    then have "a \<notin> held g u" using a d(2)[of a t u] by (auto simp: held_def)
    then show ?thesis using False by (auto simp: held_def g')
  qed
  show ?thesis
  proof (rule ownsI, goal_cases)
    case (1 b u)
    with h d(1)[of b u] show ?case by auto
  next
    case (2 b u v)
    with h d(2)[of b u v] show ?case by auto
  next
    case (3 b u)
    with d(3)[of u] g' show ?case by (auto split: if_splits)
  next
    case (4 b)
    with h d(4)[of b] show ?case by auto
  qed
qed

lemma owns_alloc:
  assumes o: "owns m g A" and a: "fresh m a" "a \<notin> set (garbage m)" "a \<notin> A" and g': "g' = g\<lparr>priv := (priv g)(t := insert a (priv g t))\<rparr>"
  shows "owns (alloc a x fs m) g' A"
proof -
  note d = ownsD[OF o]
  have na: "a \<notin> held g u" for u using d(1)[of a u] a(1) by (auto simp: fresh_def)
  have h: "held g' u = (if u = t then insert a (held g u) else held g u)" for u using g' by (auto simp: held_def)
  show ?thesis
  proof (rule ownsI, goal_cases)
    case (1 b u)
    then show ?case using h[of u] d(1)[of b u] a by (auto simp: fresh_def split: if_splits)
  next
    case (2 b u v)
    then show ?case using h na d(2)[of b u v] by (auto split: if_splits)
  next
    case (3 b u)
    then show ?case using d(3)[of u] g' na[of u] by (auto simp: held_def split: if_splits)
  next
    case (4 b)
    have "b \<in> held g u \<Longrightarrow> b \<in> held g' u" for u using h[of u] by auto
    moreover have "a \<in> held g' t" using h by simp
    ultimately show ?case using 4 d(4)[of b] by (cases "b = a") auto
  qed
qed

lemma owns_free:
  assumes o: "owns m g A" and a: "a \<in> priv g t" and g': "g' = g\<lparr>priv := (priv g)(t := priv g t - {a})\<rparr>"
  shows "owns (free a m) g' A"
proof -
  note d = ownsD[OF o]
  have h: "held g' u = held g u - {a}" for u
  proof (cases "u = t")
    case True
    then show ?thesis using a d(3)[of t] by (auto simp: held_def g')
  next
    case False
    then have "a \<notin> held g u" using a d(2)[of a t u] by (auto simp: held_def)
    then show ?thesis using False by (auto simp: held_def g')
  qed
  show ?thesis
  proof (rule ownsI, goal_cases)
    case (1 b u)
    with h d(1)[of b u] show ?case by auto
  next
    case (2 b u v)
    with h d(2)[of b u v] show ?case by auto
  next
    case (3 b u)
    with d(3)[of u] g' show ?case by (auto split: if_splits)
  next
    case (4 b)
    with h d(4)[of b] show ?case by (auto split: if_splits)
  qed
qed

text \<open>
  Nodes that go from the structure to a thread or from a thread to the structure: afterwards the structure is \<open>A'\<close> and the
  thread holds \<open>P'\<close> and \<open>D'\<close>, without a node gained or lost.
\<close>

lemma owns_exchange:
  assumes o: "owns m g A" and A: "\<And>a. a \<in> A \<Longrightarrow> obj m a \<noteq> None \<and> a \<notin> statics m \<and> a \<notin> set (garbage m) \<and> a \<noteq> 0"
    and all: "A' \<union> (P' \<union> D') = A \<union> held g t" and dis: "A' \<inter> (P' \<union> D') = {}" "P' \<inter> D' = {}"
    and g': "g' = g\<lparr>priv := (priv g)(t := P'), pend := (pend g)(t := D')\<rparr>"
  shows "owns m g' A'"
proof -
  note d = ownsD[OF o]
  have h: "held g' u = (if u = t then P' \<union> D' else held g u)" for u using g' by (simp add: held_def)
  have src: "a \<in> A \<or> a \<in> held g t" if "a \<in> A' \<or> a \<in> P' \<union> D'" for a using that all by blast
  have other: "a \<notin> A' \<and> a \<notin> P' \<union> D'" if "a \<in> held g u" "u \<noteq> t" for a u using that src[of a] d(1)[of a u] d(2)[of a u t] by blast
  show ?thesis
  proof (rule ownsI, goal_cases)
    case (1 b u)
    show ?case
    proof (cases "u = t")
      case True
      with 1 h have b: "b \<in> P' \<union> D'" by simp
      then show ?thesis using src[of b] A[of b] d(1)[of b t] dis(1) by blast
    next
      case False
      then show ?thesis using 1 h d(1)[of b u] other[of b u] by simp
    qed
  next
    case (2 b u v)
    then show ?case using h other d(2)[of b u v] by (auto split: if_splits)
  next
    case (3 b u)
    then show ?case using d(3)[of u] dis(2) g' by (auto split: if_splits)
  next
    case (4 b)
    have "b \<in> A' \<or> b \<in> held g' t" if "b \<in> A \<or> b \<in> held g t" using that all h by auto
    moreover have "held g u = held g' u" if "u \<noteq> t" for u using that h by simp
    ultimately show ?case using d(4)[OF 4] by metis
  qed
qed

section \<open>What a pinned thread may look at\<close>

text \<open>A node that is not private and was not retired before the thread was pinned.\<close>

definition protected :: "nat \<Rightarrow> ('f, 'n) mem \<Rightarrow> ghost \<Rightarrow> addr \<Rightarrow> bool" where
  "protected n m g a \<longleftrightarrow> obj m a \<noteq> None \<and> (\<forall>t. a \<notin> priv g t) \<and>
     (a \<in> set (garbage m) \<longrightarrow> a \<in> set (drop n (retired m)))"

definition keeps :: "nat \<Rightarrow> ('f, 'n) mem \<Rightarrow> ghost \<Rightarrow> ('f, 'n) mem \<Rightarrow> ghost \<Rightarrow> bool" where
  "keeps n m g m' g' \<longleftrightarrow> (\<forall>a. protected n m g a \<longrightarrow> protected n m' g' a \<and> obj m' a = obj m a)"

lemma keeps_refl [simp]: "keeps n m g m g"
  by (simp add: keeps_def)

lemma keeps_trans: "keeps n m g m1 g1 \<Longrightarrow> keeps n m1 g1 m2 g2 \<Longrightarrow> keeps n m g m2 g2"
  by (simp add: keeps_def)

lemma keeps_set_cell: "(\<And>t. priv g' t \<subseteq> priv g t) \<Longrightarrow> keeps n m g (set_cell l p m) g'"
  by (auto simp: keeps_def protected_def)

lemma keeps_reclaim:
  assumes "spares S P m" "P v = Some n"
  shows "keeps n m g (reclaim S m) g"
  unfolding keeps_def
proof (intro allI impI)
  fix a assume a: "protected n m g a"
  have "\<not> (a \<in> S \<and> a \<in> set (garbage m))" using assms a by (auto simp: spares_def protected_def)
  with a show "protected n (reclaim S m) g a \<and> obj (reclaim S m) a = obj m a" by (auto simp: protected_def restrict_map_def)
qed

lemma keeps_retire: "n \<le> length (retired m) \<Longrightarrow> priv g' = priv g \<Longrightarrow> keeps n m g (retire a m) g'"
  by (auto simp: keeps_def protected_def)

lemma keeps_alloc: "fresh m a \<Longrightarrow> g' = g\<lparr>priv := (priv g)(t := insert a (priv g t))\<rparr> \<Longrightarrow> keeps n m g (alloc a x fs m) g'"
  by (auto simp: keeps_def protected_def fresh_def)

lemma keeps_free: "a \<in> priv g t \<Longrightarrow> g' = g\<lparr>priv := (priv g)(t := priv g t - {a})\<rparr> \<Longrightarrow> keeps n m g (free a m) g'"
  by (auto simp: keeps_def protected_def)

section \<open>Steps\<close>

text \<open>A step that changes memory and ownership, and not what is known of the calls in progress.\<close>

definition quiet :: "('f, 'n) mem \<Rightarrow> ghost \<Rightarrow> ('f, 'n, 'k, 'v, ghost) world \<Rightarrow> ('f, 'n, 'k, 'v, ghost) world" where
  "quiet m' g' w = w\<lparr>w_mem := m', w_ghost := g'\<rparr>"

lemma quiet_sel [simp]:
  "w_mem (quiet m' g' w) = m'" "w_ghost (quiet m' g' w) = g'" "w_pins (quiet m' g' w) = w_pins w" "w_call (quiet m' g' w) = w_call w"
  by (simp_all add: quiet_def)

end
