(* ===== verification/Ebr_List.thy ===== *)
theory Ebr_List
  imports Crossbeam
begin

text \<open>
  \<^verbatim>\<open>src/src/ebr/list.rs\<close>: the sorted linked list with its three search functions
  (Harris, Harris-Michael, Harris-Herlihy-Shavit) and the maps built on it.  This theory holds
  the translated code; \<open>List_Spec\<close> has the invariant and \<open>Ebr_List_Correct\<close> the
  proofs.  Every loop of the source takes a bound on its number of rounds (\<open>n\<close>).
\<close>

section \<open>Data\<close>

text \<open>\<^verbatim>\<open>next\<close> is the only \<^verbatim>\<open>Atomic\<close> field of a node; the \<^verbatim>\<open>head\<close>
  of a \<^verbatim>\<open>List\<close> is the \<^verbatim>\<open>next\<close> cell of the list structure itself.\<close>

datatype list_field = Next

record ('k, 'v) node =
  key :: 'k
  val :: 'v

type_synonym ('k, 'v, 'a) list_prog = "(list_field, ('k, 'v) node, 'a) prog"
type_synonym ('k, 'v) list_mem = "(list_field, ('k, 'v) node) mem"

record cursor =
  prev :: "list_field loc"
  curr :: shared

type_synonym ('k, 'v) finder = "'k \<Rightarrow> cursor \<Rightarrow> ('k, 'v, (unit + bool) \<times> cursor) list_prog"

section \<open>Cursor: the three searches\<close>

text \<open>The finding phase of \<^verbatim>\<open>find_harris\<close>: \<open>found\<close>, the cursor and \<open>prev_next\<close>.\<close>

fun find_harris_loop ::
  "nat \<Rightarrow> 'k::linorder \<Rightarrow> cursor \<Rightarrow> shared \<Rightarrow> ('k, 'v, bool \<times> cursor \<times> shared) list_prog" where
  "find_harris_loop 0 k self prev_next = Out_of_fuel"
| "find_harris_loop (Suc n) k self prev_next =
     (if is_null (curr self) then Ret (False, self, prev_next)
      else Deref (curr self) (\<lambda>curr_node.
        Load (raw (curr self), Next) (\<lambda>next.
          case (cmp (key curr_node) k, tag next) of
            (Less, t) \<Rightarrow>
              if t = 0
              then find_harris_loop n k
                     \<lparr>prev = (raw (curr self), Next), curr = with_tag next 0\<rparr> next
              else find_harris_loop n k (self\<lparr>curr := with_tag next 0\<rparr>) prev_next
          | (c, t) \<Rightarrow>
              if t = 0 then Ret (c = Equal, self, prev_next)
              else find_harris_loop n k (self\<lparr>curr := with_tag next 0\<rparr>) prev_next)))"

text \<open>Retiring the chain that was just unlinked, from \<open>prev_next\<close> up to \<open>curr\<close>.\<close>

fun destroy_chain :: "nat \<Rightarrow> shared \<Rightarrow> shared \<Rightarrow> ('k, 'v, unit) list_prog" where
  "destroy_chain 0 node stop = Out_of_fuel"
| "destroy_chain (Suc n) node stop =
     (if with_tag node 0 = stop then Ret ()
      else if is_null node then Panic
      else Load (raw node, Next) (\<lambda>next. Defer_destroy node (destroy_chain n next stop)))"

definition find_harris :: "nat \<Rightarrow> ('k::linorder, 'v) finder" where
  "find_harris n k self =
     bind (find_harris_loop n k self (curr self)) (\<lambda>(found, self, prev_next).
       if prev_next = curr self then Ret (Inr found, self)
       else Compare_and_set (prev self) prev_next (curr self) (\<lambda>r.
         case r of
           Inl _ \<Rightarrow> Ret (Inl (), self)
         | Inr _ \<Rightarrow> bind (destroy_chain n prev_next (curr self)) (\<lambda>_. Ret (Inr found, self))))"

fun find_harris_michael :: "nat \<Rightarrow> ('k::linorder, 'v) finder" where
  "find_harris_michael 0 k self = Out_of_fuel"
| "find_harris_michael (Suc n) k self =
     (if tag (curr self) \<noteq> 0 then Panic
      else if is_null (curr self) then Ret (Inr False, self)
      else Deref (curr self) (\<lambda>curr_node.
        Load (raw (curr self), Next) (\<lambda>next.
          if tag next = 0 then
            (case cmp (key curr_node) k of
               Less \<Rightarrow> find_harris_michael n k \<lparr>prev = (raw (curr self), Next), curr = next\<rparr>
             | Equal \<Rightarrow> Ret (Inr True, self)
             | Greater \<Rightarrow> Ret (Inr False, self))
          else
            let next = with_tag next 0 in
            Compare_and_set (prev self) (curr self) next (\<lambda>r.
              case r of
                Inl _ \<Rightarrow> Ret (Inl (), self)
              | Inr _ \<Rightarrow> Defer_destroy (curr self)
                          (find_harris_michael n k (self\<lparr>curr := next\<rparr>))))))"

fun find_harris_herlihy_shavit :: "nat \<Rightarrow> ('k::linorder, 'v) finder" where
  "find_harris_herlihy_shavit 0 k self = Out_of_fuel"
| "find_harris_herlihy_shavit (Suc n) k self =
     (if is_null (curr self) then Ret (Inr False, self)
      else Deref (curr self) (\<lambda>curr_node.
        case cmp (key curr_node) k of
          Less \<Rightarrow> Load (raw (curr self), Next) (\<lambda>next.
            find_harris_herlihy_shavit n k \<lparr>prev = (raw (curr self), Next), curr = next\<rparr>)
        | Equal \<Rightarrow> Load (raw (curr self), Next) (\<lambda>next. Ret (Inr (tag next = 0), self))
        | Greater \<Rightarrow> Ret (Inr False, self)))"

section \<open>List\<close>

definition list_new :: "addr \<Rightarrow> ('k, 'v, unit) list_prog" where
  "list_new self = Store (self, Next) null (Ret ())"

fun list_drop_loop :: "nat \<Rightarrow> shared \<Rightarrow> ('k, 'v, unit) list_prog" where
  "list_drop_loop 0 cur = Out_of_fuel"
| "list_drop_loop (Suc n) cur =
     (if is_null cur then Ret ()
      else Load (raw cur, Next) (\<lambda>next.
        if tag next = 0
        then Drop_value cur (Drop_owned cur (list_drop_loop n next))
        else Drop_owned cur (list_drop_loop n next)))"

definition list_drop :: "nat \<Rightarrow> addr \<Rightarrow> ('k, 'v, unit) list_prog" where
  "list_drop n self = Load (self, Next) (\<lambda>cur. list_drop_loop n cur)"

fun list_find :: "nat \<Rightarrow> addr \<Rightarrow> 'k \<Rightarrow> ('k, 'v) finder \<Rightarrow> ('k, 'v, bool \<times> cursor) list_prog" where
  "list_find 0 self k F = Out_of_fuel"
| "list_find (Suc n) self k F =
     Load (self, Next) (\<lambda>h.
       bind (F k \<lparr>prev = (self, Next), curr = h\<rparr>) (\<lambda>(r, cursor).
         case r of Inr found \<Rightarrow> Ret (found, cursor) | Inl _ \<Rightarrow> list_find n self k F))"

text \<open>\<^verbatim>\<open>get\<close> returns a reference into the node; the model returns the value that it refers to when the call returns.\<close>

definition list_get :: "nat \<Rightarrow> addr \<Rightarrow> 'k \<Rightarrow> ('k, 'v) finder \<Rightarrow> ('k, 'v, 'v option) list_prog" where
  "list_get n self k F =
     bind (list_find n self k F) (\<lambda>(found, cursor).
       if found then
         if is_null (curr cursor) then Ret None
         else Deref (curr cursor) (\<lambda>nd. Ret (Some (val nd)))
       else Ret None)"

fun list_insert_loop ::
  "nat \<Rightarrow> nat \<Rightarrow> addr \<Rightarrow> 'k \<Rightarrow> ('k, 'v) finder \<Rightarrow> shared \<Rightarrow> ('k, 'v, bool) list_prog" where
  "list_insert_loop 0 n self k F node = Out_of_fuel"
| "list_insert_loop (Suc i) n self k F node =
     bind (list_find n self k F) (\<lambda>(found, cursor).
       if found then Drop_value node (Drop_owned node (Ret False))
       else Store (raw node, Next) (curr cursor)
         (Compare_and_set (prev cursor) (curr cursor) node (\<lambda>r.
            case r of Inr _ \<Rightarrow> Ret True | Inl _ \<Rightarrow> list_insert_loop i n self k F node)))"

definition list_insert ::
  "nat \<Rightarrow> addr \<Rightarrow> 'k \<Rightarrow> 'v \<Rightarrow> ('k, 'v) finder \<Rightarrow> ('k, 'v, bool) list_prog" where
  "list_insert n self k v F =
     Owned_new \<lparr>key = k, val = v\<rparr> [(Next, null)] (\<lambda>node. list_insert_loop n n self k F node)"

fun list_remove_loop ::
  "nat \<Rightarrow> nat \<Rightarrow> addr \<Rightarrow> 'k \<Rightarrow> ('k, 'v) finder \<Rightarrow> ('k, 'v, 'v option) list_prog" where
  "list_remove_loop 0 n self k F = Out_of_fuel"
| "list_remove_loop (Suc i) n self k F =
     bind (list_find n self k F) (\<lambda>(found, cursor).
       if \<not> found then Ret None
       else if is_null (curr cursor) then Panic
       else Deref (curr cursor) (\<lambda>curr_node.
         let v = val curr_node in
         Fetch_or (raw (curr cursor), Next) 1 (\<lambda>next.
           if tag next = 1 then list_remove_loop i n self k F
           else Compare_and_set (prev cursor) (curr cursor) next (\<lambda>r.
             case r of
               Inr _ \<Rightarrow> Defer_destroy (curr cursor) (Ret (Some v))
             | Inl _ \<Rightarrow> Ret (Some v)))))"

definition list_remove :: "nat \<Rightarrow> addr \<Rightarrow> 'k \<Rightarrow> ('k, 'v) finder \<Rightarrow> ('k, 'v, 'v option) list_prog" where
  "list_remove n self k F = list_remove_loop n n self k F"

definition harris_get :: "nat \<Rightarrow> addr \<Rightarrow> 'k::linorder \<Rightarrow> ('k, 'v, 'v option) list_prog" where
  "harris_get n self k = list_get n self k (find_harris n)"

definition harris_insert :: "nat \<Rightarrow> addr \<Rightarrow> 'k::linorder \<Rightarrow> 'v \<Rightarrow> ('k, 'v, bool) list_prog" where
  "harris_insert n self k v = list_insert n self k v (find_harris n)"

definition harris_remove :: "nat \<Rightarrow> addr \<Rightarrow> 'k::linorder \<Rightarrow> ('k, 'v, 'v option) list_prog" where
  "harris_remove n self k = list_remove n self k (find_harris n)"

definition harris_michael_get :: "nat \<Rightarrow> addr \<Rightarrow> 'k::linorder \<Rightarrow> ('k, 'v, 'v option) list_prog" where
  "harris_michael_get n self k = list_get n self k (find_harris_michael n)"

definition harris_michael_insert :: "nat \<Rightarrow> addr \<Rightarrow> 'k::linorder \<Rightarrow> 'v \<Rightarrow> ('k, 'v, bool) list_prog" where
  "harris_michael_insert n self k v = list_insert n self k v (find_harris_michael n)"

definition harris_michael_remove :: "nat \<Rightarrow> addr \<Rightarrow> 'k::linorder \<Rightarrow> ('k, 'v, 'v option) list_prog" where
  "harris_michael_remove n self k = list_remove n self k (find_harris_michael n)"

definition harris_herlihy_shavit_get ::
  "nat \<Rightarrow> addr \<Rightarrow> 'k::linorder \<Rightarrow> ('k, 'v, 'v option) list_prog" where
  "harris_herlihy_shavit_get n self k = list_get n self k (find_harris_herlihy_shavit n)"

definition harris_herlihy_shavit_insert ::
  "nat \<Rightarrow> addr \<Rightarrow> 'k::linorder \<Rightarrow> 'v \<Rightarrow> ('k, 'v, bool) list_prog" where
  "harris_herlihy_shavit_insert n self k v = list_insert n self k v (find_harris_michael n)"

definition harris_herlihy_shavit_remove ::
  "nat \<Rightarrow> addr \<Rightarrow> 'k::linorder \<Rightarrow> ('k, 'v, 'v option) list_prog" where
  "harris_herlihy_shavit_remove n self k = list_remove n self k (find_harris_michael n)"

section \<open>The maps HList, HMList and HHSList\<close>

text \<open>Each is a structure whose only field is the list, so it lives at the list's address.\<close>

definition HList_new :: "addr \<Rightarrow> ('k, 'v, unit) list_prog" where
  "HList_new self = list_new self"

definition HList_get :: "addr \<Rightarrow> nat \<Rightarrow> 'k::linorder \<Rightarrow> ('k, 'v, 'v option) list_prog" where
  "HList_get self n k = harris_get n self k"

definition HList_insert :: "addr \<Rightarrow> nat \<Rightarrow> 'k::linorder \<Rightarrow> 'v \<Rightarrow> ('k, 'v, bool) list_prog" where
  "HList_insert self n k v = harris_insert n self k v"

definition HList_remove :: "addr \<Rightarrow> nat \<Rightarrow> 'k::linorder \<Rightarrow> ('k, 'v, 'v option) list_prog" where
  "HList_remove self n k = harris_remove n self k"

definition HMList_new :: "addr \<Rightarrow> ('k, 'v, unit) list_prog" where
  "HMList_new self = list_new self"

definition HMList_get :: "addr \<Rightarrow> nat \<Rightarrow> 'k::linorder \<Rightarrow> ('k, 'v, 'v option) list_prog" where
  "HMList_get self n k = harris_michael_get n self k"

definition HMList_insert :: "addr \<Rightarrow> nat \<Rightarrow> 'k::linorder \<Rightarrow> 'v \<Rightarrow> ('k, 'v, bool) list_prog" where
  "HMList_insert self n k v = harris_michael_insert n self k v"

definition HMList_remove :: "addr \<Rightarrow> nat \<Rightarrow> 'k::linorder \<Rightarrow> ('k, 'v, 'v option) list_prog" where
  "HMList_remove self n k = harris_michael_remove n self k"

definition HHSList_new :: "addr \<Rightarrow> ('k, 'v, unit) list_prog" where
  "HHSList_new self = list_new self"

definition HHSList_get :: "addr \<Rightarrow> nat \<Rightarrow> 'k::linorder \<Rightarrow> ('k, 'v, 'v option) list_prog" where
  "HHSList_get self n k = harris_herlihy_shavit_get n self k"

definition HHSList_insert :: "addr \<Rightarrow> nat \<Rightarrow> 'k::linorder \<Rightarrow> 'v \<Rightarrow> ('k, 'v, bool) list_prog" where
  "HHSList_insert self n k v = harris_herlihy_shavit_insert n self k v"

definition HHSList_remove :: "addr \<Rightarrow> nat \<Rightarrow> 'k::linorder \<Rightarrow> ('k, 'v, 'v option) list_prog" where
  "HHSList_remove self n k = harris_herlihy_shavit_remove n self k"

end
