(* ===== verification/List_Spec.thy ===== *)
theory List_Spec
  imports Ebr_List
begin

text \<open>
  What a list in memory means: its chain of nodes, the invariant of that chain, and the map it
  represents.  Nodes whose \<^verbatim>\<open>next\<close> is tagged are logically removed; they may still be
  linked, so the invariant speaks of marked and unmarked nodes alike.
\<close>

section \<open>Chains\<close>

abbreviation nxt :: "('k, 'v) list_mem \<Rightarrow> addr \<Rightarrow> shared" where
  "nxt m a \<equiv> cell m (a, Next)"

definition marked :: "('k, 'v) list_mem \<Rightarrow> addr \<Rightarrow> bool" where
  "marked m a \<longleftrightarrow> tag (nxt m a) \<noteq> 0"

definition key_at :: "('k, 'v) list_mem \<Rightarrow> addr \<Rightarrow> 'k" where
  "key_at m a = key (the (obj m a))"

definition val_at :: "('k, 'v) list_mem \<Rightarrow> addr \<Rightarrow> 'v" where
  "val_at m a = val (the (obj m a))"

primrec chain :: "('k, 'v) list_mem \<Rightarrow> addr \<Rightarrow> addr list \<Rightarrow> bool" where
  "chain m a [] \<longleftrightarrow> raw (nxt m a) = 0"
| "chain m a (x # xs) \<longleftrightarrow> raw (nxt m a) = x \<and> x \<noteq> 0 \<and> chain m x xs"

primrec path :: "('k, 'v) list_mem \<Rightarrow> addr \<Rightarrow> addr list \<Rightarrow> bool" where
  "path m a [] \<longleftrightarrow> True"
| "path m a (x # xs) \<longleftrightarrow> raw (nxt m a) = x \<and> x \<noteq> 0 \<and> path m x xs"

definition head_of :: "addr list \<Rightarrow> addr" where
  "head_of xs = (case xs of [] \<Rightarrow> 0 | x # _ \<Rightarrow> x)"

definition rest_chain :: "('k, 'v) list_mem \<Rightarrow> addr list \<Rightarrow> bool" where
  "rest_chain m xs = (case xs of [] \<Rightarrow> True | x # xs' \<Rightarrow> x \<noteq> 0 \<and> chain m x xs')"

lemma head_of_simps [simp]: "head_of [] = 0" "head_of (x # xs) = x"
  by (simp_all add: head_of_def)

lemma rest_chain_simps [simp]:
  "rest_chain m []" "rest_chain m (x # xs) \<longleftrightarrow> x \<noteq> 0 \<and> chain m x xs"
  by (simp_all add: rest_chain_def)

lemma chain_iff: "chain m a xs \<longleftrightarrow> raw (nxt m a) = head_of xs \<and> rest_chain m xs"
  by (cases xs) auto

text \<open>The node (or header) that a prefix of the chain ends in.\<close>

definition end_of :: "addr \<Rightarrow> addr list \<Rightarrow> addr" where
  "end_of a xs = last (a # xs)"

lemma end_of_simps [simp]:
  "end_of a [] = a" "end_of a (x # xs) = end_of x xs" "end_of a (xs @ ys) = end_of (end_of a xs) ys"
  by (auto simp: end_of_def)

lemma end_of_in: "end_of a xs \<in> set (a # xs)"
  by (simp add: end_of_def)

lemma chain_append: "chain m a (xs @ ys) \<longleftrightarrow> path m a xs \<and> chain m (end_of a xs) ys"
  by (induction xs arbitrary: a) auto

lemma path_append: "path m a (xs @ ys) \<longleftrightarrow> path m a xs \<and> path m (end_of a xs) ys"
  by (induction xs arbitrary: a) auto

lemma chain_path: "chain m a xs \<Longrightarrow> path m a xs"
  by (induction xs arbitrary: a) auto

lemma chain_unique: "chain m a xs \<Longrightarrow> chain m a ys \<Longrightarrow> xs = ys"
proof (induction xs arbitrary: a ys)
  case Nil
  then show ?case by (cases ys) auto
next
  case (Cons x xs)
  then show ?case by (cases ys) auto
qed

lemma chain_cong:
  "(\<And>x. x \<in> set (a # xs) \<Longrightarrow> raw (nxt m' x) = raw (nxt m x)) \<Longrightarrow> chain m' a xs = chain m a xs"
  by (induction xs arbitrary: a) auto

lemma path_cong:
  "(\<And>x. x \<in> set (butlast (a # xs)) \<Longrightarrow> raw (nxt m' x) = raw (nxt m x)) \<Longrightarrow> path m' a xs = path m a xs"
proof (induction xs arbitrary: a)
  case (Cons x xs)
  from Cons.prems have "raw (nxt m' a) = raw (nxt m a)"
    by simp
  moreover have "path m' x xs = path m x xs"
    using Cons.prems by (intro Cons.IH) auto
  ultimately show ?case by simp
qed simp

lemma rest_chain_cong:
  "(\<And>x. x \<in> set xs \<Longrightarrow> raw (nxt m' x) = raw (nxt m x)) \<Longrightarrow> rest_chain m' xs = rest_chain m xs"
proof (cases xs)
  case (Cons x xs')
  assume "\<And>x. x \<in> set xs \<Longrightarrow> raw (nxt m' x) = raw (nxt m x)"
  then have "chain m' x xs' = chain m x xs'"
    unfolding Cons by (intro chain_cong) simp
  then show ?thesis by (simp add: Cons)
qed simp

text \<open>Redirecting the last link of a prefix to another suffix.\<close>

lemma chain_relink:
  assumes "path m a xs" "rest_chain m ys" "distinct (a # xs)" "end_of a xs \<notin> set ys"
    and "raw p = head_of ys"
  shows "chain (set_cell (end_of a xs, Next) p m) a (xs @ ys)"
proof -
  let ?m = "set_cell (end_of a xs, Next) p m"
  have "path ?m a xs = path m a xs"
  proof (rule path_cong)
    fix x assume "x \<in> set (butlast (a # xs))"
    moreover have "a # xs = butlast (a # xs) @ [end_of a xs]"
      unfolding end_of_def by (rule append_butlast_last_id[symmetric]) simp
    ultimately have "x \<noteq> end_of a xs"
      using assms(3) by (metis disjoint_iff distinct_append list.set_intros(1))
    then show "raw (nxt ?m x) = raw (nxt m x)" by simp
  qed
  moreover have "rest_chain ?m ys = rest_chain m ys"
    using assms(4) by (intro rest_chain_cong) auto
  ultimately show ?thesis
    using assms chain_iff[of ?m "end_of a xs" ys] by (simp add: chain_append)
qed

text \<open>\<open>leads m p bs q\<close>: following \<^verbatim>\<open>next\<close> from the pointer \<open>p\<close> visits \<open>bs\<close> and then \<open>q\<close>.\<close>

primrec leads :: "('k, 'v) list_mem \<Rightarrow> shared \<Rightarrow> addr list \<Rightarrow> addr \<Rightarrow> bool" where
  "leads m p [] q \<longleftrightarrow> raw p = q"
| "leads m p (b # bs) q \<longleftrightarrow> raw p = b \<and> leads m (nxt m b) bs q"

lemma leads_cong:
  "(\<And>b. b \<in> set bs \<Longrightarrow> nxt m' b = nxt m b) \<Longrightarrow> leads m' p bs q = leads m p bs q"
  by (induction bs arbitrary: p) auto

lemma chain_leads: "chain m a (bs @ cs) \<Longrightarrow> leads m (nxt m a) bs (head_of cs)"
  by (induction bs arbitrary: a) (auto simp: chain_iff)

section \<open>The invariant and the map\<close>

definition list_inv :: "('k::linorder, 'v) list_mem \<Rightarrow> addr \<Rightarrow> addr list \<Rightarrow> bool" where
  "list_inv m self xs \<longleftrightarrow>
     chain m self xs \<and> distinct xs \<and> self \<in> statics m \<and> tag (nxt m self) = 0 \<and>
     (\<forall>x\<in>set xs. obj m x \<noteq> None \<and> x \<notin> statics m \<and> x \<notin> set (garbage m) \<and> tag (nxt m x) \<le> 1) \<and>
     sorted_wrt (<) (map (key_at m) xs) \<and> garbage_ok m"

definition contents :: "('k, 'v) list_mem \<Rightarrow> addr list \<Rightarrow> 'k \<rightharpoonup> 'v" where
  "contents m xs = map_of (map (\<lambda>x. (key_at m x, val_at m x)) (filter (\<lambda>x. \<not> marked m x) xs))"

lemma list_inv_unique: "list_inv m self xs \<Longrightarrow> list_inv m self ys \<Longrightarrow> xs = ys"
  by (auto simp: list_inv_def intro: chain_unique)

lemma list_inv_self: "list_inv m self xs \<Longrightarrow> self \<notin> set xs"
  by (auto simp: list_inv_def)

lemma list_inv_obj: "list_inv m self xs \<Longrightarrow> x \<in> set xs \<Longrightarrow> \<exists>n. obj m x = Some n"
  by (auto simp: list_inv_def)

lemma list_inv_live: "list_inv m self xs \<Longrightarrow> x \<in> set (self # xs) \<Longrightarrow> live m x"
  by (auto simp: list_inv_def live_def)

lemma list_inv_nonnull: "chain m a xs \<Longrightarrow> x \<in> set xs \<Longrightarrow> x \<noteq> 0"
  by (induction xs arbitrary: a) auto

lemma contents_simps [simp]:
  "contents m [] = Map.empty"
  "contents m (x # xs) = (if marked m x then contents m xs else (contents m xs)(key_at m x \<mapsto> val_at m x))"
  by (simp_all add: contents_def)

lemma contents_append: "contents m (xs @ ys) = contents m ys ++ contents m xs"
  by (simp add: contents_def)

lemma contents_all_marked: "(\<And>x. x \<in> set xs \<Longrightarrow> marked m x) \<Longrightarrow> contents m xs = Map.empty"
  by (induction xs) auto

lemma dom_contents: "dom (contents m xs) = key_at m ` {x \<in> set xs. \<not> marked m x}"
  by (induction xs) auto

lemma contents_None: "(\<And>x. x \<in> set xs \<Longrightarrow> key_at m x \<noteq> k) \<Longrightarrow> contents m xs k = None"
  by (induction xs) auto

lemma contents_cong:
  assumes "\<And>x. x \<in> set xs \<Longrightarrow> obj m' x = obj m x"
    and "\<And>x. x \<in> set xs \<Longrightarrow> marked m' x = marked m x"
  shows "contents m' xs = contents m xs"
  using assms by (induction xs) (auto simp: key_at_def val_at_def)

lemma list_inv_cong:
  assumes "list_inv m self xs"
    and "\<And>x. x \<in> set (self # xs) \<Longrightarrow> nxt m' x = nxt m x"
    and "\<And>x. x \<in> set xs \<Longrightarrow> obj m' x = obj m x"
    and "statics m' = statics m" "garbage_ok m'" "set xs \<inter> set (garbage m') = {}"
  shows "list_inv m' self xs"
proof -
  have "chain m' self xs = chain m self xs"
    using assms(2) by (intro chain_cong) auto
  moreover have "map (key_at m') xs = map (key_at m) xs"
    using assms(3) by (auto simp: key_at_def)
  ultimately show ?thesis
    using assms unfolding list_inv_def by (auto simp del: map_eq_conv)
qed

text \<open>A list is not affected by what happens outside it.\<close>

lemma list_inv_frame:
  assumes "list_inv m self xs" "frame A m m'" "garbage_ok m'" "A \<inter> set (self # xs) = {}"
  shows "list_inv m' self xs" and "contents m' xs = contents m xs"
proof -
  have out: "x \<notin> A" "live m x" "x \<notin> set (garbage m)" if "x \<in> set (self # xs)" for x
  proof -
    show "x \<notin> A" using assms(4) that by auto
    show "live m x" using assms(1) that by (rule list_inv_live)
    show "x \<notin> set (garbage m)"
      using assms(1) that unfolding list_inv_def garbage_ok_def by auto
  qed
  note at = frame_at[OF assms(2) out]
  show "list_inv m' self xs"
  proof (rule list_inv_cong[OF assms(1)])
    show "set xs \<inter> set (garbage m') = {}" using at(4) by auto
  qed (use at assms(3) frame_statics[OF assms(2)] in auto)
  show "contents m' xs = contents m xs"
    using at by (intro contents_cong) (auto simp: marked_def)
qed

text \<open>Keys are strictly increasing along the chain, so a key has one position.\<close>

lemma list_inv_append:
  "list_inv m self (xs @ ys) \<Longrightarrow> x \<in> set xs \<Longrightarrow> y \<in> set ys \<Longrightarrow> key_at m x < key_at m y"
  by (auto simp: list_inv_def sorted_wrt_append)

lemma contents_at:
  assumes "list_inv m self (xs @ y # ys)"
  shows "contents m (xs @ y # ys) (key_at m y) = (if marked m y then None else Some (val_at m y))"
proof -
  have ne: "key_at m x \<noteq> key_at m y" if "x \<in> set xs \<union> set ys" for x
    using assms that by (auto simp: list_inv_def sorted_wrt_append)
  have "contents m xs (key_at m y) = None" "contents m ys (key_at m y) = None"
    using ne by (auto intro!: contents_None)
  then show ?thesis
    by (auto simp: contents_append map_add_def)
qed

lemma contents_gap:
  assumes "list_inv m self (xs @ ys)" "\<And>x. x \<in> set xs \<Longrightarrow> key_at m x < k"
    and "ys \<noteq> [] \<Longrightarrow> k < key_at m (hd ys)"
  shows "contents m (xs @ ys) k = None"
proof (rule contents_None)
  fix x assume x: "x \<in> set (xs @ ys)"
  show "key_at m x \<noteq> k"
  proof (cases "x \<in> set xs")
    case True
    then show ?thesis using assms(2) by force
  next
    case False
    with x have "x \<in> set ys" by simp
    then obtain y zs where ys: "ys = y # zs" by (cases ys) auto
    have "key_at m y \<le> key_at m x"
      using assms(1) \<open>x \<in> set ys\<close> unfolding ys list_inv_def by (auto simp: sorted_wrt_append)
    with assms(3) ys show ?thesis by auto
  qed
qed

text \<open>
  The map a list represents, with a bound on its chain: what the operations are specified
  against.
\<close>

definition list_repr :: "addr \<Rightarrow> ('k::linorder, 'v) list_mem \<Rightarrow> ('k \<rightharpoonup> 'v) \<Rightarrow> nat \<Rightarrow> bool" where
  "list_repr self m M s \<longleftrightarrow> (\<exists>xs. list_inv m self xs \<and> contents m xs = M \<and> length xs \<le> s)"

text \<open>
  What an operation may have done to a list: it changed nothing outside the list, added at most
  newly allocated nodes, and retired exactly the nodes it took out, each of them once.
\<close>

definition list_step :: "addr \<Rightarrow> ('k, 'v) list_mem \<Rightarrow> addr list \<Rightarrow> ('k, 'v) list_mem \<Rightarrow> addr list \<Rightarrow> bool" where
  "list_step self m xs m' xs' \<longleftrightarrow>
     frame (insert self (set xs)) m m' \<and>
     mset (retired m') = mset (retired m) + mset_set (set xs - set xs') \<and>
     set xs' \<subseteq> set xs \<union> {a. \<not> live m a}"

lemma list_step_refl [simp]: "list_step self m xs m xs"
  by (simp add: list_step_def)

lemma mset_set_diff_chain:
  assumes "finite A" "B \<subseteq> A" "C \<inter> A \<subseteq> B"
  shows "mset_set (A - B) + mset_set (B - C) = mset_set (A - C)"
proof -
  have "A - C = (A - B) \<union> (B - C)" using assms by auto
  moreover have "(A - B) \<inter> (B - C) = {}" by auto
  ultimately show ?thesis
    using assms by (simp add: mset_set_Union finite_subset)
qed

lemma list_step_trans:
  assumes "list_step self m xs m1 ys" "list_step self m1 ys m2 zs"
    and "set ys \<subseteq> set xs" "set zs \<subseteq> set xs \<union> {a. \<not> live m a}" "set zs \<inter> set xs \<subseteq> set ys"
  shows "list_step self m xs m2 zs"
proof -
  have "frame (insert self (set xs)) m m2"
  proof (rule frame_trans_same)
    show "frame (insert self (set xs)) m m1" "frame (insert self (set ys)) m1 m2"
      using assms(1,2) by (simp_all only: list_step_def)
    show "insert self (set ys) \<subseteq> insert self (set xs)" using assms(3) by auto
  qed
  moreover have "mset (retired m2) = mset (retired m) + mset_set (set xs - set zs)"
  proof -
    have "mset (retired m2) = mset (retired m) + (mset_set (set xs - set ys) + mset_set (set ys - set zs))"
      using assms(1,2) by (simp add: list_step_def add.assoc)
    then show ?thesis
      using mset_set_diff_chain[of "set xs" "set ys" "set zs"] assms(3,5) by simp
  qed
  ultimately show ?thesis
    using assms(4) by (simp add: list_step_def)
qed

text \<open>Taking one node out and retiring it.\<close>

lemma list_step_retire:
  assumes "frame (insert self (set xs)) m m1" "retired m1 = retired m" "x \<in> set xs"
    and "set xs' = set xs - {x}"
  shows "list_step self m xs (reclaim R (retire x m1)) xs'"
proof -
  have "frame (insert self (set xs)) m (reclaim R (retire x m1))"
    using assms by (intro frame_trans_same[OF assms(1) frame_retire]) auto
  moreover have "set xs - set xs' = {x}" using assms by auto
  ultimately show ?thesis using assms by (auto simp: list_step_def)
qed

section \<open>Positions\<close>

text \<open>
  \<open>located self k found c m as bs\<close>: the cursor \<open>c\<close> stands between the prefix
  \<open>as\<close>, whose keys are below \<open>k\<close> and whose end is not marked, and the suffix
  \<open>bs\<close>, whose first node is not marked and has a key of at least \<open>k\<close>.
\<close>

definition located ::
  "addr \<Rightarrow> 'k::linorder \<Rightarrow> bool \<Rightarrow> cursor \<Rightarrow> ('k, 'v) list_mem \<Rightarrow> addr list \<Rightarrow> addr list \<Rightarrow> bool" where
  "located self k found c m as bs \<longleftrightarrow>
     list_inv m self (as @ bs) \<and>
     prev c = (end_of self as, Next) \<and> curr c = Shared (head_of bs) 0 \<and>
     \<not> marked m (end_of self as) \<and> (\<forall>x\<in>set as. key_at m x < k) \<and>
     (bs \<noteq> [] \<longrightarrow> k \<le> key_at m (hd bs) \<and> \<not> marked m (hd bs)) \<and>
     (found \<longleftrightarrow> bs \<noteq> [] \<and> key_at m (hd bs) = k)"

lemma list_inv_split:
  assumes "list_inv m self (as @ bs)"
  shows "path m self as" "rest_chain m bs" "raw (nxt m (end_of self as)) = head_of bs"
    "distinct (self # as)" "end_of self as \<notin> set bs" "set as \<inter> set bs = {}" "self \<notin> set bs"
proof -
  note self = list_inv_self[OF assms]
  from assms have "chain m self (as @ bs)" and d: "distinct (as @ bs)"
    by (auto simp: list_inv_def)
  then show "path m self as" "rest_chain m bs" "raw (nxt m (end_of self as)) = head_of bs"
    by (auto simp: chain_append chain_iff[of m _ bs])
  from d self show "distinct (self # as)" "set as \<inter> set bs = {}" "self \<notin> set bs" by auto
  then show "end_of self as \<notin> set bs" using end_of_in[of self as] by auto
qed

lemma list_inv_node:
  assumes "list_inv m self (as @ x # bs)"
  obtains nd where "obj m x = Some nd" "key nd = key_at m x" "val nd = val_at m x" "x \<noteq> 0"
    "raw (nxt m x) = head_of bs" "x \<notin> statics m" "x \<notin> set (garbage m)" "tag (nxt m x) \<le> 1"
proof -
  from assms obtain nd where "obj m x = Some nd" "x \<notin> statics m" "x \<notin> set (garbage m)" "tag (nxt m x) \<le> 1"
    by (auto simp: list_inv_def)
  moreover have "x \<noteq> 0" "raw (nxt m x) = head_of bs"
    using list_inv_split[OF assms] by (auto simp: chain_iff)
  ultimately show ?thesis using that by (simp add: key_at_def val_at_def)
qed

lemma located_link:
  assumes "located self k found c m as bs"
  shows "nxt m (end_of self as) = curr c" "live m (end_of self as)"
    "end_of self as \<notin> set (garbage m)"
proof -
  from assms have inv: "list_inv m self (as @ bs)" by (simp add: located_def)
  from list_inv_split(3)[OF this] assms show "nxt m (end_of self as) = curr c"
    by (auto simp: located_def marked_def shared_eq_iff)
  have "end_of self as \<in> set (self # as @ bs)" using end_of_in[of self as] by auto
  with inv show "live m (end_of self as)" by (rule list_inv_live)
  from end_of_in[of self as] inv show "end_of self as \<notin> set (garbage m)"
    by (auto simp: list_inv_def garbage_ok_def)
qed

lemma located_contents:
  assumes "located self k found c m as bs"
  shows "contents m (as @ bs) k = (if found then Some (val_at m (hd bs)) else None)"
proof (cases found)
  case True
  with assms obtain b bs' where bs: "bs = b # bs'" and b: "key_at m b = k" "\<not> marked m b"
    by (cases bs) (auto simp: located_def)
  with assms contents_at[of m self as b bs'] True show ?thesis
    by (auto simp: located_def)
next
  case False
  with assms have "contents m (as @ bs) k = None"
    by (intro contents_gap[of m self]) (auto simp: located_def)
  with False show ?thesis by simp
qed

lemma located_frame:
  assumes "located self k found c m as bs" "frame A m m'" "garbage_ok m'"
    and "A \<inter> set (self # as @ bs) = {}"
  shows "located self k found c m' as bs" "contents m' (as @ bs) = contents m (as @ bs)"
proof -
  from assms(1) have inv: "list_inv m self (as @ bs)" by (simp add: located_def)
  note fr = list_inv_frame[OF inv assms(2,3)]
  have same: "obj m' x = obj m x" "nxt m' x = nxt m x" if "x \<in> set (self # as @ bs)" for x
  proof -
    have "x \<notin> A" using assms(4) that by auto
    moreover have "live m x" using list_inv_live[OF inv] that by simp
    moreover have "x \<notin> set (garbage m)"
      using inv that by (auto simp: list_inv_def garbage_ok_def)
    ultimately show "obj m' x = obj m x" "nxt m' x = nxt m x"
      using frame_at[OF assms(2)] by auto
  qed
  have "key_at m' x = key_at m x" "marked m' x = marked m x" if "x \<in> set (self # as @ bs)" for x
    using same[OF that] by (simp_all add: key_at_def marked_def)
  moreover have "end_of self as \<in> set (self # as @ bs)" using end_of_in[of self as] by auto
  moreover have "hd bs \<in> set (self # as @ bs)" if "bs \<noteq> []" using that by auto
  ultimately show "located self k found c m' as bs"
    using assms(1) fr assms(4) unfolding located_def by auto
  show "contents m' (as @ bs) = contents m (as @ bs)" using fr assms(4) by auto
qed

section \<open>Elementary changes of a list\<close>

text \<open>Unlinking a run of marked nodes.\<close>

lemma unlink_run:
  assumes inv: "list_inv m self (as @ bs @ cs)" and unm: "\<not> marked m (end_of self as)"
    and mk: "\<And>b. b \<in> set bs \<Longrightarrow> marked m b" and p: "p = Shared (head_of cs) 0"
  shows "list_inv (set_cell (end_of self as, Next) p m) self (as @ cs)"
    and "contents (set_cell (end_of self as, Next) p m) (as @ cs) = contents m (as @ bs @ cs)"
proof -
  let ?m = "set_cell (end_of self as, Next) p m"
  note sp = list_inv_split[OF inv]
  note sp2 = list_inv_split[of m self "as @ bs" cs, simplified, OF inv]
  have key: "key_at ?m = key_at m" "val_at ?m = val_at m"
    by (auto simp: key_at_def val_at_def)
  have mkd: "marked ?m x = marked m x" for x
    using unm p by (auto simp: marked_def)
  have "chain ?m self (as @ cs)"
    using sp sp2 p by (intro chain_relink) auto
  moreover have "sorted_wrt (<) (map (key_at m) (as @ cs))"
    using inv by (auto simp: list_inv_def sorted_wrt_append)
  moreover have "tag (nxt ?m self) = 0"
    using inv p by (simp add: list_inv_def)
  moreover have "tag (nxt ?m x) \<le> 1" if "x \<in> set (as @ cs)" for x
    using inv p that by (auto simp: list_inv_def)
  ultimately show "list_inv ?m self (as @ cs)"
    using inv key unfolding list_inv_def by auto
  have "contents ?m (as @ cs) = contents m (as @ cs)"
    using mkd by (intro contents_cong) auto
  also have "\<dots> = contents m (as @ bs @ cs)"
    using contents_all_marked[of bs m] mk by (simp add: contents_append)
  finally show "contents ?m (as @ cs) = contents m (as @ bs @ cs)" .
qed

text \<open>Marking a node removes its key from the map and leaves the chain alone.\<close>

lemma mark_node:
  assumes inv: "list_inv m self (as @ b # bs)" and unm: "\<not> marked m b"
  shows "list_inv (set_cell (b, Next) (with_tag (nxt m b) 1) m) self (as @ b # bs)"
    and "contents (set_cell (b, Next) (with_tag (nxt m b) 1) m) (as @ b # bs) =
         (contents m (as @ b # bs))(key_at m b := None)"
proof -
  let ?m = "set_cell (b, Next) (with_tag (nxt m b) 1) m"
  have "self \<noteq> b" using list_inv_self[OF inv] by auto
  have key: "key_at ?m = key_at m" "val_at ?m = val_at m"
    by (auto simp: key_at_def val_at_def)
  have "chain ?m self (as @ b # bs) = chain m self (as @ b # bs)"
    by (intro chain_cong) auto
  then show inv': "list_inv ?m self (as @ b # bs)"
    using inv \<open>self \<noteq> b\<close> key unfolding list_inv_def by auto
  have d: "b \<notin> set as" "b \<notin> set bs" using inv by (auto simp: list_inv_def)
  have "contents ?m as = contents m as" "contents ?m bs = contents m bs"
    using d by (auto intro!: contents_cong simp: marked_def split: if_splits)
  moreover have "contents m as (key_at m b) = None" "contents m bs (key_at m b) = None"
    using inv by (auto intro!: contents_None simp: list_inv_def sorted_wrt_append)
  ultimately show "contents ?m (as @ b # bs) = (contents m (as @ b # bs))(key_at m b := None)"
    using unm by (auto simp: contents_append marked_def map_add_def fun_eq_iff split: option.splits)
qed

text \<open>Linking a new node at a position where its key is absent.\<close>

lemma link_gap:
  assumes inv: "list_inv m self (as @ bs)" and below: "\<And>x. x \<in> set as \<Longrightarrow> key_at m x < k"
    and hd: "bs \<noteq> [] \<Longrightarrow> k < key_at m (hd bs)" and unm: "\<not> marked m (end_of self as)"
    and a: "obj m a = Some \<lparr>key = k, val = v\<rparr>" "a \<noteq> 0" "a \<notin> statics m" "a \<notin> set (garbage m)"
      "a \<notin> set (as @ bs)"
    and m': "m' = set_cell (end_of self as, Next) (Shared a 0) (set_cell (a, Next) (Shared (head_of bs) 0) m)"
  shows "list_inv m' self (as @ a # bs)"
    and "contents m' (as @ a # bs) = (contents m (as @ bs))(k \<mapsto> v)"
proof -
  note sp = list_inv_split[OF inv]
  have self: "self \<in> statics m" using inv by (simp add: list_inv_def)
  have ae: "a \<noteq> end_of self as"
    using a self end_of_in[of self as] by auto
  have key: "key_at m' = key_at m" "val_at m' = val_at m"
    by (auto simp: key_at_def val_at_def m')
  have ka: "key_at m a = k" "val_at m a = v" using a by (simp_all add: key_at_def val_at_def)
  have above: "k < key_at m x" if x: "x \<in> set bs" for x
  proof -
    from hd x have "k < key_at m (hd bs)" by (cases bs) auto
    moreover have "key_at m (hd bs) \<le> key_at m x"
      using inv x by (cases bs) (auto simp: list_inv_def sorted_wrt_append)
    ultimately show ?thesis by simp
  qed
  let ?m1 = "set_cell (a, Next) (Shared (head_of bs) 0) m"
  have "path ?m1 self as = path m self as" "rest_chain ?m1 bs = rest_chain m bs"
    using a(5) self a(3) by (auto intro!: path_cong rest_chain_cong dest!: in_set_butlastD)
  moreover have "chain ?m1 a bs"
    using calculation sp by (simp add: chain_iff)
  ultimately have "chain m' self (as @ a # bs)"
    unfolding m' using sp a ae by (intro chain_relink) auto
  moreover have "sorted_wrt (<) (map (key_at m) (as @ a # bs))"
    using inv below above ka by (auto simp: list_inv_def sorted_wrt_append)
  moreover have "tag (nxt m' self) = 0"
    using inv a(3) self by (auto simp: list_inv_def m')
  moreover have "tag (nxt m' x) \<le> 1" if "x \<in> set (as @ a # bs)" for x
    using inv that by (auto simp: list_inv_def m')
  ultimately show "list_inv m' self (as @ a # bs)"
    using inv a unfolding list_inv_def key by (auto simp: m')
  have "contents m' as = contents m as" "contents m' bs = contents m bs"
    using a(5) unm by (auto intro!: contents_cong simp: marked_def m' split: if_splits)
  moreover have "\<not> marked m' a" using ae by (simp add: marked_def m')
  moreover have "contents m as k = None"
    using below by (intro contents_None) auto
  ultimately show "contents m' (as @ a # bs) = (contents m (as @ bs))(k \<mapsto> v)"
    using ka key by (auto simp: contents_append map_add_def fun_eq_iff split: option.splits)
qed

lemma link_node:
  assumes loc: "located self k False c m as bs"
    and a: "obj m a = Some \<lparr>key = k, val = v\<rparr>" "a \<noteq> 0" "a \<notin> statics m" "a \<notin> set (garbage m)"
      "a \<notin> set (as @ bs)"
    and m': "m' = set_cell (end_of self as, Next) (Shared a 0) (set_cell (a, Next) (curr c) m)"
  shows "list_inv m' self (as @ a # bs)"
    and "contents m' (as @ a # bs) = (contents m (as @ bs))(k \<mapsto> v)"
proof -
  have l: "list_inv m self (as @ bs)" "\<And>x. x \<in> set as \<Longrightarrow> key_at m x < k" "bs \<noteq> [] \<Longrightarrow> k < key_at m (hd bs)"
    "\<not> marked m (end_of self as)" "curr c = Shared (head_of bs) 0"
    using loc by (auto simp: located_def)
  show "list_inv m' self (as @ a # bs)" "contents m' (as @ a # bs) = (contents m (as @ bs))(k \<mapsto> v)"
    using link_gap[OF l(1-4) a m'[unfolded l(5)]] by blast+
qed

text \<open>Retiring a node that is not in the list.\<close>

lemma retire_outside:
  assumes "list_inv m self xs" "a \<notin> set xs" "obj m a \<noteq> None" "a \<notin> statics m" "a \<notin> set (garbage m)"
  shows "list_inv (reclaim R (retire a m)) self xs"
    and "contents (reclaim R (retire a m)) xs = contents m xs"
proof -
  have "frame {a} m (reclaim R (retire a m))" by (rule frame_retire) simp
  moreover have "garbage_ok (reclaim R (retire a m))"
    using assms by (intro garbage_ok_reclaim garbage_ok_retire) (auto simp: list_inv_def)
  moreover have "{a} \<inter> set (self # xs) = {}"
    using assms by (auto simp: list_inv_def)
  ultimately show "list_inv (reclaim R (retire a m)) self xs"
    "contents (reclaim R (retire a m)) xs = contents m xs"
    using list_inv_frame[OF assms(1)] by blast+
qed

end
