(* ===== verification/List_Family.thy ===== *)
theory List_Family
  imports List_Spec
begin

text \<open>
  Several lists in one memory: \<open>home k\<close> is the header of the list in which the key \<open>k\<close>
  belongs.  A single list is the family with one member, a hash table the family of its buckets.  The elementary changes of a
  list (unlinking a marked node, marking a node, linking a new one) are changes of the family, seen from a place
  in it and without knowing the whole chain, as a thread sees it.
\<close>

section \<open>Families of lists\<close>

definition nodes :: "('k, 'v) list_mem \<Rightarrow> addr \<Rightarrow> addr list" where
  "nodes m h = (THE xs. chain m h xs)"

lemma nodes_eq: "chain m h xs \<Longrightarrow> nodes m h = xs"
  unfolding nodes_def by (rule the_equality) (auto intro: chain_unique)

lemma nodes_list_inv: "list_inv m h xs \<Longrightarrow> nodes m h = xs"
  by (rule nodes_eq) (simp add: list_inv_def)

definition list_map :: "('k \<Rightarrow> addr) \<Rightarrow> ('k, 'v) list_mem \<Rightarrow> 'k \<rightharpoonup> 'v" where
  "list_map home m k = contents m (nodes m (home k)) k"

definition family :: "('k::linorder \<Rightarrow> addr) \<Rightarrow> ('k, 'v) list_mem \<Rightarrow> bool" where
  "family home m \<longleftrightarrow>
     (\<forall>k. list_inv m (home k) (nodes m (home k)) \<and> (\<forall>x\<in>set (nodes m (home k)). home (key_at m x) = home k))"

definition linked :: "('k \<Rightarrow> addr) \<Rightarrow> ('k, 'v) list_mem \<Rightarrow> addr \<Rightarrow> bool" where
  "linked home m a \<longleftrightarrow> (\<exists>k. a \<in> set (nodes m (home k)))"

lemma family_inv: "family home m \<Longrightarrow> list_inv m (home k) (nodes m (home k))"
  by (simp add: family_def)

lemma family_home: "family home m \<Longrightarrow> x \<in> set (nodes m (home k)) \<Longrightarrow> home (key_at m x) = home k"
  by (simp add: family_def)

lemma linked_home: "family home m \<Longrightarrow> linked home m a \<Longrightarrow> a \<in> set (nodes m (home (key_at m a)))"
  by (auto simp: linked_def family_home)

lemma family_node:
  assumes "family home m" "linked home m a"
  shows "obj m a \<noteq> None" "a \<notin> statics m" "a \<notin> set (garbage m)" "a \<noteq> 0" "tag (nxt m a) \<le> 1"
proof -
  from assms obtain k where k: "a \<in> set (nodes m (home k))" by (auto simp: linked_def)
  note i = family_inv[OF assms(1), of k]
  show "obj m a \<noteq> None" "a \<notin> statics m" "a \<notin> set (garbage m)" "tag (nxt m a) \<le> 1" using i k by (auto simp: list_inv_def)
  show "a \<noteq> 0" using i k list_inv_nonnull by (auto simp: list_inv_def)
qed

lemma family_head: "family home m \<Longrightarrow> home k \<in> statics m \<and> tag (nxt m (home k)) = 0"
  using family_inv by (force simp: list_inv_def)

lemma family_garbage: "family home m \<Longrightarrow> garbage_ok m"
  using family_inv by (force simp: list_inv_def)

text \<open>Changing one list of the family.\<close>

lemma family_change:
  assumes fam: "family home m" and ys: "list_inv m' (home k) ys"
    and new0: "\<forall>y\<in>set ys. home (key_at m' y) = home k"
    and rest0: "\<forall>j. home j \<noteq> home k \<longrightarrow> (\<forall>x\<in>set (home j # nodes m (home j)). nxt m' x = nxt m x)"
      "\<forall>j. home j \<noteq> home k \<longrightarrow> (\<forall>x\<in>set (nodes m (home j)). obj m' x = obj m x \<and> x \<notin> set (garbage m'))"
      "statics m' = statics m"
  shows "family home m'" "nodes m' (home k) = ys"
    "\<And>j. home j \<noteq> home k \<Longrightarrow> nodes m' (home j) = nodes m (home j)"
    "list_map home m' = (\<lambda>j. if home j = home k then contents m' ys j else list_map home m j)"
    "linked home m' a \<longleftrightarrow> a \<in> set ys \<or> linked home m a \<and> a \<notin> set (nodes m (home k))"
proof -
  have new: "home (key_at m' y) = home k" if "y \<in> set ys" for y using new0 that by blast
  have rest: "\<And>j x. home j \<noteq> home k \<Longrightarrow> x \<in> set (home j # nodes m (home j)) \<Longrightarrow> nxt m' x = nxt m x"
    "\<And>j x. home j \<noteq> home k \<Longrightarrow> x \<in> set (nodes m (home j)) \<Longrightarrow> obj m' x = obj m x \<and> x \<notin> set (garbage m')"
    "statics m' = statics m" using rest0 by blast+
  show at: "nodes m' (home k) = ys" using ys by (rule nodes_list_inv)
  have inv: "list_inv m' (home j) (nodes m (home j))" if "home j \<noteq> home k" for j
    by (rule list_inv_cong[OF family_inv[OF fam]]) (use rest that ys in \<open>auto simp: list_inv_def\<close>)
  then show others: "nodes m' (home j) = nodes m (home j)" if "home j \<noteq> home k" for j
    using that by (auto intro: nodes_list_inv)
  have same: "key_at m' x = key_at m x" "val_at m' x = val_at m x" "marked m' x = marked m x"
    if "home j \<noteq> home k" "x \<in> set (nodes m (home j))" for j x
    using rest(1)[OF that(1), of x] rest(2)[OF that] that by (simp_all add: key_at_def val_at_def marked_def)
  show "family home m'"
    unfolding family_def
  proof (intro allI conjI ballI)
    fix j
    show "list_inv m' (home j) (nodes m' (home j))"
      using ys at inv others by (cases "home j = home k") auto
    show "home (key_at m' x) = home j" if "x \<in> set (nodes m' (home j))" for x
      using new at others same family_home[OF fam] that by (cases "home j = home k") auto
  qed
  show "list_map home m' = (\<lambda>j. if home j = home k then contents m' ys j else list_map home m j)"
  proof
    fix j
    show "list_map home m' j = (if home j = home k then contents m' ys j else list_map home m j)"
    proof (cases "home j = home k")
      case False
      with others same rest(2) show ?thesis
        unfolding list_map_def by (simp, intro fun_cong[OF contents_cong]) auto
    qed (simp add: list_map_def at)
  qed
  show "linked home m' a \<longleftrightarrow> a \<in> set ys \<or> linked home m a \<and> a \<notin> set (nodes m (home k))"
  proof -
    have "a \<in> set (nodes m' (home j)) \<longleftrightarrow> (if home j = home k then a \<in> set ys else a \<in> set (nodes m (home j)))" for j
      using at others by simp
    moreover have "a \<notin> set (nodes m (home k))" if "home j \<noteq> home k" "a \<in> set (nodes m (home j))" for j
      using family_home[OF fam] that by metis
    ultimately show ?thesis unfolding linked_def by (metis (no_types, lifting))
  qed
qed


lemma family_outside:
  assumes fam: "family home m"
    and same: "\<And>j. nxt m' (home j) = nxt m (home j)"
      "\<And>x. linked home m x \<Longrightarrow> nxt m' x = nxt m x \<and> obj m' x = obj m x \<and> x \<notin> set (garbage m')"
      "statics m' = statics m" "garbage_ok m'"
  shows "family home m'" "list_map home m' = list_map home m" "linked home m' a \<longleftrightarrow> linked home m a"
proof -
  fix k
  have l: "linked home m x" if "x \<in> set (nodes m (home j))" for x j using that by (auto simp: linked_def)
  let ?ys = "nodes m (home k)"
  have c: "contents m' ?ys = contents m ?ys" using same(2) l by (intro contents_cong) (auto simp: marked_def)
  have ch: "list_inv m' (home k) ?ys"
    by (rule list_inv_cong[OF family_inv[OF fam]]) (use same l in auto)
  have new: "\<forall>y\<in>set ?ys. home (key_at m' y) = home k"
    using family_home[OF fam] same(2) l by (simp add: key_at_def)
  have r1: "\<forall>j. home j \<noteq> home k \<longrightarrow> (\<forall>x\<in>set (home j # nodes m (home j)). nxt m' x = nxt m x)"
    using same l by auto
  have r2: "\<forall>j. home j \<noteq> home k \<longrightarrow> (\<forall>x\<in>set (nodes m (home j)). obj m' x = obj m x \<and> x \<notin> set (garbage m'))"
    using same(2) l by blast
  note fc = family_change[OF fam ch new r1 r2 same(3)]
  show "family home m'" by (rule fc(1))
  show "list_map home m' = list_map home m" using fc(4) c by (auto simp: list_map_def fun_eq_iff)
  show "linked home m' a \<longleftrightarrow> linked home m a" using fc(5)[where a = a] l by blast
qed

text \<open>A place from which the list of \<open>k\<close> goes on: its header, or a linked node.\<close>

definition spot :: "('k \<Rightarrow> addr) \<Rightarrow> ('k, 'v) list_mem \<Rightarrow> 'k \<Rightarrow> addr \<Rightarrow> bool" where
  "spot home m k p \<longleftrightarrow> p \<in> set (home k # nodes m (home k)) \<and> \<not> marked m p"

lemma split_at: "p \<in> set (h # xs) \<Longrightarrow> \<exists>as bs. xs = as @ bs \<and> end_of h as = p"
proof (cases "p = h")
  case True
  then show ?thesis by (intro exI[of _ "[]"] exI[of _ xs]) simp
next
  case False
  assume "p \<in> set (h # xs)"
  with False obtain as bs where "xs = as @ p # bs" by (auto dest: split_list)
  then show ?thesis by (intro exI[of _ "as @ [p]"] exI[of _ bs]) simp
qed

lemma spot_split:
  assumes fam: "family home m" and p: "spot home m k p"
  obtains as bs where "nodes m (home k) = as @ bs" "end_of (home k) as = p" "nxt m p = Shared (head_of bs) 0"
    "list_inv m (home k) (as @ bs)" "\<And>x. x \<in> set as \<Longrightarrow> p \<noteq> home k \<and> key_at m x \<le> key_at m p"
proof -
  from p split_at obtain as bs where s: "nodes m (home k) = as @ bs" "end_of (home k) as = p"
    unfolding spot_def by metis
  have inv: "list_inv m (home k) (as @ bs)" using family_inv[OF fam, of k] s(1) by simp
  have "nxt m p = Shared (head_of bs) 0"
    using list_inv_split(3)[OF inv] s(2) p by (auto simp: spot_def marked_def shared_eq_iff)
  moreover have "p \<noteq> home k \<and> key_at m x \<le> key_at m p" if "x \<in> set as" for x
  proof -
    have "as \<noteq> []" using that by auto
    then obtain as' where as: "as = as' @ [p]" using s(2) by (cases as rule: rev_cases) auto
    have "p \<in> set (as @ bs)" using as by simp
    then have "p \<noteq> home k" using list_inv_self[OF inv] by auto
    moreover have "key_at m x \<le> key_at m p"
      using inv that as by (auto simp: list_inv_def sorted_wrt_append)
    ultimately show ?thesis by simp
  qed
  ultimately show thesis using that s inv by blast
qed

lemma spot_next:
  assumes fam: "family home m" and p: "spot home m k p" "nxt m p = Shared c 0" "c \<noteq> 0"
  shows "c \<in> set (nodes m (home k))" "linked home m c" "home (key_at m c) = home k"
proof -
  from spot_split[OF fam p(1)] obtain as bs where s: "nodes m (home k) = as @ bs" "nxt m p = Shared (head_of bs) 0" by metis
  with p(2,3) have "c = hd bs" "bs \<noteq> []" by (cases bs; auto)+
  with s(1) show c: "c \<in> set (nodes m (home k))" by simp
  then show "linked home m c" "home (key_at m c) = home k" by (auto simp: linked_def family_home[OF fam])
qed

lemma spot_gap:
  assumes fam: "family home m" and p: "spot home m k p" "p \<noteq> home k \<Longrightarrow> key_at m p < k"
    and c: "nxt m p = Shared c 0" "c = 0 \<or> k < key_at m c"
  shows "list_map home m k = None"
proof -
  from spot_split[OF fam p(1)] obtain as bs where s: "nodes m (home k) = as @ bs" "nxt m p = Shared (head_of bs) 0"
    "list_inv m (home k) (as @ bs)" "\<And>x. x \<in> set as \<Longrightarrow> p \<noteq> home k \<and> key_at m x \<le> key_at m p" by metis
  have "contents m (as @ bs) k = None"
  proof (rule contents_gap[OF s(3)])
    show "key_at m x < k" if "x \<in> set as" for x using s(4)[OF that] p(2) by (meson order_le_less_trans)
    show "k < key_at m (hd bs)" if "bs \<noteq> []"
    proof -
      have "hd bs \<in> set (as @ bs)" "head_of bs = hd bs" using that by (cases bs; auto)+
      moreover from this(1) have "hd bs \<noteq> 0"
        using s(3) list_inv_nonnull[of m "home k" "as @ bs" "hd bs"] by (simp add: list_inv_def)
      ultimately show ?thesis using c s(2) by auto
    qed
  qed
  then show ?thesis by (simp add: list_map_def s(1))
qed

lemma linked_found:
  assumes fam: "family home m" and "linked home m c" "\<not> marked m c"
  shows "list_map home m (key_at m c) = Some (val_at m c)"
proof -
  have "c \<in> set (nodes m (home (key_at m c)))" using linked_home assms by blast
  then obtain as bs where s: "nodes m (home (key_at m c)) = as @ c # bs" by (auto dest: split_list)
  with family_inv[OF fam, of "key_at m c"] contents_at[of m _ as c bs] assms(3) show ?thesis
    by (simp add: list_map_def)
qed


lemma family_disjoint:
  assumes fam: "family home m" and "p \<in> set (home k # nodes m (home k))" "home j \<noteq> home k"
  shows "p \<notin> set (home j # nodes m (home j))"
proof -
  have st: "home i \<in> statics m" "x \<in> set (nodes m (home i)) \<Longrightarrow> x \<notin> statics m" for i x
    using family_inv[OF fam, of i] by (auto simp: list_inv_def)
  show ?thesis using assms(2,3) st family_home[OF fam] by (metis set_ConsD)
qed

text \<open>A change of one link, in the list of \<open>k\<close>.\<close>

lemma family_set_cell:
  assumes fam: "family home m" and p: "p \<in> set (home k # nodes m (home k))"
    and inv: "list_inv (set_cell (p, Next) q m) (home k) ys"
    and home: "\<forall>y\<in>set ys. home (key_at m y) = home k"
  shows "family home (set_cell (p, Next) q m)"
    "list_map home (set_cell (p, Next) q m) =
      (\<lambda>j. if home j = home k then contents (set_cell (p, Next) q m) ys j else list_map home m j)"
    "linked home (set_cell (p, Next) q m) a \<longleftrightarrow> a \<in> set ys \<or> linked home m a \<and> a \<notin> set (nodes m (home k))"
proof -
  let ?m = "set_cell (p, Next) q m"
  have h: "\<forall>y\<in>set ys. home (key_at ?m y) = home k" using home by (simp add: key_at_def)
  have r1: "\<forall>j. home j \<noteq> home k \<longrightarrow> (\<forall>x\<in>set (home j # nodes m (home j)). nxt ?m x = nxt m x)"
    using family_disjoint[OF fam p] by auto
  have r2: "\<forall>j. home j \<noteq> home k \<longrightarrow> (\<forall>x\<in>set (nodes m (home j)). obj ?m x = obj m x \<and> x \<notin> set (garbage ?m))"
    using family_inv[OF fam] by (auto simp: list_inv_def)
  show "family home ?m" "list_map home ?m = (\<lambda>j. if home j = home k then contents ?m ys j else list_map home m j)"
    "linked home ?m a \<longleftrightarrow> a \<in> set ys \<or> linked home m a \<and> a \<notin> set (nodes m (home k))"
    using family_change[OF fam inv h r1 r2] by auto
qed

text \<open>A run of marked nodes \<open>xs\<close> that leads from \<open>a\<close> to \<open>b\<close>.\<close>

primrec marked_run :: "('k, 'v) list_mem \<Rightarrow> addr \<Rightarrow> addr list \<Rightarrow> addr \<Rightarrow> bool" where
  "marked_run m a [] b \<longleftrightarrow> a = b"
| "marked_run m a (x # xs) b \<longleftrightarrow> a = x \<and> x \<noteq> 0 \<and> marked m x \<and> marked_run m (raw (nxt m x)) xs b"

lemma marked_run_snoc: "marked_run m a (xs @ [x]) b \<longleftrightarrow> marked_run m a xs x \<and> x \<noteq> 0 \<and> marked m x \<and> raw (nxt m x) = b"
  by (induction xs arbitrary: a) auto

lemma marked_run_marked: "marked_run m a xs b \<Longrightarrow> x \<in> set xs \<Longrightarrow> marked m x"
  by (induction xs arbitrary: a) auto

lemma marked_run_cong: "marked_run m a xs b \<Longrightarrow> (\<And>x. x \<in> set xs \<Longrightarrow> nxt m' x = nxt m x) \<Longrightarrow> marked_run m' a xs b"
  by (induction xs arbitrary: a) (auto simp: marked_def)

lemma marked_run_chain:
  assumes "list_inv m self (as @ bs)" "marked_run m (head_of bs) xs b"
  shows "\<exists>cs. bs = xs @ cs \<and> head_of cs = b"
  using assms
proof (induction xs arbitrary: as bs)
  case (Cons x xs)
  then obtain cs where bs: "bs = x # cs" by (cases bs) auto
  have "raw (nxt m x) = head_of cs" using list_inv_node[of m self as x cs] Cons.prems(1) bs by (metis shared.sel(1))
  with Cons.prems bs have "marked_run m (head_of cs) xs b" "list_inv m self ((as @ [x]) @ cs)" by simp_all
  from Cons.IH[OF this(2,1)] bs show ?case by simp
qed simp

text \<open>Unlinking such a run.\<close>

lemma family_unlink:
  assumes fam: "family home m" and p: "spot home m k p" "nxt m p = Shared a 0" and run: "marked_run m a xs b"
    and m': "m' = set_cell (p, Next) (Shared b 0) m"
  shows "family home m'" "list_map home m' = list_map home m" "linked home m' x \<longleftrightarrow> linked home m x \<and> x \<notin> set xs"
    "distinct xs" "b \<notin> set xs" "y \<in> set xs \<Longrightarrow> linked home m y"
proof -
  from spot_split[OF fam p(1)] obtain as bs where s: "nodes m (home k) = as @ bs" "end_of (home k) as = p"
    "nxt m p = Shared (head_of bs) 0" "list_inv m (home k) (as @ bs)" by metis
  from marked_run_chain[OF s(4)] run s(3) p(2) obtain cs where cs: "bs = xs @ cs" "head_of cs = b" by auto
  have unm: "\<not> marked m (end_of (home k) as)" using p(1) s(2) by (simp add: spot_def)
  have inv: "list_inv m (home k) (as @ xs @ cs)" using s(4) cs by simp
  have u: "list_inv m' (home k) (as @ cs)" "contents m' (as @ cs) = contents m (as @ xs @ cs)"
    unfolding m' s(2)[symmetric] by (rule unlink_run[OF inv unm]; use marked_run_marked[OF run] cs(2) in simp)+
  have nd: "nodes m (home k) = as @ xs @ cs" using s(1) cs by simp
  have pin: "p \<in> set (home k # nodes m (home k))" using p(1) by (simp add: spot_def)
  have h: "\<forall>y\<in>set (as @ cs). home (key_at m y) = home k" using family_home[OF fam, of _ k] nd by auto
  note f = family_set_cell[OF fam pin _ h, of "Shared b 0", folded m', OF u(1)]
  show "family home m'" by (rule f(1))
  have "list_map home m j = contents m (as @ xs @ cs) j" if "home j = home k" for j
    using that nd by (simp add: list_map_def)
  then show "list_map home m' = list_map home m" unfolding f(2) u(2) by auto
  have d: "distinct (as @ xs @ cs)" using inv by (simp add: list_inv_def)
  have l: "linked home m y" if "y \<in> set (as @ xs @ cs)" for y
    using that nd unfolding linked_def by (intro exI[of _ k]) simp
  show "linked home m' x \<longleftrightarrow> linked home m x \<and> x \<notin> set xs" unfolding f(3) nd using d l by auto
  show "distinct xs" using d by simp
  show "linked home m y" if "y \<in> set xs" using that l by simp
  have "0 \<notin> set (as @ xs @ cs)" using inv list_inv_nonnull[of m "home k" "as @ xs @ cs" 0] unfolding list_inv_def by blast
  then show "b \<notin> set xs" using d cs(2) by (cases cs) auto
qed

text \<open>The successor of a linked node, and what it says about the keys in between.\<close>

lemma linked_split:
  assumes fam: "family home m" and c: "linked home m c" "home (key_at m c) = home k"
  obtains as bs where "nodes m (home k) = as @ c # bs" "raw (nxt m c) = head_of bs" "list_inv m (home k) (as @ c # bs)"
proof -
  have "c \<in> set (nodes m (home k))" using linked_home[OF fam c(1)] c(2) by simp
  then obtain as bs where s: "nodes m (home k) = as @ c # bs" by (auto dest: split_list)
  have i: "list_inv m (home k) (as @ c # bs)" using family_inv[OF fam, of k] s by simp
  from list_inv_node[OF i] that s i show thesis by (metis shared.sel(1))
qed

lemma linked_next:
  assumes fam: "family home m" and c: "linked home m c" "home (key_at m c) = home k" and n: "raw (nxt m c) \<noteq> 0"
  shows "linked home m (raw (nxt m c))" "home (key_at m (raw (nxt m c))) = home k"
proof -
  from linked_split[OF fam c] obtain as bs where s: "nodes m (home k) = as @ c # bs" "raw (nxt m c) = head_of bs" .
  with n have "raw (nxt m c) \<in> set (nodes m (home k))" by (cases bs) auto
  then show "linked home m (raw (nxt m c))" "home (key_at m (raw (nxt m c))) = home k"
    by (auto simp: linked_def family_home[OF fam])
qed

lemma linked_key:
  assumes inv: "list_inv m h (as @ c # bs)" and x: "x \<in> set (as @ c # bs)" "key_at m x = key_at m c"
  shows "x = c"
  using inv x by (fastforce simp: list_inv_def sorted_wrt_append)

lemma linked_marked:
  assumes fam: "family home m" and c: "linked home m c" "marked m c"
  shows "list_map home m (key_at m c) = None"
proof -
  from linked_split[OF fam c(1) refl] obtain as bs where s: "nodes m (home (key_at m c)) = as @ c # bs"
    "list_inv m (home (key_at m c)) (as @ c # bs)" .
  have "x = c" if "x \<in> set (as @ c # bs)" "key_at m x = key_at m c" for x by (rule linked_key[OF s(2) that])
  then show ?thesis using c(2) unfolding list_map_def s(1) contents_def map_of_eq_None_iff by fastforce
qed

lemma linked_gap:
  assumes fam: "family home m" and c: "linked home m c" "home (key_at m c) = home k" "key_at m c < k"
    and n: "raw (nxt m c) = 0 \<or> k < key_at m (raw (nxt m c))"
  shows "list_map home m k = None"
proof -
  from linked_split[OF fam c(1,2)] obtain as bs where s: "nodes m (home k) = as @ c # bs" "raw (nxt m c) = head_of bs"
    "list_inv m (home k) (as @ c # bs)" .
  have "list_inv m (home k) ((as @ [c]) @ bs)" using s(3) by simp
  then have "contents m ((as @ [c]) @ bs) k = None"
  proof (rule contents_gap)
    show "key_at m x < k" if "x \<in> set (as @ [c])" for x
      using that s(3) c(3) by (fastforce simp: list_inv_def sorted_wrt_append)
    show "k < key_at m (hd bs)" if "bs \<noteq> []"
    proof -
      have "hd bs \<in> set (as @ c # bs)" "head_of bs = hd bs" using that by (cases bs; auto)+
      moreover from this(1) have "hd bs \<noteq> 0"
        using s(3) list_inv_nonnull[of m "home k" "as @ c # bs" "hd bs"] by (simp add: list_inv_def)
      ultimately show ?thesis using n s(2) by auto
    qed
  qed
  then show ?thesis by (simp add: list_map_def s(1))
qed

lemma family_mark:
  assumes fam: "family home m" and b: "linked home m b" "\<not> marked m b"
    and m': "m' = set_cell (b, Next) (with_tag (nxt m b) 1) m"
  shows "family home m'" "list_map home m' = (list_map home m)(key_at m b := None)"
    "linked home m' a \<longleftrightarrow> linked home m a"
proof -
  let ?k = "key_at m b"
  have "b \<in> set (nodes m (home ?k))" using linked_home[OF fam b(1)] .
  then obtain as bs where s: "nodes m (home ?k) = as @ b # bs" by (auto dest: split_list)
  have inv: "list_inv m (home ?k) (as @ b # bs)" using family_inv[OF fam, of ?k] s by simp
  note i = mark_node[OF inv b(2), folded m']
  have bin: "b \<in> set (home ?k # nodes m (home ?k))" using s by simp
  have h: "\<forall>y\<in>set (as @ b # bs). home (key_at m y) = home ?k"
  proof
    fix y assume "y \<in> set (as @ b # bs)"
    then show "home (key_at m y) = home ?k" using family_home[OF fam, of y ?k] s by simp
  qed
  note f = family_set_cell[OF fam bin _ h, of "with_tag (nxt m b) 1", folded m', OF i(1)]
  show "family home m'" by (rule f(1))
  show "list_map home m' = (list_map home m)(?k := None)"
  proof
    fix j
    show "list_map home m' j = ((list_map home m)(?k := None)) j"
      by (cases "home j = home ?k"; cases "j = ?k") (auto simp add: f(2) i(2) list_map_def[of home m j] s)
  qed
  have "linked home m x" if "x \<in> set (as @ b # bs)" for x using that s by (auto simp: linked_def intro!: exI[of _ ?k])
  then show "linked home m' a \<longleftrightarrow> linked home m a" unfolding f(3) s by auto
qed

lemma family_link:
  assumes fam: "family home m" and p: "spot home m k p" "p \<noteq> home k \<Longrightarrow> key_at m p < k"
    and c: "nxt m p = Shared c 0" "c = 0 \<or> k < key_at m c"
    and a: "obj m a = Some \<lparr>key = k, val = v\<rparr>" "a \<noteq> 0" "a \<notin> statics m" "a \<notin> set (garbage m)" "\<not> linked home m a"
      "nxt m a = Shared c 0"
    and m': "m' = set_cell (p, Next) (Shared a 0) m"
  shows "family home m'" "list_map home m' = (list_map home m)(k \<mapsto> v)" "linked home m' x \<longleftrightarrow> linked home m x \<or> x = a"
proof -
  from spot_split[OF fam p(1)] obtain as bs where s: "nodes m (home k) = as @ bs" "end_of (home k) as = p"
    "nxt m p = Shared (head_of bs) 0" "list_inv m (home k) (as @ bs)"
    "\<And>x. x \<in> set as \<Longrightarrow> p \<noteq> home k \<and> key_at m x \<le> key_at m p" by metis
  have unm: "\<not> marked m (end_of (home k) as)" using p(1) s(2) by (simp add: spot_def)
  have below: "key_at m x < k" if "x \<in> set as" for x using s(5)[OF that] p(2) by (meson order_le_less_trans)
  have hd: "k < key_at m (hd bs)" if "bs \<noteq> []"
  proof -
    have "hd bs \<in> set (as @ bs)" "head_of bs = hd bs" using that by (cases bs; auto)+
    moreover from this(1) have "hd bs \<noteq> 0"
      using s(4) list_inv_nonnull[of m "home k" "as @ bs" "hd bs"] by (simp add: list_inv_def)
    ultimately show ?thesis using c s(3) by auto
  qed
  have new: "a \<notin> set (as @ bs)" using a(5) s(1) by (metis linked_def)
  have same: "set_cell (a, Next) (Shared (head_of bs) 0) m = m"
    using a(6) c(1) s(3) by (intro mem_eqI) (simp_all add: fun_upd_idem)
  note l = link_gap[OF s(4) below hd unm a(1-4) new refl, unfolded same s(2), folded m']
  have i: "list_inv m' (home k) (as @ a # bs)" "contents m' (as @ a # bs) = (contents m (as @ bs))(k \<mapsto> v)"
    by (rule l; assumption)+
  have pin: "p \<in> set (home k # nodes m (home k))" using p(1) by (simp add: spot_def)
  have h: "\<forall>y\<in>set (as @ a # bs). home (key_at m y) = home k"
    using family_home[OF fam, of _ k] s(1) a(1) by (auto simp: key_at_def)
  note f = family_set_cell[OF fam pin _ h, of "Shared a 0", folded m', OF i(1)]
  show "family home m'" by (rule f(1))
  show "list_map home m' = (list_map home m)(k \<mapsto> v)"
  proof
    fix j
    show "list_map home m' j = ((list_map home m)(k \<mapsto> v)) j"
      by (cases "home j = home k"; cases "j = k") (auto simp add: f(2) i(2) list_map_def[of home m j] s(1))
  qed
  have "linked home m y" if "y \<in> set (as @ bs)" for y using that s(1) by (auto simp: linked_def intro!: exI[of _ k])
  then show "linked home m' x \<longleftrightarrow> linked home m x \<or> x = a" unfolding f(3) s(1) by auto
qed

end
