(* ===== verification/List_Moves.thy ===== *)
theory List_Moves
  imports Owned_Nodes List_Family
begin

text \<open>
  The lists of \<^verbatim>\<open>src/src/ebr/list.rs\<close>, or the buckets of a hash map, under any number of threads: what threads that
  search, link, mark and unlink keep of them.  The ghost state says which nodes a thread has allocated and not linked
  yet, and which it has unlinked and not retired yet.
\<close>

section \<open>The invariant\<close>

type_synonym ('k, 'v) lworld = "(list_field, ('k, 'v) node, 'k, 'v, ghost) world"

text \<open>The linked nodes are the structure; what is neither linked nor private is marked (with the tag 1).\<close>

definition hm_ok ::
  "('k::linorder \<Rightarrow> addr) \<Rightarrow> (tid \<Rightarrow> nat option) \<Rightarrow> ('k, 'v) list_mem \<Rightarrow> ghost \<Rightarrow> bool" where
  "hm_ok home P m g \<longleftrightarrow> family home m \<and> owns m g {a. linked home m a} \<and>
     (\<forall>a. obj m a \<noteq> None \<longrightarrow> (\<forall>t. a \<notin> priv g t) \<longrightarrow> linked home m a \<or> tag (nxt m a) = 1) \<and>
     (\<forall>t n. P t = Some n \<longrightarrow> n \<le> length (retired m))"

text \<open>The answers that are right without a change, when the map has \<open>x\<close> at the key of the request.\<close>

fun now_at :: "('k, 'v) request \<Rightarrow> 'v option \<Rightarrow> 'v response set" where
  "now_at (Get_req k) x = {Got x}"
| "now_at (Insert_req k v) x = (if x = None then {} else {Inserted False})"
| "now_at (Remove_req k) x = (if x = None then {Removed None} else {})"

lemma now_at: "now_at q (A (req_key q)) \<subseteq> right q A"
  by (cases q) (auto simp: right_def fun_upd_idem)

text \<open>A call that has had no effect knows the answers that are right at this moment.\<close>

definition heard :: "('k::linorder \<Rightarrow> addr) \<Rightarrow> ('k, 'v) lworld \<Rightarrow> bool" where
  "heard home w \<longleftrightarrow> (\<forall>t q C. w_call w t = Some (q, C, None) \<longrightarrow> now_at q (list_map home (w_mem w) (req_key q)) \<subseteq> C)"

definition hm_inv :: "('k::linorder \<Rightarrow> addr) \<Rightarrow> ('k, 'v) lworld \<Rightarrow> bool" where
  "hm_inv home w \<longleftrightarrow> hm_ok home (w_pins w) (w_mem w) (w_ghost w) \<and> heard home w"

definition hm_idle :: "tid \<Rightarrow> ('k, 'v) lworld \<Rightarrow> bool" where
  "hm_idle t w \<longleftrightarrow> held (w_ghost w) t = {}"

text \<open>
  What the others do not do to thread \<open>t\<close>: they leave the nodes it holds alone, and every node it may follow
  stays such a node, keeps its key and value, and stays marked with the same successor once it is marked.
\<close>

definition harmless ::
  "tid \<Rightarrow> nat option \<Rightarrow> ('k, 'v) list_mem \<Rightarrow> ghost \<Rightarrow> ('k, 'v) list_mem \<Rightarrow> ghost \<Rightarrow> bool" where
  "harmless t pn m g m' g' \<longleftrightarrow> statics m' = statics m \<and> priv g' t = priv g t \<and> pend g' t = pend g t \<and>
     (\<forall>a\<in>held g t. obj m' a = obj m a \<and> nxt m' a = nxt m a) \<and>
     (\<forall>n a. pn = Some n \<longrightarrow> protected n m g a \<longrightarrow>
        protected n m' g' a \<and> obj m' a = obj m a \<and> (marked m a \<longrightarrow> nxt m' a = nxt m a))"

lemma harmless_refl: "harmless t pn m g m g"
  by (simp add: harmless_def)

lemma harmlessI:
  assumes "statics m' = statics m" "priv g' u = priv g u" "pend g' u = pend g u"
    and "\<And>a. a \<in> held g u \<Longrightarrow> obj m' a = obj m a \<and> nxt m' a = nxt m a"
    and "\<And>n. pn = Some n \<Longrightarrow> keeps n m g m' g'" "\<And>a. obj m a \<noteq> None \<Longrightarrow> nxt m' a = nxt m a"
  shows "harmless u pn m g m' g'"
proof -
  have "protected n m' g' a \<and> obj m' a = obj m a \<and> nxt m' a = nxt m a" if "pn = Some n" "protected n m g a" for n a
    using assms(5)[OF that(1)] assms(6)[of a] that(2) by (simp add: keeps_def protected_def)
  with assms(1-4) show ?thesis unfolding harmless_def by blast
qed

lemma harmless_trans:
  assumes "harmless t pn m g m1 g1" "harmless t pn m1 g1 m2 g2"
  shows "harmless t pn m g m2 g2"
proof -
  have "obj m2 a = obj m a \<and> nxt m2 a = nxt m a" if "a \<in> held g t" for a
    using assms that by (simp add: harmless_def held_def)
  moreover have "protected n m2 g2 a \<and> obj m2 a = obj m a \<and> (marked m a \<longrightarrow> nxt m2 a = nxt m a)"
    if "pn = Some n" "protected n m g a" for n a
  proof -
    have 1: "protected n m1 g1 a" "obj m1 a = obj m a" "marked m a \<Longrightarrow> nxt m1 a = nxt m a"
      using assms(1) that unfolding harmless_def by blast+
    then have "protected n m2 g2 a" "obj m2 a = obj m1 a" "marked m1 a \<Longrightarrow> nxt m2 a = nxt m1 a"
      using assms(2) that unfolding harmless_def by blast+
    with 1 show ?thesis by (auto simp: marked_def)
  qed
  ultimately show ?thesis using assms by (simp add: harmless_def)
qed

lemma hm_okI:
  assumes "family home m" "owns m g {a. linked home m a}"
    and "\<And>a. obj m a \<noteq> None \<Longrightarrow> (\<And>t. a \<notin> priv g t) \<Longrightarrow> linked home m a \<or> tag (nxt m a) = 1"
    and "\<And>t n. P t = Some n \<Longrightarrow> n \<le> length (retired m)"
  shows "hm_ok home P m g"
  unfolding hm_ok_def using assms by blast

lemma hm_okD:
  assumes "hm_ok home P m g"
  shows "family home m" "garbage_ok m"
    "a \<in> held g t \<Longrightarrow> obj m a \<noteq> None \<and> a \<notin> statics m \<and> a \<notin> set (garbage m) \<and> a \<noteq> 0 \<and> \<not> linked home m a"
    "a \<in> held g t \<Longrightarrow> a \<in> held g u \<Longrightarrow> t = u"
    "a \<in> priv g t \<Longrightarrow> a \<notin> pend g u"
    "obj m a \<noteq> None \<Longrightarrow> (\<And>t. a \<notin> priv g t) \<Longrightarrow> linked home m a \<or> tag (nxt m a) = 1"
    "P t = Some n \<Longrightarrow> n \<le> length (retired m)"
    "owns m g {a. linked home m a}"
proof -
  show fam: "family home m" using assms by (simp add: hm_ok_def)
  then show "garbage_ok m" by (rule family_garbage)
  show o: "owns m g {a. linked home m a}" using assms by (simp add: hm_ok_def)
  show "a \<in> held g t \<Longrightarrow> obj m a \<noteq> None \<and> a \<notin> statics m \<and> a \<notin> set (garbage m) \<and> a \<noteq> 0 \<and> \<not> linked home m a"
    "a \<in> held g t \<Longrightarrow> a \<in> held g u \<Longrightarrow> t = u" using ownsD(1,2)[OF o] by auto
  show "a \<in> priv g t \<Longrightarrow> a \<notin> pend g u" by (rule owns_private[OF o])
qed (use assms in \<open>auto simp: hm_ok_def\<close>)

section \<open>Moves\<close>

text \<open>Only marked nodes are unlinked.\<close>

definition unlinks_marked :: "('k \<Rightarrow> addr) \<Rightarrow> ('k, 'v) list_mem \<Rightarrow> ('k, 'v) list_mem \<Rightarrow> bool" where
  "unlinks_marked home m m' \<longleftrightarrow> (\<forall>a. linked home m a \<longrightarrow> linked home m' a \<or> marked m a)"

text \<open>Each change of memory that a thread makes keeps the invariant and is harmless to the others.\<close>

lemma hm_reclaim:
  assumes ok: "hm_ok home P m g" and sp: "spares S P' m"
  shows "hm_ok home P (reclaim S m) g" "list_map home (reclaim S m) = list_map home m"
    "P' v = pn \<Longrightarrow> harmless u pn m g (reclaim S m) g"
    "unlinks_marked home m (reclaim S m)"
proof -
  note d = hm_okD[OF ok]
  have f: "family home (reclaim S m)" "list_map home (reclaim S m) = list_map home m"
    "\<And>x. linked home (reclaim S m) x \<longleftrightarrow> linked home m x"
    by (rule family_outside[OF d(1)]; use family_node[OF d(1)] d(2) in \<open>auto simp: restrict_map_def\<close>)+
  show "unlinks_marked home m (reclaim S m)" using f(3) by (simp add: unlinks_marked_def)
  show "list_map home (reclaim S m) = list_map home m" by (rule f(2))
  show "hm_ok home P (reclaim S m) g"
    by (rule hm_okI[OF f(1)]) (use owns_reclaim[OF d(8)] d(6,7) f(3) in \<open>auto simp: restrict_map_def split: if_splits\<close>)
  have "obj (reclaim S m) a = obj m a" if "a \<in> held g u" for a using d(3)[OF that] by (simp add: restrict_map_def)
  then show "harmless u pn m g (reclaim S m) g" if "P' v = pn" by (intro harmlessI) (use that keeps_reclaim[OF sp] in auto)
qed

lemma hm_retire:
  assumes ok: "hm_ok home P m g" and a: "a \<in> pend g t" and g': "g' = g\<lparr>pend := (pend g)(t := pend g t - {a})\<rparr>"
  shows "hm_ok home P (retire a m) g'" "list_map home (retire a m) = list_map home m"
    "u \<noteq> t \<Longrightarrow> P v = pn \<Longrightarrow> harmless u pn m g (retire a m) g'"
    "unlinks_marked home m (retire a m)"
proof -
  note d = hm_okD[OF ok]
  have "a \<in> held g t" using a by (simp add: held_def)
  note da = d(3)[OF this]
  have f: "family home (retire a m)" "list_map home (retire a m) = list_map home m"
    "\<And>x. linked home (retire a m) x \<longleftrightarrow> linked home m x"
    by (rule family_outside[OF d(1)]; use family_node[OF d(1)] d(2) da in \<open>auto intro!: garbage_ok_retire\<close>)+
  show "unlinks_marked home m (retire a m)" using f(3) by (simp add: unlinks_marked_def)
  show "list_map home (retire a m) = list_map home m" by (rule f(2))
  show "hm_ok home P (retire a m) g'"
  proof (rule hm_okI[OF f(1)], goal_cases)
    case (3 t n)
    then show ?case using d(7) by fastforce
  qed (use owns_retire[OF d(8) a g'] d(6) f(3) g' in auto)
  show "harmless u pn m g (retire a m) g'" if "u \<noteq> t" "P v = pn"
    using d(7)[of v] g' that by (auto simp: harmless_def protected_def)
qed

lemma hm_alloc:
  assumes ok: "hm_ok home P m g" and a: "fresh m a" and g': "g' = g\<lparr>priv := (priv g)(t := insert a (priv g t))\<rparr>"
  shows "hm_ok home P (alloc a x fs m) g'" "list_map home (alloc a x fs m) = list_map home m"
    "u \<noteq> t \<Longrightarrow> harmless u pn m g (alloc a x fs m) g'"
    "unlinks_marked home m (alloc a x fs m)"
proof -
  let ?m = "alloc a x fs m"
  note d = hm_okD[OF ok]
  have fa: "a \<noteq> 0" "obj m a = None" "a \<notin> statics m" using a by (auto simp: fresh_def)
  have nh: "a \<noteq> home j" for j using family_head[OF d(1), of j] fa by auto
  have nl: "\<not> linked home m a" using family_node(1)[OF d(1), of a] fa by auto
  have ng: "a \<notin> set (garbage m)" using garbage_ok_fresh[OF d(2) a] .
  have f: "family home ?m" "list_map home ?m = list_map home m" "\<And>y. linked home ?m y \<longleftrightarrow> linked home m y"
    by (rule family_outside[OF d(1)]; use nh nl family_node[OF d(1)] d(2) in \<open>auto intro: garbage_ok_alloc\<close>)+
  show "unlinks_marked home m (alloc a x fs m)" using f(3) by (simp add: unlinks_marked_def)
  show "list_map home ?m = list_map home m" by (rule f(2))
  show "hm_ok home P ?m g'"
  proof (rule hm_okI[OF f(1)], goal_cases)
    case 1
    then show ?case using owns_alloc[OF d(8) a ng _ g', of x fs] nl f(3) by simp
  next
    case (2 y)
    have "y \<noteq> a" using 2(2)[of t] g' by auto
    moreover have "y \<notin> priv g v" for v using 2(2)[of v] g' by (auto split: if_splits)
    ultimately show ?case using d(6)[of y] 2(1) f(3) by auto
  qed (use d(7) in auto)
  have ne: "obj ?m y = obj m y" "nxt ?m y = nxt m y" if "obj m y \<noteq> None" for y using that fa by (auto simp: init_cells_def)
  show "harmless u pn m g ?m g'" if "u \<noteq> t"
    by (rule harmlessI) (use d(3)[of _ u] ne that g' keeps_alloc[OF a g'] in simp_all)
qed

lemma hm_private_cell:
  assumes ok: "hm_ok home P m g" and a: "a \<in> priv g t"
  shows "hm_ok home P (set_cell (a, Next) q m) g" "list_map home (set_cell (a, Next) q m) = list_map home m"
    "u \<noteq> t \<Longrightarrow> harmless u pn m g (set_cell (a, Next) q m) g"
    "unlinks_marked home m (set_cell (a, Next) q m)"
proof -
  let ?m = "set_cell (a, Next) q m"
  note d = hm_okD[OF ok]
  have ah: "a \<in> held g t" using a by (simp add: held_def)
  have nh: "a \<noteq> home j" for j using family_head[OF d(1), of j] d(3)[OF ah] by auto
  have f: "family home ?m" "list_map home ?m = list_map home m" "\<And>y. linked home ?m y \<longleftrightarrow> linked home m y"
    by (rule family_outside[OF d(1)]; use nh d(3)[OF ah] family_node[OF d(1)] d(2) in auto)+
  show "unlinks_marked home m (set_cell (a, Next) q m)" using f(3) by (simp add: unlinks_marked_def)
  show "list_map home ?m = list_map home m" by (rule f(2))
  show "hm_ok home P ?m g" by (rule hm_okI[OF f(1)]) (use f(3) a d(6,7,8) in auto)
  show "harmless u pn m g ?m g" if "u \<noteq> t"
    using d(4)[OF ah, of u] that a by (auto simp: harmless_def protected_def)
qed

lemma hm_free:
  assumes ok: "hm_ok home P m g" and a: "a \<in> priv g t" and g': "g' = g\<lparr>priv := (priv g)(t := priv g t - {a})\<rparr>"
  shows "hm_ok home P (free a m) g'" "list_map home (free a m) = list_map home m"
    "u \<noteq> t \<Longrightarrow> harmless u pn m g (free a m) g'"
    "unlinks_marked home m (free a m)"
proof -
  let ?m = "free a m"
  note d = hm_okD[OF ok]
  have ah: "a \<in> held g t" using a by (simp add: held_def)
  have f: "family home ?m" "list_map home ?m = list_map home m" "\<And>y. linked home ?m y \<longleftrightarrow> linked home m y"
    by (rule family_outside[OF d(1)]; use d(3)[OF ah] family_node[OF d(1)] d(2) in \<open>auto intro: garbage_ok_free\<close>)+
  show "unlinks_marked home m (free a m)" using f(3) by (simp add: unlinks_marked_def)
  show "list_map home ?m = list_map home m" by (rule f(2))
  show "hm_ok home P ?m g'"
  proof (rule hm_okI[OF f(1)], goal_cases)
    case 1
    then show ?case using owns_free[OF d(8) a g'] f(3) by simp
  next
    case (2 x)
    then have x: "x \<noteq> a" "obj m x \<noteq> None" by (auto split: if_splits)
    have "x \<notin> priv g v" for v using 2(2)[of v] x(1) g' by (auto split: if_splits)
    then show ?case using d(6)[OF x(2)] f(3) by auto
  qed (use d(7) in auto)
  show "harmless u pn m g ?m g'" if "u \<noteq> t"
    using d(4)[OF ah, of u] that a g' by (auto simp: harmless_def protected_def)
qed

lemma hm_drop_val:
  assumes ok: "hm_ok home P m g"
  shows "hm_ok home P (drop_val a m) g" "list_map home (drop_val a m) = list_map home m" "harmless u pn m g (drop_val a m) g"
    "unlinks_marked home m (drop_val a m)"
proof -
  note d = hm_okD[OF ok]
  have f: "family home (drop_val a m)" "list_map home (drop_val a m) = list_map home m"
    "\<And>y. linked home (drop_val a m) y \<longleftrightarrow> linked home m y"
    by (rule family_outside[OF d(1)]; use family_node[OF d(1)] d(2) in auto)+
  show "unlinks_marked home m (drop_val a m)" using f(3) by (simp add: unlinks_marked_def)
  show "list_map home (drop_val a m) = list_map home m" by (rule f(2))
  show "hm_ok home P (drop_val a m) g" by (rule hm_okI[OF f(1)]) (use d(6,7,8) f(3) in simp_all)
  show "harmless u pn m g (drop_val a m) g" by (auto simp: harmless_def protected_def marked_def)
qed

text \<open>Changing a link that all threads can see: it was not marked, and no thread holds the node it belongs to.\<close>

lemma harmless_cell:
  assumes "\<not> marked m p" "p \<notin> held g u" "priv g' u = priv g u" "pend g' u = pend g u" "\<And>v. priv g' v \<subseteq> priv g v"
  shows "harmless u pn m g (set_cell (p, Next) q m) g'"
proof -
  have "x \<notin> priv g' v" if "\<forall>t. x \<notin> priv g t" for x v using assms(5) that by blast
  with assms show ?thesis by (auto simp: harmless_def protected_def)
qed

lemma hm_mark:
  assumes ok: "hm_ok home P m g" and b: "linked home m b" "\<not> marked m b"
    and m': "m' = set_cell (b, Next) (with_tag (nxt m b) 1) m"
  shows "hm_ok home P m' g" "list_map home m' = (list_map home m)(key_at m b := None)" "harmless u pn m g m' g"
    "unlinks_marked home m m'"
proof -
  note d = hm_okD[OF ok]
  note f = family_mark[OF d(1) b m']
  show "unlinks_marked home m m'" using f(3) by (simp add: unlinks_marked_def)
  show "list_map home m' = (list_map home m)(key_at m b := None)" by (rule f(2))
  have bh: "b \<notin> held g v" for v using d(3)[of b v] b(1) by auto
  have "tag (nxt m' x) = 1" if "tag (nxt m x) = 1" for x using that by (auto simp: m')
  then have "linked home m' x \<or> tag (nxt m' x) = 1" if "obj m x \<noteq> None" "\<And>t. x \<notin> priv g t" for x
    using d(6)[OF that] f(3)[of x] by blast
  moreover have "owns m' g {a. linked home m' a}" using d(8) f(3) by (simp add: m')
  ultimately show "hm_ok home P m' g" by (intro hm_okI[OF f(1)]) (use d(7) in \<open>auto simp: m'\<close>)
  show "harmless u pn m g m' g" unfolding m' by (rule harmless_cell) (use b bh in auto)
qed

lemma linked_owned:
  assumes "hm_ok home P m g" "a \<in> {a. linked home m a}"
  shows "obj m a \<noteq> None \<and> a \<notin> statics m \<and> a \<notin> set (garbage m) \<and> a \<noteq> 0"
  using family_node[OF hm_okD(1)[OF assms(1)], of a] assms(2) by auto

lemma spot_not_held:
  assumes "hm_ok home P m g" "spot home m k p"
  shows "p \<notin> held g v"
proof -
  have "p = home k \<or> linked home m p" using assms(2) by (auto simp: spot_def linked_def)
  then show ?thesis using hm_okD(3)[OF assms(1), of p v] family_head[OF hm_okD(1)[OF assms(1)], of k] by auto
qed

lemma hm_unlink:
  assumes ok: "hm_ok home P m g" and p: "spot home m k p" "nxt m p = Shared a 0" and run: "marked_run m a xs b"
    and m': "m' = set_cell (p, Next) (Shared b 0) m" and g': "g' = g\<lparr>pend := (pend g)(t := pend g t \<union> set xs)\<rparr>"
  shows "hm_ok home P m' g'" "list_map home m' = list_map home m" "u \<noteq> t \<Longrightarrow> harmless u pn m g m' g'"
    "unlinks_marked home m m'" "distinct xs" "b \<notin> set xs"
proof -
  note d = hm_okD[OF ok]
  note f = family_unlink[OF d(1) p run m']
  note mk = marked_run_marked[OF run]
  show "list_map home m' = list_map home m" "distinct xs" "b \<notin> set xs" by (rule f)+
  show "unlinks_marked home m m'" using f(3) mk by (auto simp: unlinks_marked_def)
  have um: "\<not> marked m p" using p(1) by (simp add: spot_def)
  have ch: "c \<notin> held g v" if "c \<in> set xs" for v c using d(3)[of c v] f(6)[OF that] by auto
  have g2: "g' = g\<lparr>priv := (priv g)(t := priv g t), pend := (pend g)(t := pend g t \<union> set xs)\<rparr>" by (simp add: g')
  show "hm_ok home P m' g'"
  proof (rule hm_okI[OF f(1)], goal_cases)
    case 1
    show ?case
      unfolding m' owns_set_cell
    proof (rule owns_exchange[OF d(8) linked_owned[OF ok] _ _ _ g2])
      show "{a. linked home (set_cell (p, Next) (Shared b 0) m) a} \<union> (priv g t \<union> (pend g t \<union> set xs)) = {a. linked home m a} \<union> held g t"
        using f(3)[unfolded m'] f(6) by (auto simp: held_def)
      show "{a. linked home (set_cell (p, Next) (Shared b 0) m) a} \<inter> (priv g t \<union> (pend g t \<union> set xs)) = {}"
        using f(3)[unfolded m'] d(3)[of _ t] by (auto simp: held_def)
      show "priv g t \<inter> (pend g t \<union> set xs) = {}" using d(5)[of _ t t] ch[of _ t] by (auto simp: held_def)
    qed
  next
    case (2 y)
    then have y: "obj m y \<noteq> None" by (simp add: m')
    show ?case
    proof (cases "tag (nxt m y) = 1")
      case True
      then have "y \<noteq> p" using um by (auto simp: marked_def)
      then show ?thesis using True by (simp add: m')
    next
      case False
      then have li: "linked home m y" using d(6)[OF y] 2(2) g' by auto
      with False have "\<not> marked m y" using family_node(5)[OF d(1) li] by (auto simp: marked_def le_Suc_eq)
      then have "y \<notin> set xs" using mk by blast
      with li show ?thesis using f(3) by simp
    qed
  qed (use d(7) in \<open>auto simp: m'\<close>)
  show "harmless u pn m g m' g'" if "u \<noteq> t"
    unfolding m' by (rule harmless_cell[OF um spot_not_held[OF ok p(1)]]) (use g' that in auto)
qed

lemma hm_link:
  assumes ok: "hm_ok home P m g" and p: "spot home m k p" "p \<noteq> home k \<longrightarrow> key_at m p < k"
    and c: "nxt m p = Shared c 0" "c = 0 \<or> k < key_at m c"
    and a: "a \<in> priv g t" "obj m a = Some \<lparr>key = k, val = v\<rparr>" "nxt m a = Shared c 0"
    and m': "m' = set_cell (p, Next) (Shared a 0) m" and g': "g' = g\<lparr>priv := (priv g)(t := priv g t - {a})\<rparr>"
  shows "hm_ok home P m' g'" "list_map home m' = (list_map home m)(k \<mapsto> v)" "u \<noteq> t \<Longrightarrow> harmless u pn m g m' g'"
    "unlinks_marked home m m'"
proof -
  note d = hm_okD[OF ok]
  have ah: "a \<in> held g t" using a by (simp add: held_def)
  note da = d(3)[OF ah]
  have f: "family home m'" "list_map home m' = (list_map home m)(k \<mapsto> v)" "\<And>x. linked home m' x \<longleftrightarrow> linked home m x \<or> x = a"
    using family_link[OF d(1) p(1) _ c a(2) _ _ _ _ a(3) m'] p(2) da by auto
  show "unlinks_marked home m m'" using f(3) by (simp add: unlinks_marked_def)
  show "list_map home m' = (list_map home m)(k \<mapsto> v)" by (rule f(2))
  have um: "\<not> marked m p" using p(1) by (simp add: spot_def)
  have g2: "g' = g\<lparr>priv := (priv g)(t := priv g t - {a}), pend := (pend g)(t := pend g t)\<rparr>" by (simp add: g')
  show "hm_ok home P m' g'"
  proof (rule hm_okI[OF f(1)], goal_cases)
    case 1
    show ?case
      unfolding m' owns_set_cell
    proof (rule owns_exchange[OF d(8) linked_owned[OF ok] _ _ _ g2])
      show "{b. linked home (set_cell (p, Next) (Shared a 0) m) b} \<union> (priv g t - {a} \<union> pend g t) = {a. linked home m a} \<union> held g t"
        using f(3)[unfolded m'] a(1) by (auto simp: held_def)
      show "{b. linked home (set_cell (p, Next) (Shared a 0) m) b} \<inter> (priv g t - {a} \<union> pend g t) = {}"
        using f(3)[unfolded m'] d(3)[of _ t] d(5)[OF a(1), of t] by (auto simp: held_def)
      show "(priv g t - {a}) \<inter> pend g t = {}" using d(5)[of _ t t] by blast
    qed
  next
    case (2 x)
    show ?case
    proof (cases "x = a \<or> tag (nxt m x) = 1")
      case True
      have "tag (nxt m' x) = 1" if "tag (nxt m x) = 1" using that um by (auto simp: m' marked_def)
      then show ?thesis using f(3)[of x] True by blast
    next
      case False
      have "x \<notin> priv g w" for w using False 2(2)[of w] g' by (auto split: if_splits)
      moreover have "obj m x \<noteq> None" using 2(1) by (simp add: m')
      ultimately show ?thesis using d(6)[of x] False f(3)[of x] by blast
    qed
  qed (use d(7) in \<open>auto simp: m'\<close>)
  show "harmless u pn m g m' g'" if "u \<noteq> t"
    unfolding m' by (rule harmless_cell[OF um spot_not_held[OF ok p(1)]]) (use g' that in auto)
qed

section \<open>Routes\<close>

text \<open>
  What a thread that is pinned at \<open>n\<close> and searches for \<open>k\<close> relies on when it stands at the address \<open>a\<close>, whether or
  not the node there is still linked: a chain of nodes that it may follow leads to nodes that are linked.  \<open>N\<close> says that the
  thread knows a moment at which \<open>k\<close> was absent; it holds as soon as the thread stands behind \<open>k\<close>, or on a node with the
  key \<open>k\<close> that is not linked any more.
\<close>

coinductive route ::
  "('k::linorder \<Rightarrow> addr) \<Rightarrow> 'k \<Rightarrow> nat \<Rightarrow> ('k, 'v) list_mem \<Rightarrow> ghost \<Rightarrow> bool \<Rightarrow> addr \<Rightarrow> bool"
  for home k n m g N where
  route_null: "N \<Longrightarrow> route home k n m g N 0"
| route_node: "a \<noteq> 0 \<Longrightarrow> protected n m g a \<Longrightarrow> home (key_at m a) = home k \<Longrightarrow> (k < key_at m a \<longrightarrow> N) \<Longrightarrow>
    (\<not> linked home m a \<longrightarrow> (key_at m a = k \<longrightarrow> N) \<and> route home k n m g N (raw (nxt m a))) \<Longrightarrow> route home k n m g N a"

lemma route_end: "route home k n m g N 0 \<Longrightarrow> N"
  by (erule route.cases) auto

lemma route_at:
  assumes "route home k n m g N a" "a \<noteq> 0"
  shows "protected n m g a" "home (key_at m a) = home k" "k < key_at m a \<Longrightarrow> N"
    "\<not> linked home m a \<Longrightarrow> key_at m a = k \<Longrightarrow> N" "\<not> linked home m a \<Longrightarrow> route home k n m g N (raw (nxt m a))"
  using assms by (auto elim: route.cases)

definition follows :: "nat \<Rightarrow> ('k, 'v) list_mem \<Rightarrow> ghost \<Rightarrow> ('k, 'v) list_mem \<Rightarrow> ghost \<Rightarrow> bool" where
  "follows n m g m' g' \<longleftrightarrow> (\<forall>a. protected n m g a \<longrightarrow>
     protected n m' g' a \<and> obj m' a = obj m a \<and> (marked m a \<longrightarrow> nxt m' a = nxt m a))"

lemma harmless_follows: "harmless u (Some n) m g m' g' \<Longrightarrow> follows n m g m' g'"
  by (simp add: harmless_def follows_def)

lemma follows_refl [simp]: "follows n m g m g"
  by (simp add: follows_def)

lemma follows_key: "follows n m g m' g' \<Longrightarrow> protected n m g a \<Longrightarrow> key_at m' a = key_at m a \<and> val_at m' a = val_at m a"
  by (simp add: follows_def key_at_def val_at_def)

lemma linked_protected:
  assumes "hm_ok home P m g" "linked home m a"
  shows "protected n m g a"
proof -
  note d = hm_okD[OF assms(1)]
  have "a \<notin> priv g t" for t using d(3)[of a t] assms(2) by (auto simp: held_def)
  then show ?thesis using family_node[OF d(1) assms(2)] by (auto simp: protected_def)
qed

lemma protected_linked:
  assumes "hm_ok home P m g" "protected n m g a" "\<not> marked m a"
  shows "linked home m a"
  using hm_okD(6)[OF assms(1), of a] assms(2,3) by (auto simp: protected_def marked_def)

text \<open>The route goes on behind a linked node.\<close>

lemma route_linked:
  assumes ok: "hm_ok home P m g" and a: "linked home m a" "home (key_at m a) = home k" "k < key_at m a \<longrightarrow> N"
  shows "route home k n m g N a"
  by (rule route_node) (use a linked_protected[OF ok] family_node[OF hm_okD(1)[OF ok] a(1)] in auto)

lemma route_next:
  assumes ok: "hm_ok home P m g" and a: "linked home m a" "home (key_at m a) = home k"
    and N: "list_map home m k = None \<Longrightarrow> N" and k: "key_at m a < k \<or> N"
  shows "route home k n m g N (raw (nxt m a))"
proof -
  note fam = hm_okD(1)[OF ok]
  have gap: "raw (nxt m a) = 0 \<or> k < key_at m (raw (nxt m a)) \<Longrightarrow> N" using k N linked_gap[OF fam a] by auto
  show ?thesis
  proof (cases "raw (nxt m a) = 0")
    case True
    with gap route_null show ?thesis by simp
  next
    case False
    show ?thesis by (rule route_linked[OF ok linked_next[OF fam a False]]) (use gap in blast)
  qed
qed

lemma route_step:
  assumes ok: "hm_ok home P m g" and f: "follows n m g m' g'" and un: "unlinks_marked home m m'"
    and N: "list_map home m k = None \<Longrightarrow> N" "N \<Longrightarrow> N'" and r: "route home k n m g N a"
  shows "route home k n m' g' N' a"
  using r
proof (coinduction arbitrary: a rule: route.coinduct)
  case (route a)
  note fam = hm_okD(1)[OF ok]
  show ?case
  proof (cases "a = 0")
    case False
    note r = route_at[OF route False]
    have a': "protected n m' g' a" "key_at m' a = key_at m a" "marked m a \<Longrightarrow> nxt m' a = nxt m a"
      using f r(1) follows_key[OF f r(1)] by (auto simp: follows_def)
    have "(key_at m a = k \<longrightarrow> N) \<and> route home k n m g N (raw (nxt m' a))" if nl: "\<not> linked home m' a"
    proof (cases "linked home m a")
      case True
      then have mk: "marked m a" using un nl by (auto simp: unlinks_marked_def)
      have at_k: "N" if "key_at m a = k" using linked_marked[OF fam True mk] N(1) that by simp
      then have "key_at m a < k \<or> N" using r(3) by (cases "key_at m a" k rule: linorder_cases) auto
      from route_next[OF ok True r(2) N(1) this] at_k a'(3)[OF mk] show ?thesis by auto
    next
      case unl: False
      then have "marked m a" using protected_linked[OF ok r(1)] by blast
      with r(4,5)[OF unl] a'(3) show ?thesis by auto
    qed
    with False a'(1,2) r(2,3) N(2) show ?thesis by auto
  qed (use route route_end N(2) in blast)
qed

section \<open>What the others do\<close>

definition on_route :: "('k::linorder \<Rightarrow> addr) \<Rightarrow> tid \<Rightarrow> ('k, 'v) lworld \<Rightarrow> addr \<Rightarrow> bool" where
  "on_route home t w a \<longleftrightarrow> (\<exists>q C n. w_call w t = Some (q, C, None) \<and> w_pins w t = Some n \<and>
     route home (req_key q) n (w_mem w) (w_ghost w) (now_at q None \<subseteq> C) a)"

text \<open>Thread \<open>t\<close> can rely on this: it may learn of right answers, and it stays on its route.\<close>

definition hm_rely :: "('k::linorder \<Rightarrow> addr) \<Rightarrow> tid \<Rightarrow> ('k, 'v) lworld \<Rightarrow> ('k, 'v) lworld \<Rightarrow> bool" where
  "hm_rely home t w w' \<longleftrightarrow> hm_inv home w' \<and> learns (w_call w t) (w_call w' t) \<and> w_pins w' t = w_pins w t \<and>
     harmless t (w_pins w t) (w_mem w) (w_ghost w) (w_mem w') (w_ghost w') \<and>
     (\<forall>a. on_route home t w a \<longrightarrow> on_route home t w' a)"

lemma hm_relyI:
  assumes inv: "hm_inv home w" "hm_inv home w'" and c: "learns (w_call w t) (w_call w' t)" and p: "w_pins w' t = w_pins w t"
    and h: "harmless t (w_pins w t) (w_mem w) (w_ghost w) (w_mem w') (w_ghost w')" and un: "unlinks_marked home (w_mem w) (w_mem w')"
  shows "hm_rely home t w w'"
proof -
  have "on_route home t w' a" if "on_route home t w a" for a
  proof -
    from that obtain q C n where w: "w_call w t = Some (q, C, None)" "w_pins w t = Some n"
      "route home (req_key q) n (w_mem w) (w_ghost w) (now_at q None \<subseteq> C) a" by (auto simp: on_route_def)
    from c w(1) obtain C' where C': "w_call w' t = Some (q, C', None)" "C \<subseteq> C'" by (auto simp: learns_def)
    have ok: "hm_ok home (w_pins w) (w_mem w) (w_ghost w)" and N: "list_map home (w_mem w) (req_key q) = None \<Longrightarrow> now_at q None \<subseteq> C"
      using inv(1) w(1) by (force simp: hm_inv_def heard_def)+
    have "route home (req_key q) n (w_mem w') (w_ghost w') (now_at q None \<subseteq> C') a"
      by (rule route_step[OF ok _ un N _ w(3)]) (use h w(2) C'(2) in \<open>auto intro: harmless_follows\<close>)
    then show ?thesis using C'(1) p w(2) by (auto simp: on_route_def)
  qed
  with inv(2) c p h show ?thesis by (simp add: hm_rely_def)
qed

section \<open>A concurrent object\<close>

lemma hm_ok_pins: "hm_ok home P m g \<Longrightarrow> (\<And>t n. P' t = Some n \<Longrightarrow> n \<le> length (retired m)) \<Longrightarrow> hm_ok home P' m g"
  by (simp add: hm_ok_def)

lemma heard_mem:
  assumes "heard home w" "list_map home (w_mem w') = list_map home (w_mem w)"
    and "\<And>t q C. w_call w' t = Some (q, C, None) \<Longrightarrow> w_call w t = Some (q, C, None) \<or> right q (list_map home (w_mem w)) \<subseteq> C"
  shows "heard home w'"
  unfolding heard_def
proof (intro allI impI)
  fix t q C assume "w_call w' t = Some (q, C, None)"
  from assms(3)[OF this] show "now_at q (list_map home (w_mem w') (req_key q)) \<subseteq> C"
  proof
    assume "w_call w t = Some (q, C, None)"
    with assms(1,2) show ?thesis by (auto simp: heard_def)
  qed (use assms(2) now_at[of q "list_map home (w_mem w)"] in auto)
qed

interpretation hm: concurrent_object "list_map home" "hm_inv home" "hm_rely home" hm_idle
  for home :: "'k::linorder \<Rightarrow> addr"
proof (unfold_locales, goal_cases)
  case (1 w t)
  then show ?case by (simp add: hm_rely_def harmless_refl)
next
  case (2 t w w' w'')
  have "harmless t (w_pins w t) (w_mem w) (w_ghost w) (w_mem w'') (w_ghost w'')"
    using 2 harmless_trans by (fastforce simp: hm_rely_def)
  with 2 show ?case using learns_trans by (auto simp: hm_rely_def)
next
  case (3 t w w')
  then show ?case by (simp add: hm_rely_def)
next
  case (4 t w w')
  then show ?case by (simp add: hm_rely_def harmless_def hm_idle_def held_def)
next
  case (5 w t S q)
  let ?w = "pin_world (list_map home) S t q w"
  have ok: "hm_ok home (w_pins w) (w_mem w) (w_ghost w)" "heard home w" using 5(1) by (simp_all add: hm_inv_def)
  note r = hm_reclaim[OF ok(1) 5(4)]
  have "hm_ok home ((w_pins w)(t \<mapsto> length (retired (w_mem w)))) (reclaim S (w_mem w)) (w_ghost w)"
    by (rule hm_ok_pins[OF r(1)]) (use hm_okD(7)[OF ok(1)] in \<open>auto split: if_splits\<close>)
  moreover have "heard home ?w"
    by (rule heard_mem[OF ok(2)]) (use r(2) in \<open>auto simp: pin_world_def split: if_splits\<close>)
  ultimately have inv: "hm_inv home ?w" by (simp add: hm_inv_def pin_world_def)
  have "hm_rely home u w ?w" if "u \<noteq> t" for u
    by (rule hm_relyI[OF 5(1) inv]) (use that r(3)[OF refl] r(4) in \<open>simp_all add: pin_world_def\<close>)
  with 5 r(2) inv show ?case by (simp add: hm_idle_def pin_world_def)
next
  case (6 w t S)
  let ?w = "unpin_world S t w"
  have ok: "hm_ok home (w_pins w) (w_mem w) (w_ghost w)" "heard home w" using 6(1) by (simp_all add: hm_inv_def)
  note r = hm_reclaim[OF ok(1) 6(3)]
  have "hm_ok home ((w_pins w)(t := None)) (reclaim S (w_mem w)) (w_ghost w)"
    by (rule hm_ok_pins[OF r(1)]) (use hm_okD(7)[OF ok(1)] in \<open>auto split: if_splits\<close>)
  moreover have "heard home ?w"
    by (rule heard_mem[OF ok(2)]) (use r(2) in \<open>auto simp: unpin_world_def split: if_splits\<close>)
  ultimately have inv: "hm_inv home ?w" by (simp add: hm_inv_def unpin_world_def)
  have "hm_rely home u w ?w" if "u \<noteq> t" for u
    by (rule hm_relyI[OF 6(1) inv]) (use that r(3)[of u "w_pins w u"] r(4) in \<open>simp_all add: unpin_world_def\<close>)
  with 6 r(2) inv show ?case by (simp add: hm_idle_def unpin_world_def)
qed

end
