(* ===== verification/Ebr_List_Concurrent.thy ===== *)
theory Ebr_List_Concurrent
  imports List_Moves
begin

text \<open>
  The operations of \<^verbatim>\<open>src/src/ebr/list.rs\<close> under any number of threads, for any search that delivers what they need:
  the locales \<open>concurrent_reader\<close> and \<open>concurrent_finder\<close> say what that is.  The search of Harris and Michael is here, the two
  others are in theory \<^verbatim>\<open>Ebr_Harris_Concurrent\<close>.  The code is that of theory \<^verbatim>\<open>Ebr_List\<close>.
\<close>

section \<open>What a thread knows during a call\<close>

abbreviation own :: "('k::linorder \<Rightarrow> addr) \<Rightarrow> tid \<Rightarrow> ('k, 'v) lworld \<Rightarrow> ('k, 'v) lworld \<Rightarrow> bool" where
  "own home t \<equiv> own_move (list_map home) (hm_inv home) (hm_rely home) t"

abbreviation lcwp ::
  "('k::linorder \<Rightarrow> addr) \<Rightarrow> tid \<Rightarrow> ('k, 'v, 'a) list_prog \<Rightarrow> ('a \<Rightarrow> ('k, 'v) lworld \<Rightarrow> bool) \<Rightarrow> ('k, 'v) lworld \<Rightarrow> bool" where
  "lcwp home t \<equiv> cwp (hm_rely home t) (own home t)"

text \<open>A step that leaves the map alone.\<close>

lemma quiet_own:
  assumes w: "hm_inv home w" "w_call w t \<noteq> None" and ok: "hm_ok home (w_pins w) m' g'" and same: "list_map home m' = list_map home (w_mem w)"
    and others: "\<And>u v. u \<noteq> t \<Longrightarrow> harmless u (w_pins w v) (w_mem w) (w_ghost w) m' g'" and un: "unlinks_marked home (w_mem w) m'"
  shows "own home t w (quiet m' g' w)" "hm_inv home (quiet m' g' w)"
proof -
  have "heard home (quiet m' g' w)" by (rule heard_mem[of home w]) (use w(1) same in \<open>auto simp: hm_inv_def\<close>)
  with ok show inv: "hm_inv home (quiet m' g' w)" by (simp add: hm_inv_def)
  have "hm_rely home u w (quiet m' g' w)" if "u \<noteq> t" for u
    by (rule hm_relyI[OF w(1) inv]) (use others[OF that] un in simp_all)
  moreover have "call_step (list_map home) t w (quiet m' g' w)" using w(2) same by (auto simp: call_step_def)
  ultimately show "own home t w (quiet m' g' w)" using inv by (simp add: own_move_def)
qed

lemma stay_own: "hm_inv home w \<Longrightarrow> w_call w t \<noteq> None \<Longrightarrow> own home t w w"
  using hm.rely_refl by (auto simp: own_move_def call_step_def)

text \<open>The step that is the effect of the call; the other calls learn the answers that are right after it.\<close>

definition effect ::
  "('k \<Rightarrow> addr) \<Rightarrow> tid \<Rightarrow> ('k, 'v) list_mem \<Rightarrow> ghost \<Rightarrow> 'v response \<Rightarrow> ('k, 'v) lworld \<Rightarrow> ('k, 'v) lworld" where
  "effect home t m' g' r w = w\<lparr>w_mem := m', w_ghost := g', w_call := (\<lambda>u. map_option (\<lambda>(q, C, e).
     if u = t then (q, C, Some r) else (q, C \<union> now_at q (list_map home m' (req_key q)), e)) (w_call w u))\<rparr>"

lemma effect_sel [simp]:
  "w_mem (effect home t m' g' r w) = m'" "w_ghost (effect home t m' g' r w) = g'" "w_pins (effect home t m' g' r w) = w_pins w"
  "w_call (effect home t m' g' r w) t = map_option (\<lambda>(q, C, e). (q, C, Some r)) (w_call w t)"
  "u \<noteq> t \<Longrightarrow> w_call (effect home t m' g' r w) u =
     map_option (\<lambda>(q, C, e). (q, C \<union> now_at q (list_map home m' (req_key q)), e)) (w_call w u)"
  by (simp_all add: effect_def)

lemma effect_own:
  assumes w: "hm_inv home w" "w_call w t = Some (q, C, None)" and ok: "hm_ok home (w_pins w) m' g'"
    and eff: "spec_call q (list_map home (w_mem w)) = (r, list_map home m')"
    and others: "\<And>u v. u \<noteq> t \<Longrightarrow> harmless u (w_pins w v) (w_mem w) (w_ghost w) m' g'" and un: "unlinks_marked home (w_mem w) m'"
  shows "own home t w (effect home t m' g' r w)" "hm_inv home (effect home t m' g' r w)"
proof -
  let ?w = "effect home t m' g' r w"
  have "heard home ?w" unfolding heard_def by (auto simp: effect_def split: if_splits)
  with ok show inv: "hm_inv home ?w" by (simp add: hm_inv_def)
  have hs: "hears (list_map home m') (w_call w u) (w_call ?w u)" if "u \<noteq> t" for u
    using that now_at[of _ "list_map home m'"] by (cases "w_call w u") (auto simp: hears_def)
  have "hm_rely home u w ?w" if "u \<noteq> t" for u
    by (rule hm_relyI[OF w(1) inv hears_learns[OF hs[OF that]]]) (use others[OF that] un in simp_all)
  moreover have "call_step (list_map home) t w ?w" using w(2) eff by (auto simp: call_step_def)
  ultimately show "own home t w ?w" using inv hs by (simp add: own_move_def)
qed

text \<open>
  A place before the key \<open>k\<close> that the thread, pinned at \<open>n\<close>, may still reach, and a pointer it may
  follow.
\<close>

definition anchor ::
  "('k::linorder \<Rightarrow> addr) \<Rightarrow> 'k \<Rightarrow> nat \<Rightarrow> ('k, 'v) list_mem \<Rightarrow> ghost \<Rightarrow> addr \<Rightarrow> bool" where
  "anchor home k n m g p \<longleftrightarrow> p = home k \<or> protected n m g p \<and> key_at m p < k \<and> home (key_at m p) = home k"

definition aim ::
  "('k::linorder \<Rightarrow> addr) \<Rightarrow> 'k \<Rightarrow> nat \<Rightarrow> ('k, 'v) list_mem \<Rightarrow> ghost \<Rightarrow> shared \<Rightarrow> bool" where
  "aim home k n m g c \<longleftrightarrow> tag c = 0 \<and>
     (raw c = 0 \<or> protected n m g (raw c) \<and> home (key_at m (raw c)) = home k)"

lemma anchor_follows: "anchor home k n m g p \<Longrightarrow> follows n m g m' g' \<Longrightarrow> anchor home k n m' g' p"
  using follows_key[of n m g m' g' p] by (auto simp: anchor_def follows_def)

lemma aim_follows: "aim home k n m g c \<Longrightarrow> follows n m g m' g' \<Longrightarrow> aim home k n m' g' c"
  using follows_key[of n m g m' g' "raw c"] by (auto simp: aim_def follows_def)

lemma anchor_spot:
  assumes ok: "hm_ok home P m g" and a: "anchor home k n m g p" and u: "tag (nxt m p) = 0"
  shows "spot home m k p" "p \<noteq> home k \<Longrightarrow> key_at m p < k"
proof -
  note d = hm_okD[OF ok]
  have um: "\<not> marked m p" using u by (simp add: marked_def)
  show "p \<noteq> home k \<Longrightarrow> key_at m p < k" using a by (auto simp: anchor_def)
  show "spot home m k p"
  proof (cases "p = home k")
    case False
    then have p: "protected n m g p" "home (key_at m p) = home k" using a by (auto simp: anchor_def)
    then have "linked home m p" using d(6)[of p] u by (auto simp: protected_def)
    then show ?thesis using linked_home[OF d(1)] p(2) um by (fastforce simp: spot_def)
  qed (use um in \<open>simp add: spot_def\<close>)
qed

text \<open>
  In the middle of a call \<open>q\<close>, pinned at \<open>n\<close>, holding the private nodes \<open>P\<close>, whose contents are \<open>F\<close>,
  and the unlinked ones \<open>D\<close>; the call has had no effect yet.
\<close>

definition at_work ::
  "('k::linorder \<Rightarrow> addr) \<Rightarrow> tid \<Rightarrow> ('k, 'v) request \<Rightarrow> nat \<Rightarrow> addr set \<Rightarrow> addr set \<Rightarrow> (addr \<Rightarrow> ('k, 'v) node option) \<Rightarrow>
    ('k, 'v) lworld \<Rightarrow> bool" where
  "at_work home t q n P D F w \<longleftrightarrow> hm_inv home w \<and> w_pins w t = Some n \<and> priv (w_ghost w) t = P \<and>
     pend (w_ghost w) t = D \<and> (\<forall>a\<in>P. obj (w_mem w) a = F a) \<and> (\<exists>C. w_call w t = Some (q, C, None))"

definition noted :: "tid \<Rightarrow> ('k, 'v) request \<Rightarrow> 'v option \<Rightarrow> ('k, 'v) lworld \<Rightarrow> bool" where
  "noted t q x w \<longleftrightarrow> (\<exists>C. w_call w t = Some (q, C, None) \<and> now_at q x \<subseteq> C)"

text \<open>The cursor of a search: if what it points to is beyond the key, the key was seen to be absent.\<close>

definition cursor_ok ::
  "('k::linorder \<Rightarrow> addr) \<Rightarrow> tid \<Rightarrow> ('k, 'v) request \<Rightarrow> nat \<Rightarrow> addr set \<Rightarrow> addr set \<Rightarrow> (addr \<Rightarrow> ('k, 'v) node option) \<Rightarrow>
    addr \<Rightarrow> shared \<Rightarrow> ('k, 'v) lworld \<Rightarrow> bool" where
  "cursor_ok home t q n P D F p c w \<longleftrightarrow> at_work home t q n P D F w \<and>
     anchor home (req_key q) n (w_mem w) (w_ghost w) p \<and> aim home (req_key q) n (w_mem w) (w_ghost w) c \<and>
     (raw c = 0 \<or> req_key q < key_at (w_mem w) (raw c) \<longrightarrow> noted t q None w)"

lemma at_work_rely: "at_work home t q n P D F w \<Longrightarrow> hm_rely home t w w' \<Longrightarrow> at_work home t q n P D F w'"
  by (auto simp: at_work_def hm_rely_def harmless_def held_def learns_def)

lemma noted_rely: "noted t q x w \<Longrightarrow> hm_rely home t w w' \<Longrightarrow> noted t q x w'"
  by (fastforce simp: noted_def hm_rely_def learns_def)

lemma on_route_rely: "on_route home t w a \<Longrightarrow> hm_rely home t w w' \<Longrightarrow> on_route home t w' a"
  by (simp add: hm_rely_def)

lemma rely_follows: "hm_rely home t w w' \<Longrightarrow> w_pins w t = Some n \<Longrightarrow> follows n (w_mem w) (w_ghost w) (w_mem w') (w_ghost w')"
  by (auto simp: hm_rely_def intro: harmless_follows)

lemma cursor_ok_cong:
  assumes c: "cursor_ok home t q n P D F p c w" and w': "at_work home t q n P' D' F' w'"
    and f: "follows n (w_mem w) (w_ghost w) (w_mem w') (w_ghost w')" and n: "\<And>x. noted t q x w \<Longrightarrow> noted t q x w'"
  shows "cursor_ok home t q n P' D' F' p c w'"
proof -
  have a: "aim home (req_key q) n (w_mem w) (w_ghost w) c" using c by (simp add: cursor_ok_def)
  then have "raw c \<noteq> 0 \<Longrightarrow> key_at (w_mem w') (raw c) = key_at (w_mem w) (raw c)"
    using follows_key[OF f] by (auto simp: aim_def)
  with c w' n anchor_follows[OF _ f] aim_follows[OF a f] show ?thesis by (auto simp: cursor_ok_def)
qed

lemma at_work_pins: "at_work home t q n P D F w \<Longrightarrow> w_pins w t = Some n"
  by (simp add: at_work_def)

lemma cursor_ok_rely:
  assumes "cursor_ok home t q n P D F p c w" "hm_rely home t w w'"
  shows "cursor_ok home t q n P D F p c w'"
proof (rule cursor_ok_cong[OF assms(1)])
  have w: "at_work home t q n P D F w" using assms(1) by (simp add: cursor_ok_def)
  then show "at_work home t q n P D F w'" by (rule at_work_rely) (rule assms(2))
  show "follows n (w_mem w) (w_ghost w) (w_mem w') (w_ghost w')" by (rule rely_follows[OF assms(2) at_work_pins[OF w]])
qed (use noted_rely assms(2) in blast)

lemma at_work_ok: "at_work home t q n P D F w \<Longrightarrow> hm_ok home (w_pins w) (w_mem w) (w_ghost w)"
  by (simp add: at_work_def hm_inv_def)

lemma at_work_inv: "at_work home t q n P D F w \<Longrightarrow> hm_inv home w \<and> w_call w t \<noteq> None"
  by (auto simp: at_work_def)

text \<open>A call that has had no effect knows the entry at its key.\<close>

lemma noted_now:
  "at_work home t q n P D F w \<Longrightarrow> x = list_map home (w_mem w) (req_key q) \<Longrightarrow> noted t q x w"
  by (auto simp: noted_def at_work_def hm_inv_def heard_def)

lemma noted_quiet [simp]: "noted t q x (quiet m' g' w) = noted t q x w"
  by (simp add: noted_def)

lemma at_work_quiet:
  assumes "at_work home t q n P D F w" "hm_inv home (quiet m' g' w)" "priv g' t = P'" "pend g' t = D'" "\<And>a. a \<in> P' \<Longrightarrow> obj m' a = F' a"
  shows "at_work home t q n P' D' F' (quiet m' g' w)"
  using assms by (auto simp: at_work_def)

lemma work_own:
  assumes w: "at_work home t q n P D F w" and "hm_ok home (w_pins w) m' g'" "list_map home m' = list_map home (w_mem w)"
    and "\<And>u v. u \<noteq> t \<Longrightarrow> harmless u (w_pins w v) (w_mem w) (w_ghost w) m' g'" "unlinks_marked home (w_mem w) m'"
  shows "own home t w (quiet m' g' w)" "hm_inv home (quiet m' g' w)"
  using quiet_own[OF _ _ assms(2-5)] at_work_inv[OF w] by blast+

lemma work_stay: "at_work home t q n P D F w \<Longrightarrow> own home t w w"
  using stay_own at_work_inv by blast

text \<open>Reading.\<close>

lemma load_cwp:
  assumes "at_work home t q n P D F w"
    and "\<And>w1. hm_rely home t w w1 \<Longrightarrow> at_work home t q n P D F w1 \<Longrightarrow> live (w_mem w1) (fst l) \<and>
      lcwp home t (k (cell (w_mem w1) l)) Q w1"
  shows "lcwp home t (Load l k) Q w"
  unfolding cwp.simps
proof (intro allI impI)
  fix w1 assume r: "hm_rely home t w w1"
  note a = at_work_rely[OF assms(1) r]
  from assms(2)[OF r a] show "live (w_mem w1) (fst l) \<and> moves (own home t) w1 (w_mem w1) (lcwp home t (k (cell (w_mem w1) l)) Q)"
    using movesI[of w1 "w_mem w1" "own home t" w1] work_stay[OF a] by simp
qed

lemma deref_cwp:
  assumes "at_work home t q n P D F w"
    and "\<And>w1. hm_rely home t w w1 \<Longrightarrow> at_work home t q n P D F w1 \<Longrightarrow> \<exists>x. obj (w_mem w1) (raw c) = Some x \<and> lcwp home t (k x) Q w1"
  shows "lcwp home t (Deref c k) Q w"
  unfolding cwp.simps
proof (intro allI impI)
  fix w1 assume r: "hm_rely home t w w1"
  note a = at_work_rely[OF assms(1) r]
  from assms(2)[OF r a] show "\<exists>x. obj (w_mem w1) (raw c) = Some x \<and> moves (own home t) w1 (w_mem w1) (lcwp home t (k x) Q)"
    using movesI[of w1 "w_mem w1" "own home t" w1] work_stay[OF a] by auto
qed

text \<open>Following a pointer that the thread may follow.\<close>

lemma deref_node_cwp:
  assumes w: "at_work home t q n P D F w" and c: "protected n (w_mem w) (w_ghost w) (raw c)" "obj (w_mem w) (raw c) = Some nd"
    and go: "\<And>w1. hm_rely home t w w1 \<Longrightarrow> at_work home t q n P D F w1 \<Longrightarrow> protected n (w_mem w1) (w_ghost w1) (raw c) \<Longrightarrow>
      obj (w_mem w1) (raw c) = Some nd \<Longrightarrow> lcwp home t (k nd) Q w1"
  shows "lcwp home t (Deref c k) Q w"
proof (rule deref_cwp[OF w], goal_cases)
  case (1 w1)
  have "protected n (w_mem w1) (w_ghost w1) (raw c)" "obj (w_mem w1) (raw c) = Some nd"
    using rely_follows[OF 1(1) at_work_pins[OF w]] c by (simp_all add: follows_def)
  with go[OF 1] show ?case by blast
qed

section \<open>Routes of a search\<close>

lemma on_route_iff:
  assumes "at_work home t q n P D F w"
  shows "on_route home t w a \<longleftrightarrow> route home (req_key q) n (w_mem w) (w_ghost w) (noted t q None w) a"
  using assms by (auto simp: at_work_def on_route_def noted_def)

lemma on_route_at:
  assumes w: "at_work home t q n P D F w" and a: "on_route home t w a"
  shows "a \<noteq> 0 \<Longrightarrow> protected n (w_mem w) (w_ghost w) a" "a \<noteq> 0 \<Longrightarrow> home (key_at (w_mem w) a) = home (req_key q)"
    "a = 0 \<or> req_key q < key_at (w_mem w) a \<Longrightarrow> noted t q None w"
    "a \<noteq> 0 \<Longrightarrow> key_at (w_mem w) a = req_key q \<Longrightarrow> marked (w_mem w) a \<Longrightarrow> noted t q None w"
proof -
  note r = a[unfolded on_route_iff[OF w]]
  show "a \<noteq> 0 \<Longrightarrow> protected n (w_mem w) (w_ghost w) a" "a \<noteq> 0 \<Longrightarrow> home (key_at (w_mem w) a) = home (req_key q)"
    using route_at[OF r] by blast+
  show "a = 0 \<or> req_key q < key_at (w_mem w) a \<Longrightarrow> noted t q None w"
    using route_end[of home "req_key q" n "w_mem w" "w_ghost w" "noted t q None w"] r route_at(3)[OF r] by (cases "a = 0") auto
  show "noted t q None w" if "a \<noteq> 0" "key_at (w_mem w) a = req_key q" "marked (w_mem w) a"
  proof (cases "linked home (w_mem w) a")
    case True
    show ?thesis by (rule noted_now[OF w]) (use linked_marked[OF hm_okD(1)[OF at_work_ok[OF w]] True that(3)] that(2) in simp)
  qed (use route_at(4)[OF r] that in blast)
qed

text \<open>A thread on its route stays on it when it goes on to the next node, whether the node it stands on is linked or not.\<close>

lemma on_route_next:
  assumes w: "at_work home t q n P D F w" and a: "on_route home t w a" "a \<noteq> 0"
    and k: "key_at (w_mem w) a < req_key q \<or> marked (w_mem w) a"
  shows "on_route home t w (raw (nxt (w_mem w) a))"
proof -
  note r = a(1)[unfolded on_route_iff[OF w]]
  have "key_at (w_mem w) a < req_key q \<or> noted t q None w"
    using k on_route_at(3,4)[OF w a(1)] a(2) by (cases "key_at (w_mem w) a" "req_key q" rule: linorder_cases) auto
  then have "route home (req_key q) n (w_mem w) (w_ghost w) (noted t q None w) (raw (nxt (w_mem w) a))"
    using route_at[OF r a(2)] route_next[OF at_work_ok[OF w] _ _ noted_now[OF w]]
    by (cases "linked home (w_mem w) a") auto
  then show ?thesis by (simp add: on_route_iff[OF w])
qed

text \<open>A search that has been started.\<close>

definition search ::
  "('k::linorder \<Rightarrow> addr) \<Rightarrow> tid \<Rightarrow> ('k, 'v) request \<Rightarrow> nat \<Rightarrow> addr set \<Rightarrow> (addr \<Rightarrow> ('k, 'v) node option) \<Rightarrow>
    addr \<Rightarrow> shared \<Rightarrow> ('k, 'v) lworld \<Rightarrow> bool" where
  "search home t q n P F p c w \<longleftrightarrow> at_work home t q n P {} F w \<and> anchor home (req_key q) n (w_mem w) (w_ghost w) p \<and>
     tag c = 0 \<and> on_route home t w (raw c)"

lemma search_head:
  assumes w: "at_work home t q n P {} F w"
  shows "live (w_mem w) (home (req_key q))" "search home t q n P F (home (req_key q)) (nxt (w_mem w) (home (req_key q))) w"
proof -
  let ?k = "req_key q" and ?m = "w_mem w"
  note ok = at_work_ok[OF w]
  note fam = hm_okD(1)[OF ok]
  have sp: "spot home ?m ?k (home ?k)" using family_head[OF fam] by (auto simp: spot_def marked_def)
  show "live ?m (home ?k)" using family_head[OF fam] by (simp add: live_def)
  obtain c where c: "nxt ?m (home ?k) = Shared c 0" using spot_split[OF fam sp] by metis
  have gap: "noted t q None w" if "c = 0 \<or> ?k < key_at ?m c"
    by (rule noted_now[OF w]) (use spot_gap[OF fam sp _ c that] in simp)
  have "route home ?k n ?m (w_ghost w) (noted t q None w) c"
  proof (cases "c = 0")
    case False
    show ?thesis by (rule route_linked[OF ok spot_next(2,3)[OF fam sp c False]]) (use gap in blast)
  qed (use gap route_null in blast)
  with w c show "search home t q n P F (home ?k) (nxt ?m (home ?k)) w" by (simp add: search_def anchor_def on_route_iff[OF w])
qed

lemma search_cursor: "search home t q n P F p c w \<Longrightarrow> cursor_ok home t q n P {} F p c w"
  using on_route_at[of home t q n P "{}" F w "raw c"] by (auto simp: search_def cursor_ok_def aim_def)

section \<open>What a search delivers\<close>

text \<open>
  A reader needs the verdict only: the value at the key, in a node it may still look at, or a moment at which the key was
  absent.  An update also needs the cursor, at the place of the key.
\<close>

definition sighted ::
  "('k::linorder \<Rightarrow> addr) \<Rightarrow> tid \<Rightarrow> ('k, 'v) request \<Rightarrow> nat \<Rightarrow> addr set \<Rightarrow> (addr \<Rightarrow> ('k, 'v) node option) \<Rightarrow>
    (unit + bool) \<times> cursor \<Rightarrow> ('k, 'v) lworld \<Rightarrow> bool" where
  "sighted home t q n P F = (\<lambda>(r, c) w. at_work home t q n P {} F w \<and> (case r of
       Inl _ \<Rightarrow> True
     | Inr found \<Rightarrow> if found then raw (curr c) \<noteq> 0 \<and> protected n (w_mem w) (w_ghost w) (raw (curr c)) \<and>
           noted t q (Some (val_at (w_mem w) (raw (curr c)))) w
         else noted t q None w))"

definition verdict :: "tid \<Rightarrow> ('k::linorder, 'v) request \<Rightarrow> nat \<Rightarrow> bool \<Rightarrow> addr \<Rightarrow> ('k, 'v) lworld \<Rightarrow> bool" where
  "verdict t q n found a w \<longleftrightarrow>
     (if found then a \<noteq> 0 \<and> protected n (w_mem w) (w_ghost w) a \<and> key_at (w_mem w) a = req_key q \<and> noted t q (Some (val_at (w_mem w) a)) w
      else a = 0 \<or> protected n (w_mem w) (w_ghost w) a \<and> req_key q < key_at (w_mem w) a)"

definition find_done ::
  "('k::linorder \<Rightarrow> addr) \<Rightarrow> tid \<Rightarrow> ('k, 'v) request \<Rightarrow> nat \<Rightarrow> addr set \<Rightarrow> (addr \<Rightarrow> ('k, 'v) node option) \<Rightarrow>
    (unit + bool) \<times> cursor \<Rightarrow> ('k, 'v) lworld \<Rightarrow> bool" where
  "find_done home t q n P F = (\<lambda>(r, c) w. case r of
       Inl _ \<Rightarrow> at_work home t q n P {} F w
     | Inr found \<Rightarrow> (\<exists>p. prev c = (p, Next) \<and> cursor_ok home t q n P {} F p (curr c) w \<and> verdict t q n found (raw (curr c)) w))"

lemma sighted_retry: "sighted home t q n P F (Inl u, c) w \<Longrightarrow> at_work home t q n P {} F w"
  by (simp add: sighted_def)

lemma find_done_retry: "find_done home t q n P F (Inl u, c) w \<Longrightarrow> at_work home t q n P {} F w"
  by (simp add: find_done_def)

lemma verdict_cong:
  assumes "verdict t q n found a w" "follows n (w_mem w) (w_ghost w) (w_mem w') (w_ghost w')" "\<And>x. noted t q x w \<Longrightarrow> noted t q x w'"
  shows "verdict t q n found a w'"
  using assms(1,3) follows_key[OF assms(2), of a] assms(2) by (auto simp: verdict_def follows_def split: if_splits)

lemma verdict_rely:
  "verdict t q n found a w \<Longrightarrow> hm_rely home t w w' \<Longrightarrow> w_pins w t = Some n \<Longrightarrow> verdict t q n found a w'"
  using verdict_cong rely_follows noted_rely by meson

lemma cursor_absent:
  "cursor_ok home t q n P D F p c w \<Longrightarrow> verdict t q n False (raw c) w \<Longrightarrow> noted t q None w"
  by (auto simp: cursor_ok_def verdict_def)

lemma find_done_sighted: "find_done home t q n P F rc w \<Longrightarrow> sighted home t q n P F rc w"
  using cursor_absent[of home t q n P "{}" F _ "curr (snd rc)" w]
  by (cases "fst rc") (auto simp: find_done_def sighted_def verdict_def cursor_ok_def split: prod.splits if_splits)

section \<open>The operations\<close>

text \<open>A search starts at the head and starts again when it loses a race.\<close>

lemma list_find_cwp:
  assumes w: "at_work home t q n P {} F w" and D: "\<And>u c w. D (Inl u, c) w \<Longrightarrow> at_work home t q n P {} F w"
    and finds: "\<And>p c w. search home t q n P F p (curr c) w \<Longrightarrow> prev c = (p, Next) \<Longrightarrow> lcwp home t (finder (req_key q) c) D w"
  shows "lcwp home t (list_find i (home (req_key q)) (req_key q) finder) (\<lambda>(found, c). D (Inr found, c)) w"
  using w
proof (induction i arbitrary: w)
  case (Suc i)
  show ?case
    unfolding list_find.simps
  proof (rule load_cwp[OF Suc.prems], goal_cases)
    case (1 w1)
    let ?c = "\<lparr>prev = (home (req_key q), Next), curr = nxt (w_mem w1) (home (req_key q))\<rparr>"
    have "lcwp home t (bind (finder (req_key q) ?c) (\<lambda>(r, c).
        case r of Inr found \<Rightarrow> Ret (found, c) | Inl _ \<Rightarrow> list_find i (home (req_key q)) (req_key q) finder)) (\<lambda>(found, c). D (Inr found, c)) w1"
    proof (rule cwp_bind_mono[OF finds[of "home (req_key q)"]])
      fix rc w2 assume "D rc w2"
      then show "lcwp home t (case rc of (r, c) \<Rightarrow> case r of Inr found \<Rightarrow> Ret (found, c)
          | Inl _ \<Rightarrow> list_find i (home (req_key q)) (req_key q) finder) (\<lambda>(found, c). D (Inr found, c)) w2"
        using Suc.IH D by (cases rc; cases "fst rc") auto
    qed (use search_head(2)[OF 1(2)] in simp_all)
    with search_head(1)[OF 1(2)] show ?case by simp
  qed
qed simp

lemma noted_answered:
  "at_work home t q n {} {} F w \<Longrightarrow> noted t q x w \<Longrightarrow> r \<in> now_at q x \<Longrightarrow> answered hm_idle t q r w"
  by (auto simp: answered_def noted_def at_work_def hm_idle_def held_def)

lemma protected_node: "protected n m g a \<Longrightarrow> \<exists>nd. obj m a = Some nd \<and> key_at m a = key nd \<and> val_at m a = val nd"
  by (auto simp: protected_def key_at_def val_at_def)

subsection \<open>Looking up\<close>

locale concurrent_reader =
  fixes finder :: "('k::linorder, 'v) finder"
  assumes read_cwp: "search home t q n P F p (curr c) w \<Longrightarrow> prev c = (p, Next) \<Longrightarrow>
    lcwp home t (finder (req_key q) c) (sighted home t q n P F) w"
begin

lemma list_get_cwp:
  assumes q: "q = Get_req k" and w: "at_work home t q n {} {} F w"
  shows "lcwp home t (list_get i (home k) k finder) (\<lambda>r. answered hm_idle t q (Got r)) w"
proof -
  let ?Q = "\<lambda>r. answered hm_idle t q (Got r)"
  have k: "req_key q = k" by (simp add: q)
  have sight: "lcwp home t (list_find i (home (req_key q)) (req_key q) finder) (\<lambda>(found, c). sighted home t q n {} F (Inr found, c)) w"
    by (rule list_find_cwp[where finder = finder and D = "sighted home t q n {} F", OF w sighted_retry read_cwp])
  show ?thesis
    unfolding list_get_def
  proof (rule cwp_bind_mono[OF sight[unfolded k]], goal_cases)
    case (1 fc w1)
    obtain found c where fc: "fc = (found, c)" by fastforce
    with 1 have s: "sighted home t q n {} F (Inr found, c) w1" by simp
    show ?case
    proof (cases found)
      case True
      with s obtain nd where f: "at_work home t q n {} {} F w1" "raw (curr c) \<noteq> 0" "protected n (w_mem w1) (w_ghost w1) (raw (curr c))"
        "obj (w_mem w1) (raw (curr c)) = Some nd" "noted t q (Some (val nd)) w1"
        using protected_node[of n "w_mem w1" "w_ghost w1" "raw (curr c)"] by (auto simp: sighted_def)
      have "lcwp home t (Deref (curr c) (\<lambda>nd. Ret (Some (val nd)))) ?Q w1"
      proof (rule deref_node_cwp[OF f(1,3,4)], goal_cases)
        case (1 w2)
        show ?case using noted_answered[OF 1(2) noted_rely[OF f(5) 1(1)]] q by simp
      qed
      with True fc f(2) show ?thesis by (simp add: is_null_def del: cwp.simps)
    next
      case False
      with s have "at_work home t q n {} {} F w1" "noted t q None w1" by (auto simp: sighted_def)
      with False fc q show ?thesis by (auto intro: noted_answered)
    qed
  qed
qed

end

lemma anchor_live: "hm_ok home P m g \<Longrightarrow> anchor home k n m g p \<Longrightarrow> live m p"
  using family_head[of home m k] by (auto simp: anchor_def protected_def live_def hm_ok_def)

subsection \<open>Updating\<close>

text \<open>An insertion that finds the key drops its new node.\<close>

lemma discard_cwp:
  assumes w: "at_work home t q n {a} {} F w" and nt: "noted t q (Some x) w" and r: "r \<in> now_at q (Some x)"
    and Q: "Q b = answered hm_idle t q r"
  shows "lcwp home t (Drop_value (Shared a 0) (Drop_owned (Shared a 0) (Ret b))) Q w"
  unfolding cwp.simps Q
proof (intro allI impI conjI)
  fix w1 assume r1: "hm_rely home t w w1"
  note w1 = at_work_rely[OF w r1]
  note dv = hm_drop_val[OF at_work_ok[OF w1], where a = a]
  have a1: "obj (w_mem w1) a \<noteq> None" using hm_okD(3)[OF at_work_ok[OF w1], of a t] w1 by (auto simp: at_work_def held_def)
  then show "obj (w_mem w1) (raw (Shared a 0)) \<noteq> None" by simp
  let ?w = "quiet (drop_val a (w_mem w1)) (w_ghost w1) w1"
  note ow = work_own[OF w1 dv]
  have aw: "at_work home t q n {a} {} F ?w" by (rule at_work_quiet[OF w1 ow(2)]) (use w1 in \<open>auto simp: at_work_def\<close>)
  have nt1: "noted t q (Some x) ?w" using noted_rely[OF nt r1] by simp
  have "obj (w_mem w2) a \<noteq> None \<and> a \<notin> set (garbage (w_mem w2)) \<and>
      moves (own home t) w2 (free a (w_mem w2)) (answered hm_idle t q r)" if r2: "hm_rely home t ?w w2" for w2
  proof -
    let ?g = "(w_ghost w2)\<lparr>priv := (priv (w_ghost w2))(t := priv (w_ghost w2) t - {a})\<rparr>"
    let ?w' = "quiet (free a (w_mem w2)) ?g w2"
    note w2 = at_work_rely[OF aw r2]
    have ap: "a \<in> priv (w_ghost w2) t" using w2 by (simp add: at_work_def)
    note fr = hm_free[OF at_work_ok[OF w2] ap refl]
    note ow2 = work_own[OF w2 fr]
    have "at_work home t q n {} {} F ?w'" by (rule at_work_quiet[OF w2 ow2(2)]) (use w2 in \<open>auto simp: at_work_def\<close>)
    then have "answered hm_idle t q r ?w'" by (rule noted_answered[OF _ _ r]) (use noted_rely[OF nt1 r2] in simp)
    with ow2(1) show ?thesis
      using hm_okD(3)[OF at_work_ok[OF w2], of a t] ap by (auto simp: held_def intro: movesI[of ?w'])
  qed
  with ow(1) show "moves (own home t) w1 (drop_val (raw (Shared a 0)) (w_mem w1))
      (\<lambda>w. \<forall>w1. hm_rely home t w w1 \<longrightarrow> obj (w_mem w1) (raw (Shared a 0)) \<noteq> None \<and>
        raw (Shared a 0) \<notin> set (garbage (w_mem w1)) \<and>
        moves (own home t) w1 (free (raw (Shared a 0)) (w_mem w1)) (\<lambda>w. answered hm_idle t q r w))"
    by (intro movesI[of ?w]) auto
qed

text \<open>Otherwise it points the node at the cursor and tries to link it.\<close>

lemma quiet_follows:
  assumes "at_work home t q n P D F w" "\<And>u v. u \<noteq> t \<Longrightarrow> harmless u (w_pins w v) (w_mem w) (w_ghost w) m' g'"
  shows "follows n (w_mem w) (w_ghost w) m' g'"
  using assms(2)[of "Suc t" t] assms(1) by (auto simp: at_work_def intro: harmless_follows)

lemma private_store_cwp:
  assumes cu: "cursor_ok home t q n {a} {} F p c w" and v: "verdict t q n False (raw c) w"
    and go: "\<And>w'. cursor_ok home t q n {a} {} F p c w' \<Longrightarrow> verdict t q n False (raw c) w' \<Longrightarrow> nxt (w_mem w') a = x \<Longrightarrow> lcwp home t k Q w'"
  shows "lcwp home t (Store (a, Next) x k) Q w"
  unfolding cwp.simps
proof (intro allI impI conjI)
  fix w1 assume r: "hm_rely home t w w1"
  have w: "w_pins w t = Some n" using cu by (simp add: cursor_ok_def at_work_def)
  note cu1 = cursor_ok_rely[OF cu r]
  then have w1: "at_work home t q n {a} {} F w1" by (simp add: cursor_ok_def)
  then have ap: "a \<in> priv (w_ghost w1) t" by (simp add: at_work_def)
  then show "live (w_mem w1) (fst (a, Next))" using hm_okD(3)[OF at_work_ok[OF w1], of a t] by (auto simp: held_def live_def)
  note st = hm_private_cell[OF at_work_ok[OF w1] ap, where q = x]
  let ?w = "quiet (set_cell (a, Next) x (w_mem w1)) (w_ghost w1) w1"
  note ow = work_own[OF w1 st]
  note fol = quiet_follows[OF w1 st(3)]
  have "at_work home t q n {a} {} F ?w" by (rule at_work_quiet[OF w1 ow(2)]) (use w1 in \<open>auto simp: at_work_def\<close>)
  then have "cursor_ok home t q n {a} {} F p c ?w" by (rule cursor_ok_cong[OF cu1]) (use fol in simp_all)
  moreover have "verdict t q n False (raw c) ?w" by (rule verdict_cong[OF verdict_rely[OF v r w]]) (use fol in simp_all)
  ultimately have "lcwp home t k Q ?w" by (rule go) simp
  with ow(1) show "moves (own home t) w1 (set_cell (a, Next) x (w_mem w1)) (lcwp home t k Q)" by (intro movesI[of ?w]) simp_all
qed

lemma effect_answered:
  assumes "w_call w t = Some (q, C, e)" "held g' t = {}"
  shows "answered hm_idle t q r (effect home t m' g' r w)"
  using assms by (simp add: answered_def hm_idle_def)

text \<open>A compare-and-set at the cursor that fails is a step that changes nothing.\<close>

lemma cas_cwp:
  assumes anc: "anchor home k n (w_mem w) (w_ghost w) p" and w: "w_pins w t = Some n" "w_call w t \<noteq> None"
    and fail: "\<And>w1. hm_rely home t w w1 \<Longrightarrow> lcwp home t (f (Inl (nxt (w_mem w1) p))) Q w1"
    and go: "\<And>w1. hm_rely home t w w1 \<Longrightarrow> anchor home k n (w_mem w1) (w_ghost w1) p \<Longrightarrow> nxt (w_mem w1) p = c \<Longrightarrow>
      moves (own home t) w1 (set_cell (p, Next) d (w_mem w1)) (lcwp home t (f (Inr d)) Q)"
  shows "lcwp home t (Compare_and_set (p, Next) c d f) Q w"
  unfolding cwp.simps
proof (intro allI impI conjI)
  fix w1 assume r: "hm_rely home t w w1"
  then have inv: "hm_inv home w1" "w_call w1 t \<noteq> None" using w(2) by (auto simp: hm_rely_def learns_def split: option.splits)
  have anc1: "anchor home k n (w_mem w1) (w_ghost w1) p" by (rule anchor_follows[OF anc rely_follows[OF r w(1)]])
  then show "live (w_mem w1) (fst (p, Next))" using inv(1) by (auto simp: hm_inv_def intro: anchor_live)
  show "if nxt (w_mem w1) p = c then moves (own home t) w1 (set_cell (p, Next) d (w_mem w1)) (lcwp home t (f (Inr d)) Q)
      else moves (own home t) w1 (w_mem w1) (lcwp home t (f (Inl (nxt (w_mem w1) p))) Q)"
    using go[OF r anc1] fail[OF r] movesI[of w1 "w_mem w1" "own home t" w1] stay_own[OF inv] by auto
qed

lemma link_cwp:
  assumes cu: "cursor_ok home t q n {a} {} F p c w" and v: "verdict t q n False (raw c) w"
    and a: "nxt (w_mem w) a = c" "F a = Some \<lparr>key = k, val = v\<rparr>" and q: "q = Insert_req k v"
    and fail: "\<And>w'. at_work home t q n {a} {} F w' \<Longrightarrow> lcwp home t fl (\<lambda>r. answered hm_idle t q (Inserted r)) w'"
  shows "lcwp home t (Compare_and_set (p, Next) c (Shared a 0) (\<lambda>r. case r of Inr _ \<Rightarrow> Ret True | Inl _ \<Rightarrow> fl))
    (\<lambda>r. answered hm_idle t q (Inserted r)) w"
proof (rule cas_cwp[where k = k and n = n], goal_cases)
  case (4 w1)
  have "at_work home t q n {a} {} F w" using cu by (simp add: cursor_ok_def)
  from fail[OF at_work_rely[OF this 4]] show ?case by simp
next
  case (5 w1)
  let ?m = "w_mem w1" and ?g = "w_ghost w1"
  note cu1 = cursor_ok_rely[OF cu 5(1)]
  then have w1: "at_work home t q n {a} {} F w1" and tg: "tag c = 0" by (auto simp: cursor_ok_def aim_def)
  note ok = at_work_ok[OF w1]
  have ap: "a \<in> priv ?g t" "obj ?m a = Some \<lparr>key = k, val = v\<rparr>" using w1 a by (auto simp: at_work_def)
  have "a \<in> held (w_ghost w) t" using cu by (simp add: cursor_ok_def at_work_def held_def)
  then have na: "nxt ?m a = Shared (raw c) 0" using 5(1) a tg by (cases c) (auto simp: hm_rely_def harmless_def)
  have "w_pins w t = Some n" using cu by (simp add: cursor_ok_def at_work_def)
  from verdict_rely[OF v 5(1) this] have gap: "raw c = 0 \<or> k < key_at ?m (raw c)" by (auto simp: verdict_def q)
  let ?g' = "?g\<lparr>priv := (priv ?g)(t := priv ?g t - {a})\<rparr>"
  let ?w = "effect home t (set_cell (p, Next) (Shared a 0) ?m) ?g' (Inserted True) w1"
  note sp = anchor_spot[OF ok 5(2), unfolded 5(3), OF tg]
  have nx: "nxt ?m p = Shared (raw c) 0" using 5(3) tg by (cases c) simp
  have sp2: "p \<noteq> home k \<longrightarrow> key_at ?m p < k" using sp(2) by blast
  note li = hm_link[OF ok sp(1) sp2 nx gap ap na refl refl]
  obtain C where C: "hm_inv home w1" "w_call w1 t = Some (q, C, None)" using w1 by (auto simp: at_work_def)
  have "list_map home ?m k = None" by (rule spot_gap[OF hm_okD(1)[OF ok] sp nx gap])
  with li(2) q have sc: "spec_call q (list_map home ?m) = (Inserted True, list_map home (set_cell (p, Next) (Shared a 0) ?m))" by simp
  note ow = effect_own[OF C li(1) sc li(3,4)]
  have "answered hm_idle t q (Inserted True) ?w"
    by (rule effect_answered[OF C(2)]) (use w1 in \<open>auto simp: at_work_def held_def\<close>)
  with ow(1) show ?case by (auto intro!: movesI[of ?w])
qed (use cu q in \<open>auto simp: cursor_ok_def at_work_def\<close>)

text \<open>Retiring a node that the thread has unlinked; the library may reclaim what no pinned thread needs.\<close>

lemma retire_cwp:
  assumes c: "raw c \<in> pend (w_ghost w) t" and q: "w_call w t \<noteq> None"
    and go: "\<And>w1 m' g'. hm_rely home t w w1 \<Longrightarrow> hm_inv home (quiet m' g' w1) \<Longrightarrow> priv g' t = priv (w_ghost w) t \<Longrightarrow>
      pend g' t = pend (w_ghost w) t - {raw c} \<Longrightarrow> \<forall>a\<in>priv (w_ghost w) t. obj m' a = obj (w_mem w1) a \<Longrightarrow> cell m' = cell (w_mem w1) \<Longrightarrow>
      \<forall>u v. u \<noteq> t \<longrightarrow> harmless u (w_pins w1 v) (w_mem w1) (w_ghost w1) m' g' \<Longrightarrow> lcwp home t k Q (quiet m' g' w1)"
  shows "lcwp home t (Defer_destroy c k) Q w"
  unfolding cwp.simps
proof (intro allI impI)
  fix w1 assume r: "hm_rely home t w w1"
  let ?m = "w_mem w1" and ?g = "w_ghost w1"
  let ?g' = "?g\<lparr>pend := (pend ?g)(t := pend ?g t - {raw c})\<rparr>"
  have inv: "hm_inv home w1" and ok: "hm_ok home (w_pins w1) ?m ?g" and same: "priv ?g t = priv (w_ghost w) t" "pend ?g t = pend (w_ghost w) t"
    and q1: "w_call w1 t \<noteq> None" using r q by (auto simp: hm_rely_def hm_inv_def harmless_def learns_def split: option.splits)
  have cp: "raw c \<in> pend ?g t" using c same by simp
  then have ch: "raw c \<in> held ?g t" by (simp add: held_def)
  have "moves (own home t) w1 (reclaim S (retire (raw c) ?m)) (lcwp home t k Q)"
    if S: "spares S (w_pins w1) (retire (raw c) ?m)" for S
  proof -
    let ?m' = "reclaim S (retire (raw c) ?m)"
    note rt = hm_retire[OF ok cp refl]
    note rc = hm_reclaim[OF rt(1) S]
    have hr: "\<forall>u v. u \<noteq> t \<longrightarrow> harmless u (w_pins w1 v) ?m ?g ?m' ?g'"
      using harmless_trans[OF rt(3)[OF _ refl] rc(3)[OF refl]] by blast
    have keep: "obj ?m' a = obj ?m a" if "a \<in> priv (w_ghost w) t" for a
      using hm_okD(3)[OF ok, of a t] hm_okD(5)[OF ok, of a t t] cp that same
      by (auto simp: held_def restrict_map_def)
    have un: "unlinks_marked home ?m ?m'" using rt(4) rc(4) by (fastforce simp: unlinks_marked_def marked_def)
    have ow: "own home t w1 (quiet ?m' ?g' w1)" "hm_inv home (quiet ?m' ?g' w1)"
      by (rule quiet_own[OF inv q1 rc(1)]; use rt(2) rc(2) hr un in auto)+
    moreover have "lcwp home t k Q (quiet ?m' ?g' w1)"
      by (rule go[OF r ow(2)]) (use same keep hr in auto)
    ultimately show ?thesis by (intro movesI[of "quiet ?m' ?g' w1"]) simp_all
  qed
  then show "obj ?m (raw c) \<noteq> None \<and> raw c \<notin> set (garbage ?m) \<and> (\<forall>S. spares S (w_pins w1) (retire (raw c) ?m) \<longrightarrow>
      moves (own home t) w1 (reclaim S (retire (raw c) ?m)) (lcwp home t k Q))"
    using hm_okD(3)[OF ok ch] by auto
qed

text \<open>The compare-and-set that unlinks a run of marked nodes.\<close>

lemma unlink_move:
  assumes ok: "hm_ok home P m g" and anc: "anchor home k n m g p" and c: "nxt m p = c" "tag c = 0"
    and run: "marked_run m (raw c) xs b" and m': "m' = set_cell (p, Next) (Shared b 0) m"
    and g': "g' = g\<lparr>pend := (pend g)(t := pend g t \<union> set xs)\<rparr>"
  shows "hm_ok home P m' g'" "list_map home m' = list_map home m" "u \<noteq> t \<Longrightarrow> harmless u pn m g m' g'"
    "unlinks_marked home m m'" "distinct xs" "b \<notin> set xs"
proof -
  have "nxt m p = Shared (raw c) 0" using c by (cases c) simp
  moreover have "spot home m k p" using anchor_spot[OF ok anc] c by simp
  ultimately show "hm_ok home P m' g'" "list_map home m' = list_map home m" "u \<noteq> t \<Longrightarrow> harmless u pn m g m' g'"
    "unlinks_marked home m m'" "distinct xs" "b \<notin> set xs"
    using hm_unlink[OF ok _ _ run m' g'] by blast+
qed

lemma shared_untagged: "tag c = 0 \<Longrightarrow> Shared (raw c) 0 = c"
  by (cases c) simp

lemma marked_run_follows:
  assumes "marked_run m a xs b" "\<And>x. x \<in> set xs \<Longrightarrow> protected n m g x" "follows n m g m' g'"
  shows "marked_run m' a xs b"
  by (rule marked_run_cong[OF assms(1)]) (use assms marked_run_marked[OF assms(1)] in \<open>auto simp: follows_def\<close>)

text \<open>
  \<^verbatim>\<open>remove\<close>: marking the node is the effect; then it is unlinked, unless another search has done
  so or will.
\<close>

definition settled ::
  "('k::linorder \<Rightarrow> addr) \<Rightarrow> tid \<Rightarrow> ('k, 'v) request \<Rightarrow> 'v response \<Rightarrow> nat \<Rightarrow> addr set \<Rightarrow> ('k, 'v) lworld \<Rightarrow> bool" where
  "settled home t q r n D w \<longleftrightarrow> hm_inv home w \<and> w_pins w t = Some n \<and> priv (w_ghost w) t = {} \<and> pend (w_ghost w) t = D \<and>
     (\<exists>C. w_call w t = Some (q, C, Some r))"

lemma settled_rely: "settled home t q r n D w \<Longrightarrow> hm_rely home t w w' \<Longrightarrow> settled home t q r n D w'"
  by (auto simp: settled_def hm_rely_def harmless_def learns_def)

lemma settled_answered: "settled home t q r n {} w \<Longrightarrow> answered hm_idle t q r w"
  by (auto simp: settled_def answered_def hm_idle_def held_def)

lemma settled_quiet:
  assumes "settled home t q r n D w" "hm_inv home (quiet m' g' w)" "priv g' t = {}" "pend g' t = D'"
  shows "settled home t q r n D' (quiet m' g' w)"
  using assms by (auto simp: settled_def)

lemma settled_retire_cwp:
  assumes w: "settled home t q r n {raw c} w" and Q: "Q x = answered hm_idle t q r"
  shows "lcwp home t (Defer_destroy c (Ret x)) Q w"
proof (rule retire_cwp, goal_cases)
  case (3 w1 m' g')
  have "settled home t q r n {} (quiet m' g' w1)"
    by (rule settled_quiet[OF settled_rely[OF w 3(1)] 3(2)]) (use w 3 in \<open>auto simp: settled_def\<close>)
  then show ?case by (simp add: Q settled_answered)
qed (use w in \<open>auto simp: settled_def\<close>)

lemma remove_unlink_cwp:
  assumes w: "settled home t q r n {} w" and anc: "anchor home k n (w_mem w) (w_ghost w) p"
    and c: "raw c \<noteq> 0" "tag c = 0" "protected n (w_mem w) (w_ghost w) (raw c)" "marked (w_mem w) (raw c)"
    and nx: "next = with_tag (nxt (w_mem w) (raw c)) 0" and Q: "Q x = answered hm_idle t q r"
  shows "lcwp home t (Compare_and_set (p, Next) c next (\<lambda>r. case r of Inr _ \<Rightarrow> Defer_destroy c (Ret x) | Inl _ \<Rightarrow> Ret x)) Q w"
proof (rule cas_cwp[OF anc], goal_cases)
  case (3 w1)
  then show ?case using settled_rely[OF w] by (auto simp: Q intro: settled_answered)
next
  case (4 w1)
  let ?m = "w_mem w1" and ?g = "w_ghost w1"
  let ?m' = "set_cell (p, Next) next ?m" and ?g' = "?g\<lparr>pend := (pend ?g)(t := pend ?g t \<union> set [raw c])\<rparr>"
  note w1 = settled_rely[OF w 4(1)]
  have ok: "hm_ok home (w_pins w1) ?m ?g" and inv: "hm_inv home w1" "w_call w1 t \<noteq> None" and pn: "w_pins w t = Some n"
    using w w1 by (auto simp: settled_def hm_inv_def)
  have run: "marked_run ?m (raw c) [raw c] (raw next)"
    by (rule marked_run_follows[OF _ _ rely_follows[OF 4(1) pn]]) (use c nx in auto)
  have m': "?m' = set_cell (p, Next) (Shared (raw next) 0) ?m" using nx by (simp add: with_tag_def)
  note u = unlink_move[OF ok 4(2,3) c(2) run m' refl]
  note ow = quiet_own[OF inv u(1-4)]
  have "settled home t q r n {raw c} (quiet ?m' ?g' w1)"
    by (rule settled_quiet[OF w1 ow(2)]) (use w1 in \<open>auto simp: settled_def\<close>)
  then have "lcwp home t (Defer_destroy c (Ret x)) Q (quiet ?m' ?g' w1)" by (rule settled_retire_cwp) (rule Q)
  with ow(1) show ?case by (auto simp del: cwp.simps intro!: movesI[of "quiet ?m' ?g' w1"])
qed (use w in \<open>auto simp: settled_def\<close>)

lemma aim_protected:
  assumes "cursor_ok home t q n P D F p c w" "raw c \<noteq> 0"
  shows "protected n (w_mem w) (w_ghost w) (raw c)" "home (key_at (w_mem w) (raw c)) = home (req_key q)"
    "w_pins w t = Some n" "at_work home t q n P D F w"
  using assms by (auto simp: cursor_ok_def aim_def at_work_def)

lemma mark_move:
  assumes q: "q = Remove_req k" and cu: "cursor_ok home t q n {} {} F p c w" and c: "raw c \<noteq> 0" "tag (nxt (w_mem w) (raw c)) = 0"
    and nd: "obj (w_mem w) (raw c) = Some nd" "key nd = k"
    and m': "m' = set_cell (raw c, Next) (with_tag (nxt (w_mem w) (raw c)) 1) (w_mem w)"
  defines "w' \<equiv> effect home t m' (w_ghost w) (Removed (Some (val nd))) w"
  shows "own home t w w'" "settled home t q (Removed (Some (val nd))) n {} w'" "anchor home k n m' (w_ghost w) p"
    "protected n m' (w_ghost w) (raw c)"
proof -
  note pr = aim_protected[OF cu c(1)]
  note ok = at_work_ok[OF pr(4)]
  have um: "\<not> marked (w_mem w) (raw c)" using c by (simp add: marked_def)
  note li = protected_linked[OF ok pr(1) um]
  note mk = hm_mark[OF ok li um m']
  obtain C where C: "hm_inv home w" "w_call w t = Some (q, C, None)" using pr(4) by (auto simp: at_work_def)
  have ky: "key_at (w_mem w) (raw c) = k" "val_at (w_mem w) (raw c) = val nd" using nd by (simp_all add: key_at_def val_at_def)
  have sc: "spec_call q (list_map home (w_mem w)) = (Removed (Some (val nd)), list_map home m')"
    using linked_found[OF hm_okD(1)[OF ok] li um] mk(2) ky q by simp
  note ow = effect_own[OF C mk(1) sc mk(3,4), folded w'_def]
  show "own home t w w'" by (rule ow(1))
  show "settled home t q (Removed (Some (val nd))) n {} w'"
    using pr(4) C ow(2) by (simp add: settled_def at_work_def w'_def)
  have fol: "follows n (w_mem w) (w_ghost w) m' (w_ghost w)" by (rule quiet_follows[OF pr(4) mk(3)])
  then show "protected n m' (w_ghost w) (raw c)" using pr(1) by (simp add: follows_def)
  show "anchor home k n m' (w_ghost w) p" using cu q by (intro anchor_follows[OF _ fol]) (simp add: cursor_ok_def)
qed

lemma mark_cwp:
  assumes q: "q = Remove_req k" and cu: "cursor_ok home t q n {} {} F p c w" and c: "raw c \<noteq> 0"
    and nd: "obj (w_mem w) (raw c) = Some nd" "key nd = k"
    and retry: "\<And>w'. at_work home t q n {} {} F w' \<Longrightarrow> lcwp home t again (\<lambda>r. answered hm_idle t q (Removed r)) w'"
  shows "lcwp home t (Fetch_or (raw c, Next) 1 (\<lambda>next. if tag next = 1 then again
    else Compare_and_set (p, Next) c next (\<lambda>r. case r of
        Inr _ \<Rightarrow> Defer_destroy c (Ret (Some (val nd))) | Inl _ \<Rightarrow> Ret (Some (val nd))))) (\<lambda>r. answered hm_idle t q (Removed r)) w"
  unfolding cwp.simps
proof (intro allI impI conjI)
  fix w1 assume r: "hm_rely home t w w1"
  let ?next = "nxt (w_mem w1) (raw c)"
  let ?m = "set_cell (raw c, Next) (with_tag ?next (tag ?next OR 1)) (w_mem w1)"
  let ?go = "lcwp home t (if tag ?next = 1 then again else Compare_and_set (p, Next) c ?next (\<lambda>r. case r of
      Inr _ \<Rightarrow> Defer_destroy c (Ret (Some (val nd))) | Inl _ \<Rightarrow> Ret (Some (val nd)))) (\<lambda>r. answered hm_idle t q (Removed r))"
  note cu1 = cursor_ok_rely[OF cu r]
  note pr = aim_protected[OF cu1 c]
  note ok = at_work_ok[OF pr(4)]
  have nd1: "obj (w_mem w1) (raw c) = Some nd" using rely_follows[OF r] aim_protected[OF cu c] nd by (simp add: follows_def)
  then show "live (w_mem w1) (fst (raw c, Next))" by (simp add: live_def)
  have "tag ?next \<le> 1" using hm_okD(6)[OF ok, of "raw c"] pr(1) family_node(5)[OF hm_okD(1)[OF ok]] by (fastforce simp: protected_def)
  then consider "tag ?next = 1" | "tag ?next = 0" by linarith
  then show "moves (own home t) w1 ?m ?go"
  proof cases
    case 1
    then have "?m = w_mem w1" using with_tag_same[of ?next] by (simp add: set_cell_def)
    with 1 show ?thesis using work_stay[OF pr(4)] retry[OF pr(4)] by (intro movesI[of w1]) simp_all
  next
    case 2
    let ?w = "effect home t ?m (w_ghost w1) (Removed (Some (val nd))) w1"
    have m: "?m = set_cell (raw c, Next) (with_tag ?next 1) (w_mem w1)" using 2 by simp
    note mv = mark_move[OF q cu1 c 2 nd1 nd(2) m]
    have tc: "tag c = 0" using cu1 by (simp add: cursor_ok_def aim_def)
    have nx: "?next = with_tag (nxt (w_mem ?w) (raw c)) 0" using 2 by (cases ?next) (simp add: with_tag_def)
    have "lcwp home t (Compare_and_set (p, Next) c ?next (\<lambda>r. case r of
        Inr _ \<Rightarrow> Defer_destroy c (Ret (Some (val nd))) | Inl _ \<Rightarrow> Ret (Some (val nd)))) (\<lambda>r. answered hm_idle t q (Removed r)) ?w"
      by (rule remove_unlink_cwp[OF mv(2) _ c tc _ _ nx]) (use mv(3,4) 2 in \<open>simp_all add: marked_def\<close>)
    with 2 have "?go ?w" by (simp del: cwp.simps)
    with mv(1) show ?thesis by (intro movesI[of ?w]) simp_all
  qed
qed

subsection \<open>The operations of a list\<close>

locale concurrent_finder =
  fixes finder :: "('k::linorder, 'v) finder"
  assumes find_cwp: "search home t q n P F p (curr c) w \<Longrightarrow> prev c = (p, Next) \<Longrightarrow>
    lcwp home t (finder (req_key q) c) (find_done home t q n P F) w"
begin

lemma find_at_key:
  assumes w: "at_work home t q n P {} F w" and k: "req_key q = k"
  shows "lcwp home t (list_find i (home k) k finder) (\<lambda>(found, c). find_done home t q n P F (Inr found, c)) w"
  unfolding k[symmetric] by (rule list_find_cwp[where finder = finder and D = "find_done home t q n P F", OF w find_done_retry find_cwp])

lemma list_insert_loop_cwp:
  assumes q: "q = Insert_req k v" and F: "F a = Some \<lparr>key = k, val = v\<rparr>" and w: "at_work home t q n {a} {} F w"
  shows "lcwp home t (list_insert_loop i j (home k) k finder (Shared a 0)) (\<lambda>r. answered hm_idle t q (Inserted r)) w"
  using w
proof (induction i arbitrary: w)
  case (Suc i)
  let ?Q = "\<lambda>r. answered hm_idle t q (Inserted r)"
  have k: "req_key q = k" by (simp add: q)
  show ?case
    unfolding list_insert_loop.simps
  proof (rule cwp_bind_mono[OF find_at_key[OF Suc.prems k]], goal_cases)
    case (1 fc w1)
    obtain found c where fc: "fc = (found, c)" by fastforce
    with 1 obtain p where f: "prev c = (p, Next)" "cursor_ok home t q n {a} {} F p (curr c) w1" "verdict t q n found (raw (curr c)) w1"
      by (auto simp: find_done_def)
    show ?case
    proof (cases found)
      case True
      have "lcwp home t (Drop_value (Shared a 0) (Drop_owned (Shared a 0) (Ret False))) ?Q w1"
        by (rule discard_cwp) (use f True q in \<open>auto simp: verdict_def cursor_ok_def\<close>)
      with True fc show ?thesis by (simp del: cwp.simps)
    next
      case False
      have "lcwp home t (Store (a, Next) (curr c) (Compare_and_set (p, Next) (curr c) (Shared a 0)
          (\<lambda>r. case r of Inr _ \<Rightarrow> Ret True | Inl _ \<Rightarrow> list_insert_loop i j (home k) k finder (Shared a 0)))) ?Q w1"
        by (rule private_store_cwp[OF f(2)]) (use f(3) False in simp, rule link_cwp[where F = F, OF _ _ _ F q Suc.IH])
      with False fc f(1) show ?thesis by (simp del: cwp.simps)
    qed
  qed
qed simp

lemma list_insert_cwp:
  assumes q: "q = Insert_req k v" and w: "at_work home t q n {} {} F w"
  shows "lcwp home t (list_insert i (home k) k v finder) (\<lambda>r. answered hm_idle t q (Inserted r)) w"
  unfolding list_insert_def cwp.simps
proof (intro allI impI)
  fix w1 a assume r: "hm_rely home t w w1" and a: "fresh (w_mem w1) a"
  let ?x = "\<lparr>key = k, val = v\<rparr>"
  let ?m = "alloc a ?x [(Next, null)] (w_mem w1)" and ?g = "(w_ghost w1)\<lparr>priv := (priv (w_ghost w1))(t := insert a (priv (w_ghost w1) t))\<rparr>"
  note w1 = at_work_rely[OF w r]
  note al = hm_alloc[OF at_work_ok[OF w1] a refl]
  note ow = work_own[OF w1 al]
  have "at_work home t q n {a} {} (\<lambda>_. Some ?x) (quiet ?m ?g w1)"
    by (rule at_work_quiet[OF w1 ow(2)]) (use w1 in \<open>auto simp: at_work_def\<close>)
  with ow(1) show "moves (own home t) w1 ?m (lcwp home t (list_insert_loop i i (home k) k finder (Shared a 0))
      (\<lambda>r. answered hm_idle t q (Inserted r)))"
    by (intro movesI[of "quiet ?m ?g w1"] list_insert_loop_cwp[OF q]) simp_all
qed

lemma list_remove_loop_cwp:
  assumes q: "q = Remove_req k" and w: "at_work home t q n {} {} F w"
  shows "lcwp home t (list_remove_loop i j (home k) k finder) (\<lambda>r. answered hm_idle t q (Removed r)) w"
  using w
proof (induction i arbitrary: w)
  case (Suc i)
  let ?Q = "\<lambda>r. answered hm_idle t q (Removed r)" and ?again = "list_remove_loop i j (home k) k finder"
  have k: "req_key q = k" by (simp add: q)
  show ?case
    unfolding list_remove_loop.simps
  proof (rule cwp_bind_mono[OF find_at_key[OF Suc.prems k]], goal_cases)
    case (1 fc w1)
    obtain found c where fc: "fc = (found, c)" by fastforce
    with 1 obtain p where f: "prev c = (p, Next)" "cursor_ok home t q n {} {} F p (curr c) w1" "verdict t q n found (raw (curr c)) w1"
      by (auto simp: find_done_def)
    have w1: "at_work home t q n {} {} F w1" using f(2) by (simp add: cursor_ok_def)
    show ?case
    proof (cases found)
      case True
      with f(3) obtain nd where nd: "raw (curr c) \<noteq> 0" "protected n (w_mem w1) (w_ghost w1) (raw (curr c))"
        "obj (w_mem w1) (raw (curr c)) = Some nd" "key nd = k"
        using protected_node[of n "w_mem w1" "w_ghost w1" "raw (curr c)"] k by (auto simp: verdict_def)
      have "lcwp home t (Deref (curr c) (\<lambda>nd. Fetch_or (raw (curr c), Next) 1 (\<lambda>next.
          if tag next = 1 then ?again else Compare_and_set (p, Next) (curr c) next (\<lambda>r. case r of
            Inr _ \<Rightarrow> Defer_destroy (curr c) (Ret (Some (val nd))) | Inl _ \<Rightarrow> Ret (Some (val nd)))))) ?Q w1"
      proof (rule deref_node_cwp[OF w1 nd(2,3)], goal_cases)
        case (1 w2)
        show ?case by (rule mark_cwp[OF q cursor_ok_rely[OF f(2) 1(1)] nd(1) 1(4) nd(4) Suc.IH])
      qed
      with True fc f(1) nd(1) show ?thesis by (simp add: is_null_def Let_def del: cwp.simps cong: if_cong)
    next
      case False
      with f have "noted t q None w1" by (auto intro: cursor_absent)
      with False fc w1 q show ?thesis by (auto intro: noted_answered)
    qed
  qed
qed simp

end

sublocale concurrent_finder \<subseteq> concurrent_reader
  by (rule concurrent_reader.intro) (rule cwp_mono[OF find_cwp find_done_sighted])

section \<open>Unlinking during a search\<close>

lemma cursor_unlinked:
  assumes w: "at_work home t q n P {} F w" and anc: "anchor home (req_key q) n (w_mem w) (w_ghost w) p"
    and m': "m' = set_cell (p, Next) c (w_mem w)" and tc: "tag c = 0"
    and inv': "hm_inv home (quiet m' g' w)" and same: "list_map home m' = list_map home (w_mem w)"
    and g': "priv g' t = P" "pend g' t = D" and fol: "follows n (w_mem w) (w_ghost w) m' g'"
  shows "cursor_ok home t q n P D F p c (quiet m' g' w)"
proof -
  let ?k = "req_key q"
  have ok': "hm_ok home (w_pins w) m' g'" using inv' by (simp add: hm_inv_def)
  note fam' = hm_okD(1)[OF ok']
  have aw: "at_work home t q n P D F (quiet m' g' w)"
    by (rule at_work_quiet[OF w inv' g']) (use w in \<open>auto simp: at_work_def m'\<close>)
  have anc': "anchor home ?k n m' g' p" by (rule anchor_follows[OF anc fol])
  have nx': "nxt m' p = Shared (raw c) 0" using tc by (simp add: m' shared_untagged)
  have sp': "spot home m' ?k p" "p \<noteq> home ?k \<Longrightarrow> key_at m' p < ?k" using anchor_spot[OF ok' anc'] nx' by auto
  have "aim home ?k n m' g' c"
    using spot_next[OF fam' sp'(1) nx'] linked_protected[OF ok'] tc by (auto simp: aim_def)
  moreover have "noted t q None w" if "raw c = 0 \<or> ?k < key_at m' (raw c)"
    by (rule noted_now[OF w]) (use spot_gap[OF fam' sp' nx' that] same in simp)
  ultimately show ?thesis using aw anc' by (simp add: cursor_ok_def)
qed

lemma unlink_cwp:
  assumes w: "at_work home t q n P {} F w" and anc: "anchor home (req_key q) n (w_mem w) (w_ghost w) p"
    and pn: "tag pn = 0" and c: "tag c = 0" and run: "marked_run (w_mem w) (raw pn) xs (raw c)"
    and pr: "\<And>x. x \<in> set xs \<Longrightarrow> protected n (w_mem w) (w_ghost w) x"
    and fail: "\<And>w' r. at_work home t q n P {} F w' \<Longrightarrow> lcwp home t (f (Inl r)) Q w'"
    and go: "\<And>w1 w'. hm_rely home t w w1 \<Longrightarrow> follows n (w_mem w1) (w_ghost w1) (w_mem w') (w_ghost w') \<Longrightarrow> w_call w' t = w_call w1 t \<Longrightarrow>
      cursor_ok home t q n P (set xs) F p c w' \<Longrightarrow> marked_run (w_mem w') (raw pn) xs (raw c) \<Longrightarrow> distinct xs \<Longrightarrow> raw c \<notin> set xs \<Longrightarrow>
      lcwp home t (f (Inr c)) Q w'"
  shows "lcwp home t (Compare_and_set (p, Next) pn c f) Q w"
proof (rule cas_cwp[OF anc], goal_cases)
  case (3 w1)
  show ?case by (rule fail[OF at_work_rely[OF w 3]])
next
  case (4 w1)
  let ?m = "w_mem w1" and ?g = "w_ghost w1"
  let ?m' = "set_cell (p, Next) c ?m" and ?g' = "?g\<lparr>pend := (pend ?g)(t := pend ?g t \<union> set xs)\<rparr>"
  note w1 = at_work_rely[OF w 4(1)]
  note fol = rely_follows[OF 4(1) at_work_pins[OF w]]
  have run1: "marked_run ?m (raw pn) xs (raw c)" by (rule marked_run_follows[OF run pr fol])
  have m': "?m' = set_cell (p, Next) (Shared (raw c) 0) ?m" using c by (simp add: shared_untagged)
  note u = unlink_move[OF at_work_ok[OF w1] 4(2,3) pn run1 m' refl]
  note ow = work_own[OF w1 u(1-4)]
  note fol' = quiet_follows[OF w1 u(3)]
  have "marked_run ?m' (raw pn) xs (raw c)"
    by (rule marked_run_follows[OF run1 _ fol']) (use pr fol in \<open>auto simp: follows_def\<close>)
  moreover have "cursor_ok home t q n P (set xs) F p c (quiet ?m' ?g' w1)"
    by (rule cursor_unlinked[OF w1 4(2) refl c ow(2) u(2) _ _ fol']) (use w1 in \<open>auto simp: at_work_def\<close>)
  ultimately have "lcwp home t (f (Inr c)) Q (quiet ?m' ?g' w1)" by (intro go[OF 4(1)]) (use fol' u(5,6) in simp_all)
  with ow(1) show ?case by (intro movesI[of "quiet ?m' ?g' w1"]) simp_all
qed (use w in \<open>auto simp: at_work_def\<close>)

text \<open>Retiring a node of an unlinked run; the cursor and the verdict stay as they are.\<close>

lemma retire_cursor_cwp:
  assumes cu: "cursor_ok home t q n P D F p c w" and x: "raw x \<in> D"
    and go: "\<And>w1 w'. hm_rely home t w w1 \<Longrightarrow> follows n (w_mem w1) (w_ghost w1) (w_mem w') (w_ghost w') \<Longrightarrow> w_call w' t = w_call w1 t \<Longrightarrow>
      cell (w_mem w') = cell (w_mem w1) \<Longrightarrow> cursor_ok home t q n P (D - {raw x}) F p c w' \<Longrightarrow> lcwp home t k Q w'"
  shows "lcwp home t (Defer_destroy x k) Q w"
proof (rule retire_cwp, goal_cases)
  case (3 w1 m' g')
  have w: "at_work home t q n P D F w" using cu by (simp add: cursor_ok_def)
  note cu1 = cursor_ok_rely[OF cu 3(1)]
  note w1 = at_work_rely[OF w 3(1)]
  have fol: "follows n (w_mem w1) (w_ghost w1) m' g'" using quiet_follows[OF w1] 3(7) by blast
  have "at_work home t q n P (D - {raw x}) F (quiet m' g' w1)"
    by (rule at_work_quiet[OF w1 3(2)]) (use w w1 3 in \<open>auto simp: at_work_def\<close>)
  then have "cursor_ok home t q n P (D - {raw x}) F p c (quiet m' g' w1)"
    by (rule cursor_ok_cong[OF cu1]) (use fol in simp_all)
  then show ?case by (intro go[OF 3(1)]) (use fol 3(6) in simp_all)
qed (use cu x in \<open>auto simp: cursor_ok_def at_work_def\<close>)

section \<open>The search of Harris and Michael\<close>

lemma find_step:
  assumes cu: "cursor_ok home t q n P {} F p c w" "raw c \<noteq> 0" and un: "tag (nxt (w_mem w) (raw c)) = 0"
  defines "k \<equiv> key_at (w_mem w) (raw c)"
  shows "k < req_key q \<Longrightarrow> cursor_ok home t q n P {} F (raw c) (nxt (w_mem w) (raw c)) w"
    "k = req_key q \<Longrightarrow> noted t q (Some (val_at (w_mem w) (raw c))) w"
proof -
  let ?m = "w_mem w" and ?k = "req_key q"
  note pr = aim_protected[OF cu]
  note ok = at_work_ok[OF pr(4)]
  note fam = hm_okD(1)[OF ok]
  have um: "\<not> marked ?m (raw c)" using un by (simp add: marked_def)
  have li: "linked home ?m (raw c)" by (rule protected_linked[OF ok pr(1) um])
  show "cursor_ok home t q n P {} F (raw c) (nxt ?m (raw c)) w" if k: "k < ?k"
  proof -
    have "noted t q None w" if "raw (nxt ?m (raw c)) = 0 \<or> ?k < key_at ?m (raw (nxt ?m (raw c)))"
      by (rule noted_now[OF pr(4)]) (use linked_gap[OF fam li pr(2) k[unfolded k_def] that] in simp)
    moreover have "aim home ?k n ?m (w_ghost w) (nxt ?m (raw c))"
      using linked_next[OF fam li pr(2)] linked_protected[OF ok] un by (auto simp: aim_def)
    ultimately show ?thesis using pr k by (auto simp: cursor_ok_def anchor_def k_def)
  qed
  show "noted t q (Some (val_at ?m (raw c))) w" if "k = ?k"
    by (rule noted_now[OF pr(4)]) (use linked_found[OF fam li um] that in \<open>simp add: k_def\<close>)
qed

abbreviation find_body :: "nat \<Rightarrow> ('k::linorder) \<Rightarrow> cursor \<Rightarrow> ('k, 'v) node \<Rightarrow> shared \<Rightarrow> ('k, 'v, (unit + bool) \<times> cursor) list_prog" where
  "find_body i k c nd next \<equiv>
     (if tag next = 0 then
        (case cmp (key nd) k of
           Less \<Rightarrow> find_harris_michael i k \<lparr>prev = (raw (curr c), Next), curr = next\<rparr>
         | Equal \<Rightarrow> Ret (Inr True, c)
         | Greater \<Rightarrow> Ret (Inr False, c))
      else
        let next = with_tag next 0 in
        Compare_and_set (prev c) (curr c) next (\<lambda>r.
          case r of
            Inl _ \<Rightarrow> Ret (Inl (), c)
          | Inr _ \<Rightarrow> Defer_destroy (curr c) (find_harris_michael i k (c\<lparr>curr := next\<rparr>))))"

lemma find_body_cwp:
  assumes cu: "cursor_ok home t q n P {} F p (curr c) w" and pc: "prev c = (p, Next)" "raw (curr c) \<noteq> 0"
    and nd: "obj (w_mem w) (raw (curr c)) = Some nd" and nx: "next = nxt (w_mem w) (raw (curr c))"
    and rec: "\<And>p c w. cursor_ok home t q n P {} F p (curr c) w \<Longrightarrow> prev c = (p, Next) \<Longrightarrow>
      lcwp home t (find_harris_michael i (req_key q) c) (find_done home t q n P F) w"
  shows "lcwp home t (find_body i (req_key q) c nd next) (find_done home t q n P F) w"
proof (cases "tag next = 0")
  case True
  note fs = find_step[OF cu pc(2) True[unfolded nx]]
  note pr = aim_protected[OF cu pc(2)]
  have ky: "key_at (w_mem w) (raw (curr c)) = key nd" using nd by (simp add: key_at_def)
  show ?thesis
  proof (cases "key nd" "req_key q" rule: linorder_cases)
    case less
    then have "cursor_ok home t q n P {} F (raw (curr c)) next w" using fs(1) ky nx by simp
    then show ?thesis using True less by (auto simp: cmp_def intro!: rec)
  next
    case equal
    with fs(2) ky show ?thesis using True cu pc pr(1) by (auto simp: cmp_def find_done_def verdict_def)
  next
    case greater
    with ky show ?thesis using True cu pc pr(1) by (auto simp: cmp_def find_done_def verdict_def)
  qed
next
  case False
  let ?n = "with_tag next 0"
  have "lcwp home t (Compare_and_set (p, Next) (curr c) ?n (\<lambda>r.
      case r of Inl _ \<Rightarrow> Ret (Inl (), c) | Inr _ \<Rightarrow> Defer_destroy (curr c) (find_harris_michael i (req_key q) (c\<lparr>curr := ?n\<rparr>))))
      (find_done home t q n P F) w"
  proof (rule unlink_cwp[where xs = "[raw (curr c)]" and n = n and P = P and F = F and q = q])
    fix w1 w' assume "cursor_ok home t q n P (set [raw (curr c)]) F p ?n w'"
    then have "lcwp home t (Defer_destroy (curr c) (find_harris_michael i (req_key q) (c\<lparr>curr := ?n\<rparr>))) (find_done home t q n P F) w'"
      by (rule retire_cursor_cwp) (use pc(1) in \<open>auto intro!: rec\<close>)
    then show "lcwp home t (case Inr ?n of Inl _ \<Rightarrow> Ret (Inl (), c)
        | Inr _ \<Rightarrow> Defer_destroy (curr c) (find_harris_michael i (req_key q) (c\<lparr>curr := ?n\<rparr>))) (find_done home t q n P F) w'"
      by (simp del: cwp.simps)
  qed (use False nx pc cu aim_protected[OF cu pc(2)] in \<open>auto simp: cursor_ok_def aim_def marked_def find_done_def\<close>)
  then show ?thesis using False pc(1) by (simp add: Let_def del: cwp.simps)
qed

lemma find_harris_michael_cwp:
  assumes "cursor_ok home t q n P {} F p (curr c) w" "prev c = (p, Next)"
  shows "lcwp home t (find_harris_michael i (req_key q) c) (find_done home t q n P F) w"
  using assms
proof (induction i arbitrary: p c w)
  case (Suc i)
  let ?a = "raw (curr c)" and ?Q = "find_done home t q n P F"
  note cu = Suc.prems(1)
  have tg: "tag (curr c) = 0" and aw: "at_work home t q n P {} F w" using cu by (auto simp: cursor_ok_def aim_def)
  show ?case
  proof (cases "?a = 0")
    case True
    then show ?thesis using cu tg Suc.prems(2) by (auto simp: find_done_def verdict_def is_null_def)
  next
    case False
    obtain nd where nd: "obj (w_mem w) ?a = Some nd" using protected_node[OF aim_protected(1)[OF cu False]] by blast
    have "lcwp home t (Deref (curr c) (\<lambda>nd. Load (?a, Next) (find_body i (req_key q) c nd))) ?Q w"
    proof (rule deref_node_cwp[OF aw aim_protected(1)[OF cu False] nd], goal_cases)
      case (1 w1)
      note cu1 = cursor_ok_rely[OF cu 1(1)]
      show ?case
      proof (rule load_cwp[OF 1(2)], goal_cases)
        case (1 w2)
        have "obj (w_mem w2) ?a = Some nd"
          using rely_follows[OF 1(1) aim_protected(3)[OF cu1 False]] \<open>protected n (w_mem w1) (w_ghost w1) ?a\<close> \<open>obj (w_mem w1) ?a = Some nd\<close>
          by (simp add: follows_def)
        with find_body_cwp[OF cursor_ok_rely[OF cu1 1(1)] Suc.prems(2) False _ refl Suc.IH] show ?case by (simp add: live_def)
      qed
    qed
    then show ?thesis using tg False by (simp add: is_null_def del: cwp.simps)
  qed
qed simp

interpretation harris_michael: concurrent_finder "find_harris_michael i :: ('k::linorder, 'v) finder" for i
  by (rule concurrent_finder.intro) (rule find_harris_michael_cwp[OF search_cursor])

end
