(* ===== verification/Ebr_Harris_Concurrent.thy ===== *)
theory Ebr_Harris_Concurrent
  imports Ebr_List_Concurrent
begin

text \<open>
  The other two searches of \<^verbatim>\<open>src/src/ebr/list.rs\<close> under any number of threads: that of Harris, which walks over marked
  nodes, unlinks a whole run of them with one compare-and-set and then retires them, and that of Herlihy and Shavit, which
  only reads and walks over nodes that may have been unlinked since it reached them.
\<close>

section \<open>The search of Herlihy and Shavit\<close>

abbreviation hhs_body :: "nat \<Rightarrow> ('k::linorder) \<Rightarrow> cursor \<Rightarrow> ('k, 'v) node \<Rightarrow> ('k, 'v, (unit + bool) \<times> cursor) list_prog" where
  "hhs_body i k c nd \<equiv>
     (case cmp (key nd) k of
        Less \<Rightarrow> Load (raw (curr c), Next) (\<lambda>next. find_harris_herlihy_shavit i k \<lparr>prev = (raw (curr c), Next), curr = next\<rparr>)
      | Equal \<Rightarrow> Load (raw (curr c), Next) (\<lambda>next. Ret (Inr (tag next = 0), c))
      | Greater \<Rightarrow> Ret (Inr False, c))"

lemma on_route_found:
  assumes w: "at_work home t q n P D F w" and a: "on_route home t w a" "a \<noteq> 0" "key_at (w_mem w) a = req_key q"
  shows "\<not> marked (w_mem w) a \<Longrightarrow> noted t q (Some (val_at (w_mem w) a)) w"
proof -
  assume um: "\<not> marked (w_mem w) a"
  note ok = at_work_ok[OF w]
  note li = protected_linked[OF ok on_route_at(1)[OF w a(1,2)] um]
  show ?thesis by (rule noted_now[OF w]) (use linked_found[OF hm_okD(1)[OF ok] li um] a(3) in simp)
qed

lemma find_herlihy_shavit_cwp:
  assumes "at_work home t q n P {} F w" "on_route home t w (raw (curr c))"
  shows "lcwp home t (find_harris_herlihy_shavit i (req_key q) c) (sighted home t q n P F) w"
  using assms
proof (induction i arbitrary: c w)
  case (Suc i)
  let ?a = "raw (curr c)" and ?Q = "sighted home t q n P F"
  note w = Suc.prems(1)
  note r = on_route_at[OF Suc.prems]
  show ?case
  proof (cases "?a = 0")
    case True
    with r(3) w show ?thesis by (auto simp: is_null_def sighted_def)
  next
    case False
    obtain nd where nd: "obj (w_mem w) ?a = Some nd" using protected_node[OF r(1)[OF False]] by blast
    have "lcwp home t (Deref (curr c) (hhs_body i (req_key q) c)) ?Q w"
    proof (rule deref_node_cwp[OF w r(1)[OF False] nd], goal_cases)
      case (1 w1)
      note r1 = on_route_rely[OF Suc.prems(2) 1(1)]
      have load: "live (w_mem w2) ?a \<and> on_route home t w2 ?a \<and> key_at (w_mem w2) ?a = key nd"
        if "hm_rely home t w1 w2" for w2
        using rely_follows[OF that at_work_pins[OF 1(2)]] on_route_rely[OF r1 that] 1(3,4) by (auto simp: follows_def live_def key_at_def)
      show ?case
      proof (cases "key nd" "req_key q" rule: linorder_cases)
        case less
        have "lcwp home t (Load (?a, Next) (\<lambda>next. find_harris_herlihy_shavit i (req_key q) \<lparr>prev = (?a, Next), curr = next\<rparr>)) ?Q w1"
        proof (rule load_cwp[OF 1(2)], goal_cases)
          case (1 w2)
          note l = load[OF 1(1)]
          have "on_route home t w2 (raw (nxt (w_mem w2) ?a))" by (rule on_route_next[OF 1(2) _ False]) (use l less in auto)
          with Suc.IH[OF 1(2), of "\<lparr>prev = (?a, Next), curr = nxt (w_mem w2) ?a\<rparr>"] l show ?case by simp
        qed
        with less show ?thesis by (simp add: cmp_def del: cwp.simps)
      next
        case equal
        have "lcwp home t (Load (?a, Next) (\<lambda>next. Ret (Inr (tag next = 0), c))) ?Q w1"
        proof (rule load_cwp[OF 1(2)], goal_cases)
          case (1 w2)
          note l = load[OF 1(1)]
          then have ra: "on_route home t w2 ?a" "key_at (w_mem w2) ?a = req_key q" using equal by simp_all
          show ?case
            using l on_route_found[OF 1(2) ra(1) False ra(2)] on_route_at(1,4)[OF 1(2) ra(1)] False ra(2) 1(2)
            by (auto simp: sighted_def marked_def)
        qed
        with equal show ?thesis by (simp add: cmp_def del: cwp.simps)
      next
        case greater
        have "noted t q None w1" by (rule on_route_at(3)[OF 1(2) r1]) (use greater 1(4) in \<open>simp add: key_at_def\<close>)
        with greater 1(2) show ?thesis by (auto simp: cmp_def sighted_def)
      qed
    qed
    with False show ?thesis by (simp add: is_null_def del: cwp.simps)
  qed
qed simp

interpretation herlihy_shavit: concurrent_reader "find_harris_herlihy_shavit i :: ('k::linorder, 'v) finder" for i
  by (rule concurrent_reader.intro) (rule find_herlihy_shavit_cwp; simp add: search_def)

section \<open>The search of Harris\<close>

text \<open>
  The finding phase: from the place of the cursor, whose link was read as \<open>pn\<close>, a run of marked nodes leads to the
  current one.
\<close>

definition walking ::
  "('k::linorder \<Rightarrow> addr) \<Rightarrow> tid \<Rightarrow> ('k, 'v) request \<Rightarrow> nat \<Rightarrow> addr set \<Rightarrow> (addr \<Rightarrow> ('k, 'v) node option) \<Rightarrow>
    addr \<Rightarrow> shared \<Rightarrow> shared \<Rightarrow> ('k, 'v) lworld \<Rightarrow> bool" where
  "walking home t q n P F p pn c w \<longleftrightarrow> search home t q n P F p c w \<and> tag pn = 0 \<and>
     (\<exists>xs. marked_run (w_mem w) (raw pn) xs (raw c) \<and> (\<forall>x\<in>set xs. protected n (w_mem w) (w_ghost w) x))"

lemma search_rely:
  assumes s: "search home t q n P F p c w" and r: "hm_rely home t w w'"
  shows "search home t q n P F p c w'"
proof -
  have w: "at_work home t q n P {} F w" using s by (simp add: search_def)
  show ?thesis
    using s at_work_rely[OF w r] on_route_rely[OF _ r] anchor_follows[OF _ rely_follows[OF r at_work_pins[OF w]]]
    by (simp add: search_def)
qed

lemma walking_rely:
  assumes v: "walking home t q n P F p pn c w" and r: "hm_rely home t w w'"
  shows "walking home t q n P F p pn c w'"
proof -
  have s: "search home t q n P F p c w" "tag pn = 0" using v by (auto simp: walking_def)
  then have fol: "follows n (w_mem w) (w_ghost w) (w_mem w') (w_ghost w')"
    by (intro rely_follows[OF r at_work_pins]) (auto simp: search_def)
  from v obtain xs where xs: "marked_run (w_mem w) (raw pn) xs (raw c)" "\<And>x. x \<in> set xs \<Longrightarrow> protected n (w_mem w) (w_ghost w) x"
    by (auto simp: walking_def)
  have "marked_run (w_mem w') (raw pn) xs (raw c)" by (rule marked_run_follows[OF xs fol])
  moreover have "\<forall>x\<in>set xs. protected n (w_mem w') (w_ghost w') x" using xs(2) fol by (simp add: follows_def)
  ultimately show ?thesis using search_rely[OF s(1) r] s(2) by (auto simp: walking_def)
qed

definition walked ::
  "('k::linorder \<Rightarrow> addr) \<Rightarrow> tid \<Rightarrow> ('k, 'v) request \<Rightarrow> nat \<Rightarrow> addr set \<Rightarrow> (addr \<Rightarrow> ('k, 'v) node option) \<Rightarrow>
    bool \<times> cursor \<times> shared \<Rightarrow> ('k, 'v) lworld \<Rightarrow> bool" where
  "walked home t q n P F = (\<lambda>(found, c, pn) w. \<exists>p. prev c = (p, Next) \<and> walking home t q n P F p pn (curr c) w \<and>
     verdict t q n found (raw (curr c)) w)"

text \<open>One node further.\<close>

lemma walk_over:
  assumes v: "walking home t q n P F p pn c w" and a: "raw c \<noteq> 0" and mk: "marked (w_mem w) (raw c)"
  shows "walking home t q n P F p pn (with_tag (nxt (w_mem w) (raw c)) 0) w"
proof -
  let ?m = "w_mem w"
  have s: "search home t q n P F p c w" "tag pn = 0" using v by (auto simp: walking_def)
  then have w: "at_work home t q n P {} F w" "on_route home t w (raw c)" by (auto simp: search_def)
  from v obtain xs where xs: "marked_run ?m (raw pn) xs (raw c)" "\<forall>x\<in>set xs. protected n ?m (w_ghost w) x" by (auto simp: walking_def)
  have "marked_run ?m (raw pn) (xs @ [raw c]) (raw (nxt ?m (raw c)))" using xs(1) a mk by (simp add: marked_run_snoc)
  moreover have "\<forall>x\<in>set (xs @ [raw c]). protected n ?m (w_ghost w) x" using xs(2) on_route_at(1)[OF w a] by simp
  moreover have "on_route home t w (raw (nxt ?m (raw c)))" by (rule on_route_next[OF w a]) (use mk in simp)
  ultimately show ?thesis
    using s unfolding walking_def search_def by (auto intro!: exI[of _ "xs @ [raw c]"])
qed

lemma walk_on:
  assumes v: "walking home t q n P F p pn c w" and a: "raw c \<noteq> 0" "key_at (w_mem w) (raw c) < req_key q" and nx: "tag (nxt (w_mem w) (raw c)) = 0"
  shows "walking home t q n P F (raw c) (nxt (w_mem w) (raw c)) (nxt (w_mem w) (raw c)) w"
proof -
  have w: "at_work home t q n P {} F w" "on_route home t w (raw c)" using v by (auto simp: walking_def search_def)
  have "on_route home t w (raw (nxt (w_mem w) (raw c)))" by (rule on_route_next[OF w a(1)]) (use a in simp)
  moreover have "anchor home (req_key q) n (w_mem w) (w_ghost w) (raw c)" using on_route_at(1,2)[OF w a(1)] a(2) by (simp add: anchor_def)
  ultimately show ?thesis
    using w(1) nx unfolding walking_def search_def by (auto intro!: exI[of _ "[]"])
qed

lemma walk_verdict:
  assumes v: "walking home t q n P F p pn c w" and a: "raw c \<noteq> 0" "req_key q \<le> key_at (w_mem w) (raw c)" and nx: "tag (nxt (w_mem w) (raw c)) = 0"
  shows "verdict t q n (key_at (w_mem w) (raw c) = req_key q) (raw c) w"
proof -
  have w: "at_work home t q n P {} F w" "on_route home t w (raw c)" using v by (auto simp: walking_def search_def)
  have "\<not> marked (w_mem w) (raw c)" using nx by (simp add: marked_def)
  with on_route_found[OF w a(1)] on_route_at(1)[OF w a(1)] a show ?thesis by (auto simp: verdict_def)
qed

abbreviation harris_body :: "nat \<Rightarrow> ('k::linorder) \<Rightarrow> cursor \<Rightarrow> shared \<Rightarrow> ('k, 'v) node \<Rightarrow> shared \<Rightarrow> ('k, 'v, bool \<times> cursor \<times> shared) list_prog" where
  "harris_body i k c pn nd next \<equiv>
     (case (cmp (key nd) k, tag next) of
        (Less, t) \<Rightarrow>
          if t = 0 then find_harris_loop i k \<lparr>prev = (raw (curr c), Next), curr = with_tag next 0\<rparr> next
          else find_harris_loop i k (c\<lparr>curr := with_tag next 0\<rparr>) pn
      | (d, t) \<Rightarrow>
          if t = 0 then Ret (d = Equal, c, pn)
          else find_harris_loop i k (c\<lparr>curr := with_tag next 0\<rparr>) pn)"

lemma harris_body_cwp:
  assumes v: "walking home t q n P F p pn (curr c) w" and pc: "prev c = (p, Next)" "raw (curr c) \<noteq> 0"
    and nd: "key_at (w_mem w) (raw (curr c)) = key nd" and nx: "next = nxt (w_mem w) (raw (curr c))"
    and rec: "\<And>p pn c w. walking home t q n P F p pn (curr c) w \<Longrightarrow> prev c = (p, Next) \<Longrightarrow>
      lcwp home t (find_harris_loop i (req_key q) c pn) (walked home t q n P F) w"
  shows "lcwp home t (harris_body i (req_key q) c pn nd next) (walked home t q n P F) w"
proof (cases "tag next = 0")
  case False
  then have "walking home t q n P F p pn (with_tag next 0) w" using walk_over[OF v pc(2)] nx by (simp add: marked_def)
  then have "lcwp home t (find_harris_loop i (req_key q) (c\<lparr>curr := with_tag next 0\<rparr>) pn) (walked home t q n P F) w"
    by (intro rec) (use pc(1) in simp_all)
  with False show ?thesis by (auto split: ordering.splits)
next
  case True
  have same: "with_tag next 0 = next" using True with_tag_same[of "next"] by simp
  show ?thesis
  proof (cases "key nd < req_key q")
    case less: True
    have "walking home t q n P F (raw (curr c)) next next w" using walk_on[OF v pc(2)] less nd nx True by simp
    then have "lcwp home t (find_harris_loop i (req_key q) \<lparr>prev = (raw (curr c), Next), curr = next\<rparr> next) (walked home t q n P F) w"
      by (intro rec) simp_all
    with less True same show ?thesis by (simp add: cmp_def)
  next
    case False
    have "verdict t q n (key nd = req_key q) (raw (curr c)) w" using walk_verdict[OF v pc(2)] False nd nx True by simp
    with False True v pc(1) show ?thesis by (auto simp: cmp_def walked_def)
  qed
qed

lemma find_harris_loop_cwp:
  assumes "walking home t q n P F p pn (curr c) w" "prev c = (p, Next)"
  shows "lcwp home t (find_harris_loop i (req_key q) c pn) (walked home t q n P F) w"
  using assms
proof (induction i arbitrary: p pn c w)
  case (Suc i)
  let ?a = "raw (curr c)" and ?Q = "walked home t q n P F"
  note v = Suc.prems(1)
  have w: "at_work home t q n P {} F w" "on_route home t w ?a" using v by (auto simp: walking_def search_def)
  show ?case
  proof (cases "?a = 0")
    case True
    then show ?thesis using Suc.prems by (auto simp: walked_def verdict_def is_null_def)
  next
    case False
    note pr = on_route_at(1)[OF w False]
    obtain nd where nd: "obj (w_mem w) ?a = Some nd" using protected_node[OF pr] by blast
    have "lcwp home t (Deref (curr c) (\<lambda>nd. Load (?a, Next) (harris_body i (req_key q) c pn nd))) ?Q w"
    proof (rule deref_node_cwp[OF w(1) pr nd], goal_cases)
      case (1 w1)
      note v1 = walking_rely[OF v 1(1)]
      have o: "protected n (w_mem w1) (w_ghost w1) ?a" "obj (w_mem w1) ?a = Some nd" by (rule 1)+
      show ?case
      proof (rule load_cwp[OF 1(2)], goal_cases)
        case (1 w2)
        have "obj (w_mem w2) ?a = Some nd"
          using rely_follows[OF 1(1)] at_work_pins[OF \<open>at_work home t q n P {} F w1\<close>] o by (simp add: follows_def)
        with harris_body_cwp[OF walking_rely[OF v1 1(1)] Suc.prems(2) False _ refl Suc.IH, of nd] show ?case
          by (simp add: live_def key_at_def)
      qed
    qed
    with False show ?thesis by (simp add: is_null_def del: cwp.simps)
  qed
qed simp

text \<open>Retiring the run that has been unlinked.\<close>

lemma destroy_chain_cwp:
  assumes "cursor_ok home t q n P (set xs) F p c w" "verdict t q n found (raw c) w"
    and "marked_run (w_mem w) (raw node) xs (raw c)" "distinct xs" "raw c \<notin> set xs"
  shows "lcwp home t (destroy_chain i node c) (\<lambda>_ w. cursor_ok home t q n P {} F p c w \<and> verdict t q n found (raw c) w) w"
  using assms
proof (induction i arbitrary: node xs w)
  case (Suc i)
  let ?Q = "\<lambda>_ w. cursor_ok home t q n P {} F p c w \<and> verdict t q n found (raw c) w"
  note cu = Suc.prems(1)
  have tc: "tag c = 0" and w: "at_work home t q n P (set xs) F w" using cu by (auto simp: cursor_ok_def aim_def)
  show ?case
  proof (cases xs)
    case Nil
    then have "with_tag node 0 = c" using Suc.prems(3) tc by (simp add: with_tag_def shared_untagged)
    with Nil Suc.prems(1,2) show ?thesis by simp
  next
    case (Cons x ys)
    have x: "raw node = x" "x \<noteq> 0" "marked (w_mem w) x" "marked_run (w_mem w) (raw (nxt (w_mem w) x)) ys (raw c)"
      using Suc.prems(3) Cons by auto
    have ne: "with_tag node 0 \<noteq> c" "\<not> is_null node" using x(1,2) Suc.prems(5) Cons by (auto simp: is_null_def)
    have held: "nxt (w_mem w1) y = nxt (w_mem w) y" if "y \<in> set xs" "hm_rely home t w w1" for y w1
      using that w by (auto simp: hm_rely_def harmless_def at_work_def held_def)
    have "lcwp home t (Load (raw node, Next) (\<lambda>next. Defer_destroy node (destroy_chain i next c))) ?Q w"
    proof (rule load_cwp[OF w], goal_cases)
      case (1 w1)
      have "raw node \<in> held (w_ghost w1) t" using 1(2) Cons x(1) by (simp add: at_work_def held_def)
      then have "live (w_mem w1) (raw node)" using hm_okD(3)[OF at_work_ok[OF 1(2)]] by (auto simp: live_def)
      have run1: "marked_run (w_mem w1) (raw (nxt (w_mem w1) x)) ys (raw c)"
        using marked_run_cong[OF x(4), of "w_mem w1"] held[OF _ 1(1)] Cons by simp
      have v1: "verdict t q n found (raw c) w1" by (rule verdict_rely[OF Suc.prems(2) 1(1) at_work_pins[OF w]])
      have "lcwp home t (Defer_destroy node (destroy_chain i (nxt (w_mem w1) x) c)) ?Q w1"
      proof (rule retire_cursor_cwp[OF cursor_ok_rely[OF cu 1(1)]])
        show "raw node \<in> set xs" using Cons x(1) by simp
        fix w2 w' assume r2: "hm_rely home t w1 w2" and fol: "follows n (w_mem w2) (w_ghost w2) (w_mem w') (w_ghost w')"
          and same: "w_call w' t = w_call w2 t" "cell (w_mem w') = cell (w_mem w2)"
          and cu': "cursor_ok home t q n P (set xs - {raw node}) F p c w'"
        have D: "set xs - {raw node} = set ys" using Cons x(1) Suc.prems(4) by auto
        have "nxt (w_mem w2) y = nxt (w_mem w1) y" if "y \<in> set xs" for y
          using that 1(2) r2 by (auto simp: hm_rely_def harmless_def at_work_def held_def)
        then have "marked_run (w_mem w') (raw (nxt (w_mem w1) x)) ys (raw c)"
          using marked_run_cong[OF run1, of "w_mem w'"] same(2) Cons by simp
        moreover have "verdict t q n found (raw c) w'"
          by (rule verdict_cong[OF verdict_rely[OF v1 r2 at_work_pins[OF 1(2)]] fol]) (use same(1) in \<open>simp add: noted_def\<close>)
        ultimately show "lcwp home t (destroy_chain i (nxt (w_mem w1) x) c) ?Q w'"
          using cu' Suc.prems(4,5) Cons unfolding D by (intro Suc.IH) auto
      qed
      with \<open>live (w_mem w1) (raw node)\<close> x(1) show ?case by simp
    qed
    with ne show ?thesis by (simp del: cwp.simps)
  qed
qed simp

lemma find_harris_cwp:
  assumes "search home t q n P F p (curr c) w" "prev c = (p, Next)"
  shows "lcwp home t (find_harris i (req_key q) c) (find_done home t q n P F) w"
proof -
  have "walking home t q n P F p (curr c) (curr c) w"
    using assms(1) unfolding walking_def search_def by (auto intro!: exI[of _ "[]"])
  note loop = find_harris_loop_cwp[OF this assms(2)]
  show ?thesis
    unfolding find_harris_def
  proof (rule cwp_bind_mono[OF loop], goal_cases)
    case (1 x w1)
    obtain found c pn where x: "x = (found, c, pn)" by (cases x)
    with 1 obtain p where v: "prev c = (p, Next)" "walking home t q n P F p pn (curr c) w1" "verdict t q n found (raw (curr c)) w1"
      by (auto simp: walked_def)
    then have s: "search home t q n P F p (curr c) w1" "tag pn = 0" by (auto simp: walking_def)
    then have w1: "at_work home t q n P {} F w1" "anchor home (req_key q) n (w_mem w1) (w_ghost w1) p" "tag (curr c) = 0"
      by (auto simp: search_def)
    from v(2) obtain xs where xs: "marked_run (w_mem w1) (raw pn) xs (raw (curr c))"
      "\<And>x. x \<in> set xs \<Longrightarrow> protected n (w_mem w1) (w_ghost w1) x" by (auto simp: walking_def)
    let ?f = "\<lambda>r. case r of Inl _ \<Rightarrow> Ret (Inl (), c) | Inr _ \<Rightarrow> bind (destroy_chain i pn (curr c)) (\<lambda>_. Ret (Inr found, c))"
    have "lcwp home t (Compare_and_set (p, Next) pn (curr c) ?f) (find_done home t q n P F) w1"
    proof (rule unlink_cwp[OF w1(1,2) s(2) w1(3) xs], goal_cases)
      case (3 w2 w')
      have "verdict t q n found (raw (curr c)) w'"
        by (rule verdict_cong[OF verdict_rely[OF v(3) 3(1) at_work_pins[OF w1(1)]] 3(2)]) (use 3(3) in \<open>simp add: noted_def\<close>)
      then have "lcwp home t (bind (destroy_chain i pn (curr c)) (\<lambda>_. Ret (Inr found, c))) (find_done home t q n P F) w'"
        by (rule cwp_bind_mono[OF destroy_chain_cwp[OF 3(4) _ 3(5-7)]]) (use v(1) in \<open>auto simp: find_done_def\<close>)
      then show ?case by simp
    qed (simp_all add: find_done_def)
    moreover have "find_done home t q n P F (Inr found, c) w1"
      using v(1,3) search_cursor[OF s(1)] by (auto simp: find_done_def)
    ultimately show ?case using v(1) by (simp add: x del: cwp.simps(2-))
  qed
qed

interpretation harris: concurrent_finder "find_harris i :: ('k::linorder, 'v) finder" for i
  by (rule concurrent_finder.intro) (rule find_harris_cwp)

end
