(* ===== verification/Ebr_List_Correct.thy ===== *)
theory Ebr_List_Correct
  imports List_Spec Concurrent_Map
begin

text \<open>
  Correctness of the list code of \<^verbatim>\<open>src/src/ebr/list.rs\<close> run without interference:
  each search function meets a contract (\<open>list_getter\<close>, \<open>list_finder\<close>), and
  \<^verbatim>\<open>get\<close>, \<^verbatim>\<open>insert\<close> and \<^verbatim>\<open>remove\<close> are verified once against
  the contract.  The starting list may hold any number of marked nodes, as interrupted removals
  leave them.
\<close>

section \<open>The searches\<close>

subsection \<open>Harris\<close>

lemma find_harris_loop_wp:
  assumes inv: "list_inv m self (as @ bs @ rest)" and unm: "\<not> marked m (end_of self as)"
    and mk: "\<And>b. b \<in> set bs \<Longrightarrow> marked m b" and keys: "\<And>x. x \<in> set as \<Longrightarrow> key_at m x < k"
    and c: "prev c = (end_of self as, Next)" "curr c = Shared (head_of rest) 0"
    and pn: "pn = nxt m (end_of self as)" and fuel: "length rest < n"
    and post: "\<And>as' bs' cs c' found.
      as' @ bs' @ cs = as @ bs @ rest \<Longrightarrow> \<not> marked m (end_of self as') \<Longrightarrow>
      (\<And>b. b \<in> set bs' \<Longrightarrow> marked m b) \<Longrightarrow> (\<And>x. x \<in> set as' \<Longrightarrow> key_at m x < k) \<Longrightarrow>
      prev c' = (end_of self as', Next) \<Longrightarrow> curr c' = Shared (head_of cs) 0 \<Longrightarrow>
      (cs \<noteq> [] \<Longrightarrow> k \<le> key_at m (hd cs) \<and> \<not> marked m (hd cs)) \<Longrightarrow>
      (found \<longleftrightarrow> cs \<noteq> [] \<and> key_at m (hd cs) = k) \<Longrightarrow>
      Q (found, c', nxt m (end_of self as')) m"
  shows "wp (find_harris_loop n k c pn) Q m"
  using inv unm mk keys c pn fuel post
proof (induction rest arbitrary: as bs c pn n)
  case Nil
  then obtain n' where "n = Suc n'" by (cases n) auto
  with Nil.prems(6,7) Nil.prems(9)[of as bs "[]" c False] Nil.prems(2-5) show ?case by simp
next
  case (Cons x rest)
  then obtain n' where n: "n = Suc n'" by (cases n) auto
  from list_inv_node[of m self "as @ bs" x rest] Cons.prems(1)
  obtain nd where nd: "obj m x = Some nd" and key: "key nd = key_at m x" and x0: "x \<noteq> 0"
    and raw: "raw (nxt m x) = head_of rest"
    by auto
  have c': "with_tag (nxt m x) 0 = Shared (head_of rest) 0"
    using raw by (simp add: with_tag_def)
  have bx: "key_at m b < key_at m x" if "b \<in> set bs" for b
    using Cons.prems(1) that by (auto simp: list_inv_def sorted_wrt_append)
  have skip: "wp (find_harris_loop n' k (c\<lparr>curr := with_tag (nxt m x) 0\<rparr>) pn) Q m"
    if "marked m x"
    using Cons.prems that c' n
    by (intro Cons.IH[of as "bs @ [x]"]) auto
  have adv: "wp (find_harris_loop n' k \<lparr>prev = (x, Next), curr = with_tag (nxt m x) 0\<rparr> (nxt m x)) Q m"
    if "\<not> marked m x" "key_at m x < k"
  proof (rule Cons.IH[of "as @ bs @ [x]" "[]"])
    show "key_at m y < k" if "y \<in> set (as @ bs @ [x])" for y
      using that Cons.prems(4) \<open>key_at m x < k\<close> bx by fastforce
  qed (use Cons.prems that c' n in auto)
  have stop: "Q (key_at m x = k, c, pn) m" if "\<not> marked m x" "\<not> key_at m x < k"
    using Cons.prems(9)[of as bs "x # rest" c "key_at m x = k"] Cons.prems(2-7) that by auto
  show ?case
    using n nd x0 skip adv stop Cons.prems(6) key
    by (auto simp: marked_def live_def cmp_def split: ordering.splits)
qed

lemma destroy_chain_wp:
  assumes "garbage_ok m" "leads m node bs (raw stop)" "tag stop = 0" "raw stop \<notin> set bs" "distinct bs"
    and "\<And>b. b \<in> set bs \<Longrightarrow> b \<noteq> 0 \<and> obj m b \<noteq> None \<and> b \<notin> statics m \<and> b \<notin> set (garbage m)"
    and "length bs < n"
    and "\<And>m'. garbage_ok m' \<Longrightarrow> frame (set bs) m m' \<Longrightarrow> retired m' = retired m @ bs \<Longrightarrow>
       dropped m' = dropped m \<Longrightarrow> freed m' = freed m \<Longrightarrow> shield m' = shield m \<Longrightarrow>
       ejections m' = ejections m \<Longrightarrow> Q () m'"
  shows "wp (destroy_chain n node stop) Q m"
  using assms
proof (induction bs arbitrary: m node n)
  case Nil
  then obtain n' where "n = Suc n'" by (cases n) auto
  with Nil show ?case by (auto simp: with_tag_eq_iff)
next
  case (Cons b bs)
  then obtain n' where n: "n = Suc n'" by (cases n) auto
  have b: "b \<noteq> 0" "obj m b \<noteq> None" "b \<notin> statics m" "b \<notin> set (garbage m)"
    using Cons.prems(6)[of b] by auto
  have "wp (destroy_chain n' (nxt m b) stop) Q (reclaim R (retire b m))" for R
  proof (rule Cons.IH)
    let ?m = "reclaim R (retire b m)"
    show "garbage_ok ?m" using Cons.prems(1) b by (intro garbage_ok_reclaim garbage_ok_retire)
    show "leads ?m (nxt m b) bs (raw stop)"
      using Cons.prems(2) leads_cong[of bs ?m m] by simp
    show "b' \<noteq> 0 \<and> obj ?m b' \<noteq> None \<and> b' \<notin> statics ?m \<and> b' \<notin> set (garbage ?m)" if "b' \<in> set bs" for b'
      using Cons.prems(5) Cons.prems(6)[of b'] that by (auto simp: restrict_map_def)
    show "Q () m'"
      if "garbage_ok m'" "frame (set bs) ?m m'" "retired m' = retired ?m @ bs"
        "dropped m' = dropped ?m" "freed m' = freed ?m" "shield m' = shield ?m"
        "ejections m' = ejections ?m" for m'
    proof (rule Cons.prems(8))
      show "frame (set (b # bs)) m m'"
        by (rule frame_trans_same[OF frame_retire that(2)]) auto
    qed (use that in auto)
  qed (use Cons.prems n in auto)
  then show ?case
    using Cons.prems(2,4) b n by (auto simp: with_tag_eq_iff is_null_def live_def)
qed

text \<open>
  What a search guarantees: the cursor is at the position of the key, the map is unchanged, and
  the nodes unlinked on the way are retired.
\<close>

definition find_post ::
  "addr \<Rightarrow> 'k::linorder \<Rightarrow> ('k, 'v) list_mem \<Rightarrow> addr list \<Rightarrow> bool \<Rightarrow> cursor \<Rightarrow> ('k, 'v) list_mem \<Rightarrow> bool" where
  "find_post self k m xs found c m' \<longleftrightarrow>
     (\<exists>as bs. located self k found c m' as bs \<and> contents m' (as @ bs) = contents m xs \<and>
        set (as @ bs) \<subseteq> set xs \<and> length (as @ bs) \<le> length xs \<and> list_step self m xs m' (as @ bs) \<and>
        dropped m' = dropped m \<and> freed m' = freed m)"

lemma find_postI:
  "located self k found c m' as bs \<Longrightarrow> contents m' (as @ bs) = contents m xs \<Longrightarrow>
   set (as @ bs) \<subseteq> set xs \<Longrightarrow> length (as @ bs) \<le> length xs \<Longrightarrow> list_step self m xs m' (as @ bs) \<Longrightarrow>
   dropped m' = dropped m \<Longrightarrow> freed m' = freed m \<Longrightarrow> find_post self k m xs found c m'"
  unfolding find_post_def by blast

text \<open>The weaker guarantee that \<^verbatim>\<open>get\<close> needs.\<close>

definition get_post ::
  "addr \<Rightarrow> 'k::linorder \<Rightarrow> ('k, 'v) list_mem \<Rightarrow> addr list \<Rightarrow> bool \<Rightarrow> cursor \<Rightarrow> ('k, 'v) list_mem \<Rightarrow> bool" where
  "get_post self k m xs found c m' \<longleftrightarrow>
     (\<exists>ys. list_inv m' self ys \<and> contents m' ys = contents m xs \<and> set ys \<subseteq> set xs \<and>
        length ys \<le> length xs \<and> list_step self m xs m' ys \<and>
        dropped m' = dropped m \<and> freed m' = freed m \<and>
        (found \<longrightarrow> raw (curr c) \<in> set ys) \<and>
        contents m xs k = (if found then Some (val_at m' (raw (curr c))) else None))"

lemma find_post_get_post:
  assumes "find_post self k m xs found c m'"
  shows "get_post self k m xs found c m'"
proof -
  from assms obtain as bs where l: "located self k found c m' as bs"
    and r: "contents m' (as @ bs) = contents m xs" "set (as @ bs) \<subseteq> set xs"
      "length (as @ bs) \<le> length xs" "list_step self m xs m' (as @ bs)"
      "dropped m' = dropped m" "freed m' = freed m"
    by (auto simp: find_post_def)
  moreover have "list_inv m' self (as @ bs)" using l by (simp add: located_def)
  moreover have "found \<longrightarrow> raw (curr c) \<in> set (as @ bs) \<and> raw (curr c) = hd bs"
    using l by (cases bs) (auto simp: located_def)
  moreover have "contents m xs k = (if found then Some (val_at m' (hd bs)) else None)"
    using located_contents[OF l] r(1) by simp
  ultimately show ?thesis
    unfolding get_post_def by (intro exI[of _ "as @ bs"]) auto
qed

locale list_getter =
  fixes F :: "nat \<Rightarrow> ('k::linorder, 'v) finder"
  assumes getter: "list_inv m self xs \<Longrightarrow> length xs < n \<Longrightarrow>
    wp (F n k \<lparr>prev = (self, Next), curr = nxt m self\<rparr>)
       (\<lambda>(r, c) m'. \<exists>found. r = Inr found \<and> get_post self k m xs found c m') m"
begin

lemma list_find_get:
  assumes "list_inv m self xs" "length xs < n" "0 < i"
  shows "wp (list_find i self k (F n)) (\<lambda>(found, c) m'. get_post self k m xs found c m') m"
proof -
  from assms(3) obtain j where "i = Suc j" by (cases i) auto
  moreover have "live m self" using assms(1) by (auto simp: list_inv_def)
  ultimately show ?thesis
    by (auto simp: wp_bind intro!: wp_mono[OF getter[OF assms(1,2)]])
qed

lemma list_get_wp:
  assumes "list_inv m self xs" "length xs < n"
  shows "wp (list_get n self k (F n))
    (\<lambda>r m'. \<exists>ys. r = contents m xs k \<and> list_inv m' self ys \<and> contents m' ys = contents m xs \<and>
       set ys \<subseteq> set xs \<and> length ys \<le> length xs \<and> list_step self m xs m' ys \<and>
       dropped m' = dropped m \<and> freed m' = freed m) m"
  unfolding list_get_def
proof (rule wp_bind_mono[OF list_find_get[OF assms]], goal_cases)
  case 1
  show ?case using assms by auto
next
  case (2 fc m')
  then obtain found c ys where fc: "fc = (found, c)"
    and p: "list_inv m' self ys" "contents m' ys = contents m xs" "set ys \<subseteq> set xs"
      "length ys \<le> length xs" "list_step self m xs m' ys" "dropped m' = dropped m" "freed m' = freed m"
      "found \<longrightarrow> raw (curr c) \<in> set ys"
      "contents m xs k = (if found then Some (val_at m' (raw (curr c))) else None)"
    by (auto simp: get_post_def)
  have "\<exists>nd. obj m' (raw (curr c)) = Some nd \<and> val nd = val_at m' (raw (curr c)) \<and> \<not> is_null (curr c)" if found
    using p(1,8) that list_inv_obj[OF p(1)] list_inv_nonnull[of m' self ys]
    by (fastforce simp: val_at_def is_null_def list_inv_def)
  with fc p show ?case by (auto split: if_splits)
qed

end

subsection \<open>The contracts of the searches\<close>

text \<open>
  \<^verbatim>\<open>insert\<close>: adds the key if it is absent; otherwise the map is unchanged and the
  freshly allocated node is taken apart again (its value dropped, the node freed).
\<close>

definition insert_post ::
  "addr \<Rightarrow> 'k::linorder \<Rightarrow> 'v \<Rightarrow> ('k, 'v) list_mem \<Rightarrow> addr list \<Rightarrow> bool \<Rightarrow> ('k, 'v) list_mem \<Rightarrow> bool" where
  "insert_post self k v m xs r m' \<longleftrightarrow>
     (\<exists>zs. list_inv m' self zs \<and> r = (contents m xs k = None) \<and>
        contents m' zs = (if r then (contents m xs)(k \<mapsto> v) else contents m xs) \<and>
        length zs \<le> Suc (length xs) \<and> list_step self m xs m' zs \<and>
        (if r then dropped m' = dropped m \<and> freed m' = freed m
         else \<exists>a. \<not> live m a \<and> dropped m' = dropped m @ [a] \<and> freed m' = freed m @ [a]))"

text \<open>
  \<^verbatim>\<open>remove\<close>: returns the value of the key and takes the key out of the map.  The
  removed node is retired, its value is moved out and not dropped.
\<close>

definition remove_post ::
  "addr \<Rightarrow> 'k::linorder \<Rightarrow> ('k, 'v) list_mem \<Rightarrow> addr list \<Rightarrow> 'v option \<Rightarrow> ('k, 'v) list_mem \<Rightarrow> bool" where
  "remove_post self k m xs r m' \<longleftrightarrow>
     (\<exists>zs. list_inv m' self zs \<and> r = contents m xs k \<and>
        contents m' zs = (contents m xs)(k := None) \<and> set zs \<subseteq> set xs \<and> length zs \<le> length xs \<and>
        list_step self m xs m' zs \<and> dropped m' = dropped m \<and> freed m' = freed m)"

lemma list_step_insert:
  assumes "fresh m a" "list_step self (alloc a n fs m) xs m2 ys" "garbage_ok m"
    and "frame (insert a (insert self (set ys))) m2 m3" "retired m3 = retired m2"
    and "garbage m3 = garbage m2" "set ys \<subseteq> set xs" "set zs \<subseteq> insert a (set ys)" "set ys \<subseteq> set zs"
    and "a \<notin> set xs"
  shows "list_step self m xs m3 zs"
proof -
  have nl: "\<not> live m a" using assms(1) by (simp add: fresh_def live_def)
  have "frame (insert self (set xs)) m m2"
    using assms(2) by (intro frame_trans_same[OF frame_alloc[OF assms(1)]]) (auto simp: list_step_def)
  from frame_trans[OF this assms(4)] nl assms(7)
  have "frame (insert self (set xs) \<union> {a. \<not> live m a}) m m3" by auto
  moreover have "set (garbage m3) \<subseteq> set (garbage m) \<union> insert self (set xs)"
    using assms(2,6) by (auto simp: list_step_def frame_def)
  ultimately have "frame (insert self (set xs)) m m3" by (rule frame_not_live)
  moreover have "set xs - set zs = set xs - set ys" using assms(8-10) by auto
  ultimately show ?thesis
    using assms(2,5,7,8) nl by (auto simp: list_step_def)
qed

text \<open>The steps after a search that do not depend on how the search was done.\<close>

lemma list_inv_alloc:
  assumes "list_inv m self xs" "fresh m a"
  shows "list_inv (alloc a nd fs m) self xs" "contents (alloc a nd fs m) xs = contents m xs"
proof -
  have "garbage_ok (alloc a nd fs m)" using assms by (simp add: list_inv_def garbage_ok_alloc)
  then show "list_inv (alloc a nd fs m) self xs" "contents (alloc a nd fs m) xs = contents m xs"
    using list_inv_frame[OF assms(1) frame_alloc[OF assms(2), of "{}"]] by auto
qed

lemma find_post_obtain:
  assumes "find_post self k m xs found c m2"
  obtains as bs where "located self k found c m2 as bs" "list_inv m2 self (as @ bs)"
    "contents m2 (as @ bs) = contents m xs" "set (as @ bs) \<subseteq> set xs"
    "length (as @ bs) \<le> length xs" "list_step self m xs m2 (as @ bs)"
    "dropped m2 = dropped m" "freed m2 = freed m"
  using assms that unfolding find_post_def located_def by blast

text \<open>The node of an insertion is not touched by the search.\<close>

lemma alloc_find_node:
  assumes inv: "list_inv m self xs" and fr: "fresh m a"
    and step: "list_step self (alloc a nd fs m) xs m2 ys"
  shows "obj m2 a = Some nd" "a \<notin> set (garbage m2)" "a \<noteq> 0" "a \<notin> statics m2" "a \<notin> insert self (set xs)"
    "statics m2 = statics m"
proof -
  have g: "garbage_ok m" using inv by (simp add: list_inv_def)
  have nl: "\<not> live m a" "a \<noteq> 0" "a \<notin> statics m" using fr by (auto simp: fresh_def live_def)
  then show out: "a \<notin> insert self (set xs)" using inv by (auto simp: list_inv_def live_def)
  have f: "frame (insert self (set xs)) (alloc a nd fs m) m2" using step by (simp add: list_step_def)
  from frame_at[OF f out] garbage_ok_fresh[OF g fr]
  show "obj m2 a = Some nd" "a \<notin> set (garbage m2)" by simp_all
  from frame_statics[OF f] nl show "a \<noteq> 0" "a \<notin> statics m2" "statics m2 = statics m" by simp_all
qed

lemma insert_found:
  assumes inv: "list_inv m self xs" and fr: "fresh m a"
    and fp: "find_post self k (alloc a nd fs m) xs True c m2"
  shows "obj m2 a = Some nd" "a \<notin> set (garbage m2)"
    "insert_post self k v m xs False (free a (drop_val a m2))"
proof -
  obtain as bs where l: "located self k True c m2 as bs" "list_inv m2 self (as @ bs)"
      "contents m2 (as @ bs) = contents (alloc a nd fs m) xs" "set (as @ bs) \<subseteq> set xs"
      "length (as @ bs) \<le> length xs" "list_step self (alloc a nd fs m) xs m2 (as @ bs)"
      "dropped m2 = dropped (alloc a nd fs m)" "freed m2 = freed (alloc a nd fs m)"
    using fp by (rule find_post_obtain)
  note a = alloc_find_node[OF inv fr l(6)]
  then show "obj m2 a = Some nd" "a \<notin> set (garbage m2)" by simp_all
  have g: "garbage_ok m" "garbage_ok m2" using inv l(2) by (simp_all add: list_inv_def)
  let ?m3 = "free a (drop_val a m2)"
  have f3: "frame {a} m2 ?m3" by (rule frame_trans_same[OF frame_drop_val frame_free]) auto
  have g3: "garbage_ok ?m3" using g a by (intro garbage_ok_free) auto
  have "{a} \<inter> set (self # as @ bs) = {}" using a l(4) by auto
  note inv3 = list_inv_frame[OF l(2) f3 g3 this]
  have "list_step self m xs ?m3 (as @ bs)"
    using f3 l(4) a by (intro list_step_insert[OF fr l(6) g(1) frame_mono[OF f3]]) auto
  moreover have "\<not> live m a" using fr by (auto simp: fresh_def live_def)
  ultimately show "insert_post self k v m xs False ?m3"
    unfolding insert_post_def
    using inv3 l located_contents[OF l(1)] list_inv_alloc(2)[OF inv fr, of nd fs]
    by (intro exI[of _ "as @ bs"]) auto
qed

lemma insert_absent:
  assumes inv: "list_inv m self xs" and fr: "fresh m a"
    and fp: "find_post self k (alloc a \<lparr>key = k, val = v\<rparr> fs m) xs False c m2"
  shows "obj m2 a \<noteq> None" "live m2 (fst (prev c))" "cell (set_cell (a, Next) (curr c) m2) (prev c) = curr c"
    "insert_post self k v m xs True (set_cell (prev c) (Shared a 0) (set_cell (a, Next) (curr c) m2))"
proof -
  let ?m1 = "alloc a \<lparr>key = k, val = v\<rparr> fs m"
  obtain as bs where l: "located self k False c m2 as bs" "list_inv m2 self (as @ bs)"
      "contents m2 (as @ bs) = contents ?m1 xs" "set (as @ bs) \<subseteq> set xs"
      "length (as @ bs) \<le> length xs" "list_step self ?m1 xs m2 (as @ bs)"
      "dropped m2 = dropped ?m1" "freed m2 = freed ?m1"
    using fp by (rule find_post_obtain)
  note a = alloc_find_node[OF inv fr l(6)] and lk = located_link[OF l(1)]
  have p: "prev c = (end_of self as, Next)" using l(1) by (simp add: located_def)
  have ne: "a \<noteq> end_of self as" using a l(4) end_of_in[of self as] by auto
  from a lk p ne show "obj m2 a \<noteq> None" "live m2 (fst (prev c))"
    "cell (set_cell (a, Next) (curr c) m2) (prev c) = curr c" by simp_all
  let ?m4 = "set_cell (end_of self as, Next) (Shared a 0) (set_cell (a, Next) (curr c) m2)"
  have link: "list_inv ?m4 self (as @ a # bs)" "contents ?m4 (as @ a # bs) = (contents m2 (as @ bs))(k \<mapsto> v)"
    using link_node[OF l(1), of a v ?m4] a l(4) by auto
  have "frame (insert a (insert self (set (as @ bs)))) m2 ?m4"
    using end_of_in[of self as] by (intro frame_trans_same[OF frame_set_cell frame_set_cell]) auto
  then have "list_step self m xs ?m4 (as @ a # bs)"
    using l(4) a inv by (intro list_step_insert[OF fr l(6)]) (auto simp: list_inv_def)
  then show "insert_post self k v m xs True (set_cell (prev c) (Shared a 0) (set_cell (a, Next) (curr c) m2))"
    unfolding insert_post_def p
    using link l located_contents[OF l(1)] list_inv_alloc(2)[OF inv fr, of "\<lparr>key = k, val = v\<rparr>" fs]
    by (intro exI[of _ "as @ a # bs"]) auto
qed

lemma remove_absent:
  assumes "find_post self k m xs False c m2"
  shows "remove_post self k m xs None m2"
proof -
  obtain as bs where l: "located self k False c m2 as bs" "list_inv m2 self (as @ bs)"
      "contents m2 (as @ bs) = contents m xs" "set (as @ bs) \<subseteq> set xs"
      "length (as @ bs) \<le> length xs" "list_step self m xs m2 (as @ bs)"
      "dropped m2 = dropped m" "freed m2 = freed m"
    using assms by (rule find_post_obtain)
  from located_contents[OF l(1)] l(3) have "contents m xs k = None" by simp
  with l show ?thesis
    unfolding remove_post_def by (intro exI[of _ "as @ bs"]) (auto simp: fun_upd_idem)
qed

lemma remove_found:
  assumes "find_post self k m xs True c m2"
  obtains nd where "obj m2 (raw (curr c)) = Some nd" "\<not> is_null (curr c)"
    "tag (nxt m2 (raw (curr c))) = 0" "raw (curr c) \<notin> set (garbage m2)" "live m2 (fst (prev c))"
    "prev c \<noteq> (raw (curr c), Next)" "cell m2 (prev c) = curr c"
    "\<And>R. remove_post self k m xs (Some (val nd)) (reclaim R (retire (raw (curr c))
      (set_cell (prev c) (nxt m2 (raw (curr c)))
        (set_cell (raw (curr c), Next) (with_tag (nxt m2 (raw (curr c))) 1) m2))))"
proof -
  obtain as bs where l: "located self k True c m2 as bs" "list_inv m2 self (as @ bs)"
      "contents m2 (as @ bs) = contents m xs" "set (as @ bs) \<subseteq> set xs"
      "length (as @ bs) \<le> length xs" "list_step self m xs m2 (as @ bs)"
      "dropped m2 = dropped m" "freed m2 = freed m"
    using assms by (rule find_post_obtain)
  then obtain b bs' where bs: "bs = b # bs'" and b: "key_at m2 b = k" "\<not> marked m2 b"
    and c: "curr c = Shared b 0" "prev c = (end_of self as, Next)"
    by (cases bs) (auto simp: located_def)
  from list_inv_node[of m2 self as b bs'] l(2) bs obtain nd
    where nd: "obj m2 b = Some nd" "val nd = val_at m2 b" "b \<noteq> 0" "raw (nxt m2 b) = head_of bs'"
      "b \<notin> statics m2" "b \<notin> set (garbage m2)" by auto
  let ?m3 = "set_cell (b, Next) (with_tag (nxt m2 b) 1) m2"
  let ?m4 = "set_cell (end_of self as, Next) (nxt m2 b) ?m3"
  have tag: "tag (nxt m2 b) = 0" using b by (simp add: marked_def)
  have ne: "end_of self as \<noteq> b" using list_inv_split(5)[OF l(2)] bs by auto
  note mk = mark_node[OF l(2)[unfolded bs] b(2)]
  have unm: "\<not> marked ?m3 (end_of self as)" using l(1) ne by (simp add: located_def marked_def)
  have p: "nxt m2 b = Shared (head_of bs') 0" using nd tag by (simp add: shared_eq_iff)
  have mk3: "list_inv ?m3 self (as @ [b] @ bs')" using mk(1) by simp
  have mb: "\<And>x. x \<in> set [b] \<Longrightarrow> marked ?m3 x" by (simp add: marked_def)
  have ul: "list_inv ?m4 self (as @ bs')" "contents ?m4 (as @ bs') = contents ?m3 (as @ b # bs')"
    using unlink_run[OF mk3 unm mb p] by simp_all
  have bout: "b \<notin> set (as @ bs')" using l(2) bs by (auto simp: list_inv_def)
  have fin: "remove_post self k m xs (Some (val nd)) (reclaim R (retire b ?m4))" for R
  proof -
    let ?m5 = "reclaim R (retire b ?m4)"
    note ro = retire_outside[OF ul(1) bout, of R, simplified, OF _ nd(5,6)]
    have "frame (insert self (set (as @ bs))) m2 ?m4"
      using end_of_in[of self as] bs by (intro frame_trans_same[OF frame_set_cell frame_set_cell]) auto
    then have "list_step self m2 (as @ bs) ?m5 (as @ bs')"
      using bout bs by (intro list_step_retire) auto
    then have "list_step self m xs ?m5 (as @ bs')"
      using l(4) bs by (intro list_step_trans[OF l(6)]) auto
    moreover have "contents m xs k = Some (val nd)"
      using located_contents[OF l(1)] l(3) bs nd(2) by simp
    ultimately show ?thesis
      unfolding remove_post_def using ro ul mk(2) l b bs nd by (intro exI[of _ "as @ bs'"]) auto
  qed
  show thesis
    using that[of nd] nd c tag ne located_link[OF l(1)] fin by (auto simp: is_null_def)
qed

locale list_finder =
  fixes F :: "nat \<Rightarrow> ('k::linorder, 'v) finder"
  assumes finder: "list_inv m self xs \<Longrightarrow> length xs < n \<Longrightarrow>
    wp (F n k \<lparr>prev = (self, Next), curr = nxt m self\<rparr>)
       (\<lambda>(r, c) m'. \<exists>found. r = Inr found \<and> find_post self k m xs found c m') m"
begin

sublocale list_getter F
proof (unfold_locales, goal_cases)
  case (1 m self xs n k)
  show ?case
    by (rule wp_mono[OF finder[OF 1]]) (auto intro: find_post_get_post)
qed

lemma list_find_wp:
  assumes "list_inv m self xs" "length xs < n" "0 < i"
  shows "wp (list_find i self k (F n)) (\<lambda>(found, c) m'. find_post self k m xs found c m') m"
proof -
  from assms(3) obtain j where "i = Suc j" by (cases i) auto
  moreover have "live m self" using assms(1) by (auto simp: list_inv_def)
  ultimately show ?thesis
    by (auto simp: wp_bind intro!: wp_mono[OF finder[OF assms(1,2)]])
qed

lemma list_insert_wp:
  assumes inv: "list_inv m self xs" and fuel: "length xs < n"
  shows "wp (list_insert n self k v (F n)) (insert_post self k v m xs) m"
proof -
  from fuel obtain n' where n: "n = Suc n'" by (cases n) auto
  have "wp (list_insert_loop n n self k (F n) (Shared a 0)) (insert_post self k v m xs)
         (alloc a \<lparr>key = k, val = v\<rparr> [(Next, null)] m)" if fr: "fresh m a" for a
  proof -
    let ?m1 = "alloc a \<lparr>key = k, val = v\<rparr> [(Next, null)] m"
    have body: "wp (case fc of (found, cursor) \<Rightarrow>
            if found then Drop_value (Shared a 0) (Drop_owned (Shared a 0) (Ret False))
            else Store (raw (Shared a 0), Next) (curr cursor)
              (Compare_and_set (prev cursor) (curr cursor) (Shared a 0) (\<lambda>r.
                case r of Inr _ \<Rightarrow> Ret True | Inl _ \<Rightarrow> list_insert_loop n' n self k (F n) (Shared a 0))))
          (insert_post self k v m xs) m2"
      if fp: "(case fc of (found, c) \<Rightarrow> find_post self k ?m1 xs found c) m2" for fc :: "bool \<times> cursor" and m2
    proof -
      from fp obtain found c where fc: "fc = (found, c)" and post: "find_post self k ?m1 xs found c m2"
        by (cases fc) auto
      show ?thesis
      proof (cases found)
        case True
        with insert_found[OF inv fr] post fc show ?thesis by fastforce
      next
        case False
        with post have "find_post self k ?m1 xs False c m2" by simp
        from insert_absent[OF inv fr this] False fc show ?thesis by (auto simp del: set_cell_fields(1))
      qed
    qed
    have "0 < n" using n by simp
    then have "wp (list_insert_loop (Suc n') n self k (F n) (Shared a 0)) (insert_post self k v m xs) ?m1"
      unfolding list_insert_loop.simps
      by (rule wp_bind_mono[OF list_find_wp[OF list_inv_alloc(1)[OF inv fr] fuel] body])
    then show ?thesis using n by simp
  qed
  then show ?thesis by (simp add: list_insert_def)
qed

lemma list_remove_wp:
  assumes inv: "list_inv m self xs" and fuel: "length xs < n"
  shows "wp (list_remove n self k (F n)) (remove_post self k m xs) m"
proof -
  from fuel obtain n' where n: "n = Suc n'" by (cases n) auto
  have body: "wp (case fc of (found, cursor) \<Rightarrow>
       if \<not> found then Ret None
       else if is_null (curr cursor) then Panic
       else Deref (curr cursor) (\<lambda>curr_node.
         let v = val curr_node in
         Fetch_or (raw (curr cursor), Next) 1 (\<lambda>next.
           if tag next = 1 then list_remove_loop n' n self k (F n)
           else Compare_and_set (prev cursor) (curr cursor) next (\<lambda>r.
             case r of
               Inr _ \<Rightarrow> Defer_destroy (curr cursor) (Ret (Some v))
             | Inl _ \<Rightarrow> Ret (Some v)))))
     (remove_post self k m xs) m2"
    if fp: "(case fc of (found, c) \<Rightarrow> find_post self k m xs found c) m2" for fc :: "bool \<times> cursor" and m2
  proof -
    from fp obtain found c where fc: "fc = (found, c)" and post: "find_post self k m xs found c m2"
      by (cases fc) auto
    show ?thesis
    proof (cases found)
      case False
      with remove_absent[of self k m xs c m2] post fc show ?thesis by simp
    next
      case True
      with post have "find_post self k m xs True c m2" by simp
      from remove_found[OF this] obtain nd where r: "obj m2 (raw (curr c)) = Some nd"
          "\<not> is_null (curr c)" "tag (nxt m2 (raw (curr c))) = 0" "raw (curr c) \<notin> set (garbage m2)"
          "live m2 (fst (prev c))" "prev c \<noteq> (raw (curr c), Next)" "cell m2 (prev c) = curr c"
        and fin: "\<And>R. remove_post self k m xs (Some (val nd)) (reclaim R (retire (raw (curr c))
          (set_cell (prev c) (nxt m2 (raw (curr c)))
            (set_cell (raw (curr c), Next) (with_tag (nxt m2 (raw (curr c))) 1) m2))))"
        by blast
      from True fc r fin show ?thesis by (auto simp: Let_def)
    qed
  qed
  have "0 < n" using n by simp
  then have "wp (list_remove_loop (Suc n') n self k (F n)) (remove_post self k m xs) m"
    unfolding list_remove_loop.simps by (rule wp_bind_mono[OF list_find_wp[OF inv fuel] body])
  then show ?thesis using n by (simp add: list_remove_def)
qed

end

text \<open>
  Where the finding phase of Harris's search stops: after \<open>as\<close>, all of whose keys are
  below \<open>k\<close>, comes a run \<open>bs\<close> of marked nodes and then \<open>cs\<close>, whose first
  node is unmarked and at or above \<open>k\<close>.
\<close>

definition harris_stop ::
  "addr \<Rightarrow> 'k::linorder \<Rightarrow> ('k, 'v) list_mem \<Rightarrow> addr list \<Rightarrow> addr list \<Rightarrow> addr list \<Rightarrow> bool \<Rightarrow> bool" where
  "harris_stop self k m as bs cs found \<longleftrightarrow>
     list_inv m self (as @ bs @ cs) \<and> \<not> marked m (end_of self as) \<and>
     (\<forall>b\<in>set bs. marked m b) \<and> (\<forall>x\<in>set as. key_at m x < k) \<and>
     (cs \<noteq> [] \<longrightarrow> k \<le> key_at m (hd cs) \<and> \<not> marked m (hd cs)) \<and>
     (found \<longleftrightarrow> cs \<noteq> [] \<and> key_at m (hd cs) = k)"

definition harris_cursor :: "addr \<Rightarrow> addr list \<Rightarrow> addr list \<Rightarrow> cursor" where
  "harris_cursor self as cs = \<lparr>prev = (end_of self as, Next), curr = Shared (head_of cs) 0\<rparr>"

lemma harris_cursor_sel [simp]:
  "prev (harris_cursor self as cs) = (end_of self as, Next)"
  "curr (harris_cursor self as cs) = Shared (head_of cs) 0"
  by (simp_all add: harris_cursor_def)

lemma harris_stop_node:
  assumes "harris_stop self k m as bs cs found" "b \<in> set bs"
  shows "b \<noteq> 0" "obj m b \<noteq> None" "b \<notin> statics m" "b \<notin> set (garbage m)"
  using assms list_inv_nonnull[of m self "as @ bs @ cs" b] by (auto simp: harris_stop_def list_inv_def)

lemma harris_stop_live:
  assumes "harris_stop self k m as bs cs found"
  shows "live m (end_of self as)"
proof -
  have "end_of self as \<in> set (self # as @ bs @ cs)" using end_of_in[of self as] by auto
  moreover have "list_inv m self (as @ bs @ cs)" using assms by (simp add: harris_stop_def)
  ultimately show ?thesis by (rule list_inv_live[rotated])
qed

text \<open>Nothing to unlink.\<close>

lemma harris_adjacent:
  assumes st: "harris_stop self k m as bs cs found" and adj: "nxt m (end_of self as) = Shared (head_of cs) 0"
  shows "find_post self k m (as @ bs @ cs) found (harris_cursor self as cs) m"
proof -
  have inv: "list_inv m self (as @ bs @ cs)" using st by (simp add: harris_stop_def)
  have bs: "bs = []"
  proof (rule ccontr)
    assume "bs \<noteq> []"
    then obtain b bs' where b: "bs = b # bs'" by (cases bs) auto
    with list_inv_split(3)[OF inv] adj have "b = head_of cs" by simp
    with harris_stop_node(1)[OF st, of b] b have "b \<in> set cs" by (cases cs) auto
    with list_inv_split(6)[of m self "as @ bs" cs] inv b show False by auto
  qed
  then have "located self k found (harris_cursor self as cs) m as cs"
    using st by (auto simp: located_def harris_stop_def)
  with bs show ?thesis by (auto intro!: find_postI[of self k found _ m as cs])
qed

text \<open>Unlinking the run and retiring its nodes.\<close>

lemma harris_unlinked:
  assumes st: "harris_stop self k m as bs cs found"
    and m': "garbage_ok m'" "frame (set bs) (set_cell (end_of self as, Next) (Shared (head_of cs) 0) m) m'"
      "retired m' = retired m @ bs" "dropped m' = dropped m" "freed m' = freed m"
  shows "find_post self k m (as @ bs @ cs) found (harris_cursor self as cs) m'"
proof -
  let ?m = "set_cell (end_of self as, Next) (Shared (head_of cs) 0) m"
  have inv: "list_inv m self (as @ bs @ cs)" and unm: "\<not> marked m (end_of self as)"
    and mk: "\<And>b. b \<in> set bs \<Longrightarrow> marked m b"
    using st by (auto simp: harris_stop_def)
  note sp = list_inv_split[OF inv] and sp2 = list_inv_split[of m self "as @ bs" cs, simplified, OF inv]
  note ul = unlink_run[OF inv unm mk refl]
  have loc: "located self k found (harris_cursor self as cs) ?m as cs"
    using ul(1) st by (cases cs) (auto simp: located_def marked_def key_at_def harris_stop_def)
  have "set bs \<inter> set (self # as @ cs) = {}" using sp sp2 by auto
  note lf = located_frame[OF loc m'(2,1) this]
  have "frame (insert self (set (as @ bs @ cs))) m m'"
    using end_of_in[of self as] by (intro frame_trans_same[OF frame_set_cell m'(2)]) auto
  moreover have "mset bs = mset_set (set (as @ bs @ cs) - set (as @ cs))"
  proof -
    have "set (as @ bs @ cs) - set (as @ cs) = set bs" "distinct bs"
      using sp(6) sp2(6) inv by (auto simp: list_inv_def)
    then show ?thesis by (simp add: mset_set_set)
  qed
  ultimately have "list_step self m (as @ bs @ cs) m' (as @ cs)"
    using m'(3) by (auto simp: list_step_def)
  with lf ul(2) m' show ?thesis
    by (intro find_postI[of self k found _ m' as cs]) auto
qed

lemma harris_cleanup_wp:
  assumes st: "harris_stop self k m as bs cs found" and fuel: "length bs < n"
    and post: "\<And>m'. find_post self k m (as @ bs @ cs) found (harris_cursor self as cs) m' \<Longrightarrow>
      shield m' = shield m \<Longrightarrow> ejections m' = ejections m \<Longrightarrow> Q () m'"
  shows "wp (destroy_chain n (nxt m (end_of self as)) (Shared (head_of cs) 0)) Q
    (set_cell (end_of self as, Next) (Shared (head_of cs) 0) m)"
proof (rule destroy_chain_wp[where bs = bs])
  let ?m = "set_cell (end_of self as, Next) (Shared (head_of cs) 0) m" and ?pn = "nxt m (end_of self as)"
  have inv: "list_inv m self (as @ bs @ cs)" using st by (simp add: harris_stop_def)
  note sp = list_inv_split[OF inv] and sp2 = list_inv_split[of m self "as @ bs" cs, simplified, OF inv]
  have "leads m ?pn bs (head_of cs)"
    using inv by (intro chain_leads) (auto simp: list_inv_def chain_append)
  moreover have "leads ?m ?pn bs (head_of cs) = leads m ?pn bs (head_of cs)"
    using sp(5) by (intro leads_cong) auto
  ultimately show "leads ?m ?pn bs (raw (Shared (head_of cs) 0))" by simp
  show "raw (Shared (head_of cs) 0) \<notin> set bs"
    using sp2(6) harris_stop_node(1)[OF st] by (cases cs) auto
  show "distinct bs" "garbage_ok ?m" using inv by (auto simp: list_inv_def)
  show "b \<noteq> 0 \<and> obj ?m b \<noteq> None \<and> b \<notin> statics ?m \<and> b \<notin> set (garbage ?m)" if "b \<in> set bs" for b
    using harris_stop_node[OF st that] by simp
  show "Q () m'" if "garbage_ok m'" "frame (set bs) ?m m'" "retired m' = retired ?m @ bs"
    "dropped m' = dropped ?m" "freed m' = freed ?m" "shield m' = shield ?m" "ejections m' = ejections ?m" for m'
    using that by (intro post harris_unlinked[OF st]) auto
qed (use fuel in auto)

lemma find_harris_wp:
  fixes m :: "('k::linorder, 'v) list_mem"
  assumes inv: "list_inv m self xs" and fuel: "length xs < n"
  shows "wp (find_harris n k \<lparr>prev = (self, Next), curr = nxt m self\<rparr>)
       (\<lambda>(r, c) m'. \<exists>found. r = Inr found \<and> find_post self k m xs found c m') m"
  unfolding find_harris_def wp_bind
proof (rule find_harris_loop_wp[where as = "[]" and bs = "[]" and rest = xs])
  have "chain m self xs" "tag (nxt m self) = 0" using inv by (auto simp: list_inv_def)
  then show "curr \<lparr>prev = (self, Next), curr = nxt m self\<rparr> = Shared (head_of xs) 0"
    by (simp add: chain_iff shared_eq_iff)
  show "\<not> marked m (end_of self [])" using inv by (simp add: marked_def list_inv_def)
next
  fix as bs cs and c :: cursor and found
  assume xs: "as @ bs @ cs = [] @ [] @ xs" and unm: "\<not> marked m (end_of self as)"
    and mk: "\<And>b. b \<in> set bs \<Longrightarrow> marked m b" and keys: "\<And>x. x \<in> set as \<Longrightarrow> key_at m x < k"
    and c: "prev c = (end_of self as, Next)" "curr c = Shared (head_of cs) 0"
    and cs: "cs \<noteq> [] \<Longrightarrow> k \<le> key_at m (hd cs) \<and> \<not> marked m (hd cs)"
    and found: "found \<longleftrightarrow> cs \<noteq> [] \<and> key_at m (hd cs) = k"
  have st: "harris_stop self k m as bs cs found"
    unfolding harris_stop_def using xs inv unm mk keys cs found by auto
  have c': "c = harris_cursor self as cs" using c by simp
  let ?pn = "nxt m (end_of self as)"
  let ?Q = "\<lambda>(r, c) m'. \<exists>found. r = Inr found \<and> find_post self k m xs found c m'"
  have "wp (destroy_chain n ?pn (curr c)) (\<lambda>_. ?Q (Inr found, c)) (set_cell (end_of self as, Next) (curr c) m)"
    unfolding c(2) using xs fuel c' by (intro harris_cleanup_wp[OF st]) auto
  with harris_adjacent[OF st] harris_stop_live[OF st] xs c c'
  show "wp (case (found, c, ?pn) of (found, self, prev_next) \<Rightarrow>
       if prev_next = curr self then Ret (Inr found, self)
       else Compare_and_set (prev self) prev_next (curr self) (\<lambda>r.
         case r of Inl _ \<Rightarrow> Ret (Inl (), self)
         | Inr _ \<Rightarrow> bind (destroy_chain n prev_next (curr self)) (\<lambda>_. Ret (Inr found, self)))) ?Q m"
    by (auto simp: wp_bind)
qed (use inv fuel in auto)

interpretation harris: list_finder find_harris
  by unfold_locales (rule find_harris_wp)

subsection \<open>Harris-Michael\<close>

text \<open>\<open>tidied self m xs m' ys\<close>: marked nodes were taken out and retired, the map is the same.\<close>

definition tidied ::
  "addr \<Rightarrow> ('k::linorder, 'v) list_mem \<Rightarrow> addr list \<Rightarrow> ('k, 'v) list_mem \<Rightarrow> addr list \<Rightarrow> bool" where
  "tidied self m xs m' ys \<longleftrightarrow> list_inv m' self ys \<and> contents m' ys = contents m xs \<and> set ys \<subseteq> set xs \<and>
     length ys \<le> length xs \<and> list_step self m xs m' ys \<and> dropped m' = dropped m \<and> freed m' = freed m"

lemma tidied_refl: "list_inv m self xs \<Longrightarrow> tidied self m xs m xs"
  by (simp add: tidied_def)

lemma tidied_trans:
  assumes "tidied self m xs m1 ys" "tidied self m1 ys m2 zs"
  shows "tidied self m xs m2 zs"
proof -
  have "list_step self m xs m2 zs"
    using assms by (intro list_step_trans[of self m xs m1 ys m2 zs]) (auto simp: tidied_def)
  with assms show ?thesis by (auto simp: tidied_def)
qed

lemma tidied_find:
  assumes "tidied self m xs m1 ys" "find_post self k m1 ys found c m2"
  shows "find_post self k m xs found c m2"
proof -
  obtain as bs where l: "located self k found c m2 as bs" "list_inv m2 self (as @ bs)"
      "contents m2 (as @ bs) = contents m1 ys" "set (as @ bs) \<subseteq> set ys"
      "length (as @ bs) \<le> length ys" "list_step self m1 ys m2 (as @ bs)"
      "dropped m2 = dropped m1" "freed m2 = freed m1"
    using assms(2) by (rule find_post_obtain)
  then have "tidied self m1 ys m2 (as @ bs)" by (simp add: tidied_def)
  from tidied_trans[OF assms(1) this] l(1) show ?thesis
    by (intro find_postI[of _ _ _ _ _ as bs]) (auto simp: tidied_def)
qed

lemma tidied_get:
  assumes "tidied self m xs m1 ys" "get_post self k m1 ys found c m2"
  shows "get_post self k m xs found c m2"
proof -
  from assms(2) obtain zs where zs: "tidied self m1 ys m2 zs" "found \<longrightarrow> raw (curr c) \<in> set zs"
    "contents m1 ys k = (if found then Some (val_at m2 (raw (curr c))) else None)"
    unfolding get_post_def tidied_def by blast
  from tidied_trans[OF assms(1) zs(1)] zs assms(1) show ?thesis
    unfolding get_post_def tidied_def by auto
qed

text \<open>Unlinking and retiring one marked node.\<close>

lemma unlink_one:
  assumes inv: "list_inv m self (as @ x # rest)" and unm: "\<not> marked m (end_of self as)" and mk: "marked m x"
    and p: "p = Shared (head_of rest) 0"
  shows "tidied self m (as @ x # rest)
    (reclaim R (retire x (set_cell (end_of self as, Next) p m))) (as @ rest)"
proof -
  from list_inv_node[OF inv] obtain nd where nd: "obj m x = Some nd" "x \<notin> statics m" "x \<notin> set (garbage m)"
    by auto
  let ?m1 = "set_cell (end_of self as, Next) p m"
  have ul: "list_inv ?m1 self (as @ rest)" "contents ?m1 (as @ rest) = contents m (as @ x # rest)"
    using unlink_run[of m self as "[x]" rest p] inv unm mk p by auto
  have out: "x \<notin> set (as @ rest)" using inv by (auto simp: list_inv_def)
  have "list_step self m (as @ x # rest) (reclaim R (retire x ?m1)) (as @ rest)"
    using inv out end_of_in[of self as] by (intro list_step_retire) auto
  with retire_outside[OF ul(1) out, of R] ul nd show ?thesis
    by (simp add: tidied_def) auto
qed

lemma find_harris_michael_wp:
  fixes m :: "('k::linorder, 'v) list_mem" and c :: cursor
  assumes inv: "list_inv m self (as @ rest)" and unm: "\<not> marked m (end_of self as)"
    and keys: "\<And>x. x \<in> set as \<Longrightarrow> key_at m x < k"
    and c: "prev c = (end_of self as, Next)" "curr c = Shared (head_of rest) 0"
    and fuel: "length rest < n"
    and post: "\<And>found c' m'. find_post self k m (as @ rest) found c' m' \<Longrightarrow> Q (Inr found, c') m'"
  shows "wp (find_harris_michael n k c) Q m"
  using inv unm keys c fuel post
proof (induction rest arbitrary: as c n m)
  case Nil
  then obtain n' where "n = Suc n'" by (cases n) auto
  moreover from Nil have "find_post self k m (as @ []) False c m"
    by (intro find_postI[of _ _ _ _ _ as "[]"]) (auto simp: located_def)
  ultimately show ?case using Nil by simp
next
  case (Cons x rest)
  then obtain n' where n: "n = Suc n'" by (cases n) auto
  from list_inv_node[OF Cons.prems(1)] obtain nd
    where nd: "obj m x = Some nd" "key nd = key_at m x" "x \<noteq> 0" "raw (nxt m x) = head_of rest"
      "x \<notin> statics m" "x \<notin> set (garbage m)" by auto
  have stop: "Q (Inr (key_at m x = k), c) m" if "\<not> marked m x" "\<not> key_at m x < k"
    using Cons.prems that
    by (intro Cons.prems(7) find_postI[of _ _ _ _ _ as "x # rest"]) (auto simp: located_def)
  have adv: "wp (find_harris_michael n' k \<lparr>prev = (x, Next), curr = nxt m x\<rparr>) Q m"
    if "\<not> marked m x" "key_at m x < k"
  proof (rule Cons.IH[of _ "as @ [x]"])
    show "curr \<lparr>prev = (x, Next), curr = nxt m x\<rparr> = Shared (head_of rest) 0"
      using nd that by (simp add: marked_def shared_eq_iff)
  qed (use Cons.prems that n in auto)
  have skip: "wp (find_harris_michael n' k (c\<lparr>curr := with_tag (nxt m x) 0\<rparr>)) Q
       (reclaim R (retire x (set_cell (end_of self as, Next) (with_tag (nxt m x) 0) m)))"
    if mk: "marked m x" for R
  proof -
    let ?p = "with_tag (nxt m x) 0"
    let ?m = "reclaim R (retire x (set_cell (end_of self as, Next) ?p m))"
    have p: "?p = Shared (head_of rest) 0" using nd by (simp add: with_tag_def)
    have td: "tidied self m (as @ x # rest) ?m (as @ rest)"
      using unlink_one[OF Cons.prems(1,2) mk p] by simp
    have out: "x \<notin> set (as @ rest)" using Cons.prems(1) by (auto simp: list_inv_def)
    show ?thesis
    proof (rule Cons.IH)
      show "list_inv ?m self (as @ rest)" using td by (simp add: tidied_def)
      show "\<not> marked ?m (end_of self as)" by (simp add: marked_def)
      show "key_at ?m y < k" if "y \<in> set as" for y
      proof -
        have "y \<noteq> x" "y \<notin> set (garbage m)" using out that Cons.prems(1) by (auto simp: list_inv_def)
        with Cons.prems(3)[OF that] show ?thesis by (simp add: key_at_def restrict_map_def)
      qed
      show "Q (Inr found, c') m'" if "find_post self k ?m (as @ rest) found c' m'" for found c' m'
        using tidied_find[OF td that] by (rule Cons.prems(7))
    qed (use Cons.prems p n in auto)
  qed
  have link: "nxt m (end_of self as) = curr c"
    using list_inv_split(3)[OF Cons.prems(1)] Cons.prems(2,5) by (simp add: marked_def shared_eq_iff)
  have "end_of self as \<in> set (self # as @ x # rest)" using end_of_in[of self as] by auto
  then have liv: "live m (end_of self as)" by (rule list_inv_live[OF Cons.prems(1)])
  show ?case
    using n nd adv stop skip link liv Cons.prems(4,5)
    by (auto simp: marked_def Let_def cmp_def live_def split: ordering.splits)
qed

interpretation harris_michael: list_finder find_harris_michael
proof (unfold_locales, goal_cases)
  case (1 m self xs n k)
  have "nxt m self = Shared (head_of xs) 0"
    using 1 by (auto simp: list_inv_def chain_iff shared_eq_iff)
  with 1 show ?case
    by (intro find_harris_michael_wp[where as = "[]" and rest = xs and self = self])
      (auto simp: marked_def)
qed

subsection \<open>Harris-Herlihy-Shavit\<close>

lemma find_harris_herlihy_shavit_wp:
  fixes m :: "('k::linorder, 'v) list_mem" and c :: cursor
  assumes inv: "list_inv m self (as @ rest)"
    and keys: "\<And>x. x \<in> set as \<Longrightarrow> key_at m x < k"
    and c: "raw (curr c) = head_of rest" and fuel: "length rest < n"
    and post: "\<And>found c'. get_post self k m (as @ rest) found c' m \<Longrightarrow> Q (Inr found, c') m"
  shows "wp (find_harris_herlihy_shavit n k c) Q m"
  using inv keys c fuel post
proof (induction rest arbitrary: as c n)
  case Nil
  then obtain n' where "n = Suc n'" by (cases n) auto
  moreover have "contents m as k = None"
    using Nil.prems(2) by (intro contents_None) auto
  with Nil.prems(1) have "get_post self k m (as @ []) False c m"
    by (auto simp: get_post_def intro!: exI[of _ as])
  ultimately show ?case using Nil by (simp add: is_null_def)
next
  case (Cons x rest)
  then obtain n' where n: "n = Suc n'" by (cases n) auto
  from list_inv_node[OF Cons.prems(1)] obtain nd
    where nd: "obj m x = Some nd" "key nd = key_at m x" "x \<noteq> 0" "raw (nxt m x) = head_of rest"
    by auto
  have adv: "wp (find_harris_herlihy_shavit n' k \<lparr>prev = (x, Next), curr = nxt m x\<rparr>) Q m"
    if "key_at m x < k"
    using Cons.prems that n nd by (intro Cons.IH[of "as @ [x]"]) auto
  have hit: "Q (Inr (\<not> marked m x), c) m" if "key_at m x = k"
  proof (rule Cons.prems(5))
    show "get_post self k m (as @ x # rest) (\<not> marked m x) c m"
      using Cons.prems(1,3) contents_at[OF Cons.prems(1)] that
      by (auto simp: get_post_def intro!: exI[of _ "as @ x # rest"])
  qed
  have miss: "Q (Inr False, c) m" if "k < key_at m x"
  proof (rule Cons.prems(5))
    have "contents m (as @ x # rest) k = None"
      using Cons.prems(1,2) that by (intro contents_gap) auto
    then show "get_post self k m (as @ x # rest) False c m"
      using Cons.prems(1) by (auto simp: get_post_def intro!: exI[of _ "as @ x # rest"])
  qed
  show ?case
    using n nd adv hit miss Cons.prems(3)
    by (auto simp: marked_def cmp_def is_null_def live_def split: ordering.splits)
qed

interpretation harris_herlihy_shavit: list_getter find_harris_herlihy_shavit
proof (unfold_locales, goal_cases)
  case (1 m self xs n k)
  then show ?case
    by (intro find_harris_herlihy_shavit_wp[where as = "[]" and rest = xs and self = self])
      (auto simp: list_inv_def chain_iff)
qed

section \<open>New and drop\<close>

definition list_place :: "addr \<Rightarrow> ('k, 'v) list_mem \<Rightarrow> bool" where
  "list_place self m \<longleftrightarrow> self \<in> statics m \<and> garbage_ok m"

lemma list_new_wp:
  "list_place self m \<Longrightarrow> wp (list_new self) (\<lambda>_ m'. list_inv m' self [] \<and> frame {self} m m') m"
  by (auto simp: list_place_def list_new_def list_inv_def)

text \<open>
  Dropping a list frees every node of the chain once, in order, and drops the values of exactly
  the unmarked nodes: those of marked nodes were moved out by \<^verbatim>\<open>remove\<close>.
\<close>

definition drop_post :: "('k, 'v) list_mem \<Rightarrow> addr list \<Rightarrow> ('k, 'v) list_mem \<Rightarrow> bool" where
  "drop_post m xs m' \<longleftrightarrow>
     freed m' = freed m @ xs \<and> dropped m' = dropped m @ filter (\<lambda>x. \<not> marked m x) xs \<and>
     obj m' = (obj m) |` (- set xs) \<and> cell m' = cell m \<and> garbage m' = garbage m \<and>
     retired m' = retired m \<and> statics m' = statics m"

lemma list_drop_loop_wp:
  assumes "leads m cur xs 0" "distinct xs" "length xs < n"
    and "\<And>x. x \<in> set xs \<Longrightarrow> x \<noteq> 0 \<and> obj m x \<noteq> None \<and> x \<notin> set (garbage m)"
    and "\<And>m'. drop_post m xs m' \<Longrightarrow> Q () m'"
  shows "wp (list_drop_loop n cur) Q m"
  using assms
proof (induction xs arbitrary: m cur n)
  case Nil
  then obtain n' where "n = Suc n'" by (cases n) auto
  moreover have "drop_post m [] m" by (simp add: drop_post_def restrict_map_def)
  then have "Q () m" by (rule Nil.prems(5))
  ultimately show ?case using Nil.prems(1) by (simp add: is_null_def)
next
  case (Cons x xs)
  then obtain n' where n: "n = Suc n'" by (cases n) auto
  have x: "x \<noteq> 0" "obj m x \<noteq> None" "x \<notin> set (garbage m)" using Cons.prems(4)[of x] by auto
  let ?d = "free x (if marked m x then m else drop_val x m)"
  have "wp (list_drop_loop n' (nxt m x)) Q ?d"
  proof (rule Cons.IH)
    show "leads ?d (nxt m x) xs 0"
      using Cons.prems(1) leads_cong[of xs ?d m] by simp
    show "y \<noteq> 0 \<and> obj ?d y \<noteq> None \<and> y \<notin> set (garbage ?d)" if "y \<in> set xs" for y
      using Cons.prems(2) Cons.prems(4)[of y] that by auto
    show "Q () m'" if "drop_post ?d xs m'" for m'
    proof (rule Cons.prems(5))
      have "marked ?d y = marked m y" for y by (simp add: marked_def)
      with that show "drop_post m (x # xs) m'"
        by (auto simp: drop_post_def restrict_map_def fun_eq_iff)
    qed
  qed (use Cons.prems n in auto)
  then show ?case
    using Cons.prems(1) x n by (auto simp: is_null_def marked_def live_def split: if_splits)
qed

lemma list_drop_wp:
  assumes "list_inv m self xs" "length xs < n"
  shows "wp (list_drop n self) (\<lambda>_ m'. drop_post m xs m') m"
proof -
  have "leads m (nxt m self) xs 0"
    using chain_leads[of m self xs "[]"] assms by (simp add: list_inv_def)
  moreover have "\<And>x. x \<in> set xs \<Longrightarrow> x \<noteq> 0 \<and> obj m x \<noteq> None \<and> x \<notin> set (garbage m)"
    using assms list_inv_nonnull[of m self xs] by (auto simp: list_inv_def)
  ultimately have "wp (list_drop_loop n (nxt m self)) (\<lambda>_ m'. drop_post m xs m') m"
    using assms by (intro list_drop_loop_wp) (auto simp: list_inv_def)
  then show ?thesis using assms by (auto simp: list_drop_def list_inv_def)
qed

section \<open>HList, HMList and HHSList implement the trait\<close>

definition HList_ops :: "(addr, 'k::linorder, 'v, list_field, ('k, 'v) node) concurrent_map" where
  "HList_ops = \<lparr>map_new = HList_new, map_get = HList_get, map_insert = HList_insert,
     map_remove = HList_remove\<rparr>"

definition HMList_ops :: "(addr, 'k::linorder, 'v, list_field, ('k, 'v) node) concurrent_map" where
  "HMList_ops = \<lparr>map_new = HMList_new, map_get = HMList_get, map_insert = HMList_insert,
     map_remove = HMList_remove\<rparr>"

definition HHSList_ops :: "(addr, 'k::linorder, 'v, list_field, ('k, 'v) node) concurrent_map" where
  "HHSList_ops = \<lparr>map_new = HHSList_new, map_get = HHSList_get, map_insert = HHSList_insert,
     map_remove = HHSList_remove\<rparr>"

lemmas list_map_defs =
  HList_ops_def HList_new_def HList_get_def HList_insert_def HList_remove_def
  HMList_ops_def HMList_new_def HMList_get_def HMList_insert_def HMList_remove_def
  HHSList_ops_def HHSList_new_def HHSList_get_def HHSList_insert_def HHSList_remove_def
  harris_get_def harris_insert_def harris_remove_def
  harris_michael_get_def harris_michael_insert_def harris_michael_remove_def
  harris_herlihy_shavit_get_def harris_herlihy_shavit_insert_def harris_herlihy_shavit_remove_def

lemma list_repr_mono: "list_repr self m M s \<Longrightarrow> s \<le> s' \<Longrightarrow> list_repr self m M s'"
  unfolding list_repr_def using order_trans by blast

lemma list_repr_new:
  "list_place self m \<Longrightarrow> wp (list_new self) (\<lambda>_ m'. list_repr self m' Map.empty 0) m"
  by (rule wp_mono[OF list_new_wp]) (auto simp: list_repr_def intro!: exI[of _ "[]"])

context list_getter
begin

lemma list_repr_get:
  assumes "list_repr self m M s" "s < n"
  shows "wp (list_get n self k (F n)) (\<lambda>r m'. r = M k \<and> list_repr self m' M s) m"
proof -
  from assms obtain xs where xs: "list_inv m self xs" "contents m xs = M" "length xs \<le> s" "length xs < n"
    by (auto simp: list_repr_def)
  from xs(2,3) show ?thesis
    by (intro wp_mono[OF list_get_wp[OF xs(1,4)]]) (fastforce simp: list_repr_def)
qed

end

context list_finder
begin

lemma list_repr_insert:
  assumes "list_repr self m M s" "s < n"
  shows "wp (list_insert n self k v (F n))
    (\<lambda>r m'. r = (M k = None) \<and> list_repr self m' (if M k = None then M(k \<mapsto> v) else M) (Suc s)) m"
proof -
  from assms obtain xs where xs: "list_inv m self xs" "contents m xs = M" "length xs \<le> s" "length xs < n"
    by (auto simp: list_repr_def)
  from xs(2,3) show ?thesis
    by (intro wp_mono[OF list_insert_wp[OF xs(1,4)]])
      (fastforce simp: list_repr_def insert_post_def split: if_splits)
qed

lemma list_repr_remove:
  assumes "list_repr self m M s" "s < n"
  shows "wp (list_remove n self k (F n)) (\<lambda>r m'. r = M k \<and> list_repr self m' (M(k := None)) s) m"
proof -
  from assms obtain xs where xs: "list_inv m self xs" "contents m xs = M" "length xs \<le> s" "length xs < n"
    by (auto simp: list_repr_def)
  from xs(2,3) show ?thesis
    by (intro wp_mono[OF list_remove_wp[OF xs(1,4)]])
      (fastforce simp: list_repr_def remove_post_def)
qed

end

lemmas list_map_ops = list_map_defs concurrent_map.simps

interpretation HList: map_impl HList_ops list_place list_repr
  by unfold_locales
    (simp_all only: list_map_ops list_repr_new harris.list_repr_get harris.list_repr_insert
      harris.list_repr_remove list_repr_mono)

interpretation HMList: map_impl HMList_ops list_place list_repr
  by unfold_locales
    (simp_all only: list_map_ops list_repr_new harris_michael.list_repr_get
      harris_michael.list_repr_insert harris_michael.list_repr_remove list_repr_mono)

interpretation HHSList: map_impl HHSList_ops list_place list_repr
  by unfold_locales
    (simp_all only: list_map_ops list_repr_new harris_herlihy_shavit.list_repr_get
      harris_michael.list_repr_insert harris_michael.list_repr_remove list_repr_mono)

section \<open>Runs\<close>

text \<open>
  A list with a marked node in the middle, for applying the results to: keys 10, 20 and 30 at
  addresses 2, 3 and 4, of which 20 is logically removed, and the header at address 1.
\<close>

definition demo_list :: "(list_field, (int, int) node) sc" where
  "demo_list = sc_start {1} 5
     (\<lambda>l. if fst l = 1 then Shared 2 0 else if fst l = 2 then Shared 3 0
          else if fst l = 3 then Shared 4 1 else null)
     [2 \<mapsto> \<lparr>key = 10, val = 100\<rparr>, 3 \<mapsto> \<lparr>key = 20, val = 200\<rparr>, 4 \<mapsto> \<lparr>key = 30, val = 300\<rparr>] []"

lemma demo_list_ok: "sc_ok demo_list"
  unfolding demo_list_def by (rule sc_ok_start) (auto split: if_splits)

lemma demo_list_inv: "list_inv (sc_view demo_list) 1 [2, 3, 4]"
  by (simp add: demo_list_def list_inv_def key_at_def)

lemma demo_list_contents: "contents (sc_view demo_list) [2, 3, 4] = [10 \<mapsto> 100, 30 \<mapsto> 300]"
  by (auto simp: demo_list_def marked_def key_at_def val_at_def fun_eq_iff)

lemma demo_list_repr: "list_repr 1 (sc_view demo_list) [10 \<mapsto> 100, 30 \<mapsto> 300] 3"
  unfolding list_repr_def using demo_list_inv demo_list_contents by (intro exI[of _ "[2, 3, 4]"]) simp

definition demo_calls :: "(int, int) request list" where
  "demo_calls = [Insert_req 20 5, Insert_req 10 6, Get_req 20, Remove_req 30, Get_req 30]"

lemma demo_calls_answers:
  "fst (spec_calls demo_calls [10 \<mapsto> 100, 30 \<mapsto> 300]) =
     [Inserted True, Inserted False, Got (Some 5), Removed (Some 300), Got None]"
  by (simp add: demo_calls_def)

lemmas demo_list_facts = sc.crossbeam_api_axioms demo_list_ok

text \<open>
  C11: \<^verbatim>\<open>HList\<close> refines a finite map.  On every implementation of the memory interface that
  keeps its documented contract, any sequence of \<^verbatim>\<open>get\<close>, \<^verbatim>\<open>insert\<close> and
  \<^verbatim>\<open>remove\<close> calls on a well-formed list, marked nodes included, returns, commits no
  memory error, answers as the finite map it represents would, and leaves a well-formed list that
  represents the resulting map.
\<close>

theorem HList_refines_map:
  assumes "crossbeam_api X view ok" "ok s" "list_repr self (view s) M b" "b + length qs \<le> n"
  shows "completes X view ok (calls HList_ops self n qs) s
    (\<lambda>rs m'. \<exists>M'. spec_calls qs M = (rs, M') \<and> list_repr self m' M' (b + length qs))"
  using assms by (intro wp_completes HList.calls_wp)

theorem HList_refines_map_witness:
  "completes sc_api sc_view sc_ok (calls HList_ops 1 10 demo_calls) demo_list
     (\<lambda>rs m'. \<exists>M'. spec_calls demo_calls [10 \<mapsto> 100, 30 \<mapsto> 300] = (rs, M') \<and>
        list_repr 1 m' M' (3 + length demo_calls))"
  by (rule HList_refines_map[OF demo_list_facts demo_list_repr]) (simp add: demo_calls_def)

text \<open>
  \<^verbatim>\<open>HMList\<close> refines a finite map in the same sense, with the Harris-Michael search that unlinks marked
  nodes one at a time.
\<close>

theorem HMList_refines_map:
  assumes "crossbeam_api X view ok" "ok s" "list_repr self (view s) M b" "b + length qs \<le> n"
  shows "completes X view ok (calls HMList_ops self n qs) s
    (\<lambda>rs m'. \<exists>M'. spec_calls qs M = (rs, M') \<and> list_repr self m' M' (b + length qs))"
  using assms by (intro wp_completes HMList.calls_wp)

theorem HMList_refines_map_witness:
  "completes sc_api sc_view sc_ok (calls HMList_ops 1 10 demo_calls) demo_list
     (\<lambda>rs m'. \<exists>M'. spec_calls demo_calls [10 \<mapsto> 100, 30 \<mapsto> 300] = (rs, M') \<and>
        list_repr 1 m' M' (3 + length demo_calls))"
  by (rule HMList_refines_map[OF demo_list_facts demo_list_repr]) (simp add: demo_calls_def)

text \<open>
  \<^verbatim>\<open>HHSList\<close> refines a finite map in the same sense: its \<^verbatim>\<open>get\<close> is the wait-free search,
  which walks over marked nodes without unlinking them, its updates are those of
  \<^verbatim>\<open>HMList\<close>.
\<close>

theorem HHSList_refines_map:
  assumes "crossbeam_api X view ok" "ok s" "list_repr self (view s) M b" "b + length qs \<le> n"
  shows "completes X view ok (calls HHSList_ops self n qs) s
    (\<lambda>rs m'. \<exists>M'. spec_calls qs M = (rs, M') \<and> list_repr self m' M' (b + length qs))"
  using assms by (intro wp_completes HHSList.calls_wp)

theorem HHSList_refines_map_witness:
  "completes sc_api sc_view sc_ok (calls HHSList_ops 1 10 demo_calls) demo_list
     (\<lambda>rs m'. \<exists>M'. spec_calls demo_calls [10 \<mapsto> 100, 30 \<mapsto> 300] = (rs, M') \<and>
        list_repr 1 m' M' (3 + length demo_calls))"
  by (rule HHSList_refines_map[OF demo_list_facts demo_list_repr]) (simp add: demo_calls_def)

text \<open>
  C14: one \<^verbatim>\<open>remove\<close> of \<^verbatim>\<open>HList\<close> in detail.  It returns the value stored under
  the key and takes that key out of the map; every node that leaves the chain, the removed one and
  the marked ones met on the way, is retired exactly once and nothing else is; nothing is freed or
  dropped in place, as the value has been moved out; and memory outside the list is untouched.
\<close>

theorem harris_remove_correct:
  assumes "crossbeam_api X view ok" "ok s" "list_inv (view s) self xs" "length xs < n"
  shows "completes X view ok (harris_remove n self k) s (remove_post self k (view s) xs)"
  unfolding harris_remove_def using assms by (intro wp_completes harris.list_remove_wp)

theorem harris_remove_correct_witness:
  "completes sc_api sc_view sc_ok (harris_remove 4 1 30) demo_list
     (remove_post 1 30 (sc_view demo_list) [2, 3, 4])"
  by (rule harris_remove_correct[OF demo_list_facts demo_list_inv]) simp

text \<open>
  One \<^verbatim>\<open>insert\<close> of \<^verbatim>\<open>HMList\<close> in detail.  It succeeds exactly when the
  key is absent and then maps it to the new value; otherwise the map is unchanged and the node
  allocated for the attempt is taken apart again, its value dropped and its memory freed, once.
  Marked nodes met on the way are unlinked and retired exactly once.
\<close>

theorem harris_michael_insert_correct:
  assumes "crossbeam_api X view ok" "ok s" "list_inv (view s) self xs" "length xs < n"
  shows "completes X view ok (harris_michael_insert n self k v) s (insert_post self k v (view s) xs)"
  unfolding harris_michael_insert_def using assms by (intro wp_completes harris_michael.list_insert_wp)

theorem harris_michael_insert_correct_witness:
  "completes sc_api sc_view sc_ok (harris_michael_insert 4 1 20 7) demo_list
     (insert_post 1 20 7 (sc_view demo_list) [2, 3, 4])"
  by (rule harris_michael_insert_correct[OF demo_list_facts demo_list_inv]) simp

text \<open>
  C33: dropping a \<^verbatim>\<open>List\<close> frees every node of the chain exactly once, in order, drops
  the values of exactly the unmarked nodes, and touches nothing else, so that no value is dropped
  twice and none is leaked.
\<close>

theorem list_drop_correct:
  assumes "crossbeam_api X view ok" "ok s" "list_inv (view s) self xs" "length xs < n"
  shows "completes X view ok (list_drop n self) s (\<lambda>_. drop_post (view s) xs)"
  using assms by (intro wp_completes list_drop_wp)

theorem list_drop_correct_witness:
  "completes sc_api sc_view sc_ok (list_drop 4 1) demo_list (\<lambda>_. drop_post (sc_view demo_list) [2, 3, 4])"
  by (rule list_drop_correct[OF demo_list_facts demo_list_inv]) simp

text \<open>
  Harris's search.  It returns without asking for a restart, with the cursor between the last
  unmarked node below the key and the first unmarked node at or above it; it reports the key found
  exactly if that node carries it; the map is unchanged, and the marked nodes it unlinked are
  retired exactly once.
\<close>

theorem find_harris_correct:
  assumes "crossbeam_api X view ok" "ok s" "list_inv (view s) self xs" "length xs < n"
  shows "completes X view ok (find_harris n k \<lparr>prev = (self, Next), curr = nxt (view s) self\<rparr>) s
    (\<lambda>(r, c) m'. \<exists>found. r = Inr found \<and> find_post self k (view s) xs found c m')"
  using assms by (intro wp_completes harris.finder)

theorem find_harris_correct_witness:
  "completes sc_api sc_view sc_ok
     (find_harris 4 30 \<lparr>prev = (1, Next), curr = nxt (sc_view demo_list) 1\<rparr>) demo_list
     (\<lambda>(r, c) m'. \<exists>found. r = Inr found \<and> find_post 1 30 (sc_view demo_list) [2, 3, 4] found c m')"
  by (rule find_harris_correct[OF demo_list_facts demo_list_inv]) simp

end
