(* ===== verification/Ebr_Hash_Map.thy ===== *)
theory Ebr_Hash_Map
  imports Ebr_List_Correct
begin

text \<open>
  \<^verbatim>\<open>src/src/ebr/michael_hash_map.rs\<close>: Michael's hash map, an array of \<^verbatim>\<open>HMList\<close>
  buckets.  The hash function of the key type (\<^verbatim>\<open>DefaultHasher\<close>) is a parameter.  The
  buckets share one memory; the proofs rest on the frame property of the list operations.
\<close>

section \<open>The code\<close>

type_synonym usize = "64 word"

text \<open>\<^verbatim>\<open>&self\<close>: the hash function of the keys and the headers of the buckets.\<close>

record 'k hash_map =
  hasher :: "'k \<Rightarrow> 64 word"
  buckets :: "addr list"

text \<open>\<open>places\<close> is the memory of the vector: where the bucket headers are put.\<close>

fun with_capacity_loop :: "nat \<Rightarrow> addr list \<Rightarrow> addr list \<Rightarrow> ('k, 'v, addr list) list_prog" where
  "with_capacity_loop 0 places bs = Ret bs"
| "with_capacity_loop (Suc n) [] bs = Panic"
| "with_capacity_loop (Suc n) (p # places) bs =
     bind (HMList_new p) (\<lambda>_. with_capacity_loop n places (bs @ [p]))"

definition with_capacity :: "nat \<Rightarrow> addr list \<Rightarrow> ('k, 'v, addr list) list_prog" where
  "with_capacity n places = with_capacity_loop n places []"

text \<open>The remainder by the length panics when there are no buckets.\<close>

definition bucket_index :: "nat \<Rightarrow> usize \<Rightarrow> nat" where
  "bucket_index len i = unat i mod len"

definition get_bucket :: "'k hash_map \<Rightarrow> usize \<Rightarrow> (addr \<Rightarrow> ('k, 'v, 'a) list_prog) \<Rightarrow> ('k, 'v, 'a) list_prog" where
  "get_bucket self i f =
     (if buckets self = [] then Panic else f (buckets self ! bucket_index (length (buckets self)) i))"

definition hash_key :: "'k hash_map \<Rightarrow> 'k \<Rightarrow> usize" where
  "hash_key self k = ucast (hasher self k)"

definition hash_map_get :: "'k::linorder hash_map \<Rightarrow> nat \<Rightarrow> 'k \<Rightarrow> ('k, 'v, 'v option) list_prog" where
  "hash_map_get self n k = get_bucket self (hash_key self k) (\<lambda>b. HMList_get b n k)"

definition hash_map_insert :: "'k::linorder hash_map \<Rightarrow> nat \<Rightarrow> 'k \<Rightarrow> 'v \<Rightarrow> ('k, 'v, bool) list_prog" where
  "hash_map_insert self n k v = get_bucket self (hash_key self k) (\<lambda>b. HMList_insert b n k v)"

definition hash_map_remove :: "'k::linorder hash_map \<Rightarrow> nat \<Rightarrow> 'k \<Rightarrow> ('k, 'v, 'v option) list_prog" where
  "hash_map_remove self n k = get_bucket self (hash_key self k) (\<lambda>b. HMList_remove b n k)"

definition hash_map_new :: "'k hash_map \<Rightarrow> ('k, 'v, unit) list_prog" where
  "hash_map_new self = bind (with_capacity 30000 (buckets self)) (\<lambda>_. Ret ())"

definition hash_map_ops ::
  "('k::linorder hash_map, 'k, 'v, list_field, ('k, 'v) node) concurrent_map" where
  "hash_map_ops = \<lparr>map_new = hash_map_new, map_get = hash_map_get, map_insert = hash_map_insert,
     map_remove = hash_map_remove\<rparr>"

section \<open>The invariant\<close>

text \<open>
  Bucket \<open>i\<close> is a well-formed list \<open>xss ! i\<close> that holds keys of index \<open>i\<close> only,
  and no node is in two buckets.
\<close>

definition key_index :: "'k hash_map \<Rightarrow> 'k \<Rightarrow> nat" where
  "key_index self k = bucket_index (length (buckets self)) (hash_key self k)"

definition hash_inv :: "'k::linorder hash_map \<Rightarrow> ('k, 'v) list_mem \<Rightarrow> addr list list \<Rightarrow> bool" where
  "hash_inv self m xss \<longleftrightarrow>
     buckets self \<noteq> [] \<and> distinct (buckets self) \<and> length xss = length (buckets self) \<and>
     (\<forall>i < length xss. list_inv m (buckets self ! i) (xss ! i) \<and>
        (\<forall>k. contents m (xss ! i) k \<noteq> None \<longrightarrow> key_index self k = i)) \<and>
     (\<forall>i < length xss. \<forall>j < length xss. i \<noteq> j \<longrightarrow> set (xss ! i) \<inter> set (xss ! j) = {})"

definition hash_contents :: "'k hash_map \<Rightarrow> ('k, 'v) list_mem \<Rightarrow> addr list list \<Rightarrow> 'k \<rightharpoonup> 'v" where
  "hash_contents self m xss k = contents m (xss ! key_index self k) k"

definition hash_repr :: "'k::linorder hash_map \<Rightarrow> ('k, 'v) list_mem \<Rightarrow> ('k \<rightharpoonup> 'v) \<Rightarrow> nat \<Rightarrow> bool" where
  "hash_repr self m M s \<longleftrightarrow>
     (\<exists>xss. hash_inv self m xss \<and> hash_contents self m xss = M \<and> (\<forall>xs\<in>set xss. length xs \<le> s))"

lemma key_index_less: "hash_inv self m xss \<Longrightarrow> key_index self k < length xss"
  by (auto simp: hash_inv_def key_index_def bucket_index_def)

lemma hash_inv_bucket:
  "hash_inv self m xss \<Longrightarrow> i < length xss \<Longrightarrow> list_inv m (buckets self ! i) (xss ! i)"
  by (simp add: hash_inv_def)

text \<open>A list operation on one bucket leaves the others alone.\<close>

lemma hash_inv_other:
  assumes inv: "hash_inv self m xss" and i: "i < length xss" and j: "j < length xss" "j \<noteq> i"
    and step: "list_step (buckets self ! i) m (xss ! i) m' zs" and g: "garbage_ok m'"
  shows "list_inv m' (buckets self ! j) (xss ! j)" "contents m' (xss ! j) = contents m (xss ! j)"
    "set zs \<inter> set (xss ! j) = {}"
proof -
  let ?b = "buckets self ! i" and ?c = "buckets self ! j"
  note ii = hash_inv_bucket[OF inv i] and jj = hash_inv_bucket[OF inv j(1)]
  have "?b \<noteq> ?c" using inv i j by (auto simp: hash_inv_def nth_eq_iff_index_eq)
  moreover have dis: "set (xss ! i) \<inter> set (xss ! j) = {}" using inv i j unfolding hash_inv_def by auto
  ultimately have "insert ?b (set (xss ! i)) \<inter> set (?c # xss ! j) = {}"
    using ii jj by (auto simp: list_inv_def)
  moreover have "frame (insert ?b (set (xss ! i))) m m'" using step by (simp add: list_step_def)
  ultimately show "list_inv m' ?c (xss ! j)" "contents m' (xss ! j) = contents m (xss ! j)"
    using list_inv_frame[OF jj _ g] by blast+
  have "set zs \<subseteq> set (xss ! i) \<union> {a. \<not> live m a}" using step by (simp add: list_step_def)
  then show "set zs \<inter> set (xss ! j) = {}" using dis list_inv_live[OF jj] by auto
qed

lemma hash_step:
  assumes inv: "hash_inv self m xss" and i: "i = key_index self k"
    and step: "list_step (buckets self ! i) m (xss ! i) m' zs" and zs: "list_inv m' (buckets self ! i) zs"
    and c: "\<And>k'. k' \<noteq> k \<Longrightarrow> contents m' zs k' = contents m (xss ! i) k'"
  shows "hash_inv self m' (xss[i := zs])"
    and "hash_contents self m' (xss[i := zs]) = (hash_contents self m xss)(k := contents m' zs k)"
proof -
  have i': "i < length xss" using key_index_less[OF inv] i by simp
  have g: "garbage_ok m'" using zs by (simp add: list_inv_def)
  note other = hash_inv_other[OF inv i' _ _ step g]
  have idx: "key_index self k' = i" if "contents m' zs k' \<noteq> None" for k'
    using that c[of k'] inv i i' by (cases "k' = k") (auto simp: hash_inv_def)
  show "hash_inv self m' (xss[i := zs])"
    unfolding hash_inv_def
  proof (intro conjI allI impI)
    fix j assume "j < length (xss[i := zs])"
    then show "list_inv m' (buckets self ! j) (xss[i := zs] ! j)"
      using other zs by (cases "j = i") auto
  next
    fix j k' assume "j < length (xss[i := zs])" "contents m' (xss[i := zs] ! j) k' \<noteq> None"
    then show "key_index self k' = j"
      using other idx inv by (cases "j = i") (auto simp: hash_inv_def)
  next
    fix j j' assume "j < length (xss[i := zs])" "j' < length (xss[i := zs])" "j \<noteq> j'"
    moreover from this have "set (xss ! j) \<inter> set (xss ! j') = {}"
      using inv unfolding hash_inv_def length_list_update by blast
    ultimately show "set (xss[i := zs] ! j) \<inter> set (xss[i := zs] ! j') = {}"
      using other(3)[of j] other(3)[of j'] i'
      by (cases "j = i"; cases "j' = i") (simp_all add: Int_commute)
  qed (use inv in \<open>auto simp: hash_inv_def\<close>)
  show "hash_contents self m' (xss[i := zs]) = (hash_contents self m xss)(k := contents m' zs k)"
  proof
    fix k'
    show "hash_contents self m' (xss[i := zs]) k' = ((hash_contents self m xss)(k := contents m' zs k)) k'"
      using other(2)[OF key_index_less[OF inv, of k']] i i' c[of k']
      by (cases "key_index self k' = i") (auto simp: hash_contents_def)
  qed
qed

lemma hash_repr_step:
  assumes inv: "hash_inv self m xss" and len: "\<forall>xs\<in>set xss. length xs \<le> s"
    and step: "list_step (buckets self ! key_index self k) m (xss ! key_index self k) m' zs"
    and zs: "list_inv m' (buckets self ! key_index self k) zs" "length zs \<le> t" "s \<le> t"
    and c: "\<And>k'. k' \<noteq> k \<Longrightarrow> contents m' zs k' = contents m (xss ! key_index self k) k'"
    and M: "M = (hash_contents self m xss)(k := contents m' zs k)"
  shows "hash_repr self m' M t"
  unfolding hash_repr_def
proof (intro exI conjI ballI)
  note hs = hash_step[OF inv refl step zs(1) c]
  show "hash_inv self m' (xss[key_index self k := zs])" by (rule hs(1))
  show "hash_contents self m' (xss[key_index self k := zs]) = M" using hs(2) M by simp
  fix xs assume "xs \<in> set (xss[key_index self k := zs])"
  then have "xs = zs \<or> xs \<in> set xss" using set_update_subset_insert by fastforce
  then show "length xs \<le> t" using len zs(2,3) by auto
qed

section \<open>The operations\<close>

lemma get_bucket_key:
  "hash_inv self m xss \<Longrightarrow> get_bucket self (hash_key self k) f = f (buckets self ! key_index self k)"
  by (simp add: get_bucket_def hash_inv_def key_index_def)

lemma hash_map_get_wp:
  assumes "hash_repr self m M s" "s < n"
  shows "wp (hash_map_get self n k) (\<lambda>r m'. r = M k \<and> hash_repr self m' M s) m"
proof -
  let ?i = "key_index self k"
  from assms obtain xss where x: "hash_inv self m xss" "hash_contents self m xss = M" "\<forall>xs\<in>set xss. length xs \<le> s"
    by (auto simp: hash_repr_def)
  have i: "?i < length xss" using key_index_less[OF x(1)] .
  then have "length (xss ! ?i) \<le> s" using x(3) by simp
  then have "wp (list_get n (buckets self ! ?i) k (find_harris_michael n)) (\<lambda>r m'. r = M k \<and> hash_repr self m' M s) m"
    using x assms(2)
    by (intro wp_mono[OF harris_michael.list_get_wp[OF hash_inv_bucket[OF x(1) i]]])
      (auto simp: hash_contents_def fun_eq_iff intro!: hash_repr_step[OF x(1,3)])
  with x(1) show ?thesis by (simp add: hash_map_get_def get_bucket_key list_map_defs)
qed

lemma hash_map_insert_wp:
  assumes "hash_repr self m M s" "s < n"
  shows "wp (hash_map_insert self n k v)
    (\<lambda>r m'. r = (M k = None) \<and> hash_repr self m' (if M k = None then M(k \<mapsto> v) else M) (Suc s)) m"
    (is "wp _ ?Q m")
proof -
  let ?i = "key_index self k"
  from assms obtain xss where x: "hash_inv self m xss" "hash_contents self m xss = M" "\<forall>xs\<in>set xss. length xs \<le> s"
    by (auto simp: hash_repr_def)
  have i: "?i < length xss" using key_index_less[OF x(1)] .
  then have "length (xss ! ?i) \<le> s" using x(3) by simp
  then have "wp (list_insert n (buckets self ! ?i) k v (find_harris_michael n)) ?Q m"
    using x assms(2)
    by (intro wp_mono[OF harris_michael.list_insert_wp[OF hash_inv_bucket[OF x(1) i]]])
      (auto simp: insert_post_def hash_contents_def fun_eq_iff intro!: hash_repr_step[OF x(1,3)] split: if_splits)
  with x(1) show ?thesis by (simp add: hash_map_insert_def get_bucket_key list_map_defs)
qed

lemma hash_map_remove_wp:
  assumes "hash_repr self m M s" "s < n"
  shows "wp (hash_map_remove self n k) (\<lambda>r m'. r = M k \<and> hash_repr self m' (M(k := None)) s) m"
proof -
  let ?i = "key_index self k"
  from assms obtain xss where x: "hash_inv self m xss" "hash_contents self m xss = M" "\<forall>xs\<in>set xss. length xs \<le> s"
    by (auto simp: hash_repr_def)
  have i: "?i < length xss" using key_index_less[OF x(1)] .
  then have "length (xss ! ?i) \<le> s" using x(3) by simp
  then have "wp (list_remove n (buckets self ! ?i) k (find_harris_michael n))
      (\<lambda>r m'. r = M k \<and> hash_repr self m' (M(k := None)) s) m"
    using x assms(2)
    by (intro wp_mono[OF harris_michael.list_remove_wp[OF hash_inv_bucket[OF x(1) i]]])
      (auto simp: remove_post_def hash_contents_def fun_eq_iff intro!: hash_repr_step[OF x(1,3)])
  with x(1) show ?thesis by (simp add: hash_map_remove_def get_bucket_key list_map_defs)
qed

text \<open>\<^verbatim>\<open>with_capacity\<close> initialises the first \<open>n\<close> places and nothing else.\<close>

lemma with_capacity_loop_wp:
  assumes "n \<le> length places" "set places \<subseteq> statics m" "garbage_ok m"
    and "\<And>m'. statics m' = statics m \<Longrightarrow> garbage_ok m' \<Longrightarrow>
      (\<And>a. nxt m' a = (if a \<in> set (take n places) then null else nxt m a)) \<Longrightarrow> Q (bs @ take n places) m'"
  shows "wp (with_capacity_loop n places bs) Q m"
  using assms
proof (induction n places bs arbitrary: m rule: with_capacity_loop.induct)
  case (3 n p places bs)
  have "wp (with_capacity_loop n places (bs @ [p])) Q (set_cell (p, Next) null m)"
  proof (rule "3.IH", goal_cases)
    case (4 m')
    then show ?case using "3.prems"(4)[of m'] by (auto split: if_splits)
  qed (use "3.prems" in auto)
  then show ?case using "3.prems" by (simp add: HMList_new_def list_new_def)
qed auto

definition hash_place :: "'k hash_map \<Rightarrow> ('k, 'v) list_mem \<Rightarrow> bool" where
  "hash_place self m \<longleftrightarrow> length (buckets self) = 30000 \<and> distinct (buckets self) \<and>
     set (buckets self) \<subseteq> statics m \<and> garbage_ok m"

lemma hash_map_new_wp:
  assumes "hash_place self m"
  shows "wp (hash_map_new self) (\<lambda>_ m'. hash_repr self m' Map.empty 0) m"
  unfolding hash_map_new_def with_capacity_def wp_bind
proof (rule with_capacity_loop_wp, goal_cases)
  case (4 m')
  let ?xss = "replicate 30000 ([] :: addr list)"
  have "hash_inv self m' ?xss"
    using assms 4 by (auto simp: hash_inv_def hash_place_def list_inv_def)
  moreover have "hash_contents self m' ?xss = Map.empty"
    using key_index_less[OF calculation] by (auto simp: hash_contents_def fun_eq_iff)
  ultimately show ?case by (auto simp: hash_repr_def intro!: exI[of _ ?xss])
qed (use assms in \<open>auto simp: hash_place_def\<close>)

lemma hash_repr_mono: "hash_repr self m M s \<Longrightarrow> s \<le> s' \<Longrightarrow> hash_repr self m M s'"
  unfolding hash_repr_def using order_trans by blast

interpretation hash_map: map_impl hash_map_ops hash_place hash_repr
  by unfold_locales
    (simp_all only: hash_map_ops_def concurrent_map.simps hash_map_new_wp hash_map_get_wp
      hash_map_insert_wp hash_map_remove_wp hash_repr_mono)

section \<open>Runs\<close>

text \<open>
  C30: the hash map refines a finite map.  Whatever the hash function, on every implementation of
  the memory interface that keeps its documented contract, any sequence of calls returns, commits
  no memory error and answers as the finite map would; in particular buckets never disturb each
  other although their nodes live in one memory, and keys with equal hashes are kept apart.
\<close>

theorem hash_map_refines_map:
  assumes "crossbeam_api X view ok" "ok s" "hash_repr self (view s) M b" "b + length qs \<le> n"
  shows "completes X view ok (calls hash_map_ops self n qs) s
    (\<lambda>rs m'. \<exists>M'. spec_calls qs M = (rs, M') \<and> hash_repr self m' M' (b + length qs))"
  using assms by (intro wp_completes hash_map.calls_wp)

text \<open>Two buckets: the marked list of \<open>demo_list\<close> and an empty one for the key 40.\<close>

definition demo_table :: "int hash_map" where
  "demo_table = \<lparr>hasher = (\<lambda>k. if k = 40 then 1 else 0), buckets = [1, 5]\<rparr>"

definition demo_hash :: "(list_field, (int, int) node) sc" where
  "demo_hash = sc_start {1, 5} 6
     (\<lambda>l. if fst l = 1 then Shared 2 0 else if fst l = 2 then Shared 3 0
          else if fst l = 3 then Shared 4 1 else null)
     [2 \<mapsto> \<lparr>key = 10, val = 100\<rparr>, 3 \<mapsto> \<lparr>key = 20, val = 200\<rparr>, 4 \<mapsto> \<lparr>key = 30, val = 300\<rparr>] []"

lemma demo_hash_ok: "sc_ok demo_hash"
  unfolding demo_hash_def by (rule sc_ok_start) (auto split: if_splits)

lemma demo_hash_repr: "hash_repr demo_table (sc_view demo_hash) [10 \<mapsto> 100, 30 \<mapsto> 300] 3"
  unfolding hash_repr_def
proof (intro exI[of _ "[[2, 3, 4], []]"] conjI)
  have idx: "key_index demo_table k = (if k = 40 then 1 else 0)" for k
    by (simp add: key_index_def bucket_index_def hash_key_def demo_table_def)
  show "hash_inv demo_table (sc_view demo_hash) [[2, 3, 4], []]"
    using idx
    by (auto simp: hash_inv_def demo_table_def demo_hash_def list_inv_def key_at_def val_at_def marked_def
        less_Suc_eq numeral_eq_Suc split: if_splits)
  show "hash_contents demo_table (sc_view demo_hash) [[2, 3, 4], []] = [10 \<mapsto> 100, 30 \<mapsto> 300]"
    using idx by (auto simp: hash_contents_def demo_hash_def key_at_def val_at_def marked_def fun_eq_iff)
qed simp

theorem hash_map_refines_map_witness:
  "completes sc_api sc_view sc_ok (calls hash_map_ops demo_table 10 demo_calls) demo_hash
     (\<lambda>rs m'. \<exists>M'. spec_calls demo_calls [10 \<mapsto> 100, 30 \<mapsto> 300] = (rs, M') \<and>
        hash_repr demo_table m' M' (3 + length demo_calls))"
  by (rule hash_map_refines_map[OF sc.crossbeam_api_axioms demo_hash_ok demo_hash_repr])
    (simp add: demo_calls_def)

text \<open>
  C35: \<^verbatim>\<open>HashMap::new\<close>.  From 30000 places for bucket headers it builds a table that
  represents the empty map, with which any sequence of calls then answers as a finite map that
  starts empty.
\<close>

theorem hash_map_session:
  assumes "crossbeam_api X view ok" "ok s" "hash_place self (view s)" "length qs \<le> n"
  shows "completes X view ok (bind (map_new hash_map_ops self) (\<lambda>_. calls hash_map_ops self n qs)) s
    (\<lambda>rs m'. \<exists>M'. spec_calls qs Map.empty = (rs, M') \<and> hash_repr self m' M' (length qs))"
  using assms by (intro wp_completes hash_map.session_wp)

definition big_table :: "int hash_map" where
  "big_table = \<lparr>hasher = word_of_int, buckets = [1..<30001]\<rparr>"

definition big_memory :: "(list_field, (int, int) node) sc" where
  "big_memory = sc_start {1..<30001} 30001 (\<lambda>_. null) Map.empty []"

theorem hash_map_session_witness:
  "completes sc_api sc_view sc_ok
     (bind (map_new hash_map_ops big_table) (\<lambda>_. calls hash_map_ops big_table 5 demo_calls)) big_memory
     (\<lambda>rs m'. \<exists>M'. spec_calls demo_calls Map.empty = (rs, M') \<and> hash_repr big_table m' M' (length demo_calls))"
proof (rule hash_map_session[OF sc.crossbeam_api_axioms])
  show "sc_ok big_memory" unfolding big_memory_def by (rule sc_ok_start) auto
  show "hash_place big_table (sc_view big_memory)"
    unfolding hash_place_def big_table_def big_memory_def by (intro conjI garbage_ok_start) auto
qed (simp add: demo_calls_def)

end
