(* ===== verification/Ebr_Concurrent.thy ===== *)
theory Ebr_Concurrent
  imports Ebr_Harris_Concurrent Shared_Map Ebr_Hash_Map
begin

text \<open>
  The three lists of \<^verbatim>\<open>src/src/ebr/list.rs\<close> and the hash map built from \<^verbatim>\<open>HMList\<close>
  (\<^verbatim>\<open>src/src/ebr/michael_hash_map.rs\<close>) as objects that threads share: every interleaving of their calls is
  linearizable and free of memory errors, and between calls no node is lost.
\<close>

section \<open>A memory between calls\<close>

text \<open>Every allocated node is linked in the list its key belongs to, or is marked and waits for destruction.\<close>

definition at_rest :: "('k::linorder \<Rightarrow> addr) \<Rightarrow> ('k, 'v) list_mem \<Rightarrow> bool" where
  "at_rest home m \<longleftrightarrow> family home m \<and>
     (\<forall>a. obj m a \<noteq> None \<longrightarrow> linked home m a \<or> a \<in> set (garbage m) \<and> tag (nxt m a) = 1)"

abbreviation rest_world :: "('k, 'v) list_mem \<Rightarrow> ('k, 'v) lworld" where
  "rest_world m \<equiv> \<lparr>w_mem = m, w_pins = (\<lambda>_. None), w_call = (\<lambda>_. None), w_ghost = \<lparr>priv = (\<lambda>_. {}), pend = (\<lambda>_. {})\<rparr>\<rparr>"

lemma rest_world_inv: "at_rest home m \<Longrightarrow> hm_inv home (rest_world m) \<and> hm_idle t (rest_world m)"
  by (auto simp: at_rest_def hm_inv_def hm_ok_def owns_def hm_idle_def held_def heard_def)

lemma idle_at_rest:
  assumes "hm_inv home w" "\<forall>t. hm_idle t w"
  shows "at_rest home (w_mem w)"
proof -
  have none: "held (w_ghost w) t = {}" "priv (w_ghost w) t = {}" for t using assms(2) by (auto simp: hm_idle_def held_def)
  have ok: "hm_ok home (w_pins w) (w_mem w) (w_ghost w)" using assms(1) by (simp add: hm_inv_def)
  have "linked home (w_mem w) a \<or> a \<in> set (garbage (w_mem w)) \<and> tag (nxt (w_mem w) a) = 1" if a: "obj (w_mem w) a \<noteq> None" for a
    using hm_okD(6)[OF ok a] ownsD(4)[OF hm_okD(8)[OF ok] a] none by auto
  then show ?thesis using hm_okD(1)[OF ok] by (simp add: at_rest_def)
qed

section \<open>Calls on a family of lists\<close>

text \<open>What it takes of the code of the calls: each, begun by an idle thread, answers its request.\<close>

locale list_calls =
  fixes home :: "'k::linorder \<Rightarrow> addr" and code :: "('k, 'v) request \<Rightarrow> ('k, 'v, 'v response) list_prog"
  assumes answers: "hm_inv home w \<Longrightarrow> hm_idle t w \<Longrightarrow> called t q w \<Longrightarrow> w_pins w t \<noteq> None \<Longrightarrow>
    lcwp home t (code q) (answered hm_idle t q) w"

sublocale list_calls \<subseteq> shared_map "list_map home" "hm_inv home" "hm_rely home" hm_idle code "at_rest home"
proof (unfold_locales, goal_cases)
  case (1 w t q)
  then show ?case by (rule answers)
next
  case (2 m)
  then show ?case using rest_world_inv[OF 2] by (intro exI[of _ "rest_world m"]) simp
next
  case (3 w)
  then show ?case by (rule idle_at_rest)
qed

text \<open>Operations that look up, insert and remove serve the requests.\<close>

lemma list_calls_intro:
  fixes home :: "'k::linorder \<Rightarrow> addr" and M :: "(addr, 'k, 'v, list_field, ('k, 'v) node) concurrent_map"
  assumes get: "\<And>t q n k F w. q = Get_req k \<Longrightarrow> at_work home t q n {} {} F w \<Longrightarrow>
      lcwp home t (map_get M (home k) i k) (\<lambda>r. answered hm_idle t q (Got r)) w"
    and ins: "\<And>t q n k v F w. q = Insert_req k v \<Longrightarrow> at_work home t q n {} {} F w \<Longrightarrow>
      lcwp home t (map_insert M (home k) i k v) (\<lambda>r. answered hm_idle t q (Inserted r)) w"
    and rem: "\<And>t q n k F w. q = Remove_req k \<Longrightarrow> at_work home t q n {} {} F w \<Longrightarrow>
      lcwp home t (map_remove M (home k) i k) (\<lambda>r. answered hm_idle t q (Removed r)) w"
  shows "list_calls home (\<lambda>q. call M (home (req_key q)) i q)"
proof (rule list_calls.intro, goal_cases)
  case (1 w t q)
  then obtain n where "at_work home t q n {} {} (\<lambda>_. None) w" by (auto simp: at_work_def hm_idle_def held_def called_def)
  then show ?case
    by (cases q) (auto intro!: cwp_bind_mono[OF get] cwp_bind_mono[OF ins] cwp_bind_mono[OF rem])
qed

lemmas list_op_defs = list_map_defs harris_get_def harris_insert_def harris_remove_def harris_michael_get_def harris_michael_insert_def
  harris_michael_remove_def harris_herlihy_shavit_get_def harris_herlihy_shavit_insert_def harris_herlihy_shavit_remove_def list_remove_def

text \<open>Every call goes to the list its key belongs to.\<close>

definition family_call :: "('k::linorder \<Rightarrow> addr) \<Rightarrow> nat \<Rightarrow> ('k, 'v) request \<Rightarrow> ('k, 'v, 'v response) list_prog" where
  "family_call home n q = call HMList_ops (home (req_key q)) n q"

interpretation HM_family: list_calls home "family_call home n" for home :: "'k::linorder \<Rightarrow> addr" and n
  unfolding family_call_def[abs_def] by (rule list_calls_intro)
    (simp_all add: list_op_defs harris_michael.list_get_cwp harris_michael.list_insert_cwp harris_michael.list_remove_loop_cwp)

interpretation HM_calls: list_calls "\<lambda>_. self" "call HMList_ops self n" for self n
  by (rule list_calls_intro[where home = "\<lambda>_. self"]) (simp_all add: list_op_defs harris_michael.list_get_cwp[where home = "\<lambda>_. self"]
    harris_michael.list_insert_cwp[where home = "\<lambda>_. self"] harris_michael.list_remove_loop_cwp[where home = "\<lambda>_. self"])

interpretation H_calls: list_calls "\<lambda>_. self" "call HList_ops self n" for self n
  by (rule list_calls_intro[where home = "\<lambda>_. self"]) (simp_all add: list_op_defs harris.list_get_cwp[where home = "\<lambda>_. self"]
    harris.list_insert_cwp[where home = "\<lambda>_. self"] harris.list_remove_loop_cwp[where home = "\<lambda>_. self"])

interpretation HHS_calls: list_calls "\<lambda>_. self" "call HHSList_ops self n" for self n
  by (rule list_calls_intro[where home = "\<lambda>_. self"]) (simp_all add: list_op_defs herlihy_shavit.list_get_cwp[where home = "\<lambda>_. self"]
    harris_michael.list_insert_cwp[where home = "\<lambda>_. self"] harris_michael.list_remove_loop_cwp[where home = "\<lambda>_. self"])

lemmas family_interleavings = HM_family.interleavings
lemmas family_rests = HM_family.rests

section \<open>The lists\<close>

text \<open>
  C1: \<^verbatim>\<open>HMList\<close> is linearizable.  Take any implementation of the memory interface that threads can share, whose
  reclamation spares what a pinned thread may still hold, and any list between calls, marked nodes included.  Let any number of
  threads make any calls, each pinned while it runs, and let the scheduler interleave their accesses in any way: then at
  every moment the next access of every thread meets its contract (no access to freed memory, no double
  retirement or free), every finished call has had its effect on the map at one moment between its beginning and its
  end, with the answer that moment gives, and nothing else changes the map.
\<close>

theorem HMList_linearizable:
  assumes "ebr_threads X pin unpin view pinned ok" "ok s" "\<forall>t. pinned s t = None" "at_rest (\<lambda>_. self) (view s)"
  shows "interleavings_correct X pin unpin view (list_map (\<lambda>_. self)) (call HMList_ops self n) s qs"
  by (rule HM_calls.interleavings[OF assms])

lemma family_single:
  assumes "list_inv m self xs"
  shows "family (\<lambda>_. self) m" "linked (\<lambda>_. self) m a \<longleftrightarrow> a \<in> set xs"
  using assms nodes_list_inv[OF assms] by (auto simp: family_def linked_def)

lemma demo_list_rest: "at_rest (\<lambda>_. 1) (sc_view demo_list)"
  using family_single[OF demo_list_inv] by (auto simp: at_rest_def demo_list_def split: if_splits)

theorem HMList_linearizable_witness:
  "interleavings_correct par_api par_pin par_unpin par_view (list_map (\<lambda>_. 1)) (call HMList_ops 1 10)
     (demo_list, \<lambda>_. None) (\<lambda>t. if t < 8 then demo_calls else [])"
  by (rule HMList_linearizable[OF par.ebr_threads_axioms]) (use demo_list_ok demo_list_rest in \<open>auto simp: par_defs\<close>)

text \<open>
  C2: \<^verbatim>\<open>HList\<close> is linearizable, in the same sense.  Its search walks over marked nodes, takes a whole run of them out of
  the list with one compare-and-set and retires them afterwards, one by one, while other threads may still stand on them.
\<close>

theorem HList_linearizable:
  assumes "ebr_threads X pin unpin view pinned ok" "ok s" "\<forall>t. pinned s t = None" "at_rest (\<lambda>_. self) (view s)"
  shows "interleavings_correct X pin unpin view (list_map (\<lambda>_. self)) (call HList_ops self n) s qs"
  by (rule H_calls.interleavings[OF assms])

theorem HList_linearizable_witness:
  "interleavings_correct par_api par_pin par_unpin par_view (list_map (\<lambda>_. 1)) (call HList_ops 1 10)
     (demo_list, \<lambda>_. None) (\<lambda>t. if t < 8 then demo_calls else [])"
  by (rule HList_linearizable[OF par.ebr_threads_axioms]) (use demo_list_ok demo_list_rest in \<open>auto simp: par_defs\<close>)

text \<open>
  C3: \<^verbatim>\<open>HHSList\<close> is linearizable, in the same sense.  Its lookup never writes and never restarts: it follows links
  from nodes that have been marked, unlinked and even retired since it reached them, and its answer is right at some
  moment during the call, possibly not one at which the thread made a step.
\<close>

theorem HHSList_linearizable:
  assumes "ebr_threads X pin unpin view pinned ok" "ok s" "\<forall>t. pinned s t = None" "at_rest (\<lambda>_. self) (view s)"
  shows "interleavings_correct X pin unpin view (list_map (\<lambda>_. self)) (call HHSList_ops self n) s qs"
  by (rule HHS_calls.interleavings[OF assms])

theorem HHSList_linearizable_witness:
  "interleavings_correct par_api par_pin par_unpin par_view (list_map (\<lambda>_. 1)) (call HHSList_ops 1 10)
     (demo_list, \<lambda>_. None) (\<lambda>t. if t < 8 then demo_calls else [])"
  by (rule HHSList_linearizable[OF par.ebr_threads_axioms]) (use demo_list_ok demo_list_rest in \<open>auto simp: par_defs\<close>)

section \<open>The hash map\<close>

definition bucket_of :: "'k hash_map \<Rightarrow> 'k \<Rightarrow> addr" where
  "bucket_of self k = buckets self ! key_index self k"

lemma hash_call: "buckets self \<noteq> [] \<Longrightarrow> call hash_map_ops self n = family_call (bucket_of self) n"
proof
  fix q assume "buckets self \<noteq> []"
  then show "call hash_map_ops self n q = family_call (bucket_of self) n q"
    by (cases q) (simp_all add: family_call_def hash_map_ops_def HMList_ops_def hash_map_get_def hash_map_insert_def
        hash_map_remove_def get_bucket_def bucket_of_def key_index_def)
qed

text \<open>
  C4: the hash map is linearizable, in the same sense: threads that work on different buckets, or on the same one, see one
  finite map.
\<close>

theorem hash_map_linearizable:
  assumes "ebr_threads X pin unpin view pinned ok" "ok s" "\<forall>t. pinned s t = None"
    and "buckets self \<noteq> []" "at_rest (bucket_of self) (view s)"
  shows "interleavings_correct X pin unpin view (list_map (bucket_of self)) (call hash_map_ops self n) s qs"
  using family_interleavings[OF assms(1-3,5), of n qs] by (simp add: hash_call[OF assms(4)])

lemma bucket_of_demo: "bucket_of demo_table k = (if k = 40 then 5 else 1)"
  by (simp add: bucket_of_def key_index_def bucket_index_def hash_key_def demo_table_def)

lemma demo_hash_rest: "at_rest (bucket_of demo_table) (sc_view demo_hash)"
proof -
  let ?m = "sc_view demo_hash"
  have l: "list_inv ?m 1 [2, 3, 4]" "list_inv ?m 5 []" by (simp_all add: demo_hash_def list_inv_def key_at_def)
  have n: "nodes ?m (bucket_of demo_table k) = (if k = 40 then [] else [2, 3, 4])" for k
    using nodes_list_inv[OF l(1)] nodes_list_inv[OF l(2)] by (simp add: bucket_of_demo)
  have "key_at ?m 2 = 10" "key_at ?m 3 = 20" "key_at ?m 4 = 30" by (simp_all add: demo_hash_def key_at_def)
  then have "family (bucket_of demo_table) ?m" unfolding family_def n using l by (auto simp: bucket_of_demo)
  moreover have "linked (bucket_of demo_table) ?m a" if "obj ?m a \<noteq> None" for a
  proof -
    have "a = 2 \<or> a = 3 \<or> a = 4" using that by (auto simp: demo_hash_def split: if_splits)
    then show ?thesis unfolding linked_def using n[of 10] by (intro exI[of _ 10]) auto
  qed
  ultimately show ?thesis by (simp add: at_rest_def)
qed

lemma par_start [simp]: "par_view (x, P) = sc_view x" "par_pinned (x, P) = P" "par_ok (x, P) \<longleftrightarrow> sc_ok x"
  by (simp_all add: par_defs)

lemma demo_table_buckets: "buckets demo_table \<noteq> []"
  by (simp add: demo_table_def)

lemma demo_hash_start:
  "par_ok (demo_hash, \<lambda>_. None)" "\<forall>t. par_pinned (demo_hash, \<lambda>_. None) t = None"
  "at_rest (bucket_of demo_table) (par_view (demo_hash, \<lambda>_. None))"
  using demo_hash_ok demo_hash_rest by simp_all

theorem hash_map_linearizable_witness:
  "interleavings_correct par_api par_pin par_unpin par_view (list_map (bucket_of demo_table)) (call hash_map_ops demo_table 10)
     (demo_hash, \<lambda>_. None) (\<lambda>t. if t < 8 then demo_calls else [])"
  by (rule hash_map_linearizable[OF par.ebr_threads_axioms demo_hash_start(1,2) demo_table_buckets demo_hash_start(3)])

text \<open>
  C5: no leak.  Whenever no call is in progress, every node ever allocated and not destroyed is linked in the bucket of its
  key, or is marked and waits in the reclamation library; the buckets are sorted and their nodes disjoint from that garbage.
\<close>

theorem hash_map_no_leak:
  assumes "ebr_threads X pin unpin view pinned ok" "ok s" "\<forall>t. pinned s t = None"
    and "buckets self \<noteq> []" "at_rest (bucket_of self) (view s)"
    and "c = interleave X pin unpin (call hash_map_ops self n) sched (start_config s qs)" "\<forall>t. running c t = None"
  shows "at_rest (bucket_of self) (view (state c))"
  by (rule family_rests(1)[OF assms(1-3,5), of c n sched qs]) (use assms(6,7) in \<open>simp_all add: hash_call[OF assms(4)]\<close>)

text \<open>Two threads look up the key 40, in the empty bucket, at the same time.\<close>

definition race :: "tid \<Rightarrow> (int, int) request list" where
  "race = (\<lambda>_. [])(0 := [Get_req 40], 1 := [Get_req 40])"

abbreviation race_end :: "((int, int) request \<Rightarrow> (int, int, int response) list_prog) \<Rightarrow>
    (int, int, list_field, (int, int) node, (list_field, (int, int) node) par) config" where
  "race_end code \<equiv> interleave par_api par_pin par_unpin code [0, 1, 0, 1, 1, 0] (start_config (demo_hash, \<lambda>_. None) race)"

lemma race_run:
  assumes "code (Get_req 40) = Load (5, Next) k" "k null = Ret (Got None)"
  shows "running (race_end code) t = None"
    "finished (race_end code) = [(1, Get_req 40, Got None, 1, 5), (0, Get_req 40, Got None, 0, 6)]"
proof -
  have l: "cell (sc_mem demo_hash) (5, Next) = null" by (simp add: demo_hash_def sc_start_def)
  show "running (race_end code) t = None"
    "finished (race_end code) = [(1, Get_req 40, Got None, 1, 5), (0, Get_req 40, Got None, 0, 6)]"
    by (simp_all add: interleave_def tick_def race_def assms par_pin_def par_api_def sc_api_def l start_config_def)
qed

lemma race_ends: "running (race_end (call hash_map_ops demo_table 3)) t = None"
proof -
  let ?rest = "\<lambda>h. bind (bind (bind (find_harris_michael 3 40 \<lparr>prev = (5, Next), curr = h\<rparr>) (\<lambda>(r, cursor).
         case r of Inr found \<Rightarrow> Ret (found, cursor) | Inl _ \<Rightarrow> list_find 2 5 40 (find_harris_michael 3))) (\<lambda>(found, cursor).
       if found then if is_null (curr cursor) then Ret None else Deref (curr cursor) (\<lambda>nd. Ret (Some (val nd))) else Ret None))
       (\<lambda>r. Ret (Got r))"
  have "(call hash_map_ops demo_table 3 (Get_req 40) :: (int, int, int response) list_prog) = Load (5, Next) ?rest"
    unfolding hash_call[OF demo_table_buckets]
    using list_find.simps(2)[of 2 5 "40::int" "find_harris_michael 3 :: (int, int) finder"]
    by (simp add: family_call_def bucket_of_demo list_map_defs harris_michael_get_def list_get_def)
  then show ?thesis by (rule race_run) (simp add: numeral_3_eq_3 is_null_def)
qed

theorem hash_map_no_leak_witness: "at_rest (bucket_of demo_table) (par_view (state (race_end (call hash_map_ops demo_table 3))))"
  by (rule hash_map_no_leak[OF par.ebr_threads_axioms demo_hash_start(1,2) demo_table_buckets demo_hash_start(3) refl])
    (rule allI, rule race_ends)

end
