(* ===== verification/Ebr_Bonsai.thy ===== *)
theory Ebr_Bonsai
  imports Crossbeam
begin

unbundle bit_operations_syntax

text \<open>
  \<^verbatim>\<open>src/src/ebr/bonsai_tree.rs\<close>: a persistent weight-balanced tree whose root is replaced by
  one compare-and-set.  An operation copies the path it changes into new nodes, collects in a
  \<^verbatim>\<open>State\<close> the nodes it made and the nodes it replaces, and either commits (retiring the
  replaced nodes) or aborts (freeing the new ones).  Recursion and retries take a fuel argument.
\<close>

section \<open>Data\<close>

datatype bonsai_field = Root | Left | Right

record ('k, 'v) bonsai_node =
  bkey :: 'k
  bvalue :: 'v
  bsize :: nat

type_synonym ('k, 'v, 'a) bonsai_prog = "(bonsai_field, ('k, 'v) bonsai_node, 'a) prog"
type_synonym ('k, 'v) bonsai_mem = "(bonsai_field, ('k, 'v) bonsai_node) mem"

definition WEIGHT :: nat where
  "WEIGHT = 2"

text \<open>\<^verbatim>\<open>Retired\<close>: bit 0 of the tag.\<close>

definition RETIRED :: nat where
  "RETIRED = 1"

definition retired_bit :: "bool \<Rightarrow> nat" where
  "retired_bit b = (if b then RETIRED else 0)"

definition retired_node :: shared where
  "retired_node = with_tag null (retired_bit True)"

definition is_retired :: "shared \<Rightarrow> bool" where
  "is_retired node \<longleftrightarrow> tag node AND RETIRED \<noteq> 0"

text \<open>Rust's short-circuiting disjunction.\<close>

definition or_else :: "('f, 'n, bool) prog \<Rightarrow> ('f, 'n, bool) prog \<Rightarrow> ('f, 'n, bool) prog" where
  "or_else p q = bind p (\<lambda>b. if b then Ret True else q)"

definition is_retired_spot :: "shared \<Rightarrow> ('k, 'v, bool) bonsai_prog" where
  "is_retired_spot node =
     (if is_retired node then Ret True
      else if is_null node then Ret False
      else or_else (Load (raw node, Left) (\<lambda>p. Ret (is_retired p)))
                   (Load (raw node, Right) (\<lambda>p. Ret (is_retired p))))"

definition node_size :: "shared \<Rightarrow> ('k, 'v, nat) bonsai_prog" where
  "node_size node =
     (if is_retired node then Panic
      else if is_null node then Ret 0
      else Deref node (\<lambda>node_ref. Ret (bsize node_ref)))"

section \<open>State\<close>

record bonsai_state =
  retired_nodes :: "shared list"
  new_nodes :: "shared list"

definition state_new :: bonsai_state where
  "state_new = \<lparr>retired_nodes = [], new_nodes = []\<rparr>"

fun state_abort_loop :: "shared list \<Rightarrow> ('k, 'v, unit) bonsai_prog" where
  "state_abort_loop [] = Ret ()"
| "state_abort_loop (node # nodes) = Drop_owned node (state_abort_loop nodes)"

definition state_abort :: "bonsai_state \<Rightarrow> ('k, 'v, bonsai_state) bonsai_prog" where
  "state_abort self = bind (state_abort_loop (new_nodes self)) (\<lambda>_. Ret \<lparr>retired_nodes = [], new_nodes = []\<rparr>)"

fun state_commit_loop :: "shared list \<Rightarrow> ('k, 'v, unit) bonsai_prog" where
  "state_commit_loop [] = Ret ()"
| "state_commit_loop (node # nodes) =
     Store (raw node, Left) retired_node (
     Store (raw node, Right) retired_node (
     Defer_destroy node (state_commit_loop nodes)))"

definition state_commit :: "bonsai_state \<Rightarrow> ('k, 'v, bonsai_state) bonsai_prog" where
  "state_commit self =
     bind (state_commit_loop (retired_nodes self)) (\<lambda>_. Ret \<lparr>retired_nodes = [], new_nodes = []\<rparr>)"

definition retire_node :: "bonsai_state \<Rightarrow> shared \<Rightarrow> bonsai_state" where
  "retire_node self node = self\<lparr>retired_nodes := retired_nodes self @ [node]\<rparr>"

definition add_new_node :: "bonsai_state \<Rightarrow> shared \<Rightarrow> bonsai_state" where
  "add_new_node self node = self\<lparr>new_nodes := new_nodes self @ [node]\<rparr>"

definition mk_node ::
  "bonsai_state \<Rightarrow> shared \<Rightarrow> shared \<Rightarrow> 'k \<Rightarrow> 'v \<Rightarrow> ('k, 'v, shared \<times> bonsai_state) bonsai_prog" where
  "mk_node self left right k v =
     bind (or_else (is_retired_spot left) (is_retired_spot right)) (\<lambda>b.
       if b then Ret (retired_node, self)
       else
         bind (node_size left) (\<lambda>left_size.
         bind (node_size right) (\<lambda>right_size.
         Owned_new \<lparr>bkey = k, bvalue = v, bsize = left_size + right_size + 1\<rparr> [(Left, left), (Right, right)]
           (\<lambda>new_node. Ret (new_node, add_new_node self new_node)))))"

definition single_left ::
  "bonsai_state \<Rightarrow> shared \<Rightarrow> shared \<Rightarrow> shared \<Rightarrow> shared \<Rightarrow> 'k \<Rightarrow> 'v \<Rightarrow> ('k, 'v, shared \<times> bonsai_state) bonsai_prog" where
  "single_left self left right right_left right_right k v =
     Deref right (\<lambda>right_ref.
       bind (mk_node self left right_left k v) (\<lambda>(new_left, self).
       bind (mk_node self new_left right_right (bkey right_ref) (bvalue right_ref)) (\<lambda>(res, self).
       Ret (res, retire_node self right))))"

definition double_left ::
  "bonsai_state \<Rightarrow> shared \<Rightarrow> shared \<Rightarrow> shared \<Rightarrow> shared \<Rightarrow> 'k \<Rightarrow> 'v \<Rightarrow> ('k, 'v, shared \<times> bonsai_state) bonsai_prog" where
  "double_left self left right right_left right_right k v =
     Deref right (\<lambda>right_ref.
     Deref right_left (\<lambda>right_left_ref.
     Load (raw right_left, Left) (\<lambda>right_left_left.
     Load (raw right_left, Right) (\<lambda>right_left_right.
       bind (or_else (is_retired_spot right_left_left) (is_retired_spot right_left_right)) (\<lambda>b.
         if b then Ret (retired_node, self)
         else
           bind (mk_node self left right_left_left k v) (\<lambda>(new_left, self).
           bind (mk_node self right_left_right right_right (bkey right_ref) (bvalue right_ref)) (\<lambda>(new_right, self).
           bind (mk_node self new_left new_right (bkey right_left_ref) (bvalue right_left_ref)) (\<lambda>(res, self).
           Ret (res, retire_node (retire_node self right_left) right)))))))))"

definition mk_balanced_left ::
  "bonsai_state \<Rightarrow> shared \<Rightarrow> shared \<Rightarrow> 'k \<Rightarrow> 'v \<Rightarrow> ('k, 'v, shared \<times> bonsai_state) bonsai_prog" where
  "mk_balanced_left self left right k v =
     Load (raw right, Left) (\<lambda>right_left.
     Load (raw right, Right) (\<lambda>right_right.
       bind (or_else (is_retired_spot right_left) (is_retired_spot right_right)) (\<lambda>b.
         if b then Ret (retired_node, self)
         else
           bind (node_size right_left) (\<lambda>sl.
           bind (node_size right_right) (\<lambda>sr.
           if sl < sr then single_left self left right right_left right_right k v
           else double_left self left right right_left right_right k v)))))"

definition single_right ::
  "bonsai_state \<Rightarrow> shared \<Rightarrow> shared \<Rightarrow> shared \<Rightarrow> shared \<Rightarrow> 'k \<Rightarrow> 'v \<Rightarrow> ('k, 'v, shared \<times> bonsai_state) bonsai_prog" where
  "single_right self left right left_right left_left k v =
     Deref left (\<lambda>left_ref.
       bind (mk_node self left_right right k v) (\<lambda>(new_right, self).
       bind (mk_node self left_left new_right (bkey left_ref) (bvalue left_ref)) (\<lambda>(res, self).
       Ret (res, retire_node self left))))"

definition double_right ::
  "bonsai_state \<Rightarrow> shared \<Rightarrow> shared \<Rightarrow> shared \<Rightarrow> shared \<Rightarrow> 'k \<Rightarrow> 'v \<Rightarrow> ('k, 'v, shared \<times> bonsai_state) bonsai_prog" where
  "double_right self left right left_right left_left k v =
     Deref left (\<lambda>left_ref.
     Deref left_right (\<lambda>left_right_ref.
     Load (raw left_right, Left) (\<lambda>left_right_left.
     Load (raw left_right, Right) (\<lambda>left_right_right.
       bind (or_else (is_retired_spot left_right_left) (is_retired_spot left_right_right)) (\<lambda>b.
         if b then Ret (retired_node, self)
         else
           bind (mk_node self left_left left_right_left (bkey left_ref) (bvalue left_ref)) (\<lambda>(new_left, self).
           bind (mk_node self left_right_right right k v) (\<lambda>(new_right, self).
           bind (mk_node self new_left new_right (bkey left_right_ref) (bvalue left_right_ref)) (\<lambda>(res, self).
           Ret (res, retire_node (retire_node self left_right) left)))))))))"

definition mk_balanced_right ::
  "bonsai_state \<Rightarrow> shared \<Rightarrow> shared \<Rightarrow> 'k \<Rightarrow> 'v \<Rightarrow> ('k, 'v, shared \<times> bonsai_state) bonsai_prog" where
  "mk_balanced_right self left right k v =
     Load (raw left, Right) (\<lambda>left_right.
     Load (raw left, Left) (\<lambda>left_left.
       bind (or_else (is_retired_spot left_right) (is_retired_spot left_left)) (\<lambda>b.
         if b then Ret (retired_node, self)
         else
           bind (node_size left_right) (\<lambda>sr.
           bind (node_size left_left) (\<lambda>sl.
           if sr < sl then single_right self left right left_right left_left k v
           else double_right self left right left_right left_left k v)))))"

definition mk_balanced ::
  "bonsai_state \<Rightarrow> shared \<Rightarrow> shared \<Rightarrow> shared \<Rightarrow> ('k, 'v, shared \<times> bonsai_state) bonsai_prog" where
  "mk_balanced self cur left right =
     bind (or_else (is_retired_spot cur) (or_else (is_retired_spot left) (is_retired_spot right))) (\<lambda>b.
       if b then Ret (retired_node, self)
       else Deref cur (\<lambda>cur_ref.
         bind (node_size left) (\<lambda>l_size.
         bind (node_size right) (\<lambda>r_size.
         bind
           (if r_size > 0 \<and> (l_size > 0 \<and> r_size > WEIGHT * l_size \<or> l_size = 0 \<and> r_size > WEIGHT)
            then mk_balanced_left self left right (bkey cur_ref) (bvalue cur_ref)
            else if l_size > 0 \<and> (r_size > 0 \<and> l_size > WEIGHT * r_size \<or> r_size = 0 \<and> l_size > WEIGHT)
            then mk_balanced_right self left right (bkey cur_ref) (bvalue cur_ref)
            else mk_node self left right (bkey cur_ref) (bvalue cur_ref))
           (\<lambda>(res, self). Ret (res, retire_node self cur))))))"

fun do_insert ::
  "nat \<Rightarrow> bonsai_state \<Rightarrow> shared \<Rightarrow> 'k::linorder \<Rightarrow> 'v \<Rightarrow> ('k, 'v, (shared \<times> bool) \<times> bonsai_state) bonsai_prog" where
  "do_insert 0 self node k v = Out_of_fuel"
| "do_insert (Suc n) self node k v =
     bind (is_retired_spot node) (\<lambda>b.
       if b then Ret ((retired_node, False), self)
       else if is_null node then
         bind (mk_node self null null k v) (\<lambda>(p, self). Ret ((p, True), self))
       else Deref node (\<lambda>node_ref.
         Load (raw node, Left) (\<lambda>left.
         Load (raw node, Right) (\<lambda>right.
           bind (or_else (is_retired_spot left) (is_retired_spot right)) (\<lambda>b.
             if b then Ret ((retired_node, False), self)
             else case cmp (bkey node_ref) k of
               Equal \<Rightarrow> Ret ((node, False), self)
             | Less \<Rightarrow>
                 bind (do_insert n self right k v) (\<lambda>((new_right, inserted), self).
                 bind (mk_balanced self node left new_right) (\<lambda>(p, self). Ret ((p, inserted), self)))
             | Greater \<Rightarrow>
                 bind (do_insert n self left k v) (\<lambda>((new_left, inserted), self).
                 bind (mk_balanced self node new_left right) (\<lambda>(p, self). Ret ((p, inserted), self))))))))"

fun pull_leftmost ::
  "nat \<Rightarrow> bonsai_state \<Rightarrow> shared \<Rightarrow> ('k, 'v, (shared \<times> shared) \<times> bonsai_state) bonsai_prog" where
  "pull_leftmost 0 self node = Out_of_fuel"
| "pull_leftmost (Suc n) self node =
     bind (is_retired_spot node) (\<lambda>b.
       if b then Ret ((retired_node, retired_node), self)
       else Deref node (\<lambda>node_ref.
         Load (raw node, Left) (\<lambda>left.
         Load (raw node, Right) (\<lambda>right.
           bind (or_else (is_retired_spot left) (is_retired_spot right)) (\<lambda>b.
             if b then Ret ((retired_node, retired_node), self)
             else if \<not> is_null left then
               bind (pull_leftmost n self left) (\<lambda>((new_left, succ), self).
               bind (mk_balanced self node new_left right) (\<lambda>(p, self). Ret ((p, succ), self)))
             else
               bind (mk_node self null null (bkey node_ref) (bvalue node_ref)) (\<lambda>(succ, self).
               Ret ((right, succ), retire_node self node)))))))"

fun pull_rightmost ::
  "nat \<Rightarrow> bonsai_state \<Rightarrow> shared \<Rightarrow> ('k, 'v, (shared \<times> shared) \<times> bonsai_state) bonsai_prog" where
  "pull_rightmost 0 self node = Out_of_fuel"
| "pull_rightmost (Suc n) self node =
     bind (is_retired_spot node) (\<lambda>b.
       if b then Ret ((retired_node, retired_node), self)
       else Deref node (\<lambda>node_ref.
         Load (raw node, Left) (\<lambda>left.
         Load (raw node, Right) (\<lambda>right.
           bind (or_else (is_retired_spot left) (is_retired_spot right)) (\<lambda>b.
             if b then Ret ((retired_node, retired_node), self)
             else if \<not> is_null right then
               bind (pull_rightmost n self right) (\<lambda>((new_right, succ), self).
               bind (mk_balanced self node left new_right) (\<lambda>(p, self). Ret ((p, succ), self)))
             else
               bind (mk_node self null null (bkey node_ref) (bvalue node_ref)) (\<lambda>(succ, self).
               Ret ((left, succ), retire_node self node)))))))"

fun do_remove ::
  "nat \<Rightarrow> bonsai_state \<Rightarrow> shared \<Rightarrow> 'k::linorder \<Rightarrow> ('k, 'v, (shared \<times> 'v option) \<times> bonsai_state) bonsai_prog" where
  "do_remove 0 self node k = Out_of_fuel"
| "do_remove (Suc n) self node k =
     bind (is_retired_spot node) (\<lambda>b.
       if b then Ret ((retired_node, None), self)
       else if is_null node then Ret ((null, None), self)
       else Deref node (\<lambda>node_ref.
         Load (raw node, Left) (\<lambda>left.
         Load (raw node, Right) (\<lambda>right.
           bind (or_else (is_retired_spot left) (is_retired_spot right)) (\<lambda>b.
             if b then Ret ((retired_node, None), self)
             else case cmp (bkey node_ref) k of
               Equal \<Rightarrow>
                 let v = Some (bvalue node_ref); self = retire_node self node in
                 if bsize node_ref = 1 then Ret ((null, v), self)
                 else if \<not> is_null left then
                   bind (pull_rightmost n self left) (\<lambda>((new_left, succ), self).
                   bind (mk_balanced self succ new_left right) (\<lambda>(p, self). Ret ((p, v), self)))
                 else
                   bind (pull_leftmost n self right) (\<lambda>((new_right, succ), self).
                   bind (mk_balanced self succ left new_right) (\<lambda>(p, self). Ret ((p, v), self)))
             | Less \<Rightarrow>
                 bind (do_remove n self right k) (\<lambda>((new_right, v), self).
                 bind (mk_balanced self node left new_right) (\<lambda>(p, self). Ret ((p, v), self)))
             | Greater \<Rightarrow>
                 bind (do_remove n self left k) (\<lambda>((new_left, v), self).
                 bind (mk_balanced self node new_left right) (\<lambda>(p, self). Ret ((p, v), self))))))))"

section \<open>BonsaiTreeMap\<close>

definition bonsai_new :: "addr \<Rightarrow> ('k, 'v, unit) bonsai_prog" where
  "bonsai_new self = Store (self, Root) null (Ret ())"

fun bonsai_search :: "nat \<Rightarrow> shared \<Rightarrow> 'k::linorder \<Rightarrow> ('k, 'v, shared) bonsai_prog" where
  "bonsai_search 0 node k = Out_of_fuel"
| "bonsai_search (Suc n) node k =
     (if \<not> is_null node \<and> \<not> is_retired node then
        Deref node (\<lambda>node_ref.
          case cmp k (bkey node_ref) of
            Equal \<Rightarrow> Ret node
          | Less \<Rightarrow> Load (raw node, Left) (\<lambda>node. bonsai_search n node k)
          | Greater \<Rightarrow> Load (raw node, Right) (\<lambda>node. bonsai_search n node k))
      else Ret node)"

fun bonsai_get_loop :: "nat \<Rightarrow> nat \<Rightarrow> addr \<Rightarrow> 'k::linorder \<Rightarrow> ('k, 'v, 'v option) bonsai_prog" where
  "bonsai_get_loop 0 n self k = Out_of_fuel"
| "bonsai_get_loop (Suc i) n self k =
     Load (self, Root) (\<lambda>node.
       bind (bonsai_search n node k) (\<lambda>node.
         bind (is_retired_spot node) (\<lambda>b.
           if b then bonsai_get_loop i n self k
           else if is_null node then Ret None
           else Deref node (\<lambda>node_ref. Ret (Some (bvalue node_ref))))))"

definition bonsai_get :: "addr \<Rightarrow> nat \<Rightarrow> 'k::linorder \<Rightarrow> ('k, 'v, 'v option) bonsai_prog" where
  "bonsai_get self n k = bonsai_get_loop n n self k"

fun bonsai_insert_loop ::
  "nat \<Rightarrow> nat \<Rightarrow> addr \<Rightarrow> bonsai_state \<Rightarrow> 'k::linorder \<Rightarrow> 'v \<Rightarrow> ('k, 'v, bool) bonsai_prog" where
  "bonsai_insert_loop 0 n self state k v = Out_of_fuel"
| "bonsai_insert_loop (Suc i) n self state k v =
     Load (self, Root) (\<lambda>old_root.
       bind (do_insert n state old_root k v) (\<lambda>((new_root, inserted), state).
         if is_retired new_root then
           bind (state_abort state) (\<lambda>state. bonsai_insert_loop i n self state k v)
         else
           Compare_and_set (self, Root) old_root new_root (\<lambda>r.
             case r of
               Inr _ \<Rightarrow> bind (state_commit state) (\<lambda>_. Ret inserted)
             | Inl _ \<Rightarrow> bind (state_abort state) (\<lambda>state. bonsai_insert_loop i n self state k v))))"

definition bonsai_insert :: "addr \<Rightarrow> nat \<Rightarrow> 'k::linorder \<Rightarrow> 'v \<Rightarrow> ('k, 'v, bool) bonsai_prog" where
  "bonsai_insert self n k v = bonsai_insert_loop n n self state_new k v"

fun bonsai_remove_loop ::
  "nat \<Rightarrow> nat \<Rightarrow> addr \<Rightarrow> bonsai_state \<Rightarrow> 'k::linorder \<Rightarrow> ('k, 'v, 'v option) bonsai_prog" where
  "bonsai_remove_loop 0 n self state k = Out_of_fuel"
| "bonsai_remove_loop (Suc i) n self state k =
     Load (self, Root) (\<lambda>old_root.
       bind (do_remove n state old_root k) (\<lambda>((new_root, v), state).
         if is_retired new_root then
           bind (state_abort state) (\<lambda>state. bonsai_remove_loop i n self state k)
         else
           Compare_and_set (self, Root) old_root new_root (\<lambda>r.
             case r of
               Inr _ \<Rightarrow> bind (state_commit state) (\<lambda>_. Ret v)
             | Inl _ \<Rightarrow> bind (state_abort state) (\<lambda>state. bonsai_remove_loop i n self state k))))"

definition bonsai_remove :: "addr \<Rightarrow> nat \<Rightarrow> 'k::linorder \<Rightarrow> ('k, 'v, 'v option) bonsai_prog" where
  "bonsai_remove self n k = bonsai_remove_loop n n self state_new k"

text \<open>\<^verbatim>\<open>Drop\<close> walks the tree with an explicit stack; \<^verbatim>\<open>pop\<close> takes its last element.\<close>

fun bonsai_drop_loop :: "nat \<Rightarrow> shared list \<Rightarrow> ('k, 'v, unit) bonsai_prog" where
  "bonsai_drop_loop 0 stack = Out_of_fuel"
| "bonsai_drop_loop (Suc n) stack =
     (if stack = [] then Ret ()
      else
        let node = last stack; stack = butlast stack in
        if is_null node then bonsai_drop_loop n stack
        else Load (raw node, Left) (\<lambda>left.
          Load (raw node, Right) (\<lambda>right.
            Drop_owned node (bonsai_drop_loop n (stack @ [left, right])))))"

definition bonsai_drop :: "nat \<Rightarrow> addr \<Rightarrow> ('k, 'v, unit) bonsai_prog" where
  "bonsai_drop n self = Load (self, Root) (\<lambda>root. bonsai_drop_loop n [root])"

end
