(* ===== verification/Bonsai_Spec.thy ===== *)
theory Bonsai_Spec
  imports Ebr_Bonsai
begin

text \<open>
  What a bonsai tree means.  Pure binary trees with the algorithms of the code as functions on
  them, and the proofs that these keep the search order and implement a map; then trees in memory,
  with the addresses of their nodes, and the accounting of new and replaced nodes.
\<close>

section \<open>Pure trees\<close>

datatype ('k, 'v) btree = Tip | Bin "('k, 'v) btree" 'k 'v "('k, 'v) btree"

fun tsize :: "('k, 'v) btree \<Rightarrow> nat" where
  "tsize Tip = 0"
| "tsize (Bin l k v r) = tsize l + tsize r + 1"

fun entries :: "('k, 'v) btree \<Rightarrow> ('k \<times> 'v) list" where
  "entries Tip = []"
| "entries (Bin l k v r) = entries l @ (k, v) # entries r"

definition search_tree :: "('k::linorder, 'v) btree \<Rightarrow> bool" where
  "search_tree t \<longleftrightarrow> sorted_wrt (<) (map fst (entries t))"

definition tmap :: "('k, 'v) btree \<Rightarrow> 'k \<rightharpoonup> 'v" where
  "tmap t = map_of (entries t)"

lemma tsize_entries: "tsize t = length (entries t)"
  by (induction t) auto

lemma tsize_0 [simp]: "tsize t = 0 \<longleftrightarrow> t = Tip"
  by (cases t) auto

text \<open>The test that the code makes before rotating: \<open>heavy a b\<close> if a side of size \<open>b\<close> outweighs one of size \<open>a\<close>.\<close>

definition heavy :: "nat \<Rightarrow> nat \<Rightarrow> bool" where
  "heavy a b \<longleftrightarrow> b > 0 \<and> (a > 0 \<and> b > WEIGHT * a \<or> a = 0 \<and> b > WEIGHT)"

fun rotate_left :: "('k, 'v) btree \<Rightarrow> 'k \<Rightarrow> 'v \<Rightarrow> ('k, 'v) btree \<Rightarrow> ('k, 'v) btree" where
  "rotate_left l k v Tip = Bin l k v Tip"
| "rotate_left l k v (Bin rl rk rv rr) =
     (if tsize rl < tsize rr then Bin (Bin l k v rl) rk rv rr
      else case rl of
        Tip \<Rightarrow> Bin l k v (Bin rl rk rv rr)
      | Bin rll rlk rlv rlr \<Rightarrow> Bin (Bin l k v rll) rlk rlv (Bin rlr rk rv rr))"

fun rotate_right :: "('k, 'v) btree \<Rightarrow> 'k \<Rightarrow> 'v \<Rightarrow> ('k, 'v) btree \<Rightarrow> ('k, 'v) btree" where
  "rotate_right Tip k v r = Bin Tip k v r"
| "rotate_right (Bin ll lk lv lr) k v r =
     (if tsize lr < tsize ll then Bin ll lk lv (Bin lr k v r)
      else case lr of
        Tip \<Rightarrow> Bin (Bin ll lk lv lr) k v r
      | Bin lrl lrk lrv lrr \<Rightarrow> Bin (Bin ll lk lv lrl) lrk lrv (Bin lrr k v r))"

definition balance :: "('k, 'v) btree \<Rightarrow> 'k \<Rightarrow> 'v \<Rightarrow> ('k, 'v) btree \<Rightarrow> ('k, 'v) btree" where
  "balance l k v r =
     (if heavy (tsize l) (tsize r) then rotate_left l k v r
      else if heavy (tsize r) (tsize l) then rotate_right l k v r
      else Bin l k v r)"

fun tinsert :: "'k::linorder \<Rightarrow> 'v \<Rightarrow> ('k, 'v) btree \<Rightarrow> ('k, 'v) btree" where
  "tinsert k v Tip = Bin Tip k v Tip"
| "tinsert k v (Bin l k' v' r) =
     (if k' = k then Bin l k' v' r
      else if k' < k then balance l k' v' (tinsert k v r)
      else balance (tinsert k v l) k' v' r)"

fun pull_max :: "('k, 'v) btree \<Rightarrow> 'k \<Rightarrow> 'v \<Rightarrow> ('k, 'v) btree \<Rightarrow> ('k, 'v) btree \<times> 'k \<times> 'v" where
  "pull_max l k v Tip = (l, k, v)"
| "pull_max l k v (Bin rl rk rv rr) =
     (case pull_max rl rk rv rr of (r', m) \<Rightarrow> (balance l k v r', m))"

fun pull_min :: "('k, 'v) btree \<Rightarrow> 'k \<Rightarrow> 'v \<Rightarrow> ('k, 'v) btree \<Rightarrow> ('k, 'v) btree \<times> 'k \<times> 'v" where
  "pull_min Tip k v r = (r, k, v)"
| "pull_min (Bin ll lk lv lr) k v r =
     (case pull_min ll lk lv lr of (l', m) \<Rightarrow> (balance l' k v r, m))"

definition tjoin :: "('k, 'v) btree \<Rightarrow> ('k, 'v) btree \<Rightarrow> ('k, 'v) btree" where
  "tjoin l r =
     (case l of
        Bin ll lk lv lr \<Rightarrow> (case pull_max ll lk lv lr of (l', k, v) \<Rightarrow> balance l' k v r)
      | Tip \<Rightarrow> (case r of
          Bin rl rk rv rr \<Rightarrow> (case pull_min rl rk rv rr of (r', k, v) \<Rightarrow> balance Tip k v r')
        | Tip \<Rightarrow> Tip))"

fun tremove :: "'k::linorder \<Rightarrow> ('k, 'v) btree \<Rightarrow> ('k, 'v) btree" where
  "tremove k Tip = Tip"
| "tremove k (Bin l k' v' r) =
     (if k' = k then tjoin l r
      else if k' < k then balance l k' v' (tremove k r)
      else balance (tremove k l) k' v' r)"

fun tlookup :: "('k::linorder, 'v) btree \<Rightarrow> 'k \<Rightarrow> 'v option" where
  "tlookup Tip k = None"
| "tlookup (Bin l k' v r) k =
     (if k' = k then Some v else if k' < k then tlookup r k else tlookup l k)"

subsection \<open>Order\<close>

lemma rotate_entries [simp]:
  "entries (rotate_left l k v r) = entries l @ (k, v) # entries r"
  "entries (rotate_right l k v r) = entries l @ (k, v) # entries r"
  by (cases r; auto split: btree.splits) (cases l; auto split: btree.splits)

lemma balance_entries [simp]: "entries (balance l k v r) = entries l @ (k, v) # entries r"
  by (simp add: balance_def)

lemma pull_max_entries:
  "pull_max l k v r = (t, k', v') \<Longrightarrow> entries t @ [(k', v')] = entries l @ (k, v) # entries r"
  by (induction l k v r arbitrary: t rule: pull_max.induct) (auto split: prod.splits)

lemma pull_min_entries:
  "pull_min l k v r = (t, k', v') \<Longrightarrow> (k', v') # entries t = entries l @ (k, v) # entries r"
  by (induction l k v r arbitrary: t rule: pull_min.induct) (auto split: prod.splits)

lemma tjoin_entries [simp]: "entries (tjoin l r) = entries l @ entries r"
  by (auto simp: tjoin_def split: btree.splits prod.splits dest!: pull_max_entries pull_min_entries)

lemma search_tree_Bin:
  "search_tree (Bin l k v r) \<longleftrightarrow> search_tree l \<and> search_tree r \<and>
     (\<forall>x\<in>fst ` set (entries l). x < k) \<and> (\<forall>x\<in>fst ` set (entries r). k < x)"
  unfolding search_tree_def by (auto simp: sorted_wrt_append) (metis fst_conv order.strict_trans)

lemma map_of_outside: "k \<notin> fst ` set xs \<Longrightarrow> map_of xs k = None"
  by (simp add: map_of_eq_None_iff)

lemma tmap_Bin:
  assumes "search_tree (Bin l k v r)"
  shows "tmap (Bin l k v r) x = (if x = k then Some v else if x < k then tmap l x else tmap r x)"
proof -
  have "map_of (entries l) x = None" if "k \<le> x"
    using assms that by (intro map_of_outside) (auto simp: search_tree_Bin)
  moreover have "map_of (entries r) x = None" if "x \<le> k"
    using assms that by (intro map_of_outside) (auto simp: search_tree_Bin)
  ultimately show ?thesis by (auto simp: tmap_def map_add_def split: option.splits)
qed

lemma tlookup_tmap: "search_tree t \<Longrightarrow> tlookup t k = tmap t k"
proof (induction t)
  case (Bin l k' v' r)
  from tmap_Bin[OF Bin.prems] Bin show ?case by (auto simp: search_tree_Bin)
qed (simp add: tmap_def)

text \<open>Insertion and removal as operations on the sorted list of entries.\<close>

lemma filter_all_none:
  "(\<And>x. x \<in> fst ` set xs \<Longrightarrow> P x) \<Longrightarrow> filter (\<lambda>x. P (fst x)) xs = xs"
  "(\<And>x. x \<in> fst ` set xs \<Longrightarrow> \<not> P x) \<Longrightarrow> filter (\<lambda>x. P (fst x)) xs = []"
  by (auto intro!: filter_True filter_False)

lemmas filter_sides =
  filter_all_none(1)[where P = "\<lambda>x. x < k" for k] filter_all_none(2)[where P = "\<lambda>x. x < k" for k]
  filter_all_none(1)[where P = "\<lambda>x. k < x" for k] filter_all_none(2)[where P = "\<lambda>x. k < x" for k]

lemma tinsert_entries:
  assumes "search_tree t"
  shows "entries (tinsert k v t) =
    (if tlookup t k = None
     then filter (\<lambda>x. fst x < k) (entries t) @ (k, v) # filter (\<lambda>x. k < fst x) (entries t)
     else entries t)"
  using assms
proof (induction t)
  case (Bin l k' v' r)
  then have IH: "entries (tinsert k v l) = (if tlookup l k = None
       then filter (\<lambda>x. fst x < k) (entries l) @ (k, v) # filter (\<lambda>x. k < fst x) (entries l) else entries l)"
    "entries (tinsert k v r) = (if tlookup r k = None
       then filter (\<lambda>x. fst x < k) (entries r) @ (k, v) # filter (\<lambda>x. k < fst x) (entries r) else entries r)"
    by (auto simp: search_tree_Bin)
  have b: "\<And>x. x \<in> fst ` set (entries l) \<Longrightarrow> x < k'" "\<And>x. x \<in> fst ` set (entries r) \<Longrightarrow> k' < x"
    using Bin.prems by (auto simp: search_tree_Bin)
  show ?case
  proof (cases k' k rule: linorder_cases)
    case less
    with b have "filter (\<lambda>x. fst x < k) (entries l) = entries l" "filter (\<lambda>x. k < fst x) (entries l) = []"
      by (intro filter_sides; force)+
    with less IH show ?thesis by auto
  next
    case greater
    with b have "filter (\<lambda>x. fst x < k) (entries r) = []" "filter (\<lambda>x. k < fst x) (entries r) = entries r"
      by (intro filter_sides; force)+
    with greater IH show ?thesis by auto
  qed simp
qed simp

lemma tremove_entries:
  assumes "search_tree t"
  shows "entries (tremove k t) = filter (\<lambda>x. fst x \<noteq> k) (entries t)"
  using assms
proof (induction t)
  case (Bin l k' v' r)
  then have IH: "entries (tremove k l) = filter (\<lambda>x. fst x \<noteq> k) (entries l)"
    "entries (tremove k r) = filter (\<lambda>x. fst x \<noteq> k) (entries r)"
    by (auto simp: search_tree_Bin)
  have b: "\<And>x. x \<in> fst ` set (entries l) \<Longrightarrow> x < k'" "\<And>x. x \<in> fst ` set (entries r) \<Longrightarrow> k' < x"
    using Bin.prems by (auto simp: search_tree_Bin)
  have "filter (\<lambda>x. fst x \<noteq> k) (entries l) = entries l" if "k' \<le> k"
    using b(1) that by (intro filter_all_none(1)) force
  moreover have "filter (\<lambda>x. fst x \<noteq> k) (entries r) = entries r" if "k \<le> k'"
    using b(2) that by (intro filter_all_none(1)) force
  ultimately show ?case using IH by (cases k' k rule: linorder_cases) auto
qed simp

lemma map_of_filter_fst: "map_of (filter (\<lambda>x. P (fst x)) xs) k = (if P k then map_of xs k else None)"
  by (induction xs) auto

lemmas map_of_sides =
  map_of_filter_fst[where P = "\<lambda>x. x < k" for k] map_of_filter_fst[where P = "\<lambda>x. k < x" for k]
  map_of_filter_fst[where P = "\<lambda>x. x \<noteq> k" for k]

lemma tinsert_correct:
  assumes "search_tree t"
  shows "search_tree (tinsert k v t)"
    and "tmap (tinsert k v t) = (if tmap t k = None then (tmap t)(k \<mapsto> v) else tmap t)"
    and "tsize (tinsert k v t) \<le> Suc (tsize t)"
proof -
  note e = tinsert_entries[OF assms, of k v] and l = tlookup_tmap[OF assms, of k]
  have s: "sorted_wrt (<) (map fst (entries t))" using assms by (simp add: search_tree_def)
  have "sorted_wrt (<) (map fst (filter P (entries t)))" for P
    using s by (metis sorted_wrt_filter filter_map sorted_wrt_map)
  then show "search_tree (tinsert k v t)"
    unfolding search_tree_def e using s by (auto simp: sorted_wrt_append intro: order.strict_trans)
  show "tmap (tinsert k v t) = (if tmap t k = None then (tmap t)(k \<mapsto> v) else tmap t)"
    using l unfolding tmap_def e
    by (auto simp: fun_eq_iff map_add_def map_of_sides split: option.splits)
  have "length (filter (\<lambda>x. fst x < k) xs) + length (filter (\<lambda>x. k < fst x) xs) \<le> length xs" for xs :: "('a \<times> 'b) list"
    by (induction xs) auto
  from this[of "entries t"] show "tsize (tinsert k v t) \<le> Suc (tsize t)" by (simp add: tsize_entries e)
qed

lemma tremove_correct:
  assumes "search_tree t"
  shows "search_tree (tremove k t)" and "tmap (tremove k t) = (tmap t)(k := None)"
    and "tsize (tremove k t) \<le> tsize t"
proof -
  note e = tremove_entries[OF assms, of k]
  show "search_tree (tremove k t)"
    using assms unfolding search_tree_def e by (metis sorted_wrt_filter filter_map sorted_wrt_map)
  show "tmap (tremove k t) = (tmap t)(k := None)"
    unfolding tmap_def e by (auto simp: fun_eq_iff map_of_sides)
  show "tsize (tremove k t) \<le> tsize t" by (simp add: tsize_entries e)
qed

section \<open>Trees in memory\<close>

text \<open>A tree with the addresses of its nodes.\<close>

datatype ('k, 'v) itree = ITip | IBin addr "('k, 'v) itree" 'k 'v "('k, 'v) itree"

primrec erase :: "('k, 'v) itree \<Rightarrow> ('k, 'v) btree" where
  "erase ITip = Tip"
| "erase (IBin a l k v r) = Bin (erase l) k v (erase r)"

primrec addrs :: "('k, 'v) itree \<Rightarrow> addr list" where
  "addrs ITip = []"
| "addrs (IBin a l k v r) = a # addrs l @ addrs r"

primrec iheight :: "('k, 'v) itree \<Rightarrow> nat" where
  "iheight ITip = 0"
| "iheight (IBin a l k v r) = Suc (max (iheight l) (iheight r))"

primrec tree_at :: "('k, 'v) bonsai_mem \<Rightarrow> shared \<Rightarrow> ('k, 'v) itree \<Rightarrow> bool" where
  "tree_at m p ITip \<longleftrightarrow> p = null"
| "tree_at m p (IBin a l k v r) \<longleftrightarrow>
     p = Shared a 0 \<and> a \<noteq> 0 \<and> a \<notin> statics m \<and> a \<notin> set (garbage m) \<and>
     obj m a = Some \<lparr>bkey = k, bvalue = v, bsize = tsize (erase (IBin a l k v r))\<rparr> \<and>
     tree_at m (cell m (a, Left)) l \<and> tree_at m (cell m (a, Right)) r"

lemma erase_Tip [simp]: "erase t = Tip \<longleftrightarrow> t = ITip"
  by (cases t) auto

lemma tsize_addrs: "tsize (erase t) = length (addrs t)"
  by (induction t) auto

lemma iheight_size: "iheight t \<le> tsize (erase t)"
  by (induction t) auto

lemma tree_at_tag: "tree_at m p t \<Longrightarrow> tag p = 0"
  by (cases t) auto

lemma tree_at_null: "tree_at m p t \<Longrightarrow> is_null p \<longleftrightarrow> t = ITip"
  by (cases t) auto

lemma tree_at_cong:
  assumes "tree_at m p t" "statics m' = statics m"
    and "\<And>a. a \<in> set (addrs t) \<Longrightarrow> obj m' a = obj m a \<and> cell m' (a, Left) = cell m (a, Left) \<and>
      cell m' (a, Right) = cell m (a, Right) \<and> a \<notin> set (garbage m')"
  shows "tree_at m' p t"
  using assms
proof (induction t arbitrary: p)
  case (IBin a l k v r)
  from IBin.prems(3)[of a] IBin show ?case by auto
qed simp

lemma tree_at_addr:
  "tree_at m p t \<Longrightarrow> a \<in> set (addrs t) \<Longrightarrow> a \<noteq> 0 \<and> obj m a \<noteq> None \<and> a \<notin> statics m \<and> a \<notin> set (garbage m)"
  by (induction t arbitrary: p) auto

text \<open>
  While an operation works on its copy it allocates nodes and changes nothing else.
  \<open>grows m st m' st' N R\<close>: it allocated exactly \<open>N\<close> and decided to replace \<open>R\<close>.
\<close>

definition extends :: "('f, 'n) mem \<Rightarrow> ('f, 'n) mem \<Rightarrow> bool" where
  "extends m m' \<longleftrightarrow>
     (\<forall>a. live m a \<longrightarrow> obj m' a = obj m a \<and> (\<forall>f. cell m' (a, f) = cell m (a, f))) \<and>
     statics m' = statics m \<and> garbage m' = garbage m \<and> retired m' = retired m \<and> freed m' = freed m \<and>
     dropped m' = dropped m"

definition ptrs :: "addr list \<Rightarrow> shared list" where
  "ptrs as = map (\<lambda>a. Shared a 0) as"

lemma ptrs_simps [simp]: "ptrs [] = []" "ptrs (a # as) = Shared a 0 # ptrs as" "ptrs (as @ bs) = ptrs as @ ptrs bs"
  by (simp_all add: ptrs_def)

definition grows ::
  "('k, 'v) bonsai_mem \<Rightarrow> bonsai_state \<Rightarrow> ('k, 'v) bonsai_mem \<Rightarrow> bonsai_state \<Rightarrow> addr list \<Rightarrow> addr list \<Rightarrow> bool" where
  "grows m st m' st' N R \<longleftrightarrow> extends m m' \<and>
     new_nodes st' = new_nodes st @ ptrs N \<and> retired_nodes st' = retired_nodes st @ ptrs R \<and> distinct N \<and>
     (\<forall>a\<in>set N. fresh m a \<and> obj m' a \<noteq> None) \<and> dom (obj m') \<subseteq> dom (obj m) \<union> set N"

lemma extends_refl [simp]: "extends m m"
  by (simp add: extends_def)

lemma extends_live: "extends m m' \<Longrightarrow> live m a \<Longrightarrow> live m' a"
  by (auto simp: extends_def live_def)

lemma extends_trans: "extends m m1 \<Longrightarrow> extends m1 m2 \<Longrightarrow> extends m m2"
  using extends_live[of m m1] by (auto simp: extends_def)

lemma extends_alloc: "fresh m a \<Longrightarrow> extends m (alloc a n fs m)"
  by (auto simp: extends_def fresh_def live_def)

lemma fresh_extends: "extends m m' \<Longrightarrow> fresh m' a \<Longrightarrow> fresh m a"
  by (auto simp: extends_def fresh_def live_def)

lemma tree_at_extends: "tree_at m p t \<Longrightarrow> extends m m' \<Longrightarrow> tree_at m' p t"
  by (rule tree_at_cong[of m p t m']) (auto simp: extends_def live_def dest: tree_at_addr)

lemma grows_refl [simp]: "grows m st m st [] []"
  by (simp add: grows_def)

lemma grows_trans:
  assumes "grows m st m1 st1 N R" "grows m1 st1 m2 st2 N' R'"
  shows "grows m st m2 st2 (N @ N') (R @ R')"
proof -
  have "obj m2 a \<noteq> None" if "a \<in> set N" for a
    using assms that by (auto simp: grows_def extends_def live_def)
  moreover have "fresh m a" if "a \<in> set N'" for a
    using assms that fresh_extends[of m m1 a] by (auto simp: grows_def)
  moreover have "a \<notin> set N'" if "a \<in> set N" for a
    using assms that by (auto simp: grows_def fresh_def)
  moreover have "dom (obj m2) \<subseteq> dom (obj m) \<union> set (N @ N')" using assms unfolding grows_def set_append by blast
  ultimately show ?thesis
    using assms extends_trans[of m m1 m2] by (simp add: grows_def) blast
qed

lemma grows_retire: "grows m st m1 st1 N R \<Longrightarrow> grows m st m1 (retire_node st1 (Shared a 0)) N (R @ [a])"
  by (simp add: grows_def retire_node_def)

lemma grows_extends: "grows m st m' st' N R \<Longrightarrow> extends m m'"
  by (simp add: grows_def)

text \<open>What a routine of the state delivers: a tree of the right shape, every node accounted for.\<close>

definition builds ::
  "('k, 'v) bonsai_mem \<Rightarrow> bonsai_state \<Rightarrow> addr multiset \<Rightarrow> ('k, 'v) btree \<Rightarrow> shared \<Rightarrow> bonsai_state \<Rightarrow>
    ('k, 'v) bonsai_mem \<Rightarrow> bool" where
  "builds m st used t p st' m' \<longleftrightarrow>
     (\<exists>t' N R. grows m st m' st' N R \<and> tree_at m' p t' \<and> erase t' = t \<and>
        mset (addrs t') + mset R = used + mset N)"

lemma buildsI:
  "grows m st m' st' N R \<Longrightarrow> tree_at m' p t' \<Longrightarrow> erase t' = t \<Longrightarrow>
    mset (addrs t') + mset R = used + mset N \<Longrightarrow> builds m st used t p st' m'"
  unfolding builds_def by blast

end
