(* ===== verification/Ebr_Bonsai_Correct.thy ===== *)
theory Ebr_Bonsai_Correct
  imports Bonsai_Spec Concurrent_Map
begin

text \<open>
  Correctness of \<^verbatim>\<open>src/src/ebr/bonsai_tree.rs\<close> run without interference.  Each routine
  builds the tree that the corresponding pure function computes, and the nodes balance: what it
  allocated plus what it was given is what it returns plus what it marked for retirement.
\<close>

section \<open>Routines of the state\<close>

lemma is_retired_simps [simp]: "\<not> is_retired null" "\<not> is_retired (Shared a 0)" "is_retired retired_node"
  by (simp_all add: is_retired_def retired_node_def retired_bit_def RETIRED_def)

lemma tree_at_live: "tree_at m p t \<Longrightarrow> \<not> is_retired p"
  by (cases t) auto

lemma or_else_wp [simp]: "wp (or_else p q) Q m \<longleftrightarrow> wp p (\<lambda>b m. if b then Q True m else wp q Q m) m"
proof -
  have "(\<lambda>b. wp (if b then Ret True else q) Q) = (\<lambda>b m. if b then Q True m else wp q Q m)"
    by (auto simp: fun_eq_iff)
  then show ?thesis by (simp add: or_else_def wp_bind)
qed

lemma is_retired_spot_wp: "tree_at m p t \<Longrightarrow> Q False m \<Longrightarrow> wp (is_retired_spot p) Q m"
  using tree_at_live by (cases t) (force simp: is_retired_spot_def live_def)+

lemma spots_wp:
  "tree_at m p t \<Longrightarrow> tree_at m q u \<Longrightarrow> Q False m \<Longrightarrow> wp (or_else (is_retired_spot p) (is_retired_spot q)) Q m"
  by (auto intro!: is_retired_spot_wp)

lemma spots3_wp:
  "tree_at m p t \<Longrightarrow> tree_at m q u \<Longrightarrow> tree_at m r v \<Longrightarrow> Q False m \<Longrightarrow>
    wp (or_else (is_retired_spot p) (or_else (is_retired_spot q) (is_retired_spot r))) Q m"
  by (auto intro!: is_retired_spot_wp)

lemma node_size_wp: "tree_at m p t \<Longrightarrow> Q (tsize (erase t)) m \<Longrightarrow> wp (node_size p) Q m"
  by (cases t) (auto simp: node_size_def)

lemma mk_node_wp:
  assumes l: "tree_at m pl l" and r: "tree_at m pr r"
    and post: "\<And>a m' st'. grows m st m' st' [a] [] \<Longrightarrow> tree_at m' (Shared a 0) (IBin a l k v r) \<Longrightarrow>
      garbage_ok m' \<Longrightarrow> Q (Shared a 0, st') m'"
    and g: "garbage_ok m"
  shows "wp (mk_node st pl pr k v) Q m"
proof -
  let ?n = "\<lparr>bkey = k, bvalue = v, bsize = tsize (erase l) + tsize (erase r) + 1\<rparr>"
  have "Q (Shared a 0, add_new_node st (Shared a 0)) (alloc a ?n [(Left, pl), (Right, pr)] m)" if fr: "fresh m a" for a
  proof (rule post)
    let ?m = "alloc a ?n [(Left, pl), (Right, pr)] m"
    have ext: "extends m ?m" using fr by (rule extends_alloc)
    then show "grows m st ?m (add_new_node st (Shared a 0)) [a] []"
      using fr by (simp add: grows_def add_new_node_def)
    show "tree_at ?m (Shared a 0) (IBin a l k v r)"
      using tree_at_extends[OF l ext] tree_at_extends[OF r ext] fr garbage_ok_fresh[OF g fr]
      by (auto simp: fresh_def)
    show "garbage_ok ?m" using g by (rule garbage_ok_alloc)
  qed
  then show ?thesis
    unfolding mk_node_def wp_bind
    by (intro spots_wp[OF l r]) (auto simp: wp_bind intro!: node_size_wp[OF l] node_size_wp[OF r])
qed

text \<open>The rotations.\<close>

lemma single_left_wp:
  assumes l: "tree_at m pl l" and r: "tree_at m pr (IBin a rl rk rv rr)" and g: "garbage_ok m"
  shows "wp (single_left st pl pr (cell m (a, Left)) (cell m (a, Right)) k v)
    (\<lambda>(p, st') m'. garbage_ok m' \<and> builds m st (mset (addrs l) + mset (addrs (IBin a rl rk rv rr)))
       (Bin (Bin (erase l) k v (erase rl)) rk rv (erase rr)) p st' m') m"
proof -
  have rl: "tree_at m (cell m (a, Left)) rl" and rr: "tree_at m (cell m (a, Right)) rr"
    and a: "obj m a = Some \<lparr>bkey = rk, bvalue = rv, bsize = tsize (erase (IBin a rl rk rv rr))\<rparr>"
    and pr: "pr = Shared a 0" using r by auto
  have "wp (bind (mk_node st pl (cell m (a, Left)) k v) (\<lambda>(new_left, st).
       bind (mk_node st new_left (cell m (a, Right)) rk rv) (\<lambda>(res, st). Ret (res, retire_node st pr))))
    (\<lambda>(p, st') m'. garbage_ok m' \<and> builds m st (mset (addrs l) + mset (addrs (IBin a rl rk rv rr)))
       (Bin (Bin (erase l) k v (erase rl)) rk rv (erase rr)) p st' m') m"
    unfolding wp_bind
  proof (rule mk_node_wp[OF l rl _ g], goal_cases)
    case (1 b m1 st1)
    note rr1 = tree_at_extends[OF rr grows_extends[OF 1(1)]]
    show ?case
      unfolding wp_bind prod.case
    proof (rule mk_node_wp[OF 1(2) rr1 _ 1(3)], goal_cases)
      case (1 c m2 st2)
      have "grows m st m2 (retire_node st2 pr) ([b] @ [c]) ([] @ [] @ [a])"
        unfolding pr using grows_retire[OF grows_trans[OF \<open>grows m st m1 st1 [b] []\<close> 1(1)], of a] by simp
      from buildsI[OF this 1(2)] 1(3) show ?case by simp
    qed
  qed
  then show ?thesis using a pr by (simp add: single_left_def)
qed

lemma double_left_wp:
  assumes l: "tree_at m pl l" and r: "tree_at m pr (IBin a (IBin b rll rlk rlv rlr) rk rv rr)" and g: "garbage_ok m"
  shows "wp (double_left st pl pr (cell m (a, Left)) (cell m (a, Right)) k v)
    (\<lambda>(p, st') m'. garbage_ok m' \<and> builds m st (mset (addrs l) + mset (addrs (IBin a (IBin b rll rlk rlv rlr) rk rv rr)))
       (Bin (Bin (erase l) k v (erase rll)) rlk rlv (Bin (erase rlr) rk rv (erase rr))) p st' m') m" (is "wp _ ?Q m")
proof -
  have rll: "tree_at m (cell m (b, Left)) rll" and rlr: "tree_at m (cell m (b, Right)) rlr"
    and rr: "tree_at m (cell m (a, Right)) rr" and pr: "pr = Shared a 0" "cell m (a, Left) = Shared b 0"
    and o: "obj m a = Some \<lparr>bkey = rk, bvalue = rv, bsize = tsize (erase (IBin a (IBin b rll rlk rlv rlr) rk rv rr))\<rparr>"
      "obj m b = Some \<lparr>bkey = rlk, bvalue = rlv, bsize = tsize (erase (IBin b rll rlk rlv rlr))\<rparr>"
    using r by auto
  have "wp (bind (mk_node st pl (cell m (b, Left)) k v) (\<lambda>(new_left, st).
       bind (mk_node st (cell m (b, Right)) (cell m (a, Right)) rk rv) (\<lambda>(new_right, st).
       bind (mk_node st new_left new_right rlk rlv) (\<lambda>(res, st).
       Ret (res, retire_node (retire_node st (cell m (a, Left))) pr))))) ?Q m"
    unfolding wp_bind
  proof (rule mk_node_wp[OF l rll _ g], goal_cases)
    case (1 c m1 st1)
    note g1 = \<open>grows m st m1 st1 [c] []\<close> and t1 = \<open>tree_at m1 (Shared c 0) _\<close>
    note rlr1 = tree_at_extends[OF rlr grows_extends[OF g1]] and rr1 = tree_at_extends[OF rr grows_extends[OF g1]]
    show ?case
      unfolding wp_bind prod.case
    proof (rule mk_node_wp[OF rlr1 rr1 _ 1(3)], goal_cases)
      case (1 d m2 st2)
      note g2 = grows_trans[OF g1 1(1)] and t2 = \<open>tree_at m2 (Shared d 0) _\<close>
      note t1' = tree_at_extends[OF t1 grows_extends[OF 1(1)]]
      show ?case
        unfolding wp_bind prod.case
      proof (rule mk_node_wp[OF t1' t2 _ 1(3)], goal_cases)
        case (1 e m3 st3)
        have "grows m st m3 (retire_node (retire_node st3 (Shared b 0)) (Shared a 0)) [c, d, e] [b, a]"
          using grows_retire[OF grows_retire[OF grows_trans[OF g2 1(1)], of b], of a] by simp
        from buildsI[OF this 1(2)] 1(3) pr show ?case by simp
      qed
    qed
  qed
  then show ?thesis
    using o pr spots_wp[OF rll rlr] by (simp add: double_left_def wp_bind live_def del: or_else_wp)
qed

lemma single_right_wp:
  assumes l: "tree_at m pl (IBin a ll lk lv lr)" and r: "tree_at m pr r" and g: "garbage_ok m"
  shows "wp (single_right st pl pr (cell m (a, Right)) (cell m (a, Left)) k v)
    (\<lambda>(p, st') m'. garbage_ok m' \<and> builds m st (mset (addrs (IBin a ll lk lv lr)) + mset (addrs r))
       (Bin (erase ll) lk lv (Bin (erase lr) k v (erase r))) p st' m') m" (is "wp _ ?Q m")
proof -
  have ll: "tree_at m (cell m (a, Left)) ll" and lr: "tree_at m (cell m (a, Right)) lr"
    and a: "obj m a = Some \<lparr>bkey = lk, bvalue = lv, bsize = tsize (erase (IBin a ll lk lv lr))\<rparr>"
    and pl: "pl = Shared a 0" using l by auto
  have "wp (bind (mk_node st (cell m (a, Right)) pr k v) (\<lambda>(new_right, st).
       bind (mk_node st (cell m (a, Left)) new_right lk lv) (\<lambda>(res, st). Ret (res, retire_node st pl)))) ?Q m"
    unfolding wp_bind
  proof (rule mk_node_wp[OF lr r _ g], goal_cases)
    case (1 b m1 st1)
    note ll1 = tree_at_extends[OF ll grows_extends[OF 1(1)]]
    show ?case
      unfolding wp_bind prod.case
    proof (rule mk_node_wp[OF ll1 1(2) _ 1(3)], goal_cases)
      case (1 c m2 st2)
      have "grows m st m2 (retire_node st2 pl) [b, c] [a]"
        unfolding pl using grows_retire[OF grows_trans[OF \<open>grows m st m1 st1 [b] []\<close> 1(1)], of a] by simp
      from buildsI[OF this 1(2)] 1(3) show ?case by simp
    qed
  qed
  then show ?thesis using a pl by (simp add: single_right_def)
qed

lemma double_right_wp:
  assumes l: "tree_at m pl (IBin a ll lk lv (IBin b lrl lrk lrv lrr))" and r: "tree_at m pr r" and g: "garbage_ok m"
  shows "wp (double_right st pl pr (cell m (a, Right)) (cell m (a, Left)) k v)
    (\<lambda>(p, st') m'. garbage_ok m' \<and> builds m st (mset (addrs (IBin a ll lk lv (IBin b lrl lrk lrv lrr))) + mset (addrs r))
       (Bin (Bin (erase ll) lk lv (erase lrl)) lrk lrv (Bin (erase lrr) k v (erase r))) p st' m') m" (is "wp _ ?Q m")
proof -
  have lrl: "tree_at m (cell m (b, Left)) lrl" and lrr: "tree_at m (cell m (b, Right)) lrr"
    and ll: "tree_at m (cell m (a, Left)) ll" and pl: "pl = Shared a 0" "cell m (a, Right) = Shared b 0"
    and o: "obj m a = Some \<lparr>bkey = lk, bvalue = lv, bsize = tsize (erase (IBin a ll lk lv (IBin b lrl lrk lrv lrr)))\<rparr>"
      "obj m b = Some \<lparr>bkey = lrk, bvalue = lrv, bsize = tsize (erase (IBin b lrl lrk lrv lrr))\<rparr>"
    using l by auto
  have "wp (bind (mk_node st (cell m (a, Left)) (cell m (b, Left)) lk lv) (\<lambda>(new_left, st).
       bind (mk_node st (cell m (b, Right)) pr k v) (\<lambda>(new_right, st).
       bind (mk_node st new_left new_right lrk lrv) (\<lambda>(res, st).
       Ret (res, retire_node (retire_node st (cell m (a, Right))) pl))))) ?Q m"
    unfolding wp_bind
  proof (rule mk_node_wp[OF ll lrl _ g], goal_cases)
    case (1 c m1 st1)
    note g1 = \<open>grows m st m1 st1 [c] []\<close> and t1 = \<open>tree_at m1 (Shared c 0) _\<close>
    note lrr1 = tree_at_extends[OF lrr grows_extends[OF g1]] and r1 = tree_at_extends[OF r grows_extends[OF g1]]
    show ?case
      unfolding wp_bind prod.case
    proof (rule mk_node_wp[OF lrr1 r1 _ 1(3)], goal_cases)
      case (1 d m2 st2)
      note g2 = grows_trans[OF g1 1(1)] and t2 = \<open>tree_at m2 (Shared d 0) _\<close>
      note t1' = tree_at_extends[OF t1 grows_extends[OF 1(1)]]
      show ?case
        unfolding wp_bind prod.case
      proof (rule mk_node_wp[OF t1' t2 _ 1(3)], goal_cases)
        case (1 e m3 st3)
        have "grows m st m3 (retire_node (retire_node st3 (Shared b 0)) (Shared a 0)) [c, d, e] [b, a]"
          using grows_retire[OF grows_retire[OF grows_trans[OF g2 1(1)], of b], of a] by simp
        from buildsI[OF this 1(2)] 1(3) pl show ?case by simp
      qed
    qed
  qed
  then show ?thesis
    using o pl spots_wp[OF lrl lrr] by (simp add: double_right_def wp_bind live_def del: or_else_wp)
qed

text \<open>
  A rotation is only tried on a side of at least three nodes, so the double rotations find the
  inner grandchild they dereference.
\<close>

lemma heavy_size: "heavy a b \<Longrightarrow> 2 < b"
  by (auto simp: heavy_def WEIGHT_def)

lemma mk_balanced_left_wp:
  assumes l: "tree_at m pl l" and r: "tree_at m pr r" and g: "garbage_ok m"
    and h: "heavy (tsize (erase l)) (tsize (erase r))"
  shows "wp (mk_balanced_left st pl pr k v)
    (\<lambda>(p, st') m'. garbage_ok m' \<and> builds m st (mset (addrs l) + mset (addrs r))
       (rotate_left (erase l) k v (erase r)) p st' m') m"
proof -
  have big: "2 < tsize (erase r)" using heavy_size[OF h] .
  then obtain a rl rk rv rr where R: "r = IBin a rl rk rv rr" by (cases r) auto
  with r have rl: "tree_at m (cell m (a, Left)) rl" and rr: "tree_at m (cell m (a, Right)) rr" by auto
  note single = single_left_wp[OF l r[unfolded R] g, of st k v]
  have "wp (double_left st pl pr (cell m (a, Left)) (cell m (a, Right)) k v)
    (\<lambda>(p, st') m'. garbage_ok m' \<and> builds m st (mset (addrs l) + mset (addrs r))
       (rotate_left (erase l) k v (erase r)) p st' m') m" if ge: "\<not> tsize (erase rl) < tsize (erase rr)"
  proof -
    obtain b rll rlk rlv rlr where RL: "rl = IBin b rll rlk rlv rlr"
      using ge big R by (cases rl) auto
    from double_left_wp[OF l r[unfolded R RL] g, of st k v] ge R RL show ?thesis by simp
  qed
  then show ?thesis
    using single R r
    by (auto simp: mk_balanced_left_def wp_bind live_def simp del: or_else_wp
        intro!: spots_wp[OF rl rr] node_size_wp[OF rl] node_size_wp[OF rr])
qed

lemma mk_balanced_right_wp:
  assumes l: "tree_at m pl l" and r: "tree_at m pr r" and g: "garbage_ok m"
    and h: "heavy (tsize (erase r)) (tsize (erase l))"
  shows "wp (mk_balanced_right st pl pr k v)
    (\<lambda>(p, st') m'. garbage_ok m' \<and> builds m st (mset (addrs l) + mset (addrs r))
       (rotate_right (erase l) k v (erase r)) p st' m') m"
proof -
  have big: "2 < tsize (erase l)" using heavy_size[OF h] .
  then obtain a ll lk lv lr where L: "l = IBin a ll lk lv lr" by (cases l) auto
  with l have ll: "tree_at m (cell m (a, Left)) ll" and lr: "tree_at m (cell m (a, Right)) lr" by auto
  note single = single_right_wp[OF l[unfolded L] r g, of st k v]
  have "wp (double_right st pl pr (cell m (a, Right)) (cell m (a, Left)) k v)
    (\<lambda>(p, st') m'. garbage_ok m' \<and> builds m st (mset (addrs l) + mset (addrs r))
       (rotate_right (erase l) k v (erase r)) p st' m') m" if ge: "\<not> tsize (erase lr) < tsize (erase ll)"
  proof -
    obtain b lrl lrk lrv lrr where LR: "lr = IBin b lrl lrk lrv lrr"
      using ge big L by (cases lr) auto
    from double_right_wp[OF l[unfolded L LR] r g, of st k v] ge L LR show ?thesis by simp
  qed
  then show ?thesis
    using single L l
    by (auto simp: mk_balanced_right_def wp_bind live_def simp del: or_else_wp
        intro!: spots_wp[OF lr ll] node_size_wp[OF lr] node_size_wp[OF ll])
qed

lemma mk_balanced_wp:
  assumes c: "tree_at m pc (IBin c cl k v cr)" and l: "tree_at m pl l" and r: "tree_at m pr r" and g: "garbage_ok m"
  shows "wp (mk_balanced st pc pl pr)
    (\<lambda>(p, st') m'. garbage_ok m' \<and> builds m st (add_mset c (mset (addrs l) + mset (addrs r)))
       (balance (erase l) k v (erase r)) p st' m') m" (is "wp _ ?Q m")
proof -
  have pc: "pc = Shared c 0" and
    o: "obj m c = Some \<lparr>bkey = k, bvalue = v, bsize = tsize (erase (IBin c cl k v cr))\<rparr>" using c by auto
  let ?ls = "tsize (erase l)" and ?rs = "tsize (erase r)"
  have fin: "?Q (p, retire_node st' pc) m'"
    if "garbage_ok m'" "builds m st (mset (addrs l) + mset (addrs r)) (balance (erase l) k v (erase r)) p st' m'" for p st' m'
  proof -
    from that(2) obtain t N R where t: "grows m st m' st' N R" "tree_at m' p t" "erase t = balance (erase l) k v (erase r)"
      "mset (addrs t) + mset R = mset (addrs l) + mset (addrs r) + mset N" unfolding builds_def by blast
    from buildsI[OF grows_retire[OF t(1), of c] t(2,3)] t(4) that(1) pc show ?thesis by simp
  qed
  have "wp (if ?rs > 0 \<and> (?ls > 0 \<and> ?rs > WEIGHT * ?ls \<or> ?ls = 0 \<and> ?rs > WEIGHT)
            then mk_balanced_left st pl pr k v
            else if ?ls > 0 \<and> (?rs > 0 \<and> ?ls > WEIGHT * ?rs \<or> ?rs = 0 \<and> ?ls > WEIGHT)
            then mk_balanced_right st pl pr k v
            else mk_node st pl pr k v)
     (\<lambda>(p, st') m'. garbage_ok m' \<and> builds m st (mset (addrs l) + mset (addrs r))
        (balance (erase l) k v (erase r)) p st' m') m"
    unfolding heavy_def[symmetric]
  proof -
    consider (left) "heavy ?ls ?rs" | (right) "\<not> heavy ?ls ?rs" "heavy ?rs ?ls" | (none) "\<not> heavy ?ls ?rs" "\<not> heavy ?rs ?ls"
      by blast
    then show "wp (if heavy ?ls ?rs then mk_balanced_left st pl pr k v
        else if heavy ?rs ?ls then mk_balanced_right st pl pr k v else mk_node st pl pr k v)
     (\<lambda>(p, st') m'. garbage_ok m' \<and> builds m st (mset (addrs l) + mset (addrs r))
        (balance (erase l) k v (erase r)) p st' m') m"
    proof cases
      case left
      with mk_balanced_left_wp[OF l r g left, of st k v] show ?thesis by (simp add: balance_def)
    next
      case right
      with mk_balanced_right_wp[OF l r g right(2), of st k v] show ?thesis by (simp add: balance_def)
    next
      case none
      have "wp (mk_node st pl pr k v) (\<lambda>(p, st') m'. garbage_ok m' \<and> builds m st (mset (addrs l) + mset (addrs r))
        (balance (erase l) k v (erase r)) p st' m') m"
      proof (rule mk_node_wp[OF l r _ g], goal_cases)
        case (1 a m' st')
        have "builds m st (mset (addrs l) + mset (addrs r)) (balance (erase l) k v (erase r)) (Shared a 0) st' m'"
          by (rule buildsI[OF 1(1,2)]) (use none in \<open>simp_all add: balance_def\<close>)
        with 1(3) show ?case by simp
      qed
      with none show ?thesis by simp
    qed
  qed
  then have "wp (bind (node_size pl) (\<lambda>l_size. bind (node_size pr) (\<lambda>r_size.
         bind
           (if r_size > 0 \<and> (l_size > 0 \<and> r_size > WEIGHT * l_size \<or> l_size = 0 \<and> r_size > WEIGHT)
            then mk_balanced_left st pl pr k v
            else if l_size > 0 \<and> (r_size > 0 \<and> l_size > WEIGHT * r_size \<or> r_size = 0 \<and> l_size > WEIGHT)
            then mk_balanced_right st pl pr k v
            else mk_node st pl pr k v)
           (\<lambda>(res, self). Ret (res, retire_node self pc))))) ?Q m"
    unfolding wp_bind using fin by (intro node_size_wp[OF l] node_size_wp[OF r]) (auto elim!: wp_mono)
  then have "wp (Deref pc (\<lambda>cur_ref. bind (node_size pl) (\<lambda>l_size. bind (node_size pr) (\<lambda>r_size.
         bind
           (if r_size > 0 \<and> (l_size > 0 \<and> r_size > WEIGHT * l_size \<or> l_size = 0 \<and> r_size > WEIGHT)
            then mk_balanced_left st pl pr (bkey cur_ref) (bvalue cur_ref)
            else if l_size > 0 \<and> (r_size > 0 \<and> l_size > WEIGHT * r_size \<or> r_size = 0 \<and> l_size > WEIGHT)
            then mk_balanced_right st pl pr (bkey cur_ref) (bvalue cur_ref)
            else mk_node st pl pr (bkey cur_ref) (bvalue cur_ref))
           (\<lambda>(res, self). Ret (res, retire_node self pc)))))) ?Q m"
    using o pc by (simp cong: if_cong)
  then show ?thesis
    unfolding mk_balanced_def wp_bind[of "or_else _ _"] by (intro spots3_wp[OF c l r]) simp
qed

section \<open>Insertion and removal on the copy\<close>

text \<open>
  The pattern of all recursive routines: compute a subtree, then rebuild the node above it.  Besides
  the subtree, the computation may have made nodes \<open>E\<close> that are not part of it.
\<close>

definition builds_plus ::
  "('k, 'v) bonsai_mem \<Rightarrow> bonsai_state \<Rightarrow> addr multiset \<Rightarrow> addr multiset \<Rightarrow> ('k, 'v) btree \<Rightarrow> shared \<Rightarrow> bonsai_state \<Rightarrow>
    ('k, 'v) bonsai_mem \<Rightarrow> bool" where
  "builds_plus m st used E t p st' m' \<longleftrightarrow>
     (\<exists>t' N R. grows m st m' st' N R \<and> tree_at m' p t' \<and> erase t' = t \<and>
        mset (addrs t') + mset R + E = used + mset N)"

lemma builds_plus_empty [simp]: "builds_plus m st used {#} t p st' m' \<longleftrightarrow> builds m st used t p st' m'"
  by (simp add: builds_plus_def builds_def)

lemma builds_plus_obtain:
  assumes "builds_plus m st used E t p st' m'"
  obtains t' N R where "grows m st m' st' N R" "extends m m'" "tree_at m' p t'" "erase t' = t"
    "mset (addrs t') + mset R + E = used + mset N"
  using assms that unfolding builds_plus_def grows_def by blast

lemma builds_plus_trans:
  assumes "grows m st m1 st1 N R" "builds m1 st1 used t p st2 m2" "used + mset R + E = used' + mset N"
  shows "builds_plus m st used' E t p st2 m2"
proof -
  from assms(2) obtain t' N' R' where b: "grows m1 st1 m2 st2 N' R'" "tree_at m2 p t'" "erase t' = t"
    "mset (addrs t') + mset R' = used + mset N'" unfolding builds_def by blast
  have "mset (addrs t') + mset (R @ R') + E = (used + mset R + E) + mset N'"
    using b(4) by (simp add: add.commute add.left_commute)
  also have "\<dots> = used' + mset (N @ N')" using assms(3) by (simp add: add.assoc)
  finally show ?thesis
    unfolding builds_plus_def using grows_trans[OF assms(1) b(1)] b(2,3) by blast
qed

lemma rebuild_right_wp:
  assumes c: "tree_at m pc (IBin c cl k v cr)" and l: "tree_at m pl l"
    and X: "wp X (\<lambda>((q, x), st1) m1. garbage_ok m1 \<and> (\<exists>E. P x E m1 \<and> builds_plus m st U E T q st1 m1)) m"
    and mono: "\<And>x E m1 m2. P x E m1 \<Longrightarrow> extends m1 m2 \<Longrightarrow> P x E m2"
  shows "wp (bind X (\<lambda>((q, x), st1). bind (mk_balanced st1 pc pl q) (\<lambda>(p, st2). Ret ((p, x), st2))))
    (\<lambda>((q, x), st2) m2. garbage_ok m2 \<and>
       (\<exists>E. P x E m2 \<and> builds_plus m st (add_mset c (mset (addrs l) + U)) E (balance (erase l) k v T) q st2 m2)) m"
proof (rule wp_bind_mono[OF X], goal_cases)
  case (1 y m1)
  then obtain q x st1 E where y: "y = ((q, x), st1)" and g: "garbage_ok m1" and P: "P x E m1"
    and b: "builds_plus m st U E T q st1 m1" by (auto split: prod.splits)
  from b obtain t N R where b: "grows m st m1 st1 N R" "extends m m1" "tree_at m1 q t" "erase t = T"
    "mset (addrs t) + mset R + E = U + mset N" by (rule builds_plus_obtain)
  have acc: "add_mset c (mset (addrs l) + mset (addrs t)) + mset R + E = add_mset c (mset (addrs l) + U) + mset N"
    using b(5) by (simp add: add.assoc)
  from mk_balanced_wp[OF tree_at_extends[OF c b(2)] tree_at_extends[OF l b(2)] b(3) g, of st1] show ?case
    unfolding y prod.case wp_bind
  proof (rule wp_mono, goal_cases)
    case (1 z m2)
    then obtain q2 st2 where z: "z = (q2, st2)" and g2: "garbage_ok m2"
      and b2: "builds m1 st1 (add_mset c (mset (addrs l) + mset (addrs t))) (balance (erase l) k v T) q2 st2 m2"
      using b(4) by auto
    then have "extends m1 m2" by (auto simp: builds_def grows_def)
    with mono[OF P] builds_plus_trans[OF b(1) b2 acc] z g2 show ?case by auto
  qed
qed

lemma rebuild_left_wp:
  assumes c: "tree_at m pc (IBin c cl k v cr)" and r: "tree_at m pr r"
    and X: "wp X (\<lambda>((q, x), st1) m1. garbage_ok m1 \<and> (\<exists>E. P x E m1 \<and> builds_plus m st U E T q st1 m1)) m"
    and mono: "\<And>x E m1 m2. P x E m1 \<Longrightarrow> extends m1 m2 \<Longrightarrow> P x E m2"
  shows "wp (bind X (\<lambda>((q, x), st1). bind (mk_balanced st1 pc q pr) (\<lambda>(p, st2). Ret ((p, x), st2))))
    (\<lambda>((q, x), st2) m2. garbage_ok m2 \<and>
       (\<exists>E. P x E m2 \<and> builds_plus m st (add_mset c (U + mset (addrs r))) E (balance T k v (erase r)) q st2 m2)) m"
proof (rule wp_bind_mono[OF X], goal_cases)
  case (1 y m1)
  then obtain q x st1 E where y: "y = ((q, x), st1)" and g: "garbage_ok m1" and P: "P x E m1"
    and b: "builds_plus m st U E T q st1 m1" by (auto split: prod.splits)
  from b obtain t N R where b: "grows m st m1 st1 N R" "extends m m1" "tree_at m1 q t" "erase t = T"
    "mset (addrs t) + mset R + E = U + mset N" by (rule builds_plus_obtain)
  have acc: "add_mset c (mset (addrs t) + mset (addrs r)) + mset R + E = add_mset c (U + mset (addrs r)) + mset N"
    using b(5) by (simp add: add.assoc add.commute add.left_commute)
  from mk_balanced_wp[OF tree_at_extends[OF c b(2)] b(3) tree_at_extends[OF r b(2)] g, of st1] show ?case
    unfolding y prod.case wp_bind
  proof (rule wp_mono, goal_cases)
    case (1 z m2)
    then obtain q2 st2 where z: "z = (q2, st2)" and g2: "garbage_ok m2"
      and b2: "builds m1 st1 (add_mset c (mset (addrs t) + mset (addrs r))) (balance T k v (erase r)) q2 st2 m2"
      using b(4) by auto
    then have "extends m1 m2" by (auto simp: builds_def grows_def)
    with mono[OF P] builds_plus_trans[OF b(1) b2 acc] z g2 show ?case by auto
  qed
qed

text \<open>The reads every recursive routine makes at a node.\<close>

lemma tree_at_node_wp:
  assumes t: "tree_at m p (IBin a l k v r)"
    and Q: "wp (f \<lparr>bkey = k, bvalue = v, bsize = tsize (erase l) + tsize (erase r) + 1\<rparr>
        (cell m (a, Left)) (cell m (a, Right)) False) Q m"
  shows "wp (Deref p (\<lambda>node_ref. Load (raw p, Left) (\<lambda>left. Load (raw p, Right) (\<lambda>right.
      bind (or_else (is_retired_spot left) (is_retired_spot right)) (f node_ref left right))))) Q m"
proof -
  from t have l: "tree_at m (cell m (a, Left)) l" and r: "tree_at m (cell m (a, Right)) r" by auto
  have "wp (bind (or_else (is_retired_spot (cell m (a, Left))) (is_retired_spot (cell m (a, Right))))
      (f \<lparr>bkey = k, bvalue = v, bsize = tsize (erase l) + tsize (erase r) + 1\<rparr> (cell m (a, Left)) (cell m (a, Right)))) Q m"
    unfolding wp_bind using Q by (rule spots_wp[OF l r])
  with t show ?thesis by (simp add: live_def)
qed

lemma enter_wp:
  "tree_at m p t \<Longrightarrow> wp (f False) Q m \<Longrightarrow> wp (bind (is_retired_spot p) f) Q m"
  unfolding wp_bind by (rule is_retired_spot_wp)

definition do_insert_post ::
  "'k::linorder \<Rightarrow> 'v \<Rightarrow> ('k, 'v) itree \<Rightarrow> ('k, 'v) bonsai_mem \<Rightarrow> bonsai_state \<Rightarrow> (shared \<times> bool) \<times> bonsai_state \<Rightarrow>
    ('k, 'v) bonsai_mem \<Rightarrow> bool" where
  "do_insert_post k v t m st = (\<lambda>((q, inserted), st') m'. garbage_ok m' \<and>
     (\<exists>E. (E = {#} \<and> inserted = (tlookup (erase t) k = None)) \<and>
        builds_plus m st (mset (addrs t)) E (tinsert k v (erase t)) q st' m'))"

lemma do_insert_wp:
  assumes "tree_at m p t" "garbage_ok m" "iheight t < n"
  shows "wp (do_insert n st p k v) (do_insert_post k v t m st) m"
  using assms
proof (induction t arbitrary: m p n st)
  case ITip
  then obtain n' where n: "n = Suc n'" by (cases n) auto
  have tip: "tree_at m null ITip" by simp
  have "wp (bind (mk_node st null null k v) (\<lambda>(p, self). Ret ((p, True), self))) (do_insert_post k v ITip m st) m"
    unfolding wp_bind
  proof (rule mk_node_wp[OF tip tip _ ITip.prems(2)], goal_cases)
    case (1 a m' st')
    from buildsI[OF 1(1,2)] 1(3) show ?case by (simp add: do_insert_post_def)
  qed
  with n ITip.prems(1) show ?case
    unfolding n do_insert.simps by (intro enter_wp[OF ITip.prems(1)]) simp
next
  case (IBin a l k' v' r)
  then obtain n' where n: "n = Suc n'" by (cases n) auto
  let ?t = "IBin a l k' v' r"
  from IBin.prems have l: "tree_at m (cell m (a, Left)) l" and r: "tree_at m (cell m (a, Right)) r"
    and p: "p = Shared a 0" "a \<noteq> 0" by auto
  have hl: "iheight l < n'" and hr: "iheight r < n'" using IBin.prems(3) n by auto
  have less: "wp (bind (do_insert n' st (cell m (a, Right)) k v) (\<lambda>((new_right, inserted), self).
       bind (mk_balanced self p (cell m (a, Left)) new_right) (\<lambda>(p, self). Ret ((p, inserted), self))))
       (do_insert_post k v ?t m st) m" if "k' < k"
    using that
    by (intro wp_mono[OF rebuild_right_wp[OF IBin.prems(1) l IBin.IH(2)[OF r IBin.prems(2) hr, unfolded do_insert_post_def]]])
      (auto simp: do_insert_post_def)
  have greater: "wp (bind (do_insert n' st (cell m (a, Left)) k v) (\<lambda>((new_left, inserted), self).
       bind (mk_balanced self p new_left (cell m (a, Right))) (\<lambda>(p, self). Ret ((p, inserted), self))))
       (do_insert_post k v ?t m st) m" if "k < k'"
    using that
    by (intro wp_mono[OF rebuild_left_wp[OF IBin.prems(1) r IBin.IH(1)[OF l IBin.prems(2) hl, unfolded do_insert_post_def]]])
      (auto simp: do_insert_post_def)
  have equal: "do_insert_post k v ?t m st ((p, False), st) m" if "k' = k"
    using that buildsI[OF grows_refl IBin.prems(1), where used = "mset (addrs ?t)"] IBin.prems(2)
    by (simp add: do_insert_post_def)
  have nn: "is_null p = False" using p by simp
  show ?case
    unfolding n do_insert.simps
  proof (rule enter_wp[OF IBin.prems(1)], unfold if_False nn, rule tree_at_node_wp[OF IBin.prems(1)], goal_cases)
    case 1
    show ?case
      using less greater equal by (auto split: ordering.splits)
  qed
qed

text \<open>Pulling out the smallest or largest node: it comes back as a new node of its own.\<close>

definition lone :: "'k \<Rightarrow> 'v \<Rightarrow> shared \<Rightarrow> addr multiset \<Rightarrow> ('k, 'v) bonsai_mem \<Rightarrow> bool" where
  "lone k v p E m \<longleftrightarrow> (\<exists>s. E = {#s#} \<and> tree_at m p (IBin s ITip k v ITip))"

lemma lone_extends: "lone k v p E m1 \<Longrightarrow> extends m1 m2 \<Longrightarrow> lone k v p E m2"
  unfolding lone_def using tree_at_extends by blast

definition pull_post ::
  "('k, 'v) itree \<Rightarrow> ('k, 'v) btree \<times> 'k \<times> 'v \<Rightarrow> ('k, 'v) bonsai_mem \<Rightarrow> bonsai_state \<Rightarrow>
    (shared \<times> shared) \<times> bonsai_state \<Rightarrow> ('k, 'v) bonsai_mem \<Rightarrow> bool" where
  "pull_post t res m st = (\<lambda>((q, succ), st') m'. garbage_ok m' \<and>
     (\<exists>E. lone (fst (snd res)) (snd (snd res)) succ E m' \<and>
        builds_plus m st (mset (addrs t)) E (fst res) q st' m'))"

lemma pull_end_wp:
  assumes t: "tree_at m p (IBin a l k v r)" and q: "tree_at m q u" and g: "garbage_ok m"
    and u: "mset (addrs (IBin a l k v r)) = add_mset a (mset (addrs u))"
  shows "wp (bind (mk_node st null null k v) (\<lambda>(succ, self). Ret ((q, succ), retire_node self p)))
    (pull_post (IBin a l k v r) (erase u, k, v) m st) m"
  unfolding wp_bind
proof (rule mk_node_wp[where l = ITip and r = ITip, OF _ _ _ g], goal_cases)
  case (3 s m' st')
  have p: "p = Shared a 0" using t by simp
  have "grows m st m' (retire_node st' p) [s] ([] @ [a])" unfolding p by (rule grows_retire[OF 3(1)])
  moreover have "tree_at m' q u" using tree_at_extends[OF q grows_extends[OF 3(1)]] .
  moreover have "mset (addrs u) + mset ([] @ [a]) + {#s#} = mset (addrs (IBin a l k v r)) + mset [s]"
    using u by simp
  ultimately have "builds_plus m st (mset (addrs (IBin a l k v r))) {#s#} (erase u) q (retire_node st' p) m'"
    unfolding builds_plus_def by blast
  moreover have "lone k v (Shared s 0) {#s#} m'" using 3(2) by (simp add: lone_def)
  ultimately show ?case using 3(3) by (auto simp: pull_post_def)
qed simp_all

lemma pull_rightmost_wp:
  assumes "tree_at m p (IBin a l k v r)" "garbage_ok m" "iheight (IBin a l k v r) < n"
  shows "wp (pull_rightmost n st p) (pull_post (IBin a l k v r) (pull_max (erase l) k v (erase r)) m st) m"
  using assms
proof (induction r arbitrary: m p n st a l k v)
  case ITip
  then obtain n' where n: "n = Suc n'" by (cases n) auto
  have l: "tree_at m (cell m (a, Left)) l" and R: "cell m (a, Right) = null" using ITip.prems by auto
  have p: "p = Shared a 0" "a \<noteq> 0" using ITip.prems by auto
  show ?case
    unfolding n pull_rightmost.simps
  proof (rule enter_wp[OF ITip.prems(1)], unfold if_False, rule tree_at_node_wp[OF ITip.prems(1)], goal_cases)
    case 1
    from pull_end_wp[OF ITip.prems(1) l ITip.prems(2), of st] p R show ?case by simp
  qed
next
  case (IBin b rl rk rv rr)
  then obtain n' where n: "n = Suc n'" by (cases n) auto
  let ?r = "IBin b rl rk rv rr"
  have l: "tree_at m (cell m (a, Left)) l" and r: "tree_at m (cell m (a, Right)) ?r"
    and p: "p = Shared a 0" "a \<noteq> 0" using IBin.prems(1) by auto
  have h: "iheight ?r < n'" using IBin.prems(3) n by simp
  have nn: "\<not> is_null (cell m (a, Right))" using r by auto
  have body: "wp (bind (pull_rightmost n' st (cell m (a, Right))) (\<lambda>((new_right, succ), self).
      bind (mk_balanced self p (cell m (a, Left)) new_right) (\<lambda>(p, self). Ret ((p, succ), self))))
      (pull_post (IBin a l k v ?r) (pull_max (erase l) k v (erase ?r)) m st) m"
    by (intro wp_mono[OF rebuild_right_wp[OF IBin.prems(1) l
            IBin.IH(2)[OF r IBin.prems(2) h, unfolded pull_post_def] lone_extends]])
      (auto simp: pull_post_def add.assoc split: prod.splits)
  show ?case
    unfolding n pull_rightmost.simps
  proof (rule enter_wp[OF IBin.prems(1)], unfold if_False, rule tree_at_node_wp[OF IBin.prems(1)], goal_cases)
    case 1
    from body nn show ?case by simp
  qed
qed

lemma pull_leftmost_wp:
  assumes "tree_at m p (IBin a l k v r)" "garbage_ok m" "iheight (IBin a l k v r) < n"
  shows "wp (pull_leftmost n st p) (pull_post (IBin a l k v r) (pull_min (erase l) k v (erase r)) m st) m"
  using assms
proof (induction l arbitrary: m p n st a r k v)
  case ITip
  then obtain n' where n: "n = Suc n'" by (cases n) auto
  have r: "tree_at m (cell m (a, Right)) r" and L: "cell m (a, Left) = null" using ITip.prems by auto
  have p: "p = Shared a 0" "a \<noteq> 0" using ITip.prems by auto
  show ?case
    unfolding n pull_leftmost.simps
  proof (rule enter_wp[OF ITip.prems(1)], unfold if_False, rule tree_at_node_wp[OF ITip.prems(1)], goal_cases)
    case 1
    from pull_end_wp[OF ITip.prems(1) r ITip.prems(2), of st] p L show ?case by simp
  qed
next
  case (IBin b ll lk lv lr)
  then obtain n' where n: "n = Suc n'" by (cases n) auto
  let ?l = "IBin b ll lk lv lr"
  have r: "tree_at m (cell m (a, Right)) r" and l: "tree_at m (cell m (a, Left)) ?l"
    and p: "p = Shared a 0" "a \<noteq> 0" using IBin.prems(1) by auto
  have h: "iheight ?l < n'" using IBin.prems(3) n by simp
  have nn: "\<not> is_null (cell m (a, Left))" using l by auto
  have body: "wp (bind (pull_leftmost n' st (cell m (a, Left))) (\<lambda>((new_left, succ), self).
      bind (mk_balanced self p new_left (cell m (a, Right))) (\<lambda>(p, self). Ret ((p, succ), self))))
      (pull_post (IBin a ?l k v r) (pull_min (erase ?l) k v (erase r)) m st) m"
    by (intro wp_mono[OF rebuild_left_wp[OF IBin.prems(1) r
            IBin.IH(1)[OF l IBin.prems(2) h, unfolded pull_post_def] lone_extends]])
      (auto simp: pull_post_def add.assoc split: prod.splits)
  show ?case
    unfolding n pull_leftmost.simps
  proof (rule enter_wp[OF IBin.prems(1)], unfold if_False, rule tree_at_node_wp[OF IBin.prems(1)], goal_cases)
    case 1
    from body nn show ?case by simp
  qed
qed

lemma replace_root_left_wp:
  assumes r: "tree_at m pr r"
    and X: "wp X (\<lambda>((q, x), st1) m1. garbage_ok m1 \<and> (\<exists>E. lone k v x E m1 \<and> builds_plus m st U E T q st1 m1)) m"
  shows "wp (bind X (\<lambda>((q, x), st1). bind (mk_balanced st1 x q pr) (\<lambda>(p, st2). Ret ((p, y), st2))))
    (\<lambda>((q, z), st2) m2. garbage_ok m2 \<and> z = y \<and> builds m st (U + mset (addrs r)) (balance T k v (erase r)) q st2 m2) m"
proof (rule wp_bind_mono[OF X], goal_cases)
  case (1 w m1)
  then obtain q x st1 E where w: "w = ((q, x), st1)" and g: "garbage_ok m1" and P: "lone k v x E m1"
    and b: "builds_plus m st U E T q st1 m1" by (auto split: prod.splits)
  from P obtain s where s: "E = {#s#}" "tree_at m1 x (IBin s ITip k v ITip)" by (auto simp: lone_def)
  from b obtain t N R where b: "grows m st m1 st1 N R" "extends m m1" "tree_at m1 q t" "erase t = T"
    "mset (addrs t) + mset R + E = U + mset N" by (rule builds_plus_obtain)
  have "mset (addrs t) + mset R + {#s#} + mset (addrs r) = U + mset N + mset (addrs r)" using b(5) s by simp
  then have acc: "add_mset s (mset (addrs t) + mset (addrs r)) + mset R + {#} = U + mset (addrs r) + mset N"
    by (simp add: add.commute add.left_commute)
  from mk_balanced_wp[OF s(2) b(3) tree_at_extends[OF r b(2)] g, of st1] show ?case
    unfolding w prod.case wp_bind
  proof (rule wp_mono, goal_cases)
    case (1 z m2)
    then obtain q2 st2 where z: "z = (q2, st2)" and g2: "garbage_ok m2"
      and b2: "builds m1 st1 (add_mset s (mset (addrs t) + mset (addrs r))) (balance T k v (erase r)) q2 st2 m2"
      using b(4) by auto
    from builds_plus_trans[OF b(1) b2 acc] z g2 show ?case by simp
  qed
qed

lemma replace_root_right_wp:
  assumes l: "tree_at m pl l"
    and X: "wp X (\<lambda>((q, x), st1) m1. garbage_ok m1 \<and> (\<exists>E. lone k v x E m1 \<and> builds_plus m st U E T q st1 m1)) m"
  shows "wp (bind X (\<lambda>((q, x), st1). bind (mk_balanced st1 x pl q) (\<lambda>(p, st2). Ret ((p, y), st2))))
    (\<lambda>((q, z), st2) m2. garbage_ok m2 \<and> z = y \<and> builds m st (mset (addrs l) + U) (balance (erase l) k v T) q st2 m2) m"
proof (rule wp_bind_mono[OF X], goal_cases)
  case (1 w m1)
  then obtain q x st1 E where w: "w = ((q, x), st1)" and g: "garbage_ok m1" and P: "lone k v x E m1"
    and b: "builds_plus m st U E T q st1 m1" by (auto split: prod.splits)
  from P obtain s where s: "E = {#s#}" "tree_at m1 x (IBin s ITip k v ITip)" by (auto simp: lone_def)
  from b obtain t N R where b: "grows m st m1 st1 N R" "extends m m1" "tree_at m1 q t" "erase t = T"
    "mset (addrs t) + mset R + E = U + mset N" by (rule builds_plus_obtain)
  have "mset (addrs t) + mset R + {#s#} + mset (addrs l) = U + mset N + mset (addrs l)" using b(5) s by simp
  then have acc: "add_mset s (mset (addrs l) + mset (addrs t)) + mset R + {#} = mset (addrs l) + U + mset N"
    by (simp add: add.commute add.left_commute)
  from mk_balanced_wp[OF s(2) tree_at_extends[OF l b(2)] b(3) g, of st1] show ?case
    unfolding w prod.case wp_bind
  proof (rule wp_mono, goal_cases)
    case (1 z m2)
    then obtain q2 st2 where z: "z = (q2, st2)" and g2: "garbage_ok m2"
      and b2: "builds m1 st1 (add_mset s (mset (addrs l) + mset (addrs t))) (balance (erase l) k v T) q2 st2 m2"
      using b(4) by auto
    from builds_plus_trans[OF b(1) b2 acc] z g2 show ?case by simp
  qed
qed

text \<open>Removing the root of a subtree.\<close>

lemma builds_after_retire:
  assumes "builds m (retire_node st (Shared a 0)) U t p st' m'"
  shows "builds m st (add_mset a U) t p st' m'"
proof -
  from grows_retire[OF grows_refl, of m st a] have "grows m st m (retire_node st (Shared a 0)) [] [a]" by simp
  from builds_plus_trans[OF this assms, of "{#}" "add_mset a U"] show ?thesis by simp
qed

lemma remove_root_wp:
  assumes t: "tree_at m p (IBin a l k v r)" and g: "garbage_ok m" and h: "iheight (IBin a l k v r) < Suc n"
  shows "wp (if tsize (erase l) + tsize (erase r) + 1 = 1 then Ret ((null, Some v), retire_node st p)
     else if \<not> is_null (cell m (a, Left)) then
       bind (pull_rightmost n (retire_node st p) (cell m (a, Left))) (\<lambda>((new_left, succ), self).
       bind (mk_balanced self succ new_left (cell m (a, Right))) (\<lambda>(p, self). Ret ((p, Some v), self)))
     else
       bind (pull_leftmost n (retire_node st p) (cell m (a, Right))) (\<lambda>((new_right, succ), self).
       bind (mk_balanced self succ (cell m (a, Left)) new_right) (\<lambda>(p, self). Ret ((p, Some v), self))))
   (\<lambda>((q, y), st') m'. garbage_ok m' \<and> y = Some v \<and>
      builds m st (mset (addrs (IBin a l k v r))) (tjoin (erase l) (erase r)) q st' m') m"
proof -
  have p: "p = Shared a 0" and L: "tree_at m (cell m (a, Left)) l" and R: "tree_at m (cell m (a, Right)) r"
    using t by auto
  consider (leaf) "l = ITip" "r = ITip" | (left) b ll lk lv lr where "l = IBin b ll lk lv lr"
    | (right) b rl rk rv rr where "l = ITip" "r = IBin b rl rk rv rr"
    by (cases l; cases r) auto
  then show ?thesis
  proof cases
    case leaf
    have "builds m (retire_node st (Shared a 0)) {#} Tip null (retire_node st (Shared a 0)) m"
      by (rule buildsI[OF grows_refl, where t' = ITip]) simp_all
    from builds_after_retire[OF this] leaf g p show ?thesis by (simp add: tjoin_def)
  next
    case left
    obtain T k2 v2 where pm: "pull_max (erase ll) lk lv (erase lr) = (T, k2, v2)" by (metis prod_cases3)
    have "iheight (IBin b ll lk lv lr) < n" using h left by simp
    from replace_root_left_wp[OF R pull_rightmost_wp[OF L[unfolded left] g this, of "retire_node st p", unfolded pull_post_def pm fst_conv snd_conv], of "Some v"]
    have "wp (bind (pull_rightmost n (retire_node st p) (cell m (a, Left))) (\<lambda>((new_left, succ), self).
       bind (mk_balanced self succ new_left (cell m (a, Right))) (\<lambda>(p, self). Ret ((p, Some v), self))))
       (\<lambda>((q, y), st') m'. garbage_ok m' \<and> y = Some v \<and>
      builds m st (mset (addrs (IBin a l k v r))) (tjoin (erase l) (erase r)) q st' m') m"
      using left pm p by (elim wp_mono) (auto simp: tjoin_def add.assoc dest!: builds_after_retire)
    moreover have "\<not> is_null (cell m (a, Left))" using L left by auto
    ultimately show ?thesis using left by simp
  next
    case right
    obtain T k2 v2 where pm: "pull_min (erase rl) rk rv (erase rr) = (T, k2, v2)" by (metis prod_cases3)
    have "iheight (IBin b rl rk rv rr) < n" using h right by simp
    from replace_root_right_wp[OF L pull_leftmost_wp[OF R[unfolded right] g this, of "retire_node st p", unfolded pull_post_def pm fst_conv snd_conv], of "Some v"]
    have "wp (bind (pull_leftmost n (retire_node st p) (cell m (a, Right))) (\<lambda>((new_right, succ), self).
       bind (mk_balanced self succ (cell m (a, Left)) new_right) (\<lambda>(p, self). Ret ((p, Some v), self))))
       (\<lambda>((q, y), st') m'. garbage_ok m' \<and> y = Some v \<and>
      builds m st (mset (addrs (IBin a l k v r))) (tjoin (erase l) (erase r)) q st' m') m"
      using right pm p by (elim wp_mono) (auto simp: tjoin_def add.assoc dest!: builds_after_retire)
    moreover have "is_null (cell m (a, Left))" using L right by auto
    ultimately show ?thesis using right by simp
  qed
qed

definition do_remove_post ::
  "'k::linorder \<Rightarrow> ('k, 'v) itree \<Rightarrow> ('k, 'v) bonsai_mem \<Rightarrow> bonsai_state \<Rightarrow> (shared \<times> 'v option) \<times> bonsai_state \<Rightarrow>
    ('k, 'v) bonsai_mem \<Rightarrow> bool" where
  "do_remove_post k t m st = (\<lambda>((q, y), st') m'. garbage_ok m' \<and>
     (\<exists>E. (E = {#} \<and> y = tlookup (erase t) k) \<and>
        builds_plus m st (mset (addrs t)) E (tremove k (erase t)) q st' m'))"

lemma do_remove_wp:
  assumes "tree_at m p t" "garbage_ok m" "iheight t < n"
  shows "wp (do_remove n st p k) (do_remove_post k t m st) m"
  using assms
proof (induction t arbitrary: m p n st)
  case ITip
  then obtain n' where n: "n = Suc n'" by (cases n) auto
  have "builds m st {#} Tip null st m" by (rule buildsI[OF grows_refl, where t' = ITip]) simp_all
  with n ITip.prems show ?case
    unfolding n do_remove.simps by (intro enter_wp[OF ITip.prems(1)]) (simp add: do_remove_post_def)
next
  case (IBin a l k' v' r)
  then obtain n' where n: "n = Suc n'" by (cases n) auto
  let ?t = "IBin a l k' v' r"
  from IBin.prems have l: "tree_at m (cell m (a, Left)) l" and r: "tree_at m (cell m (a, Right)) r"
    and p: "p = Shared a 0" "a \<noteq> 0" by auto
  have hl: "iheight l < n'" and hr: "iheight r < n'" using IBin.prems(3) n by auto
  have less: "wp (bind (do_remove n' st (cell m (a, Right)) k) (\<lambda>((new_right, y), self).
       bind (mk_balanced self p (cell m (a, Left)) new_right) (\<lambda>(p, self). Ret ((p, y), self))))
       (do_remove_post k ?t m st) m" if "k' < k"
    using that
    by (intro wp_mono[OF rebuild_right_wp[OF IBin.prems(1) l IBin.IH(2)[OF r IBin.prems(2) hr, unfolded do_remove_post_def]]])
      (auto simp: do_remove_post_def)
  have greater: "wp (bind (do_remove n' st (cell m (a, Left)) k) (\<lambda>((new_left, y), self).
       bind (mk_balanced self p new_left (cell m (a, Right))) (\<lambda>(p, self). Ret ((p, y), self))))
       (do_remove_post k ?t m st) m" if "k < k'"
    using that
    by (intro wp_mono[OF rebuild_left_wp[OF IBin.prems(1) r IBin.IH(1)[OF l IBin.prems(2) hl, unfolded do_remove_post_def]]])
      (auto simp: do_remove_post_def)
  have equal: "wp (if tsize (erase l) + tsize (erase r) + 1 = 1 then Ret ((null, Some v'), retire_node st p)
     else if \<not> is_null (cell m (a, Left)) then
       bind (pull_rightmost n' (retire_node st p) (cell m (a, Left))) (\<lambda>((new_left, succ), self).
       bind (mk_balanced self succ new_left (cell m (a, Right))) (\<lambda>(p, self). Ret ((p, Some v'), self)))
     else
       bind (pull_leftmost n' (retire_node st p) (cell m (a, Right))) (\<lambda>((new_right, succ), self).
       bind (mk_balanced self succ (cell m (a, Left)) new_right) (\<lambda>(p, self). Ret ((p, Some v'), self))))
   (do_remove_post k ?t m st) m" if "k' = k"
    using that IBin.prems(3) n
    by (intro wp_mono[OF remove_root_wp[OF IBin.prems(1,2)]]) (auto simp: do_remove_post_def)
  have nn: "is_null p = False" using p by simp
  show ?case
    unfolding n do_remove.simps
  proof (rule enter_wp[OF IBin.prems(1)], unfold if_False nn, rule tree_at_node_wp[OF IBin.prems(1)], goal_cases)
    case 1
    show ?case
      using less greater equal
      by (cases k' k rule: cmp_cases) (simp_all only: if_False bonsai_node.simps ordering.case Let_def)
  qed
qed

section \<open>The map\<close>

definition bonsai_inv :: "('k::linorder, 'v) bonsai_mem \<Rightarrow> addr \<Rightarrow> ('k, 'v) itree \<Rightarrow> bool" where
  "bonsai_inv m self t \<longleftrightarrow> tree_at m (cell m (self, Root)) t \<and> distinct (addrs t) \<and> self \<in> statics m \<and>
     garbage_ok m \<and> search_tree (erase t)"

text \<open>
  What an update does to memory: the new tree and everything retired make up the old tree, what was
  retired before, and the nodes \<open>N\<close> it allocated; nothing is freed, and nothing else is touched.  Nothing is leaked: an
  object that was not there before is one of \<open>N\<close>, and so in the new tree or retired.
\<close>

definition bonsai_step ::
  "addr \<Rightarrow> ('k, 'v) bonsai_mem \<Rightarrow> ('k, 'v) itree \<Rightarrow> ('k, 'v) bonsai_mem \<Rightarrow> ('k, 'v) itree \<Rightarrow> bool" where
  "bonsai_step self m t m' t' \<longleftrightarrow>
     frame (insert self (set (addrs t)) \<union> {a. \<not> live m a}) m m' \<and> freed m' = freed m \<and> dropped m' = dropped m \<and>
     (\<exists>N. distinct N \<and> (\<forall>a\<in>set N. fresh m a) \<and> dom (obj m') \<subseteq> dom (obj m) \<union> set N \<and>
        mset (retired m') + mset (addrs t') = mset (retired m) + mset (addrs t) + mset N)"

lemma state_commit_loop_wp:
  assumes "garbage_ok m" "distinct R"
    and "\<And>a. a \<in> set R \<Longrightarrow> obj m a \<noteq> None \<and> a \<notin> statics m \<and> a \<notin> set (garbage m)"
    and "\<And>m'. garbage_ok m' \<Longrightarrow> frame (set R) m m' \<Longrightarrow> retired m' = retired m @ R \<Longrightarrow> freed m' = freed m \<Longrightarrow>
      dropped m' = dropped m \<Longrightarrow> dom (obj m') \<subseteq> dom (obj m) \<Longrightarrow> shield m' = shield m \<Longrightarrow> ejections m' = ejections m \<Longrightarrow> Q () m'"
  shows "wp (state_commit_loop (ptrs R)) Q m"
  using assms
proof (induction R arbitrary: m)
  case Nil
  then show ?case by simp
next
  case (Cons a R)
  have a: "obj m a \<noteq> None" "a \<notin> statics m" "a \<notin> set (garbage m)" using Cons.prems(3)[of a] by auto
  let ?m1 = "set_cell (a, Right) retired_node (set_cell (a, Left) retired_node m)"
  have "wp (state_commit_loop (ptrs R)) Q (reclaim X (retire a ?m1))" for X
  proof (rule Cons.IH)
    let ?m = "reclaim X (retire a ?m1)"
    show "garbage_ok ?m" using Cons.prems(1) a by (intro garbage_ok_reclaim garbage_ok_retire) auto
    show "obj ?m b \<noteq> None \<and> b \<notin> statics ?m \<and> b \<notin> set (garbage ?m)" if "b \<in> set R" for b
      using Cons.prems(2) Cons.prems(3)[of b] that by (auto simp: restrict_map_def)
    have f: "frame {a} m ?m"
      by (rule frame_trans_same[OF _ frame_retire], rule frame_trans_same[OF frame_set_cell frame_set_cell]) auto
    show "Q () m'" if "garbage_ok m'" "frame (set R) ?m m'" "retired m' = retired ?m @ R" "freed m' = freed ?m"
      "dropped m' = dropped ?m" "dom (obj m') \<subseteq> dom (obj ?m)" "shield m' = shield ?m" "ejections m' = ejections ?m" for m'
    proof (rule Cons.prems(4))
      show "frame (set (a # R)) m m'"
        using frame_trans_same[OF frame_mono[OF f] that(2)] by auto
      show "dom (obj m') \<subseteq> dom (obj m)" using that(6) by (auto simp: restrict_map_def split: if_splits)
    qed (use that in auto)
  qed (use Cons.prems in auto)
  with a show ?case by (simp add: live_def)
qed

lemma builds_distinct:
  assumes "tree_at m p t" "distinct (addrs t)" "grows m st m' st' N R"
    and "mset (addrs t') + mset R = mset (addrs t) + mset N"
  shows "distinct (addrs t' @ R)" "set (addrs t') \<union> set R = set (addrs t) \<union> set N"
proof -
  have "set (addrs t) \<inter> set N = {}"
  proof -
    have "fresh m a" if "a \<in> set N" for a using that assms(3) by (simp add: grows_def)
    then show ?thesis using tree_at_addr[OF assms(1)] by (fastforce simp: fresh_def live_def)
  qed
  with assms have "distinct (addrs t @ N)" by (simp add: grows_def)
  moreover have e: "mset (addrs t' @ R) = mset (addrs t @ N)" using assms(4) by simp
  ultimately show "distinct (addrs t' @ R)" using mset_eq_imp_distinct_iff by blast
  from mset_eq_setD[OF e] show "set (addrs t') \<union> set R = set (addrs t) \<union> set N" by simp
qed

text \<open>Publishing a copy: the compare-and-set on the root, then the commit.\<close>

lemma publish_wp:
  assumes inv: "bonsai_inv m self t" and b: "builds m state_new (mset (addrs t)) T q st m1" and g: "garbage_ok m1"
    and T: "search_tree T"
    and post: "\<And>m' t'. bonsai_inv m' self t' \<Longrightarrow> erase t' = T \<Longrightarrow> bonsai_step self m t m' t' \<Longrightarrow> Q () m'"
  shows "wp (state_commit st) (\<lambda>_. Q ()) (set_cell (self, Root) q m1)"
proof -
  from b obtain t' N R where b: "grows m state_new m1 st N R" "tree_at m1 q t'" "erase t' = T"
    "mset (addrs t') + mset R = mset (addrs t) + mset N" unfolding builds_def by blast
  have t: "tree_at m (cell m (self, Root)) t" "distinct (addrs t)" "self \<in> statics m" "garbage_ok m"
    using inv by (auto simp: bonsai_inv_def)
  note d = builds_distinct[OF t(1,2) b(1,4)]
  have ext: "extends m m1" using b(1) by (simp add: grows_def)
  then have st1: "statics m1 = statics m" "garbage m1 = garbage m" by (simp_all add: extends_def)
  have old: "obj m1 a \<noteq> None \<and> a \<notin> statics m1 \<and> a \<notin> set (garbage m1)" if "a \<in> set (addrs t) \<union> set N" for a
  proof (cases "a \<in> set N")
    case True
    with b(1) have n: "fresh m a" "obj m1 a \<noteq> None" by (auto simp: grows_def)
    with garbage_ok_fresh[OF t(4) n(1)] st1 show ?thesis by (simp add: fresh_def)
  next
    case False
    with that tree_at_addr[OF t(1), of a] ext st1 show ?thesis by (auto simp: extends_def live_def)
  qed
  let ?m2 = "set_cell (self, Root) q m1"
  have "wp (state_commit_loop (ptrs R)) (\<lambda>_. Q ()) ?m2"
  proof (rule state_commit_loop_wp)
    show "garbage_ok ?m2" using g by simp
    show "distinct R" using d(1) by simp
    show "obj ?m2 a \<noteq> None \<and> a \<notin> statics ?m2 \<and> a \<notin> set (garbage ?m2)" if "a \<in> set R" for a
      using old[of a] d(2) that by auto
    fix m' assume m': "garbage_ok m'" "frame (set R) ?m2 m'" "retired m' = retired ?m2 @ R" "freed m' = freed ?m2"
      "dropped m' = dropped ?m2" "dom (obj m') \<subseteq> dom (obj ?m2)"
    have selfR: "self \<notin> set R" using old d(2) t(3) st1 by auto
    have self_live: "live ?m2 self" "self \<notin> set (garbage ?m2)" using t(3) st1 old g
      by (auto simp: garbage_ok_def)
    have "tree_at m' q t'"
    proof (rule tree_at_cong[OF b(2)])
      show "statics m' = statics m1" using frame_statics[OF m'(2)] by simp
      fix a assume a: "a \<in> set (addrs t')"
      then have "a \<notin> set R" "a \<noteq> self" "live ?m2 a" "a \<notin> set (garbage ?m2)"
        using d old[of a] t(3) st1 by (auto simp: live_def)
      from frame_at[OF m'(2) this(1,3,4)] this(2)
      show "obj m' a = obj m1 a \<and> cell m' (a, Left) = cell m1 (a, Left) \<and> cell m' (a, Right) = cell m1 (a, Right) \<and>
        a \<notin> set (garbage m')" by simp
    qed
    moreover have "cell m' (self, Root) = q"
      using frame_at(2)[OF m'(2) selfR self_live, of Root] by simp
    ultimately have "bonsai_inv m' self t'"
      using d(1) m'(1) t(3) st1 frame_statics[OF m'(2)] T b(3) by (simp add: bonsai_inv_def)
    moreover have "bonsai_step self m t m' t'"
    proof -
      have "frame {} m m1" using ext by (auto simp: frame_def extends_def)
      then have "frame {self} m ?m2" by (rule frame_trans_same[OF frame_mono frame_set_cell]) auto
      then have "frame (insert self (set (addrs t)) \<union> {a. \<not> live m a}) m ?m2" by (rule frame_mono) auto
      moreover have "set R \<subseteq> insert self (set (addrs t)) \<union> {a. \<not> live m a}"
        using d(2) b(1) by (auto simp: grows_def fresh_def live_def)
      ultimately have "frame (insert self (set (addrs t)) \<union> {a. \<not> live m a}) m m'"
        using m'(2) by (blast intro: frame_trans_same)
      moreover have "mset (retired m') + mset (addrs t') = mset (retired m) + mset (addrs t) + mset N"
        using m'(3) ext b(4) by (simp add: extends_def add.commute add.left_commute)
      moreover have "freed m' = freed m" "dropped m' = dropped m" using m'(4,5) ext by (simp_all add: extends_def)
      moreover have "distinct N \<and> (\<forall>a\<in>set N. fresh m a)" using b(1) by (simp add: grows_def)
      moreover have "dom (obj m') \<subseteq> dom (obj m) \<union> set N" using b(1) m'(6) unfolding grows_def set_cell_fields by blast
      ultimately show ?thesis unfolding bonsai_step_def by blast
    qed
    ultimately show "Q () m'" using b(3) by (intro post)
  qed
  moreover have "retired_nodes st = ptrs R" using b(1) by (simp add: grows_def state_new_def)
  ultimately show ?thesis by (simp add: state_commit_def wp_bind)
qed

text \<open>
  One round of an update: a routine of the state built the new tree from the root it was given, so
  the compare-and-set on the root succeeds and the copy is published.
\<close>

lemma publish_root_wp:
  assumes inv: "bonsai_inv m self t" and b: "builds m state_new (mset (addrs t)) T q st m1" and g: "garbage_ok m1"
    and T: "search_tree T"
    and post: "\<And>m' t'. bonsai_inv m' self t' \<Longrightarrow> erase t' = T \<Longrightarrow> bonsai_step self m t m' t' \<Longrightarrow> Q r m'"
  shows "wp (if is_retired q then p else Compare_and_set (self, Root) (cell m (self, Root)) q (\<lambda>e.
      case e of Inl x \<Rightarrow> f x | Inr _ \<Rightarrow> bind (state_commit st) (\<lambda>_. Ret r))) Q m1"
proof -
  from b obtain t' N R where "grows m state_new m1 st N R" "tree_at m1 q t'" unfolding builds_def by blast
  then have e: "extends m m1" "\<not> is_retired q" by (auto simp: grows_def tree_at_live)
  have "self \<in> statics m" using inv by (simp add: bonsai_inv_def)
  with e(1) have "live m1 self" "cell m1 (self, Root) = cell m (self, Root)"
    by (auto simp: extends_def live_def)
  with e(2) show ?thesis
    using publish_wp[OF inv b g T, of "\<lambda>_. Q r", OF post] by (simp add: wp_bind)
qed

lemma bonsai_insert_wp:
  assumes inv: "bonsai_inv m self t" and n: "iheight t < n"
    and post: "\<And>m' t'. bonsai_inv m' self t' \<Longrightarrow> erase t' = tinsert k v (erase t) \<Longrightarrow> bonsai_step self m t m' t' \<Longrightarrow>
      Q (tlookup (erase t) k = None) m'"
  shows "wp (bonsai_insert self n k v) Q m"
proof -
  from n obtain i where i: "n = Suc i" by (cases n) auto
  have t: "tree_at m (cell m (self, Root)) t" "garbage_ok m" "live m self" "search_tree (erase t)"
    using inv by (auto simp: bonsai_inv_def)
  have "wp (bonsai_insert_loop (Suc i) n self state_new k v) Q m"
    unfolding bonsai_insert_loop.simps wp.simps fst_conv
  proof (intro conjI wp_bind_mono[OF do_insert_wp[OF t(1,2) n]], rule t(3), goal_cases)
    case (1 r m1)
    obtain q b st where r: "r = ((q, b), st)" by (cases r) auto
    with 1 have "builds m state_new (mset (addrs t)) (tinsert k v (erase t)) q st m1" "garbage_ok m1"
      "b = (tlookup (erase t) k = None)" by (auto simp: do_insert_post_def)
    from publish_root_wp[OF inv this(1,2) tinsert_correct(1)[OF t(4)], of Q b, OF post[folded this(3)]]
    show ?case by (simp only: r prod.case)
  qed
  then show ?thesis by (simp only: bonsai_insert_def i)
qed

lemma bonsai_remove_wp:
  assumes inv: "bonsai_inv m self t" and n: "iheight t < n"
    and post: "\<And>m' t'. bonsai_inv m' self t' \<Longrightarrow> erase t' = tremove k (erase t) \<Longrightarrow> bonsai_step self m t m' t' \<Longrightarrow>
      Q (tlookup (erase t) k) m'"
  shows "wp (bonsai_remove self n k) Q m"
proof -
  from n obtain i where i: "n = Suc i" by (cases n) auto
  have t: "tree_at m (cell m (self, Root)) t" "garbage_ok m" "live m self" "search_tree (erase t)"
    using inv by (auto simp: bonsai_inv_def)
  have "wp (bonsai_remove_loop (Suc i) n self state_new k) Q m"
    unfolding bonsai_remove_loop.simps wp.simps fst_conv
  proof (intro conjI wp_bind_mono[OF do_remove_wp[OF t(1,2) n]], rule t(3), goal_cases)
    case (1 r m1)
    obtain q y st where r: "r = ((q, y), st)" by (cases r) auto
    with 1 have "builds m state_new (mset (addrs t)) (tremove k (erase t)) q st m1" "garbage_ok m1"
      "y = tlookup (erase t) k" by (auto simp: do_remove_post_def)
    from publish_root_wp[OF inv this(1,2) tremove_correct(1)[OF t(4)], of Q y, OF post[folded this(3)]]
    show ?case by (simp only: r prod.case)
  qed
  then show ?thesis by (simp only: bonsai_remove_def i)
qed

text \<open>A search goes down the tree and writes nothing.\<close>

lemma bonsai_search_wp:
  assumes "tree_at m p t" "iheight t < n"
    and "\<And>q u. tree_at m q u \<Longrightarrow> tlookup (erase t) k = (case u of ITip \<Rightarrow> None | IBin _ _ _ v _ \<Rightarrow> Some v) \<Longrightarrow> Q q m"
  shows "wp (bonsai_search n p k) Q m"
  using assms
proof (induction t arbitrary: p n)
  case ITip
  then obtain n' where "n = Suc n'" by (cases n) auto
  with ITip.prems(1) ITip.prems(3)[OF ITip.prems(1)] show ?case by simp
next
  case (IBin a l k' v' r)
  then obtain n' where n: "n = Suc n'" by (cases n) auto
  have at: "tree_at m (cell m (a, Left)) l" "tree_at m (cell m (a, Right)) r" "p = Shared a 0" "a \<noteq> 0"
    "iheight l < n'" "iheight r < n'" "live m a"
    using IBin.prems(1,2) n by (auto simp: live_def)
  show ?case
  proof (cases k k' rule: cmp_cases)
    case Less
    have "wp (bonsai_search n' (cell m (a, Left)) k) Q m"
      by (rule IBin.IH(1)[OF at(1,5)], rule IBin.prems(3), assumption) (use Less in auto)
    with Less at IBin.prems(1) show ?thesis by (auto simp: n split: ordering.splits)
  next
    case Equal
    with IBin.prems(3)[OF IBin.prems(1)] at IBin.prems(1) show ?thesis by (auto simp: n split: ordering.splits)
  next
    case Greater
    have "wp (bonsai_search n' (cell m (a, Right)) k) Q m"
      by (rule IBin.IH(2)[OF at(2,6)], rule IBin.prems(3), assumption) (use Greater in auto)
    with Greater at IBin.prems(1) show ?thesis by (auto simp: n split: ordering.splits)
  qed
qed

lemma bonsai_get_wp:
  assumes inv: "bonsai_inv m self t" and n: "iheight t < n" and post: "Q (tlookup (erase t) k) m"
  shows "wp (bonsai_get self n k) Q m"
proof -
  from n obtain i where i: "n = Suc i" by (cases n) auto
  have t: "tree_at m (cell m (self, Root)) t" "live m self" using inv by (auto simp: bonsai_inv_def)
  have "wp (bonsai_get_loop (Suc i) n self k) Q m"
    unfolding bonsai_get_loop.simps wp.simps fst_conv wp_bind
  proof (intro conjI, rule t(2), rule bonsai_search_wp[OF t(1) n, of k], rule is_retired_spot_wp, assumption)
    fix q u assume "tree_at m q u" "tlookup (erase t) k = (case u of ITip \<Rightarrow> None | IBin _ _ _ v _ \<Rightarrow> Some v)"
    with post show "wp (if False then bonsai_get_loop i n self k else if is_null q then Ret None
        else Deref q (\<lambda>node_ref. Ret (Some (bvalue node_ref)))) Q m"
      by (cases u) auto
  qed
  then show ?thesis by (simp only: bonsai_get_def i)
qed

section \<open>Giving memory back at once: abort and drop\<close>

definition frees :: "addr list \<Rightarrow> ('f, 'n) mem \<Rightarrow> ('f, 'n) mem \<Rightarrow> bool" where
  "frees F m m' \<longleftrightarrow> freed m' = freed m @ F \<and> obj m' = (obj m) |` (- set F) \<and> cell m' = cell m \<and>
     garbage m' = garbage m \<and> retired m' = retired m \<and> dropped m' = dropped m \<and> statics m' = statics m"

lemma frees_Nil: "frees [] m m"
  by (simp add: frees_def restrict_map_def)

lemma frees_Cons: "frees F (free a m) m' \<Longrightarrow> frees (a # F) m m'"
  by (auto simp: frees_def restrict_map_def fun_eq_iff)

lemma garbage_ok_frees: "garbage_ok m \<Longrightarrow> frees F m m' \<Longrightarrow> set F \<inter> set (garbage m) = {} \<Longrightarrow> garbage_ok m'"
  by (auto simp: garbage_ok_def frees_def restrict_map_def)

lemma tree_at_free: "tree_at m p t \<Longrightarrow> a \<notin> set (addrs t) \<Longrightarrow> tree_at (free a m) p t"
  by (rule tree_at_cong[of m p t "free a m"]) (auto dest: tree_at_addr)

lemma state_abort_loop_wp:
  assumes "distinct N" "\<And>a. a \<in> set N \<Longrightarrow> obj m a \<noteq> None \<and> a \<notin> set (garbage m)"
    and "\<And>m'. frees N m m' \<Longrightarrow> Q () m'"
  shows "wp (state_abort_loop (ptrs N)) Q m"
  using assms
proof (induction N arbitrary: m)
  case Nil
  then show ?case by (simp add: frees_Nil)
next
  case (Cons a N)
  have "wp (state_abort_loop (ptrs N)) Q (free a m)"
    by (rule Cons.IH) (use Cons.prems(1,2) frees_Cons Cons.prems(3) in fastforce)+
  with Cons.prems(2)[of a] show ?case by simp
qed

text \<open>An aborted round gives back exactly the nodes it allocated; the tree is as it was.\<close>

definition aborted :: "addr \<Rightarrow> ('k::linorder, 'v) itree \<Rightarrow> ('k, 'v) bonsai_mem \<Rightarrow> bonsai_state \<Rightarrow> ('k, 'v) bonsai_mem \<Rightarrow> bool" where
  "aborted self t m st' m' \<longleftrightarrow> st' = state_new \<and> bonsai_inv m' self t \<and> frame {} m m' \<and>
     retired m' = retired m \<and> dropped m' = dropped m \<and>
     (\<exists>N. freed m' = freed m @ N \<and> distinct N \<and> (\<forall>a\<in>set N. fresh m a)) \<and> dom (obj m') \<subseteq> dom (obj m)"

lemma state_abort_wp:
  assumes inv: "bonsai_inv m self t" and b: "grows m state_new m1 st N R" and g: "garbage_ok m1"
  shows "wp (state_abort st) (aborted self t m) m1"
proof -
  have t: "tree_at m (cell m (self, Root)) t" "distinct (addrs t)" "self \<in> statics m" "garbage_ok m"
    "search_tree (erase t)"
    using inv by (auto simp: bonsai_inv_def)
  have N: "distinct N" "\<And>a. a \<in> set N \<Longrightarrow> fresh m a \<and> obj m1 a \<noteq> None" "new_nodes st = ptrs N"
    and ext: "extends m m1" using b by (auto simp: grows_def state_new_def)
  have gm: "garbage m1 = garbage m" using ext by (simp add: extends_def)
  have fr: "a \<notin> set (garbage m1) \<and> a \<notin> set (addrs t) \<and> \<not> live m a" if "a \<in> set N" for a
    using N(2)[OF that] garbage_ok_fresh[OF t(4)] tree_at_addr[OF t(1), of a] gm
    by (auto simp: fresh_def live_def)
  have "wp (state_abort_loop (ptrs N)) (\<lambda>_. aborted self t m state_new) m1"
  proof (rule state_abort_loop_wp[OF N(1)])
    show "obj m1 a \<noteq> None \<and> a \<notin> set (garbage m1)" if "a \<in> set N" for a using N(2) fr that by blast
    fix m' assume m': "frees N m1 m'"
    have same: "obj m' a = obj m a \<and> cell m' (a, f) = cell m (a, f)" if "live m a" for a f
      using m' ext fr that by (auto simp: frees_def extends_def restrict_map_def)
    have "tree_at m' (cell m (self, Root)) t"
    proof (rule tree_at_cong[OF t(1)])
      show "statics m' = statics m" using m' ext by (simp add: frees_def extends_def)
      fix a assume "a \<in> set (addrs t)"
      then show "obj m' a = obj m a \<and> cell m' (a, Left) = cell m (a, Left) \<and> cell m' (a, Right) = cell m (a, Right) \<and>
          a \<notin> set (garbage m')"
        using tree_at_addr[OF t(1), of a] same[of a] m' gm by (auto simp: frees_def live_def)
    qed
    moreover have "garbage_ok m'" using garbage_ok_frees[OF g m'] fr by auto
    ultimately have "bonsai_inv m' self t"
      using t same[of self] m' ext by (simp add: bonsai_inv_def frees_def extends_def live_def)
    moreover have "frame {} m m'" using same m' ext by (auto simp: frame_def frees_def extends_def)
    moreover have "dom (obj m') \<subseteq> dom (obj m)" using m' b unfolding frees_def grows_def by auto
    ultimately show "aborted self t m state_new m'"
      using m' ext N by (auto simp: aborted_def frees_def extends_def restrict_map_def)
  qed
  then show ?thesis by (simp add: state_abort_def wp_bind N(3) state_new_def)
qed

text \<open>The order in which \<^verbatim>\<open>drop\<close> frees: a node, then its right and its left subtree.\<close>

primrec drop_order :: "('k, 'v) itree \<Rightarrow> addr list" where
  "drop_order ITip = []"
| "drop_order (IBin a l k v r) = a # drop_order r @ drop_order l"

lemma mset_drop_order: "mset (drop_order t) = mset (addrs t)"
  by (induction t) (simp_all add: add.commute)

lemma set_drop_order [simp]: "set (drop_order t) = set (addrs t)"
  using mset_drop_order[of t] by (rule mset_eq_setD)

lemma distinct_drop_order [simp]: "distinct (drop_order t) = distinct (addrs t)"
  using mset_drop_order[of t] by (rule mset_eq_imp_distinct_iff)

definition forest_order :: "(shared \<times> ('k, 'v) itree) list \<Rightarrow> addr list" where
  "forest_order ps = concat (map (\<lambda>(p, t). drop_order t) ps)"

lemma forest_order_simps [simp]:
  "forest_order [] = []" "forest_order ((p, t) # ps) = drop_order t @ forest_order ps"
  by (simp_all add: forest_order_def)

lemma bonsai_drop_loop_wp:
  assumes "\<And>p t. (p, t) \<in> set ps \<Longrightarrow> tree_at m p t" "distinct (forest_order ps)"
    and "sum_list (map (\<lambda>(p, t). Suc (2 * tsize (erase t))) ps) < n"
    and "\<And>m'. frees (forest_order ps) m m' \<Longrightarrow> Q () m'"
  shows "wp (bonsai_drop_loop n (rev (map fst ps))) Q m"
  using assms
proof (induction n arbitrary: ps m)
  case (Suc n)
  show ?case
  proof (cases ps)
    case Nil
    with Suc.prems(4) show ?thesis by (simp add: frees_Nil)
  next
    case (Cons pt qs)
    then obtain p t where ps: "ps = (p, t) # qs" by (cases pt) auto
    have t: "tree_at m p t" using Suc.prems(1) ps by simp
    show ?thesis
    proof (cases t)
      case ITip
      have "wp (bonsai_drop_loop n (rev (map fst qs))) Q m"
        by (rule Suc.IH) (use Suc.prems ps ITip in auto)
      with t ITip ps show ?thesis by simp
    next
      case (IBin a l k v r)
      let ?ps = "(cell m (a, Right), r) # (cell m (a, Left), l) # qs"
      have sub: "tree_at m q u \<and> a \<notin> set (addrs u)" if "(q, u) \<in> set ?ps" for q u
      proof -
        have "a \<notin> set (forest_order ?ps)" using Suc.prems(2) ps IBin by auto
        then have "a \<notin> set (addrs u)" using that by (auto simp: forest_order_def)
        then show ?thesis using that t IBin Suc.prems(1) ps by auto
      qed
      have "wp (bonsai_drop_loop n (rev (map fst ?ps))) Q (free a m)"
      proof (rule Suc.IH)
        show "tree_at (free a m) q u" if "(q, u) \<in> set ?ps" for q u
          using sub[OF that] by (simp add: tree_at_free)
        show "Q () m'" if "frees (forest_order ?ps) (free a m) m'" for m'
          using Suc.prems(4)[of m'] frees_Cons[OF that] ps IBin by simp
      qed (use Suc.prems(2,3) ps IBin in auto)
      with t IBin ps show ?thesis by (auto simp: live_def Let_def)
    qed
  qed
qed simp

lemma bonsai_drop_wp:
  assumes "bonsai_inv m self t" "Suc (2 * tsize (erase t)) < n" "\<And>m'. frees (drop_order t) m m' \<Longrightarrow> Q () m'"
  shows "wp (bonsai_drop n self) Q m"
  using bonsai_drop_loop_wp[of "[(cell m (self, Root), t)]" m n Q] assms
  by (auto simp: bonsai_drop_def bonsai_inv_def)

section \<open>BonsaiTreeMap implements the trait\<close>

definition bonsai_ops :: "(addr, 'k::linorder, 'v, bonsai_field, ('k, 'v) bonsai_node) concurrent_map" where
  "bonsai_ops = \<lparr>map_new = bonsai_new, map_get = bonsai_get, map_insert = bonsai_insert, map_remove = bonsai_remove\<rparr>"

definition bonsai_place :: "addr \<Rightarrow> ('k, 'v) bonsai_mem \<Rightarrow> bool" where
  "bonsai_place self m \<longleftrightarrow> self \<in> statics m \<and> garbage_ok m"

definition bonsai_repr :: "addr \<Rightarrow> ('k::linorder, 'v) bonsai_mem \<Rightarrow> ('k \<rightharpoonup> 'v) \<Rightarrow> nat \<Rightarrow> bool" where
  "bonsai_repr self m M s \<longleftrightarrow> (\<exists>t. bonsai_inv m self t \<and> tmap (erase t) = M \<and> tsize (erase t) \<le> s)"

lemma bonsai_new_wp: "bonsai_place self m \<Longrightarrow> wp (bonsai_new self) (\<lambda>_ m'. bonsai_repr self m' Map.empty 0) m"
  by (auto simp: bonsai_new_def bonsai_place_def bonsai_repr_def bonsai_inv_def search_tree_def tmap_def
      intro!: exI[of _ ITip])

lemma bonsai_repr_obtain:
  assumes "bonsai_repr self m M s" "s < n"
  obtains t where "bonsai_inv m self t" "iheight t < n" "tmap (erase t) = M" "tsize (erase t) \<le> s"
    "search_tree (erase t)" "\<And>k. tlookup (erase t) k = M k"
proof -
  from assms obtain t where t: "bonsai_inv m self t" "tmap (erase t) = M" "tsize (erase t) \<le> s"
    by (auto simp: bonsai_repr_def)
  then have "search_tree (erase t)" by (simp add: bonsai_inv_def)
  with that[OF t(1) _ t(2,3)] tlookup_tmap iheight_size[of t] assms(2) t(2,3) show thesis by force
qed

interpretation bonsai: map_impl bonsai_ops bonsai_place bonsai_repr
proof (unfold_locales, unfold bonsai_ops_def concurrent_map.simps, goal_cases)
  case (1 h m)
  then show ?case by (rule bonsai_new_wp)
next
  case (2 h m M s n k)
  then obtain t where t: "bonsai_inv m h t" "iheight t < n" "tlookup (erase t) k = M k"
    by (elim bonsai_repr_obtain) auto
  with 2(1) show ?case by (intro bonsai_get_wp[OF t(1,2)]) simp
next
  case (3 h m M s n k v)
  then obtain t where t: "bonsai_inv m h t" "iheight t < n" "tmap (erase t) = M" "tsize (erase t) \<le> s"
    "search_tree (erase t)" "tlookup (erase t) k = M k"
    by (elim bonsai_repr_obtain) auto
  with tinsert_correct[OF t(5), of k v] show ?case
    by (intro bonsai_insert_wp[OF t(1,2)]) (auto simp: bonsai_repr_def intro!: exI)
next
  case (4 h m M s n k)
  then obtain t where t: "bonsai_inv m h t" "iheight t < n" "tmap (erase t) = M" "tsize (erase t) \<le> s"
    "search_tree (erase t)" "tlookup (erase t) k = M k"
    by (elim bonsai_repr_obtain) auto
  with tremove_correct[OF t(5), of k] show ?case
    by (intro bonsai_remove_wp[OF t(1,2)]) (auto simp: bonsai_repr_def intro!: exI)
next
  case (5 h m M s s')
  then show ?case unfolding bonsai_repr_def by force
qed

section \<open>Shape\<close>

text \<open>Does some node fail the code's own weight test?\<close>

primrec overweight :: "('k, 'v) btree \<Rightarrow> bool" where
  "overweight Tip = False"
| "overweight (Bin l k v r) =
     (heavy (tsize l) (tsize r) \<or> heavy (tsize r) (tsize l) \<or> overweight l \<or> overweight r)"

definition insert_all :: "('k \<times> 'v) list \<Rightarrow> ('k, 'v) request list" where
  "insert_all kvs = map (\<lambda>(k, v). Insert_req k v) kvs"

lemma insert_all_wp:
  assumes "bonsai_inv m self t" "tsize (erase t) + length kvs \<le> n"
  shows "wp (calls bonsai_ops self n (insert_all kvs))
    (\<lambda>_ m'. \<exists>t'. bonsai_inv m' self t' \<and> erase t' = fold (\<lambda>(k, v). tinsert k v) kvs (erase t)) m"
  using assms
proof (induction kvs arbitrary: m t)
  case Nil
  then show ?case by (auto simp: insert_all_def)
next
  case (Cons kv kvs)
  obtain k v where kv: "kv = (k, v)" by (cases kv)
  have h: "iheight t < n" using iheight_size[of t] Cons.prems(2) by simp
  have st: "search_tree (erase t)" using Cons.prems(1) by (simp add: bonsai_inv_def)
  have ops: "map_insert bonsai_ops = bonsai_insert" by (simp add: bonsai_ops_def)
  have "wp (bonsai_insert self n k v) (\<lambda>_ m'. wp (calls bonsai_ops self n (insert_all kvs))
      (\<lambda>_ m''. \<exists>t'. bonsai_inv m'' self t' \<and> erase t' = fold (\<lambda>(k, v). tinsert k v) (kv # kvs) (erase t)) m') m"
  proof (rule bonsai_insert_wp[OF Cons.prems(1) h], goal_cases)
    case (1 m' t')
    have "tsize (erase t') + length kvs \<le> n"
      using tinsert_correct(3)[OF st, of k v] 1(2) Cons.prems(2) by simp
    from Cons.IH[OF 1(1) this] 1(2) show ?case by (simp add: kv)
  qed
  then show ?case by (simp add: insert_all_def kv wp_bind ops)
qed

section \<open>Runs\<close>

text \<open>Keys 10, 20 and 30 at addresses 3, 2 and 4; the map itself at address 1, and an empty one at address 9.\<close>

definition demo_tree :: "(bonsai_field, (int, int) bonsai_node) sc" where
  "demo_tree = sc_start {1, 9} 10
     (\<lambda>l. if l = (1, Root) then Shared 2 0 else if l = (2, Left) then Shared 3 0
          else if l = (2, Right) then Shared 4 0 else null)
     [2 \<mapsto> \<lparr>bkey = 20, bvalue = 200, bsize = 3\<rparr>, 3 \<mapsto> \<lparr>bkey = 10, bvalue = 100, bsize = 1\<rparr>,
      4 \<mapsto> \<lparr>bkey = 30, bvalue = 300, bsize = 1\<rparr>] []"

definition demo_itree :: "(int, int) itree" where
  "demo_itree = IBin 2 (IBin 3 ITip 10 100 ITip) 20 200 (IBin 4 ITip 30 300 ITip)"

lemma demo_tree_ok: "sc_ok demo_tree"
  unfolding demo_tree_def by (rule sc_ok_start) (auto split: if_splits)

lemma demo_tree_inv: "bonsai_inv (sc_view demo_tree) 1 demo_itree"
  by (simp add: demo_tree_def demo_itree_def bonsai_inv_def search_tree_def garbage_ok_start)

lemma demo_tree_empty: "bonsai_inv (sc_view demo_tree) 9 ITip"
  by (simp add: demo_tree_def bonsai_inv_def search_tree_def garbage_ok_start)

lemma demo_tree_repr: "bonsai_repr 1 (sc_view demo_tree) [10 \<mapsto> 100, 20 \<mapsto> 200, 30 \<mapsto> 300] 3"
  unfolding bonsai_repr_def using demo_tree_inv
  by (intro exI[of _ demo_itree]) (auto simp: demo_itree_def tmap_def)

lemmas demo_tree_facts = sc.crossbeam_api_axioms demo_tree_ok

definition bonsai_calls :: "(int, int) request list" where
  "bonsai_calls = [Insert_req 15 5, Insert_req 10 6, Remove_req 20, Get_req 15, Get_req 20]"

text \<open>
  C13: \<^verbatim>\<open>BonsaiTreeMap\<close> refines a finite map: any sequence of calls on a well-formed tree returns,
  commits no memory error, answers as the finite map would, and leaves a well-formed search tree, with
  correct size fields, that represents the resulting map.
\<close>

theorem bonsai_refines_map:
  assumes "crossbeam_api X view ok" "ok s" "bonsai_repr self (view s) M b" "b + length qs \<le> n"
  shows "completes X view ok (calls bonsai_ops self n qs) s
    (\<lambda>rs m'. \<exists>M'. spec_calls qs M = (rs, M') \<and> bonsai_repr self m' M' (b + length qs))"
  using assms by (intro wp_completes bonsai.calls_wp)

theorem bonsai_refines_map_witness:
  "completes sc_api sc_view sc_ok (calls bonsai_ops 1 10 bonsai_calls) demo_tree
     (\<lambda>rs m'. \<exists>M'. spec_calls bonsai_calls [10 \<mapsto> 100, 20 \<mapsto> 200, 30 \<mapsto> 300] = (rs, M') \<and>
        bonsai_repr 1 m' M' (3 + length bonsai_calls))"
  by (rule bonsai_refines_map[OF demo_tree_facts demo_tree_repr]) (simp add: bonsai_calls_def)

text \<open>
  One \<^verbatim>\<open>insert\<close> in detail.  It reports whether the key was absent; the new tree is the old
  one with the entry added and rotated where the weight test asks for it; the nodes of the old tree
  that are not part of the new one, and the nodes that a rotation made obsolete, are retired exactly once
  and no node of the new tree is; nothing is freed or dropped in place.
\<close>

theorem bonsai_insert_correct:
  assumes "crossbeam_api X view ok" "ok s" "bonsai_inv (view s) self t" "iheight t < n"
  shows "completes X view ok (bonsai_insert self n k v) s
    (\<lambda>r m'. r = (tmap (erase t) k = None) \<and>
       (\<exists>t'. bonsai_inv m' self t' \<and> erase t' = tinsert k v (erase t) \<and> bonsai_step self (view s) t m' t'))"
proof (rule wp_completes[OF assms(1,2)], rule bonsai_insert_wp[OF assms(3,4)], goal_cases)
  case (1 m' t')
  have "search_tree (erase t)" using assms(3) by (simp add: bonsai_inv_def)
  with 1 show ?case by (auto simp: tlookup_tmap)
qed

theorem bonsai_insert_correct_witness:
  "completes sc_api sc_view sc_ok (bonsai_insert 1 4 40 7) demo_tree
    (\<lambda>r m'. r = (tmap (erase demo_itree) 40 = None) \<and>
       (\<exists>t'. bonsai_inv m' 1 t' \<and> erase t' = tinsert 40 7 (erase demo_itree) \<and>
          bonsai_step 1 (sc_view demo_tree) demo_itree m' t'))"
  by (rule bonsai_insert_correct[OF demo_tree_facts demo_tree_inv]) (simp add: demo_itree_def)

text \<open>
  C15: one \<^verbatim>\<open>remove\<close> in detail.  It returns the value stored under the key; the new tree is the
  old one without that entry, an inner node being replaced by its predecessor, or its successor
  if it has no left subtree; the nodes that the new tree does not use are retired exactly once, the copy of
  the pulled-out neighbour included, and nothing is freed or dropped in place.
\<close>

theorem bonsai_remove_correct:
  assumes "crossbeam_api X view ok" "ok s" "bonsai_inv (view s) self t" "iheight t < n"
  shows "completes X view ok (bonsai_remove self n k) s
    (\<lambda>r m'. r = tmap (erase t) k \<and>
       (\<exists>t'. bonsai_inv m' self t' \<and> erase t' = tremove k (erase t) \<and> bonsai_step self (view s) t m' t'))"
proof (rule wp_completes[OF assms(1,2)], rule bonsai_remove_wp[OF assms(3,4)], goal_cases)
  case (1 m' t')
  have "search_tree (erase t)" using assms(3) by (simp add: bonsai_inv_def)
  with 1 show ?case by (auto simp: tlookup_tmap)
qed

theorem bonsai_remove_correct_witness:
  "completes sc_api sc_view sc_ok (bonsai_remove 1 4 20) demo_tree
    (\<lambda>r m'. r = tmap (erase demo_itree) 20 \<and>
       (\<exists>t'. bonsai_inv m' 1 t' \<and> erase t' = tremove 20 (erase demo_itree) \<and>
          bonsai_step 1 (sc_view demo_tree) demo_itree m' t'))"
  by (rule bonsai_remove_correct[OF demo_tree_facts demo_tree_inv]) (simp add: demo_itree_def)

text \<open>
  A round of \<^verbatim>\<open>remove\<close> that is abandoned.  Whatever \<^verbatim>\<open>do_remove\<close> built,
  \<^verbatim>\<open>State::abort\<close> frees exactly the nodes it allocated, each once, retires nothing, resets
  the state, and leaves the shared tree and all other memory as they were.
\<close>

theorem bonsai_abort_correct:
  assumes "crossbeam_api X view ok" "ok s" "bonsai_inv (view s) self t" "iheight t < n"
  shows "completes X view ok
    (bind (do_remove n state_new (cell (view s) (self, Root)) k) (\<lambda>(_, st). state_abort st)) s
    (aborted self t (view s))"
proof (rule wp_completes[OF assms(1,2)])
  have t: "tree_at (view s) (cell (view s) (self, Root)) t" "garbage_ok (view s)"
    using assms(3) by (auto simp: bonsai_inv_def)
  show "wp (bind (do_remove n state_new (cell (view s) (self, Root)) k) (\<lambda>(_, st). state_abort st))
      (aborted self t (view s)) (view s)"
  proof (rule wp_bind_mono[OF do_remove_wp[OF t assms(4)]], goal_cases)
    case (1 r m1)
    obtain q y st where r: "r = ((q, y), st)" by (cases r) auto
    with 1 obtain N R where "grows (view s) state_new m1 st N R" "garbage_ok m1"
      by (auto simp: do_remove_post_def builds_def)
    from state_abort_wp[OF assms(3) this] show ?case by (simp add: r)
  qed
qed

theorem bonsai_abort_correct_witness:
  "completes sc_api sc_view sc_ok
    (bind (do_remove 4 state_new (cell (sc_view demo_tree) (1, Root)) 20) (\<lambda>(_, st). state_abort st)) demo_tree
    (aborted 1 demo_itree (sc_view demo_tree))"
  by (rule bonsai_abort_correct[OF demo_tree_facts demo_tree_inv]) (simp add: demo_itree_def)

text \<open>
  C32: dropping the map frees every node of the tree exactly once, parents before children, and touches
  nothing else.
\<close>

theorem bonsai_drop_correct:
  assumes "crossbeam_api X view ok" "ok s" "bonsai_inv (view s) self t" "Suc (2 * tsize (erase t)) < n"
  shows "completes X view ok (bonsai_drop n self) s
    (\<lambda>_ m'. frees (drop_order t) (view s) m' \<and> distinct (drop_order t) \<and> set (drop_order t) = set (addrs t))"
proof (rule wp_completes[OF assms(1,2)], rule bonsai_drop_wp[OF assms(3,4)], goal_cases)
  case (1 m')
  with assms(3) show ?case by (simp add: bonsai_inv_def)
qed

theorem bonsai_drop_correct_witness:
  "completes sc_api sc_view sc_ok (bonsai_drop 10 1) demo_tree
    (\<lambda>_ m'. frees (drop_order demo_itree) (sc_view demo_tree) m' \<and> distinct (drop_order demo_itree) \<and>
       set (drop_order demo_itree) = set (addrs demo_itree))"
  by (rule bonsai_drop_correct[OF demo_tree_facts demo_tree_inv]) (simp add: demo_itree_def)

text \<open>
  The tree is not always weight-balanced.  Take any five keys \<open>a < b < c < d < e\<close> and insert them into an empty map in
  the order \<open>a, e, d, b, c\<close>: every run ends with the tree that two double rotations give, and its root fails the very test by
  which \<^verbatim>\<open>mk_balanced\<close> decides to rotate, with one node on the left and three on the right.  So one rotation is not
  always enough.
\<close>

theorem bonsai_not_always_balanced:
  fixes a b c d e :: "'k::linorder"
  assumes "crossbeam_api X view ok" "ok s" "bonsai_inv (view s) self ITip" "5 \<le> n" "a < b" "b < c" "c < d" "d < e"
  shows "completes X view ok (calls bonsai_ops self n (insert_all [(a, va), (e, ve), (d, vd), (b, vb), (c, vc)])) s
    (\<lambda>_ m'. \<exists>t'. bonsai_inv m' self t' \<and>
       erase t' = Bin (Bin Tip a va Tip) b vb (Bin (Bin Tip c vc Tip) d vd (Bin Tip e ve Tip)) \<and> overweight (erase t'))"
proof (rule wp_completes[OF assms(1,2)], rule wp_mono[OF insert_all_wp[OF assms(3)]], goal_cases)
  case (2 r m')
  have lt: "a < b" "a < c" "a < d" "a < e" "b < c" "b < d" "b < e" "c < d" "c < e" "d < e" using assms(5-8) by auto
  note order = lt lt[THEN less_imp_neq] lt[THEN less_imp_neq, THEN not_sym] lt[THEN less_not_sym]
  have "fold (\<lambda>(k, v). tinsert k v) [(a, va), (e, ve), (d, vd), (b, vb), (c, vc)] Tip =
      Bin (Bin Tip a va Tip) b vb (Bin (Bin Tip c vc Tip) d vd (Bin Tip e ve Tip))"
    by (simp add: balance_def heavy_def WEIGHT_def order)
  moreover have "overweight (Bin (Bin Tip a va Tip) b vb (Bin (Bin Tip c vc Tip) d vd (Bin Tip e ve Tip)))"
    by (simp add: heavy_def WEIGHT_def)
  ultimately show ?case using 2 by auto
qed (use assms(4) in simp)

theorem bonsai_not_always_balanced_witness:
  "completes sc_api sc_view sc_ok (calls bonsai_ops 9 5 (insert_all [(11, 0), (35, 0), (33, 0), (15, 0), (32, 0)])) demo_tree
    (\<lambda>_ m'. \<exists>t'. bonsai_inv m' 9 t' \<and>
       erase t' = Bin (Bin Tip 11 0 Tip) 15 0 (Bin (Bin Tip 32 0 Tip) 33 0 (Bin Tip 35 0 Tip)) \<and> overweight (erase t'))"
  by (rule bonsai_not_always_balanced[OF demo_tree_facts demo_tree_empty]) simp_all

end
