(* ===== verification/Bonsai_Rounds.thy ===== *)
theory Bonsai_Rounds
  imports Ebr_Bonsai_Correct
begin

text \<open>
  A round of a Bonsai update or lookup (\<^verbatim>\<open>src/src/ebr/bonsai_tree.rs\<close>) while other threads work: it starts from a snapshot
  of the tree, and whenever it reads a link of a node in it, the link may have been overwritten by
  \<^verbatim>\<open>Node::retired_node()\<close>, because another thread has replaced the node.  What the routines deliver then is either
  exactly what they deliver without interference, or a retired pointer, on which the round is given up.
\<close>

section \<open>Snapshots\<close>

text \<open>The nodes a round knows, with their links as they were when the round learned of the node.\<close>

type_synonym ('k, 'v) snapshot = "addr \<rightharpoonup> ('k, 'v) bonsai_node \<times> shared \<times> shared"

definition link :: "bonsai_field \<Rightarrow> ('k, 'v) bonsai_node \<times> shared \<times> shared \<Rightarrow> shared" where
  "link f x = (if f = Left then fst (snd x) else snd (snd x))"

text \<open>The weakest precondition of a round: reading a link gives what the snapshot has or a retired pointer.\<close>

primrec nwp ::
  "('k, 'v, 'a) bonsai_prog \<Rightarrow> ('a \<Rightarrow> ('k, 'v) snapshot \<Rightarrow> bool) \<Rightarrow> ('k, 'v) snapshot \<Rightarrow> bool" where
  "nwp (Ret x) Q s = Q x s"
| "nwp (Load l k) Q s = (\<exists>x. s (fst l) = Some x \<and> snd l \<noteq> Root \<and> nwp (k (link (snd l) x)) Q s \<and> nwp (k retired_node) Q s)"
| "nwp (Deref p k) Q s = (\<exists>x. s (raw p) = Some x \<and> nwp (k (fst x)) Q s)"
| "nwp (Owned_new n fs k) Q s = (\<exists>pl pr. fs = [(Left, pl), (Right, pr)] \<and>
     (\<forall>a. a \<noteq> 0 \<longrightarrow> s a = None \<longrightarrow> nwp (k (Shared a 0)) Q (s(a \<mapsto> (n, pl, pr)))))"
| "nwp (Store l p k) Q s = False"
| "nwp (Compare_and_set l u v k) Q s = False"
| "nwp (Fetch_or l t k) Q s = False"
| "nwp (Deref_mut p n k) Q s = False"
| "nwp (Drop_owned p k) Q s = False"
| "nwp (Drop_value p k) Q s = False"
| "nwp (Defer_destroy p k) Q s = False"
| "nwp (Shield_null k) Q s = False"
| "nwp (Shield_new p k) Q s = False"
| "nwp (Shield_drop i k) Q s = False"
| "nwp (Defend i p k) Q s = False"
| "nwp (Defend_fake i p k) Q s = False"
| "nwp (Release i k) Q s = False"
| "nwp (Shield_shared i k) Q s = False"
| "nwp (Repin k) Q s = False"
| "nwp Panic Q s = False"
| "nwp Out_of_fuel Q s = True"

lemma nwp_bind: "nwp (bind p f) Q = nwp p (\<lambda>x. nwp (f x) Q)"
  by (induction p) (rule ext, simp)+

lemma nwp_mono:
  assumes "nwp p Q s" "\<And>x s'. Q x s' \<Longrightarrow> Q' x s'"
  shows "nwp p Q' s"
  using assms(1)
proof (induction p arbitrary: s)
  case (Owned_new n fs k)
  then show ?case by fastforce
qed (use assms(2) in auto)

lemma nwp_bind_mono: "nwp p Q' s \<Longrightarrow> (\<And>x s'. Q' x s' \<Longrightarrow> nwp (f x) Q s') \<Longrightarrow> nwp (bind p f) Q s"
  unfolding nwp_bind by (rule nwp_mono)

lemma or_else_nwp: "nwp (or_else p q) Q s \<longleftrightarrow> nwp p (\<lambda>b s. if b then Q True s else nwp q Q s) s"
proof -
  have "(\<lambda>b. nwp (if b then Ret True else q) Q) = (\<lambda>b s. if b then Q True s else nwp q Q s)" by (auto simp: fun_eq_iff)
  then show ?thesis by (simp add: or_else_def nwp_bind)
qed

text \<open>A tree of known nodes, and a pointer that may be retired instead.\<close>

primrec stree :: "('k, 'v) snapshot \<Rightarrow> shared \<Rightarrow> ('k, 'v) itree \<Rightarrow> bool" where
  "stree s p ITip \<longleftrightarrow> p = null"
| "stree s p (IBin a l k v r) \<longleftrightarrow> p = Shared a 0 \<and> a \<noteq> 0 \<and>
     (\<exists>pl pr. s a = Some (\<lparr>bkey = k, bvalue = v, bsize = tsize (erase (IBin a l k v r))\<rparr>, pl, pr) \<and> stree s pl l \<and> stree s pr r)"

definition otree :: "('k, 'v) snapshot \<Rightarrow> shared \<Rightarrow> ('k, 'v) itree \<Rightarrow> bool" where
  "otree s p t \<longleftrightarrow> is_retired p \<or> stree s p t"

lemma stree_live: "stree s p t \<Longrightarrow> \<not> is_retired p"
  by (cases t) auto

lemma stree_null: "stree s p t \<Longrightarrow> is_null p \<longleftrightarrow> t = ITip"
  by (cases t) auto

lemma stree_mono: "stree s p t \<Longrightarrow> s \<subseteq>\<^sub>m s' \<Longrightarrow> stree s' p t"
proof (induction t arbitrary: p)
  case (IBin a l k v r)
  then obtain pl pr where "s a = Some (\<lparr>bkey = k, bvalue = v, bsize = tsize (erase (IBin a l k v r))\<rparr>, pl, pr)"
    "stree s pl l" "stree s pr r" by auto
  moreover from this(1) have "s' a = s a" using IBin.prems(2) by (metis domI map_le_def)
  ultimately show ?case using IBin by auto
qed simp

lemma stree_dom: "stree s p t \<Longrightarrow> set (addrs t) \<subseteq> dom s"
  by (induction t arbitrary: p) fastforce+

lemma otree_le: "otree s p t \<Longrightarrow> s \<subseteq>\<^sub>m s' \<Longrightarrow> otree s' p t"
  by (auto simp: otree_def intro: stree_mono)

lemma stree_otree: "stree s p t \<Longrightarrow> otree s p t"
  by (simp add: otree_def)

lemma retired_otree [simp]: "otree s retired_node t"
  by (simp add: otree_def)

section \<open>What a routine has made\<close>

definition made ::
  "('k, 'v) snapshot \<Rightarrow> bonsai_state \<Rightarrow> ('k, 'v) snapshot \<Rightarrow> bonsai_state \<Rightarrow> addr list \<Rightarrow> addr list \<Rightarrow> bool" where
  "made s st s' st' N R \<longleftrightarrow> s \<subseteq>\<^sub>m s' \<and> dom s' = dom s \<union> set N \<and> set N \<inter> dom s = {} \<and> distinct N \<and>
     new_nodes st' = new_nodes st @ ptrs N \<and> retired_nodes st' = retired_nodes st @ ptrs R"

lemma made_refl [simp]: "made s st s st [] []"
  by (simp add: made_def)

lemma made_mono: "made s st s' st' N R \<Longrightarrow> s \<subseteq>\<^sub>m s'"
  by (simp add: made_def)

lemma made_trans: "made s st s1 st1 N R \<Longrightarrow> made s1 st1 s2 st2 N' R' \<Longrightarrow> made s st s2 st2 (N @ N') (R @ R')"
  by (auto simp: made_def intro: map_le_trans)

lemma made_retire: "made s st s1 st1 N R \<Longrightarrow> made s st s1 (retire_node st1 (Shared a 0)) N (R @ [a])"
  by (simp add: made_def retire_node_def)

text \<open>
  The result is a retired pointer, or a tree of the right shape with every node accounted for; besides it, the routine may
  have made nodes \<open>E\<close>.
\<close>

definition yields ::
  "('k, 'v) snapshot \<Rightarrow> bonsai_state \<Rightarrow> addr multiset \<Rightarrow> addr multiset \<Rightarrow> ('k, 'v) btree \<Rightarrow> shared \<Rightarrow> bonsai_state \<Rightarrow>
    ('k, 'v) snapshot \<Rightarrow> bool" where
  "yields s st U E T p st' s' \<longleftrightarrow> (\<exists>N R. made s st s' st' N R \<and> (is_retired p \<or>
     (\<exists>t. stree s' p t \<and> erase t = T \<and> mset (addrs t) + mset R + E = U + mset N)))"

lemma yields_retired: "made s st s' st' N R \<Longrightarrow> is_retired p \<Longrightarrow> yields s st U E T p st' s'"
  by (auto simp: yields_def)

lemma yieldsI:
  "made s st s' st' N R \<Longrightarrow> stree s' p t \<Longrightarrow> erase t = T \<Longrightarrow> mset (addrs t) + mset R + E = U + mset N \<Longrightarrow>
    yields s st U E T p st' s'"
  by (auto simp: yields_def)

section \<open>The routines\<close>

lemma is_retired_spot_nwp:
  assumes "otree s p t" "Q True s" "stree s p t \<Longrightarrow> Q False s"
  shows "nwp (is_retired_spot p) Q s"
proof (cases "is_retired p")
  case False
  then have t: "stree s p t" using assms(1) by (simp add: otree_def)
  show ?thesis
  proof (cases t)
    case (IBin a l k v r)
    with t obtain pl pr where a: "p = Shared a 0" "a \<noteq> 0" "\<exists>nd. s a = Some (nd, pl, pr)" "stree s pl l" "stree s pr r" by auto
    then have "\<not> is_retired pl" "\<not> is_retired pr" using stree_live by blast+
    with a assms(2) assms(3)[OF t] False show ?thesis by (auto simp: is_retired_spot_def or_else_nwp link_def)
  qed (use t assms False in \<open>simp add: is_retired_spot_def\<close>)
qed (use assms in \<open>simp add: is_retired_spot_def\<close>)

lemma spots_nwp:
  assumes "otree s p t" "otree s q u" "Q True s" "stree s p t \<Longrightarrow> stree s q u \<Longrightarrow> Q False s"
  shows "nwp (or_else (is_retired_spot p) (is_retired_spot q)) Q s"
  unfolding or_else_nwp by (rule is_retired_spot_nwp[OF assms(1)]) (use assms in \<open>auto intro!: is_retired_spot_nwp[OF assms(2)]\<close>)

lemma spots3_nwp:
  assumes "otree s p t" "otree s q u" "otree s r v" "Q True s" "stree s p t \<Longrightarrow> stree s q u \<Longrightarrow> stree s r v \<Longrightarrow> Q False s"
  shows "nwp (or_else (is_retired_spot p) (or_else (is_retired_spot q) (is_retired_spot r))) Q s"
  unfolding or_else_nwp[of "is_retired_spot p"]
  by (rule is_retired_spot_nwp[OF assms(1)]) (use assms in \<open>auto intro!: spots_nwp[OF assms(2,3)]\<close>)

lemma node_size_nwp: "stree s p t \<Longrightarrow> Q (tsize (erase t)) s \<Longrightarrow> nwp (node_size p) Q s"
  by (cases t) (auto simp: node_size_def)

lemma mk_node_nwp:
  assumes l: "otree s pl l" and r: "otree s pr r" and abort: "Q (retired_node, st) s"
    and post: "\<And>a s' st'. stree s pl l \<Longrightarrow> stree s pr r \<Longrightarrow> made s st s' st' [a] [] \<Longrightarrow> stree s' (Shared a 0) (IBin a l k v r) \<Longrightarrow>
      Q (Shared a 0, st') s'"
  shows "nwp (mk_node st pl pr k v) Q s"
proof -
  let ?n = "\<lparr>bkey = k, bvalue = v, bsize = tsize (erase l) + tsize (erase r) + 1\<rparr>"
  have "Q (Shared a 0, add_new_node st (Shared a 0)) (s(a \<mapsto> (?n, pl, pr)))"
    if a: "a \<noteq> 0" "s a = None" and lr: "stree s pl l" "stree s pr r" for a
  proof (rule post[OF lr])
    let ?s = "s(a \<mapsto> (?n, pl, pr))"
    have le: "s \<subseteq>\<^sub>m ?s" using a(2) by (auto simp: map_le_def)
    then show "made s st ?s (add_new_node st (Shared a 0)) [a] []" using a(2) by (auto simp: made_def add_new_node_def)
    show "stree ?s (Shared a 0) (IBin a l k v r)" using stree_mono[OF lr(1) le] stree_mono[OF lr(2) le] a by auto
  qed
  then show ?thesis
    unfolding mk_node_def nwp_bind
    by (intro spots_nwp[OF l r]) (auto simp: nwp_bind abort intro!: node_size_nwp[of s pl l] node_size_nwp[of s pr r])
qed

lemma mk_node_step:
  assumes l: "otree s pl l" and r: "otree s pr r"
    and post: "\<And>p st' s' N a. made s st s' st' N [] \<Longrightarrow> otree s' p (IBin a l k v r) \<Longrightarrow>
      (\<not> is_retired p \<Longrightarrow> \<not> is_retired pl \<and> \<not> is_retired pr \<and> N = [a]) \<Longrightarrow> Q (p, st') s'"
  shows "nwp (mk_node st pl pr k v) Q s"
proof (rule mk_node_nwp[OF l r], goal_cases)
  case (2 a s' st')
  then show ?case using stree_live by (intro post[OF 2(3)] stree_otree) blast+
qed (auto intro: post[OF made_refl])

lemma deref_nwp:
  "stree s p (IBin a l k v r) \<Longrightarrow> nwp (f \<lparr>bkey = k, bvalue = v, bsize = tsize (erase l) + tsize (erase r) + 1\<rparr>) Q s \<Longrightarrow> nwp (Deref p f) Q s"
  by auto

lemma otree_mono: "otree s p t \<Longrightarrow> made s st s' st' N R \<Longrightarrow> otree s' p t"
  by (auto simp: made_def intro: otree_le)

lemma yields_otree:
  assumes "made s st s' st' N R" "otree s' p t" "\<not> is_retired p \<Longrightarrow> erase t = T \<and> mset (addrs t) + mset R + E = U + mset N"
  shows "yields s st U E T p st' s'"
  using assms by (auto simp: yields_def otree_def)

text \<open>The rotations.\<close>

lemma single_left_nwp:
  assumes l: "stree s pl l" and r: "stree s pr (IBin a rl rk rv rr)" and rl: "stree s prl rl" and rr: "stree s prr rr"
  shows "nwp (single_left st pl pr prl prr k v) (\<lambda>(p, st'). yields s st (mset (addrs l) + mset (addrs (IBin a rl rk rv rr))) {#}
    (Bin (Bin (erase l) k v (erase rl)) rk rv (erase rr)) p st') s" (is "nwp _ ?Q s")
proof -
  have pr: "pr = Shared a 0" using r by simp
  have "nwp (bind (mk_node st pl prl k v) (\<lambda>(new_left, st).
       bind (mk_node st new_left prr rk rv) (\<lambda>(res, st). Ret (res, retire_node st pr)))) ?Q s"
    unfolding nwp_bind
  proof (rule mk_node_step[OF stree_otree[OF l] stree_otree[OF rl]], goal_cases)
    case (1 p1 st1 s1 N1 b)
    note m1 = 1(1) and p1 = 1(3)
    show ?case
      unfolding prod.case nwp_bind
    proof (rule mk_node_step[OF 1(2) otree_mono[OF stree_otree[OF rr] m1]], goal_cases)
      case (1 p2 st2 s2 N2 c)
      show ?case
        using yields_otree[OF made_retire[OF made_trans[OF m1 1(1)], of a] 1(2)] 1(3) p1 by (auto simp: pr)
    qed
  qed
  then show ?thesis using r by (auto simp: single_left_def)
qed

lemma single_right_nwp:
  assumes l: "stree s pl (IBin a ll lk lv lr)" and r: "stree s pr r" and ll: "stree s pll ll" and lr: "stree s plr lr"
  shows "nwp (single_right st pl pr plr pll k v) (\<lambda>(p, st'). yields s st (mset (addrs (IBin a ll lk lv lr)) + mset (addrs r)) {#}
    (Bin (erase ll) lk lv (Bin (erase lr) k v (erase r))) p st') s" (is "nwp _ ?Q s")
proof -
  have pl: "pl = Shared a 0" using l by simp
  have "nwp (bind (mk_node st plr pr k v) (\<lambda>(new_right, st).
       bind (mk_node st pll new_right lk lv) (\<lambda>(res, st). Ret (res, retire_node st pl)))) ?Q s"
    unfolding nwp_bind
  proof (rule mk_node_step[OF stree_otree[OF lr] stree_otree[OF r]], goal_cases)
    case (1 p1 st1 s1 N1 b)
    note m1 = 1(1) and p1 = 1(3)
    show ?case
      unfolding prod.case nwp_bind
    proof (rule mk_node_step[OF otree_mono[OF stree_otree[OF ll] m1] 1(2)], goal_cases)
      case (1 p2 st2 s2 N2 c)
      show ?case
        using yields_otree[OF made_retire[OF made_trans[OF m1 1(1)], of a] 1(2)] 1(3) p1 by (auto simp: pl)
    qed
  qed
  then show ?thesis using l by (auto simp: single_right_def)
qed

text \<open>Reading both links of a node.\<close>

lemma links_nwp:
  assumes t: "stree s p (IBin a l k v r)" and ab: "\<And>pl pr. nwp (f pl pr True) Q s"
    and go: "\<And>pl pr. stree s pl l \<Longrightarrow> stree s pr r \<Longrightarrow> nwp (f pl pr False) Q s"
  shows "nwp (Load (raw p, Left) (\<lambda>left. Load (raw p, Right) (\<lambda>right.
      bind (or_else (is_retired_spot left) (is_retired_spot right)) (f left right)))) Q s"
    "nwp (Load (raw p, Right) (\<lambda>right. Load (raw p, Left) (\<lambda>left.
      bind (or_else (is_retired_spot right) (is_retired_spot left)) (f left right)))) Q s"
proof -
  from t obtain nd pl pr where a: "p = Shared a 0" "s a = Some (nd, pl, pr)" "stree s pl l" "stree s pr r" by auto
  have both: "nwp (bind (or_else (is_retired_spot x) (is_retired_spot y)) (f x y)) Q s"
    "nwp (bind (or_else (is_retired_spot y) (is_retired_spot x)) (f x y)) Q s"
    if "x = pl \<or> x = retired_node" "y = pr \<or> y = retired_node" for x y
  proof -
    have "otree s x l" "otree s y r" using that a(3,4) by (auto simp: otree_def)
    then show "nwp (bind (or_else (is_retired_spot x) (is_retired_spot y)) (f x y)) Q s"
      "nwp (bind (or_else (is_retired_spot y) (is_retired_spot x)) (f x y)) Q s"
      unfolding nwp_bind using ab go by (auto intro!: spots_nwp[of s x l y r] spots_nwp[of s y r x l])
  qed
  then show "nwp (Load (raw p, Left) (\<lambda>left. Load (raw p, Right) (\<lambda>right.
      bind (or_else (is_retired_spot left) (is_retired_spot right)) (f left right)))) Q s"
    "nwp (Load (raw p, Right) (\<lambda>right. Load (raw p, Left) (\<lambda>left.
      bind (or_else (is_retired_spot right) (is_retired_spot left)) (f left right)))) Q s"
    using a by (simp_all add: link_def)
qed

lemma double_left_nwp:
  assumes l: "stree s pl l" and r: "stree s pr (IBin a (IBin b rll rlk rlv rlr) rk rv rr)"
    and rl: "stree s prl (IBin b rll rlk rlv rlr)" and rr: "stree s prr rr"
  shows "nwp (double_left st pl pr prl prr k v)
    (\<lambda>(p, st'). yields s st (mset (addrs l) + mset (addrs (IBin a (IBin b rll rlk rlv rlr) rk rv rr))) {#}
       (Bin (Bin (erase l) k v (erase rll)) rlk rlv (Bin (erase rlr) rk rv (erase rr))) p st') s" (is "nwp _ ?Q s")
proof -
  have pr: "pr = Shared a 0" "prl = Shared b 0" using r rl by simp_all
  have go: "nwp (bind (mk_node st pl prll k v) (\<lambda>(new_left, st).
       bind (mk_node st prlr prr rk rv) (\<lambda>(new_right, st).
       bind (mk_node st new_left new_right rlk rlv) (\<lambda>(res, st).
       Ret (res, retire_node (retire_node st prl) pr))))) ?Q s" if rll: "stree s prll rll" and rlr: "stree s prlr rlr" for prll prlr
    unfolding nwp_bind
  proof (rule mk_node_step[OF stree_otree[OF l] stree_otree[OF rll]], goal_cases)
    case (1 p1 st1 s1 N1 c)
    note m1 = 1(1) and t1 = 1(2) and p1 = 1(3)
    show ?case
      unfolding prod.case nwp_bind
    proof (rule mk_node_step[OF otree_mono[OF stree_otree[OF rlr] m1] otree_mono[OF stree_otree[OF rr] m1]], goal_cases)
      case (1 p2 st2 s2 N2 d)
      note m2 = made_trans[OF m1 1(1)] and p2 = 1(3)
      show ?case
        unfolding prod.case nwp_bind
      proof (rule mk_node_step[OF otree_mono[OF t1 1(1)] 1(2)], goal_cases)
        case (1 p3 st3 s3 N3 e)
        show ?case
          using yields_otree[OF made_retire[OF made_retire[OF made_trans[OF m2 1(1)], of b], of a] 1(2)] 1(3) p1 p2 by (auto simp: pr)
      qed
    qed
  qed
  have "nwp (Load (raw prl, Left) (\<lambda>rll. Load (raw prl, Right) (\<lambda>rlr.
      bind (or_else (is_retired_spot rll) (is_retired_spot rlr)) (\<lambda>b.
        if b then Ret (retired_node, st)
        else bind (mk_node st pl rll k v) (\<lambda>(new_left, st).
       bind (mk_node st rlr prr rk rv) (\<lambda>(new_right, st).
       bind (mk_node st new_left new_right rlk rlv) (\<lambda>(res, st).
       Ret (res, retire_node (retire_node st prl) pr)))))))) ?Q s"
    by (rule links_nwp(1)[OF rl]) (use go yields_retired[OF made_refl, of retired_node] in simp_all)
  note copy = this
  show ?thesis
    unfolding double_left_def
  proof (rule deref_nwp[OF r], rule deref_nwp[OF rl], goal_cases)
    case 1
    from copy show ?case by (simp only: bonsai_node.simps)
  qed
qed

lemma double_right_nwp:
  assumes l: "stree s pl (IBin a ll lk lv (IBin b lrl lrk lrv lrr))" and r: "stree s pr r"
    and lr: "stree s plr (IBin b lrl lrk lrv lrr)" and ll: "stree s pll ll"
  shows "nwp (double_right st pl pr plr pll k v)
    (\<lambda>(p, st'). yields s st (mset (addrs (IBin a ll lk lv (IBin b lrl lrk lrv lrr))) + mset (addrs r)) {#}
       (Bin (Bin (erase ll) lk lv (erase lrl)) lrk lrv (Bin (erase lrr) k v (erase r))) p st') s" (is "nwp _ ?Q s")
proof -
  have pl: "pl = Shared a 0" "plr = Shared b 0" using l lr by simp_all
  have go: "nwp (bind (mk_node st pll plrl lk lv) (\<lambda>(new_left, st).
       bind (mk_node st plrr pr k v) (\<lambda>(new_right, st).
       bind (mk_node st new_left new_right lrk lrv) (\<lambda>(res, st).
       Ret (res, retire_node (retire_node st plr) pl))))) ?Q s" if lrl: "stree s plrl lrl" and lrr: "stree s plrr lrr" for plrl plrr
    unfolding nwp_bind
  proof (rule mk_node_step[OF stree_otree[OF ll] stree_otree[OF lrl]], goal_cases)
    case (1 p1 st1 s1 N1 c)
    note m1 = 1(1) and t1 = 1(2) and p1 = 1(3)
    show ?case
      unfolding prod.case nwp_bind
    proof (rule mk_node_step[OF otree_mono[OF stree_otree[OF lrr] m1] otree_mono[OF stree_otree[OF r] m1]], goal_cases)
      case (1 p2 st2 s2 N2 d)
      note m2 = made_trans[OF m1 1(1)] and p2 = 1(3)
      show ?case
        unfolding prod.case nwp_bind
      proof (rule mk_node_step[OF otree_mono[OF t1 1(1)] 1(2)], goal_cases)
        case (1 p3 st3 s3 N3 e)
        show ?case
          using yields_otree[OF made_retire[OF made_retire[OF made_trans[OF m2 1(1)], of b], of a] 1(2)] 1(3) p1 p2 by (auto simp: pl)
      qed
    qed
  qed
  have "nwp (Load (raw plr, Left) (\<lambda>lrl. Load (raw plr, Right) (\<lambda>lrr.
      bind (or_else (is_retired_spot lrl) (is_retired_spot lrr)) (\<lambda>b.
        if b then Ret (retired_node, st)
        else bind (mk_node st pll lrl lk lv) (\<lambda>(new_left, st).
       bind (mk_node st lrr pr k v) (\<lambda>(new_right, st).
       bind (mk_node st new_left new_right lrk lrv) (\<lambda>(res, st).
       Ret (res, retire_node (retire_node st plr) pl)))))))) ?Q s"
    by (rule links_nwp(1)[OF lr]) (use go yields_retired[OF made_refl, of retired_node] in simp_all)
  note copy = this
  show ?thesis
    unfolding double_right_def
  proof (rule deref_nwp[OF l], rule deref_nwp[OF lr], goal_cases)
    case 1
    from copy show ?case by (simp only: bonsai_node.simps)
  qed
qed

lemma mk_balanced_left_nwp:
  assumes l: "stree s pl l" and r: "stree s pr r" and h: "heavy (tsize (erase l)) (tsize (erase r))"
  shows "nwp (mk_balanced_left st pl pr k v) (\<lambda>(p, st'). yields s st (mset (addrs l) + mset (addrs r)) {#}
    (rotate_left (erase l) k v (erase r)) p st') s" (is "nwp _ ?Q s")
proof -
  have big: "2 < tsize (erase r)" using heavy_size[OF h] .
  then obtain a rl rk rv rr where R: "r = IBin a rl rk rv rr" by (cases r) auto
  have go: "nwp (bind (node_size prl) (\<lambda>sl. bind (node_size prr) (\<lambda>sr.
      if sl < sr then single_left st pl pr prl prr k v else double_left st pl pr prl prr k v))) ?Q s"
    if rl: "stree s prl rl" and rr: "stree s prr rr" for prl prr
  proof -
    have "nwp (if tsize (erase rl) < tsize (erase rr) then single_left st pl pr prl prr k v
      else double_left st pl pr prl prr k v) ?Q s"
    proof (cases "tsize (erase rl) < tsize (erase rr)")
      case True
      with single_left_nwp[OF l r[unfolded R] rl rr, of st k v] R show ?thesis by simp
    next
      case False
      then obtain b rll rlk rlv rlr where RL: "rl = IBin b rll rlk rlv rlr" using big R by (cases rl) auto
      from double_left_nwp[OF l r[unfolded R RL] rl[unfolded RL] rr, of st k v] False R RL show ?thesis by simp
    qed
    then show ?thesis unfolding nwp_bind by (intro node_size_nwp[OF rl] node_size_nwp[OF rr])
  qed
  show ?thesis
    unfolding mk_balanced_left_def
    by (rule links_nwp(1)[OF r[unfolded R]]) (use go yields_retired[OF made_refl, of retired_node] in simp_all)
qed

lemma mk_balanced_right_nwp:
  assumes l: "stree s pl l" and r: "stree s pr r" and h: "heavy (tsize (erase r)) (tsize (erase l))"
  shows "nwp (mk_balanced_right st pl pr k v) (\<lambda>(p, st'). yields s st (mset (addrs l) + mset (addrs r)) {#}
    (rotate_right (erase l) k v (erase r)) p st') s" (is "nwp _ ?Q s")
proof -
  have big: "2 < tsize (erase l)" using heavy_size[OF h] .
  then obtain a ll lk lv lr where L: "l = IBin a ll lk lv lr" by (cases l) auto
  have go: "nwp (bind (node_size plr) (\<lambda>sr. bind (node_size pll) (\<lambda>sl.
      if sr < sl then single_right st pl pr plr pll k v else double_right st pl pr plr pll k v))) ?Q s"
    if ll: "stree s pll ll" and lr: "stree s plr lr" for pll plr
  proof -
    have "nwp (if tsize (erase lr) < tsize (erase ll) then single_right st pl pr plr pll k v
      else double_right st pl pr plr pll k v) ?Q s"
    proof (cases "tsize (erase lr) < tsize (erase ll)")
      case True
      with single_right_nwp[OF l[unfolded L] r ll lr, of st k v] L show ?thesis by simp
    next
      case False
      then obtain b lrl lrk lrv lrr where LR: "lr = IBin b lrl lrk lrv lrr" using big L by (cases lr) auto
      from double_right_nwp[OF l[unfolded L LR] r lr[unfolded LR] ll, of st k v] False L LR show ?thesis by simp
    qed
    then show ?thesis unfolding nwp_bind by (intro node_size_nwp[OF lr] node_size_nwp[OF ll])
  qed
  show ?thesis
    unfolding mk_balanced_right_def
    by (rule links_nwp(2)[OF l[unfolded L]]) (use go yields_retired[OF made_refl, of retired_node] in simp_all)
qed

lemma balance_nwp:
  assumes l: "stree s pl l" and r: "stree s pr r"
  shows "nwp (if heavy (tsize (erase l)) (tsize (erase r)) then mk_balanced_left st pl pr k v
      else if heavy (tsize (erase r)) (tsize (erase l)) then mk_balanced_right st pl pr k v else mk_node st pl pr k v)
    (\<lambda>(p, st'). yields s st (mset (addrs l) + mset (addrs r)) {#} (balance (erase l) k v (erase r)) p st') s"
proof -
  let ?ls = "tsize (erase l)" and ?rs = "tsize (erase r)"
  consider (left) "heavy ?ls ?rs" | (right) "\<not> heavy ?ls ?rs" "heavy ?rs ?ls" | (none) "\<not> heavy ?ls ?rs" "\<not> heavy ?rs ?ls" by blast
  then show ?thesis
  proof cases
    case left
    with mk_balanced_left_nwp[OF l r left, of st k v] show ?thesis by (simp add: balance_def)
  next
    case right
    with mk_balanced_right_nwp[OF l r right(2), of st k v] show ?thesis by (simp add: balance_def)
  next
    case none
    have "nwp (mk_node st pl pr k v)
      (\<lambda>(p, st'). yields s st (mset (addrs l) + mset (addrs r)) {#} (balance (erase l) k v (erase r)) p st') s"
    proof (rule mk_node_step[OF stree_otree[OF l] stree_otree[OF r]], goal_cases)
      case (1 p st' s' N a)
      from yields_otree[OF 1(1,2)] 1(3) none show ?case by (simp add: balance_def)
    qed
    with none show ?thesis by simp
  qed
qed

lemma yields_retire:
  assumes "yields s st U E T p st' s'"
  shows "yields s st (add_mset c U) E T p (retire_node st' (Shared c 0)) s'"
proof -
  from assms obtain N R where m: "made s st s' st' N R" and
    y: "is_retired p \<or> (\<exists>t. stree s' p t \<and> erase t = T \<and> mset (addrs t) + mset R + E = U + mset N)" by (auto simp: yields_def)
  from made_retire[OF m, of c] y show ?thesis unfolding yields_def by (intro exI[of _ N] exI[of _ "R @ [c]"]) auto
qed

lemma mk_balanced_nwp:
  assumes c: "otree s pc (IBin c cl k v cr)" and l: "otree s pl l" and r: "otree s pr r"
  shows "nwp (mk_balanced st pc pl pr) (\<lambda>(p, st') s'.
      yields s st (add_mset c (mset (addrs l) + mset (addrs r))) {#} (balance (erase l) k v (erase r)) p st' s' \<and>
      (\<not> is_retired p \<longrightarrow> \<not> is_retired pc \<and> \<not> is_retired pl \<and> \<not> is_retired pr)) s" (is "nwp _ ?Q s")
  unfolding mk_balanced_def nwp_bind[of "or_else _ _"]
proof (rule spots3_nwp[OF c l r], goal_cases)
  case 1
  show ?case using yields_retired[OF made_refl, of retired_node] by simp
next
  case 2
  have pc: "pc = Shared c 0" using 2(1) by simp
  have lv: "\<not> is_retired pc" "\<not> is_retired pl" "\<not> is_retired pr" using 2 stree_live by blast+
  have "nwp (bind (if heavy (tsize (erase l)) (tsize (erase r)) then mk_balanced_left st pl pr k v
      else if heavy (tsize (erase r)) (tsize (erase l)) then mk_balanced_right st pl pr k v else mk_node st pl pr k v)
      (\<lambda>(res, st). Ret (res, retire_node st pc))) ?Q s"
    by (rule nwp_bind_mono[OF balance_nwp[OF 2(2,3)]]) (use lv in \<open>auto simp: pc intro: yields_retire\<close>)
  then have "nwp (bind (node_size pl) (\<lambda>l_size. bind (node_size pr) (\<lambda>r_size.
      bind (if heavy l_size r_size then mk_balanced_left st pl pr k v
        else if heavy r_size l_size then mk_balanced_right st pl pr k v else mk_node st pl pr k v)
        (\<lambda>(res, st). Ret (res, retire_node st pc))))) ?Q s"
    unfolding nwp_bind[of "node_size _"] by (intro node_size_nwp[OF 2(2)] node_size_nwp[OF 2(3)])
  then show ?case
    unfolding if_False
  proof (intro deref_nwp[OF 2(1)])
  qed (simp only: heavy_def bonsai_node.simps)
qed

section \<open>Insertion and removal\<close>

text \<open>What a routine delivers after a first part of it has made \<open>N\<close> and decided to replace \<open>R\<close>.\<close>

lemma yields_trans:
  assumes "made s st s1 st1 N R" "yields s1 st1 U {#} T p st2 s2"
    and "\<not> is_retired p \<Longrightarrow> U + mset R + E = U' + mset N \<and> T = T'"
  shows "yields s st U' E T' p st2 s2"
proof -
  from assms(2) obtain N' R' where m: "made s1 st1 s2 st2 N' R'" and
    y: "is_retired p \<or> (\<exists>t. stree s2 p t \<and> erase t = T \<and> mset (addrs t) + mset R' = U + mset N')" by (auto simp: yields_def)
  note m' = made_trans[OF assms(1) m]
  show ?thesis
  proof (cases "is_retired p")
    case True
    then show ?thesis by (rule yields_retired[OF m'])
  next
    case False
    then obtain t where t: "stree s2 p t" "erase t = T" "mset (addrs t) + mset R' = U + mset N'" using y by blast
    have "mset (addrs t) + mset (R @ R') + E = (U + mset R + E) + mset N'" using t(3) by (simp add: add.commute add.left_commute)
    also have "\<dots> = U' + mset (N @ N')" using assms(3)[OF False] by (simp add: add.assoc)
    finally show ?thesis using yieldsI[OF m' t(1)] t(2) assms(3)[OF False] by blast
  qed
qed

lemma yields_after_retire:
  assumes "yields s (retire_node st (Shared a 0)) U {#} T p st' s'"
  shows "yields s st (add_mset a U) {#} T p st' s'"
proof -
  have "made s st s (retire_node st (Shared a 0)) [] [a]" using made_retire[OF made_refl, of s st a] by simp
  from yields_trans[OF this assms, of "{#}" "add_mset a U"] show ?thesis by simp
qed

lemma yields_otree_mono: "yields s st U E T q st1 s1 \<Longrightarrow> stree s p t \<Longrightarrow> otree s1 p t"
  unfolding yields_def by (blast intro: otree_mono stree_otree)

lemma yields_obtain:
  assumes "yields s st U E T q st1 s1"
  obtains N R t where "made s st s1 st1 N R" "otree s1 q t"
    "\<not> is_retired q \<longrightarrow> erase t = T \<and> mset (addrs t) + mset R + E = U + mset N"
  using assms that unfolding yields_def otree_def by blast

text \<open>The pattern of the recursive routines: compute a subtree, then rebuild the node above it.\<close>

lemma rebuild_right_nwp:
  assumes y: "yields s st U E T q st1 s1" and c: "otree s1 pc (IBin c cl k v cr)" and l: "otree s1 pl l"
    and acc: "add_mset c (mset (addrs l) + U) + E' = U' + E"
  shows "nwp (mk_balanced st1 pc pl q) (\<lambda>(p, st2) s2. yields s st U' E' (balance (erase l) k v T) p st2 s2 \<and>
    s1 \<subseteq>\<^sub>m s2 \<and> (is_retired q \<longrightarrow> is_retired p) \<and> (is_retired pc \<longrightarrow> is_retired p)) s1"
proof -
  from y obtain N R t where t: "made s st s1 st1 N R" "otree s1 q t"
    "\<not> is_retired q \<longrightarrow> erase t = T \<and> mset (addrs t) + mset R + E = U + mset N" by (rule yields_obtain)
  show ?thesis
  proof (rule nwp_mono[OF mk_balanced_nwp[OF c l t(2)]], goal_cases)
    case (1 x s2)
    obtain p st2 where x: "x = (p, st2)" by fastforce
    have y: "yields s1 st1 (add_mset c (mset (addrs l) + mset (addrs t))) {#} (balance (erase l) k v (erase t)) p st2 s2"
      and r: "\<not> is_retired p \<Longrightarrow> \<not> is_retired pc \<and> \<not> is_retired q" using 1 x by auto
    have "yields s st U' E' (balance (erase l) k v T) p st2 s2"
    proof (rule yields_trans[OF t(1) y], goal_cases)
      case 1
      with r t(3) have T: "erase t = T" "mset (addrs t) + mset R + E = U + mset N" by blast+
      have "add_mset c (mset (addrs l) + mset (addrs t)) + mset R + E' + E =
          add_mset c (mset (addrs l)) + (mset (addrs t) + mset R + E) + E'" by (simp add: add.commute add.left_commute)
      also have "\<dots> = (add_mset c (mset (addrs l) + U) + E') + mset N" unfolding T(2) by (simp add: add.commute add.left_commute)
      also have "\<dots> = U' + mset N + E" unfolding acc by (simp add: add.commute add.left_commute)
      finally show ?case using T(1) by (simp add: add.assoc)
    qed
    with r y x show ?case by (auto simp: yields_def made_def)
  qed
qed

lemma rebuild_left_nwp:
  assumes y: "yields s st U E T q st1 s1" and c: "otree s1 pc (IBin c cl k v cr)" and r: "otree s1 pr r"
    and acc: "add_mset c (U + mset (addrs r)) + E' = U' + E"
  shows "nwp (mk_balanced st1 pc q pr) (\<lambda>(p, st2) s2. yields s st U' E' (balance T k v (erase r)) p st2 s2 \<and>
    s1 \<subseteq>\<^sub>m s2 \<and> (is_retired q \<longrightarrow> is_retired p) \<and> (is_retired pc \<longrightarrow> is_retired p)) s1"
proof -
  from y obtain N R t where t: "made s st s1 st1 N R" "otree s1 q t"
    "\<not> is_retired q \<longrightarrow> erase t = T \<and> mset (addrs t) + mset R + E = U + mset N" by (rule yields_obtain)
  show ?thesis
  proof (rule nwp_mono[OF mk_balanced_nwp[OF c t(2) r]], goal_cases)
    case (1 x s2)
    obtain p st2 where x: "x = (p, st2)" by fastforce
    have y: "yields s1 st1 (add_mset c (mset (addrs t) + mset (addrs r))) {#} (balance (erase t) k v (erase r)) p st2 s2"
      and rt: "\<not> is_retired p \<Longrightarrow> \<not> is_retired pc \<and> \<not> is_retired q" using 1 x by auto
    have "yields s st U' E' (balance T k v (erase r)) p st2 s2"
    proof (rule yields_trans[OF t(1) y], goal_cases)
      case 1
      with rt t(3) have T: "erase t = T" "mset (addrs t) + mset R + E = U + mset N" by blast+
      have "add_mset c (mset (addrs t) + mset (addrs r)) + mset R + E' + E =
          add_mset c (mset (addrs r)) + (mset (addrs t) + mset R + E) + E'" by (simp add: add.commute add.left_commute)
      also have "\<dots> = (add_mset c (U + mset (addrs r)) + E') + mset N" unfolding T(2) by (simp add: add.commute add.left_commute)
      also have "\<dots> = U' + mset N + E" unfolding acc by (simp add: add.commute add.left_commute)
      finally show ?case using T(1) by (simp add: add.assoc)
    qed
    with rt y x show ?case by (auto simp: yields_def made_def)
  qed
qed

text \<open>The reads every recursive routine makes at a node.\<close>

lemma enter_nwp:
  assumes "stree s p t" "nwp (f True) Q s" "nwp (f False) Q s"
  shows "nwp (bind (is_retired_spot p) f) Q s"
  unfolding nwp_bind using assms by (intro is_retired_spot_nwp[OF stree_otree]) blast+

lemma node_nwp:
  assumes t: "stree s p (IBin a l k v r)" and ab: "\<And>nd pl pr. nwp (f nd pl pr True) Q s"
    and go: "\<And>pl pr. stree s pl l \<Longrightarrow> stree s pr r \<Longrightarrow>
      nwp (f \<lparr>bkey = k, bvalue = v, bsize = tsize (erase l) + tsize (erase r) + 1\<rparr> pl pr False) Q s"
  shows "nwp (Deref p (\<lambda>node_ref. Load (raw p, Left) (\<lambda>left. Load (raw p, Right) (\<lambda>right.
      bind (or_else (is_retired_spot left) (is_retired_spot right)) (f node_ref left right))))) Q s"
  by (rule deref_nwp[OF t], rule links_nwp(1)[OF t]) (use ab go in blast)+

text \<open>A new leaf is never refused.\<close>

lemma mk_leaf_nwp:
  assumes "\<And>a s' st'. made s st s' st' [a] [] \<Longrightarrow> stree s' (Shared a 0) (IBin a ITip k v ITip) \<Longrightarrow> Q (Shared a 0, st') s'"
  shows "nwp (mk_node st null null k v) Q s"
proof -
  have "Q (Shared a 0, add_new_node st (Shared a 0)) (s(a \<mapsto> (\<lparr>bkey = k, bvalue = v, bsize = 1\<rparr>, null, null)))"
    if "a \<noteq> 0" "s a = None" for a
    by (rule assms) (use that in \<open>auto simp: made_def add_new_node_def map_le_def\<close>)
  then show ?thesis by (simp add: mk_node_def is_retired_spot_def node_size_def or_else_def)
qed

definition inserts ::
  "'k::linorder \<Rightarrow> 'v \<Rightarrow> ('k, 'v) itree \<Rightarrow> ('k, 'v) snapshot \<Rightarrow> bonsai_state \<Rightarrow> (shared \<times> bool) \<times> bonsai_state \<Rightarrow>
    ('k, 'v) snapshot \<Rightarrow> bool" where
  "inserts k v t s st = (\<lambda>((q, inserted), st') s'. (is_retired q \<or> inserted = (tlookup (erase t) k = None)) \<and>
     yields s st (mset (addrs t)) {#} (tinsert k v (erase t)) q st' s')"

lemma inserts_retired: "inserts k v t s st ((retired_node, b), st) s"
  by (simp add: inserts_def yields_retired[OF made_refl])

lemma do_insert_nwp: "stree s p t \<Longrightarrow> nwp (do_insert n st p k v) (inserts k v t s st) s"
proof (induction t arbitrary: p n)
  case ITip
  show ?case
  proof (cases n)
    case (Suc n')
    have "nwp (bind (mk_node st null null k v) (\<lambda>(p, self). Ret ((p, True), self))) (inserts k v ITip s st) s"
      unfolding nwp_bind
    proof (rule mk_leaf_nwp, goal_cases)
      case (1 a s' st')
      from yieldsI[OF 1] show ?case by (simp add: inserts_def)
    qed
    then show ?thesis
      unfolding Suc do_insert.simps using ITip.prems by (intro enter_nwp[OF ITip.prems]) (simp_all add: inserts_retired)
  qed simp
next
  case (IBin a l k' v' r)
  let ?t = "IBin a l k' v' r"
  show ?case
  proof (cases n)
    case (Suc n')
    have p: "is_null p = False" using IBin.prems by auto
    have less: "nwp (bind (do_insert n' st pr k v) (\<lambda>((new_right, inserted), self).
         bind (mk_balanced self p pl new_right) (\<lambda>(p, self). Ret ((p, inserted), self)))) (inserts k v ?t s st) s"
      if "k' < k" and l: "stree s pl l" and r: "stree s pr r" for pl pr
    proof (rule nwp_bind_mono[OF IBin.IH(2)[OF r]], goal_cases)
      case (1 x s1)
      obtain q b st1 where x: "x = ((q, b), st1)" by (metis prod.exhaust)
      with 1 have y: "yields s st (mset (addrs r)) {#} (tinsert k v (erase r)) q st1 s1" "is_retired q \<or> b = (tlookup (erase r) k = None)"
        by (auto simp: inserts_def)
      note m = yields_otree_mono[OF y(1) IBin.prems] yields_otree_mono[OF y(1) l]
      show ?case
        unfolding x prod.case
        by (rule nwp_bind_mono[OF rebuild_right_nwp[OF y(1) m, of "{#}" "mset (addrs ?t)"]])
          (use y(2) \<open>k' < k\<close> in \<open>auto simp: inserts_def\<close>)
    qed
    have greater: "nwp (bind (do_insert n' st pl k v) (\<lambda>((new_left, inserted), self).
         bind (mk_balanced self p new_left pr) (\<lambda>(p, self). Ret ((p, inserted), self)))) (inserts k v ?t s st) s"
      if "k < k'" and l: "stree s pl l" and r: "stree s pr r" for pl pr
    proof (rule nwp_bind_mono[OF IBin.IH(1)[OF l]], goal_cases)
      case (1 x s1)
      obtain q b st1 where x: "x = ((q, b), st1)" by (metis prod.exhaust)
      with 1 have y: "yields s st (mset (addrs l)) {#} (tinsert k v (erase l)) q st1 s1" "is_retired q \<or> b = (tlookup (erase l) k = None)"
        by (auto simp: inserts_def)
      note m = yields_otree_mono[OF y(1) IBin.prems] yields_otree_mono[OF y(1) r]
      show ?case
        unfolding x prod.case
        by (rule nwp_bind_mono[OF rebuild_left_nwp[OF y(1) m, of "{#}" "mset (addrs ?t)"]])
          (use y(2) \<open>k < k'\<close> in \<open>auto simp: inserts_def\<close>)
    qed
    have equal: "inserts k v ?t s st ((p, False), st) s" if "k' = k"
      using that yieldsI[OF made_refl IBin.prems] by (simp add: inserts_def)
    show ?thesis
      unfolding Suc do_insert.simps
    proof (rule enter_nwp[OF IBin.prems], goal_cases)
      case 2
      show ?case
        unfolding if_False p
        by (rule node_nwp[OF IBin.prems]) (use less greater equal in \<open>auto simp: inserts_retired split: ordering.splits\<close>)
    qed (simp add: inserts_retired)
  qed simp
qed

text \<open>Pulling out the smallest or largest node: it comes back as a new node of its own.\<close>

definition pulls ::
  "('k, 'v) itree \<Rightarrow> ('k, 'v) btree \<times> 'k \<times> 'v \<Rightarrow> ('k, 'v) snapshot \<Rightarrow> bonsai_state \<Rightarrow>
    (shared \<times> shared) \<times> bonsai_state \<Rightarrow> ('k, 'v) snapshot \<Rightarrow> bool" where
  "pulls t res s st = (\<lambda>((q, succ), st') s'. \<exists>a. otree s' succ (IBin a ITip (fst (snd res)) (snd (snd res)) ITip) \<and>
     yields s st (mset (addrs t)) {#a#} (fst res) q st' s')"

lemma pullsI:
  "otree s' succ (IBin a ITip k v ITip) \<Longrightarrow> yields s st (mset (addrs t)) {#a#} T q st' s' \<Longrightarrow>
    pulls t (T, k, v) s st ((q, succ), st') s'"
  by (auto simp: pulls_def)

lemma pulls_retired: "pulls t res s st ((retired_node, retired_node), st) s"
  by (simp add: pulls_def yields_retired[OF made_refl])

lemma pull_end_nwp:
  assumes t: "stree s p (IBin a l k v r)" and q: "stree s q u"
    and u: "mset (addrs (IBin a l k v r)) = add_mset a (mset (addrs u))"
  shows "nwp (bind (mk_node st null null k v) (\<lambda>(succ, self). Ret ((q, succ), retire_node self p)))
    (pulls (IBin a l k v r) (erase u, k, v) s st) s"
  unfolding nwp_bind
proof (rule mk_leaf_nwp, goal_cases)
  case (1 b s' st')
  have p: "p = Shared a 0" using t by simp
  have "yields s st (mset (addrs (IBin a l k v r))) {#b#} (erase u) q (retire_node st' p) s'"
    unfolding p u by (rule yieldsI[OF made_retire[OF 1(1)] stree_mono[OF q made_mono[OF 1(1)]] refl]) simp
  from pullsI[OF stree_otree[OF 1(2)] this] show ?case by simp
qed

lemma pull_rightmost_nwp:
  "stree s p (IBin a l k v r) \<Longrightarrow> nwp (pull_rightmost n st p) (pulls (IBin a l k v r) (pull_max (erase l) k v (erase r)) s st) s"
proof (induction r arbitrary: p n a l k v)
  case ITip
  show ?case
  proof (cases n)
    case (Suc n')
    show ?thesis
      unfolding Suc pull_rightmost.simps
    proof (rule enter_nwp[OF ITip], goal_cases)
      case 2
      show ?case
        unfolding if_False
        by (rule node_nwp[OF ITip]) (use pull_end_nwp[OF ITip] in \<open>simp_all add: pulls_retired\<close>)
    qed (simp add: pulls_retired)
  qed simp
next
  case (IBin b rl rk rv rr)
  let ?r = "IBin b rl rk rv rr"
  show ?case
  proof (cases n)
    case (Suc n')
    have body: "nwp (bind (pull_rightmost n' st pr) (\<lambda>((new_right, succ), self).
        bind (mk_balanced self p pl new_right) (\<lambda>(p, self). Ret ((p, succ), self))))
        (pulls (IBin a l k v ?r) (pull_max (erase l) k v (erase ?r)) s st) s" if l: "stree s pl l" and r: "stree s pr ?r" for pl pr
    proof (rule nwp_bind_mono[OF IBin.IH(2)[OF r]], goal_cases)
      case (1 x s1)
      obtain q y st1 where x: "x = ((q, y), st1)" by (metis prod.exhaust)
      obtain T k2 v2 where pm: "pull_max (erase rl) rk rv (erase rr) = (T, k2, v2)" by (metis prod_cases3)
      from 1 x pm obtain c where c: "otree s1 y (IBin c ITip k2 v2 ITip)" "yields s st (mset (addrs ?r)) {#c#} T q st1 s1"
        by (auto simp: pulls_def)
      note m = yields_otree_mono[OF c(2) IBin.prems] yields_otree_mono[OF c(2) l]
      show ?case
        unfolding x prod.case
      proof (rule nwp_bind_mono[OF rebuild_right_nwp[OF c(2) m, of "{#c#}" "mset (addrs (IBin a l k v ?r))"]], goal_cases)
        case (2 z s2)
        then obtain p2 st2 where z: "z = (p2, st2)" and y2: "s1 \<subseteq>\<^sub>m s2"
          "yields s st (mset (addrs (IBin a l k v ?r))) {#c#} (balance (erase l) k v T) p2 st2 s2" by auto
        from pullsI[OF otree_le[OF c(1) y2(1)] y2(2)] pm show ?case by (simp add: z)
      qed simp
    qed
    show ?thesis
      unfolding Suc pull_rightmost.simps
    proof (rule enter_nwp[OF IBin.prems], goal_cases)
      case 2
      show ?case
        unfolding if_False
      proof (rule node_nwp[OF IBin.prems], goal_cases)
        case (2 pl pr)
        moreover have "\<not> is_null pr" using 2(2) by auto
        ultimately show ?case using body by simp
      qed (simp add: pulls_retired)
    qed (simp add: pulls_retired)
  qed simp
qed

lemma pull_leftmost_nwp:
  "stree s p (IBin a l k v r) \<Longrightarrow> nwp (pull_leftmost n st p) (pulls (IBin a l k v r) (pull_min (erase l) k v (erase r)) s st) s"
proof (induction l arbitrary: p n a r k v)
  case ITip
  show ?case
  proof (cases n)
    case (Suc n')
    show ?thesis
      unfolding Suc pull_leftmost.simps
    proof (rule enter_nwp[OF ITip], goal_cases)
      case 2
      show ?case
        unfolding if_False
        by (rule node_nwp[OF ITip]) (use pull_end_nwp[OF ITip] in \<open>simp_all add: pulls_retired\<close>)
    qed (simp add: pulls_retired)
  qed simp
next
  case (IBin b ll lk lv lr)
  let ?l = "IBin b ll lk lv lr"
  show ?case
  proof (cases n)
    case (Suc n')
    have body: "nwp (bind (pull_leftmost n' st pl) (\<lambda>((new_left, succ), self).
        bind (mk_balanced self p new_left pr) (\<lambda>(p, self). Ret ((p, succ), self))))
        (pulls (IBin a ?l k v r) (pull_min (erase ?l) k v (erase r)) s st) s" if l: "stree s pl ?l" and r: "stree s pr r" for pl pr
    proof (rule nwp_bind_mono[OF IBin.IH(1)[OF l]], goal_cases)
      case (1 x s1)
      obtain q y st1 where x: "x = ((q, y), st1)" by (metis prod.exhaust)
      obtain T k2 v2 where pm: "pull_min (erase ll) lk lv (erase lr) = (T, k2, v2)" by (metis prod_cases3)
      from 1 x pm obtain c where c: "otree s1 y (IBin c ITip k2 v2 ITip)" "yields s st (mset (addrs ?l)) {#c#} T q st1 s1"
        by (auto simp: pulls_def)
      note m = yields_otree_mono[OF c(2) IBin.prems] yields_otree_mono[OF c(2) r]
      show ?case
        unfolding x prod.case
      proof (rule nwp_bind_mono[OF rebuild_left_nwp[OF c(2) m, of "{#c#}" "mset (addrs (IBin a ?l k v r))"]], goal_cases)
        case (2 z s2)
        then obtain p2 st2 where z: "z = (p2, st2)" and y2: "s1 \<subseteq>\<^sub>m s2"
          "yields s st (mset (addrs (IBin a ?l k v r))) {#c#} (balance T k v (erase r)) p2 st2 s2" by auto
        from pullsI[OF otree_le[OF c(1) y2(1)] y2(2)] pm show ?case by (simp add: z)
      qed simp
    qed
    show ?thesis
      unfolding Suc pull_leftmost.simps
    proof (rule enter_nwp[OF IBin.prems], goal_cases)
      case 2
      show ?case
        unfolding if_False
      proof (rule node_nwp[OF IBin.prems], goal_cases)
        case (2 pl pr)
        moreover have "\<not> is_null pl" using 2(1) by auto
        ultimately show ?case using body by simp
      qed (simp add: pulls_retired)
    qed (simp add: pulls_retired)
  qed simp
qed

definition removes ::
  "'k::linorder \<Rightarrow> ('k, 'v) itree \<Rightarrow> ('k, 'v) snapshot \<Rightarrow> bonsai_state \<Rightarrow> (shared \<times> 'v option) \<times> bonsai_state \<Rightarrow>
    ('k, 'v) snapshot \<Rightarrow> bool" where
  "removes k t s st = (\<lambda>((q, y), st') s'. (is_retired q \<or> y = tlookup (erase t) k) \<and>
     yields s st (mset (addrs t)) {#} (tremove k (erase t)) q st' s')"

lemma removes_retired: "removes k t s st ((retired_node, y), st) s"
  by (simp add: removes_def yields_retired[OF made_refl])

text \<open>Removing the root of a subtree: its neighbour in the order takes its place.\<close>

lemma remove_root_nwp:
  assumes t: "stree s p (IBin a l k v r)" and l: "stree s pl l" and r: "stree s pr r"
  shows "nwp (if tsize (erase l) + tsize (erase r) + 1 = 1 then Ret ((null, Some v), retire_node st p)
     else if \<not> is_null pl then
       bind (pull_rightmost n (retire_node st p) pl) (\<lambda>((new_left, succ), self).
       bind (mk_balanced self succ new_left pr) (\<lambda>(p, self). Ret ((p, Some v), self)))
     else
       bind (pull_leftmost n (retire_node st p) pr) (\<lambda>((new_right, succ), self).
       bind (mk_balanced self succ pl new_right) (\<lambda>(p, self). Ret ((p, Some v), self))))
   (removes k (IBin a l k v r) s st) s"
proof -
  have p: "p = Shared a 0" using t by simp
  have fin: "removes k (IBin a l k v r) s st ((q, Some v), st') s'"
    if "yields s (retire_node st p) (mset (addrs l) + mset (addrs r)) {#} (tjoin (erase l) (erase r)) q st' s'" for q st' s'
    using yields_after_retire[OF that[unfolded p]] by (simp add: removes_def)
  consider (leaf) "l = ITip" "r = ITip" | (left) b ll lk lv lr where "l = IBin b ll lk lv lr"
    | (right) b rl rk rv rr where "l = ITip" "r = IBin b rl rk rv rr"
    by (cases l; cases r) auto
  then show ?thesis
  proof cases
    case leaf
    have "yields s (retire_node st p) {#} {#} Tip null (retire_node st p) s" by (rule yieldsI[OF made_refl, where t = ITip]) simp_all
    with fin leaf show ?thesis by (simp add: tjoin_def)
  next
    case left
    obtain T k2 v2 where pm: "pull_max (erase ll) lk lv (erase lr) = (T, k2, v2)" by (metis prod_cases3)
    have tj: "tjoin (erase l) (erase r) = balance T k2 v2 (erase r)" using left pm by (simp add: tjoin_def)
    have "nwp (bind (pull_rightmost n (retire_node st p) pl) (\<lambda>((new_left, succ), self).
       bind (mk_balanced self succ new_left pr) (\<lambda>(p, self). Ret ((p, Some v), self)))) (removes k (IBin a l k v r) s st) s"
    proof (rule nwp_bind_mono[OF pull_rightmost_nwp[OF l[unfolded left]]], goal_cases)
      case (1 x s1)
      obtain q y st1 where x: "x = ((q, y), st1)" by (metis prod.exhaust)
      from 1 x pm left obtain c where c: "otree s1 y (IBin c ITip k2 v2 ITip)"
        "yields s (retire_node st p) (mset (addrs l)) {#c#} T q st1 s1" by (auto simp: pulls_def)
      show ?case
        unfolding x prod.case
        by (rule nwp_bind_mono[OF rebuild_left_nwp[OF c(2,1) yields_otree_mono[OF c(2) r], of "{#}" "mset (addrs l) + mset (addrs r)"]])
          (use tj in \<open>auto intro!: fin\<close>)
    qed
    moreover have "\<not> is_null pl" using l left by auto
    ultimately show ?thesis using left by simp
  next
    case right
    obtain T k2 v2 where pm: "pull_min (erase rl) rk rv (erase rr) = (T, k2, v2)" by (metis prod_cases3)
    have tj: "tjoin (erase l) (erase r) = balance (erase l) k2 v2 T" using right pm by (simp add: tjoin_def)
    have "nwp (bind (pull_leftmost n (retire_node st p) pr) (\<lambda>((new_right, succ), self).
       bind (mk_balanced self succ pl new_right) (\<lambda>(p, self). Ret ((p, Some v), self)))) (removes k (IBin a l k v r) s st) s"
    proof (rule nwp_bind_mono[OF pull_leftmost_nwp[OF r[unfolded right]]], goal_cases)
      case (1 x s1)
      obtain q y st1 where x: "x = ((q, y), st1)" by (metis prod.exhaust)
      from 1 x pm right obtain c where c: "otree s1 y (IBin c ITip k2 v2 ITip)"
        "yields s (retire_node st p) (mset (addrs r)) {#c#} T q st1 s1" by (auto simp: pulls_def)
      show ?case
        unfolding x prod.case
        by (rule nwp_bind_mono[OF rebuild_right_nwp[OF c(2,1) yields_otree_mono[OF c(2) l], of "{#}" "mset (addrs l) + mset (addrs r)"]])
          (use tj in \<open>auto intro!: fin\<close>)
    qed
    moreover have "is_null pl" using l right by auto
    ultimately show ?thesis using right by simp
  qed
qed

lemma do_remove_nwp: "stree s p t \<Longrightarrow> nwp (do_remove n st p k) (removes k t s st) s"
proof (induction t arbitrary: p n)
  case ITip
  show ?case
  proof (cases n)
    case (Suc n')
    have "yields s st {#} {#} Tip null st s" by (rule yieldsI[OF made_refl, where t = ITip]) simp_all
    then show ?thesis
      unfolding Suc do_remove.simps using ITip.prems
      by (intro enter_nwp[OF ITip.prems]) (simp_all add: removes_retired, simp add: removes_def)
  qed simp
next
  case (IBin a l k' v' r)
  let ?t = "IBin a l k' v' r"
  show ?case
  proof (cases n)
    case (Suc n')
    have p: "is_null p = False" using IBin.prems by auto
    have less: "nwp (bind (do_remove n' st pr k) (\<lambda>((new_right, y), self).
         bind (mk_balanced self p pl new_right) (\<lambda>(p, self). Ret ((p, y), self)))) (removes k ?t s st) s"
      if "k' < k" and l: "stree s pl l" and r: "stree s pr r" for pl pr
    proof (rule nwp_bind_mono[OF IBin.IH(2)[OF r]], goal_cases)
      case (1 x s1)
      obtain q b st1 where x: "x = ((q, b), st1)" by (metis prod.exhaust)
      with 1 have y: "yields s st (mset (addrs r)) {#} (tremove k (erase r)) q st1 s1" "is_retired q \<or> b = tlookup (erase r) k"
        by (auto simp: removes_def)
      note m = yields_otree_mono[OF y(1) IBin.prems] yields_otree_mono[OF y(1) l]
      show ?case
        unfolding x prod.case
        by (rule nwp_bind_mono[OF rebuild_right_nwp[OF y(1) m, of "{#}" "mset (addrs ?t)"]])
          (use y(2) \<open>k' < k\<close> in \<open>auto simp: removes_def\<close>)
    qed
    have greater: "nwp (bind (do_remove n' st pl k) (\<lambda>((new_left, y), self).
         bind (mk_balanced self p new_left pr) (\<lambda>(p, self). Ret ((p, y), self)))) (removes k ?t s st) s"
      if "k < k'" and l: "stree s pl l" and r: "stree s pr r" for pl pr
    proof (rule nwp_bind_mono[OF IBin.IH(1)[OF l]], goal_cases)
      case (1 x s1)
      obtain q b st1 where x: "x = ((q, b), st1)" by (metis prod.exhaust)
      with 1 have y: "yields s st (mset (addrs l)) {#} (tremove k (erase l)) q st1 s1" "is_retired q \<or> b = tlookup (erase l) k"
        by (auto simp: removes_def)
      note m = yields_otree_mono[OF y(1) IBin.prems] yields_otree_mono[OF y(1) r]
      show ?case
        unfolding x prod.case
        by (rule nwp_bind_mono[OF rebuild_left_nwp[OF y(1) m, of "{#}" "mset (addrs ?t)"]])
          (use y(2) \<open>k < k'\<close> in \<open>auto simp: removes_def\<close>)
    qed
    show ?thesis
      unfolding Suc do_remove.simps
    proof (rule enter_nwp[OF IBin.prems], goal_cases)
      case 2
      show ?case
        unfolding if_False p
      proof (rule node_nwp[OF IBin.prems], goal_cases)
        case (2 pl pr)
        with less greater remove_root_nwp[OF IBin.prems, of pl pr st n'] show ?case
          by (cases k' k rule: cmp_cases) (simp_all only: if_False bonsai_node.simps ordering.case Let_def)
      qed (simp add: removes_retired)
    qed (simp add: removes_retired)
  qed simp
qed

section \<open>Looking up\<close>

text \<open>A search ends at a retired pointer, or where the key is or would be.\<close>

definition finds :: "('k, 'v) snapshot \<Rightarrow> 'v option \<Rightarrow> shared \<Rightarrow> ('k, 'v) snapshot \<Rightarrow> bool" where
  "finds s x q s' \<longleftrightarrow> s' = s \<and> (\<exists>u. otree s q u \<and> x = (case u of ITip \<Rightarrow> None | IBin _ _ _ v _ \<Rightarrow> Some v))"

lemma finds_retired: "finds s x retired_node s"
proof -
  have "\<exists>u. x = (case u of ITip \<Rightarrow> None | IBin _ _ _ v _ \<Rightarrow> Some v)" by (cases x) (metis itree.case)+
  then show ?thesis by (simp add: finds_def)
qed

lemma bonsai_search_nwp: "stree s p t \<Longrightarrow> nwp (bonsai_search n p k) (finds s (tlookup (erase t) k)) s"
proof (induction t arbitrary: p n)
  case ITip
  then show ?case by (cases n) (auto simp: finds_def intro!: exI[of _ ITip] stree_otree)
next
  case (IBin a l k' v' r)
  show ?case
  proof (cases n)
    case (Suc n')
    let ?Q = "finds s (tlookup (erase (IBin a l k' v' r)) k)"
    from IBin.prems obtain pl pr where at: "p = Shared a 0" "a \<noteq> 0" "stree s pl l" "stree s pr r"
      "s a = Some (\<lparr>bkey = k', bvalue = v', bsize = tsize (erase l) + tsize (erase r) + 1\<rparr>, pl, pr)" by auto
    have ret: "nwp (bonsai_search n' retired_node k) (finds s x) s" for x by (cases n') (simp_all add: finds_retired)
    have go: "nwp (Load (raw p, Left) (\<lambda>node. bonsai_search n' node k)) (finds s (tlookup (erase l) k)) s"
      "nwp (Load (raw p, Right) (\<lambda>node. bonsai_search n' node k)) (finds s (tlookup (erase r) k)) s"
      using IBin.IH(1)[OF at(3)] IBin.IH(2)[OF at(4)] ret at by (simp_all add: link_def)
    have here: "finds s (Some v') p s" using stree_otree[OF IBin.prems] by (auto simp: finds_def intro!: exI[of _ "IBin a l k' v' r"])
    have "nwp (case cmp k k' of Equal \<Rightarrow> Ret p | Less \<Rightarrow> Load (raw p, Left) (\<lambda>node. bonsai_search n' node k)
        | Greater \<Rightarrow> Load (raw p, Right) (\<lambda>node. bonsai_search n' node k)) ?Q s"
      using go here by (cases k k' rule: cmp_cases) (simp_all only: ordering.case, auto)
    with at show ?thesis unfolding at(1) by (simp add: Suc del: tlookup.simps erase.simps)
  qed simp
qed

end
