(* ===== verification/Bonsai_Moves.thy ===== *)
theory Bonsai_Moves
  imports Owned_Nodes Bonsai_Rounds
begin

text \<open>
  The tree of \<^verbatim>\<open>src/src/ebr/bonsai_tree.rs\<close> under any number of threads: what it keeps when threads build copies,
  publish them at the root, overwrite the links of replaced nodes and retire them.
\<close>

section \<open>The tree of a memory\<close>

type_synonym ('k, 'v) bworld = "(bonsai_field, ('k, 'v) bonsai_node, 'k, 'v, ghost) world"

lemma tree_at_unique: "tree_at m p t \<Longrightarrow> tree_at m p u \<Longrightarrow> t = u"
proof (induction t arbitrary: p u)
  case ITip
  then show ?case by (cases u) (auto simp: null_def)
next
  case (IBin a l k v r)
  then show ?case by (cases u) (auto simp: null_def)
qed

definition bonsai_tree :: "addr \<Rightarrow> ('k, 'v) bonsai_mem \<Rightarrow> ('k, 'v) itree" where
  "bonsai_tree self m = (THE t. tree_at m (cell m (self, Root)) t)"

definition bonsai_map :: "addr \<Rightarrow> ('k, 'v) bonsai_mem \<Rightarrow> 'k \<rightharpoonup> 'v" where
  "bonsai_map self m = tmap (erase (bonsai_tree self m))"

lemma bonsai_map: "bonsai_inv m self t \<Longrightarrow> bonsai_map self m = tmap (erase t)"
  unfolding bonsai_map_def bonsai_tree_def bonsai_inv_def by (metis the_equality tree_at_unique)

lemma bonsai_inv_cong:
  assumes "bonsai_inv m self t" "statics m' = statics m" "garbage_ok m'" "cell m' (self, Root) = cell m (self, Root)"
    and "\<And>a. a \<in> set (addrs t) \<Longrightarrow> obj m' a = obj m a \<and> cell m' (a, Left) = cell m (a, Left) \<and>
      cell m' (a, Right) = cell m (a, Right) \<and> a \<notin> set (garbage m')"
  shows "bonsai_inv m' self t"
  using assms tree_at_cong[of m "cell m (self, Root)" t m'] by (auto simp: bonsai_inv_def)

lemma bonsai_invD:
  assumes "bonsai_inv m self t"
  shows "tree_at m (cell m (self, Root)) t" "distinct (addrs t)" "self \<in> statics m" "garbage_ok m" "search_tree (erase t)"
    "live m self" "a \<in> set (addrs t) \<Longrightarrow> a \<noteq> 0 \<and> obj m a \<noteq> None \<and> a \<notin> statics m \<and> a \<notin> set (garbage m)"
  using assms tree_at_addr[of m "cell m (self, Root)" t a] by (auto simp: bonsai_inv_def live_def)

section \<open>The invariant\<close>

text \<open>There is a search tree at the root, and every other node is held by a thread or waits for destruction.\<close>

definition b_ok ::
  "addr \<Rightarrow> (tid \<Rightarrow> nat option) \<Rightarrow> ('k::linorder, 'v) bonsai_mem \<Rightarrow> ghost \<Rightarrow> ('k, 'v) itree \<Rightarrow> bool" where
  "b_ok self P m g t \<longleftrightarrow> bonsai_inv m self t \<and> owns m g (set (addrs t)) \<and> (\<forall>u n. P u = Some n \<longrightarrow> n \<le> length (retired m))"

definition b_inv :: "addr \<Rightarrow> ('k::linorder, 'v) bworld \<Rightarrow> bool" where
  "b_inv self w \<longleftrightarrow> (\<exists>t. b_ok self (w_pins w) (w_mem w) (w_ghost w) t)"

definition b_idle :: "tid \<Rightarrow> ('k, 'v) bworld \<Rightarrow> bool" where
  "b_idle t w \<longleftrightarrow> held (w_ghost w) t = {}"

lemma b_okD:
  assumes "b_ok self P m g t"
  shows "bonsai_inv m self t" "owns m g (set (addrs t))" "P u = Some n \<Longrightarrow> n \<le> length (retired m)"
    "bonsai_map self m = tmap (erase t)"
  using assms bonsai_map by (auto simp: b_ok_def)

text \<open>
  What the others do not do to thread \<open>u\<close>: they leave the nodes it holds alone, and every node it may look at stays such a
  node, with its key, value and size, and its links stay or are overwritten by \<^verbatim>\<open>Node::retired_node()\<close>.
\<close>

definition b_harmless ::
  "tid \<Rightarrow> nat option \<Rightarrow> ('k, 'v) bonsai_mem \<Rightarrow> ghost \<Rightarrow> ('k, 'v) bonsai_mem \<Rightarrow> ghost \<Rightarrow> bool" where
  "b_harmless u pn m g m' g' \<longleftrightarrow> priv g' u = priv g u \<and> pend g' u = pend g u \<and>
     (\<forall>a\<in>held g u. obj m' a = obj m a \<and> (\<forall>f. f \<noteq> Root \<longrightarrow> cell m' (a, f) = cell m (a, f))) \<and>
     (\<forall>n. pn = Some n \<longrightarrow> keeps n m g m' g' \<and>
        (\<forall>a f. protected n m g a \<longrightarrow> f \<noteq> Root \<longrightarrow> cell m' (a, f) = cell m (a, f) \<or> cell m' (a, f) = retired_node))"

lemma b_harmless_refl [simp]: "b_harmless u pn m g m g"
  by (simp add: b_harmless_def)

lemma b_harmless_trans:
  assumes "b_harmless u pn m g m1 g1" "b_harmless u pn m1 g1 m2 g2"
  shows "b_harmless u pn m g m2 g2"
proof -
  have "cell m2 (a, f) = cell m (a, f) \<or> cell m2 (a, f) = retired_node" if "pn = Some n" "protected n m g a" "f \<noteq> Root" for n a f
  proof -
    have "protected n m1 g1 a" "cell m1 (a, f) = cell m (a, f) \<or> cell m1 (a, f) = retired_node"
      using assms(1) that by (auto simp: b_harmless_def keeps_def)
    moreover from this(1) have "cell m2 (a, f) = cell m1 (a, f) \<or> cell m2 (a, f) = retired_node"
      using assms(2) that by (auto simp: b_harmless_def)
    ultimately show ?thesis by auto
  qed
  moreover have "obj m2 a = obj m a \<and> (\<forall>f. f \<noteq> Root \<longrightarrow> cell m2 (a, f) = cell m (a, f))" if "a \<in> held g u" for a
    using assms that by (simp add: b_harmless_def held_def)
  moreover have "keeps n m g m2 g2" if "pn = Some n" for n using assms that keeps_trans by (auto simp: b_harmless_def)
  ultimately show ?thesis using assms by (simp add: b_harmless_def)
qed

text \<open>A step that changes no link.\<close>

lemma b_harmless_cells:
  assumes "priv g' u = priv g u" "pend g' u = pend g u" "\<And>a. a \<in> held g u \<Longrightarrow> obj m' a = obj m a"
    and "\<And>n. pn = Some n \<Longrightarrow> keeps n m g m' g'" "\<And>a f. obj m a \<noteq> None \<Longrightarrow> f \<noteq> Root \<Longrightarrow> cell m' (a, f) = cell m (a, f)"
    and "\<And>a. a \<in> held g u \<Longrightarrow> obj m a \<noteq> None"
  shows "b_harmless u pn m g m' g'"
  using assms by (auto simp: b_harmless_def protected_def)

section \<open>Moves\<close>

lemma b_reclaim:
  assumes ok: "b_ok self P m g t" and sp: "spares S P' m"
  shows "b_ok self P (reclaim S m) g t" "P' v = pn \<Longrightarrow> b_harmless u pn m g (reclaim S m) g"
proof -
  note d = b_okD[OF ok] and i = bonsai_invD[OF b_okD(1)[OF ok]]
  have "bonsai_inv (reclaim S m) self t"
    by (rule bonsai_inv_cong[OF d(1)]) (use i(4,7) in \<open>auto simp: restrict_map_def intro: garbage_ok_reclaim\<close>)
  then show "b_ok self P (reclaim S m) g t" using owns_reclaim[OF d(2)] d(3) by (auto simp: b_ok_def)
  show "b_harmless u pn m g (reclaim S m) g" if "P' v = pn"
    by (rule b_harmless_cells) (use keeps_reclaim[OF sp] that ownsD(1)[OF d(2)] in \<open>auto simp: restrict_map_def\<close>)
qed

lemma b_alloc:
  assumes ok: "b_ok self P m g t" and a: "fresh m a" and g': "g' = g\<lparr>priv := (priv g)(v := insert a (priv g v))\<rparr>"
  shows "b_ok self P (alloc a x fs m) g' t" "u \<noteq> v \<Longrightarrow> b_harmless u pn m g (alloc a x fs m) g'"
proof -
  note d = b_okD[OF ok] and i = bonsai_invD[OF b_okD(1)[OF ok]]
  have n: "a \<notin> set (addrs t)" "a \<noteq> self" "a \<notin> set (garbage m)" using a i(3) i(7)[of a] garbage_ok_fresh[OF i(4) a] by (auto simp: fresh_def)
  have "bonsai_inv (alloc a x fs m) self t"
    by (rule bonsai_inv_cong[OF d(1)]) (use n i(4,7) in \<open>auto intro: garbage_ok_alloc\<close>)
  then show "b_ok self P (alloc a x fs m) g' t" using owns_alloc[OF d(2) a n(3,1) g'] d(3) by (auto simp: b_ok_def)
  have h: "obj m b \<noteq> None" if "b \<in> held g u" for b u using ownsD(1)[OF d(2) that] by blast
  have o: "obj (alloc a x fs m) b = obj m b \<and> cell (alloc a x fs m) (b, f) = cell m (b, f)" if "obj m b \<noteq> None" for b f
    using that a by (auto simp: fresh_def init_cells_def)
  show "b_harmless u pn m g (alloc a x fs m) g'" if "u \<noteq> v"
    by (rule b_harmless_cells) (use keeps_alloc[OF a g'] that g' h o in \<open>simp_all\<close>)
qed

lemma b_free:
  assumes ok: "b_ok self P m g t" and a: "a \<in> priv g v" and g': "g' = g\<lparr>priv := (priv g)(v := priv g v - {a})\<rparr>"
  shows "b_ok self P (free a m) g' t" "u \<noteq> v \<Longrightarrow> b_harmless u pn m g (free a m) g'"
proof -
  note d = b_okD[OF ok] and i = bonsai_invD[OF b_okD(1)[OF ok]]
  have h: "a \<in> held g v" using a by (simp add: held_def)
  note n = ownsD(1)[OF d(2) h]
  have "garbage_ok (free a m)" using i(4) n by (auto simp: garbage_ok_def)
  then have "bonsai_inv (free a m) self t" by (intro bonsai_inv_cong[OF d(1)]) (use n i(7) in auto)
  then show "b_ok self P (free a m) g' t" using owns_free[OF d(2) a g'] d(3) by (auto simp: b_ok_def)
  show "b_harmless u pn m g (free a m) g'" if "u \<noteq> v"
    by (rule b_harmless_cells) (use keeps_free[OF a g'] that g' ownsD(1)[OF d(2)] ownsD(2)[OF d(2) h] in auto)
qed

lemma b_store:
  assumes ok: "b_ok self P m g t" and a: "a \<in> pend g v" and f: "f \<noteq> Root"
  shows "b_ok self P (set_cell (a, f) retired_node m) g t" "u \<noteq> v \<Longrightarrow> b_harmless u pn m g (set_cell (a, f) retired_node m) g"
proof -
  note d = b_okD[OF ok] and i = bonsai_invD[OF b_okD(1)[OF ok]]
  have h: "a \<in> held g v" using a by (simp add: held_def)
  note n = ownsD(1)[OF d(2) h]
  have "bonsai_inv (set_cell (a, f) retired_node m) self t" by (rule bonsai_inv_cong[OF d(1)]) (use n f i(4,7) in auto)
  then show "b_ok self P (set_cell (a, f) retired_node m) g t" using d(2,3) by (auto simp: b_ok_def)
  show "b_harmless u pn m g (set_cell (a, f) retired_node m) g" if "u \<noteq> v"
    using that ownsD(2)[OF d(2) h] keeps_set_cell[of g g] by (auto simp: b_harmless_def)
qed

lemma b_retire:
  assumes ok: "b_ok self P m g t" and a: "a \<in> pend g v" and g': "g' = g\<lparr>pend := (pend g)(v := pend g v - {a})\<rparr>"
  shows "b_ok self P (retire a m) g' t" "u \<noteq> v \<Longrightarrow> P x = pn \<Longrightarrow> b_harmless u pn m g (retire a m) g'"
proof -
  note d = b_okD[OF ok] and i = bonsai_invD[OF b_okD(1)[OF ok]]
  have h: "a \<in> held g v" using a by (simp add: held_def)
  note n = ownsD(1)[OF d(2) h]
  have "bonsai_inv (retire a m) self t"
    by (rule bonsai_inv_cong[OF d(1)]) (use n i(4,7) in \<open>auto intro: garbage_ok_retire\<close>)
  then show "b_ok self P (retire a m) g' t" using owns_retire[OF d(2) a g'] d(3) by (fastforce simp: b_ok_def)
  show "b_harmless u pn m g (retire a m) g'" if "u \<noteq> v" "P x = pn"
    by (rule b_harmless_cells) (use keeps_retire[of _ m g' g a] d(3)[of x] that g' ownsD(1)[OF d(2)] in auto)
qed

text \<open>Publishing: the root now points to a tree of old nodes and of the thread's private nodes.\<close>

lemma b_publish:
  assumes ok: "b_ok self P m g t" and p: "tree_at m p t'" "distinct (addrs t')" "search_tree (erase t')"
    and own: "pend g v = {}" "set (addrs t') \<union> D = set (addrs t) \<union> priv g v" "set (addrs t') \<inter> D = {}"
    and g': "g' = g\<lparr>priv := (priv g)(v := {}), pend := (pend g)(v := D)\<rparr>" and m': "m' = set_cell (self, Root) p m"
  shows "b_ok self P m' g' t'" "u \<noteq> v \<Longrightarrow> b_harmless u pn m g m' g'"
proof -
  note d = b_okD[OF ok] and i = bonsai_invD[OF b_okD(1)[OF ok]]
  have "tree_at m' p t'" by (rule tree_at_cong[OF p(1)]) (use tree_at_addr[OF p(1)] in \<open>auto simp: m'\<close>)
  then have "bonsai_inv m' self t'" using p(2,3) i(3,4) by (simp add: bonsai_inv_def m')
  moreover have "owns m' g' (set (addrs t'))"
    unfolding m' owns_set_cell by (rule owns_exchange[OF d(2) _ _ _ _ g']) (use i(7) own in \<open>auto simp: held_def\<close>)
  ultimately show "b_ok self P m' g' t'" using d(3) by (auto simp: b_ok_def m')
  have "keeps n m g m' g'" for n unfolding m' by (rule keeps_set_cell) (use g' in auto)
  then show "b_harmless u pn m g m' g'" if "u \<noteq> v"
    by (intro b_harmless_cells) (use that g' ownsD(1)[OF d(2)] in \<open>auto simp: m'\<close>)
qed

section \<open>A concurrent object\<close>

definition b_rely :: "addr \<Rightarrow> tid \<Rightarrow> ('k::linorder, 'v) bworld \<Rightarrow> ('k, 'v) bworld \<Rightarrow> bool" where
  "b_rely self t w w' \<longleftrightarrow> b_inv self w' \<and> w_call w' t = w_call w t \<and> w_pins w' t = w_pins w t \<and>
     b_harmless t (w_pins w t) (w_mem w) (w_ghost w) (w_mem w') (w_ghost w')"

lemma b_ok_pins: "b_ok self P m g t \<Longrightarrow> (\<And>u n. P' u = Some n \<Longrightarrow> n \<le> length (retired m)) \<Longrightarrow> b_ok self P' m g t"
  by (simp add: b_ok_def)

interpretation bt: concurrent_object "bonsai_map self" "b_inv self" "b_rely self" b_idle for self
proof (unfold_locales, goal_cases)
  case (1 w t)
  then show ?case by (simp add: b_rely_def)
next
  case (2 t w w' w'')
  then show ?case using b_harmless_trans by (fastforce simp: b_rely_def)
next
  case (3 t w w')
  then show ?case by (simp add: b_rely_def)
next
  case (4 t w w')
  then show ?case by (simp add: b_rely_def b_harmless_def b_idle_def held_def)
next
  case (5 w t S q)
  let ?w = "pin_world (bonsai_map self) S t q w"
  from 5(1) obtain T where ok: "b_ok self (w_pins w) (w_mem w) (w_ghost w) T" by (auto simp: b_inv_def)
  note r = b_reclaim[OF ok 5(4)]
  have "b_ok self ((w_pins w)(t \<mapsto> length (retired (w_mem w)))) (reclaim S (w_mem w)) (w_ghost w) T"
    by (rule b_ok_pins[OF r(1)]) (use b_okD(3)[OF ok] in \<open>auto split: if_splits\<close>)
  then have inv: "b_inv self ?w" by (auto simp: b_inv_def pin_world_def)
  have "b_rely self u w ?w" if "u \<noteq> t" for u using that inv r(2)[OF refl] by (simp add: b_rely_def pin_world_def)
  then show ?case using 5 inv b_okD(4)[OF r(1)] b_okD(4)[OF ok] by (simp add: b_idle_def pin_world_def)
next
  case (6 w t S)
  let ?w = "unpin_world S t w"
  from 6(1) obtain T where ok: "b_ok self (w_pins w) (w_mem w) (w_ghost w) T" by (auto simp: b_inv_def)
  note r = b_reclaim[OF ok 6(3)]
  have "b_ok self ((w_pins w)(t := None)) (reclaim S (w_mem w)) (w_ghost w) T"
    by (rule b_ok_pins[OF r(1)]) (use b_okD(3)[OF ok] in \<open>auto split: if_splits\<close>)
  then have inv: "b_inv self ?w" by (auto simp: b_inv_def unpin_world_def)
  have "b_rely self u w ?w" if "u \<noteq> t" for u
    using that inv r(2)[of u "w_pins w u"] by (simp add: b_rely_def unpin_world_def)
  then show ?case using 6 inv b_okD(4)[OF r(1)] b_okD(4)[OF ok] by (simp add: b_idle_def unpin_world_def)
qed

end
