(* ===== verification/Ebr_Bonsai_Concurrent.thy ===== *)
theory Ebr_Bonsai_Concurrent
  imports Bonsai_Moves Shared_Map
begin

text \<open>
  The operations of \<^verbatim>\<open>BonsaiTreeMap\<close> (\<^verbatim>\<open>src/src/ebr/bonsai_tree.rs\<close>) under any number of threads.  A round
  takes the tree it finds at the root as its snapshot; theory \<^verbatim>\<open>Bonsai_Rounds\<close> says what it delivers when links of
  the snapshot are overwritten meanwhile, and if its compare-and-set on the root succeeds, the tree is still the snapshot.
\<close>

section \<open>What a thread knows during a call\<close>

abbreviation bown :: "addr \<Rightarrow> tid \<Rightarrow> ('k::linorder, 'v) bworld \<Rightarrow> ('k, 'v) bworld \<Rightarrow> bool" where
  "bown self t \<equiv> own_move (bonsai_map self) (b_inv self) (b_rely self) t"

abbreviation bcwp ::
  "addr \<Rightarrow> tid \<Rightarrow> ('k::linorder, 'v, 'a) bonsai_prog \<Rightarrow> ('a \<Rightarrow> ('k, 'v) bworld \<Rightarrow> bool) \<Rightarrow> ('k, 'v) bworld \<Rightarrow> bool" where
  "bcwp self t \<equiv> cwp (b_rely self t) (bown self t)"

text \<open>In a call \<open>q\<close> that has had no effect yet, pinned at \<open>n\<close>, with the private nodes \<open>N\<close>.\<close>

definition working :: "addr \<Rightarrow> tid \<Rightarrow> ('k::linorder, 'v) request \<Rightarrow> nat \<Rightarrow> addr set \<Rightarrow> ('k, 'v) bworld \<Rightarrow> bool" where
  "working self t q n N w \<longleftrightarrow> b_inv self w \<and> w_pins w t = Some n \<and> priv (w_ghost w) t = N \<and> pend (w_ghost w) t = {} \<and> called t q w"

text \<open>After the effect, with the replaced nodes \<open>D\<close> still to be retired.\<close>

definition committing ::
  "addr \<Rightarrow> tid \<Rightarrow> ('k::linorder, 'v) request \<Rightarrow> 'v response \<Rightarrow> addr set \<Rightarrow> ('k, 'v) bworld \<Rightarrow> bool" where
  "committing self t q r D w \<longleftrightarrow> b_inv self w \<and> priv (w_ghost w) t = {} \<and> pend (w_ghost w) t = D \<and>
     (\<exists>C. w_call w t = Some (q, C, Some r))"

lemma working_rely: "working self t q n N w \<Longrightarrow> b_rely self t w w' \<Longrightarrow> working self t q n N w'"
  by (simp add: working_def b_rely_def b_harmless_def called_def)

lemma committing_rely: "committing self t q r D w \<Longrightarrow> b_rely self t w w' \<Longrightarrow> committing self t q r D w'"
  by (simp add: committing_def b_rely_def b_harmless_def)

lemma stay_bown: "b_inv self w \<Longrightarrow> w_call w t \<noteq> None \<Longrightarrow> bown self t w w"
  using bt.rely_refl by (auto simp: own_move_def call_step_def)

lemma quiet_bown:
  assumes ok: "b_ok self (w_pins w) (w_mem w) (w_ghost w) T" "b_ok self (w_pins w) m' g' T" and c: "w_call w t \<noteq> None"
    and others: "\<And>u. u \<noteq> t \<Longrightarrow> b_harmless u (w_pins w u) (w_mem w) (w_ghost w) m' g'"
  shows "bown self t w (quiet m' g' w)" "b_inv self (quiet m' g' w)"
proof -
  show inv: "b_inv self (quiet m' g' w)" using ok(2) by (auto simp: b_inv_def)
  have "call_step (bonsai_map self) t w (quiet m' g' w)" using c b_okD(4)[OF ok(1)] b_okD(4)[OF ok(2)] by (auto simp: call_step_def)
  then show "bown self t w (quiet m' g' w)" using inv others by (simp add: own_move_def b_rely_def)
qed

section \<open>Giving up and committing\<close>

lemma abort_cwp:
  assumes w: "working self t q n (set N) w" and N: "distinct N" and st: "new_nodes st = ptrs N"
    and k: "\<And>w'. working self t q n {} w' \<Longrightarrow> bcwp self t (f state_new) Q w'"
  shows "bcwp self t (bind (state_abort st) f) Q w"
proof -
  have "bcwp self t (state_abort_loop (ptrs N)) (\<lambda>_ w'. working self t q n {} w') w"
    using w N
  proof (induction N arbitrary: w)
    case (Cons a N)
    show ?case
      unfolding ptrs_simps state_abort_loop.simps cwp.simps
    proof (intro allI impI conjI)
      fix w1 assume "b_rely self t w w1"
      then have w1: "working self t q n (set (a # N)) w1" using Cons.prems(1) working_rely by blast
      then obtain T where ok: "b_ok self (w_pins w1) (w_mem w1) (w_ghost w1) T" by (auto simp: working_def b_inv_def)
      have a: "a \<in> priv (w_ghost w1) t" using w1 by (auto simp: working_def)
      have h: "a \<in> held (w_ghost w1) t" using a by (simp add: held_def)
      from ownsD(1)[OF b_okD(2)[OF ok] h] show "obj (w_mem w1) (raw (Shared a 0)) \<noteq> None"
        "raw (Shared a 0) \<notin> set (garbage (w_mem w1))" by auto
      let ?g = "w_ghost w1\<lparr>priv := (priv (w_ghost w1))(t := priv (w_ghost w1) t - {a})\<rparr>"
      let ?w = "quiet (free a (w_mem w1)) ?g w1"
      have own: "bown self t w1 ?w" "b_inv self ?w"
        by (rule quiet_bown[OF ok b_free(1)[OF ok a refl]]; use w1 b_free(2)[OF ok a refl] in \<open>auto simp: working_def called_def\<close>)+
      have "working self t q n (set N) ?w" using w1 own(2) Cons.prems(2) by (auto simp: working_def called_def)
      then show "moves (bown self t) w1 (free (raw (Shared a 0)) (w_mem w1))
          (bcwp self t (state_abort_loop (ptrs N)) (\<lambda>_ w'. working self t q n {} w'))"
        using Cons.IH[of ?w] Cons.prems(2) own(1) by (intro movesI[of ?w]) auto
    qed
  qed simp
  then show ?thesis
    unfolding state_abort_def cwp_bind st using k by (elim cwp_mono) (simp add: state_new_def)
qed

lemma store_cwp:
  assumes w: "committing self t q r D w" and a: "a \<in> D" and f: "f \<noteq> Root"
    and k: "\<And>w'. committing self t q r D w' \<Longrightarrow> bcwp self t p Q w'"
  shows "bcwp self t (Store (a, f) retired_node p) Q w"
  unfolding cwp.simps fst_conv
proof (intro allI impI conjI)
  fix w1 assume "b_rely self t w w1"
  then have w1: "committing self t q r D w1" using w committing_rely by blast
  then obtain T where ok: "b_ok self (w_pins w1) (w_mem w1) (w_ghost w1) T" by (auto simp: committing_def b_inv_def)
  have p: "a \<in> pend (w_ghost w1) t" using a w1 by (simp add: committing_def)
  then have "obj (w_mem w1) a \<noteq> None" using ownsD(1)[OF b_okD(2)[OF ok], of a t] by (simp add: held_def)
  then show "live (w_mem w1) a" by (simp add: live_def)
  let ?w = "quiet (set_cell (a, f) retired_node (w_mem w1)) (w_ghost w1) w1"
  have own: "bown self t w1 ?w" "b_inv self ?w"
    by (rule quiet_bown[OF ok b_store(1)[OF ok p f]]; use w1 b_store(2)[OF ok p f] in \<open>auto simp: committing_def\<close>)+
  have "committing self t q r D ?w" using w1 own(2) by (simp add: committing_def)
  then show "moves (bown self t) w1 (set_cell (a, f) retired_node (w_mem w1)) (bcwp self t p Q)"
    using k own(1) by (intro movesI[of ?w]) auto
qed

lemma defer_cwp:
  assumes w: "committing self t q r D w" and a: "a \<in> D"
    and k: "\<And>w'. committing self t q r (D - {a}) w' \<Longrightarrow> bcwp self t p Q w'"
  shows "bcwp self t (Defer_destroy (Shared a 0) p) Q w"
  unfolding cwp.simps shared.sel
proof (intro allI impI conjI)
  fix w1 assume "b_rely self t w w1"
  then have w1: "committing self t q r D w1" using w committing_rely by blast
  then obtain T where ok: "b_ok self (w_pins w1) (w_mem w1) (w_ghost w1) T" by (auto simp: committing_def b_inv_def)
  have p: "a \<in> pend (w_ghost w1) t" using a w1 by (simp add: committing_def)
  then have h: "a \<in> held (w_ghost w1) t" by (simp add: held_def)
  from ownsD(1)[OF b_okD(2)[OF ok] h] show "obj (w_mem w1) a \<noteq> None" "a \<notin> set (garbage (w_mem w1))" by auto
  fix S assume S: "spares S (w_pins w1) (retire a (w_mem w1))"
  let ?g = "w_ghost w1\<lparr>pend := (pend (w_ghost w1))(t := pend (w_ghost w1) t - {a})\<rparr>"
  note r = b_retire[OF ok p refl]
  let ?w = "quiet (reclaim S (retire a (w_mem w1))) ?g w1"
  have own: "bown self t w1 ?w" "b_inv self ?w"
    by (rule quiet_bown[OF ok b_reclaim(1)[OF r(1) S]];
        use w1 b_harmless_trans[OF r(2) b_reclaim(2)[OF r(1) S]] in \<open>auto simp: committing_def\<close>)+
  have "committing self t q r (D - {a}) ?w" using w1 own(2) by (simp add: committing_def)
  then show "moves (bown self t) w1 (reclaim S (retire a (w_mem w1))) (bcwp self t p Q)"
    using k own(1) by (intro movesI[of ?w]) auto
qed

lemma commit_cwp:
  assumes w: "committing self t q r (set D) w" and D: "distinct D" and st: "retired_nodes st = ptrs D"
    and k: "\<And>w'. answered b_idle t q r w' \<Longrightarrow> Q x w'"
  shows "bcwp self t (bind (state_commit st) (\<lambda>_. Ret x)) Q w"
proof -
  have "bcwp self t (state_commit_loop (ptrs D)) (\<lambda>_ w'. answered b_idle t q r w') w"
    using w D
  proof (induction D arbitrary: w)
    case Nil
    then show ?case by (auto simp: committing_def answered_def b_idle_def held_def)
  next
    case (Cons a D)
    have a: "a \<in> set (a # D)" and D: "set (a # D) - {a} = set D" using Cons.prems(2) by auto
    show ?case
      unfolding ptrs_simps state_commit_loop.simps shared.sel
      by (rule store_cwp[OF Cons.prems(1) a], simp, rule store_cwp[OF _ a], assumption, simp, rule defer_cwp[OF _ a], assumption)
        (use Cons.IH Cons.prems(2) D in auto)
  qed
  then show ?thesis unfolding state_commit_def cwp_bind st using k by (elim cwp_mono) simp
qed

section \<open>Rounds\<close>

text \<open>
  The snapshot \<open>s\<close> of a round and the memory: the thread's private nodes \<open>N\<close> are as it made them, and the other nodes it knows
  are as they were, except that their links may have been overwritten.
\<close>

definition mirrors :: "nat \<Rightarrow> ('k, 'v) bonsai_mem \<Rightarrow> ghost \<Rightarrow> addr set \<Rightarrow> ('k, 'v) snapshot \<Rightarrow> bool" where
  "mirrors n m g N s \<longleftrightarrow> (\<forall>a x. s a = Some x \<longrightarrow> obj m a = Some (fst x) \<and>
     (if a \<in> N then \<forall>f. f \<noteq> Root \<longrightarrow> cell m (a, f) = link f x
      else protected n m g a \<and> (\<forall>f. f \<noteq> Root \<longrightarrow> cell m (a, f) = link f x \<or> cell m (a, f) = retired_node)))"

text \<open>In a round that started from the tree \<open>T\<close>; the answers that were right then are known.\<close>

definition at_round ::
  "addr \<Rightarrow> tid \<Rightarrow> ('k::linorder, 'v) request \<Rightarrow> nat \<Rightarrow> ('k, 'v) itree \<Rightarrow> ('k, 'v) snapshot \<Rightarrow> ('k, 'v) bworld \<Rightarrow> bool" where
  "at_round self t q n T s w \<longleftrightarrow> (\<exists>N. working self t q n N w \<and> dom s = set (addrs T) \<union> N \<and> set (addrs T) \<inter> N = {} \<and>
     mirrors n (w_mem w) (w_ghost w) N s \<and> (\<exists>C. w_call w t = Some (q, C, None) \<and> right q (tmap (erase T)) \<subseteq> C))"

lemma mirrors_harmless:
  assumes "mirrors n m g (priv g t) s" "b_harmless t (Some n) m g m' g'"
  shows "mirrors n m' g' (priv g t) s"
  unfolding mirrors_def
proof (intro allI impI)
  fix a x assume s: "s a = Some x"
  note a = assms(1)[unfolded mirrors_def, rule_format, OF s]
  show "obj m' a = Some (fst x) \<and> (if a \<in> priv g t then \<forall>f. f \<noteq> Root \<longrightarrow> cell m' (a, f) = link f x
      else protected n m' g' a \<and> (\<forall>f. f \<noteq> Root \<longrightarrow> cell m' (a, f) = link f x \<or> cell m' (a, f) = retired_node))"
  proof (cases "a \<in> priv g t")
    case True
    then have "a \<in> held g t" by (simp add: held_def)
    with a assms(2) True show ?thesis by (simp add: b_harmless_def)
  next
    case False
    with a assms(2) show ?thesis unfolding b_harmless_def keeps_def by (metis (no_types))
  qed
qed

lemma at_round_rely:
  assumes "at_round self t q n T s w" "b_rely self t w w'"
  shows "at_round self t q n T s w'"
proof -
  from assms(1) obtain N where N: "working self t q n N w" "dom s = set (addrs T) \<union> N" "set (addrs T) \<inter> N = {}"
    "mirrors n (w_mem w) (w_ghost w) N s" "\<exists>C. w_call w t = Some (q, C, None) \<and> right q (tmap (erase T)) \<subseteq> C"
    unfolding at_round_def by blast
  have "priv (w_ghost w) t = N" "w_pins w t = Some n" using N(1) by (simp_all add: working_def)
  with mirrors_harmless[of n "w_mem w" "w_ghost w" t s] N(4) assms(2) have "mirrors n (w_mem w') (w_ghost w') N s"
    by (auto simp: b_rely_def)
  then show ?thesis using N(2,3,5) working_rely[OF N(1) assms(2)] assms(2) unfolding at_round_def b_rely_def by metis
qed

lemma round_stay: "at_round self t q n T s w \<Longrightarrow> bown self t w w"
  by (rule stay_bown) (auto simp: at_round_def working_def)

text \<open>What the thread reads of a node it knows.\<close>

lemma at_round_node:
  assumes "at_round self t q n T s w" "s a = Some x"
  shows "obj (w_mem w) a = Some (fst x)" "f \<noteq> Root \<Longrightarrow> cell (w_mem w) (a, f) = link f x \<or> cell (w_mem w) (a, f) = retired_node"
  using assms unfolding at_round_def mirrors_def by (metis (no_types))+

lemma at_round_alloc:
  assumes w: "at_round self t q n T s w" and a: "fresh (w_mem w) a"
    and g': "g' = w_ghost w\<lparr>priv := (priv (w_ghost w))(t := insert a (priv (w_ghost w) t))\<rparr>"
    and w': "w' = quiet (alloc a x [(Left, pl), (Right, pr)] (w_mem w)) g' w"
  shows "s a = None" "bown self t w w'" "at_round self t q n T (s(a \<mapsto> (x, pl, pr))) w'"
proof -
  from w obtain N where N: "working self t q n N w" "dom s = set (addrs T) \<union> N" "set (addrs T) \<inter> N = {}"
    "mirrors n (w_mem w) (w_ghost w) N s" "\<exists>C. w_call w t = Some (q, C, None) \<and> right q (tmap (erase T)) \<subseteq> C"
    unfolding at_round_def by blast
  have fr: "obj (w_mem w) a = None" using a by (simp add: fresh_def)
  show sa: "s a = None" using at_round_node(1)[OF w, of a] fr by (cases "s a") auto
  from N(1) obtain U where ok: "b_ok self (w_pins w) (w_mem w) (w_ghost w) U" by (auto simp: working_def b_inv_def)
  have own: "bown self t w w'" "b_inv self w'"
    unfolding w' by (rule quiet_bown[OF ok b_alloc(1)[OF ok a g']]; use N(1) b_alloc(2)[OF ok a g'] in \<open>auto simp: working_def called_def\<close>)+
  show "bown self t w w'" by (rule own(1))
  have "working self t q n (insert a N) w'" using N(1) own(2) by (simp add: working_def called_def w' g')
  moreover have "mirrors n (w_mem w') (w_ghost w') (insert a N) (s(a \<mapsto> (x, pl, pr)))"
    unfolding mirrors_def
  proof (intro allI impI)
    fix b y assume s: "(s(a \<mapsto> (x, pl, pr))) b = Some y"
    show "obj (w_mem w') b = Some (fst y) \<and> (if b \<in> insert a N then \<forall>f. f \<noteq> Root \<longrightarrow> cell (w_mem w') (b, f) = link f y
      else protected n (w_mem w') (w_ghost w') b \<and> (\<forall>f. f \<noteq> Root \<longrightarrow> cell (w_mem w') (b, f) = link f y \<or> cell (w_mem w') (b, f) = retired_node))"
    proof (cases "b = a")
      case True
      have "cell (w_mem w') (a, f) = link f (x, pl, pr)" if "f \<noteq> Root" for f using that by (cases f) (simp_all add: w' link_def)
      moreover have "y = (x, pl, pr)" using True s by simp
      ultimately show ?thesis using True by (simp add: w')
    next
      case False
      then have sb: "s b = Some y" using s by simp
      have "cell (w_mem w') (b, f) = cell (w_mem w) (b, f)" for f using False by (simp add: w')
      moreover have "obj (w_mem w') b = obj (w_mem w) b" using False by (simp add: w')
      moreover have "protected n (w_mem w) (w_ghost w) b \<Longrightarrow> protected n (w_mem w') (w_ghost w') b"
        using keeps_alloc[OF a g', of n x "[(Left, pl), (Right, pr)]"] by (simp add: keeps_def w')
      ultimately show ?thesis using N(4)[unfolded mirrors_def, rule_format, OF sb] False by simp
    qed
  qed
  moreover have "dom (s(a \<mapsto> (x, pl, pr))) = set (addrs T) \<union> insert a N" "set (addrs T) \<inter> insert a N = {}"
    using N(2,3) sa by auto
  ultimately show "at_round self t q n T (s(a \<mapsto> (x, pl, pr))) w'" using N(5) unfolding at_round_def by (auto simp: w')
qed

text \<open>What a routine delivers on the snapshot, it delivers among other threads.\<close>

lemma nwp_bcwp:
  assumes "nwp p Q s" "at_round self t q n T s w"
  shows "bcwp self t p (\<lambda>x w'. \<exists>s'. at_round self t q n T s' w' \<and> Q x s') w"
  using assms
proof (induction p arbitrary: s w)
  case (Load l k)
  obtain a f where l: "l = (a, f)" by fastforce
  with Load.prems(1) obtain x where x: "s a = Some x" "f \<noteq> Root" "nwp (k (link f x)) Q s" "nwp (k retired_node) Q s" by auto
  show ?case
    unfolding cwp.simps
  proof (intro allI impI conjI)
    fix w1 assume "b_rely self t w w1"
    then have w1: "at_round self t q n T s w1" using Load.prems(2) at_round_rely by blast
    note node = at_round_node[OF w1 x(1)]
    show "live (w_mem w1) (fst l)" using node(1) by (simp add: live_def l)
    have "nwp (k (cell (w_mem w1) l)) Q s" using node(2)[OF x(2)] x(3,4) l by auto
    from Load.IH[OF rangeI this w1] show "moves (bown self t) w1 (w_mem w1)
        (bcwp self t (k (cell (w_mem w1) l)) (\<lambda>x w'. \<exists>s'. at_round self t q n T s' w' \<and> Q x s'))"
      using round_stay[OF w1] by (intro movesI[of w1]) auto
  qed
next
  case (Deref p k)
  then obtain x where x: "s (raw p) = Some x" "nwp (k (fst x)) Q s" by auto
  show ?case
    unfolding cwp.simps
  proof (intro allI impI exI conjI)
    fix w1 assume "b_rely self t w w1"
    then have w1: "at_round self t q n T s w1" using Deref.prems(2) at_round_rely by blast
    show "obj (w_mem w1) (raw p) = Some (fst x)" by (rule at_round_node(1)[OF w1 x(1)])
    from Deref.IH[OF rangeI x(2) w1] show "moves (bown self t) w1 (w_mem w1)
        (bcwp self t (k (fst x)) (\<lambda>x w'. \<exists>s'. at_round self t q n T s' w' \<and> Q x s'))"
      using round_stay[OF w1] by (intro movesI[of w1]) auto
  qed
next
  case (Owned_new x fs k)
  then obtain pl pr where fs: "fs = [(Left, pl), (Right, pr)]"
    and nw: "\<And>a. a \<noteq> 0 \<Longrightarrow> s a = None \<Longrightarrow> nwp (k (Shared a 0)) Q (s(a \<mapsto> (x, pl, pr)))" by auto
  show ?case
    unfolding cwp.simps
  proof (intro allI impI)
    fix w1 a assume "b_rely self t w w1" and a: "fresh (w_mem w1) a"
    then have w1: "at_round self t q n T s w1" using Owned_new.prems(2) at_round_rely by blast
    let ?g = "w_ghost w1\<lparr>priv := (priv (w_ghost w1))(t := insert a (priv (w_ghost w1) t))\<rparr>"
    let ?w = "quiet (alloc a x [(Left, pl), (Right, pr)] (w_mem w1)) ?g w1"
    note al = at_round_alloc[where x = x and pl = pl and pr = pr, OF w1 a refl refl]
    have "a \<noteq> 0" using a by (simp add: fresh_def)
    from Owned_new.IH[OF rangeI nw[OF this al(1)] al(3)] al(2) show "moves (bown self t) w1 (alloc a x fs (w_mem w1))
        (bcwp self t (k (Shared a 0)) (\<lambda>x w'. \<exists>s'. at_round self t q n T s' w' \<and> Q x s'))"
      by (intro movesI[of ?w]) (simp_all add: fs)
  qed
qed auto

lemma round_bind:
  assumes "nwp p Q s" "at_round self t q n T s w"
    and "\<And>x s' w'. at_round self t q n T s' w' \<Longrightarrow> Q x s' \<Longrightarrow> bcwp self t (f x) Q' w'"
  shows "bcwp self t (bind p f) Q' w"
  using assms(3) by (intro cwp_bind_mono[OF nwp_bcwp[OF assms(1,2)]]) blast

section \<open>Beginning and end of a round\<close>

lemma tree_at_stree:
  assumes "tree_at m p t" "\<And>a. a \<in> set (addrs t) \<Longrightarrow> s a = Some (the (obj m a), cell m (a, Left), cell m (a, Right))"
  shows "stree s p t"
  using assms by (induction t arbitrary: p) auto

lemma stree_tree_at:
  assumes "stree s p t" "\<And>a x. a \<in> set (addrs t) \<Longrightarrow> s a = Some x \<Longrightarrow> obj m a = Some (fst x) \<and> a \<notin> statics m \<and> a \<notin> set (garbage m) \<and>
      cell m (a, Left) = link Left x \<and> cell m (a, Right) = link Right x"
  shows "tree_at m p t"
  using assms
proof (induction t arbitrary: p)
  case (IBin a l k v r)
  then obtain pl pr where a: "p = Shared a 0" "a \<noteq> 0" "stree s pl l" "stree s pr r"
    "s a = Some (\<lparr>bkey = k, bvalue = v, bsize = tsize (erase (IBin a l k v r))\<rparr>, pl, pr)" by auto
  have "tree_at m pl l" "tree_at m pr r" by (rule IBin.IH(1)[OF a(3)], use IBin.prems(2) in simp, rule IBin.IH(2)[OF a(4)], use IBin.prems(2) in simp)
  with IBin.prems(2)[OF _ a(5)] a show ?case by (simp add: link_def)
qed simp

lemma tree_at_links: "tree_at m p t \<Longrightarrow> a \<in> set (addrs t) \<Longrightarrow> \<not> is_retired (cell m (a, Left)) \<and> \<not> is_retired (cell m (a, Right))"
  by (induction t arbitrary: p) (auto dest: tree_at_live)

text \<open>If the tree of the snapshot hangs at the root, it is the tree, unchanged: the links of a tree are not overwritten.\<close>

lemma same_tree:
  assumes "tree_at m p u" "stree s p t"
    and "\<And>a x f. s a = Some x \<Longrightarrow> f \<noteq> Root \<Longrightarrow> cell m (a, f) = link f x \<or> cell m (a, f) = retired_node"
    and "\<And>a x. s a = Some x \<Longrightarrow> obj m a = Some (fst x)"
  shows "u = t"
  using assms(1,2)
proof (induction t arbitrary: p u)
  case ITip
  then show ?case by (cases u) (auto simp: null_def)
next
  case (IBin a l k v r)
  then obtain pl pr where a: "p = Shared a 0" "a \<noteq> 0" "stree s pl l" "stree s pr r"
    "s a = Some (\<lparr>bkey = k, bvalue = v, bsize = tsize (erase (IBin a l k v r))\<rparr>, pl, pr)" by auto
  with IBin.prems(1) obtain ul k' v' ur where u: "u = IBin a ul k' v' ur" "tree_at m (cell m (a, Left)) ul" "tree_at m (cell m (a, Right)) ur"
    by (cases u) (auto simp: null_def)
  have "cell m (a, Left) = pl" "cell m (a, Right) = pr"
    using assms(3)[OF a(5), of Left] assms(3)[OF a(5), of Right] tree_at_live[OF u(2)] tree_at_live[OF u(3)] by (auto simp: link_def)
  with IBin.IH(1)[OF _ a(3)] IBin.IH(2)[OF _ a(4)] u have "ul = l" "ur = r" by auto
  with IBin.prems(1) assms(4)[OF a(5)] u(1) show ?case by simp
qed

text \<open>A round begins by reading the root; the answers that are right at that moment are noted.\<close>

lemma begin_round:
  assumes w: "working self t q n {} w"
    and k: "\<And>p T s w1. at_round self t q n T s w1 \<Longrightarrow> stree s p T \<Longrightarrow> dom s = set (addrs T) \<Longrightarrow> distinct (addrs T) \<Longrightarrow>
      search_tree (erase T) \<Longrightarrow> bcwp self t (f p) Q w1"
  shows "bcwp self t (Load (self, Root) f) Q w"
  unfolding cwp.simps fst_conv
proof (intro allI impI conjI)
  fix w1 assume "b_rely self t w w1"
  then have w1: "working self t q n {} w1" using w working_rely by blast
  then obtain T where ok: "b_ok self (w_pins w1) (w_mem w1) (w_ghost w1) T" by (auto simp: working_def b_inv_def)
  note d = b_okD[OF ok] and i = bonsai_invD[OF b_okD(1)[OF ok]]
  show "live (w_mem w1) self" by (rule i(6))
  from w1 obtain C where C: "w_call w1 t = Some (q, C, None)" by (auto simp: working_def called_def)
  let ?M = "tmap (erase T)"
  let ?w = "w1\<lparr>w_call := (w_call w1)(t \<mapsto> (q, C \<union> right q ?M, None))\<rparr>"
  let ?s = "\<lambda>a. if a \<in> set (addrs T) then Some (the (obj (w_mem w1) a), cell (w_mem w1) (a, Left), cell (w_mem w1) (a, Right)) else None"
  have inv: "b_inv self ?w" using ok by (auto simp: b_inv_def)
  have "call_step (bonsai_map self) t w1 ?w" using C d(4) by (simp add: call_step_def)
  then have own: "bown self t w1 ?w" using inv by (simp add: own_move_def b_rely_def)
  have work: "working self t q n {} ?w" using w1 inv by (simp add: working_def called_def)
  have "mirrors n (w_mem w1) (w_ghost w1) {} ?s"
    unfolding mirrors_def
  proof (intro allI impI)
    fix a x assume s: "?s a = Some x"
    then have a: "a \<in> set (addrs T)" by (simp split: if_splits)
    with s have x: "x = (the (obj (w_mem w1) a), cell (w_mem w1) (a, Left), cell (w_mem w1) (a, Right))" by simp
    have "a \<notin> priv (w_ghost w1) u" for u using ownsD(1)[OF d(2), of a u] a by (auto simp: held_def)
    then have "protected n (w_mem w1) (w_ghost w1) a" using i(7)[OF a] by (simp add: protected_def)
    moreover have "cell (w_mem w1) (a, f) = link f x" if "f \<noteq> Root" for f using that by (cases f) (simp_all add: x link_def)
    moreover have "obj (w_mem w1) a = Some (fst x)" using i(7)[OF a] by (auto simp: x)
    ultimately show "obj (w_mem w1) a = Some (fst x) \<and> (if a \<in> {} then \<forall>f. f \<noteq> Root \<longrightarrow> cell (w_mem w1) (a, f) = link f x
        else protected n (w_mem w1) (w_ghost w1) a \<and> (\<forall>f. f \<noteq> Root \<longrightarrow> cell (w_mem w1) (a, f) = link f x \<or> cell (w_mem w1) (a, f) = retired_node))"
      by simp
  qed
  moreover have dm: "dom ?s = set (addrs T)" by (auto split: if_splits)
  ultimately have "at_round self t q n T ?s ?w" using work unfolding at_round_def by (intro exI[of _ "{}"]) simp
  moreover have "stree ?s (cell (w_mem w1) (self, Root)) T" by (rule tree_at_stree[OF i(1)]) simp
  ultimately have "bcwp self t (f (cell (w_mem w1) (self, Root))) Q ?w" using dm i(2,5) by (intro k)
  with own show "moves (bown self t) w1 (w_mem w1) (bcwp self t (f (cell (w_mem w1) (self, Root))) Q)" by (intro movesI[of ?w]) simp_all
qed

lemma round_private:
  assumes "at_round self t q n T s w" "dom s = set (addrs T) \<union> N" "set (addrs T) \<inter> N = {}"
  shows "working self t q n N w" "mirrors n (w_mem w) (w_ghost w) N s"
proof -
  from assms(1) obtain N' where N': "working self t q n N' w" "dom s = set (addrs T) \<union> N'" "set (addrs T) \<inter> N' = {}"
    "mirrors n (w_mem w) (w_ghost w) N' s" unfolding at_round_def by blast
  then have "N' = N" using assms(2,3) by blast
  with N' show "working self t q n N w" "mirrors n (w_mem w) (w_ghost w) N s" by simp_all
qed

text \<open>A round that has built a copy ends with the compare-and-set on the root.\<close>

lemma publish_cwp:
  assumes w: "at_round self t q n T s w" and root: "stree s0 old T" "distinct (addrs T)" "dom s0 = set (addrs T)"
    and b: "made s0 state_new s st N R" "stree s p t'" "mset (addrs t') + mset R = mset (addrs T) + mset N"
    and T': "search_tree (erase t')" "spec_call q (tmap (erase T)) = (r, tmap (erase t'))"
    and retry: "\<And>w'. working self t q n {} w' \<Longrightarrow> bcwp self t (f state_new) Q w'"
    and post: "\<And>w'. answered b_idle t q r w' \<Longrightarrow> Q x w'"
  shows "bcwp self t (Compare_and_set (self, Root) old p (\<lambda>e. case e of
      Inr _ \<Rightarrow> bind (state_commit st) (\<lambda>_. Ret x) | Inl _ \<Rightarrow> bind (state_abort st) f)) Q w"
  unfolding cwp.simps fst_conv
proof (intro allI impI conjI)
  fix w1 assume "b_rely self t w w1"
  then have w1: "at_round self t q n T s w1" using w at_round_rely by blast
  let ?m = "w_mem w1" and ?g = "w_ghost w1"
  have st: "new_nodes st = ptrs N" "retired_nodes st = ptrs R" "distinct N" "s0 \<subseteq>\<^sub>m s" "dom s = set (addrs T) \<union> set N"
    "set (addrs T) \<inter> set N = {}" using b(1) root(3) by (auto simp: made_def state_new_def)
  note priv = round_private[OF w1 st(5,6)]
  then obtain U where ok: "b_ok self (w_pins w1) ?m ?g U" by (auto simp: working_def b_inv_def)
  note d = b_okD[OF ok] and i = bonsai_invD[OF b_okD(1)[OF ok]]
  show "live ?m self" by (rule i(6))
  have fail: "moves (bown self t) w1 ?m (bcwp self t (bind (state_abort st) f) Q)"
    using abort_cwp[where f = f, OF priv(1) st(3,1) retry] round_stay[OF w1] by (intro movesI[of w1]) auto
  have win: "moves (bown self t) w1 (set_cell (self, Root) p ?m) (bcwp self t (bind (state_commit st) (\<lambda>_. Ret x)) Q)"
    if eq: "cell ?m (self, Root) = old"
  proof -
    have "U = T" using same_tree[OF i(1)[unfolded eq] stree_mono[OF root(1) st(4)]] at_round_node[OF w1] by blast
    note ok = ok[unfolded this] and d = d[unfolded this] and i = i[unfolded this]
    have mixed: "mset (addrs t' @ R) = mset (addrs T @ N)" using b(3) by simp
    have dist: "distinct (addrs t' @ R)"
      using mset_eq_imp_distinct_iff[OF mixed] root(2) st(3,6) by simp
    have sets: "set (addrs t') \<union> set R = set (addrs T) \<union> set N" using mset_eq_setD[OF mixed] by simp
    have tree: "tree_at ?m p t'"
    proof (rule stree_tree_at[OF b(2)])
      fix a y assume a: "a \<in> set (addrs t')" and y: "s a = Some y"
      note nd = at_round_node[OF w1 y]
      have "a \<in> set (addrs T) \<or> a \<in> set N" using a sets by blast
      then show "obj ?m a = Some (fst y) \<and> a \<notin> statics ?m \<and> a \<notin> set (garbage ?m) \<and>
          cell ?m (a, Left) = link Left y \<and> cell ?m (a, Right) = link Right y"
      proof
        assume aT: "a \<in> set (addrs T)"
        show ?thesis using i(7)[OF aT] tree_at_links[OF i(1) aT] nd(1) nd(2)[of Left] nd(2)[of Right] by auto
      next
        assume N: "a \<in> set N"
        then have "a \<in> held ?g t" using priv(1) by (simp add: working_def held_def)
        with ownsD(1)[OF d(2)] priv(2)[unfolded mirrors_def, rule_format, OF y] N show ?thesis by simp
      qed
    qed
    let ?m' = "set_cell (self, Root) p ?m" and ?g' = "?g\<lparr>priv := (priv ?g)(t := {}), pend := (pend ?g)(t := set R)\<rparr>"
    from priv(1) obtain C where C: "w_call w1 t = Some (q, C, None)" and g: "priv ?g t = set N" "pend ?g t = {}"
      by (auto simp: working_def called_def)
    have pub: "b_ok self (w_pins w1) ?m' ?g' t'" "\<And>u pn. u \<noteq> t \<Longrightarrow> b_harmless u pn ?m ?g ?m' ?g'"
      by (rule b_publish[OF ok tree _ T'(1) g(2) _ _ refl refl]; use dist sets g(1) in auto)+
    let ?w = "w1\<lparr>w_mem := ?m', w_ghost := ?g', w_call := (w_call w1)(t \<mapsto> (q, C, Some r))\<rparr>"
    have inv: "b_inv self ?w" using pub(1) by (auto simp: b_inv_def)
    have "call_step (bonsai_map self) t w1 ?w" using C T'(2) d(4) b_okD(4)[OF pub(1)] by (simp add: call_step_def)
    then have own: "bown self t w1 ?w" using inv pub(2) by (simp add: own_move_def b_rely_def)
    have "committing self t q r (set R) ?w" using inv by (simp add: committing_def)
    then have "bcwp self t (bind (state_commit st) (\<lambda>_. Ret x)) Q ?w" by (rule commit_cwp[where Q = Q, OF _ _ st(2) post]) (use dist in simp)
    with own show ?thesis by (intro movesI[of ?w]) simp_all
  qed
  show "if cell ?m (self, Root) = old
      then moves (bown self t) w1 (set_cell (self, Root) p ?m) (bcwp self t (case Inr p of
        Inr _ \<Rightarrow> bind (state_commit st) (\<lambda>_. Ret x) | Inl _ \<Rightarrow> bind (state_abort st) f) Q)
      else moves (bown self t) w1 ?m (bcwp self t (case Inl (cell ?m (self, Root)) of
        Inr _ \<Rightarrow> bind (state_commit st) (\<lambda>_. Ret x) | Inl _ \<Rightarrow> bind (state_abort st) f) Q)"
    using win fail by simp
qed

lemma end_round:
  assumes w: "at_round self t q n T s w" and root: "stree s0 old T" "distinct (addrs T)" "dom s0 = set (addrs T)"
    and b: "yields s0 state_new (mset (addrs T)) {#} B p st s"
    and B: "\<not> is_retired p \<Longrightarrow> search_tree B \<and> spec_call q (tmap (erase T)) = (r, tmap B)"
    and retry: "\<And>w'. working self t q n {} w' \<Longrightarrow> bcwp self t (f state_new) Q w'"
    and post: "\<And>w'. answered b_idle t q r w' \<Longrightarrow> Q x w'"
  shows "bcwp self t (if is_retired p then bind (state_abort st) f
    else Compare_and_set (self, Root) old p (\<lambda>e. case e of
      Inr _ \<Rightarrow> bind (state_commit st) (\<lambda>_. Ret x) | Inl _ \<Rightarrow> bind (state_abort st) f)) Q w"
proof -
  from b obtain N R where m: "made s0 state_new s st N R" and
    y: "is_retired p \<or> (\<exists>t. stree s p t \<and> erase t = B \<and> mset (addrs t) + mset R = mset (addrs T) + mset N)" by (auto simp: yields_def)
  show ?thesis
  proof (cases "is_retired p")
    case True
    have st: "new_nodes st = ptrs N" "distinct N" "dom s = set (addrs T) \<union> set N" "set (addrs T) \<inter> set N = {}"
      using m root(3) by (auto simp: made_def state_new_def)
    from abort_cwp[where f = f, OF round_private(1)[OF w st(3,4)] st(2,1) retry] True show ?thesis by simp
  next
    case False
    then obtain t' where t': "stree s p t'" "erase t' = B" "mset (addrs t') + mset R = mset (addrs T) + mset N" using y by blast
    have "search_tree (erase t')" "spec_call q (tmap (erase T)) = (r, tmap (erase t'))" using B[OF False] t'(2) by simp_all
    from publish_cwp[where f = f and Q = Q, OF w root m t'(1,3) this retry post] False show ?thesis by (simp only: if_False)
  qed
qed

section \<open>The operations\<close>

lemma bonsai_insert_cwp:
  assumes q: "q = Insert_req k v" and w: "working self t q n {} w"
  shows "bcwp self t (bonsai_insert_loop i j self state_new k v) (\<lambda>r. answered b_idle t q (Inserted r)) w"
  using w
proof (induction i arbitrary: w)
  case (Suc i)
  show ?case
    unfolding bonsai_insert_loop.simps
  proof (rule begin_round[OF Suc.prems], goal_cases)
    case (1 p T s0 w1)
    show ?case
    proof (rule round_bind[OF do_insert_nwp[OF 1(2)] 1(1)], goal_cases)
      case (1 x s w2)
      obtain p' b st where x: "x = ((p', b), st)" by (metis prod.exhaust)
      with 1(2) have y: "yields s0 state_new (mset (addrs T)) {#} (tinsert k v (erase T)) p' st s"
        "is_retired p' \<or> b = (tlookup (erase T) k = None)" by (auto simp: inserts_def)
      have "search_tree (tinsert k v (erase T)) \<and> spec_call q (tmap (erase T)) = (Inserted b, tmap (tinsert k v (erase T)))"
        if "\<not> is_retired p'"
        using y(2) that tinsert_correct(1,2)[OF \<open>search_tree (erase T)\<close>] tlookup_tmap[OF \<open>search_tree (erase T)\<close>]
        by (simp add: q)
      from end_round[OF 1(1) \<open>stree s0 p T\<close> \<open>distinct (addrs T)\<close> \<open>dom s0 = set (addrs T)\<close> y(1) this,
          of "\<lambda>state. bonsai_insert_loop i j self state k v", OF _ Suc.IH]
      show ?case by (simp add: x)
    qed
  qed
qed simp

lemma bonsai_remove_cwp:
  assumes q: "q = Remove_req k" and w: "working self t q n {} w"
  shows "bcwp self t (bonsai_remove_loop i j self state_new k) (\<lambda>r. answered b_idle t q (Removed r)) w"
  using w
proof (induction i arbitrary: w)
  case (Suc i)
  show ?case
    unfolding bonsai_remove_loop.simps
  proof (rule begin_round[OF Suc.prems], goal_cases)
    case (1 p T s0 w1)
    show ?case
    proof (rule round_bind[OF do_remove_nwp[OF 1(2)] 1(1)], goal_cases)
      case (1 x s w2)
      obtain p' y st where x: "x = ((p', y), st)" by (metis prod.exhaust)
      with 1(2) have y: "yields s0 state_new (mset (addrs T)) {#} (tremove k (erase T)) p' st s"
        "is_retired p' \<or> y = tlookup (erase T) k" by (auto simp: removes_def)
      have "search_tree (tremove k (erase T)) \<and> spec_call q (tmap (erase T)) = (Removed y, tmap (tremove k (erase T)))"
        if "\<not> is_retired p'"
        using y(2) that tremove_correct(1,2)[OF \<open>search_tree (erase T)\<close>] tlookup_tmap[OF \<open>search_tree (erase T)\<close>]
        by (simp add: q)
      from end_round[OF 1(1) \<open>stree s0 p T\<close> \<open>distinct (addrs T)\<close> \<open>dom s0 = set (addrs T)\<close> y(1) this,
          of "\<lambda>state. bonsai_remove_loop i j self state k", OF _ Suc.IH]
      show ?case by (simp add: x)
    qed
  qed
qed simp

lemma bonsai_get_cwp:
  assumes q: "q = Get_req k" and w: "working self t q n {} w"
  shows "bcwp self t (bonsai_get_loop i j self k) (\<lambda>r. answered b_idle t q (Got r)) w"
  using w
proof (induction i arbitrary: w)
  case (Suc i)
  show ?case
    unfolding bonsai_get_loop.simps
  proof (rule begin_round[OF Suc.prems], goal_cases)
    case (1 p T s w1)
    note srch = \<open>search_tree (erase T)\<close> and dm = \<open>dom s = set (addrs T)\<close>
    have fin: "answered b_idle t q (Got (tlookup (erase T) k)) w'" if "at_round self t q n T s w'" for w'
    proof -
      have "working self t q n {} w'" by (rule round_private(1)[OF that]) (use dm in auto)
      moreover have "Got (tlookup (erase T) k) \<in> right q (tmap (erase T))" using tlookup_tmap[OF srch] by (simp add: q right_def)
      ultimately show ?thesis using that by (auto simp: answered_def at_round_def working_def b_idle_def held_def)
    qed
    show ?case
    proof (rule round_bind[OF bonsai_search_nwp[OF 1(2)] 1(1)], goal_cases)
      case (1 node s' w2)
      then obtain u where u: "s' = s" "otree s node u" "tlookup (erase T) k = (case u of ITip \<Rightarrow> None | IBin _ _ _ v _ \<Rightarrow> Some v)"
        by (auto simp: finds_def)
      have "nwp (is_retired_spot node) (\<lambda>b s'. s' = s \<and> (b \<or> stree s node u)) s" by (rule is_retired_spot_nwp[OF u(2)]) auto
      from this 1(1)[unfolded u(1)] show ?case
      proof (rule round_bind, goal_cases)
        case (1 b s'' w3)
        show ?case
        proof (cases b)
          case True
          have "working self t q n {} w3" by (rule round_private(1)[OF 1(1)]) (use dm 1(2) in auto)
          then show ?thesis using True Suc.IH by simp
        next
          case False
          then have s: "s'' = s" "stree s node u" using 1(2) by auto
          show ?thesis
          proof (cases u)
            case ITip
            then show ?thesis using False s fin[OF 1(1)[unfolded s(1)]] u(3) by simp
          next
            case (IBin a l k' v' r)
            have "nwp (Deref node (\<lambda>nd. Ret (Some (bvalue nd)))) (\<lambda>y s'. s' = s \<and> y = tlookup (erase T) k) s"
              by (rule deref_nwp[OF s(2)[unfolded IBin]]) (use u(3) IBin in simp)
            from nwp_bcwp[OF this 1(1)[unfolded s(1)]] have "bcwp self t (Deref node (\<lambda>nd. Ret (Some (bvalue nd))))
                (\<lambda>r. answered b_idle t q (Got r)) w3" by (rule cwp_mono) (use fin in auto)
            moreover have "\<not> is_null node" using s(2) IBin by auto
            ultimately show ?thesis using False by simp
          qed
        qed
      qed
    qed
  qed
qed simp

text \<open>Every call, begun by an idle thread, answers its request.\<close>

lemma bonsai_serves:
  assumes "b_inv self w" "b_idle t w" "called t q w" "w_pins w t \<noteq> None"
  shows "bcwp self t (call bonsai_ops self n q) (answered b_idle t q) w"
proof -
  from assms obtain i where w: "working self t q i {} w" by (auto simp: working_def b_idle_def held_def)
  show ?thesis
    by (cases q) (use bonsai_get_cwp[OF _ w] bonsai_insert_cwp[OF _ w] bonsai_remove_cwp[OF _ w] in
      \<open>auto simp: bonsai_ops_def bonsai_get_def bonsai_insert_def bonsai_remove_def intro!: cwp_bind_mono\<close>)
qed

section \<open>A memory between calls\<close>

text \<open>There is a search tree with correct sizes at the root, and every other allocated node waits for destruction.\<close>

definition bonsai_rest :: "addr \<Rightarrow> ('k::linorder, 'v) bonsai_mem \<Rightarrow> bool" where
  "bonsai_rest self m \<longleftrightarrow> (\<exists>t. bonsai_inv m self t \<and> (\<forall>a. obj m a \<noteq> None \<longrightarrow> a \<in> set (addrs t) \<or> a \<in> set (garbage m)))"

abbreviation bonsai_rest_world :: "('k, 'v) bonsai_mem \<Rightarrow> ('k, 'v) bworld" where
  "bonsai_rest_world m \<equiv> \<lparr>w_mem = m, w_pins = (\<lambda>_. None), w_call = (\<lambda>_. None), w_ghost = \<lparr>priv = (\<lambda>_. {}), pend = (\<lambda>_. {})\<rparr>\<rparr>"

lemma bonsai_rest_world: "bonsai_rest self m \<Longrightarrow> b_inv self (bonsai_rest_world m) \<and> b_idle t (bonsai_rest_world m)"
  by (auto simp: bonsai_rest_def b_inv_def b_ok_def owns_def b_idle_def held_def)

lemma bonsai_idle_rest:
  assumes "b_inv self w" "\<forall>t. b_idle t w"
  shows "bonsai_rest self (w_mem w)"
proof -
  from assms(1) obtain t where ok: "b_ok self (w_pins w) (w_mem w) (w_ghost w) t" by (auto simp: b_inv_def)
  have "a \<in> set (addrs t) \<or> a \<in> set (garbage (w_mem w))" if "obj (w_mem w) a \<noteq> None" for a
    using ownsD(4)[OF b_okD(2)[OF ok] that] assms(2) by (auto simp: b_idle_def)
  with b_okD(1)[OF ok] show ?thesis by (auto simp: bonsai_rest_def)
qed

interpretation bonsai_shared: shared_map "bonsai_map self" "b_inv self" "b_rely self" b_idle "call bonsai_ops self n" "bonsai_rest self"
  for self n
proof (unfold_locales, goal_cases)
  case (1 w t q)
  then show ?case by (rule bonsai_serves)
next
  case (2 m)
  then show ?case using bonsai_rest_world[OF 2] by (intro exI[of _ "bonsai_rest_world m"]) simp
next
  case (3 w)
  then show ?case by (rule bonsai_idle_rest)
qed

section \<open>Properties\<close>

text \<open>
  C6: \<^verbatim>\<open>BonsaiTreeMap\<close> is linearizable.  Let any number of threads make any calls, and let the scheduler interleave
  their accesses in any way: at every moment the next access of every thread meets its contract (no access to
  freed memory, no double retirement or free), every finished call has had its effect on the map at one moment between its
  beginning and its end, with the answer that moment gives, and nothing else changes the map.  An update takes effect at its
  compare-and-set on the root, even if other threads were overwriting links of nodes while it copied them; a lookup is
  right at the moment it last read the root.
\<close>

theorem bonsai_linearizable:
  assumes "ebr_threads X pin unpin view pinned ok" "ok s" "\<forall>t. pinned s t = None" "bonsai_rest self (view s)"
  shows "interleavings_correct X pin unpin view (bonsai_map self) (call bonsai_ops self n) s qs"
  by (rule bonsai_shared.interleavings[OF assms])

lemma demo_tree_rest: "bonsai_rest 1 (sc_view demo_tree)"
  unfolding bonsai_rest_def
  by (rule exI[of _ demo_itree]) (use demo_tree_inv in \<open>auto simp: demo_itree_def demo_tree_def split: if_splits\<close>)

theorem bonsai_linearizable_witness:
  "interleavings_correct par_api par_pin par_unpin par_view (bonsai_map 1) (call bonsai_ops 1 10)
     (demo_tree, \<lambda>_. None) (\<lambda>t. if t < 8 then bonsai_calls else [])"
  by (rule bonsai_linearizable[OF par.ebr_threads_axioms]) (use demo_tree_ok demo_tree_rest in \<open>auto simp: par_defs\<close>)

text \<open>
  C7: no leak.  Whenever no call is in progress, the root holds a search tree with correct sizes, and every node ever
  allocated and not destroyed is in that tree or waits in the reclamation library: the nodes of abandoned rounds have been
  freed, and the replaced ones retired.
\<close>

theorem bonsai_no_leak:
  assumes "ebr_threads X pin unpin view pinned ok" "ok s" "\<forall>t. pinned s t = None" "bonsai_rest self (view s)"
    and c: "c = interleave X pin unpin (call bonsai_ops self n) sched (start_config s qs)" "\<forall>t. running c t = None"
  shows "bonsai_rest self (view (state c))"
  by (rule bonsai_shared.rests(1)[OF assms])

text \<open>A new tree, and two threads: one inserts the key 40 while the other looks it up.\<close>

definition new_tree :: "(bonsai_field, (int, int) bonsai_node) sc" where
  "new_tree = sc_start {1} 2 (\<lambda>_. null) Map.empty []"

definition tree_race :: "tid \<Rightarrow> (int, int) request list" where
  "tree_race = (\<lambda>_. [])(0 := [Insert_req 40 7], 1 := [Get_req 40])"

abbreviation tree_race_end ::
  "(int, int, bonsai_field, (int, int) bonsai_node, (bonsai_field, (int, int) bonsai_node) par) config" where
  "tree_race_end \<equiv> interleave par_api par_pin par_unpin (call bonsai_ops 1 (Suc (Suc 0))) [0, 1, 0, 1, 0, 1, 0, 0]
     (start_config (new_tree, \<lambda>_. None) tree_race)"

lemma new_tree_start: "sc_ok new_tree" "bonsai_rest 1 (sc_view new_tree)"
proof -
  show "sc_ok new_tree" unfolding new_tree_def by (rule sc_ok_start) auto
  have "bonsai_inv (sc_view new_tree) 1 ITip" by (simp add: new_tree_def bonsai_inv_def search_tree_def garbage_ok_start)
  then show "bonsai_rest 1 (sc_view new_tree)" by (auto simp: bonsai_rest_def new_tree_def)
qed

lemma tree_race_run: "running tree_race_end t = None"
  by (simp add: interleave_def tick_def tree_race_def bonsai_ops_def bonsai_insert_def bonsai_get_def is_retired_spot_def mk_node_def
      or_else_def node_size_def state_commit_def state_new_def add_new_node_def
      par_pin_def par_unpin_def Let_def par_api_def sc_api_def start_config_def new_tree_def sc_start_def)

theorem bonsai_no_leak_witness: "bonsai_rest 1 (par_view (state tree_race_end))"
  by (rule bonsai_no_leak[OF par.ebr_threads_axioms _ _ _ refl]) (use new_tree_start tree_race_run in \<open>auto simp: par_defs\<close>)

end
