(* ===== verification/Ebr_Progress.thy ===== *)
theory Ebr_Progress
  imports Smoke_Test Ebr_Concurrent Ebr_Bonsai_Concurrent
begin

text \<open>
  The maps of \<^verbatim>\<open>src/src/ebr\<close> keep the contract of theory \<^verbatim>\<open>Solo_Runs\<close>: from any configuration in which no
  call is in progress, the calls that are left can be finished.  So the smoke test, which the repository runs on each of
  them, cannot fail and can end.
\<close>

lemma list_inv_reclaim:
  assumes "list_inv m self xs"
  shows "list_inv (reclaim R m) self xs" "contents (reclaim R m) xs = contents m xs"
proof -
  have "frame {} m (reclaim R m)" by (auto simp: frame_def restrict_map_def)
  moreover have "garbage_ok (reclaim R m)" using assms by (simp add: list_inv_def garbage_ok_reclaim)
  ultimately show "list_inv (reclaim R m) self xs" "contents (reclaim R m) xs = contents m xs"
    using list_inv_frame[OF assms, of "{}" "reclaim R m"] by auto
qed

lemma list_repr_reclaim:
  assumes "list_repr self m M b"
  shows "list_repr self (reclaim R m) M b"
  using assms list_inv_reclaim[of m self _ R] by (auto simp: list_repr_def)

lemma hash_repr_reclaim:
  assumes "hash_repr self m M b"
  shows "hash_repr self (reclaim R m) M b"
proof -
  from assms obtain xss where x: "hash_inv self m xss" "hash_contents self m xss = M" "\<forall>xs\<in>set xss. length xs \<le> b"
    by (auto simp: hash_repr_def)
  have "list_inv (reclaim R m) (buckets self ! i) (xss ! i) \<and> contents (reclaim R m) (xss ! i) = contents m (xss ! i)"
    if "i < length xss" for i using list_inv_reclaim[OF hash_inv_bucket[OF x(1) that]] by blast
  then have "hash_inv self (reclaim R m) xss" using x(1) unfolding hash_inv_def by simp
  moreover have "hash_contents self (reclaim R m) xss = M"
    using x(2) list_inv_reclaim(2)[OF hash_inv_bucket[OF x(1) key_index_less[OF x(1)]]] by (auto simp: hash_contents_def)
  ultimately show ?thesis using x(3) by (auto simp: hash_repr_def)
qed

lemma bonsai_repr_reclaim:
  assumes "bonsai_repr self m M b"
  shows "bonsai_repr self (reclaim S m) M b"
proof -
  from assms obtain t where t: "bonsai_inv m self t" "tmap (erase t) = M" "tsize (erase t) \<le> b" by (auto simp: bonsai_repr_def)
  have "bonsai_inv (reclaim S m) self t"
    by (rule bonsai_inv_cong[OF t(1)]) (use bonsai_invD(4,7)[OF t(1)] in \<open>auto simp: restrict_map_def intro: garbage_ok_reclaim\<close>)
  with t(2,3) show ?thesis by (auto simp: bonsai_repr_def)
qed

section \<open>The contract\<close>

text \<open>Calls of an implementation of the trait return when they run alone.\<close>

lemma progressive_intro:
  assumes "shared_map absm Inv R idle (call D h n) rest" "map_impl D place repr"
    and "\<And>m M b S. repr h m M b \<Longrightarrow> repr h (reclaim S m) M b"
  shows "smoke_map absm Inv R idle (call D h n) rest (\<lambda>m b. \<exists>M. repr h m M b) n"
proof -
  have "progressive_map absm Inv R idle (call D h n) rest (\<lambda>m b. \<exists>M. repr h m M b) n"
  proof (rule progressive_map.intro[OF assms(1)], rule progressive_map_axioms.intro, goal_cases)
    case (1 m b q)
    then obtain M where "repr h m M b" by blast
    from map_impl.call_wp[OF assms(2) this 1(2)] show ?case by (rule wp_mono) blast
  next
    case (2 m b S)
    then show ?case using assms(3) by blast
  next
    case (3 m b b')
    then show ?case using map_impl.repr_mono[OF assms(2)] by blast
  qed
  then show ?thesis by (rule smoke_map.intro)
qed

interpretation HM_smoke: smoke_map "list_map (\<lambda>_. self)" "hm_inv (\<lambda>_. self)" "hm_rely (\<lambda>_. self)" hm_idle "call HMList_ops self n"
  "at_rest (\<lambda>_. self)" "\<lambda>m b. \<exists>M. list_repr self m M b" n for self n
  by (rule progressive_intro[OF HM_calls.shared_map_axioms HMList.map_impl_axioms]) (rule list_repr_reclaim)

interpretation H_smoke: smoke_map "list_map (\<lambda>_. self)" "hm_inv (\<lambda>_. self)" "hm_rely (\<lambda>_. self)" hm_idle "call HList_ops self n"
  "at_rest (\<lambda>_. self)" "\<lambda>m b. \<exists>M. list_repr self m M b" n for self n
  by (rule progressive_intro[OF H_calls.shared_map_axioms HList.map_impl_axioms]) (rule list_repr_reclaim)

interpretation HHS_smoke: smoke_map "list_map (\<lambda>_. self)" "hm_inv (\<lambda>_. self)" "hm_rely (\<lambda>_. self)" hm_idle "call HHSList_ops self n"
  "at_rest (\<lambda>_. self)" "\<lambda>m b. \<exists>M. list_repr self m M b" n for self n
  by (rule progressive_intro[OF HHS_calls.shared_map_axioms HHSList.map_impl_axioms]) (rule list_repr_reclaim)

interpretation bonsai_smoke: smoke_map "bonsai_map self" "b_inv self" "b_rely self" b_idle "call bonsai_ops self n" "bonsai_rest self"
  "\<lambda>m b. \<exists>M. bonsai_repr self m M b" n for self n
  by (rule progressive_intro[OF bonsai_shared.shared_map_axioms bonsai.map_impl_axioms]) (rule bonsai_repr_reclaim)

text \<open>A hash map without buckets cannot be called, so its contract has a condition.\<close>

lemma hash_smoke:
  assumes "buckets self \<noteq> []"
  shows "smoke_map (list_map (bucket_of self)) (hm_inv (bucket_of self)) (hm_rely (bucket_of self)) hm_idle
    (call hash_map_ops self n) (at_rest (bucket_of self)) (\<lambda>m b. \<exists>M. hash_repr self m M b) n"
  by (rule progressive_intro[OF _ hash_map.map_impl_axioms])
    (use HM_family.shared_map_axioms[of "bucket_of self" n] hash_repr_reclaim in \<open>auto simp: hash_call[OF assms]\<close>)

section \<open>The smoke test\<close>

text \<open>A map that has just been made, in a memory with no nodes.\<close>

lemma new_hash_map:
  assumes "hash_repr self m Map.empty 0" "obj m = Map.empty"
  shows "buckets self \<noteq> []" "at_rest (bucket_of self) m" "list_map (bucket_of self) m = Map.empty"
proof -
  from assms(1) obtain xss where x: "hash_inv self m xss" "\<forall>xs\<in>set xss. xs = []" by (auto simp: hash_repr_def)
  show "buckets self \<noteq> []" using x(1) by (simp add: hash_inv_def)
  have l: "list_inv m (bucket_of self k) []" for k
    using hash_inv_bucket[OF x(1) key_index_less[OF x(1)], of k] bspec[OF x(2) nth_mem[OF key_index_less[OF x(1)], of k]]
    by (simp add: bucket_of_def)
  then have n: "nodes m (bucket_of self k) = []" for k by (rule nodes_list_inv)
  show "at_rest (bucket_of self) m" using l assms(2) by (simp add: at_rest_def family_def n)
  show "list_map (bucket_of self) m = Map.empty" by (auto simp: list_map_def n contents_def)
qed

text \<open>
  C8: the smoke test on a hash map cannot fail.  For every hash function, every order in which the threads shuffle their keys
  and every interleaving of the thirty threads, no assertion fails in any of the three scopes; and once the last scope has
  been left, the map holds exactly the keys of the threads 15 to 29, each with its decimal representation.
\<close>

theorem smoke_never_fails:
  assumes "ebr_threads X pin unpin view pinned ok" "ok s" "\<forall>t. pinned s t = None"
    and "hash_repr self (view s) Map.empty 0" "obj (view s) = Map.empty" "permutes_keys shuffle"
  shows "smoke_outcome (list_map (bucket_of self)) view (smoke X pin unpin (call hash_map_ops self n) shuffle sched s)"
proof -
  note new = new_hash_map[OF assms(4,5)]
  show ?thesis by (rule smoke_map.smoke_correct[OF hash_smoke[OF new(1)] assms(1-3) new(2) assms(6) new(3)])
qed

definition smoke_table :: "int hash_map" where
  "smoke_table = \<lparr>hasher = (\<lambda>k. word_of_int (k div 7)), buckets = [1, 2, 3]\<rparr>"

definition smoke_memory :: "(list_field, (int, string) node) sc" where
  "smoke_memory = sc_start {1, 2, 3} 4 (\<lambda>_. null) Map.empty []"

lemma smoke_memory_facts:
  "par_ok (smoke_memory, \<lambda>_. None)" "\<forall>t. par_pinned (smoke_memory, \<lambda>_. None) t = None"
  "hash_repr smoke_table (par_view (smoke_memory, \<lambda>_. None)) Map.empty 0" "obj (par_view (smoke_memory, \<lambda>_. None)) = Map.empty"
  "permutes_keys (\<lambda>_ _. rev)"
proof -
  show "par_ok (smoke_memory, \<lambda>_. None)" unfolding smoke_memory_def par_start by (rule sc_ok_start) auto
  show "hash_repr smoke_table (par_view (smoke_memory, \<lambda>_. None)) Map.empty 0"
    unfolding hash_repr_def
  proof (intro exI[of _ "[[], [], []]"] conjI)
    show "hash_inv smoke_table (par_view (smoke_memory, \<lambda>_. None)) [[], [], []]"
      by (auto simp: hash_inv_def smoke_table_def smoke_memory_def list_inv_def contents_def less_Suc_eq numeral_eq_Suc)
    have "key_index smoke_table k < 3" for k by (simp add: key_index_def bucket_index_def smoke_table_def)
    then have "[[], [], []] ! key_index smoke_table k = ([] :: addr list)" for k
      using nth_mem[of "key_index smoke_table k" "[[], [], []] :: addr list list"] by (simp add: numeral_3_eq_3)
    then show "hash_contents smoke_table (par_view (smoke_memory, \<lambda>_. None)) [[], [], []] = Map.empty"
      by (auto simp: hash_contents_def contents_def fun_eq_iff)
  qed simp
qed (simp_all add: smoke_memory_def permutes_keys_def)

theorem smoke_never_fails_witness:
  "smoke_outcome (list_map (bucket_of smoke_table)) par_view
    (smoke par_api par_pin par_unpin (call hash_map_ops smoke_table 90000) (\<lambda>_ _. rev) (\<lambda>_. [3, 1, 4, 1, 5]) (smoke_memory, \<lambda>_. None))"
  by (rule smoke_never_fails[OF par.ebr_threads_axioms smoke_memory_facts])

text \<open>
  C9: the smoke test can finish.  There are schedules for the three scopes under which all threads return from all their
  90000 calls and are joined, when the loops may turn 90000 times; the scheduler may choose them after any shuffling.
\<close>

theorem smoke_can_finish:
  assumes "ebr_threads X pin unpin view pinned ok" "ok s" "\<forall>t. pinned s t = None"
    and "hash_repr self (view s) Map.empty 0" "obj (view s) = Map.empty" "permutes_keys shuffle" "90000 \<le> n"
  shows "\<exists>sched s'. smoke X pin unpin (call hash_map_ops self n) shuffle sched s = Joined s'"
proof -
  note new = new_hash_map[OF assms(4,5)]
  show ?thesis
    by (rule smoke_map.smoke_finishes[OF hash_smoke[OF new(1)] assms(1-3) new(2) assms(6) new(3)]) (use assms(4,7) in blast)+
qed

theorem smoke_can_finish_witness:
  "\<exists>sched s'. smoke par_api par_pin par_unpin (call hash_map_ops smoke_table 90000) (\<lambda>_ _. rev) sched (smoke_memory, \<lambda>_. None) = Joined s'"
  by (rule smoke_can_finish[OF par.ebr_threads_axioms smoke_memory_facts order_refl])

text \<open>
  C10: the smoke test on a \<^verbatim>\<open>BonsaiTreeMap\<close>, in the same sense: for every shuffling, no assertion fails on any schedule,
  and there are schedules on which all thirty threads return from all their calls.
\<close>

theorem bonsai_smoke_test:
  assumes "ebr_threads X pin unpin view pinned ok" "ok s" "\<forall>t. pinned s t = None"
    and "bonsai_repr self (view s) Map.empty 0" "obj (view s) = Map.empty" "permutes_keys shuffle" "90000 \<le> n"
  shows "(\<forall>sched. smoke_outcome (bonsai_map self) view (smoke X pin unpin (call bonsai_ops self n) shuffle sched s)) \<and>
    (\<exists>sched s'. smoke X pin unpin (call bonsai_ops self n) shuffle sched s = Joined s')"
proof -
  from assms(4) obtain t where t: "bonsai_inv (view s) self t" "tmap (erase t) = Map.empty" by (auto simp: bonsai_repr_def)
  then have r: "bonsai_rest self (view s)" "bonsai_map self (view s) = Map.empty"
    using assms(5) bonsai_map[OF t(1)] by (auto simp: bonsai_rest_def)
  show ?thesis
    using bonsai_smoke.smoke_correct[OF assms(1-3) r(1) assms(6) r(2)] bonsai_smoke.smoke_finishes[OF assms(1-3) r(1) assms(6) r(2)]
      assms(4,7) by blast
qed

definition smoke_tree :: "(bonsai_field, (int, string) bonsai_node) sc" where
  "smoke_tree = sc_start {1} 2 (\<lambda>_. null) Map.empty []"

lemma smoke_tree_facts:
  "par_ok (smoke_tree, \<lambda>_. None)" "\<forall>t. par_pinned (smoke_tree, \<lambda>_. None) t = None"
  "bonsai_repr 1 (par_view (smoke_tree, \<lambda>_. None)) Map.empty 0" "obj (par_view (smoke_tree, \<lambda>_. None)) = Map.empty"
proof -
  show "par_ok (smoke_tree, \<lambda>_. None)" unfolding smoke_tree_def par_start by (rule sc_ok_start) auto
  have "bonsai_inv (par_view (smoke_tree, \<lambda>_. None)) 1 ITip"
    by (simp add: smoke_tree_def bonsai_inv_def search_tree_def garbage_ok_start)
  then show "bonsai_repr 1 (par_view (smoke_tree, \<lambda>_. None)) Map.empty 0" by (auto simp: bonsai_repr_def tmap_def intro!: exI[of _ ITip])
qed (simp_all add: smoke_tree_def)

theorem bonsai_smoke_test_witness:
  "(\<forall>sched. smoke_outcome (bonsai_map 1) par_view
      (smoke par_api par_pin par_unpin (call bonsai_ops 1 90000) (\<lambda>_ _. rev) sched (smoke_tree, \<lambda>_. None))) \<and>
    (\<exists>sched s'. smoke par_api par_pin par_unpin (call bonsai_ops 1 90000) (\<lambda>_ _. rev) sched (smoke_tree, \<lambda>_. None) = Joined s')"
  by (rule bonsai_smoke_test[OF par.ebr_threads_axioms smoke_tree_facts smoke_memory_facts(5) order_refl])

text \<open>The three lists.\<close>

lemma new_list:
  assumes "list_repr self m Map.empty 0" "obj m = Map.empty"
  shows "at_rest (\<lambda>_. self) m" "list_map (\<lambda>_. self) m = Map.empty"
proof -
  from assms(1) obtain xs where x: "list_inv m self xs" "contents m xs = Map.empty" "length xs \<le> 0" by (auto simp: list_repr_def)
  then have l: "list_inv m self []" by simp
  then have n: "nodes m self = []" by (rule nodes_list_inv)
  show "at_rest (\<lambda>_. self) m" using l assms(2) by (simp add: at_rest_def family_def n)
  show "list_map (\<lambda>_. self) m = Map.empty" by (auto simp: list_map_def n contents_def)
qed

theorem lists_smoke_test:
  assumes "ebr_threads X pin unpin view pinned ok" "ok s" "\<forall>t. pinned s t = None"
    and "list_repr self (view s) Map.empty 0" "obj (view s) = Map.empty" "permutes_keys shuffle" "90000 \<le> n"
    and "L \<in> {HList_ops, HMList_ops, HHSList_ops}"
  shows "(\<forall>sched. smoke_outcome (list_map (\<lambda>_. self)) view (smoke X pin unpin (call L self n) shuffle sched s)) \<and>
    (\<exists>sched s'. smoke X pin unpin (call L self n) shuffle sched s = Joined s')"
proof -
  note r = new_list[OF assms(4,5)]
  note go = assms(1-3) r(1) assms(6) r(2)
  show ?thesis
    using H_smoke.smoke_correct[OF go] H_smoke.smoke_finishes[OF go] HM_smoke.smoke_correct[OF go] HM_smoke.smoke_finishes[OF go]
      HHS_smoke.smoke_correct[OF go] HHS_smoke.smoke_finishes[OF go] assms(4,7,8) by blast
qed

end
