(* ===== verification/Ebr_Nm_Tree.thy ===== *)
theory Ebr_Nm_Tree
  imports Crossbeam
begin

unbundle bit_operations_syntax

text \<open>
  \<^verbatim>\<open>src/src/ebr/natarajan_mittal_tree.rs\<close>: a binary search tree that keeps its entries in the
  leaves.  A removal flags the edge to its leaf, tags the edge to the sibling, and splices the sibling into the
  place of an ancestor; every operation that runs into a marked edge helps.  Loops take a fuel argument.
\<close>

section \<open>Data\<close>

text \<open>\<^verbatim>\<open>Marks\<close>: two bits of the tag of an edge.\<close>

definition MARK_FLAG :: nat where
  "MARK_FLAG = push_bit 1 1"

definition MARK_TAG :: nat where
  "MARK_TAG = push_bit 0 1"

definition marks_new :: "bool \<Rightarrow> bool \<Rightarrow> nat" where
  "marks_new flag tg = (if flag then MARK_FLAG else 0) OR (if tg then MARK_TAG else 0)"

definition from_bits_truncate :: "nat \<Rightarrow> nat" where
  "from_bits_truncate b = b AND (MARK_FLAG OR MARK_TAG)"

definition marks_flag :: "nat \<Rightarrow> bool" where
  "marks_flag m \<longleftrightarrow> m AND MARK_FLAG \<noteq> 0"

definition marks_tag :: "nat \<Rightarrow> bool" where
  "marks_tag m \<longleftrightarrow> m AND MARK_TAG \<noteq> 0"

datatype 'k nm_key = Fin 'k | Inf

text \<open>
  \<^verbatim>\<open>PartialOrd for Key<K>\<close>: the finite keys in their order, below \<^verbatim>\<open>Inf\<close>.  The order that
  \<^verbatim>\<open>derive(Ord)\<close> generates compares the variants in their order of declaration, then their arguments.
\<close>

fun nm_key_partial_cmp :: "'k::linorder nm_key \<Rightarrow> 'k nm_key \<Rightarrow> ordering option" where
  "nm_key_partial_cmp (Fin k1) (Fin k2) = Some (cmp k1 k2)"
| "nm_key_partial_cmp (Fin _) Inf = Some Less"
| "nm_key_partial_cmp Inf (Fin _) = Some Greater"
| "nm_key_partial_cmp Inf Inf = Some Equal"

fun nm_key_variant :: "'k nm_key \<Rightarrow> nat" where
  "nm_key_variant (Fin _) = 0"
| "nm_key_variant Inf = 1"

definition nm_key_derived_cmp :: "'k::linorder nm_key \<Rightarrow> 'k nm_key \<Rightarrow> ordering" where
  "nm_key_derived_cmp a b =
     (case (a, b) of (Fin k1, Fin k2) \<Rightarrow> cmp k1 k2 | _ \<Rightarrow> cmp (nm_key_variant a) (nm_key_variant b))"

instantiation nm_key :: (linorder) linorder
begin

definition less_nm_key :: "'a nm_key \<Rightarrow> 'a nm_key \<Rightarrow> bool" where
  "less_nm_key a b \<longleftrightarrow> nm_key_partial_cmp a b = Some Less"

definition less_eq_nm_key :: "'a nm_key \<Rightarrow> 'a nm_key \<Rightarrow> bool" where
  "less_eq_nm_key a b \<longleftrightarrow> a = b \<or> a < b"

instance
proof
  fix x y z :: "'a nm_key"
  show "x < y \<longleftrightarrow> x \<le> y \<and> \<not> y \<le> x"
    unfolding less_eq_nm_key_def less_nm_key_def by (cases x; cases y) (auto simp: cmp_def)
  show "x \<le> y \<Longrightarrow> y \<le> z \<Longrightarrow> x \<le> z"
    unfolding less_eq_nm_key_def less_nm_key_def by (cases x; cases y; cases z) (auto simp: cmp_def split: if_splits)
  show "x \<le> y \<Longrightarrow> y \<le> x \<Longrightarrow> x = y"
    unfolding less_eq_nm_key_def less_nm_key_def by (cases x; cases y) (auto simp: cmp_def split: if_splits)
  show "x \<le> x" unfolding less_eq_nm_key_def by simp
  show "x \<le> y \<or> y \<le> x" unfolding less_eq_nm_key_def less_nm_key_def by (cases x; cases y) (auto simp: cmp_def)
qed

end

lemma less_nm_key_simps [simp]:
  "Fin a < Fin b \<longleftrightarrow> a < b" "Fin a < Inf" "\<not> Inf < k"
  unfolding less_nm_key_def by (auto simp: cmp_def) (cases k; simp)

text \<open>\<^verbatim>\<open>PartialEq<K>\<close>, \<^verbatim>\<open>PartialOrd<K>\<close> and \<^verbatim>\<open>Key::cmp\<close>, against a key of the map.\<close>

fun nm_key_eq :: "'k nm_key \<Rightarrow> 'k \<Rightarrow> bool" where
  "nm_key_eq (Fin k) rhs \<longleftrightarrow> k = rhs"
| "nm_key_eq Inf rhs \<longleftrightarrow> False"

fun nm_key_partial_cmp_key :: "'k::linorder nm_key \<Rightarrow> 'k \<Rightarrow> ordering option" where
  "nm_key_partial_cmp_key (Fin k) rhs = Some (cmp k rhs)"
| "nm_key_partial_cmp_key Inf rhs = Some Greater"

fun nm_key_cmp :: "'k::linorder nm_key \<Rightarrow> 'k \<Rightarrow> ordering" where
  "nm_key_cmp (Fin k) rhs = cmp k rhs"
| "nm_key_cmp Inf rhs = Greater"

datatype nm_field = Nm_left | Nm_right

record ('k, 'v) nm_node =
  nkey :: "'k nm_key"
  nvalue :: "'v option"

type_synonym ('k, 'v, 'a) nm_prog = "(nm_field, ('k, 'v) nm_node, 'a) prog"
type_synonym ('k, 'v) nm_mem = "(nm_field, ('k, 'v) nm_node) mem"

text \<open>A node that is not in memory yet: its plain fields and the initial contents of the others.\<close>

type_synonym ('k, 'v) nm_value = "('k, 'v) nm_node \<times> (nm_field \<times> shared) list"

definition new_leaf :: "'k nm_key \<Rightarrow> 'v option \<Rightarrow> ('k, 'v) nm_value" where
  "new_leaf k v = (\<lparr>nkey = k, nvalue = v\<rparr>, [(Nm_left, null), (Nm_right, null)])"

definition atomic_from :: "('k, 'v) nm_value \<Rightarrow> (shared \<Rightarrow> ('k, 'v, 'a) nm_prog) \<Rightarrow> ('k, 'v, 'a) nm_prog" where
  "atomic_from n k = Owned_new (fst n) (snd n) k"

definition new_internal ::
  "('k, 'v) nm_value \<Rightarrow> ('k, 'v) nm_value \<Rightarrow> ('k, 'v, ('k, 'v) nm_value) nm_prog" where
  "new_internal left right =
     atomic_from left (\<lambda>l. atomic_from right (\<lambda>r.
       Ret (\<lparr>nkey = nkey (fst right), nvalue = None\<rparr>, [(Nm_left, l), (Nm_right, r)])))"

datatype direction = Dir_L | Dir_R

record seek_record =
  ancestor :: shared
  successor :: shared
  successor_dir :: direction
  parent :: shared
  leaf :: shared
  leaf_dir :: direction

definition successor_addr :: "seek_record \<Rightarrow> nm_field loc" where
  "successor_addr self =
     (case successor_dir self of Dir_L \<Rightarrow> (raw (ancestor self), Nm_left) | Dir_R \<Rightarrow> (raw (ancestor self), Nm_right))"

definition leaf_addr :: "seek_record \<Rightarrow> nm_field loc" where
  "leaf_addr self = (case leaf_dir self of Dir_L \<Rightarrow> (raw (parent self), Nm_left) | Dir_R \<Rightarrow> (raw (parent self), Nm_right))"

definition leaf_sibling_addr :: "seek_record \<Rightarrow> nm_field loc" where
  "leaf_sibling_addr self =
     (case leaf_dir self of Dir_L \<Rightarrow> (raw (parent self), Nm_right) | Dir_R \<Rightarrow> (raw (parent self), Nm_left))"

section \<open>The tree\<close>

text \<open>
  The root \<^verbatim>\<open>r\<close> is a field of the map, at the map's address; its key and value are what
  \<^verbatim>\<open>new_internal\<close> gives it and never change.
\<close>

definition nm_new :: "addr \<Rightarrow> ('k, 'v, unit) nm_prog" where
  "nm_new self =
     (let inf0 = new_leaf Inf None; inf1 = new_leaf Inf None; inf2 = new_leaf Inf None in
      bind (new_internal inf0 inf1) (\<lambda>s.
      bind (new_internal s inf2) (\<lambda>r.
      Store (self, Nm_left) (the (map_of (snd r) Nm_left)) (
      Store (self, Nm_right) (the (map_of (snd r) Nm_right)) (Ret ())))))"

text \<open>A \<^verbatim>\<open>Vec\<close> used as a stack is the list of its elements, last one first.\<close>

fun nm_drop_loop :: "nat \<Rightarrow> shared list \<Rightarrow> ('k, 'v, unit) nm_prog" where
  "nm_drop_loop 0 stack = Out_of_fuel"
| "nm_drop_loop (Suc n) [] = Ret ()"
| "nm_drop_loop (Suc n) (node # stack) =
     (if is_null node then nm_drop_loop n stack
      else Load (raw node, Nm_left) (\<lambda>left.
        Load (raw node, Nm_right) (\<lambda>right.
          Drop_owned node (nm_drop_loop n (right # left # stack)))))"

text \<open>
  \<^verbatim>\<open>assert!(self.r.value.is_none())\<close> cannot fail and is left out: the root is a field of the map, its value is set to \<^verbatim>\<open>None\<close>
  by \<^verbatim>\<open>new\<close> and never written, and only its links are part of the model.
\<close>

definition nm_drop :: "nat \<Rightarrow> addr \<Rightarrow> ('k, 'v, unit) nm_prog" where
  "nm_drop n self =
     Load (self, Nm_left) (\<lambda>left. Load (self, Nm_right) (\<lambda>right. nm_drop_loop n [right, left]))"

fun seek_loop ::
  "nat \<Rightarrow> 'k::linorder \<Rightarrow> seek_record \<Rightarrow> bool \<Rightarrow> direction \<Rightarrow> shared \<Rightarrow> ('k, 'v, seek_record) nm_prog" where
  "seek_loop 0 k record prev_tag curr_dir cur = Out_of_fuel"
| "seek_loop (Suc n) k record prev_tag curr_dir cur =
     (if is_null cur then Ret record
      else Deref cur (\<lambda>curr_node.
        let record =
              (if \<not> prev_tag
               then record\<lparr>ancestor := parent record, successor := leaf record, successor_dir := leaf_dir record\<rparr>
               else record);
            record = record\<lparr>parent := leaf record, leaf := with_tag cur 0, leaf_dir := curr_dir\<rparr>;
            prev_tag = marks_tag (from_bits_truncate (tag cur))
        in if nm_key_cmp (nkey curr_node) k = Greater
           then Load (raw cur, Nm_left) (\<lambda>cur. seek_loop n k record prev_tag Dir_L cur)
           else Load (raw cur, Nm_right) (\<lambda>cur. seek_loop n k record prev_tag Dir_R cur)))"

definition seek :: "nat \<Rightarrow> addr \<Rightarrow> 'k::linorder \<Rightarrow> ('k, 'v, seek_record) nm_prog" where
  "seek n self k =
     Load (self, Nm_left) (\<lambda>s.
     Load (raw s, Nm_left) (\<lambda>p.
       let lf = with_tag p 0;
           record = \<lparr>ancestor = Shared self 0, successor = s, successor_dir = Dir_L, parent = s, leaf = lf, leaf_dir = Dir_L\<rparr>;
           prev_tag = marks_tag (from_bits_truncate (tag lf))
       in Load (raw lf, Nm_left) (\<lambda>cur. seek_loop n k record prev_tag Dir_L cur)))"

fun destroy_subtree :: "nat \<Rightarrow> shared \<Rightarrow> shared list \<Rightarrow> ('k, 'v, unit) nm_prog" where
  "destroy_subtree 0 target_sibling stack = Out_of_fuel"
| "destroy_subtree (Suc n) target_sibling [] = Ret ()"
| "destroy_subtree (Suc n) target_sibling (node # stack) =
     (if is_null node \<or> with_tag node 0 = with_tag target_sibling 0 then destroy_subtree n target_sibling stack
      else Load (raw node, Nm_left) (\<lambda>left.
        Load (raw node, Nm_right) (\<lambda>right.
          Defer_destroy node (destroy_subtree n target_sibling (right # left # stack)))))"

definition cleanup :: "nat \<Rightarrow> seek_record \<Rightarrow> ('k, 'v, bool) nm_prog" where
  "cleanup n record =
     Load (leaf_addr record) (\<lambda>leaf_marked.
       let leaf_flag = marks_flag (from_bits_truncate (tag leaf_marked));
           target_sibling_addr = (if leaf_flag then leaf_sibling_addr record else leaf_addr record)
       in Fetch_or target_sibling_addr MARK_TAG (\<lambda>_.
          Load target_sibling_addr (\<lambda>target_sibling.
            let flag = marks_flag (from_bits_truncate (tag target_sibling)) in
            Compare_and_set (successor_addr record) (successor record) (with_tag target_sibling (marks_new flag False)) (\<lambda>r.
              case r of
                Inl _ \<Rightarrow> Ret False
              | Inr _ \<Rightarrow> bind (destroy_subtree n target_sibling [successor record]) (\<lambda>_. Ret True)))))"

definition nm_get :: "nat \<Rightarrow> addr \<Rightarrow> 'k::linorder \<Rightarrow> ('k, 'v, 'v option) nm_prog" where
  "nm_get n self k =
     bind (seek n self k) (\<lambda>record.
       Deref (leaf record) (\<lambda>leaf_node.
         if nm_key_cmp (nkey leaf_node) k \<noteq> Equal then Ret None
         else case nvalue leaf_node of None \<Rightarrow> Panic | Some v \<Rightarrow> Ret (Some v)))"

text \<open>Giving the two nodes of an insertion back; the value is taken out of the leaf first.\<close>

definition take_back :: "'k \<Rightarrow> shared \<Rightarrow> shared \<Rightarrow> ('k, 'v, 'k \<times> 'v + unit) nm_prog" where
  "take_back k nleaf ninternal =
     Deref nleaf (\<lambda>nd.
       Deref_mut nleaf (nd\<lparr>nvalue := None\<rparr>) (
         case nvalue nd of
           None \<Rightarrow> Panic
         | Some v \<Rightarrow> Drop_owned nleaf (Drop_owned ninternal (Ret (Inl (k, v))))))"

fun nm_insert_loop ::
  "nat \<Rightarrow> nat \<Rightarrow> addr \<Rightarrow> 'k::linorder \<Rightarrow> shared \<Rightarrow> shared \<Rightarrow> ('k, 'v, 'k \<times> 'v + unit) nm_prog" where
  "nm_insert_loop 0 n self k nleaf ninternal = Out_of_fuel"
| "nm_insert_loop (Suc i) n self k nleaf ninternal =
     bind (seek n self k) (\<lambda>record.
       Deref (leaf record) (\<lambda>leaf_node.
         let go = (\<lambda>new_left new_right.
           Deref ninternal (\<lambda>new_internal_node.
           Deref new_right (\<lambda>right_node.
           Deref_mut ninternal (new_internal_node\<lparr>nkey := nkey right_node\<rparr>) (
           Store (raw ninternal, Nm_left) new_left (
           Store (raw ninternal, Nm_right) new_right (
           Compare_and_set (leaf_addr record) (leaf record) ninternal (\<lambda>r.
             case r of
               Inr _ \<Rightarrow> Ret (Inr ())
             | Inl e \<Rightarrow>
                 if with_tag e 0 = leaf record
                 then bind (cleanup n record) (\<lambda>_. nm_insert_loop i n self k nleaf ninternal)
                 else nm_insert_loop i n self k nleaf ninternal)))))))
         in case nm_key_cmp (nkey leaf_node) k of
              Equal \<Rightarrow> take_back k nleaf ninternal
            | Greater \<Rightarrow> go nleaf (leaf record)
            | Less \<Rightarrow> go (leaf record) nleaf))"

definition nm_insert :: "nat \<Rightarrow> addr \<Rightarrow> 'k::linorder \<Rightarrow> 'v \<Rightarrow> ('k, 'v, 'k \<times> 'v + unit) nm_prog" where
  "nm_insert n self k v =
     atomic_from (new_leaf (Fin k) (Some v)) (\<lambda>nleaf.
     Owned_new \<lparr>nkey = Inf, nvalue = None\<rparr> [(Nm_left, null), (Nm_right, null)] (\<lambda>ninternal.
       nm_insert_loop n n self k nleaf ninternal))"

fun nm_remove_cleanup :: "nat \<Rightarrow> nat \<Rightarrow> addr \<Rightarrow> 'k::linorder \<Rightarrow> shared \<Rightarrow> 'v \<Rightarrow> ('k, 'v, 'v option) nm_prog" where
  "nm_remove_cleanup 0 n self k lf v = Out_of_fuel"
| "nm_remove_cleanup (Suc i) n self k lf v =
     bind (seek n self k) (\<lambda>record.
       if leaf record \<noteq> lf then Ret (Some v)
       else bind (cleanup n record) (\<lambda>unlinked.
         if unlinked then Ret (Some v) else nm_remove_cleanup i n self k lf v))"

fun nm_remove_loop :: "nat \<Rightarrow> nat \<Rightarrow> addr \<Rightarrow> 'k::linorder \<Rightarrow> ('k, 'v, 'v option) nm_prog" where
  "nm_remove_loop 0 n self k = Out_of_fuel"
| "nm_remove_loop (Suc i) n self k =
     bind (seek n self k) (\<lambda>record.
       if is_null (leaf record) then Panic
       else Deref (leaf record) (\<lambda>temp_leaf_node.
         if nm_key_cmp (nkey temp_leaf_node) k \<noteq> Equal then Ret None
         else case nvalue temp_leaf_node of
           None \<Rightarrow> Panic
         | Some temp_value \<Rightarrow>
             Compare_and_set (leaf_addr record) (leaf record) (with_tag (leaf record) (marks_new True False)) (\<lambda>r.
               case r of
                 Inr _ \<Rightarrow>
                   bind (cleanup n record) (\<lambda>unlinked.
                     if unlinked then Ret (Some temp_value)
                     else nm_remove_cleanup n n self k (leaf record) temp_value)
               | Inl e \<Rightarrow>
                   if leaf record = with_tag e 0
                   then bind (cleanup n record) (\<lambda>_. nm_remove_loop i n self k)
                   else nm_remove_loop i n self k)))"

definition nm_remove :: "nat \<Rightarrow> addr \<Rightarrow> 'k::linorder \<Rightarrow> ('k, 'v, 'v option) nm_prog" where
  "nm_remove n self k = nm_remove_loop n n self k"

section \<open>The map\<close>

text \<open>
  Whatever the tree, splicing out one leaf pops at most five pointers from the stack of
  \<^verbatim>\<open>cleanup\<close>; a call gets that much more fuel.
\<close>

definition NMTreeMap_new :: "addr \<Rightarrow> ('k, 'v, unit) nm_prog" where
  "NMTreeMap_new self = nm_new self"

definition NMTreeMap_get :: "addr \<Rightarrow> nat \<Rightarrow> 'k::linorder \<Rightarrow> ('k, 'v, 'v option) nm_prog" where
  "NMTreeMap_get self n k = nm_get (n + 6) self k"

definition NMTreeMap_insert :: "addr \<Rightarrow> nat \<Rightarrow> 'k::linorder \<Rightarrow> 'v \<Rightarrow> ('k, 'v, bool) nm_prog" where
  "NMTreeMap_insert self n k v = bind (nm_insert (n + 6) self k v) (\<lambda>r. Ret (\<not> isl r))"

definition NMTreeMap_remove :: "addr \<Rightarrow> nat \<Rightarrow> 'k::linorder \<Rightarrow> ('k, 'v, 'v option) nm_prog" where
  "NMTreeMap_remove self n k = nm_remove (n + 6) self k"

end
