(* ===== verification/Nm_Spec.thy ===== *)
theory Nm_Spec
  imports Ebr_Nm_Tree
begin

text \<open>
  The shape of a Natarajan-Mittal tree in memory and what its entries mean, shared by the proofs about
  \<^verbatim>\<open>src/src/ebr/natarajan_mittal_tree.rs\<close> and \<^verbatim>\<open>src/src/pebr/natarajan_mittal_tree.rs\<close>:
  the path a search takes, and the trees that an insertion and a removal leave.
\<close>

section \<open>Trees of addresses\<close>

datatype nm_tree = Tip addr | Fork nm_tree addr nm_tree

fun apex :: "nm_tree \<Rightarrow> addr" where
  "apex (Tip a) = a"
| "apex (Fork l a r) = a"

fun addrs :: "nm_tree \<Rightarrow> addr list" where
  "addrs (Tip a) = [a]"
| "addrs (Fork l a r) = a # addrs l @ addrs r"

fun leaves :: "nm_tree \<Rightarrow> addr list" where
  "leaves (Tip a) = [a]"
| "leaves (Fork l a r) = leaves l @ leaves r"

lemma apex_addrs [simp]: "apex t \<in> set (addrs t)"
  by (cases t) auto

lemma leaves_addrs: "set (leaves t) \<subseteq> set (addrs t)"
  by (induction t) auto

lemma leaves_ne [simp]: "leaves t \<noteq> []"
  by (induction t) auto

lemma length_addrs: "Suc (length (addrs t)) = 2 * length (leaves t)"
  by (induction t) auto

fun fld :: "direction \<Rightarrow> nm_field" where
  "fld Dir_L = Nm_left"
| "fld Dir_R = Nm_right"

section \<open>Trees in memory\<close>

definition nkey_at :: "('k, 'v) nm_mem \<Rightarrow> addr \<Rightarrow> 'k nm_key" where
  "nkey_at m a = (case obj m a of Some n \<Rightarrow> nkey n | None \<Rightarrow> Inf)"

definition nval_at :: "('k, 'v) nm_mem \<Rightarrow> addr \<Rightarrow> 'v option" where
  "nval_at m a = (case obj m a of Some n \<Rightarrow> nvalue n | None \<Rightarrow> None)"

lemma nkey_val_Some: "obj m a = Some n \<Longrightarrow> nkey_at m a = nkey n \<and> nval_at m a = nvalue n"
  by (simp add: nkey_at_def nval_at_def)

fun shaped :: "('k, 'v) nm_mem \<Rightarrow> nm_tree \<Rightarrow> bool" where
  "shaped m (Tip a) \<longleftrightarrow> obj m a \<noteq> None \<and> cell m (a, Nm_left) = null \<and> cell m (a, Nm_right) = null"
| "shaped m (Fork l a r) \<longleftrightarrow> obj m a \<noteq> None \<and> cell m (a, Nm_left) = Shared (apex l) 0 \<and>
     cell m (a, Nm_right) = Shared (apex r) 0 \<and> shaped m l \<and> shaped m r"

fun ordered :: "('k::linorder, 'v) nm_mem \<Rightarrow> nm_tree \<Rightarrow> bool" where
  "ordered m (Tip a) \<longleftrightarrow> True"
| "ordered m (Fork l a r) \<longleftrightarrow> (\<forall>x\<in>set (leaves l). nkey_at m x < nkey_at m a) \<and>
     (\<forall>x\<in>set (leaves r). nkey_at m a \<le> nkey_at m x) \<and> ordered m l \<and> ordered m r"

fun entries :: "('k, 'v) nm_mem \<Rightarrow> nm_tree \<Rightarrow> 'k nm_key \<rightharpoonup> 'v" where
  "entries m (Tip a) = (\<lambda>k. if k = nkey_at m a then nval_at m a else None)"
| "entries m (Fork l a r) = entries m l ++ entries m r"

definition nm_contents :: "('k, 'v) nm_mem \<Rightarrow> nm_tree \<Rightarrow> 'k \<rightharpoonup> 'v" where
  "nm_contents m t k = entries m t (Fin k)"

lemma shaped_obj: "shaped m t \<Longrightarrow> a \<in> set (addrs t) \<Longrightarrow> obj m a \<noteq> None"
  by (induction t) auto

lemma shaped_leaf: "shaped m t \<Longrightarrow> x \<in> set (leaves t) \<Longrightarrow> cell m (x, Nm_left) = null \<and> cell m (x, Nm_right) = null"
  by (induction t) auto

lemma shaped_cong:
  assumes "\<And>a. a \<in> set (addrs t) \<Longrightarrow> obj m' a = obj m a" "\<And>a f. a \<in> set (addrs t) \<Longrightarrow> cell m' (a, f) = cell m (a, f)"
  shows "shaped m' t = shaped m t"
  using assms by (induction t) auto

lemma ordered_cong:
  assumes "\<And>a. a \<in> set (addrs t) \<Longrightarrow> nkey_at m' a = nkey_at m a"
  shows "ordered m' t = ordered m t"
  using assms by (induction t) (use leaves_addrs in \<open>auto simp: subset_eq\<close>)

lemma entries_cong:
  assumes "\<And>a. a \<in> set (leaves t) \<Longrightarrow> nkey_at m' a = nkey_at m a \<and> nval_at m' a = nval_at m a"
  shows "entries m' t = entries m t"
  using assms by (induction t) auto

lemma dom_entries: "dom (entries m t) \<subseteq> nkey_at m ` set (leaves t)"
  by (induction t) (auto simp: dom_def split: if_splits)

lemma entries_None: "x \<notin> nkey_at m ` set (leaves t) \<Longrightarrow> entries m t x = None"
  using dom_entries by fastforce

section \<open>Searching\<close>

fun target :: "('k::linorder, 'v) nm_mem \<Rightarrow> 'k \<Rightarrow> nm_tree \<Rightarrow> addr" where
  "target m k (Tip a) = a"
| "target m k (Fork l a r) = (if Fin k < nkey_at m a then target m k l else target m k r)"

lemma target_leaf [simp]: "target m k t \<in> set (leaves t)"
  by (induction t) auto

lemma entries_left: "\<forall>x\<in>set (leaves r). nkey_at m a \<le> nkey_at m x \<Longrightarrow> k < nkey_at m a \<Longrightarrow> entries m r k = None"
  by (rule entries_None) (auto dest: bspec)

lemma entries_right: "\<forall>x\<in>set (leaves l). nkey_at m x < nkey_at m a \<Longrightarrow> \<not> k < nkey_at m a \<Longrightarrow> entries m l k = None"
  by (rule entries_None) auto

lemma target_lookup:
  assumes "ordered m t"
  shows "entries m t (Fin k) = (if nkey_at m (target m k t) = Fin k then nval_at m (target m k t) else None)"
  using assms
proof (induction t)
  case (Fork l a r)
  then show ?case
    using entries_left[of r m a "Fin k"] entries_right[of l m a "Fin k"]
    by (auto simp: map_add_def split: option.splits)
qed auto

text \<open>The record of a search: from the edge \<open>g\<close> \<open>\<rightarrow>\<close> \<open>p\<close> and the edge \<open>p\<close> \<open>\<rightarrow>\<close> \<open>t\<close>.\<close>

fun seek_at :: "('k::linorder, 'v) nm_mem \<Rightarrow> 'k \<Rightarrow> addr \<Rightarrow> direction \<Rightarrow> addr \<Rightarrow> direction \<Rightarrow> nm_tree \<Rightarrow> seek_record" where
  "seek_at m k g gd p pd (Tip a) =
     \<lparr>ancestor = Shared g 0, successor = Shared p 0, successor_dir = gd, parent = Shared p 0, leaf = Shared a 0, leaf_dir = pd\<rparr>"
| "seek_at m k g gd p pd (Fork l a r) =
     (if Fin k < nkey_at m a then seek_at m k p pd a Dir_L l else seek_at m k p pd a Dir_R r)"

lemma seek_at_leaf [simp]: "leaf (seek_at m k g gd p pd t) = Shared (target m k t) 0"
  by (induction t arbitrary: g gd p pd) auto

fun depth :: "nm_tree \<Rightarrow> nat" where
  "depth (Tip a) = 0"
| "depth (Fork l a r) = Suc (max (depth l) (depth r))"

lemma depth_leaves: "depth t < length (leaves t)"
proof (induction t)
  case (Fork l a r)
  moreover have "0 < length (leaves l)" "0 < length (leaves r)" by simp_all
  ultimately show ?case by (simp del: length_greater_0_conv)
qed simp

section \<open>Inserting\<close>

fun graft :: "('k::linorder, 'v) nm_mem \<Rightarrow> 'k \<Rightarrow> addr \<Rightarrow> addr \<Rightarrow> nm_tree \<Rightarrow> nm_tree" where
  "graft m k y z (Tip a) = (if Fin k < nkey_at m a then Fork (Tip y) z (Tip a) else Fork (Tip a) z (Tip y))"
| "graft m k y z (Fork l a r) =
     (if Fin k < nkey_at m a then Fork (graft m k y z l) a r else Fork l a (graft m k y z r))"

lemma addrs_graft: "mset (addrs (graft m k y z t)) = mset (addrs t) + {#y, z#}"
  by (induction t) auto

lemma leaves_graft: "mset (leaves (graft m k y z t)) = mset (leaves t) + {#y#}"
  by (induction t) auto

lemma set_addrs_graft: "set (addrs (graft m k y z t)) = insert y (insert z (set (addrs t)))"
  using arg_cong[OF addrs_graft[of m k y z t], of set_mset] by auto

lemma set_leaves_graft: "set (leaves (graft m k y z t)) = insert y (set (leaves t))"
  using arg_cong[OF leaves_graft[of m k y z t], of set_mset] by simp

lemma distinct_graft:
  "distinct (addrs t) \<Longrightarrow> y \<notin> set (addrs t) \<Longrightarrow> z \<notin> set (addrs t) \<Longrightarrow> y \<noteq> z \<Longrightarrow> distinct (addrs (graft m k y z t))"
  by (induction t) (auto simp: set_addrs_graft)

lemma graft_ordered:
  assumes "ordered m t" "nkey_at m' y = Fin k" "nkey_at m' z = max (Fin k) (nkey_at m (target m k t))"
    and "nkey_at m (target m k t) \<noteq> Fin k" "\<And>a. a \<in> set (addrs t) \<Longrightarrow> nkey_at m' a = nkey_at m a"
  shows "ordered m' (graft m k y z t)"
  using assms
proof (induction t)
  case (Fork l a r)
  have "\<And>x. x \<in> set (leaves l) \<Longrightarrow> nkey_at m' x = nkey_at m x" "\<And>x. x \<in> set (leaves r) \<Longrightarrow> nkey_at m' x = nkey_at m x"
    using Fork.prems(5) leaves_addrs by auto
  moreover have "ordered m' l" "ordered m' r" using ordered_cong Fork.prems by (metis UnCI addrs.simps(2) list.set_intros(2) ordered.simps(2) set_append)+
  ultimately show ?case using Fork by (auto simp: set_leaves_graft)
qed (auto simp: max_def)

lemma graft_entries:
  assumes "ordered m t" "nkey_at m' y = Fin k" "nval_at m' y = Some v" "nkey_at m (target m k t) \<noteq> Fin k"
    and "\<And>a. a \<in> set (leaves t) \<Longrightarrow> nkey_at m' a = nkey_at m a \<and> nval_at m' a = nval_at m a"
  shows "entries m' (graft m k y z t) = (entries m t)(Fin k \<mapsto> v)"
  using assms
proof (induction t)
  case (Fork l a r)
  have "entries m' l = entries m l" "entries m' r = entries m r" using entries_cong Fork.prems(5) by (metis UnCI leaves.simps(2) set_append)+
  then show ?case using Fork entries_left[of r m a "Fin k"]
    by (auto simp: map_add_def fun_eq_iff split: option.splits)
qed (auto simp: fun_eq_iff map_add_def split: option.splits)

lemma leaf_addr_fld: "leaf_addr rc = (raw (parent rc), fld (leaf_dir rc))"
  by (simp add: leaf_addr_def split: direction.splits)

lemma successor_addr_fld: "successor_addr rc = (raw (ancestor rc), fld (successor_dir rc))"
  by (simp add: successor_addr_def split: direction.splits)

lemma leaf_addr_cases:
  "leaf_addr (seek_at m k g gd p pd t) = (p, fld pd) \<or> fst (leaf_addr (seek_at m k g gd p pd t)) \<in> set (addrs t)"
proof (induction t arbitrary: g gd p pd)
  case (Fork l a r)
  from Fork.IH(1)[of p pd a Dir_L] Fork.IH(2)[of p pd a Dir_R] show ?case by auto
qed (simp add: leaf_addr_fld)

text \<open>Changing the edge to the leaf, in memory, is grafting.\<close>

lemma graft_shaped:
  assumes "shaped m t" "p \<notin> set (addrs t)" "distinct (addrs t)"
    and "\<forall>a\<in>set (addrs t). obj m' a = obj m a"
    and "\<forall>a\<in>insert p (set (addrs t)). \<forall>f. (a, f) \<noteq> leaf_addr (seek_at m k g gd p pd t) \<longrightarrow> cell m' (a, f) = cell m (a, f)"
    and "cell m' (leaf_addr (seek_at m k g gd p pd t)) = Shared z 0"
    and "shaped m' (Tip y)" "obj m' z \<noteq> None" "x = target m k t" "b \<longleftrightarrow> Fin k < nkey_at m x"
    and "cell m' (z, Nm_left) = Shared (if b then y else x) 0" "cell m' (z, Nm_right) = Shared (if b then x else y) 0"
    and "cell m (p, fld pd) = Shared (apex t) 0"
  shows "shaped m' (graft m k y z t) \<and> cell m' (p, fld pd) = Shared (apex (graft m k y z t)) 0"
  using assms
proof (induction t arbitrary: p pd g gd)
  case (Tip a)
  have "cell m' (a, f) = cell m (a, f)" for f using Tip.prems(2,5) by (auto simp: leaf_addr_fld)
  with Tip show ?case by (auto simp: leaf_addr_fld)
next
  case (Fork l a r)
  have step: ?case
    if d: "(d = Dir_L \<and> Fin k < nkey_at m a \<and> u = l \<and> w = r) \<or> (d = Dir_R \<and> \<not> Fin k < nkey_at m a \<and> u = r \<and> w = l)"
      and IH: "shaped m' (graft m k y z u) \<and> cell m' (a, fld d) = Shared (apex (graft m k y z u)) 0" for d u w
  proof -
    have rc: "seek_at m k g gd p pd (Fork l a r) = seek_at m k p pd a d u" using d by auto
    have same: "cell m' (b, f) = cell m (b, f)" if "b = p \<or> b \<in> set (addrs w) \<or> (b = a \<and> f \<noteq> fld d)" for b f
    proof (rule Fork.prems(5)[rule_format])
      show "b \<in> insert p (set (addrs (Fork l a r)))" using that d by auto
      show "(b, f) \<noteq> leaf_addr (seek_at m k g gd p pd (Fork l a r))"
        using leaf_addr_cases[of m k p pd a d u] that d Fork.prems(2,3) unfolding rc
        by (cases "leaf_addr (seek_at m k p pd a d u)") auto
    qed
    have "shaped m' w = shaped m w" by (rule shaped_cong) (use Fork.prems(4) same d in auto)
    then show ?thesis using IH d Fork.prems(1,4,13) same[of p] same[of a] by auto
  qed
  show ?case
  proof (cases "Fin k < nkey_at m a")
    case True
    then show ?thesis using step[of Dir_L l r] Fork.IH(1)[of a p pd Dir_L] Fork.prems by simp
  next
    case False
    then show ?thesis using step[of Dir_R r l] Fork.IH(2)[of a p pd Dir_R] Fork.prems by simp
  qed
qed

section \<open>Removing\<close>

fun is_fork :: "nm_tree \<Rightarrow> bool" where
  "is_fork (Tip a) = False"
| "is_fork (Fork l a r) = True"

lemma not_fork:
  assumes "\<not> is_fork t"
  shows "addrs t = [target m k t]" "leaves t = [target m k t]" "apex t = target m k t"
    "entries m t = (\<lambda>j. if j = nkey_at m (target m k t) then nval_at m (target m k t) else None)"
    "seek_at m k g gd p pd t = \<lparr>ancestor = Shared g 0, successor = Shared p 0, successor_dir = gd, parent = Shared p 0,
       leaf = Shared (target m k t) 0, leaf_dir = pd\<rparr>"
  using assms by (cases t; auto)+

fun prune :: "('k::linorder, 'v) nm_mem \<Rightarrow> 'k \<Rightarrow> nm_tree \<Rightarrow> nm_tree" where
  "prune m k (Tip a) = Tip a"
| "prune m k (Fork l a r) =
     (if Fin k < nkey_at m a
      then if is_fork l then Fork (prune m k l) a r else r
      else if is_fork r then Fork l a (prune m k r) else l)"

text \<open>The parent of the leaf, and the sibling that takes its place.\<close>

fun above :: "('k::linorder, 'v) nm_mem \<Rightarrow> 'k \<Rightarrow> nm_tree \<Rightarrow> addr" where
  "above m k (Tip a) = 0"
| "above m k (Fork l a r) =
     (if Fin k < nkey_at m a
      then if is_fork l then above m k l else a
      else if is_fork r then above m k r else a)"

fun sibling :: "('k::linorder, 'v) nm_mem \<Rightarrow> 'k \<Rightarrow> nm_tree \<Rightarrow> addr" where
  "sibling m k (Tip a) = 0"
| "sibling m k (Fork l a r) =
     (if Fin k < nkey_at m a
      then if is_fork l then sibling m k l else apex r
      else if is_fork r then sibling m k r else apex l)"

lemma addrs_prune: "is_fork t \<Longrightarrow> mset (addrs t) = mset (addrs (prune m k t)) + {#above m k t, target m k t#}"
  by (induction t) (auto simp: ac_simps not_fork[of _ m k])

lemma leaves_prune: "is_fork t \<Longrightarrow> mset (leaves t) = mset (leaves (prune m k t)) + {#target m k t#}"
  by (induction t) (auto simp: ac_simps not_fork[of _ m k])

lemma distinct_prune:
  assumes "is_fork t" "distinct (addrs t)"
  shows "distinct (addrs (prune m k t) @ [above m k t, target m k t])"
proof -
  have "mset (addrs t) = mset (addrs (prune m k t) @ [above m k t, target m k t])" using addrs_prune[OF assms(1)] by simp
  with assms(2) show ?thesis using mset_eq_imp_distinct_iff by blast
qed

lemma addrs_split: "is_fork t \<Longrightarrow> set (addrs t) = set (addrs (prune m k t)) \<union> {above m k t, target m k t}"
  using arg_cong[OF addrs_prune[of t m k], of set_mset] by auto

lemma set_leaves_prune: "set (leaves (prune m k t)) \<subseteq> set (leaves t)"
  by (induction t) auto

lemma set_addrs_prune: "set (addrs (prune m k t)) \<subseteq> set (addrs t)"
  by (induction t) auto

lemma above_in: "is_fork t \<Longrightarrow> above m k t \<in> set (addrs t)"
  by (induction t) auto

lemma prune_ordered: "ordered m t \<Longrightarrow> ordered m (prune m k t)"
  by (induction t) (auto dest: subsetD[OF set_leaves_prune])

lemma prune_entries:
  assumes "ordered m t" "is_fork t" "nkey_at m (target m k t) = Fin k"
  shows "entries m (prune m k t) = (entries m t)(Fin k := None)"
  using assms
proof (induction t)
  case (Fork l a r)
  have or: "ordered m l" "ordered m r" using Fork.prems by auto
  show ?case
  proof (cases "Fin k < nkey_at m a")
    case True
    have n: "entries m r (Fin k) = None" using entries_left[of r m a "Fin k"] True Fork.prems(1) by simp
    show ?thesis
    proof (cases "is_fork l")
      case l: True
      then have "entries m (prune m k l) = (entries m l)(Fin k := None)" using Fork.IH(1) Fork.prems True or by (simp add: fun_upd_def)
      with l True n show ?thesis by (auto simp: fun_eq_iff map_add_def split: option.splits)
    next
      case l: False
      with True n Fork.prems(3) show ?thesis by (auto simp: not_fork(4)[of l m k] fun_eq_iff map_add_def split: option.splits)
    qed
  next
    case False
    have n: "entries m l (Fin k) = None" using entries_right[of l m a "Fin k"] False Fork.prems(1) by simp
    show ?thesis
    proof (cases "is_fork r")
      case r: True
      then have "entries m (prune m k r) = (entries m r)(Fin k := None)" using Fork.IH(2) Fork.prems False or by (simp add: fun_upd_def)
      with r False n show ?thesis by (auto simp: fun_eq_iff map_add_def split: option.splits)
    next
      case r: False
      with False n Fork.prems(3) show ?thesis by (auto simp: not_fork(4)[of r m k] fun_eq_iff map_add_def split: option.splits)
    qed
  qed
qed simp

lemma seek_fork:
  assumes "is_fork t"
  shows "parent (seek_at m k g gd p pd t) = Shared (above m k t) 0" "successor (seek_at m k g gd p pd t) = Shared (above m k t) 0"
    "successor_addr (seek_at m k g gd p pd t) = (p, fld pd) \<or> fst (successor_addr (seek_at m k g gd p pd t)) \<in> set (addrs t)"
  using assms
proof (induction t arbitrary: g gd p pd)
  case (Fork l a r)
  { case 1 show ?case using Fork.IH(1,4) by (auto simp: not_fork[of _ m k]) }
  { case 2 show ?case using Fork.IH(2,5) by (auto simp: not_fork[of _ m k]) }
  { case 3 show ?case
    proof (cases "is_fork (if Fin k < nkey_at m a then l else r)")
      case True
      then show ?thesis using Fork.IH(3)[of p pd a Dir_L] Fork.IH(6)[of p pd a Dir_R] by (auto split: if_splits)
    next
      case False
      then show ?thesis by (auto simp: successor_addr_fld not_fork[of _ m k] split: if_splits)
    qed }
qed simp_all

lemma leaf_edge:
  "shaped m t \<Longrightarrow> cell m (p, fld pd) = Shared (apex t) 0 \<Longrightarrow> cell m (leaf_addr (seek_at m k g gd p pd t)) = Shared (target m k t) 0"
  by (induction t arbitrary: g gd p pd) (auto simp: leaf_addr_fld)

lemma leaf_sibling_fld: "leaf_sibling_addr rc = (raw (parent rc), fld (case leaf_dir rc of Dir_L \<Rightarrow> Dir_R | Dir_R \<Rightarrow> Dir_L))"
  by (simp add: leaf_sibling_addr_def split: direction.splits)

lemma sibling_edge:
  assumes "shaped m t" "is_fork t"
  shows "cell m (leaf_sibling_addr (seek_at m k g gd p pd t)) = Shared (sibling m k t) 0"
  using assms
proof (induction t arbitrary: g gd p pd)
  case (Fork l a r)
  show ?case
  proof (cases "is_fork (if Fin k < nkey_at m a then l else r)")
    case True
    then show ?thesis using Fork by (auto split: if_splits)
  next
    case False
    then show ?thesis using Fork.prems by (auto simp: leaf_sibling_fld not_fork[of _ m k] split: if_splits)
  qed
qed simp

lemma successor_edge:
  assumes "shaped m t" "is_fork t" "cell m (p, fld pd) = Shared (apex t) 0"
  shows "cell m (successor_addr (seek_at m k g gd p pd t)) = Shared (above m k t) 0"
  using assms
proof (induction t arbitrary: g gd p pd)
  case (Fork l a r)
  show ?case
  proof (cases "is_fork (if Fin k < nkey_at m a then l else r)")
    case True
    then show ?thesis using Fork by (auto split: if_splits)
  next
    case False
    then show ?thesis using Fork.prems by (auto simp: successor_addr_fld not_fork[of _ m k] split: if_splits)
  qed
qed simp

lemma successor_outside:
  assumes "is_fork t" "distinct (addrs t)" "p \<notin> set (addrs t)"
  shows "fst (successor_addr (seek_at m k g gd p pd t)) \<notin> {above m k t, target m k t}"
  using assms
proof (induction t arbitrary: g gd p pd)
  case (Fork l a r)
  have tg: "target m k u \<in> set (addrs u)" for u using leaves_addrs target_leaf by blast
  show ?case
  proof (cases "is_fork (if Fin k < nkey_at m a then l else r)")
    case True
    then show ?thesis using Fork by (auto split: if_splits)
  next
    case False
    then show ?thesis using Fork.prems tg[of l] tg[of r] by (auto simp: successor_addr_fld not_fork[of _ m k] split: if_splits)
  qed
qed simp

lemma sibling_in: "is_fork t \<Longrightarrow> sibling m k t \<in> set (addrs (prune m k t))"
  by (induction t) auto

text \<open>Replacing the edge to the parent by one to the sibling, in memory, is pruning.\<close>

lemma prune_shaped:
  assumes "shaped m t" "is_fork t" "p \<notin> set (addrs t)" "distinct (addrs t)"
    and "\<forall>a\<in>set (addrs t) - {above m k t, target m k t}. obj m' a = obj m a"
    and "\<forall>a\<in>insert p (set (addrs t)) - {above m k t, target m k t}. \<forall>f. (a, f) \<noteq> successor_addr (seek_at m k g gd p pd t) \<longrightarrow>
      cell m' (a, f) = cell m (a, f)"
    and "cell m' (successor_addr (seek_at m k g gd p pd t)) = Shared (sibling m k t) 0"
    and "cell m (p, fld pd) = Shared (apex t) 0"
  shows "shaped m' (prune m k t) \<and> cell m' (p, fld pd) = Shared (apex (prune m k t)) 0"
  using assms
proof (induction t arbitrary: p pd g gd)
  case (Fork l a r)
  have tg: "target m k u \<in> set (addrs u)" for u using leaves_addrs target_leaf by blast
  have step: ?case
    if d: "(d = Dir_L \<and> Fin k < nkey_at m a \<and> u = l \<and> w = r) \<or> (d = Dir_R \<and> \<not> Fin k < nkey_at m a \<and> u = r \<and> w = l)"
      and IH: "is_fork u \<Longrightarrow> shaped m' (prune m k u) \<and> cell m' (a, fld d) = Shared (apex (prune m k u)) 0" for d u w
  proof -
    have rc: "seek_at m k g gd p pd (Fork l a r) = seek_at m k p pd a d u" using d by auto
    have tgu: "target m k (Fork l a r) = target m k u" using d by auto
    have ab: "above m k (Fork l a r) = (if is_fork u then above m k u else a)" using d by auto
    have abu: "is_fork u \<Longrightarrow> above m k u \<in> set (addrs u)" by (rule above_in)
    have w: "set (addrs w) \<inter> {above m k (Fork l a r), target m k (Fork l a r)} = {}"
      using d Fork.prems(4) tg[of u] abu unfolding tgu ab by auto
    have pr: "p \<notin> {above m k (Fork l a r), target m k (Fork l a r)}"
      using d Fork.prems(3) tg[of u] abu unfolding tgu ab by auto
    have sa: "if is_fork u then successor_addr (seek_at m k p pd a d u) = (a, fld d) \<or> fst (successor_addr (seek_at m k p pd a d u)) \<in> set (addrs u)
      else successor_addr (seek_at m k p pd a d u) = (p, fld pd)"
      using seek_fork(3)[of u m k p pd a d] by (auto simp: successor_addr_fld not_fork[of _ m k])
    have same: "cell m' (b, f) = cell m (b, f)" if "b \<in> set (addrs w) \<or> (b = p \<and> is_fork u) \<or> (b = a \<and> f \<noteq> fld d \<and> is_fork u)" for b f
    proof (rule Fork.prems(6)[rule_format])
      show "b \<in> insert p (set (addrs (Fork l a r))) - {above m k (Fork l a r), target m k (Fork l a r)}"
        using that d w pr ab tgu tg[of u] abu Fork.prems(4) by auto
      show "(b, f) \<noteq> successor_addr (seek_at m k g gd p pd (Fork l a r))"
        using sa that d Fork.prems(3,4) unfolding rc
        by (cases "successor_addr (seek_at m k p pd a d u)") (auto split: if_splits)
    qed
    have "obj m' b = obj m b" if "b \<in> set (addrs w)" for b using Fork.prems(5) that w d by auto
    then have sw: "shaped m' w = shaped m w" by (intro shaped_cong) (use same in auto)
    show ?thesis
    proof (cases "is_fork u")
      case True
      have "obj m' a = obj m a" using Fork.prems(4,5) d True ab tgu tg[of u] abu by auto
      then show ?thesis using IH[OF True] True d Fork.prems(1,8) sw same[of p] same[of a] by auto
    next
      case False
      then show ?thesis using d sw Fork.prems(1,7) sa unfolding rc by auto
    qed
  qed
  show ?case
  proof (cases "Fin k < nkey_at m a")
    case True
    have "is_fork l \<Longrightarrow> shaped m' (prune m k l) \<and> cell m' (a, fld Dir_L) = Shared (apex (prune m k l)) 0"
      by (rule Fork.IH(1)[where g = p and gd = pd]) (use True Fork.prems in auto)
    with step[of Dir_L l r] True show ?thesis by simp
  next
    case False
    have "is_fork r \<Longrightarrow> shaped m' (prune m k r) \<and> cell m' (a, fld Dir_R) = Shared (apex (prune m k r)) 0"
      by (rule Fork.IH(2)[where g = p and gd = pd]) (use False Fork.prems in auto)
    with step[of Dir_R r l] False show ?thesis by simp
  qed
qed simp

section \<open>The whole structure\<close>

text \<open>
  Below the root \<open>self\<close> the sentinels \<open>s\<close>, \<open>inf1\<close> and \<open>inf2\<close>, and below \<open>s\<close> the tree \<open>t\<close>: the leaf \<open>inf0\<close>
  alone, or a node with the key infinity over the entries and \<open>inf0\<close>.  No edge is marked: no removal is
  under way.
\<close>

type_synonym sentinels = "addr \<times> addr \<times> addr"

fun nm_nodes :: "sentinels \<Rightarrow> nm_tree \<Rightarrow> addr list" where
  "nm_nodes (s, i1, i2) t = i2 # i1 # s # addrs t"

definition crown :: "('k::linorder, 'v) nm_mem \<Rightarrow> nm_tree \<Rightarrow> bool" where
  "crown m t \<longleftrightarrow> nkey_at m (apex t) = Inf \<and> (case t of Tip _ \<Rightarrow> True | Fork u x w \<Rightarrow> \<not> is_fork w)"

fun nm_inv :: "('k::linorder, 'v) nm_mem \<Rightarrow> addr \<Rightarrow> sentinels \<Rightarrow> nm_tree \<Rightarrow> bool" where
  "nm_inv m self (s, i1, i2) t \<longleftrightarrow>
     self \<in> statics m \<and> cell m (self, Nm_left) = Shared s 0 \<and> cell m (self, Nm_right) = Shared i2 0 \<and>
     obj m s \<noteq> None \<and> cell m (s, Nm_left) = Shared (apex t) 0 \<and> cell m (s, Nm_right) = Shared i1 0 \<and>
     shaped m (Tip i1) \<and> shaped m (Tip i2) \<and> shaped m t \<and> distinct (nm_nodes (s, i1, i2) t) \<and>
     (\<forall>a\<in>set (nm_nodes (s, i1, i2) t). a \<noteq> 0 \<and> a \<notin> statics m \<and> a \<notin> set (garbage m)) \<and> garbage_ok m \<and>
     ordered m t \<and> crown m t \<and> (\<forall>x\<in>set (leaves t). nkey_at m x = Inf \<or> nval_at m x \<noteq> None)"

lemma crown_graft:
  assumes "crown m t" "nkey_at m' z = max (Fin k) (nkey_at m (target m k t))" "\<forall>a\<in>set (addrs t). nkey_at m' a = nkey_at m a"
  shows "crown m' (graft m k y z t)"
  using assms by (cases t) (auto simp: crown_def max_def less_eq_nm_key_def split: if_splits)

lemma crown_fork: "crown m t \<Longrightarrow> nkey_at m (target m k t) = Fin k \<Longrightarrow> is_fork t"
  by (cases t) (auto simp: crown_def)

lemma crown_prune:
  assumes "crown m t" "ordered m t" "nkey_at m (target m k t) = Fin k" "\<forall>a\<in>set (addrs (prune m k t)). nkey_at m' a = nkey_at m a"
  shows "crown m' (prune m k t)"
proof -
  obtain u x w where t: "t = Fork u x w" using crown_fork[OF assms(1,3)] by (cases t) auto
  then have x: "nkey_at m x = Inf" "\<not> is_fork w" using assms(1) by (auto simp: crown_def)
  have "Inf \<le> nkey_at m (apex w)" using assms(2) x t not_fork(2,3)[OF x(2), of m k] by simp
  then have "nkey_at m (apex w) = Inf" by (cases "nkey_at m (apex w)") (auto simp: less_eq_nm_key_def)
  then show "crown m' (prune m k t)" using x t assms(4) by (cases w) (auto simp: crown_def)
qed

lemma nm_frame:
  assumes inv: "nm_inv m self z t" and m': "statics m' = statics m" "garbage_ok m'"
    and same: "\<forall>a\<in>set (nm_nodes z t). obj m' a = obj m a \<and> a \<notin> set (garbage m')"
      "\<forall>a\<in>insert self (set (nm_nodes z t)). \<forall>f. cell m' (a, f) = cell m (a, f)"
  shows "nm_inv m' self z t" "nm_contents m' t = nm_contents m t"
    "seek_at m' k g gd p pd t = seek_at m k g gd p pd t" "target m' k t = target m k t"
proof -
  obtain s i1 i2 where z: "z = (s, i1, i2)" by (cases z)
  have k: "nkey_at m' a = nkey_at m a" "nval_at m' a = nval_at m a" if "a \<in> set (addrs t)" for a
    using same(1) that z by (simp_all add: nkey_at_def nval_at_def)
  have kl: "\<forall>a\<in>set (leaves t). nkey_at m' a = nkey_at m a \<and> nval_at m' a = nval_at m a" using k leaves_addrs by blast
  have "shaped m' t = shaped m t" by (rule shaped_cong) (use same z in auto)
  moreover have "ordered m' t = ordered m t" by (rule ordered_cong) (use k in auto)
  moreover have "crown m' t = crown m t" using k by (simp add: crown_def)
  ultimately show "nm_inv m' self z t" using inv m' same kl by (auto simp: z)
  show "nm_contents m' t = nm_contents m t" using entries_cong[of t m' m] kl by (simp add: nm_contents_def fun_eq_iff)
  show "seek_at m' k g gd p pd t = seek_at m k g gd p pd t" "target m' k t = target m k t"
    using k by (induction t arbitrary: g gd p pd) auto
qed

lemma nm_graft:
  assumes inv: "nm_inv m self (s, i1, i2) t" and new: "nkey_at m (target m k t) \<noteq> Fin k"
    and m': "statics m' = statics m" "garbage_ok m'"
    and rc: "rc = seek_at m k self Dir_L s Dir_L t"
    and same: "\<forall>a\<in>set (nm_nodes (s, i1, i2) t). obj m' a = obj m a \<and> a \<notin> set (garbage m')"
      "\<forall>a\<in>insert self (set (nm_nodes (s, i1, i2) t)). \<forall>f. (a, f) \<noteq> leaf_addr rc \<longrightarrow> cell m' (a, f) = cell m (a, f)"
      "cell m' (leaf_addr rc) = Shared w 0"
    and yw: "\<forall>a\<in>{y, w}. a \<noteq> 0 \<and> a \<notin> statics m \<and> a \<notin> set (garbage m') \<and> a \<notin> set (nm_nodes (s, i1, i2) t)" "y \<noteq> w"
      "obj m' y = Some \<lparr>nkey = Fin k, nvalue = Some v\<rparr>" "cell m' (y, Nm_left) = null" "cell m' (y, Nm_right) = null"
      "obj m' w = Some \<lparr>nkey = max (Fin k) (nkey_at m (target m k t)), nvalue = None\<rparr>"
    and b: "x = target m k t" "b \<longleftrightarrow> Fin k < nkey_at m x"
      "cell m' (w, Nm_left) = Shared (if b then y else x) 0" "cell m' (w, Nm_right) = Shared (if b then x else y) 0"
  shows "nm_inv m' self (s, i1, i2) (graft m k y w t)" "nm_contents m' (graft m k y w t) = (nm_contents m t)(k \<mapsto> v)"
proof -
  have d: "s \<notin> set (addrs t)" "distinct (addrs t)" "self \<notin> set (nm_nodes (s, i1, i2) t)" "shaped m t" "ordered m t" "crown m t"
    "cell m (s, Nm_left) = Shared (apex t) 0" using inv by auto
  have k: "\<forall>a\<in>set (addrs t). nkey_at m' a = nkey_at m a \<and> nval_at m' a = nval_at m a"
    using same(1) by (simp add: nkey_at_def nval_at_def)
  have kl: "\<forall>a\<in>set (leaves t). nkey_at m' a = nkey_at m a \<and> nval_at m' a = nval_at m a" using k leaves_addrs by blast
  have ky: "nkey_at m' y = Fin k" "nval_at m' y = Some v" "nkey_at m' w = max (Fin k) (nkey_at m (target m k t))"
    using yw by (simp_all add: nkey_at_def nval_at_def)
  have sh: "shaped m' (graft m k y w t) \<and> cell m' (s, fld Dir_L) = Shared (apex (graft m k y w t)) 0"
    by (rule graft_shaped[where g = self and gd = Dir_L, OF d(4,1,2) _ _ _ _ _ b]) (use same yw d rc in auto)
  have la: "leaf_addr rc = (s, Nm_left) \<or> fst (leaf_addr rc) \<in> set (addrs t)"
    using leaf_addr_cases[of m k self Dir_L s Dir_L t] rc by simp
  have out: "cell m' (a, f) = cell m (a, f)" if "a \<in> {self, i1, i2} \<or> (a = s \<and> f = Nm_right)" for a f
    by (rule same(2)[rule_format]) (use that la inv in \<open>cases "leaf_addr rc"; auto\<close>)+
  have os: "\<forall>a\<in>{s, i1, i2}. obj m' a = obj m a" using same(1) by simp
  have "ordered m' (graft m k y w t)" by (rule graft_ordered[OF d(5) ky(1,3) new]) (use k in blast)
  moreover have "crown m' (graft m k y w t)" by (rule crown_graft[OF d(6) ky(3)]) (use k in blast)
  moreover have "distinct (nm_nodes (s, i1, i2) (graft m k y w t))"
    using inv yw(1,2) distinct_graft[of t y w m k] by (auto simp: set_addrs_graft)
  moreover have "\<forall>a\<in>set (nm_nodes (s, i1, i2) (graft m k y w t)). a \<noteq> 0 \<and> a \<notin> statics m' \<and> a \<notin> set (garbage m')"
    using inv same(1) yw(1) m'(1) by (auto simp: set_addrs_graft)
  moreover have "\<forall>x\<in>set (leaves (graft m k y w t)). nkey_at m' x = Inf \<or> nval_at m' x \<noteq> None"
    using inv kl ky by (auto simp: set_leaves_graft)
  ultimately show "nm_inv m' self (s, i1, i2) (graft m k y w t)" using inv m' sh out os by (auto simp del: shaped.simps(2))
  show "nm_contents m' (graft m k y w t) = (nm_contents m t)(k \<mapsto> v)"
    using graft_entries[OF d(5) ky(1,2) new, of w] kl by (auto simp: nm_contents_def fun_eq_iff)
qed

lemma nm_prune:
  assumes inv: "nm_inv m self (s, i1, i2) t" and old: "nkey_at m (target m k t) = Fin k"
    and m': "statics m' = statics m" "garbage_ok m'"
    and rc: "rc = seek_at m k self Dir_L s Dir_L t"
    and same: "\<forall>a\<in>set (nm_nodes (s, i1, i2) (prune m k t)). obj m' a = obj m a \<and> a \<notin> set (garbage m')"
      "\<forall>a\<in>insert self (set (nm_nodes (s, i1, i2) (prune m k t))). \<forall>f. (a, f) \<noteq> successor_addr rc \<longrightarrow> cell m' (a, f) = cell m (a, f)"
      "cell m' (successor_addr rc) = Shared (sibling m k t) 0"
  shows "nm_inv m' self (s, i1, i2) (prune m k t)" "nm_contents m' (prune m k t) = (nm_contents m t)(k := None)"
proof -
  have d: "s \<notin> set (addrs t)" "distinct (addrs t)" "self \<notin> set (nm_nodes (s, i1, i2) t)" "shaped m t" "ordered m t" "crown m t"
    "cell m (s, Nm_left) = Shared (apex t) 0" using inv by auto
  have k: "\<forall>a\<in>set (addrs (prune m k t)). nkey_at m' a = nkey_at m a \<and> nval_at m' a = nval_at m a"
    using same(1) by (simp add: nkey_at_def nval_at_def)
  have kl: "\<forall>a\<in>set (leaves (prune m k t)). nkey_at m' a = nkey_at m a \<and> nval_at m' a = nval_at m a" using k leaves_addrs by blast
  have cr: "crown m' (prune m k t)" "is_fork t" using crown_prune[OF d(6,5) old] crown_fork[OF d(6) old] k by blast+
  note dp = distinct_prune[OF cr(2) d(2), of m k] and as = addrs_split[OF cr(2), of m k]
  have sh: "shaped m' (prune m k t) \<and> cell m' (s, fld Dir_L) = Shared (apex (prune m k t)) 0"
    by (rule prune_shaped[where g = self and gd = Dir_L, OF d(4) cr(2) d(1,2)]) (use same d rc as in auto)
  have la: "successor_addr rc = (s, Nm_left) \<or> fst (successor_addr rc) \<in> set (addrs t)"
    using seek_fork(3)[OF cr(2), of m k self Dir_L s Dir_L] rc by simp
  have out: "cell m' (a, f) = cell m (a, f)" if "a \<in> {self, i1, i2} \<or> (a = s \<and> f = Nm_right)" for a f
    by (rule same(2)[rule_format]) (use that la inv in \<open>cases "successor_addr rc"; auto\<close>)+
  have os: "\<forall>a\<in>{s, i1, i2}. obj m' a = obj m a" using same(1) by simp
  have "ordered m' (prune m k t) = ordered m (prune m k t)" by (rule ordered_cong) (use k in blast)
  then have "ordered m' (prune m k t)" using prune_ordered[OF d(5)] by blast
  moreover have "distinct (nm_nodes (s, i1, i2) (prune m k t))" using inv dp as by auto
  moreover have "\<forall>a\<in>set (nm_nodes (s, i1, i2) (prune m k t)). a \<noteq> 0 \<and> a \<notin> statics m' \<and> a \<notin> set (garbage m')"
    using inv same(1) m'(1) as by auto
  moreover have "\<forall>x\<in>set (leaves (prune m k t)). nkey_at m' x = Inf \<or> nval_at m' x \<noteq> None"
    using inv kl set_leaves_prune[of m k t] by auto
  ultimately show "nm_inv m' self (s, i1, i2) (prune m k t)" using inv m' sh out os cr by (auto simp del: shaped.simps(2))
  have "entries m' (prune m k t) = entries m (prune m k t)" by (rule entries_cong) (use kl in blast)
  then show "nm_contents m' (prune m k t) = (nm_contents m t)(k := None)"
    using prune_entries[OF d(5) cr(2) old] by (auto simp: nm_contents_def fun_eq_iff)
qed

lemma nm_lookup:
  assumes "nm_inv m self z t"
  shows "nm_contents m t k = (if nkey_at m (target m k t) = Fin k then nval_at m (target m k t) else None)"
    "nkey_at m (target m k t) = Fin k \<Longrightarrow> nval_at m (target m k t) \<noteq> None" "obj m (target m k t) \<noteq> None" "target m k t \<noteq> 0"
proof -
  obtain s i1 i2 where z: "z = (s, i1, i2)" by (cases z)
  have t: "target m k t \<in> set (leaves t)" "target m k t \<in> set (addrs t)" using subsetD[OF leaves_addrs target_leaf] by auto
  show "nm_contents m t k = (if nkey_at m (target m k t) = Fin k then nval_at m (target m k t) else None)"
    using target_lookup[of m t k] assms by (simp add: nm_contents_def z)
  have i: "\<forall>x\<in>set (leaves t). nkey_at m x = Inf \<or> nval_at m x \<noteq> None" "shaped m t" "\<forall>a\<in>set (addrs t). a \<noteq> 0"
    using assms by (auto simp: z)
  show "nkey_at m (target m k t) = Fin k \<Longrightarrow> nval_at m (target m k t) \<noteq> None" using i(1)[rule_format, OF t(1)] by auto
  show "obj m (target m k t) \<noteq> None" "target m k t \<noteq> 0" using i(2,3) t(2) shaped_obj by blast+
qed

section \<open>Splicing out a leaf\<close>

text \<open>What the record of a successful search says: \<open>x\<close> is the leaf, \<open>a\<close> its parent, \<open>y\<close> its sibling, \<open>h\<close> the grandparent.\<close>

lemma seek_found:
  assumes inv: "nm_inv m self (s, i1, i2) t" and old: "nkey_at m (target m k t) = Fin k"
    and rc: "rc = seek_at m k self Dir_L s Dir_L t"
  defines "x \<equiv> target m k t" and "a \<equiv> above m k t" and "y \<equiv> sibling m k t"
  obtains f g h j where "leaf_addr rc = (a, f)" "leaf_sibling_addr rc = (a, g)"
    "f = Nm_left \<and> g = Nm_right \<or> f = Nm_right \<and> g = Nm_left" "successor_addr rc = (h, j)" "successor rc = Shared a 0"
    "cell m (a, f) = Shared x 0" "cell m (a, g) = Shared y 0" "cell m (h, j) = Shared a 0"
    "cell m (x, Nm_left) = null" "cell m (x, Nm_right) = null" "obj m a \<noteq> None" "obj m x \<noteq> None" "obj m h \<noteq> None"
    "distinct [a, x, y]" "h \<noteq> a" "h \<noteq> x" "a \<noteq> 0" "x \<noteq> 0" "y \<noteq> 0"
    "a \<notin> statics m" "x \<notin> statics m" "a \<notin> set (garbage m)" "x \<notin> set (garbage m)"
    "set (addrs t) = set (addrs (prune m k t)) \<union> {a, x}" "a \<notin> set (addrs (prune m k t))" "x \<notin> set (addrs (prune m k t))"
proof -
  have d: "shaped m t" "distinct (addrs t)" "s \<notin> set (addrs t)" "cell m (s, fld Dir_L) = Shared (apex t) 0" "crown m t" "obj m s \<noteq> None"
    "\<forall>a\<in>set (addrs t). a \<noteq> 0 \<and> a \<notin> statics m \<and> a \<notin> set (garbage m)" using inv by auto
  have fk: "is_fork t" by (rule crown_fork[OF d(5) old])
  note dp = distinct_prune[OF fk d(2), of m k] and as = addrs_split[OF fk, of m k] and yin = sibling_in[OF fk, of m k]
  note sf = seek_fork[OF fk, of m k self Dir_L s Dir_L, folded rc]
  obtain h j where hj: "successor_addr rc = (h, j)" by (cases "successor_addr rc")
  obtain f g where fg: "leaf_addr rc = (a, f)" "leaf_sibling_addr rc = (a, g)" "f = Nm_left \<and> g = Nm_right \<or> f = Nm_right \<and> g = Nm_left"
    using sf(1) by (auto simp: leaf_addr_fld leaf_sibling_fld a_def split: direction.splits)
  have e: "cell m (a, f) = Shared x 0" "cell m (a, g) = Shared y 0" "cell m (h, j) = Shared a 0"
    using leaf_edge[OF d(1,4), of k self Dir_L] sibling_edge[OF d(1) fk, of k self Dir_L s Dir_L] successor_edge[OF d(1) fk d(4), of k self Dir_L]
    by (simp_all add: rc[symmetric] fg hj x_def a_def y_def)
  have out: "h \<noteq> a" "h \<noteq> x" using successor_outside[OF fk d(2,3), of m k self Dir_L Dir_L] by (simp_all add: rc[symmetric] hj x_def a_def)
  have "h = s \<or> h \<in> set (addrs t)" using sf(3) hj by auto
  then have "obj m h \<noteq> None" using d(6) shaped_obj[OF d(1)] by blast
  moreover have "a \<in> set (addrs t)" "x \<in> set (addrs t)" "y \<in> set (addrs t)" using as yin by (auto simp: x_def a_def y_def)
  moreover have "distinct [a, x, y]" using dp yin by (auto simp: x_def a_def y_def)
  ultimately show ?thesis
    using that[OF fg hj _ e] sf(2) out as dp d(7) shaped_leaf[OF d(1) target_leaf, of m k] shaped_obj[OF d(1)]
    by (simp add: x_def a_def y_def)
qed

text \<open>The three edges a removal changes, one after the other, and the two nodes it retires.\<close>

definition spliced :: "seek_record \<Rightarrow> addr \<Rightarrow> addr \<Rightarrow> ('k, 'v) nm_mem \<Rightarrow> ('k, 'v) nm_mem" where
  "spliced rc x y m = set_cell (successor_addr rc) (Shared y 0)
     (set_cell (leaf_sibling_addr rc) (Shared y 1) (set_cell (leaf_addr rc) (Shared x 2) m))"

lemma spliced_inv:
  assumes inv: "nm_inv m self (s, i1, i2) t" and old: "nkey_at m (target m k t) = Fin k"
    and rc: "rc = seek_at m k self Dir_L s Dir_L t"
    and m': "m' = reclaim R2 (retire (target m k t) (reclaim R1 (retire (above m k t) (spliced rc (target m k t) (sibling m k t) m))))"
  shows "nm_inv m' self (s, i1, i2) (prune m k t)" "nm_contents m' (prune m k t) = (nm_contents m t)(k := None)"
    "retired m' = retired m @ [above m k t, target m k t]" "freed m' = freed m"
    "b \<notin> set (garbage m) \<union> {above m k t, target m k t} \<Longrightarrow> obj m' b = obj m b"
    "shield m' = shield m" "ejections m' = ejections m"
proof -
  let ?x = "target m k t" and ?a = "above m k t" and ?y = "sibling m k t"
  obtain f g h j where sf: "leaf_addr rc = (?a, f)" "leaf_sibling_addr rc = (?a, g)" "successor_addr rc = (h, j)"
    "obj m ?a \<noteq> None" "obj m ?x \<noteq> None" "distinct [?a, ?x, ?y]" "?a \<notin> statics m" "?x \<notin> statics m"
    "?a \<notin> set (garbage m)" "?x \<notin> set (garbage m)" "set (addrs t) = set (addrs (prune m k t)) \<union> {?a, ?x}"
    "?a \<notin> set (addrs (prune m k t))" "?x \<notin> set (addrs (prune m k t))" "h \<noteq> ?a" "h \<noteq> ?x"
    by (rule seek_found[OF inv old rc])
  have ok: "garbage_ok m" using inv by simp
  have g: "garbage_ok m'" unfolding m'
    by (intro garbage_ok_reclaim garbage_ok_retire) (use ok sf in \<open>auto simp: spliced_def restrict_map_def\<close>)
  show o: "obj m' b = obj m b" if "b \<notin> set (garbage m) \<union> {?a, ?x}" for b
    using that by (auto simp: m' spliced_def restrict_map_def)
  have gs: "set (garbage m') \<subseteq> set (garbage m) \<union> {?a, ?x}" by (auto simp: m' spliced_def)
  have nd: "b \<notin> set (garbage m) \<and> b \<noteq> ?a \<and> b \<noteq> ?x" if "b \<in> set (nm_nodes (s, i1, i2) (prune m k t))" for b
    using that inv sf(11-13) by auto
  have ce: "cell m' (b, e) = cell m (b, e)" if "b \<noteq> ?a" "(b, e) \<noteq> successor_addr rc" for b e
    using that by (auto simp: m' spliced_def sf(1,2))
  have "self \<noteq> ?a" using inv sf(7) by auto
  note pr = nm_prune[OF inv old _ g rc]
  have st: "statics m' = statics m" by (simp add: m' spliced_def)
  have a1: "\<forall>b\<in>set (nm_nodes (s, i1, i2) (prune m k t)). obj m' b = obj m b \<and> b \<notin> set (garbage m')"
  proof
    fix b assume "b \<in> set (nm_nodes (s, i1, i2) (prune m k t))"
    then have "b \<notin> set (garbage m) \<union> {?a, ?x}" using nd by simp
    with o gs show "obj m' b = obj m b \<and> b \<notin> set (garbage m')" by blast
  qed
  have a2: "\<forall>b\<in>insert self (set (nm_nodes (s, i1, i2) (prune m k t))). \<forall>e. (b, e) \<noteq> successor_addr rc \<longrightarrow> cell m' (b, e) = cell m (b, e)"
    using ce nd \<open>self \<noteq> ?a\<close> by blast
  have a3: "cell m' (successor_addr rc) = Shared ?y 0" by (simp add: m' spliced_def)
  show "nm_inv m' self (s, i1, i2) (prune m k t)" "nm_contents m' (prune m k t) = (nm_contents m t)(k := None)"
    by (rule pr(1)[OF st a1 a2 a3], rule pr(2)[OF st a1 a2 a3])
  show "retired m' = retired m @ [?a, ?x]" "freed m' = freed m" "shield m' = shield m" "ejections m' = ejections m"
    by (simp_all add: m' spliced_def)
qed

end
