(* ===== verification/Ebr_Nm_Tree_Correct.thy ===== *)
theory Ebr_Nm_Tree_Correct
  imports Nm_Spec Concurrent_Map
begin

text \<open>
  Correctness of \<^verbatim>\<open>src/src/ebr/natarajan_mittal_tree.rs\<close>: each operation against the trees of
  theory \<^verbatim>\<open>Nm_Spec\<close>, and the whole map against a finite map.
\<close>

section \<open>Marks\<close>

lemma marks_simps [simp]:
  "marks_tag (from_bits_truncate 0) = False" "marks_flag (from_bits_truncate 0) = False"
  "marks_flag (from_bits_truncate (Suc 0)) = False" "marks_flag (from_bits_truncate 2) = True" "MARK_TAG = 1"
  "marks_new True False = 2" "marks_new False False = 0"
  by (simp_all add: marks_tag_def marks_flag_def from_bits_truncate_def MARK_FLAG_def MARK_TAG_def marks_new_def)

lemma nm_key_cmp_simps [simp]:
  "nm_key_cmp x k = Greater \<longleftrightarrow> Fin k < x" "nm_key_cmp x k = Equal \<longleftrightarrow> x = Fin k" "nm_key_cmp x k = Less \<longleftrightarrow> x < Fin k"
  by (cases x; auto)+

lemma nm_key_cmp_eq: "nm_key_cmp x k = (if x < Fin k then Less else if x = Fin k then Equal else Greater)"
  by (cases x) (auto simp: cmp_def)

section \<open>Search\<close>

lemma seek_loop_wp:
  assumes "shaped m t" "\<forall>a\<in>set (addrs t). a \<noteq> 0" "depth t + 2 \<le> n"
    and "parent rc = Shared g 0" "leaf rc = Shared p 0" "leaf_dir rc = gd"
  shows "wp (seek_loop n k rc False pd (Shared (apex t) 0)) (\<lambda>r m'. m' = m \<and> r = seek_at m k g gd p pd t) m"
  using assms
proof (induction t arbitrary: n rc g gd p pd)
  case (Tip a)
  then obtain i where n: "n = Suc (Suc i)" by (metis add_2_eq_Suc' le_Suc_ex plus_nat.simps(2) add.commute)
  show ?case using Tip by (cases rc) (auto simp: n is_null_def Let_def live_def with_tag_def)
next
  case (Fork l a r)
  then obtain i where n: "n = Suc i" "depth l + 2 \<le> i" "depth r + 2 \<le> i" by (cases n) auto
  obtain nd where nd: "obj m a = Some nd" "nkey nd = nkey_at m a" using Fork.prems(1) by (auto simp: nkey_at_def)
  have l: "shaped m l" "shaped m r" "\<forall>a\<in>set (addrs l). a \<noteq> 0" "\<forall>a\<in>set (addrs r). a \<noteq> 0" using Fork.prems by auto
  show ?case
    using Fork.prems nd Fork.IH(1)[OF l(1,3) n(2)] Fork.IH(2)[OF l(2,4) n(3)]
    by (auto simp: n is_null_def Let_def live_def with_tag_def)
qed

lemma seek_wp:
  assumes inv: "nm_inv m self (s, i1, i2) t" and n: "depth t + 2 \<le> n"
  shows "wp (seek n self k) (\<lambda>r m'. m' = m \<and> r = seek_at m k self Dir_L s Dir_L t) m"
proof -
  have live: "live m self" "live m s" "live m (apex t)" "apex t \<noteq> 0"
    using inv shaped_obj[of m t "apex t"] by (auto simp: live_def)
  show ?thesis
  proof (cases t)
    case (Tip a)
    with n obtain i where "n = Suc i" by (cases n) auto
    with Tip inv live show ?thesis by (auto simp: seek_def Let_def with_tag_def is_null_def)
  next
    case (Fork l a r)
    have "nkey_at m a = Inf" using inv Fork by (simp add: crown_def)
    then have sk: "seek_at m k self Dir_L s Dir_L t = seek_at m k s Dir_L a Dir_L l" using Fork by simp
    have "wp (seek_loop n k \<lparr>ancestor = Shared self 0, successor = Shared s 0, successor_dir = Dir_L, parent = Shared s 0,
        leaf = Shared a 0, leaf_dir = Dir_L\<rparr> False Dir_L (Shared (apex l) 0)) (\<lambda>r m'. m' = m \<and> r = seek_at m k s Dir_L a Dir_L l) m"
      by (rule seek_loop_wp) (use inv n Fork in auto)
    then show ?thesis using inv live Fork unfolding sk by (auto simp: seek_def Let_def with_tag_def)
  qed
qed

lemma nm_get_wp:
  assumes inv: "nm_inv m self (s, i1, i2) t" and n: "depth t + 2 \<le> n"
  shows "wp (nm_get n self k) (\<lambda>r m'. m' = m \<and> r = nm_contents m t k) m"
  unfolding nm_get_def
proof (rule wp_bind_mono[OF seek_wp[OF inv n, of k]], goal_cases)
  case (1 r m')
  note lk = nm_lookup[OF inv, of k]
  obtain nd where nd: "obj m (target m k t) = Some nd" using lk(3) by blast
  then have "nkey_at m (target m k t) = nkey nd" "nval_at m (target m k t) = nvalue nd" by (simp_all add: nkey_at_def nval_at_def)
  with 1 nd lk(1,2) show ?case by (auto split: option.splits)
qed

section \<open>Cleanup\<close>

lemma destroy_subtree_wp:
  assumes "6 \<le> n" "obj m a \<noteq> None" "obj m x \<noteq> None" "a \<notin> set (garbage m)" "x \<notin> set (garbage m)"
    and "a \<noteq> 0" "x \<noteq> 0" "y \<noteq> 0" "a \<noteq> x" "a \<noteq> y" "x \<noteq> y" "raw ts = y"
    and cells: "cell m (x, Nm_left) = null" "cell m (x, Nm_right) = null"
      "cell m (a, Nm_left) = Shared x p \<and> cell m (a, Nm_right) = Shared y q \<or> cell m (a, Nm_left) = Shared y q \<and> cell m (a, Nm_right) = Shared x p"
  shows "wp (destroy_subtree n ts [Shared a 0]) (\<lambda>_ m'. \<exists>R1 R2. m' = reclaim R2 (retire x (reclaim R1 (retire a m)))) m"
proof -
  from assms(1) obtain i where n: "n = Suc (Suc (Suc (Suc (Suc (Suc i)))))"
    by (auto simp: numeral_eq_Suc dest!: le_Suc_ex)
  have live: "live (reclaim R (retire a m)) x" "live m a" for R using assms by (auto simp: live_def restrict_map_def)
  have obx: "obj (reclaim R (retire a m)) x \<noteq> None" for R using assms by (auto simp: restrict_map_def)
  from cells(3) show ?thesis
  proof
    assume "cell m (a, Nm_left) = Shared x p \<and> cell m (a, Nm_right) = Shared y q"
    then show ?thesis using assms live obx by (auto simp: n is_null_def with_tag_eq_iff with_tag_def)
  next
    assume "cell m (a, Nm_left) = Shared y q \<and> cell m (a, Nm_right) = Shared x p"
    then show ?thesis using assms live obx by (auto simp: n is_null_def with_tag_eq_iff with_tag_def)
  qed
qed

text \<open>
  A removal calls \<^verbatim>\<open>cleanup\<close> with the edge to its leaf flagged; it tags the edge to the sibling, splices, and
  retires the parent and the leaf.
\<close>

definition removed :: "('k::linorder, 'v) nm_mem \<Rightarrow> addr \<Rightarrow> sentinels \<Rightarrow> nm_tree \<Rightarrow> 'k \<Rightarrow> ('k, 'v) nm_mem \<Rightarrow> bool" where
  "removed m self z t k m' \<longleftrightarrow> nm_inv m' self z (prune m k t) \<and> nm_contents m' (prune m k t) = (nm_contents m t)(k := None) \<and>
     retired m' = retired m @ [above m k t, target m k t] \<and> freed m' = freed m \<and>
     (\<forall>b. b \<notin> set (garbage m) \<union> {above m k t, target m k t} \<longrightarrow> obj m' b = obj m b) \<and>
     shield m' = shield m \<and> ejections m' = ejections m"

lemma spliced_removed:
  assumes "nm_inv m self (s, i1, i2) t" "nkey_at m (target m k t) = Fin k" "rc = seek_at m k self Dir_L s Dir_L t"
  shows "removed m self (s, i1, i2) t k
    (reclaim R2 (retire (target m k t) (reclaim R1 (retire (above m k t) (spliced rc (target m k t) (sibling m k t) m)))))"
  unfolding removed_def using spliced_inv[OF assms refl] by blast

lemma cleanup_wp:
  assumes inv: "nm_inv m self (s, i1, i2) t" and old: "nkey_at m (target m k t) = Fin k" and n: "6 \<le> n"
    and rc: "rc = seek_at m k self Dir_L s Dir_L t"
  shows "wp (cleanup n rc) (\<lambda>b m'. b \<and> removed m self (s, i1, i2) t k m') (set_cell (leaf_addr rc) (Shared (target m k t) 2) m)"
proof -
  let ?x = "target m k t" and ?a = "above m k t" and ?y = "sibling m k t"
  obtain f g h j where sf: "leaf_addr rc = (?a, f)" "leaf_sibling_addr rc = (?a, g)"
    "f = Nm_left \<and> g = Nm_right \<or> f = Nm_right \<and> g = Nm_left" "successor_addr rc = (h, j)" "successor rc = Shared ?a 0"
    "cell m (?a, f) = Shared ?x 0" "cell m (?a, g) = Shared ?y 0" "cell m (h, j) = Shared ?a 0"
    "cell m (?x, Nm_left) = null" "cell m (?x, Nm_right) = null" "obj m ?a \<noteq> None" "obj m ?x \<noteq> None" "obj m h \<noteq> None"
    "distinct [?a, ?x, ?y]" "h \<noteq> ?a" "h \<noteq> ?x" "?a \<noteq> 0" "?x \<noteq> 0" "?y \<noteq> 0" "?a \<notin> set (garbage m)" "?x \<notin> set (garbage m)"
    by (rule seek_found[OF inv old rc])
  let ?m = "spliced rc ?x ?y m"
  have c: "cell ?m (?a, Nm_left) = Shared ?x 2 \<and> cell ?m (?a, Nm_right) = Shared ?y 1 \<or>
      cell ?m (?a, Nm_left) = Shared ?y 1 \<and> cell ?m (?a, Nm_right) = Shared ?x 2"
    using sf(3,15) by (elim disjE conjE) (simp_all add: spliced_def sf(1,2,4))
  have x: "cell ?m (?x, e) = cell m (?x, e)" for e using sf(14,16) by (auto simp: spliced_def sf(1,2,4))
  have "wp (destroy_subtree n (Shared ?y 1) [Shared ?a 0]) (\<lambda>_ m'. \<exists>R1 R2. m' = reclaim R2 (retire ?x (reclaim R1 (retire ?a ?m)))) ?m"
    by (rule destroy_subtree_wp[OF n _ _ _ _ _ _ _ _ _ _ _ _ _ c])
      (use sf(9-12,14,17-21) x in \<open>simp_all add: spliced_def del: fun_upd_apply\<close>)
  then have "wp (destroy_subtree n (Shared ?y 1) [Shared ?a 0]) (\<lambda>_. removed m self (s, i1, i2) t k) ?m"
    by (rule wp_mono) (auto intro: spliced_removed[OF inv old rc])
  then show ?thesis
    unfolding cleanup_def using sf by (auto simp: Let_def live_def spliced_def wp_bind with_tag_def)
qed

section \<open>Removal\<close>

definition remove_post ::
  "('k::linorder, 'v) nm_mem \<Rightarrow> addr \<Rightarrow> sentinels \<Rightarrow> nm_tree \<Rightarrow> 'k \<Rightarrow> 'v option \<Rightarrow> ('k, 'v) nm_mem \<Rightarrow> bool" where
  "remove_post m self z t k r m' \<longleftrightarrow> r = nm_contents m t k \<and> (if r = None then m' = m else removed m self z t k m')"

lemma nm_remove_wp:
  assumes inv: "nm_inv m self (s, i1, i2) t" and n: "depth t + 6 \<le> n"
  shows "wp (nm_remove n self k) (remove_post m self (s, i1, i2) t k) m"
proof -
  from n obtain i where i: "n = Suc i" by (cases n) auto
  note lk = nm_lookup[OF inv, of k]
  obtain nd where nd: "obj m (target m k t) = Some nd" using lk(3) by blast
  have nk: "nkey_at m (target m k t) = nkey nd" "nval_at m (target m k t) = nvalue nd" using nd by (simp_all add: nkey_at_def nval_at_def)
  let ?rc = "seek_at m k self Dir_L s Dir_L t"
  have sk: "wp (seek n self k) (\<lambda>r m'. m' = m \<and> r = ?rc) m" by (rule seek_wp[OF inv]) (use n in simp)
  show ?thesis
    unfolding nm_remove_def i nm_remove_loop.simps
    unfolding i[symmetric]
  proof (rule wp_bind_mono[OF sk], goal_cases)
    case (1 r m')
    show ?case
    proof (cases "nkey nd = Fin k")
      case False
      with 1 nd lk nk show ?thesis by (auto simp: is_null_def remove_post_def)
    next
      case True
      then have old: "nkey_at m (target m k t) = Fin k" using nk by simp
      then obtain v where v: "nvalue nd = Some v" "nm_contents m t k = Some v" using lk(1,2) nk by auto
      obtain f where f: "leaf_addr ?rc = (above m k t, f)" "cell m (above m k t, f) = Shared (target m k t) 0" "obj m (above m k t) \<noteq> None"
        by (rule seek_found[OF inv old refl])
      have "wp (cleanup n ?rc) (\<lambda>b m'. b \<and> removed m self (s, i1, i2) t k m') (set_cell (leaf_addr ?rc) (Shared (target m k t) 2) m)"
        by (rule cleanup_wp[OF inv old _ refl]) (use n in simp)
      then have "wp (bind (cleanup n ?rc) (\<lambda>unlinked. if unlinked then Ret (Some v) else nm_remove_cleanup n n self k (leaf ?rc) v))
          (remove_post m self (s, i1, i2) t k)
          (set_cell (leaf_addr ?rc) (Shared (target m k t) 2) m)"
        by (rule wp_bind_mono) (use v in \<open>auto simp: remove_post_def\<close>)
      with 1 nd lk nk v f True show ?thesis by (auto simp: is_null_def live_def with_tag_def)
    qed
  qed
qed

section \<open>Insertion\<close>

definition insert_post ::
  "('k::linorder, 'v) nm_mem \<Rightarrow> addr \<Rightarrow> sentinels \<Rightarrow> nm_tree \<Rightarrow> 'k \<Rightarrow> 'v \<Rightarrow> 'k \<times> 'v + unit \<Rightarrow> ('k, 'v) nm_mem \<Rightarrow> bool" where
  "insert_post m self z t k v r m' \<longleftrightarrow> retired m' = retired m \<and> garbage m' = garbage m \<and>
     shield m' = shield m \<and> ejections m' = ejections m \<and>
     (if nm_contents m t k = None
      then r = Inr () \<and> freed m' = freed m \<and> (\<exists>y w. fresh m y \<and> fresh m w \<and> nm_inv m' self z (graft m k y w t) \<and>
        nm_contents m' (graft m k y w t) = (nm_contents m t)(k \<mapsto> v) \<and> (\<forall>a. a \<noteq> y \<longrightarrow> a \<noteq> w \<longrightarrow> obj m' a = obj m a))
      else r = Inl (k, v) \<and> nm_inv m' self z t \<and> nm_contents m' t = nm_contents m t \<and> obj m' = obj m \<and>
        (\<exists>y w. fresh m y \<and> fresh m w \<and> freed m' = freed m @ [y, w]))"

text \<open>The two nodes of an insertion, before it finds its place.\<close>

definition prepared :: "('k, 'v) nm_mem \<Rightarrow> addr \<Rightarrow> addr \<Rightarrow> 'k \<Rightarrow> 'v \<Rightarrow> ('k, 'v) nm_mem" where
  "prepared m y w k v = alloc w \<lparr>nkey = Inf, nvalue = None\<rparr> [(Nm_left, null), (Nm_right, null)]
     (alloc y \<lparr>nkey = Fin k, nvalue = Some v\<rparr> [(Nm_left, null), (Nm_right, null)] m)"

lemma prepared_fields [simp]:
  "cell (prepared m y w k v) (a, f) = (if a = w \<or> a = y then null else cell m (a, f))"
  "obj (prepared m y w k v) = (obj m)(y \<mapsto> \<lparr>nkey = Fin k, nvalue = Some v\<rparr>, w \<mapsto> \<lparr>nkey = Inf, nvalue = None\<rparr>)"
  "statics (prepared m y w k v) = statics m" "garbage (prepared m y w k v) = garbage m" "retired (prepared m y w k v) = retired m"
  "freed (prepared m y w k v) = freed m" "shield (prepared m y w k v) = shield m" "ejections (prepared m y w k v) = ejections m"
proof -
  show "cell (prepared m y w k v) (a, f) = (if a = w \<or> a = y then null else cell m (a, f))"
    by (cases f; cases "a = w"; cases "a = y"; simp add: prepared_def)
qed (simp_all add: prepared_def)

lemma prepared_frame:
  assumes inv: "nm_inv m self (s, i1, i2) t" and f: "fresh m y" "fresh m w" "y \<noteq> w"
  shows "nm_inv (prepared m y w k v) self (s, i1, i2) t"
    "seek_at (prepared m y w k v) j g gd p pd t = seek_at m j g gd p pd t" "target (prepared m y w k v) j t = target m j t"
    "\<forall>a\<in>{y, w}. a \<noteq> 0 \<and> a \<notin> statics m \<and> a \<notin> set (garbage m) \<and> a \<notin> set (nm_nodes (s, i1, i2) t) \<and> a \<noteq> self"
proof -
  have live: "obj m a \<noteq> None" if "a \<in> set (nm_nodes (s, i1, i2) t)" for a
    using inv that shaped_obj[of m t a] by auto
  have g: "garbage_ok m" "self \<in> statics m" "\<forall>a\<in>set (nm_nodes (s, i1, i2) t). a \<notin> set (garbage m)" using inv by auto
  have "a \<noteq> 0 \<and> a \<notin> statics m \<and> a \<notin> set (garbage m) \<and> a \<notin> set (nm_nodes (s, i1, i2) t) \<and> a \<noteq> self" if "fresh m a" for a
    using that live[of a] g(2) garbage_ok_fresh[OF g(1) that] by (auto simp: fresh_def simp del: nm_nodes.simps)
  with f show out: "\<forall>a\<in>{y, w}. a \<noteq> 0 \<and> a \<notin> statics m \<and> a \<notin> set (garbage m) \<and> a \<notin> set (nm_nodes (s, i1, i2) t) \<and> a \<noteq> self"
    by blast
  have a: "garbage_ok (prepared m y w k v)" using g(1) by (simp add: prepared_def garbage_ok_alloc)
  have b: "\<forall>a\<in>set (nm_nodes (s, i1, i2) t). obj (prepared m y w k v) a = obj m a \<and> a \<notin> set (garbage (prepared m y w k v))"
    using out g(3) by (auto simp: prepared_fields simp del: nm_nodes.simps)
  have c: "\<forall>a\<in>insert self (set (nm_nodes (s, i1, i2) t)). \<forall>f. cell (prepared m y w k v) (a, f) = cell m (a, f)"
    using out by (auto simp: prepared_fields simp del: nm_nodes.simps)
  have d: "statics (prepared m y w k v) = statics m" by (simp add: prepared_fields)
  note fr = nm_frame[OF inv d a b c]
  show "nm_inv (prepared m y w k v) self (s, i1, i2) t" "seek_at (prepared m y w k v) j g gd p pd t = seek_at m j g gd p pd t"
    "target (prepared m y w k v) j t = target m j t" by (rule fr)+
qed

lemma take_back_wp:
  assumes inv: "nm_inv m self (s, i1, i2) t" and f: "fresh m y" "fresh m w" "y \<noteq> w" and old: "nm_contents m t k \<noteq> None"
  shows "wp (take_back k (Shared y 0) (Shared w 0)) (insert_post m self (s, i1, i2) t k v) (prepared m y w k v)"
proof -
  note pf = prepared_frame[OF inv f]
  let ?m = "free w (free y (set_obj y \<lparr>nkey = Fin k, nvalue = None\<rparr> (prepared m y w k v)))"
  have fo: "obj m y = None" "obj m w = None" using f by (auto simp: fresh_def)
  have ob: "obj ?m = obj m" using fo f(3) by (auto simp: prepared_fields fun_eq_iff)
  have ga: "garbage_ok ?m" using inv ob by (simp add: garbage_ok_def prepared_fields)
  have nd: "\<forall>a\<in>set (nm_nodes (s, i1, i2) t). obj ?m a = obj m a \<and> a \<notin> set (garbage ?m)"
    using inv ob by (simp add: prepared_fields)
  have ce: "\<forall>a\<in>insert self (set (nm_nodes (s, i1, i2) t)). \<forall>f. cell ?m (a, f) = cell m (a, f)"
    using pf(4) by (auto simp: prepared_fields simp del: nm_nodes.simps)
  have st: "statics ?m = statics m" by (simp add: prepared_fields)
  note fr = nm_frame[OF inv st ga nd ce]
  have "insert_post m self (s, i1, i2) t k v (Inl (k, v)) ?m"
    unfolding insert_post_def using fr(1,2) ob old f by (auto simp del: nm_inv.simps)
  then show ?thesis using f(3) pf(4) by (auto simp: take_back_def prepared_fields)
qed

lemma place_inv:
  assumes inv: "nm_inv m self (s, i1, i2) t" and f: "fresh m y" "fresh m w" "y \<noteq> w" and new: "nm_contents m t k = None"
    and x: "x = target m k t" and b: "b \<longleftrightarrow> Fin k < nkey_at m x" and rc: "rc = seek_at m k self Dir_L s Dir_L t"
    and m': "m' = set_cell (leaf_addr rc) (Shared w 0) (set_cell (w, Nm_right) (Shared (if b then x else y) 0)
      (set_cell (w, Nm_left) (Shared (if b then y else x) 0)
      (set_obj w \<lparr>nkey = max (Fin k) (nkey_at m x), nvalue = None\<rparr> (prepared m y w k v))))"
  shows "insert_post m self (s, i1, i2) t k v (Inr ()) m'"
proof -
  note pf = prepared_frame[OF inv f]
  have fo: "obj m y = None" "obj m w = None" using f by (auto simp: fresh_def)
  have nk: "nkey_at m (target m k t) \<noteq> Fin k" using nm_lookup(1,2)[OF inv, of k] new by auto
  have la: "fst (leaf_addr rc) = s \<or> fst (leaf_addr rc) \<in> set (addrs t)" using leaf_addr_cases[of m k self Dir_L s Dir_L t] rc by auto
  then have lw: "fst (leaf_addr rc) \<noteq> w" "fst (leaf_addr rc) \<noteq> y" using pf(4) by auto
  obtain q e where qe: "leaf_addr rc = (q, e)" by (cases "leaf_addr rc")
  have ga: "garbage_ok m'" using inv by (auto simp: m' prepared_fields garbage_ok_def)
  have st: "statics m' = statics m" by (simp add: m' prepared_fields)
  have s1: "\<forall>a\<in>set (nm_nodes (s, i1, i2) t). obj m' a = obj m a \<and> a \<notin> set (garbage m')"
    using inv pf(4) by (auto simp: m' prepared_fields simp del: nm_nodes.simps)
  have s2: "\<forall>a\<in>insert self (set (nm_nodes (s, i1, i2) t)). \<forall>f. (a, f) \<noteq> leaf_addr rc \<longrightarrow> cell m' (a, f) = cell m (a, f)"
    using pf(4) by (auto simp: m' prepared_fields simp del: nm_nodes.simps)
  have s3: "cell m' (leaf_addr rc) = Shared w 0" by (simp add: m')
  have yw: "\<forall>a\<in>{y, w}. a \<noteq> 0 \<and> a \<notin> statics m \<and> a \<notin> set (garbage m') \<and> a \<notin> set (nm_nodes (s, i1, i2) t)"
    using pf(4) by (auto simp: m' prepared_fields simp del: nm_nodes.simps)
  have y: "obj m' y = Some \<lparr>nkey = Fin k, nvalue = Some v\<rparr>" "cell m' (y, Nm_left) = null" "cell m' (y, Nm_right) = null"
    using f(3) lw qe by (auto simp: m' prepared_fields)
  have w: "obj m' w = Some \<lparr>nkey = max (Fin k) (nkey_at m (target m k t)), nvalue = None\<rparr>"
    "cell m' (w, Nm_left) = Shared (if b then y else x) 0" "cell m' (w, Nm_right) = Shared (if b then x else y) 0"
    using lw qe x by (auto simp: m' prepared_fields)
  note gr = nm_graft[OF inv nk st ga rc s1 s2 s3 yw f(3) y w(1) x b w(2,3)]
  have ob: "\<forall>a. a \<noteq> y \<longrightarrow> a \<noteq> w \<longrightarrow> obj m' a = obj m a"
    and fl: "retired m' = retired m" "garbage m' = garbage m" "freed m' = freed m" "shield m' = shield m" "ejections m' = ejections m"
    by (simp_all add: m')
  show ?thesis unfolding insert_post_def using gr f(1,2) new ob by (simp add: fl del: nm_inv.simps) blast
qed

lemma nm_insert_wp:
  assumes inv: "nm_inv m self (s, i1, i2) t" and n: "depth t + 2 \<le> n"
  shows "wp (nm_insert n self k v) (insert_post m self (s, i1, i2) t k v) m"
proof -
  from n obtain i where i: "n = Suc i" by (cases n) auto
  let ?x = "target m k t" and ?rc = "seek_at m k self Dir_L s Dir_L t"
  have "wp (nm_insert_loop n n self k (Shared y 0) (Shared w 0)) (insert_post m self (s, i1, i2) t k v) (prepared m y w k v)"
    if y: "fresh m y" and w: "fresh m w" "w \<noteq> y" for y w
  proof -
    note yw = y w(1) w(2)[symmetric]
    note pf = prepared_frame[OF inv yw]
    have sk: "wp (seek n self k) (\<lambda>r m'. m' = prepared m y w k v \<and> r = ?rc) (prepared m y w k v)"
      using seek_wp[OF pf(1) n, where k = k] pf(2) by simp
    note lk = nm_lookup[OF inv, of k]
    obtain nd where nd: "obj m ?x = Some nd" using lk(3) by blast
    have nk: "nkey_at m ?x = nkey nd" "nval_at m ?x = nvalue nd" using nd by (simp_all add: nkey_at_def nval_at_def)
    have xt: "?x \<in> set (addrs t)" using leaves_addrs target_leaf by blast
    then have xn: "?x \<noteq> y" "?x \<noteq> w" using pf(4) by auto
    have lv: "live (prepared m y w k v) (fst (leaf_addr ?rc))" "fst (leaf_addr ?rc) \<noteq> y" "fst (leaf_addr ?rc) \<noteq> w"
      "cell (prepared m y w k v) (leaf_addr ?rc) = Shared ?x 0"
    proof -
      have "fst (leaf_addr ?rc) = s \<or> fst (leaf_addr ?rc) \<in> set (addrs t)" using leaf_addr_cases[of m k self Dir_L s Dir_L t] by auto
      then show lw: "fst (leaf_addr ?rc) \<noteq> y" "fst (leaf_addr ?rc) \<noteq> w" and "live (prepared m y w k v) (fst (leaf_addr ?rc))"
        using pf(4) inv shaped_obj[of m t "fst (leaf_addr ?rc)"] by (auto simp: live_def)
      have "cell m (leaf_addr ?rc) = Shared ?x 0" by (rule leaf_edge) (use inv in auto)
      with lw show "cell (prepared m y w k v) (leaf_addr ?rc) = Shared ?x 0" by (cases "leaf_addr ?rc") simp
    qed
    obtain q e where qe: "leaf_addr ?rc = (q, e)" by (cases "leaf_addr ?rc")
    show ?thesis
      unfolding i nm_insert_loop.simps
      unfolding i[symmetric]
    proof (rule wp_bind_mono[OF sk], goal_cases)
      case (1 r m')
      show ?case
      proof (cases "nkey nd" "Fin k" rule: linorder_cases)
        case equal
        then have "nm_contents m t k \<noteq> None" using lk(1,2) nk by simp
        from take_back_wp[OF inv yw this, of v] equal nd xn 1 show ?thesis
          by (simp add: nm_key_cmp_eq del: nm_key_cmp_simps)
      next
        case less
        then have new: "nm_contents m t k = None" "\<not> Fin k < nkey_at m ?x" "max (Fin k) (nkey_at m ?x) = Fin k" using lk(1) nk by auto
        from place_inv[OF inv yw new(1) refl refl refl refl, of v] new(2,3) less nd xn 1 lv qe w nk show ?thesis
          by (simp add: nm_key_cmp_eq live_def del: nm_key_cmp_simps)
      next
        case greater
        then have new: "nm_contents m t k = None" "Fin k < nkey_at m ?x" "max (Fin k) (nkey_at m ?x) = nkey nd"
          "nkey nd \<noteq> Fin k" "\<not> nkey nd < Fin k" using lk(1) nk by auto
        from place_inv[OF inv yw new(1) refl refl refl refl, of v] new(2-5) nd xn 1 lv qe w nk show ?thesis
          by (simp add: nm_key_cmp_eq live_def del: nm_key_cmp_simps)
      qed
    qed
  qed
  then show ?thesis
    by (auto simp: nm_insert_def atomic_from_def new_leaf_def prepared_def fresh_def)
qed

section \<open>Construction and destruction\<close>

definition nm_place :: "addr \<Rightarrow> ('k, 'v) nm_mem \<Rightarrow> bool" where
  "nm_place self m \<longleftrightarrow> self \<in> statics m \<and> garbage_ok m"

lemma nm_new_wp:
  assumes "nm_place self m"
  shows "wp (nm_new self) (\<lambda>_ m'. \<exists>z a. nm_inv m' self z (Tip a) \<and> nm_contents m' (Tip a) = Map.empty) m"
proof -
  have p: "self \<in> statics m" "garbage_ok m" using assms by (auto simp: nm_place_def)
  let ?leaf = "\<lparr>nkey = Inf, nvalue = None\<rparr> :: ('k, 'v) nm_node"
  have "nm_inv m' self (s, b, c) (Tip a) \<and> nm_contents m' (Tip a) = Map.empty"
    if f: "fresh m a" "fresh m b" "b \<noteq> a" "fresh m s" "s \<noteq> a" "s \<noteq> b" "fresh m c" "c \<noteq> a" "c \<noteq> b" "c \<noteq> s"
      and m': "m' = set_cell (self, Nm_right) (Shared c 0) (set_cell (self, Nm_left) (Shared s 0)
        (alloc c ?leaf [(Nm_left, null), (Nm_right, null)] (alloc s ?leaf [(Nm_left, Shared a 0), (Nm_right, Shared b 0)]
        (alloc b ?leaf [(Nm_left, null), (Nm_right, null)] (alloc a ?leaf [(Nm_left, null), (Nm_right, null)] m)))))" for a b s c m'
  proof -
    have g: "x \<notin> set (garbage m)" "x \<noteq> self" "0 < x" "x \<notin> statics m" if "fresh m x" for x
      using that p garbage_ok_fresh[OF p(2) that] by (auto simp: fresh_def)
    have "garbage_ok m'" using p by (auto simp: m' garbage_ok_alloc)
    note n = f(3,5,6,8-10) f(3,5,6,8-10)[symmetric] g[OF f(1)] g[OF f(2)] g[OF f(4)] g[OF f(7)]
    have "nm_inv m' self (s, b, c) (Tip a)"
      using \<open>garbage_ok m'\<close> by (simp add: m' crown_def nkey_at_def p n)
    moreover have "nm_contents m' (Tip a) = Map.empty" by (simp add: m' nm_contents_def nkey_at_def nval_at_def fun_eq_iff n)
    ultimately show ?thesis by blast
  qed
  note fact = this
  have fr: "fresh (alloc x e fs y) z \<longleftrightarrow> fresh y z \<and> z \<noteq> x" for x e fs z and y :: "('k, 'v) nm_mem" by (auto simp: fresh_def)
  show ?thesis
    unfolding nm_new_def new_internal_def atomic_from_def new_leaf_def Let_def
    by (simp add: p fr del: nm_inv.simps) (use fact[OF _ _ _ _ _ _ _ _ _ _ refl] in blast)
qed

fun nm_drop_order :: "nm_tree \<Rightarrow> addr list" where
  "nm_drop_order (Tip a) = [a]"
| "nm_drop_order (Fork l a r) = a # nm_drop_order r @ nm_drop_order l"

fun pops :: "nm_tree \<Rightarrow> nat" where
  "pops (Tip a) = 3"
| "pops (Fork l a r) = Suc (pops l + pops r)"

lemma set_nm_drop_order: "set (nm_drop_order t) = set (addrs t)"
  by (induction t) auto

lemma distinct_nm_drop_order: "distinct (nm_drop_order t) = distinct (addrs t)"
  by (induction t) (auto simp: set_nm_drop_order)

lemma pops_leaves: "Suc (pops t) = 4 * length (leaves t)"
  by (induction t) auto

text \<open>The stack holds null pointers and pointers to disjoint trees.\<close>

fun stack_of :: "nm_tree option list \<Rightarrow> shared list" where
  "stack_of [] = []"
| "stack_of (None # ts) = null # stack_of ts"
| "stack_of (Some t # ts) = Shared (apex t) 0 # stack_of ts"

fun stacked :: "nm_tree option list \<Rightarrow> addr list" where
  "stacked [] = []"
| "stacked (None # ts) = stacked ts"
| "stacked (Some t # ts) = nm_drop_order t @ stacked ts"

fun stack_pops :: "nm_tree option list \<Rightarrow> nat" where
  "stack_pops [] = 1"
| "stack_pops (None # ts) = Suc (stack_pops ts)"
| "stack_pops (Some t # ts) = pops t + stack_pops ts"

lemma stack_pops_pos: "0 < stack_pops ts"
  by (induction ts rule: stack_pops.induct) auto

lemma nm_drop_loop_wp:
  assumes "\<forall>t. Some t \<in> set ts \<longrightarrow> shaped m t" "distinct (stacked ts)" "\<forall>a\<in>set (stacked ts). a \<noteq> 0 \<and> a \<notin> set (garbage m)" "stack_pops ts \<le> n"
  shows "wp (nm_drop_loop n (stack_of ts)) (\<lambda>_ m'. freed m' = freed m @ stacked ts \<and> obj m' = (obj m) |` (- set (stacked ts)) \<and>
      retired m' = retired m \<and> garbage m' = garbage m) m"
  using assms
proof (induction n arbitrary: ts m)
  case 0
  then show ?case using stack_pops_pos[of ts] by simp
next
  case (Suc n)
  show ?case
  proof (cases ts rule: stack_pops.cases)
    case 1
    then show ?thesis by (auto simp: restrict_map_def)
  next
    case (2 us)
    with Suc show ?thesis by (auto simp: is_null_def)
  next
    case (3 t us)
    define a where "a = apex t"
    have at: "a \<in> set (nm_drop_order t)" "a \<in> set (addrs t)" by (simp_all add: a_def set_nm_drop_order)
    have sh: "shaped m t" "distinct (nm_drop_order t)" using Suc.prems 3 by auto
    obtain ts' where ts': "stack_of ts' = cell m (a, Nm_right) # cell m (a, Nm_left) # stack_of us" "stacked ts = a # stacked ts'"
      "stack_pops ts' \<le> n" "\<forall>u. Some u \<in> set ts' \<longrightarrow> Some u \<in> set us \<or> shaped m u \<and> set (addrs u) \<subseteq> set (addrs t) - {a}"
    proof (cases t)
      case (Tip b)
      then show ?thesis using that[of "None # None # us"] sh 3 Suc.prems(4) by (simp add: a_def)
    next
      case (Fork l b r)
      then show ?thesis using that[of "Some r # Some l # us"] sh 3 Suc.prems(4) by (auto simp: a_def set_nm_drop_order)
    qed
    have oa: "obj m a \<noteq> None" using shaped_obj[OF sh(1) at(2)] .
    have az: "a \<noteq> 0" "a \<notin> set (garbage m)" "a \<notin> set (stacked ts')" using Suc.prems(2,3) ts'(2) by auto
    have "wp (nm_drop_loop n (stack_of ts')) (\<lambda>_ m'. freed m' = freed (free a m) @ stacked ts' \<and>
        obj m' = (obj (free a m)) |` (- set (stacked ts')) \<and> retired m' = retired (free a m) \<and> garbage m' = garbage (free a m)) (free a m)"
    proof (rule Suc.IH)
      show "\<forall>u. Some u \<in> set ts' \<longrightarrow> shaped (free a m) u"
      proof (intro allI impI)
        fix u assume u: "Some u \<in> set ts'"
        have "set (addrs u) \<subseteq> set (stacked ts')" using u by (induction ts' rule: stack_pops.induct) (auto simp: set_nm_drop_order)
        then have "shaped (free a m) u = shaped m u" using az(3) by (intro shaped_cong) auto
        then show "shaped (free a m) u" using ts'(4) u Suc.prems(1) 3 by auto
      qed
    qed (use Suc.prems(2,3) ts'(2,3) in auto)
    then have "wp (nm_drop_loop n (stack_of ts')) (\<lambda>_ m'. freed m' = freed m @ stacked ts \<and>
        obj m' = (obj m) |` (- set (stacked ts)) \<and> retired m' = retired m \<and> garbage m' = garbage m) (free a m)"
      by (rule wp_mono) (auto simp: ts'(2) restrict_map_def fun_eq_iff)
    then show ?thesis using 3 oa az(1,2) ts'(1) by (simp add: a_def[symmetric] is_null_def live_def)
  qed
qed

lemma nm_drop_wp:
  assumes inv: "nm_inv m self (s, i1, i2) t" and n: "4 * length (leaves t) + 8 \<le> n"
  shows "wp (nm_drop n self) (\<lambda>_ m'. freed m' = freed m @ i2 # s # i1 # nm_drop_order t \<and>
      obj m' = (obj m) |` (- set (nm_nodes (s, i1, i2) t)) \<and> retired m' = retired m \<and> garbage m' = garbage m) m"
proof -
  have sh: "shaped m (Fork t s (Tip i1))" "shaped m (Tip i2)" "live m self" using inv by (auto simp: live_def)
  have "wp (nm_drop_loop n (stack_of [Some (Tip i2), Some (Fork t s (Tip i1))])) (\<lambda>_ m'.
      freed m' = freed m @ stacked [Some (Tip i2), Some (Fork t s (Tip i1))] \<and>
      obj m' = (obj m) |` (- set (stacked [Some (Tip i2), Some (Fork t s (Tip i1))])) \<and> retired m' = retired m \<and> garbage m' = garbage m) m"
    by (rule nm_drop_loop_wp) (use inv sh n pops_leaves[of t] distinct_nm_drop_order[of t] in \<open>auto simp: set_nm_drop_order\<close>)
  then show ?thesis using inv sh(3) by (simp add: nm_drop_def set_nm_drop_order insert_commute)
qed

section \<open>The map\<close>

definition NMTreeMap_ops :: "(addr, 'k::linorder, 'v, nm_field, ('k, 'v) nm_node) concurrent_map" where
  "NMTreeMap_ops = \<lparr>map_new = NMTreeMap_new, map_get = NMTreeMap_get, map_insert = NMTreeMap_insert,
     map_remove = NMTreeMap_remove\<rparr>"

definition nm_repr :: "addr \<Rightarrow> ('k::linorder, 'v) nm_mem \<Rightarrow> ('k \<rightharpoonup> 'v) \<Rightarrow> nat \<Rightarrow> bool" where
  "nm_repr self m M b \<longleftrightarrow> (\<exists>z t. nm_inv m self z t \<and> nm_contents m t = M \<and> length (leaves t) \<le> Suc b)"

lemma nm_reprI: "nm_inv m self z t \<Longrightarrow> nm_contents m t = M \<Longrightarrow> length (leaves t) \<le> Suc b \<Longrightarrow> nm_repr self m M b"
  unfolding nm_repr_def by blast

lemma nm_repr_depth: "length (leaves t) \<le> Suc b \<Longrightarrow> depth t \<le> b"
  using depth_leaves[of t] by simp

lemma length_graft: "length (leaves (graft m k y w t)) = Suc (length (leaves t))"
  using arg_cong[OF leaves_graft[of m k y w t], of size] by simp

lemma length_prune: "length (leaves (prune m k t)) \<le> length (leaves t)"
  by (induction t) auto

lemma insert_post_repr:
  assumes "insert_post m self z t k v r m'" "length (leaves t) \<le> Suc b"
  shows "(\<not> isl r) = (nm_contents m t k = None) \<and>
    nm_repr self m' (if nm_contents m t k = None then (nm_contents m t)(k \<mapsto> v) else nm_contents m t) (Suc b)"
proof (cases "nm_contents m t k")
  case None
  with assms(1) obtain y w where "r = Inr ()" "nm_inv m' self z (graft m k y w t)" "nm_contents m' (graft m k y w t) = (nm_contents m t)(k \<mapsto> v)"
    by (auto simp: insert_post_def)
  moreover have "length (leaves (graft m k y w t)) \<le> Suc (Suc b)" using assms(2) by (simp add: length_graft)
  ultimately show ?thesis using None by (auto intro: nm_reprI)
next
  case (Some x)
  with assms(1) have "isl r" "nm_inv m' self z t" "nm_contents m' t = nm_contents m t" by (auto simp: insert_post_def)
  with Some assms(2) show ?thesis by (auto intro: nm_reprI)
qed

lemma remove_post_repr:
  assumes "nm_inv m self z t" "remove_post m self z t k r m'" "length (leaves t) \<le> Suc b"
  shows "r = nm_contents m t k \<and> nm_repr self m' ((nm_contents m t)(k := None)) b"
proof (cases r)
  case None
  with assms show ?thesis by (auto simp: remove_post_def fun_upd_idem intro: nm_reprI)
next
  case (Some x)
  with assms(2) have "r = nm_contents m t k" "nm_inv m' self z (prune m k t)" "nm_contents m' (prune m k t) = (nm_contents m t)(k := None)"
    by (auto simp: remove_post_def removed_def)
  moreover have "length (leaves (prune m k t)) \<le> Suc b" using length_prune[of m k t] assms(3) by simp
  ultimately show ?thesis by (auto intro: nm_reprI)
qed

lemma NMTreeMap_insert_wp:
  assumes "nm_repr self m M b" "b < n"
  shows "wp (NMTreeMap_insert self n k v)
    (\<lambda>r m'. r = (M k = None) \<and> nm_repr self m' (if M k = None then M(k \<mapsto> v) else M) (Suc b)) m"
proof -
  from assms(1) obtain s i1 i2 t where t: "nm_inv m self (s, i1, i2) t" "nm_contents m t = M" "length (leaves t) \<le> Suc b"
    by (auto simp: nm_repr_def simp del: nm_inv.simps)
  show ?thesis
    unfolding NMTreeMap_insert_def
  proof (rule wp_bind_mono[OF nm_insert_wp[OF t(1)]], goal_cases)
    case (2 r m')
    from insert_post_repr[OF 2 t(3), unfolded t(2)] show ?case by simp
  qed (use nm_repr_depth[OF t(3)] assms(2) in simp)
qed

lemma NMTreeMap_remove_wp:
  assumes "nm_repr self m M b" "b < n"
  shows "wp (NMTreeMap_remove self n k) (\<lambda>r m'. r = M k \<and> nm_repr self m' (M(k := None)) b) m"
proof -
  from assms(1) obtain s i1 i2 t where t: "nm_inv m self (s, i1, i2) t" "nm_contents m t = M" "length (leaves t) \<le> Suc b"
    by (auto simp: nm_repr_def simp del: nm_inv.simps)
  have "wp (nm_remove (n + 6) self k) (remove_post m self (s, i1, i2) t k) m"
    by (rule nm_remove_wp[OF t(1)]) (use nm_repr_depth[OF t(3)] assms(2) in simp)
  then show ?thesis
    unfolding NMTreeMap_remove_def by (rule wp_mono) (use remove_post_repr[OF t(1) _ t(3)] t(2) in blast)
qed

interpretation NMTreeMap: map_impl NMTreeMap_ops nm_place nm_repr
proof (unfold_locales, goal_cases)
  case (1 h m)
  then show ?case
    by (auto simp: NMTreeMap_ops_def NMTreeMap_new_def nm_repr_def simp del: nm_inv.simps intro!: wp_mono[OF nm_new_wp]) force
next
  case (2 h m M s n k)
  then obtain z i1 i2 t where t: "nm_inv m h (z, i1, i2) t" "nm_contents m t = M" "length (leaves t) \<le> Suc s"
    by (auto simp: nm_repr_def simp del: nm_inv.simps)
  have "wp (nm_get (n + 6) h k) (\<lambda>r m'. m' = m \<and> r = nm_contents m t k) m"
    by (rule nm_get_wp[OF t(1)]) (use nm_repr_depth[OF t(3)] 2 in simp)
  with 2 t(2) show ?case by (auto simp: NMTreeMap_ops_def NMTreeMap_get_def elim: wp_mono)
next
  case (3 h m M s n k v)
  then show ?case by (simp add: NMTreeMap_ops_def NMTreeMap_insert_wp)
next
  case (4 h m M s n k)
  then show ?case by (simp add: NMTreeMap_ops_def NMTreeMap_remove_wp)
next
  case (5 h m M s s')
  then show ?case by (force simp: nm_repr_def simp del: nm_inv.simps)
qed

section \<open>Marks and keys as values\<close>

text \<open>
  C38: the two marks of an edge are independent bits: what \<^verbatim>\<open>Marks::new\<close> packs is read back by
  \<^verbatim>\<open>flag\<close> and \<^verbatim>\<open>tag\<close>, and packing what was read from any tag gives that tag, cut to its two
  lowest bits.
\<close>

theorem marks_roundtrip:
  "marks_flag (from_bits_truncate (marks_new f t)) = f \<and> marks_tag (from_bits_truncate (marks_new f t)) = t \<and>
   marks_new (marks_flag b) (marks_tag b) = from_bits_truncate b \<and> from_bits_truncate b = b mod 4"
proof (intro conjI)
  show "marks_flag (from_bits_truncate (marks_new f t)) = f" "marks_tag (from_bits_truncate (marks_new f t)) = t"
    by (cases f; cases t; simp add: marks_tag_def marks_flag_def from_bits_truncate_def MARK_FLAG_def MARK_TAG_def marks_new_def)+
  show low: "from_bits_truncate b = b mod 4"
    using take_bit_eq_mask[of 2 b] by (simp add: from_bits_truncate_def MARK_FLAG_def MARK_TAG_def take_bit_eq_mod mask_eq_exp_minus_1)
  have "marks_flag b \<longleftrightarrow> odd (b div 2)" "marks_tag b \<longleftrightarrow> odd b"
    using and_exp_eq_0_iff_not_bit[of b 1] and_exp_eq_0_iff_not_bit[of b 0]
    by (simp_all add: marks_flag_def marks_tag_def MARK_FLAG_def MARK_TAG_def bit_iff_odd)
  moreover have "b mod 4 = 2 * (b div 2 mod 2) + b mod 2" using mod_mult2_eq[of b 2 2] by simp
  ultimately show "marks_new (marks_flag b) (marks_tag b) = from_bits_truncate b"
    by (auto simp: low marks_new_def MARK_FLAG_def MARK_TAG_def odd_iff_mod_2_eq_one even_iff_mod_2_eq_zero)
qed

text \<open>
  C39: the five comparisons of \<^verbatim>\<open>Key\<close> agree, the hand-written ones and the derived one: each is the comparison of
  the total order of finite keys extended by a greatest element.
\<close>

theorem nm_key_orders_agree:
  "nm_key_partial_cmp a b = Some (cmp a b) \<and> nm_key_derived_cmp a b = cmp a b \<and>
   nm_key_partial_cmp_key a k = Some (cmp a (Fin k)) \<and> nm_key_cmp a k = cmp a (Fin k) \<and> (nm_key_eq a k \<longleftrightarrow> a = Fin k)"
  by (cases a; cases b) (auto simp: cmp_def nm_key_derived_cmp_def)

section \<open>Runs\<close>

text \<open>The entries 10 and 20 below the sentinels.\<close>

definition demo_nm :: "(nm_field, (int, int) nm_node) sc" where
  "demo_nm = sc_start {1} 10
     (\<lambda>l. if l = (1, Nm_left) then Shared 2 0 else if l = (1, Nm_right) then Shared 5 0
          else if l = (2, Nm_left) then Shared 9 0 else if l = (2, Nm_right) then Shared 4 0
          else if l = (9, Nm_left) then Shared 7 0 else if l = (9, Nm_right) then Shared 3 0
          else if l = (7, Nm_left) then Shared 6 0 else if l = (7, Nm_right) then Shared 8 0 else null)
     [2 \<mapsto> \<lparr>nkey = Inf, nvalue = None\<rparr>, 3 \<mapsto> \<lparr>nkey = Inf, nvalue = None\<rparr>, 4 \<mapsto> \<lparr>nkey = Inf, nvalue = None\<rparr>,
      5 \<mapsto> \<lparr>nkey = Inf, nvalue = None\<rparr>, 6 \<mapsto> \<lparr>nkey = Fin 10, nvalue = Some 100\<rparr>, 7 \<mapsto> \<lparr>nkey = Fin 20, nvalue = None\<rparr>,
      8 \<mapsto> \<lparr>nkey = Fin 20, nvalue = Some 200\<rparr>, 9 \<mapsto> \<lparr>nkey = Inf, nvalue = None\<rparr>] []"

definition demo_nm_tree :: nm_tree where
  "demo_nm_tree = Fork (Fork (Tip 6) 7 (Tip 8)) 9 (Tip 3)"

lemma demo_nm_ok: "sc_ok demo_nm"
  unfolding demo_nm_def by (rule sc_ok_start) (auto split: if_splits)

lemma demo_nm_inv: "nm_inv (sc_view demo_nm) 1 (2, 4, 5) demo_nm_tree"
  by (simp add: demo_nm_def demo_nm_tree_def crown_def nkey_at_def nval_at_def garbage_ok_start less_eq_nm_key_def)

lemma demo_nm_contents: "nm_contents (sc_view demo_nm) demo_nm_tree = [10 \<mapsto> 100, 20 \<mapsto> 200]"
  by (auto simp: demo_nm_def demo_nm_tree_def nm_contents_def nkey_at_def nval_at_def fun_eq_iff map_add_def)

lemma demo_nm_repr: "nm_repr 1 (sc_view demo_nm) [10 \<mapsto> 100, 20 \<mapsto> 200] 2"
  by (rule nm_reprI[OF demo_nm_inv demo_nm_contents]) (simp add: demo_nm_tree_def)

lemmas demo_nm_facts = sc.crossbeam_api_axioms demo_nm_ok

definition nm_calls :: "(int, int) request list" where
  "nm_calls = [Insert_req 15 5, Insert_req 10 6, Remove_req 20, Get_req 15, Get_req 20]"

text \<open>
  C16: \<^verbatim>\<open>NMTreeMap\<close> refines a finite map: on every implementation of the memory interface that keeps its
  contract, any sequence of calls on a well-formed tree with no removal under way returns, commits no memory error, answers as
  the finite map would, and leaves such a tree, which represents the resulting map.
\<close>

theorem nm_tree_refines_map:
  assumes "crossbeam_api X view ok" "ok s" "nm_repr self (view s) M b" "b + length qs \<le> n"
  shows "completes X view ok (calls NMTreeMap_ops self n qs) s
    (\<lambda>rs m'. \<exists>M'. spec_calls qs M = (rs, M') \<and> nm_repr self m' M' (b + length qs))"
  using assms by (intro wp_completes NMTreeMap.calls_wp)

theorem nm_tree_refines_map_witness:
  "completes sc_api sc_view sc_ok (calls NMTreeMap_ops 1 10 nm_calls) demo_nm
     (\<lambda>rs m'. \<exists>M'. spec_calls nm_calls [10 \<mapsto> 100, 20 \<mapsto> 200] = (rs, M') \<and> nm_repr 1 m' M' (2 + length nm_calls))"
  by (rule nm_tree_refines_map[OF demo_nm_facts demo_nm_repr]) (simp add: nm_calls_def)

text \<open>
  C17: one \<^verbatim>\<open>remove\<close> in detail.  It returns the value stored under the key.  If there is one, the leaf and its parent are
  retired, in this order the parent first, and nothing else; the sibling takes the place of the parent; every other node keeps
  its key and value; nothing is freed.  Otherwise the memory does not change.
\<close>

theorem nm_remove_correct:
  assumes "crossbeam_api X view ok" "ok s" "nm_inv (view s) self (a, i1, i2) t" "depth t + 6 \<le> n"
  shows "completes X view ok (nm_remove n self k) s (remove_post (view s) self (a, i1, i2) t k)"
  by (rule wp_completes[OF assms(1,2) nm_remove_wp[OF assms(3,4)]])

theorem nm_remove_correct_witness:
  "completes sc_api sc_view sc_ok (nm_remove 9 1 10) demo_nm (remove_post (sc_view demo_nm) 1 (2, 4, 5) demo_nm_tree 10)"
  by (rule nm_remove_correct[OF demo_nm_facts demo_nm_inv]) (simp add: demo_nm_tree_def)

text \<open>
  One \<^verbatim>\<open>insert\<close> in detail.  It succeeds exactly if the key is absent; then a new leaf and a new inner node stand
  where the search ended, over the leaf it met, and no other node changes.  Otherwise the key and value come back, the two new nodes
  are freed, and the tree is as before.  Nothing is retired.
\<close>

theorem nm_insert_correct:
  assumes "crossbeam_api X view ok" "ok s" "nm_inv (view s) self (a, i1, i2) t" "depth t + 2 \<le> n"
  shows "completes X view ok (nm_insert n self k v) s (insert_post (view s) self (a, i1, i2) t k v)"
  by (rule wp_completes[OF assms(1,2) nm_insert_wp[OF assms(3,4)]])

theorem nm_insert_correct_witness:
  "completes sc_api sc_view sc_ok (nm_insert 4 1 15 5) demo_nm (insert_post (sc_view demo_nm) 1 (2, 4, 5) demo_nm_tree 15 5)"
  by (rule nm_insert_correct[OF demo_nm_facts demo_nm_inv]) (simp add: demo_nm_tree_def)

text \<open>
  C18: dropping the tree frees every node exactly once, sentinels included, and nothing else; in particular its loop ends
  after at most four steps per leaf.
\<close>

theorem nm_drop_correct:
  assumes "crossbeam_api X view ok" "ok s" "nm_inv (view s) self (a, i1, i2) t" "4 * length (leaves t) + 8 \<le> n"
  shows "completes X view ok (nm_drop n self) s (\<lambda>_ m'. (\<exists>fs. freed m' = freed (view s) @ fs \<and> distinct fs \<and>
      set fs = set (nm_nodes (a, i1, i2) t)) \<and> obj m' = (obj (view s)) |` (- set (nm_nodes (a, i1, i2) t)) \<and>
      retired m' = retired (view s) \<and> garbage m' = garbage (view s))"
proof (rule wp_completes[OF assms(1,2)], rule wp_mono[OF nm_drop_wp[OF assms(3,4)]])
  fix u m'
  assume m': "freed m' = freed (view s) @ i2 # a # i1 # nm_drop_order t \<and> obj m' = obj (view s) |` (- set (nm_nodes (a, i1, i2) t)) \<and>
    retired m' = retired (view s) \<and> garbage m' = garbage (view s)"
  have "distinct (i2 # a # i1 # nm_drop_order t)" "set (i2 # a # i1 # nm_drop_order t) = set (nm_nodes (a, i1, i2) t)"
    using assms(3) by (auto simp: set_nm_drop_order distinct_nm_drop_order)
  with m' show "(\<exists>fs. freed m' = freed (view s) @ fs \<and> distinct fs \<and> set fs = set (nm_nodes (a, i1, i2) t)) \<and>
    obj m' = (obj (view s)) |` (- set (nm_nodes (a, i1, i2) t)) \<and> retired m' = retired (view s) \<and> garbage m' = garbage (view s)" by blast
qed

theorem nm_drop_correct_witness:
  "completes sc_api sc_view sc_ok (nm_drop 20 1) demo_nm (\<lambda>_ m'. (\<exists>fs. freed m' = freed (sc_view demo_nm) @ fs \<and> distinct fs \<and>
      set fs = set (nm_nodes (2, 4, 5) demo_nm_tree)) \<and> obj m' = (obj (sc_view demo_nm)) |` (- set (nm_nodes (2, 4, 5) demo_nm_tree)) \<and>
      retired m' = retired (sc_view demo_nm) \<and> garbage m' = garbage (sc_view demo_nm))"
  by (rule nm_drop_correct[OF demo_nm_facts demo_nm_inv]) (simp add: demo_nm_tree_def)

end
