(* ===== verification/Pebr_List.thy ===== *)
theory Pebr_List
  imports Ebr_List
begin

text \<open>
  \<^verbatim>\<open>src/src/pebr/list.rs\<close>: the same lists over pointer-and-epoch-based reclamation.  A
  traversal protects every node with a \<^verbatim>\<open>Shield\<close> before it dereferences it; protecting
  fails when the guard has been ejected, and the wrappers then repin and start over.  Names carry
  the prefix \<open>pebr_\<close>; \<^verbatim>\<open>Node\<close> and \<^verbatim>\<open>List\<close> are the records of
  \<open>Ebr_List\<close>, which the file repeats.
\<close>

section \<open>Data\<close>

datatype find_error = Retry | Shield_error shield_error

text \<open>A cursor owns two shields, given by their numbers.\<close>

record pebr_cursor =
  prev_shield :: nat
  curr_shield :: nat

type_synonym ('k, 'v) pebr_finder =
  "'k \<Rightarrow> pebr_cursor \<Rightarrow> ('k, 'v, (find_error + bool) \<times> pebr_cursor) list_prog"

section \<open>Cursor\<close>

definition pebr_cursor_new :: "('k, 'v, pebr_cursor) list_prog" where
  "pebr_cursor_new = Shield_null (\<lambda>p. Shield_null (\<lambda>c. Ret \<lparr>prev_shield = p, curr_shield = c\<rparr>))"

definition pebr_cursor_release :: "pebr_cursor \<Rightarrow> ('k, 'v, unit) list_prog" where
  "pebr_cursor_release self = Release (prev_shield self) (Release (curr_shield self) (Ret ()))"

text \<open>A cursor is dropped field by field.\<close>

definition pebr_cursor_drop :: "pebr_cursor \<Rightarrow> ('k, 'v, unit) list_prog" where
  "pebr_cursor_drop self = Shield_drop (prev_shield self) (Shield_drop (curr_shield self) (Ret ()))"

text \<open>
  The list header is protected as if it were a node: both start with their
  \<^verbatim>\<open>Atomic\<close> field.
\<close>

definition pebr_init_find ::
  "pebr_cursor \<Rightarrow> addr \<Rightarrow> ('k, 'v, 'a) list_prog \<Rightarrow> ('k, 'v, 'a) list_prog" where
  "pebr_init_find self head k = Defend_fake (prev_shield self) (Shared head 0) k"

text \<open>
  \<open>prev_s\<close> and \<open>curr_s\<close> are the two shields moved out of the cursor; every way out of
  \<^verbatim>\<open>find_harris\<close> writes them back.
\<close>

fun pebr_find_harris_loop ::
  "nat \<Rightarrow> 'k::linorder \<Rightarrow> nat \<Rightarrow> nat \<Rightarrow> shared \<Rightarrow> shared \<Rightarrow>
    ('k, 'v, (find_error + bool \<times> shared \<times> shared) \<times> pebr_cursor) list_prog" where
  "pebr_find_harris_loop 0 k prev_s curr_s cur prev_next = Out_of_fuel"
| "pebr_find_harris_loop (Suc n) k prev_s curr_s cur prev_next =
     (if is_null cur then
        Defend_fake curr_s cur
          (Ret (Inr (False, cur, prev_next), \<lparr>prev_shield = prev_s, curr_shield = curr_s\<rparr>))
      else Defend curr_s cur (\<lambda>d.
        case d of
          Inl e \<Rightarrow> Ret (Inl (Shield_error e), \<lparr>prev_shield = prev_s, curr_shield = curr_s\<rparr>)
        | Inr _ \<Rightarrow>
            Deref cur (\<lambda>curr_node.
              Load (raw cur, Next) (\<lambda>next.
                case (cmp (key curr_node) k, tag next) of
                  (Less, t) \<Rightarrow>
                    if t = 0
                    then pebr_find_harris_loop n k curr_s prev_s (with_tag next 0) next
                    else pebr_find_harris_loop n k prev_s curr_s (with_tag next 0) prev_next
                | (c, t) \<Rightarrow>
                    if t = 0 then
                      Ret (Inr (c = Equal, cur, prev_next), \<lparr>prev_shield = prev_s, curr_shield = curr_s\<rparr>)
                    else pebr_find_harris_loop n k prev_s curr_s (with_tag next 0) prev_next))))"

fun pebr_destroy_chain :: "nat \<Rightarrow> shared \<Rightarrow> shared \<Rightarrow> ('k, 'v, unit) list_prog" where
  "pebr_destroy_chain 0 node stop = Out_of_fuel"
| "pebr_destroy_chain (Suc n) node stop =
     (if with_tag node 0 = stop then Ret ()
      else if is_null node then Panic
      else Load (raw node, Next) (\<lambda>next. Defer_destroy node (pebr_destroy_chain n next stop)))"

definition pebr_find_harris :: "nat \<Rightarrow> ('k::linorder, 'v) pebr_finder" where
  "pebr_find_harris n k self =
     Shield_shared (prev_shield self) (\<lambda>head.
       Load (raw head, Next) (\<lambda>cur.
         bind (pebr_find_harris_loop n k (prev_shield self) (curr_shield self) cur cur) (\<lambda>(r, self).
           case r of
             Inl e \<Rightarrow> Ret (Inl e, self)
           | Inr (found, cur, prev_next) \<Rightarrow>
               if prev_next = cur then Ret (Inr found, self)
               else Shield_shared (prev_shield self) (\<lambda>p.
                 Compare_and_set (raw p, Next) prev_next cur (\<lambda>r.
                   case r of
                     Inl _ \<Rightarrow> Ret (Inl Retry, self)
                   | Inr _ \<Rightarrow> bind (pebr_destroy_chain n prev_next cur) (\<lambda>_. Ret (Inr found, self)))))))"

fun pebr_find_harris_michael_loop ::
  "nat \<Rightarrow> 'k::linorder \<Rightarrow> pebr_cursor \<Rightarrow> shared \<Rightarrow> ('k, 'v, (find_error + bool) \<times> pebr_cursor) list_prog" where
  "pebr_find_harris_michael_loop 0 k self cur = Out_of_fuel"
| "pebr_find_harris_michael_loop (Suc n) k self cur =
     (if tag cur \<noteq> 0 then Panic
      else if is_null cur then Defend_fake (curr_shield self) cur (Ret (Inr False, self))
      else Defend (curr_shield self) cur (\<lambda>d.
        case d of
          Inl e \<Rightarrow> Ret (Inl (Shield_error e), self)
        | Inr _ \<Rightarrow>
            Deref cur (\<lambda>curr_node.
              Load (raw cur, Next) (\<lambda>next.
                if tag next = 0 then
                  (case cmp (key curr_node) k of
                     Less \<Rightarrow> pebr_find_harris_michael_loop n k
                       \<lparr>prev_shield = curr_shield self, curr_shield = prev_shield self\<rparr> next
                   | Equal \<Rightarrow> Ret (Inr True, self)
                   | Greater \<Rightarrow> Ret (Inr False, self))
                else
                  let next = with_tag next 0 in
                  Shield_shared (prev_shield self) (\<lambda>p.
                    Compare_and_set (raw p, Next) cur next (\<lambda>r.
                      case r of
                        Inr _ \<Rightarrow> Defer_destroy cur (pebr_find_harris_michael_loop n k self next)
                      | Inl _ \<Rightarrow> Ret (Inl Retry, self)))))))"

definition pebr_find_harris_michael :: "nat \<Rightarrow> ('k::linorder, 'v) pebr_finder" where
  "pebr_find_harris_michael n k self =
     Shield_shared (prev_shield self) (\<lambda>head.
       Load (raw head, Next) (\<lambda>cur. pebr_find_harris_michael_loop n k self cur))"

fun pebr_find_harris_herlihy_shavit_loop ::
  "nat \<Rightarrow> 'k::linorder \<Rightarrow> nat \<Rightarrow> nat \<Rightarrow> shared \<Rightarrow> ('k, 'v, (find_error + bool) \<times> pebr_cursor) list_prog" where
  "pebr_find_harris_herlihy_shavit_loop 0 k prev_s curr_s cur = Out_of_fuel"
| "pebr_find_harris_herlihy_shavit_loop (Suc n) k prev_s curr_s cur =
     (if is_null cur then
        Defend_fake curr_s cur (Ret (Inr False, \<lparr>prev_shield = prev_s, curr_shield = curr_s\<rparr>))
      else Defend curr_s cur (\<lambda>d.
        case d of
          Inl e \<Rightarrow> Ret (Inl (Shield_error e), \<lparr>prev_shield = prev_s, curr_shield = curr_s\<rparr>)
        | Inr _ \<Rightarrow>
            Deref cur (\<lambda>curr_node.
              case cmp (key curr_node) k of
                Less \<Rightarrow> Load (raw cur, Next) (\<lambda>next.
                  pebr_find_harris_herlihy_shavit_loop n k curr_s prev_s next)
              | Equal \<Rightarrow> Load (raw cur, Next) (\<lambda>next.
                  Ret (Inr (tag next = 0), \<lparr>prev_shield = prev_s, curr_shield = curr_s\<rparr>))
              | Greater \<Rightarrow> Ret (Inr False, \<lparr>prev_shield = prev_s, curr_shield = curr_s\<rparr>))))"

definition pebr_find_harris_herlihy_shavit :: "nat \<Rightarrow> ('k::linorder, 'v) pebr_finder" where
  "pebr_find_harris_herlihy_shavit n k self =
     Shield_shared (prev_shield self) (\<lambda>head.
       Load (raw head, Next) (\<lambda>cur.
         pebr_find_harris_herlihy_shavit_loop n k (prev_shield self) (curr_shield self) cur))"

section \<open>List\<close>

definition pebr_list_new :: "addr \<Rightarrow> ('k, 'v, unit) list_prog" where
  "pebr_list_new self = Store (self, Next) null (Ret ())"

fun pebr_list_drop_loop :: "nat \<Rightarrow> shared \<Rightarrow> ('k, 'v, unit) list_prog" where
  "pebr_list_drop_loop 0 cur = Out_of_fuel"
| "pebr_list_drop_loop (Suc n) cur =
     (if is_null cur then Ret ()
      else Load (raw cur, Next) (\<lambda>next.
        if tag next = 0
        then Drop_value cur (Drop_owned cur (pebr_list_drop_loop n next))
        else Drop_owned cur (pebr_list_drop_loop n next)))"

definition pebr_list_drop :: "nat \<Rightarrow> addr \<Rightarrow> ('k, 'v, unit) list_prog" where
  "pebr_list_drop n self = Load (self, Next) (\<lambda>cur. pebr_list_drop_loop n cur)"

fun pebr_list_find ::
  "nat \<Rightarrow> addr \<Rightarrow> 'k \<Rightarrow> ('k, 'v) pebr_finder \<Rightarrow> pebr_cursor \<Rightarrow> ('k, 'v, bool \<times> pebr_cursor) list_prog" where
  "pebr_list_find 0 self k F cursor = Out_of_fuel"
| "pebr_list_find (Suc n) self k F cursor =
     pebr_init_find cursor self (bind (F k cursor) (\<lambda>(r, cursor).
       case r of
         Inr found \<Rightarrow> Ret (found, cursor)
       | Inl Retry \<Rightarrow> pebr_list_find n self k F cursor
       | Inl (Shield_error Ejected) \<Rightarrow> Repin (pebr_list_find n self k F cursor)))"

text \<open>As in the EBR list, the value stands for the reference that is returned.\<close>

definition pebr_list_get ::
  "nat \<Rightarrow> addr \<Rightarrow> 'k \<Rightarrow> ('k, 'v) pebr_finder \<Rightarrow> pebr_cursor \<Rightarrow> ('k, 'v, 'v option \<times> pebr_cursor) list_prog" where
  "pebr_list_get n self k F cursor =
     bind (pebr_list_find n self k F cursor) (\<lambda>(found, cursor).
       if found then
         Shield_shared (curr_shield cursor) (\<lambda>p. Deref p (\<lambda>nd. Ret (Some (val nd), cursor)))
       else Ret (None, cursor))"

fun pebr_insert_inner ::
  "nat \<Rightarrow> addr \<Rightarrow> shared \<Rightarrow> ('k, 'v) pebr_finder \<Rightarrow> pebr_cursor \<Rightarrow>
    ('k, 'v, (find_error + bool) \<times> pebr_cursor) list_prog" where
  "pebr_insert_inner 0 self node F cursor = Out_of_fuel"
| "pebr_insert_inner (Suc n) self node F cursor =
     pebr_init_find cursor self (Deref node (\<lambda>node_ref.
       bind (F (key node_ref) cursor) (\<lambda>(r, cursor).
         case r of
           Inl e \<Rightarrow> Ret (Inl e, cursor)
         | Inr found \<Rightarrow>
             if found then Drop_value node (Drop_owned node (Ret (Inr False, cursor)))
             else Shield_shared (curr_shield cursor) (\<lambda>c.
               Store (raw node, Next) c (
               Shield_shared (prev_shield cursor) (\<lambda>p.
               Shield_shared (curr_shield cursor) (\<lambda>c.
               Compare_and_set (raw p, Next) c node (\<lambda>r.
                 case r of
                   Inr _ \<Rightarrow> Ret (Inr True, cursor)
                 | Inl _ \<Rightarrow> pebr_insert_inner n self node F cursor))))))))"

fun pebr_list_insert_loop ::
  "nat \<Rightarrow> nat \<Rightarrow> addr \<Rightarrow> shared \<Rightarrow> ('k, 'v) pebr_finder \<Rightarrow> pebr_cursor \<Rightarrow> ('k, 'v, bool \<times> pebr_cursor) list_prog" where
  "pebr_list_insert_loop 0 n self node F cursor = Out_of_fuel"
| "pebr_list_insert_loop (Suc i) n self node F cursor =
     bind (pebr_insert_inner n self node F cursor) (\<lambda>(r, cursor).
       case r of
         Inr b \<Rightarrow> Ret (b, cursor)
       | Inl Retry \<Rightarrow> pebr_list_insert_loop i n self node F cursor
       | Inl (Shield_error Ejected) \<Rightarrow> Repin (pebr_list_insert_loop i n self node F cursor))"

definition pebr_list_insert ::
  "nat \<Rightarrow> addr \<Rightarrow> 'k \<Rightarrow> 'v \<Rightarrow> ('k, 'v) pebr_finder \<Rightarrow> pebr_cursor \<Rightarrow> ('k, 'v, bool \<times> pebr_cursor) list_prog" where
  "pebr_list_insert n self k v F cursor =
     Owned_new \<lparr>key = k, val = v\<rparr> [(Next, null)] (\<lambda>node. pebr_list_insert_loop n n self node F cursor)"

fun pebr_remove_inner ::
  "nat \<Rightarrow> addr \<Rightarrow> 'k \<Rightarrow> ('k, 'v) pebr_finder \<Rightarrow> pebr_cursor \<Rightarrow>
    ('k, 'v, (find_error + 'v option) \<times> pebr_cursor) list_prog" where
  "pebr_remove_inner 0 self k F cursor = Out_of_fuel"
| "pebr_remove_inner (Suc n) self k F cursor =
     pebr_init_find cursor self (bind (F k cursor) (\<lambda>(r, cursor).
       case r of
         Inl e \<Rightarrow> Ret (Inl e, cursor)
       | Inr found \<Rightarrow>
           if \<not> found then Ret (Inr None, cursor)
           else Shield_shared (curr_shield cursor) (\<lambda>c.
             if is_null c then Panic
             else Fetch_or (raw c, Next) 1 (\<lambda>next.
               if tag next = 1 then pebr_remove_inner n self k F cursor
               else Deref c (\<lambda>curr_node.
                 let v = val curr_node in
                 Shield_shared (prev_shield cursor) (\<lambda>p.
                 Shield_shared (curr_shield cursor) (\<lambda>c.
                 Compare_and_set (raw p, Next) c next (\<lambda>r.
                   case r of
                     Inr _ \<Rightarrow> Shield_shared (curr_shield cursor) (\<lambda>c.
                       Defer_destroy c (Ret (Inr (Some v), cursor)))
                   | Inl _ \<Rightarrow> Ret (Inr (Some v), cursor)))))))))"

fun pebr_list_remove_loop ::
  "nat \<Rightarrow> nat \<Rightarrow> addr \<Rightarrow> 'k \<Rightarrow> ('k, 'v) pebr_finder \<Rightarrow> pebr_cursor \<Rightarrow> ('k, 'v, 'v option \<times> pebr_cursor) list_prog" where
  "pebr_list_remove_loop 0 n self k F cursor = Out_of_fuel"
| "pebr_list_remove_loop (Suc i) n self k F cursor =
     bind (pebr_remove_inner n self k F cursor) (\<lambda>(r, cursor).
       case r of
         Inr v \<Rightarrow> Ret (v, cursor)
       | Inl Retry \<Rightarrow> pebr_list_remove_loop i n self k F cursor
       | Inl (Shield_error Ejected) \<Rightarrow> Repin (pebr_list_remove_loop i n self k F cursor))"

definition pebr_list_remove ::
  "nat \<Rightarrow> addr \<Rightarrow> 'k \<Rightarrow> ('k, 'v) pebr_finder \<Rightarrow> pebr_cursor \<Rightarrow> ('k, 'v, 'v option \<times> pebr_cursor) list_prog" where
  "pebr_list_remove n self k F cursor = pebr_list_remove_loop n n self k F cursor"

definition pebr_harris_get ::
  "nat \<Rightarrow> addr \<Rightarrow> pebr_cursor \<Rightarrow> 'k::linorder \<Rightarrow> ('k, 'v, 'v option \<times> pebr_cursor) list_prog" where
  "pebr_harris_get n self cursor k = pebr_list_get n self k (pebr_find_harris n) cursor"

definition pebr_harris_insert ::
  "nat \<Rightarrow> addr \<Rightarrow> pebr_cursor \<Rightarrow> 'k::linorder \<Rightarrow> 'v \<Rightarrow> ('k, 'v, bool \<times> pebr_cursor) list_prog" where
  "pebr_harris_insert n self cursor k v = pebr_list_insert n self k v (pebr_find_harris n) cursor"

definition pebr_harris_remove ::
  "nat \<Rightarrow> addr \<Rightarrow> pebr_cursor \<Rightarrow> 'k::linorder \<Rightarrow> ('k, 'v, 'v option \<times> pebr_cursor) list_prog" where
  "pebr_harris_remove n self cursor k = pebr_list_remove n self k (pebr_find_harris n) cursor"

definition pebr_harris_michael_get ::
  "nat \<Rightarrow> addr \<Rightarrow> pebr_cursor \<Rightarrow> 'k::linorder \<Rightarrow> ('k, 'v, 'v option \<times> pebr_cursor) list_prog" where
  "pebr_harris_michael_get n self cursor k = pebr_list_get n self k (pebr_find_harris_michael n) cursor"

definition pebr_harris_michael_insert ::
  "nat \<Rightarrow> addr \<Rightarrow> pebr_cursor \<Rightarrow> 'k::linorder \<Rightarrow> 'v \<Rightarrow> ('k, 'v, bool \<times> pebr_cursor) list_prog" where
  "pebr_harris_michael_insert n self cursor k v = pebr_list_insert n self k v (pebr_find_harris_michael n) cursor"

definition pebr_harris_michael_remove ::
  "nat \<Rightarrow> addr \<Rightarrow> pebr_cursor \<Rightarrow> 'k::linorder \<Rightarrow> ('k, 'v, 'v option \<times> pebr_cursor) list_prog" where
  "pebr_harris_michael_remove n self cursor k = pebr_list_remove n self k (pebr_find_harris_michael n) cursor"

definition pebr_harris_herlihy_shavit_get ::
  "nat \<Rightarrow> addr \<Rightarrow> pebr_cursor \<Rightarrow> 'k::linorder \<Rightarrow> ('k, 'v, 'v option \<times> pebr_cursor) list_prog" where
  "pebr_harris_herlihy_shavit_get n self cursor k = pebr_list_get n self k (pebr_find_harris_herlihy_shavit n) cursor"

definition pebr_harris_herlihy_shavit_insert ::
  "nat \<Rightarrow> addr \<Rightarrow> pebr_cursor \<Rightarrow> 'k::linorder \<Rightarrow> 'v \<Rightarrow> ('k, 'v, bool \<times> pebr_cursor) list_prog" where
  "pebr_harris_herlihy_shavit_insert n self cursor k v = pebr_list_insert n self k v (pebr_find_harris_michael n) cursor"

definition pebr_harris_herlihy_shavit_remove ::
  "nat \<Rightarrow> addr \<Rightarrow> pebr_cursor \<Rightarrow> 'k::linorder \<Rightarrow> ('k, 'v, 'v option \<times> pebr_cursor) list_prog" where
  "pebr_harris_herlihy_shavit_remove n self cursor k = pebr_list_remove n self k (pebr_find_harris_michael n) cursor"

section \<open>The maps HList, HMList and HHSList\<close>

definition pebr_HList_new :: "addr \<Rightarrow> ('k, 'v, unit) list_prog" where
  "pebr_HList_new self = pebr_list_new self"

definition pebr_HList_handle :: "('k, 'v, pebr_cursor) list_prog" where
  "pebr_HList_handle = pebr_cursor_new"

definition pebr_HList_clear :: "pebr_cursor \<Rightarrow> ('k, 'v, unit) list_prog" where
  "pebr_HList_clear handle = pebr_cursor_release handle"

definition pebr_HList_get :: "addr \<Rightarrow> nat \<Rightarrow> pebr_cursor \<Rightarrow> 'k::linorder \<Rightarrow> ('k, 'v, 'v option \<times> pebr_cursor) list_prog" where
  "pebr_HList_get self n handle k = pebr_harris_get n self handle k"

definition pebr_HList_insert :: "addr \<Rightarrow> nat \<Rightarrow> pebr_cursor \<Rightarrow> 'k::linorder \<Rightarrow> 'v \<Rightarrow> ('k, 'v, bool \<times> pebr_cursor) list_prog" where
  "pebr_HList_insert self n handle k v = pebr_harris_insert n self handle k v"

definition pebr_HList_remove :: "addr \<Rightarrow> nat \<Rightarrow> pebr_cursor \<Rightarrow> 'k::linorder \<Rightarrow> ('k, 'v, 'v option \<times> pebr_cursor) list_prog" where
  "pebr_HList_remove self n handle k = pebr_harris_remove n self handle k"

definition pebr_HMList_new :: "addr \<Rightarrow> ('k, 'v, unit) list_prog" where
  "pebr_HMList_new self = pebr_list_new self"

definition pebr_HMList_handle :: "('k, 'v, pebr_cursor) list_prog" where
  "pebr_HMList_handle = pebr_cursor_new"

definition pebr_HMList_clear :: "pebr_cursor \<Rightarrow> ('k, 'v, unit) list_prog" where
  "pebr_HMList_clear handle = pebr_cursor_release handle"

definition pebr_HMList_get :: "addr \<Rightarrow> nat \<Rightarrow> pebr_cursor \<Rightarrow> 'k::linorder \<Rightarrow> ('k, 'v, 'v option \<times> pebr_cursor) list_prog" where
  "pebr_HMList_get self n handle k = pebr_harris_michael_get n self handle k"

definition pebr_HMList_insert :: "addr \<Rightarrow> nat \<Rightarrow> pebr_cursor \<Rightarrow> 'k::linorder \<Rightarrow> 'v \<Rightarrow> ('k, 'v, bool \<times> pebr_cursor) list_prog" where
  "pebr_HMList_insert self n handle k v = pebr_harris_michael_insert n self handle k v"

definition pebr_HMList_remove :: "addr \<Rightarrow> nat \<Rightarrow> pebr_cursor \<Rightarrow> 'k::linorder \<Rightarrow> ('k, 'v, 'v option \<times> pebr_cursor) list_prog" where
  "pebr_HMList_remove self n handle k = pebr_harris_michael_remove n self handle k"

definition pebr_HHSList_new :: "addr \<Rightarrow> ('k, 'v, unit) list_prog" where
  "pebr_HHSList_new self = pebr_list_new self"

definition pebr_HHSList_handle :: "('k, 'v, pebr_cursor) list_prog" where
  "pebr_HHSList_handle = pebr_cursor_new"

definition pebr_HHSList_clear :: "pebr_cursor \<Rightarrow> ('k, 'v, unit) list_prog" where
  "pebr_HHSList_clear handle = pebr_cursor_release handle"

definition pebr_HHSList_get :: "addr \<Rightarrow> nat \<Rightarrow> pebr_cursor \<Rightarrow> 'k::linorder \<Rightarrow> ('k, 'v, 'v option \<times> pebr_cursor) list_prog" where
  "pebr_HHSList_get self n handle k = pebr_harris_herlihy_shavit_get n self handle k"

definition pebr_HHSList_insert :: "addr \<Rightarrow> nat \<Rightarrow> pebr_cursor \<Rightarrow> 'k::linorder \<Rightarrow> 'v \<Rightarrow> ('k, 'v, bool \<times> pebr_cursor) list_prog" where
  "pebr_HHSList_insert self n handle k v = pebr_harris_herlihy_shavit_insert n self handle k v"

definition pebr_HHSList_remove :: "addr \<Rightarrow> nat \<Rightarrow> pebr_cursor \<Rightarrow> 'k::linorder \<Rightarrow> ('k, 'v, 'v option \<times> pebr_cursor) list_prog" where
  "pebr_HHSList_remove self n handle k = pebr_harris_herlihy_shavit_remove n self handle k"

end
