(* ===== verification/Pebr_Concurrent_Map.thy ===== *)
theory Pebr_Concurrent_Map
  imports Concurrent_Map
begin

text \<open>
  The trait \<^verbatim>\<open>ConcurrentMap\<close> of \<^verbatim>\<open>src/src/pebr/concurrent_map.rs\<close>.  Every call
  takes a mutable handle that owns the shields of the calling thread; in the model a call returns
  the handle it leaves.  Calls terminate although the guard may be ejected: the fuel has to cover
  the size of the structure and the ejections still to come.
\<close>

section \<open>What shields do not change\<close>

definition same_data :: "('f, 'n) mem \<Rightarrow> ('f, 'n) mem \<Rightarrow> bool" where
  "same_data m m' \<longleftrightarrow> cell m' = cell m \<and> obj m' = obj m \<and> statics m' = statics m \<and>
     garbage m' = garbage m \<and> retired m' = retired m \<and> freed m' = freed m \<and> dropped m' = dropped m"

lemma same_data_refl [simp]: "same_data m m"
  by (simp add: same_data_def)

lemma same_data_trans: "same_data m m1 \<Longrightarrow> same_data m1 m2 \<Longrightarrow> same_data m m2"
  by (simp add: same_data_def)

lemma same_data_sym: "same_data m m1 \<Longrightarrow> same_data m1 m"
  by (simp add: same_data_def)

lemma same_data_shield [simp]:
  "same_data m (set_shield i q m1) \<longleftrightarrow> same_data m m1" "same_data m (use_ejection m1) \<longleftrightarrow> same_data m m1"
  "same_data (set_shield i q m) m1 \<longleftrightarrow> same_data m m1" "same_data (use_ejection m) m1 \<longleftrightarrow> same_data m m1"
  by (simp_all add: same_data_def)

lemma same_data_basic:
  assumes "same_data m m'"
  shows "live m' = live m" "garbage_ok m' = garbage_ok m" "frame A m' m2 = frame A m m2"
    "frame A m2 m' = frame A m2 m"
  using assms by (auto simp: same_data_def live_def garbage_ok_def frame_def fun_eq_iff)

text \<open>
  A handle is a list of shields.  An operation keeps the set of its shields, possibly in another order, and touches no others.
\<close>

definition shields_ok :: "nat list \<Rightarrow> ('f, 'n) mem \<Rightarrow> bool" where
  "shields_ok is m \<longleftrightarrow> distinct is \<and> (\<forall>i\<in>set is. shield m i \<noteq> None)"

definition shields_step :: "nat list \<Rightarrow> ('f, 'n) mem \<Rightarrow> nat list \<Rightarrow> ('f, 'n) mem \<Rightarrow> bool" where
  "shields_step is m js m' \<longleftrightarrow> shields_ok js m' \<and> set js = set is \<and> ejections m' \<le> ejections m \<and>
     (\<forall>i. i \<notin> set is \<longrightarrow> shield m' i = shield m i)"

lemma shields_step_refl [simp]: "shields_step is m is m \<longleftrightarrow> shields_ok is m"
  by (auto simp: shields_step_def)

lemma shields_step_trans: "shields_step is m js m1 \<Longrightarrow> shields_step js m1 ks m2 \<Longrightarrow> shields_step is m ks m2"
  by (auto simp: shields_step_def)

lemma shields_step_ok: "shields_step is m js m' \<Longrightarrow> shields_ok js m'"
  by (simp add: shields_step_def)

lemma shields_step_same:
  "shields_step is m js m1 \<Longrightarrow> shield m2 = shield m1 \<Longrightarrow> ejections m2 = ejections m1 \<Longrightarrow> shields_step is m js m2"
  by (simp add: shields_step_def shields_ok_def)

text \<open>
  A memory in which nothing in use was changed and nothing is left behind: shields may have moved, garbage may have been
  reclaimed, and fresh nodes may have been allocated, but every one of them has been freed again; \<open>fs\<close> are the nodes freed.
\<close>

definition untouched :: "addr list \<Rightarrow> ('f, 'n) mem \<Rightarrow> ('f, 'n) mem \<Rightarrow> bool" where
  "untouched fs m m' \<longleftrightarrow> statics m' = statics m \<and> retired m' = retired m \<and> freed m' = freed m @ fs \<and>
     set (garbage m') \<subseteq> set (garbage m) \<and> (garbage_ok m \<longrightarrow> garbage_ok m') \<and>
     (\<forall>a. live m a \<longrightarrow> a \<notin> set (garbage m) \<longrightarrow> obj m' a = obj m a \<and> (\<forall>f. cell m' (a, f) = cell m (a, f)) \<and> a \<notin> set fs) \<and>
     dom (obj m') \<subseteq> dom (obj m)"

lemma untouched_same_data: "same_data m m' \<Longrightarrow> untouched [] m m'"
  by (auto simp: untouched_def same_data_def garbage_ok_def)

lemma untouched_reclaim: "untouched [] m (reclaim R m)"
  by (auto simp: untouched_def restrict_map_def split: if_splits)

lemma untouched_trans:
  assumes "untouched fs m m1" "untouched gs m1 m2"
  shows "untouched (fs @ gs) m m2"
proof -
  have "obj m2 a = obj m a \<and> (\<forall>f. cell m2 (a, f) = cell m (a, f)) \<and> a \<notin> set (fs @ gs)"
    if a: "live m a" "a \<notin> set (garbage m)" for a
  proof -
    have o: "obj m1 a = obj m a" "\<forall>f. cell m1 (a, f) = cell m (a, f)" "a \<notin> set fs" "a \<notin> set (garbage m1)"
      using assms(1) a unfolding untouched_def by blast+
    then have "live m1 a" using a(1) assms(1) by (simp add: live_def untouched_def)
    with o assms(2) show ?thesis by (simp add: untouched_def)
  qed
  moreover have "dom (obj m2) \<subseteq> dom (obj m)" using assms unfolding untouched_def by blast
  ultimately show ?thesis using assms unfolding untouched_def by auto
qed

section \<open>The trait\<close>

text \<open>\<open>pmap_drop\<close> is what happens at the end of a handle's scope: its fields are dropped, shields and pools of shields.\<close>

record ('h, 'c, 'k, 'v, 'f, 'n) pebr_map =
  pmap_new :: "'h \<Rightarrow> ('f, 'n, unit) prog"
  pmap_handle :: "('f, 'n, 'c) prog"
  pmap_clear :: "'c \<Rightarrow> ('f, 'n, unit) prog"
  pmap_drop :: "'c \<Rightarrow> ('f, 'n, unit) prog"
  pmap_get :: "'h \<Rightarrow> nat \<Rightarrow> 'c \<Rightarrow> 'k \<Rightarrow> ('f, 'n, 'v option \<times> 'c) prog"
  pmap_insert :: "'h \<Rightarrow> nat \<Rightarrow> 'c \<Rightarrow> 'k \<Rightarrow> 'v \<Rightarrow> ('f, 'n, bool \<times> 'c) prog"
  pmap_remove :: "'h \<Rightarrow> nat \<Rightarrow> 'c \<Rightarrow> 'k \<Rightarrow> ('f, 'n, 'v option \<times> 'c) prog"

section \<open>Clients\<close>

fun pcall ::
  "('h, 'c, 'k, 'v, 'f, 'n) pebr_map \<Rightarrow> 'h \<Rightarrow> nat \<Rightarrow> 'c \<Rightarrow> ('k, 'v) request \<Rightarrow> ('f, 'n, 'v response \<times> 'c) prog" where
  "pcall D h n c (Get_req k) = bind (pmap_get D h n c k) (\<lambda>(r, c). Ret (Got r, c))"
| "pcall D h n c (Insert_req k v) = bind (pmap_insert D h n c k v) (\<lambda>(r, c). Ret (Inserted r, c))"
| "pcall D h n c (Remove_req k) = bind (pmap_remove D h n c k) (\<lambda>(r, c). Ret (Removed r, c))"

fun pcalls ::
  "('h, 'c, 'k, 'v, 'f, 'n) pebr_map \<Rightarrow> 'h \<Rightarrow> nat \<Rightarrow> 'c \<Rightarrow> ('k, 'v) request list \<Rightarrow>
    ('f, 'n, 'v response list \<times> 'c) prog" where
  "pcalls D h n c [] = Ret ([], c)"
| "pcalls D h n c (q # qs) =
     bind (pcall D h n c q) (\<lambda>(r, c). bind (pcalls D h n c qs) (\<lambda>(rs, c). Ret (r # rs, c)))"

text \<open>A thread's session: make a handle, use it, clear it, drop it.\<close>

definition psession ::
  "('h, 'c, 'k, 'v, 'f, 'n) pebr_map \<Rightarrow> 'h \<Rightarrow> nat \<Rightarrow> ('k, 'v) request list \<Rightarrow> ('f, 'n, 'v response list) prog" where
  "psession D h n qs =
     bind (pmap_handle D) (\<lambda>c. bind (pcalls D h n c qs) (\<lambda>(rs, c). bind (pmap_clear D c) (\<lambda>_. bind (pmap_drop D c) (\<lambda>_. Ret rs))))"

section \<open>What an implementation promises\<close>

locale pebr_map_impl =
  fixes D :: "('h, 'c, 'k, 'v, 'f, 'n) pebr_map"
    and place :: "'h \<Rightarrow> ('f, 'n) mem \<Rightarrow> bool"
    and repr :: "'h \<Rightarrow> ('f, 'n) mem \<Rightarrow> ('k \<rightharpoonup> 'v) \<Rightarrow> nat \<Rightarrow> bool"
    and hok :: "'c \<Rightarrow> ('f, 'n) mem \<Rightarrow> bool"
  assumes new_wp: "place h m \<Longrightarrow>
      wp (pmap_new D h) (\<lambda>_ m'. repr h m' Map.empty 0 \<and> ejections m' \<le> ejections m) m"
    and handle_wp: "repr h m M s \<Longrightarrow>
      wp (pmap_handle D) (\<lambda>c m'. repr h m' M s \<and> hok c m' \<and> ejections m' \<le> ejections m) m"
    and clear_wp: "repr h m M s \<Longrightarrow> hok c m \<Longrightarrow>
      wp (pmap_clear D c) (\<lambda>_ m'. repr h m' M s \<and> hok c m' \<and> ejections m' \<le> ejections m) m"
    and drop_wp: "repr h m M s \<Longrightarrow> hok c m \<Longrightarrow>
      wp (pmap_drop D c) (\<lambda>_ m'. repr h m' M s \<and> ejections m' \<le> ejections m) m"
    and get_wp: "repr h m M s \<Longrightarrow> hok c m \<Longrightarrow> s + ejections m < n \<Longrightarrow>
      wp (pmap_get D h n c k)
        (\<lambda>(r, c') m'. r = M k \<and> repr h m' M s \<and> hok c' m' \<and> ejections m' \<le> ejections m) m"
    and insert_wp: "repr h m M s \<Longrightarrow> hok c m \<Longrightarrow> s + ejections m < n \<Longrightarrow>
      wp (pmap_insert D h n c k v)
        (\<lambda>(r, c') m'. r = (M k = None) \<and> repr h m' (if M k = None then M(k \<mapsto> v) else M) (Suc s) \<and>
           hok c' m' \<and> ejections m' \<le> ejections m) m"
    and remove_wp: "repr h m M s \<Longrightarrow> hok c m \<Longrightarrow> s + ejections m < n \<Longrightarrow>
      wp (pmap_remove D h n c k)
        (\<lambda>(r, c') m'. r = M k \<and> repr h m' (M(k := None)) s \<and> hok c' m' \<and> ejections m' \<le> ejections m) m"
    and repr_mono: "repr h m M s \<Longrightarrow> s \<le> s' \<Longrightarrow> repr h m M s'"
begin

lemma pcall_wp:
  assumes "repr h m M s" "hok c m" "s + ejections m < n"
  shows "wp (pcall D h n c q) (\<lambda>(r, c') m'. (\<exists>M'. spec_call q M = (r, M') \<and> repr h m' M' (Suc s)) \<and>
     hok c' m' \<and> ejections m' \<le> ejections m) m"
proof (cases q)
  case (Get_req k)
  then show ?thesis
    by (auto simp: wp_bind intro!: wp_mono[OF get_wp[OF assms]] intro: repr_mono[OF _ le_SucI[OF order_refl]])
next
  case (Insert_req k v)
  then show ?thesis
    by (auto simp: wp_bind intro!: wp_mono[OF insert_wp[OF assms]])
next
  case (Remove_req k)
  then show ?thesis
    by (auto simp: wp_bind intro!: wp_mono[OF remove_wp[OF assms]] intro: repr_mono[OF _ le_SucI[OF order_refl]])
qed

lemma pcalls_wp:
  assumes "repr h m M s" "hok c m" "s + length qs + ejections m \<le> n"
  shows "wp (pcalls D h n c qs)
    (\<lambda>(rs, c') m'. (\<exists>M'. spec_calls qs M = (rs, M') \<and> repr h m' M' (s + length qs)) \<and>
       hok c' m' \<and> ejections m' \<le> ejections m) m"
  using assms
proof (induction qs arbitrary: m M s c)
  case (Cons q qs)
  show ?case
    unfolding pcalls.simps
  proof (rule wp_bind_mono[OF pcall_wp[OF Cons.prems(1,2)]], goal_cases)
    case (2 rc m1)
    then obtain r c1 M1 where M1: "rc = (r, c1)" "spec_call q M = (r, M1)" "repr h m1 M1 (Suc s)" "hok c1 m1"
      "ejections m1 \<le> ejections m" by (cases rc) auto
    show ?case
      using Cons.prems M1 by (auto simp: wp_bind intro!: wp_mono[OF Cons.IH[OF M1(3,4)]])
  qed (use Cons.prems in auto)
qed simp

lemma psession_wp:
  assumes "repr h m M s" "s + length qs + ejections m \<le> n"
  shows "wp (psession D h n qs)
    (\<lambda>rs m'. \<exists>M'. spec_calls qs M = (rs, M') \<and> repr h m' M' (s + length qs)) m"
  unfolding psession_def
proof (rule wp_bind_mono[OF handle_wp[OF assms(1)]], goal_cases)
  case (1 c m1)
  then have r: "repr h m1 M s" "hok c m1" and n: "s + length qs + ejections m1 \<le> n" using assms(2) by auto
  show ?case
  proof (rule wp_bind_mono[OF pcalls_wp[OF r n]], goal_cases)
    case (1 rc m2)
    then obtain rs c' M' where M': "rc = (rs, c')" "spec_calls qs M = (rs, M')" "repr h m2 M' (s + length qs)"
      "hok c' m2" by (cases rc) auto
    then show ?case by (auto simp: wp_bind intro!: wp_mono[OF clear_wp[OF M'(3,4)]] wp_mono[OF drop_wp])
  qed
qed

end

end
