(* ===== verification/Pebr_List_Correct.thy ===== *)
theory Pebr_List_Correct
  imports Pebr_List Ebr_List_Correct Pebr_Concurrent_Map
begin

text \<open>
  Correctness of \<^verbatim>\<open>src/src/pebr/list.rs\<close> run without interference, but with a guard that
  may be ejected at any \<^verbatim>\<open>defend\<close>, finitely often.  The results are the contracts of
  \<open>Ebr_List_Correct\<close>: ejections are not visible to the caller.
\<close>

section \<open>What shields do not change\<close>

lemma same_data_list:
  fixes m :: "('k::linorder, 'v) list_mem"
  assumes "same_data m m'"
  shows "marked m' = marked m" "key_at m' = key_at m" "val_at m' = val_at m" "chain m' a xs = chain m a xs"
    "list_inv m' self xs = list_inv m self xs" "contents m' xs = contents m xs"
    "located self k found c m' as bs = located self k found c m as bs"
    "list_step self m' xs m2 ys = list_step self m xs m2 ys"
    "list_step self m2 xs m' ys = list_step self m2 xs m ys"
proof -
  note d = assms[unfolded same_data_def] and b = same_data_basic[OF assms]
  show mk: "marked m' = marked m" and key: "key_at m' = key_at m" "val_at m' = val_at m"
    using d by (auto simp: marked_def key_at_def val_at_def fun_eq_iff)
  show ch: "chain m' a xs = chain m a xs" for a xs using d by (intro chain_cong) simp
  show inv: "list_inv m' self xs = list_inv m self xs" for self xs
    using d b ch key by (simp add: list_inv_def)
  show "contents m' xs = contents m xs" for xs using d mk by (intro contents_cong) simp_all
  show "located self k found c m' as bs = located self k found c m as bs"
    using inv mk key by (simp add: located_def)
  show "list_step self m' xs m2 ys = list_step self m xs m2 ys"
    "list_step self m2 xs m' ys = list_step self m2 xs m ys"
    using d b by (simp_all add: list_step_def)
qed

lemma same_data_find_post:
  fixes m :: "('k::linorder, 'v) list_mem"
  assumes "same_data m m'"
  shows "find_post self k m' xs found c m2 = find_post self k m xs found c m2"
    "find_post self k m2 xs found c m' = find_post self k m2 xs found c m"
    "get_post self k m' xs found c m2 = get_post self k m xs found c m2"
    "get_post self k m2 xs found c m' = get_post self k m2 xs found c m"
  using assms[unfolded same_data_def] same_data_list[OF assms]
  by (simp_all add: find_post_def get_post_def)

section \<open>Handles\<close>

lemma pebr_cursor_eta [simp]: "\<lparr>prev_shield = prev_shield c, curr_shield = curr_shield c\<rparr> = (c :: pebr_cursor)"
  by simp

definition handle_ok :: "pebr_cursor \<Rightarrow> ('f, 'n) mem \<Rightarrow> bool" where
  "handle_ok c m \<longleftrightarrow> prev_shield c \<noteq> curr_shield c \<and>
     shield m (prev_shield c) \<noteq> None \<and> shield m (curr_shield c) \<noteq> None"

text \<open>An operation keeps its two shields, possibly swapped, and touches no others.\<close>

definition handle_step :: "pebr_cursor \<Rightarrow> ('f, 'n) mem \<Rightarrow> pebr_cursor \<Rightarrow> ('f, 'n) mem \<Rightarrow> bool" where
  "handle_step c m c' m' \<longleftrightarrow> handle_ok c' m' \<and> ejections m' \<le> ejections m \<and>
     {prev_shield c', curr_shield c'} = {prev_shield c, curr_shield c} \<and>
     (\<forall>i. i \<noteq> prev_shield c \<longrightarrow> i \<noteq> curr_shield c \<longrightarrow> shield m' i = shield m i)"

lemma handle_step_refl [simp]: "handle_step c m c m \<longleftrightarrow> handle_ok c m"
  by (simp add: handle_step_def)

lemma handle_step_trans:
  assumes "handle_step c m c1 m1" "handle_step c1 m1 c2 m2"
  shows "handle_step c m c2 m2"
proof -
  have s: "{prev_shield c2, curr_shield c2} = {prev_shield c, curr_shield c}"
    "{prev_shield c1, curr_shield c1} = {prev_shield c, curr_shield c}"
    using assms unfolding handle_step_def by simp_all
  have "shield m2 i = shield m i" if "i \<noteq> prev_shield c" "i \<noteq> curr_shield c" for i
  proof -
    have "i \<notin> {prev_shield c1, curr_shield c1}" using s(2) that by simp
    then have "shield m2 i = shield m1 i" using assms(2) unfolding handle_step_def by simp
    moreover have "shield m1 i = shield m i" using assms(1) that unfolding handle_step_def by simp
    ultimately show ?thesis by simp
  qed
  then show ?thesis using assms s unfolding handle_step_def by simp
qed

lemma handle_step_same:
  "shield m1 = shield m \<Longrightarrow> ejections m1 = ejections m \<Longrightarrow> handle_step c m c' m' = handle_step c m1 c' m'"
  "shield m1 = shield m' \<Longrightarrow> ejections m1 = ejections m' \<Longrightarrow> handle_step c m c' m' = handle_step c m c' m1"
  by (simp_all add: handle_step_def handle_ok_def)

text \<open>The cursor as the two pointers that its shields hold.\<close>

definition seen :: "pebr_cursor \<Rightarrow> ('f, 'n) mem \<Rightarrow> cursor" where
  "seen c m = \<lparr>prev = (raw (the (shield m (prev_shield c))), Next), curr = the (shield m (curr_shield c))\<rparr>"

section \<open>Contracts of the searches\<close>

lemma frame_reclaim [simp]: "frame A m (reclaim R m)"
  by (auto simp: frame_def restrict_map_def)

lemma tidied_reclaim:
  assumes "tidied self m xs m1 ys"
  shows "tidied self m xs (reclaim R m1) ys"
proof -
  have "list_inv m1 self ys" using assms by (simp add: tidied_def)
  moreover have "garbage_ok (reclaim R m1)" using calculation by (simp add: list_inv_def)
  ultimately have "list_inv (reclaim R m1) self ys" "contents (reclaim R m1) ys = contents m1 ys"
    using list_inv_frame[of m1 self ys "{}" "reclaim R m1"] by auto
  moreover have "list_step self m1 ys (reclaim R m1) ys" by (simp add: list_step_def)
  ultimately have "tidied self m1 ys (reclaim R m1) ys" by (simp add: tidied_def)
  with assms show ?thesis by (rule tidied_trans)
qed

lemma same_data_tidied:
  fixes m :: "('k::linorder, 'v) list_mem"
  assumes "same_data m m'"
  shows "tidied self m' xs m2 ys = tidied self m xs m2 ys" "tidied self m2 xs m' ys = tidied self m2 xs m ys"
  using assms[unfolded same_data_def] same_data_list[OF assms] by (simp_all add: tidied_def)

text \<open>
  What a search promises under ejection: it returns with the cursor in place, or reports an
  ejection after at most tidying up.  It does not ask for a retry when nobody interferes.
\<close>

definition pebr_post ::
  "(('k::linorder, 'v) list_mem \<Rightarrow> 'a \<Rightarrow> cursor \<Rightarrow> ('k, 'v) list_mem \<Rightarrow> bool) \<Rightarrow> addr \<Rightarrow> ('k, 'v) list_mem \<Rightarrow>
    addr list \<Rightarrow> pebr_cursor \<Rightarrow> find_error + 'a \<Rightarrow> pebr_cursor \<Rightarrow> ('k, 'v) list_mem \<Rightarrow> bool" where
  "pebr_post P self m xs c r c' m' \<longleftrightarrow> handle_step c m c' m' \<and>
     (case r of
        Inr x \<Rightarrow> P m x (seen c' m') m'
      | Inl Retry \<Rightarrow> False
      | Inl (Shield_error Ejected) \<Rightarrow> ejections m' < ejections m \<and> (\<exists>ys. tidied self m xs m' ys))"

lemma same_data_steps: "same_data m (set_shield i q m)" "same_data m (use_ejection m)"
  by simp_all

lemmas shield_simps [simp] =
  same_data_list[OF same_data_steps(1)] same_data_list[OF same_data_steps(2)]
  same_data_basic(3,4)[OF same_data_steps(1)] same_data_basic(3,4)[OF same_data_steps(2)]
  same_data_find_post[OF same_data_steps(1)] same_data_find_post[OF same_data_steps(2)]
  same_data_tidied[OF same_data_steps(1)] same_data_tidied[OF same_data_steps(2)]

section \<open>The searches\<close>

text \<open>One successful protection: the shield holds the pointer, the data is the same.\<close>

lemma handle_step_shield:
  assumes "handle_ok \<lparr>prev_shield = i, curr_shield = j\<rparr> m" "l \<in> {i, j}"
  shows "handle_step \<lparr>prev_shield = i, curr_shield = j\<rparr> m \<lparr>prev_shield = i, curr_shield = j\<rparr> (set_shield l (Some q) m)"
    and "handle_step \<lparr>prev_shield = i, curr_shield = j\<rparr> m \<lparr>prev_shield = j, curr_shield = i\<rparr> (set_shield l (Some q) m)"
    and "handle_step \<lparr>prev_shield = i, curr_shield = j\<rparr> m \<lparr>prev_shield = i, curr_shield = j\<rparr>
           (use_ejection (set_shield l (Some q) m))"
  using assms by (auto simp: handle_step_def handle_ok_def insert_commute)

lemma pebr_find_harris_loop_wp:
  fixes m :: "('k::linorder, 'v) list_mem"
  assumes inv: "list_inv m self (as @ bs @ rest)" and unm: "\<not> marked m (end_of self as)"
    and mk: "\<And>b. b \<in> set bs \<Longrightarrow> marked m b" and keys: "\<And>x. x \<in> set as \<Longrightarrow> key_at m x < k"
    and h: "handle_ok \<lparr>prev_shield = i, curr_shield = j\<rparr> m" "raw (the (shield m i)) = end_of self as"
    and c: "cur = Shared (head_of rest) 0"
    and pn: "pn = nxt m (end_of self as)" and fuel: "length rest < n"
    and post: "\<And>as' bs' cs c' found m'.
      as' @ bs' @ cs = as @ bs @ rest \<Longrightarrow> \<not> marked m (end_of self as') \<Longrightarrow>
      (\<And>b. b \<in> set bs' \<Longrightarrow> marked m b) \<Longrightarrow> (\<And>x. x \<in> set as' \<Longrightarrow> key_at m x < k) \<Longrightarrow>
      (cs \<noteq> [] \<Longrightarrow> k \<le> key_at m (hd cs) \<and> \<not> marked m (hd cs)) \<Longrightarrow>
      (found \<longleftrightarrow> cs \<noteq> [] \<and> key_at m (hd cs) = k) \<Longrightarrow>
      same_data m m' \<Longrightarrow> handle_step \<lparr>prev_shield = i, curr_shield = j\<rparr> m c' m' \<Longrightarrow>
      seen c' m' = \<lparr>prev = (end_of self as', Next), curr = Shared (head_of cs) 0\<rparr> \<Longrightarrow>
      Q (Inr (found, Shared (head_of cs) 0, nxt m (end_of self as')), c') m'"
    and eject: "\<And>c' m'. same_data m m' \<Longrightarrow> handle_step \<lparr>prev_shield = i, curr_shield = j\<rparr> m c' m' \<Longrightarrow>
      ejections m' < ejections m \<Longrightarrow> Q (Inl (Shield_error Ejected), c') m'"
  shows "wp (pebr_find_harris_loop n k i j cur pn) Q m"
  using inv unm mk keys h c pn fuel post eject
proof (induction rest arbitrary: as bs i j m cur pn n)
  case Nil
  then obtain n' where "n = Suc n'" by (cases n) auto
  moreover have "Q (Inr (False, Shared 0 0, pn), \<lparr>prev_shield = i, curr_shield = j\<rparr>) (set_shield j (Some cur) m)"
    using Nil.prems(2-8) Nil.prems(10)[of as bs "[]" False "set_shield j (Some cur) m"]
      handle_step_shield(1)[OF Nil.prems(5), of j]
    by (auto simp: seen_def handle_ok_def)
  ultimately show ?case using Nil.prems(5,7) by (auto simp: handle_ok_def)
next
  case (Cons x rest)
  let ?h = "\<lparr>prev_shield = i, curr_shield = j\<rparr>"
  let ?m = "set_shield j (Some cur) m"
  from Cons obtain n' where n: "n = Suc n'" by (cases n) auto
  from list_inv_node[of m self "as @ bs" x rest] Cons.prems(1)
  obtain nd where nd: "obj m x = Some nd" and key: "key nd = key_at m x" and x0: "x \<noteq> 0"
    and raw: "raw (nxt m x) = head_of rest"
    by auto
  have ij: "i \<noteq> j" "shield m i \<noteq> None" "shield m j \<noteq> None" using Cons.prems(5) by (auto simp: handle_ok_def)
  note hs = handle_step_shield[OF Cons.prems(5) insertI2[OF singletonI]]
  have c': "with_tag (nxt m x) 0 = Shared (head_of rest) 0"
    using raw by (simp add: with_tag_def)
  have bx: "key_at m b < key_at m x" if "b \<in> set bs" for b
    using Cons.prems(1) that by (auto simp: list_inv_def sorted_wrt_append)
  have skip: "wp (pebr_find_harris_loop n' k i j (with_tag (nxt m x) 0) pn) Q ?m"
    if "marked m x"
  proof (rule Cons.IH[of _ as "bs @ [x]"], goal_cases)
    case (10 as' bs' cs found m' c')
    show ?case
      unfolding set_shield_fields
      by (rule Cons.prems(10)[of as' bs' cs])
        (use 10 handle_step_trans[OF hs(1) 10(8)] in auto)
  next
    case (11 m' c')
    then show ?case using handle_step_trans[OF hs(1) 11(2)] by (intro Cons.prems(11)) auto
  qed (use Cons.prems that c' n ij in \<open>auto simp: handle_ok_def\<close>)
  have adv: "wp (pebr_find_harris_loop n' k j i (with_tag (nxt m x) 0) (nxt m x)) Q ?m"
    if "\<not> marked m x" "key_at m x < k"
  proof (rule Cons.IH[of _ "as @ bs @ [x]" "[]"], goal_cases)
    case (4 y)
    then show ?case using Cons.prems(4) that bx by fastforce
  next
    case (10 as' bs' cs found m' c')
    show ?case
      unfolding set_shield_fields
      by (rule Cons.prems(10)[of as' bs' cs])
        (use 10 handle_step_trans[OF hs(2) 10(8)] in auto)
  next
    case (11 m' c')
    then show ?case using handle_step_trans[OF hs(2) 11(2)] by (intro Cons.prems(11)) auto
  qed (use Cons.prems that c' n ij in \<open>auto simp: handle_ok_def\<close>)
  have stop: "Q (Inr (key_at m x = k, cur, pn), ?h) ?m" if "\<not> marked m x" "\<not> key_at m x < k"
    using Cons.prems(10)[of as bs "x # rest" "key_at m x = k" ?m ?h] Cons.prems(2-8) that hs(1) ij
    by (auto simp: seen_def)
  have ej: "Q (Inl (Shield_error Ejected), ?h) (use_ejection (set_shield j (Some q) m))" if "0 < ejections m" for q
    using hs(3) that by (intro Cons.prems(11)) auto
  show ?case
    using n nd x0 skip adv stop ej Cons.prems(7) key ij
    by (auto simp: marked_def live_def cmp_def split: ordering.splits)
qed

lemma pebr_destroy_chain_eq: "pebr_destroy_chain n node stop = destroy_chain n node stop"
  by (induction n arbitrary: node) simp_all

text \<open>What a client supplies: a cursor whose first shield stands for the list header.\<close>

definition find_ready :: "addr \<Rightarrow> pebr_cursor \<Rightarrow> ('f, 'n) mem \<Rightarrow> bool" where
  "find_ready self c m \<longleftrightarrow> handle_ok c m \<and> shield m (prev_shield c) = Some (Shared self 0)"

lemma list_inv_head:
  "list_inv m self xs \<Longrightarrow> nxt m self = Shared (head_of xs) 0 \<and> live m self \<and> \<not> marked m self"
  by (auto simp: list_inv_def chain_iff shared_eq_iff marked_def)

lemma pebr_find_harris_wp:
  fixes m :: "('k::linorder, 'v) list_mem"
  assumes inv: "list_inv m self xs" and fuel: "length xs < n" and h: "find_ready self c m"
  shows "wp (pebr_find_harris n k c)
    (\<lambda>(r, c') m'. pebr_post (\<lambda>m found. find_post self k m xs found) self m xs c r c' m') m" (is "wp _ ?Q m")
proof -
  note hd = list_inv_head[OF inv]
  let ?h = "\<lparr>prev_shield = prev_shield c, curr_shield = curr_shield c\<rparr>"
  have "wp (bind (pebr_find_harris_loop n k (prev_shield c) (curr_shield c) (nxt m self) (nxt m self)) (\<lambda>(r, self).
           case r of
             Inl e \<Rightarrow> Ret (Inl e, self)
           | Inr (found, cur, prev_next) \<Rightarrow>
               if prev_next = cur then Ret (Inr found, self)
               else Shield_shared (prev_shield self) (\<lambda>p.
                 Compare_and_set (raw p, Next) prev_next cur (\<lambda>r.
                   case r of
                     Inl _ \<Rightarrow> Ret (Inl Retry, self)
                   | Inr _ \<Rightarrow> bind (pebr_destroy_chain n prev_next cur) (\<lambda>_. Ret (Inr found, self)))))) ?Q m"
    unfolding wp_bind
  proof (rule pebr_find_harris_loop_wp[where as = "[]" and bs = "[]" and rest = xs and self = self], goal_cases)
    case (10 as bs cs c' found m')
    have st: "harris_stop self k m' as bs cs found"
      unfolding harris_stop_def using 10 inv same_data_list[OF 10(7)] by auto
    have cell: "cell m' = cell m" using 10(7) by (simp add: same_data_def)
    have c': "seen c' m' = harris_cursor self as cs" using 10(9) by (simp add: harris_cursor_def)
    have xs: "xs = as @ bs @ cs" using 10(1) by simp
    have hs: "handle_step c m c' m'" using 10(8) by simp
    have ok: "?Q (Inr found, c') m''"
      if "find_post self k m' xs found (harris_cursor self as cs) m''" "shield m'' = shield m'"
        "ejections m'' = ejections m'" for m''
      using that hs c' same_data_find_post(1)[OF 10(7)] handle_step_same(2)[of m'' m' c m c']
      by (simp add: pebr_post_def seen_def)
    have "wp (destroy_chain n (nxt m' (end_of self as)) (Shared (head_of cs) 0)) (\<lambda>_. ?Q (Inr found, c'))
        (set_cell (end_of self as, Next) (Shared (head_of cs) 0) m')"
      using ok xs fuel by (intro harris_cleanup_wp[OF st]) auto
    moreover have "?Q (Inr found, c') m'" if "nxt m' (end_of self as) = Shared (head_of cs) 0"
      using ok[OF harris_adjacent[OF st that, folded xs]] by simp
    moreover obtain p where "shield m' (prev_shield c') = Some p" "raw p = end_of self as"
      using hs 10(9) by (auto simp: seen_def handle_step_def handle_ok_def)
    ultimately show ?case
      using harris_stop_live[OF st] cell by (auto simp: pebr_destroy_chain_eq wp_bind)
  next
    case (11 c' m')
    then have "tidied self m xs m' xs"
      using tidied_refl[OF inv] by (simp add: same_data_tidied)
    with 11 show ?case by (auto simp: pebr_post_def)
  qed (use inv fuel h hd in \<open>auto simp: find_ready_def\<close>)
  then show ?thesis
    using h hd by (simp add: pebr_find_harris_def find_ready_def)
qed

lemma pebr_post_trans:
  assumes "tidied self m xs m1 ys" "handle_step c m c1 m1" "pebr_post P' self m1 ys c1 r c' m'"
    and "\<And>x c m2. P' m1 x c m2 \<Longrightarrow> P m x c m2"
  shows "pebr_post P self m xs c r c' m'"
proof -
  have "handle_step c m c' m'"
    using assms(2,3) by (auto simp: pebr_post_def intro: handle_step_trans)
  moreover have "ejections m1 \<le> ejections m" using assms(2) by (simp add: handle_step_def)
  moreover have "tidied self m xs m' ys'" if "tidied self m1 ys m' ys'" for ys'
    using tidied_trans[OF assms(1) that] .
  ultimately show ?thesis
    using assms(3,4) by (fastforce simp: pebr_post_def split: sum.splits find_error.splits shield_error.splits)
qed

lemma handle_step_upd:
  assumes "handle_ok c m" "l \<in> {prev_shield c, curr_shield c}"
  shows "handle_step c m c (set_shield l (Some q) m)"
    and "handle_step c m \<lparr>prev_shield = curr_shield c, curr_shield = prev_shield c\<rparr> (set_shield l (Some q) m)"
    and "handle_step c m c (use_ejection (set_shield l (Some q) m))"
  using handle_step_shield[of "prev_shield c" "curr_shield c" m l q] assms by simp_all

lemma pebr_post_eject:
  assumes "list_inv m self xs" "handle_ok c m" "0 < ejections m" "l \<in> {prev_shield c, curr_shield c}"
  shows "pebr_post P self m xs c (Inl (Shield_error Ejected)) c (use_ejection (set_shield l (Some q) m))"
  using handle_step_upd(3)[OF assms(2,4)] tidied_refl[OF assms(1)] assms(3)
  by (auto simp: pebr_post_def)

lemma pebr_post_done:
  assumes "handle_ok c m" "l \<in> {prev_shield c, curr_shield c}"
    and "P m x (seen c (set_shield l (Some q) m)) (set_shield l (Some q) m)"
  shows "pebr_post P self m xs c (Inr x) c (set_shield l (Some q) m)"
  using handle_step_upd(1)[OF assms(1,2)] assms(3) by (simp add: pebr_post_def)

lemma pebr_find_harris_michael_loop_wp:
  fixes m :: "('k::linorder, 'v) list_mem"
  assumes inv: "list_inv m self (as @ rest)" and unm: "\<not> marked m (end_of self as)"
    and keys: "\<And>x. x \<in> set as \<Longrightarrow> key_at m x < k"
    and h: "handle_ok c m" "raw (the (shield m (prev_shield c))) = end_of self as"
    and c: "cur = Shared (head_of rest) 0" and fuel: "length rest < n"
    and post: "\<And>r c' m'. pebr_post (\<lambda>m found. find_post self k m (as @ rest) found) self m (as @ rest) c r c' m'
      \<Longrightarrow> Q (r, c') m'"
  shows "wp (pebr_find_harris_michael_loop n k c cur) Q m"
  using inv unm keys h c fuel post
proof (induction rest arbitrary: as c n m cur)
  case Nil
  then obtain n' where n: "n = Suc n'" by (cases n) auto
  have "find_post self k m (as @ []) False (seen c (set_shield (curr_shield c) (Some cur) m)) m"
    using Nil by (intro find_postI[of _ _ _ _ _ as "[]"]) (auto simp: located_def seen_def handle_ok_def)
  then have "Q (Inr False, c) (set_shield (curr_shield c) (Some cur) m)"
    using Nil.prems(4) by (intro Nil.prems(8) pebr_post_done) auto
  with Nil.prems(4,6) n show ?case by (auto simp: handle_ok_def)
next
  case (Cons x rest)
  then obtain n' where n: "n = Suc n'" by (cases n) auto
  from list_inv_node[OF Cons.prems(1)] obtain nd
    where nd: "obj m x = Some nd" "key nd = key_at m x" "x \<noteq> 0" "raw (nxt m x) = head_of rest"
      "x \<notin> statics m" "x \<notin> set (garbage m)" by auto
  let ?j = "curr_shield c"
  let ?m = "set_shield ?j (Some cur) m"
  have ok: "prev_shield c \<noteq> ?j" "shield m ?j \<noteq> None" "shield m (prev_shield c) \<noteq> None"
    using Cons.prems(4) by (auto simp: handle_ok_def)
  note hs = handle_step_upd[OF Cons.prems(4) insertI2[OF singletonI]]
  have ej: "Q (Inl (Shield_error Ejected), c) (use_ejection (set_shield ?j (Some q) m))" if "0 < ejections m" for q
    using Cons.prems(1,4) that by (intro Cons.prems(8) pebr_post_eject) auto
  have stop: "Q (Inr (key_at m x = k), c) ?m" if "\<not> marked m x" "\<not> key_at m x < k"
    using Cons.prems that ok
    by (intro Cons.prems(8) pebr_post_done)
      (auto simp: seen_def located_def intro!: find_postI[of _ _ _ _ _ as "x # rest"])
  have adv: "wp (pebr_find_harris_michael_loop n' k \<lparr>prev_shield = ?j, curr_shield = prev_shield c\<rparr> (nxt m x)) Q ?m"
    if "\<not> marked m x" "key_at m x < k"
  proof (rule Cons.IH[of _ "as @ [x]"], goal_cases)
    case (8 r c' m')
    then have "pebr_post (\<lambda>m found. find_post self k m (as @ x # rest) found) self m (as @ x # rest) c r c' m'"
      using tidied_refl[OF Cons.prems(1)] by (intro pebr_post_trans[OF _ hs(2)[of cur],
            where P' = "\<lambda>m found. find_post self k m (as @ x # rest) found"]) auto
    then show ?case by (rule Cons.prems(8))
  qed (use Cons.prems that n nd ok in \<open>auto simp: handle_ok_def shared_eq_iff marked_def[of m]\<close>)
  have skip: "wp (pebr_find_harris_michael_loop n' k c (with_tag (nxt m x) 0)) Q
       (reclaim R (retire x (set_cell (end_of self as, Next) (with_tag (nxt m x) 0) ?m)))"
    (is "wp _ Q ?m2") if mk: "marked m x" for R
  proof -
    have p: "with_tag (nxt m x) 0 = Shared (head_of rest) 0" using nd by (simp add: with_tag_def)
    have td: "tidied self m (as @ x # rest) ?m2 (as @ rest)"
      using unlink_one[of ?m self as x rest _ R] Cons.prems(1,2) mk p by simp
    have out: "x \<notin> set (as @ rest)" using Cons.prems(1) by (auto simp: list_inv_def)
    have hs2: "handle_step c m c ?m2" using hs(1)[of cur] ok by (simp add: handle_step_def handle_ok_def)
    show ?thesis
    proof (rule Cons.IH[of _ as], goal_cases)
      case 1 show ?case using td by (simp add: tidied_def)
    next
      case 2 show ?case by (simp add: marked_def)
    next
      case (3 y)
      then have "y \<noteq> x" "y \<notin> set (garbage m)" using out Cons.prems(1) by (auto simp: list_inv_def)
      with Cons.prems(3)[OF 3] show ?case by (simp add: key_at_def restrict_map_def)
    next
      case (8 r c' m')
      then show ?case
        using tidied_find[OF td] by (intro Cons.prems(8) pebr_post_trans[OF td hs2 8]) auto
    qed (use Cons.prems hs2 p n ok in \<open>auto simp: handle_step_def\<close>)
  qed
  have link: "nxt m (end_of self as) = cur"
    using list_inv_split(3)[OF Cons.prems(1)] Cons.prems(2,6) by (simp add: marked_def shared_eq_iff)
  have "end_of self as \<in> set (self # as @ x # rest)" using end_of_in[of self as] by auto
  then have liv: "live m (end_of self as)" by (rule list_inv_live[OF Cons.prems(1)])
  show ?case
    using n nd adv stop skip ej link liv ok Cons.prems(5,6)
    by (auto simp: marked_def Let_def cmp_def live_def split: ordering.splits)
qed

lemma pebr_find_harris_michael_wp:
  fixes m :: "('k::linorder, 'v) list_mem"
  assumes inv: "list_inv m self xs" and fuel: "length xs < n" and h: "find_ready self c m"
  shows "wp (pebr_find_harris_michael n k c)
    (\<lambda>(r, c') m'. pebr_post (\<lambda>m found. find_post self k m xs found) self m xs c r c' m') m"
proof -
  note hd = list_inv_head[OF inv]
  have "wp (pebr_find_harris_michael_loop n k c (nxt m self))
    (\<lambda>(r, c') m'. pebr_post (\<lambda>m found. find_post self k m xs found) self m xs c r c' m') m"
    using inv fuel h hd
    by (intro pebr_find_harris_michael_loop_wp[where as = "[]" and rest = xs and self = self])
      (auto simp: find_ready_def)
  then show ?thesis using h hd by (simp add: pebr_find_harris_michael_def find_ready_def)
qed

lemma pebr_find_harris_herlihy_shavit_loop_wp:
  fixes m :: "('k::linorder, 'v) list_mem"
  assumes inv: "list_inv m self (as @ rest)"
    and keys: "\<And>x. x \<in> set as \<Longrightarrow> key_at m x < k"
    and h: "handle_ok \<lparr>prev_shield = i, curr_shield = j\<rparr> m"
    and c: "raw cur = head_of rest" and fuel: "length rest < n"
    and post: "\<And>r c' m'. pebr_post (\<lambda>m found. get_post self k m (as @ rest) found) self m (as @ rest)
        \<lparr>prev_shield = i, curr_shield = j\<rparr> r c' m' \<Longrightarrow> Q (r, c') m'"
  shows "wp (pebr_find_harris_herlihy_shavit_loop n k i j cur) Q m"
  using inv keys h c fuel post
proof (induction rest arbitrary: as i j cur n m)
  case Nil
  then obtain n' where n: "n = Suc n'" by (cases n) auto
  let ?h = "\<lparr>prev_shield = i, curr_shield = j\<rparr>"
  have "contents m as k = None" using Nil.prems(2) by (intro contents_None) auto
  with Nil.prems(1) have "get_post self k m (as @ []) False (seen ?h (set_shield j (Some cur) m)) m"
    by (auto simp: get_post_def intro!: exI[of _ as])
  then have "Q (Inr False, ?h) (set_shield j (Some cur) m)"
    using Nil.prems(3) by (intro Nil.prems(6) pebr_post_done) auto
  with Nil.prems(3,4) n show ?case by (auto simp: handle_ok_def is_null_def)
next
  case (Cons x rest)
  then obtain n' where n: "n = Suc n'" by (cases n) auto
  from list_inv_node[OF Cons.prems(1)] obtain nd
    where nd: "obj m x = Some nd" "key nd = key_at m x" "x \<noteq> 0" "raw (nxt m x) = head_of rest" by auto
  let ?h = "\<lparr>prev_shield = i, curr_shield = j\<rparr>" and ?m = "set_shield j (Some cur) m"
  have ok: "i \<noteq> j" "shield m j \<noteq> None" "shield m i \<noteq> None" using Cons.prems(3) by (auto simp: handle_ok_def)
  note hs = handle_step_shield[OF Cons.prems(3) insertI2[OF singletonI]]
  have ej: "Q (Inl (Shield_error Ejected), ?h) (use_ejection (set_shield j (Some q) m))" if "0 < ejections m" for q
    using Cons.prems(1,3) that by (intro Cons.prems(6) pebr_post_eject) auto
  have adv: "wp (pebr_find_harris_herlihy_shavit_loop n' k j i (nxt m x)) Q ?m" if "key_at m x < k"
  proof (rule Cons.IH[of _ "as @ [x]"], goal_cases)
    case (6 r c' m')
    then have "pebr_post (\<lambda>m found. get_post self k m (as @ x # rest) found) self m (as @ x # rest) ?h r c' m'"
      using tidied_refl[OF Cons.prems(1)] by (intro pebr_post_trans[OF _ hs(2)[of cur],
            where P' = "\<lambda>m found. get_post self k m (as @ x # rest) found"]) auto
    then show ?case by (rule Cons.prems(6))
  qed (use Cons.prems that n nd ok in \<open>auto simp: handle_ok_def\<close>)
  have hit: "Q (Inr (\<not> marked m x), ?h) ?m" if "key_at m x = k"
    using Cons.prems(1,3,4) contents_at[OF Cons.prems(1)] that
    by (intro Cons.prems(6) pebr_post_done)
      (auto simp: get_post_def seen_def intro!: exI[of _ "as @ x # rest"])
  have miss: "Q (Inr False, ?h) ?m" if "k < key_at m x"
  proof (intro Cons.prems(6) pebr_post_done)
    have "contents m (as @ x # rest) k = None"
      using Cons.prems(1,2) that by (intro contents_gap) auto
    then show "get_post self k m (as @ x # rest) False (seen ?h ?m) ?m"
      using Cons.prems(1) by (auto simp: get_post_def intro!: exI[of _ "as @ x # rest"])
  qed (use Cons.prems(3) in auto)
  show ?case
    using n nd adv hit miss ej ok Cons.prems(4)
    by (auto simp: marked_def cmp_def is_null_def live_def split: ordering.splits)
qed

lemma pebr_find_harris_herlihy_shavit_wp:
  fixes m :: "('k::linorder, 'v) list_mem"
  assumes inv: "list_inv m self xs" and fuel: "length xs < n" and h: "find_ready self c m"
  shows "wp (pebr_find_harris_herlihy_shavit n k c)
    (\<lambda>(r, c') m'. pebr_post (\<lambda>m found. get_post self k m xs found) self m xs c r c' m') m"
proof -
  note hd = list_inv_head[OF inv]
  have "wp (pebr_find_harris_herlihy_shavit_loop n k (prev_shield c) (curr_shield c) (nxt m self))
    (\<lambda>(r, c') m'. pebr_post (\<lambda>m found. get_post self k m xs found) self m xs c r c' m') m"
    using inv fuel h hd
    by (intro pebr_find_harris_herlihy_shavit_loop_wp[where as = "[]" and rest = xs and self = self])
      (auto simp: find_ready_def)
  then show ?thesis using h hd by (simp add: pebr_find_harris_herlihy_shavit_def find_ready_def)
qed

section \<open>The operations\<close>

lemma find_ready_init:
  assumes "handle_ok c m"
  shows "find_ready self c (set_shield (prev_shield c) (Some (Shared self 0)) m)"
    and "handle_step c m c (set_shield (prev_shield c) (Some (Shared self 0)) m)"
  using assms handle_step_upd(1)[OF assms insertI1] by (auto simp: find_ready_def handle_ok_def)

lemma handle_step_reclaim: "handle_step c m c' m' \<Longrightarrow> handle_step c m c' (reclaim R m')"
  by (simp add: handle_step_def handle_ok_def)

lemma handle_step_ok: "handle_step c m c' m' \<Longrightarrow> handle_ok c' m'"
  by (simp add: handle_step_def)

text \<open>The retry loop around a search: every ejection is followed by a repin and a fresh start.\<close>

lemma pebr_list_find_wp:
  fixes P :: "('k::linorder, 'v) list_mem \<Rightarrow> addr list \<Rightarrow> bool \<Rightarrow> cursor \<Rightarrow> ('k, 'v) list_mem \<Rightarrow> bool"
  assumes F: "\<And>m xs c. list_inv m self xs \<Longrightarrow> length xs < n \<Longrightarrow> find_ready self c m \<Longrightarrow>
      wp (F k c) (\<lambda>(r, c') m'. pebr_post (\<lambda>m. P m xs) self m xs c r c' m') m"
    and tr: "\<And>m xs m1 ys x c m2. tidied self m xs m1 ys \<Longrightarrow> P m1 ys x c m2 \<Longrightarrow> P m xs x c m2"
    and "list_inv m self xs" "length xs < n" "handle_ok c m" "ejections m < i"
  shows "wp (pebr_list_find i self k F c) (\<lambda>(found, c') m'. handle_step c m c' m' \<and> P m xs found (seen c' m') m') m"
  using assms(3-)
proof (induction i arbitrary: m xs c)
  case (Suc i)
  let ?m = "set_shield (prev_shield c) (Some (Shared self 0)) m"
  note fr = find_ready_init[OF Suc.prems(3), of self]
  have inv: "list_inv ?m self xs" using Suc.prems(1) by simp
  have td: "tidied self m xs ?m xs" using tidied_refl[OF Suc.prems(1)] by simp
  have "wp (bind (F k c) (\<lambda>(r, cursor).
       case r of
         Inr found \<Rightarrow> Ret (found, cursor)
       | Inl Retry \<Rightarrow> pebr_list_find i self k F cursor
       | Inl (Shield_error Ejected) \<Rightarrow> Repin (pebr_list_find i self k F cursor)))
     (\<lambda>(found, c') m'. handle_step c m c' m' \<and> P m xs found (seen c' m') m') ?m"
  proof (rule wp_bind_mono[OF F[OF inv Suc.prems(2) fr(1)]], goal_cases)
    case (1 rc m')
    obtain r c' where rc: "rc = (r, c')" by (cases rc) auto
    with 1 have post: "pebr_post (\<lambda>m. P m xs) self ?m xs c r c' m'" by simp
    then have hs: "handle_step c m c' m'"
      unfolding pebr_post_def using handle_step_trans[OF fr(2)] by blast
    show ?case
    proof (cases "r = Inl (Shield_error Ejected)")
      case True
      with post obtain ys where ys: "tidied self ?m xs m' ys" and e: "ejections m' < ejections m"
        by (auto simp: pebr_post_def)
      have "wp (pebr_list_find i self k F c')
          (\<lambda>(found, c') m'. handle_step c m c' m' \<and> P m xs found (seen c' m') m') (reclaim R m')" for R
      proof -
        let ?m' = "reclaim R m'"
        have t: "tidied self m xs ?m' ys" using tidied_reclaim[OF tidied_trans[OF td ys]] .
        have h: "handle_step c m c' ?m'" using handle_step_reclaim[OF hs] .
        have "wp (pebr_list_find i self k F c')
            (\<lambda>(found, c'') m''. handle_step c' ?m' c'' m'' \<and> P ?m' ys found (seen c'' m'') m'') ?m'"
          using t h e Suc.prems(2,4) by (intro Suc.IH) (auto simp: tidied_def handle_step_ok)
        then show ?thesis
          by (rule wp_mono) (auto intro: handle_step_trans[OF h] tr[OF t])
      qed
      with True rc show ?thesis by simp
    next
      case False
      with post rc hs tr[OF td] show ?thesis
        by (cases r rule: sum.exhaust; (cases "projl r" rule: find_error.exhaust)?)
          (auto simp: pebr_post_def split: find_error.splits shield_error.splits)
    qed
  qed
  moreover have "shield m (prev_shield c) \<noteq> None" using Suc.prems(3) by (simp add: handle_ok_def)
  ultimately show ?case by (simp add: pebr_init_find_def)
qed simp

lemma tidied_remove:
  assumes "tidied self m xs m1 ys" "remove_post self k m1 ys r m2"
  shows "remove_post self k m xs r m2"
proof -
  from assms(2) obtain zs where zs: "list_inv m2 self zs" "r = contents m1 ys k"
      "contents m2 zs = (contents m1 ys)(k := None)" "set zs \<subseteq> set ys" "length zs \<le> length ys"
      "list_step self m1 ys m2 zs" "dropped m2 = dropped m1" "freed m2 = freed m1"
    by (auto simp: remove_post_def)
  have "list_step self m xs m2 zs"
    using assms(1) zs by (intro list_step_trans[of self m xs m1 ys m2 zs]) (auto simp: tidied_def)
  with assms(1) zs show ?thesis
    unfolding remove_post_def tidied_def by (intro exI[of _ zs]) auto
qed

locale pebr_list_getter =
  fixes F :: "nat \<Rightarrow> ('k::linorder, 'v) pebr_finder"
  assumes getter: "list_inv m self xs \<Longrightarrow> length xs < n \<Longrightarrow> find_ready self c m \<Longrightarrow>
    wp (F n k c) (\<lambda>(r, c') m'. pebr_post (\<lambda>m. get_post self k m xs) self m xs c r c' m') m"
begin

lemma pebr_list_get_wp:
  assumes "list_inv m self xs" "length xs < n" "handle_ok c m" "ejections m < n"
  shows "wp (pebr_list_get n self k (F n) c)
    (\<lambda>(r, c') m'. handle_step c m c' m' \<and> r = contents m xs k \<and> (\<exists>ys. tidied self m xs m' ys)) m"
  unfolding pebr_list_get_def
proof (rule wp_bind_mono, rule pebr_list_find_wp[OF _ _ assms, where P = "get_post self k"], goal_cases)
  case (1 m xs c) then show ?case by (rule getter)
next
  case (2 m xs m1 ys x c m2) then show ?case by (rule tidied_get)
next
  case (3 fc m')
  obtain found c' where fc: "fc = (found, c')" by (cases fc) auto
  with 3 have hs: "handle_step c m c' m'" and g: "get_post self k m xs found (seen c' m') m'" by auto
  from g obtain ys where ys: "tidied self m xs m' ys" "found \<longrightarrow> raw (curr (seen c' m')) \<in> set ys"
    "contents m xs k = (if found then Some (val_at m' (raw (curr (seen c' m')))) else None)"
    unfolding get_post_def tidied_def by blast
  obtain p where p: "shield m' (curr_shield c') = Some p"
    using handle_step_ok[OF hs] by (auto simp: handle_ok_def)
  have "\<exists>nd. obj m' (raw p) = Some nd \<and> val nd = val_at m' (raw p)" if found
    using ys p that list_inv_obj[of m' self ys] by (fastforce simp: seen_def val_at_def tidied_def)
  with fc hs ys p show ?case by (auto simp: seen_def)
qed

end

locale pebr_list_finder =
  fixes F :: "nat \<Rightarrow> ('k::linorder, 'v) pebr_finder"
  assumes finder: "list_inv m self xs \<Longrightarrow> length xs < n \<Longrightarrow> find_ready self c m \<Longrightarrow>
    wp (F n k c) (\<lambda>(r, c') m'. pebr_post (\<lambda>m. find_post self k m xs) self m xs c r c' m') m"
begin

sublocale pebr_list_getter F
proof (unfold_locales, goal_cases)
  case (1 m self xs n c k)
  show ?case
    by (rule wp_mono[OF finder[OF 1]])
      (auto simp: pebr_post_def intro: find_post_get_post split: sum.splits find_error.splits shield_error.splits)
qed

text \<open>One attempt of an insertion, with the node already allocated.\<close>

lemma pebr_insert_inner_wp:
  assumes inv: "list_inv m self xs" and fr: "fresh m a"
    and td: "tidied self (alloc a \<lparr>key = k, val = v\<rparr> fs m) xs m1 ys" (is "tidied _ ?m0 _ _ _")
    and h: "handle_ok c m1" and fuel: "length xs < n" "0 < i"
  shows "wp (pebr_insert_inner i self (Shared a 0) (F n) c)
    (\<lambda>(r, c') m'. pebr_post (\<lambda>_ b _. insert_post self k v m xs b) self m1 ys c r c' m') m1" (is "wp _ ?Q m1")
proof -
  from fuel obtain i' where i: "i = Suc i'" by (cases i) auto
  let ?m1 = "set_shield (prev_shield c) (Some (Shared self 0)) m1"
  have step: "list_step self ?m0 xs m1 ys" and inv1: "list_inv ?m1 self ys" and len: "length ys < n"
    using td fuel by (auto simp: tidied_def)
  note nd = alloc_find_node[OF inv fr step] and rdy = find_ready_init[OF h, of self]
  have td1: "tidied self m1 ys ?m1 ys" using td by (simp add: tidied_refl tidied_def)
  have "wp (bind (F n k c) (\<lambda>(r, cursor).
         case r of
           Inl e \<Rightarrow> Ret (Inl e, cursor)
         | Inr found \<Rightarrow>
             if found then Drop_value (Shared a 0) (Drop_owned (Shared a 0) (Ret (Inr False, cursor)))
             else Shield_shared (curr_shield cursor) (\<lambda>c.
               Store (raw (Shared a 0), Next) c (
               Shield_shared (prev_shield cursor) (\<lambda>p.
               Shield_shared (curr_shield cursor) (\<lambda>c.
               Compare_and_set (raw p, Next) c (Shared a 0) (\<lambda>r.
                 case r of
                   Inr _ \<Rightarrow> Ret (Inr True, cursor)
                 | Inl _ \<Rightarrow> pebr_insert_inner i' self (Shared a 0) (F n) cursor))))))) ?Q ?m1"
  proof (rule wp_bind_mono[OF finder[OF inv1 len rdy(1)]], goal_cases)
    case (1 rc m')
    obtain r c' where rc: "rc = (r, c')" by (cases rc) auto
    with 1 have post: "pebr_post (\<lambda>m. find_post self k m ys) self ?m1 ys c r c' m'" by simp
    then have hs: "handle_step c m1 c' m'"
      unfolding pebr_post_def using handle_step_trans[OF rdy(2)] by blast
    then obtain p q where pq: "shield m' (prev_shield c') = Some p" "shield m' (curr_shield c') = Some q"
      by (auto simp: handle_step_def handle_ok_def)
    have fp: "find_post self k ?m0 xs found (seen c' m') m'" if "r = Inr found" for found
      using post that tidied_find[OF td] by (simp add: pebr_post_def)
    show ?case
    proof (cases r)
      case (Inl e)
      with post rc show ?thesis using pebr_post_trans[OF td1 rdy(2) post]
        by (auto simp: pebr_post_def split: find_error.splits shield_error.splits)
    next
      case (Inr found)
      have hs': "handle_step c m1 c' m''" if "shield m'' = shield m'" "ejections m'' = ejections m'" for m''
        using hs handle_step_same(2)[OF that] by simp
      show ?thesis
      proof (cases found)
        case True
        with insert_found[OF inv fr] fp[OF Inr] have "obj m' a \<noteq> None" "a \<notin> set (garbage m')"
          "insert_post self k v m xs False (free a (drop_val a m'))" by fastforce+
        with True rc Inr hs' show ?thesis by (auto simp: pebr_post_def)
      next
        case False
        with fp[OF Inr] have "find_post self k ?m0 xs False (seen c' m') m'" by simp
        from insert_absent[OF inv fr this] False rc Inr hs' pq show ?thesis
          by (auto simp: pebr_post_def seen_def simp del: set_cell_fields(1))
      qed
    qed
  qed
  moreover have "shield m1 (prev_shield c) \<noteq> None" using h by (simp add: handle_ok_def)
  ultimately show ?thesis using i nd(1) by (simp add: pebr_init_find_def)
qed

lemma pebr_list_insert_loop_wp:
  assumes inv: "list_inv m self xs" and fr: "fresh m a" and fuel: "length xs < n"
    and "tidied self (alloc a \<lparr>key = k, val = v\<rparr> fs m) xs m1 ys" "handle_ok c m1" "ejections m1 < i"
  shows "wp (pebr_list_insert_loop i n self (Shared a 0) (F n) c)
    (\<lambda>(r, c') m'. handle_step c m1 c' m' \<and> insert_post self k v m xs r m') m1"
  using assms(4-)
proof (induction i arbitrary: m1 ys c)
  case (Suc i)
  have "0 < n" using fuel by simp
  note inner = pebr_insert_inner_wp[OF inv fr Suc.prems(1,2) fuel this]
  show ?case
    unfolding pebr_list_insert_loop.simps
  proof (rule wp_bind_mono[OF inner], goal_cases)
    case (1 rc m')
    obtain r c' where rc: "rc = (r, c')" by (cases rc) auto
    with 1 have post: "pebr_post (\<lambda>_ b _. insert_post self k v m xs b) self m1 ys c r c' m'" by simp
    then have hs: "handle_step c m1 c' m'" by (simp add: pebr_post_def)
    show ?case
    proof (cases "r = Inl (Shield_error Ejected)")
      case True
      with post obtain zs where zs: "tidied self m1 ys m' zs" and e: "ejections m' < ejections m1"
        by (auto simp: pebr_post_def)
      have "wp (pebr_list_insert_loop i n self (Shared a 0) (F n) c')
          (\<lambda>(r, c') m'. handle_step c m1 c' m' \<and> insert_post self k v m xs r m') (reclaim R m')" for R
        using tidied_reclaim[OF tidied_trans[OF Suc.prems(1) zs], of R] handle_step_reclaim[OF hs, of R] e Suc.prems(3)
        by (intro wp_mono[OF Suc.IH]) (auto simp: handle_step_ok intro: handle_step_trans)
      with True rc show ?thesis by simp
    next
      case False
      with post rc hs show ?thesis
        by (auto simp: pebr_post_def split: sum.splits find_error.splits shield_error.splits)
    qed
  qed
qed simp

lemma pebr_list_insert_wp:
  assumes inv: "list_inv m self xs" and fuel: "length xs < n" "ejections m < n" and h: "handle_ok c m"
  shows "wp (pebr_list_insert n self k v (F n) c)
    (\<lambda>(r, c') m'. handle_step c m c' m' \<and> insert_post self k v m xs r m') m"
proof -
  have "wp (pebr_list_insert_loop n n self (Shared a 0) (F n) c)
      (\<lambda>(r, c') m'. handle_step c m c' m' \<and> insert_post self k v m xs r m')
      (alloc a \<lparr>key = k, val = v\<rparr> [(Next, null)] m)" if fr: "fresh m a" for a
    using tidied_refl[OF list_inv_alloc(1)[OF inv fr]] h fuel(2)
      handle_step_same(1)[of "alloc a \<lparr>key = k, val = v\<rparr> [(Next, null)] m" m]
    by (intro wp_mono[OF pebr_list_insert_loop_wp[OF inv fr fuel(1)]]) (auto simp: handle_ok_def)
  then show ?thesis by (simp add: pebr_list_insert_def)
qed

lemma pebr_remove_inner_wp:
  assumes inv: "list_inv m self xs" and h: "handle_ok c m" and fuel: "length xs < n" "0 < i"
  shows "wp (pebr_remove_inner i self k (F n) c)
    (\<lambda>(r, c') m'. pebr_post (\<lambda>m r _. remove_post self k m xs r) self m xs c r c' m') m" (is "wp _ ?Q m")
proof -
  from fuel obtain i' where i: "i = Suc i'" by (cases i) auto
  let ?m = "set_shield (prev_shield c) (Some (Shared self 0)) m"
  note rdy = find_ready_init[OF h, of self]
  have inv1: "list_inv ?m self xs" using inv by simp
  have td1: "tidied self m xs ?m xs" using tidied_refl[OF inv] by simp
  have "wp (bind (F n k c) (\<lambda>(r, cursor).
       case r of
         Inl e \<Rightarrow> Ret (Inl e, cursor)
       | Inr found \<Rightarrow>
           if \<not> found then Ret (Inr None, cursor)
           else Shield_shared (curr_shield cursor) (\<lambda>c.
             if is_null c then Panic
             else Fetch_or (raw c, Next) 1 (\<lambda>next.
               if tag next = 1 then pebr_remove_inner i' self k (F n) cursor
               else Deref c (\<lambda>curr_node.
                 let v = val curr_node in
                 Shield_shared (prev_shield cursor) (\<lambda>p.
                 Shield_shared (curr_shield cursor) (\<lambda>c.
                 Compare_and_set (raw p, Next) c next (\<lambda>r.
                   case r of
                     Inr _ \<Rightarrow> Shield_shared (curr_shield cursor) (\<lambda>c.
                       Defer_destroy c (Ret (Inr (Some v), cursor)))
                   | Inl _ \<Rightarrow> Ret (Inr (Some v), cursor))))))))) ?Q ?m"
  proof (rule wp_bind_mono[OF finder[OF inv1 fuel(1) rdy(1)]], goal_cases)
    case (1 rc m')
    obtain r c' where rc: "rc = (r, c')" by (cases rc) auto
    with 1 have post: "pebr_post (\<lambda>m. find_post self k m xs) self ?m xs c r c' m'" by simp
    then have hs: "handle_step c m c' m'"
      unfolding pebr_post_def using handle_step_trans[OF rdy(2)] by blast
    then obtain p q where pq: "shield m' (prev_shield c') = Some p" "shield m' (curr_shield c') = Some q"
      by (auto simp: handle_step_def handle_ok_def)
    have fp: "find_post self k m xs found (seen c' m') m'" if "r = Inr found" for found
      using post that by (simp add: pebr_post_def)
    show ?case
    proof (cases r)
      case (Inl e)
      with rc show ?thesis using pebr_post_trans[OF td1 rdy(2) post]
        by (auto simp: pebr_post_def split: find_error.splits shield_error.splits)
    next
      case (Inr found)
      have hs': "handle_step c m c' m''" if "shield m'' = shield m'" "ejections m'' = ejections m'" for m''
        using hs handle_step_same(2)[OF that] by simp
      show ?thesis
      proof (cases found)
        case False
        with fp[OF Inr] have "remove_post self k m xs None m'" by (intro remove_absent[of _ _ _ _ "seen c' m'"]) simp
        with False rc Inr hs show ?thesis by (simp add: pebr_post_def)
      next
        case True
        with fp[OF Inr] have "find_post self k m xs True (seen c' m') m'" by simp
        from remove_found[OF this] obtain nd where r: "obj m' (raw q) = Some nd"
            "\<not> is_null q" "tag (nxt m' (raw q)) = 0" "raw q \<notin> set (garbage m')"
            "live m' (raw p)" "raw p \<noteq> raw q" "nxt m' (raw p) = q"
          and fin: "\<And>R. remove_post self k m xs (Some (val nd)) (reclaim R (retire (raw q)
            (set_cell (raw p, Next) (nxt m' (raw q))
              (set_cell (raw q, Next) (with_tag (nxt m' (raw q)) 1) m'))))"
          using pq by (simp add: seen_def) blast
        with True rc Inr hs' pq show ?thesis by (auto simp: Let_def pebr_post_def)
      qed
    qed
  qed
  moreover have "shield m (prev_shield c) \<noteq> None" using h by (simp add: handle_ok_def)
  ultimately show ?thesis using i by (simp add: pebr_init_find_def)
qed

lemma pebr_list_remove_loop_wp:
  assumes "list_inv m self xs" "length xs < n" "handle_ok c m" "ejections m < i"
  shows "wp (pebr_list_remove_loop i n self k (F n) c)
    (\<lambda>(r, c') m'. handle_step c m c' m' \<and> remove_post self k m xs r m') m"
  using assms
proof (induction i arbitrary: m xs c)
  case (Suc i)
  have "0 < n" using Suc.prems(2) by simp
  note inner = pebr_remove_inner_wp[OF Suc.prems(1,3,2) this]
  show ?case
    unfolding pebr_list_remove_loop.simps
  proof (rule wp_bind_mono[OF inner], goal_cases)
    case (1 rc m')
    obtain r c' where rc: "rc = (r, c')" by (cases rc) auto
    with 1 have post: "pebr_post (\<lambda>m r _. remove_post self k m xs r) self m xs c r c' m'" by simp
    then have hs: "handle_step c m c' m'" by (simp add: pebr_post_def)
    show ?case
    proof (cases "r = Inl (Shield_error Ejected)")
      case True
      with post obtain ys where ys: "tidied self m xs m' ys" and e: "ejections m' < ejections m"
        by (auto simp: pebr_post_def)
      have "wp (pebr_list_remove_loop i n self k (F n) c')
          (\<lambda>(r, c') m'. handle_step c m c' m' \<and> remove_post self k m xs r m') (reclaim R m')" for R
      proof -
        have t: "tidied self m xs (reclaim R m') ys" using tidied_reclaim[OF ys] .
        with handle_step_reclaim[OF hs, of R] e Suc.prems(2,4) show ?thesis
          by (intro wp_mono[OF Suc.IH[of _ ys]])
            (auto simp: handle_step_ok tidied_def[of _ _ _ _ ys] intro: handle_step_trans tidied_remove[OF t])
      qed
      with True rc show ?thesis by simp
    next
      case False
      with post rc hs show ?thesis
        by (auto simp: pebr_post_def split: sum.splits find_error.splits shield_error.splits)
    qed
  qed
qed simp

lemma pebr_list_remove_wp:
  assumes "list_inv m self xs" "length xs < n" "ejections m < n" "handle_ok c m"
  shows "wp (pebr_list_remove n self k (F n) c)
    (\<lambda>(r, c') m'. handle_step c m c' m' \<and> remove_post self k m xs r m') m"
  unfolding pebr_list_remove_def using assms by (intro pebr_list_remove_loop_wp)

end

interpretation pebr_harris: pebr_list_finder pebr_find_harris
  by unfold_locales (rule pebr_find_harris_wp)

interpretation pebr_harris_michael: pebr_list_finder pebr_find_harris_michael
  by unfold_locales (rule pebr_find_harris_michael_wp)

interpretation pebr_harris_herlihy_shavit: pebr_list_getter pebr_find_harris_herlihy_shavit
  by unfold_locales (rule pebr_find_harris_herlihy_shavit_wp)

section \<open>HList, HMList and HHSList implement the trait\<close>

definition pebr_HList_ops ::
  "(addr, pebr_cursor, 'k::linorder, 'v, list_field, ('k, 'v) node) pebr_map" where
  "pebr_HList_ops = \<lparr>pmap_new = pebr_HList_new, pmap_handle = pebr_HList_handle, pmap_clear = pebr_HList_clear, pmap_drop = pebr_cursor_drop,
     pmap_get = pebr_HList_get, pmap_insert = pebr_HList_insert, pmap_remove = pebr_HList_remove\<rparr>"

definition pebr_HMList_ops ::
  "(addr, pebr_cursor, 'k::linorder, 'v, list_field, ('k, 'v) node) pebr_map" where
  "pebr_HMList_ops = \<lparr>pmap_new = pebr_HMList_new, pmap_handle = pebr_HMList_handle, pmap_clear = pebr_HMList_clear, pmap_drop = pebr_cursor_drop,
     pmap_get = pebr_HMList_get, pmap_insert = pebr_HMList_insert, pmap_remove = pebr_HMList_remove\<rparr>"

definition pebr_HHSList_ops ::
  "(addr, pebr_cursor, 'k::linorder, 'v, list_field, ('k, 'v) node) pebr_map" where
  "pebr_HHSList_ops = \<lparr>pmap_new = pebr_HHSList_new, pmap_handle = pebr_HHSList_handle, pmap_clear = pebr_HHSList_clear, pmap_drop = pebr_cursor_drop,
     pmap_get = pebr_HHSList_get, pmap_insert = pebr_HHSList_insert, pmap_remove = pebr_HHSList_remove\<rparr>"

lemmas pebr_list_map_defs =
  pebr_HList_ops_def pebr_HList_new_def pebr_HList_handle_def pebr_HList_clear_def pebr_HList_get_def pebr_HList_insert_def pebr_HList_remove_def
  pebr_HMList_ops_def pebr_HMList_new_def pebr_HMList_handle_def pebr_HMList_clear_def pebr_HMList_get_def pebr_HMList_insert_def pebr_HMList_remove_def
  pebr_HHSList_ops_def pebr_HHSList_new_def pebr_HHSList_handle_def pebr_HHSList_clear_def pebr_HHSList_get_def pebr_HHSList_insert_def pebr_HHSList_remove_def
  pebr_harris_get_def pebr_harris_insert_def pebr_harris_remove_def
  pebr_harris_michael_get_def pebr_harris_michael_insert_def pebr_harris_michael_remove_def
  pebr_harris_herlihy_shavit_get_def pebr_harris_herlihy_shavit_insert_def pebr_harris_herlihy_shavit_remove_def
  pebr_map.simps

lemma pebr_list_new_eq: "pebr_list_new self = list_new self"
  by (simp add: pebr_list_new_def list_new_def)

lemma pebr_list_drop_loop_eq: "pebr_list_drop_loop n cur = list_drop_loop n cur"
  by (induction n arbitrary: cur) (auto simp: fun_eq_iff)

lemma pebr_list_drop_eq: "pebr_list_drop n self = list_drop n self"
  by (simp add: pebr_list_drop_def list_drop_def pebr_list_drop_loop_eq)

lemma list_repr_new_pebr:
  "list_place self m \<Longrightarrow>
    wp (pebr_list_new self) (\<lambda>_ m'. list_repr self m' Map.empty 0 \<and> ejections m' \<le> ejections m) m"
  using list_repr_new[of self m] by (simp add: pebr_list_new_eq list_new_def)

lemma same_data_repr: "same_data m m' \<Longrightarrow> list_repr self m' M s = list_repr self m M s"
  using same_data_list(5,6)[of m m'] by (simp add: list_repr_def)

lemma pebr_cursor_new_wp:
  "wp pebr_cursor_new (\<lambda>c m'. same_data m m' \<and> handle_ok c m' \<and> ejections m' \<le> ejections m) m"
  by (auto simp: pebr_cursor_new_def handle_ok_def split: if_splits)

lemma pebr_cursor_release_wp:
  "handle_ok c m \<Longrightarrow>
    wp (pebr_cursor_release c) (\<lambda>_ m'. same_data m m' \<and> handle_ok c m' \<and> ejections m' \<le> ejections m \<and>
      shield m' (prev_shield c) = Some null \<and> shield m' (curr_shield c) = Some null) m"
  by (auto simp: pebr_cursor_release_def handle_ok_def)

lemma pebr_repr_handle:
  "list_repr self m M s \<Longrightarrow>
    wp pebr_cursor_new (\<lambda>c m'. list_repr self m' M s \<and> handle_ok c m' \<and> ejections m' \<le> ejections m) m"
  by (rule wp_mono[OF pebr_cursor_new_wp]) (auto simp: same_data_repr)

lemma pebr_repr_clear:
  "list_repr self m M s \<Longrightarrow> handle_ok c m \<Longrightarrow>
    wp (pebr_cursor_release c) (\<lambda>_ m'. list_repr self m' M s \<and> handle_ok c m' \<and> ejections m' \<le> ejections m) m"
  by (rule wp_mono[OF pebr_cursor_release_wp]) (auto simp: same_data_repr)

lemma pebr_cursor_drop_wp:
  "handle_ok c m \<Longrightarrow> wp (pebr_cursor_drop c) (\<lambda>_ m'. same_data m m' \<and> ejections m' \<le> ejections m \<and>
    shield m' = (shield m) |` (- {prev_shield c, curr_shield c})) m"
  by (auto simp: pebr_cursor_drop_def handle_ok_def restrict_map_def)

lemma pebr_repr_drop:
  "list_repr self m M s \<Longrightarrow> handle_ok c m \<Longrightarrow>
    wp (pebr_cursor_drop c) (\<lambda>_ m'. list_repr self m' M s \<and> ejections m' \<le> ejections m) m"
  by (rule wp_mono[OF pebr_cursor_drop_wp]) (auto simp: same_data_repr)

context pebr_list_getter
begin

lemma pebr_repr_get:
  assumes "list_repr self m M s" "handle_ok c m" "s + ejections m < n"
  shows "wp (pebr_list_get n self k (F n) c)
    (\<lambda>(r, c') m'. r = M k \<and> list_repr self m' M s \<and> handle_ok c' m' \<and> ejections m' \<le> ejections m) m"
proof -
  from assms obtain xs where xs: "list_inv m self xs" "contents m xs = M" "length xs \<le> s" "length xs < n" "ejections m < n"
    by (auto simp: list_repr_def)
  from xs(2,3) show ?thesis
    by (intro wp_mono[OF pebr_list_get_wp[OF xs(1,4) assms(2) xs(5)]])
      (fastforce simp: list_repr_def tidied_def handle_step_def)
qed

end

context pebr_list_finder
begin

lemma pebr_repr_insert:
  assumes "list_repr self m M s" "handle_ok c m" "s + ejections m < n"
  shows "wp (pebr_list_insert n self k v (F n) c)
    (\<lambda>(r, c') m'. r = (M k = None) \<and> list_repr self m' (if M k = None then M(k \<mapsto> v) else M) (Suc s) \<and>
       handle_ok c' m' \<and> ejections m' \<le> ejections m) m"
proof -
  from assms obtain xs where xs: "list_inv m self xs" "contents m xs = M" "length xs \<le> s" "length xs < n" "ejections m < n"
    by (auto simp: list_repr_def)
  from xs(2,3) show ?thesis
    by (intro wp_mono[OF pebr_list_insert_wp[OF xs(1,4,5) assms(2)]])
      (fastforce simp: list_repr_def insert_post_def handle_step_def split: if_splits)
qed

lemma pebr_repr_remove:
  assumes "list_repr self m M s" "handle_ok c m" "s + ejections m < n"
  shows "wp (pebr_list_remove n self k (F n) c)
    (\<lambda>(r, c') m'. r = M k \<and> list_repr self m' (M(k := None)) s \<and> handle_ok c' m' \<and> ejections m' \<le> ejections m) m"
proof -
  from assms obtain xs where xs: "list_inv m self xs" "contents m xs = M" "length xs \<le> s" "length xs < n" "ejections m < n"
    by (auto simp: list_repr_def)
  from xs(2,3) show ?thesis
    by (intro wp_mono[OF pebr_list_remove_wp[OF xs(1,4,5) assms(2)]])
      (fastforce simp: list_repr_def remove_post_def handle_step_def)
qed

end

interpretation pebr_HList: pebr_map_impl pebr_HList_ops list_place list_repr handle_ok
  by unfold_locales
    (simp_all only: pebr_list_map_defs list_repr_new_pebr pebr_repr_handle pebr_repr_clear pebr_repr_drop
      pebr_harris.pebr_repr_get pebr_harris.pebr_repr_insert pebr_harris.pebr_repr_remove list_repr_mono)

interpretation pebr_HMList: pebr_map_impl pebr_HMList_ops list_place list_repr handle_ok
  by unfold_locales
    (simp_all only: pebr_list_map_defs list_repr_new_pebr pebr_repr_handle pebr_repr_clear pebr_repr_drop
      pebr_harris_michael.pebr_repr_get pebr_harris_michael.pebr_repr_insert pebr_harris_michael.pebr_repr_remove list_repr_mono)

interpretation pebr_HHSList: pebr_map_impl pebr_HHSList_ops list_place list_repr handle_ok
  by unfold_locales
    (simp_all only: pebr_list_map_defs list_repr_new_pebr pebr_repr_handle pebr_repr_clear pebr_repr_drop
      pebr_harris_herlihy_shavit.pebr_repr_get pebr_harris_michael.pebr_repr_insert pebr_harris_michael.pebr_repr_remove list_repr_mono)

section \<open>Runs\<close>

text \<open>The list of \<open>demo_list\<close>, with a guard that is ejected at the second and the third protection.\<close>

definition demo_pebr :: "(list_field, (int, int) node) sc" where
  "demo_pebr = demo_list\<lparr>sc_eject := [False, True, True, False]\<rparr>"

lemma demo_pebr_ok: "sc_ok demo_pebr"
  using demo_list_ok by (simp add: demo_pebr_def sc_ok_def)

lemma demo_pebr_view: "same_data (sc_view demo_list) (sc_view demo_pebr)" "ejections (sc_view demo_pebr) = 2"
  by (simp_all add: demo_pebr_def same_data_def)

lemma demo_pebr_inv: "list_inv (sc_view demo_pebr) 1 [2, 3, 4]"
  using demo_list_inv same_data_list(5)[OF demo_pebr_view(1)] by simp

lemma demo_pebr_repr: "list_repr 1 (sc_view demo_pebr) [10 \<mapsto> 100, 30 \<mapsto> 300] 3"
  using demo_list_repr same_data_repr[OF demo_pebr_view(1)] by simp

lemmas demo_pebr_facts = sc.crossbeam_api_axioms demo_pebr_ok

text \<open>
  C12: \<^verbatim>\<open>HList\<close> over pointer-and-epoch-based reclamation refines a finite map.  A
  thread makes a handle, performs any sequence of calls with it and clears it.  Wherever the guard
  is ejected, as long as that happens finitely often, every call returns, no call violates its
  safety contract, and the answers are those of the finite map: an ejection never loses or
  duplicates an update.
\<close>

theorem pebr_HList_refines_map:
  assumes "crossbeam_api X view ok" "ok s" "list_repr self (view s) M b"
    and "b + length qs + ejections (view s) \<le> n"
  shows "completes X view ok (psession pebr_HList_ops self n qs) s
    (\<lambda>rs m'. \<exists>M'. spec_calls qs M = (rs, M') \<and> list_repr self m' M' (b + length qs))"
  using assms by (intro wp_completes pebr_HList.psession_wp)

theorem pebr_HList_refines_map_witness:
  "completes sc_api sc_view sc_ok (psession pebr_HList_ops 1 10 demo_calls) demo_pebr
     (\<lambda>rs m'. \<exists>M'. spec_calls demo_calls [10 \<mapsto> 100, 30 \<mapsto> 300] = (rs, M') \<and>
        list_repr 1 m' M' (3 + length demo_calls))"
  by (rule pebr_HList_refines_map[OF demo_pebr_facts demo_pebr_repr]) (simp add: demo_calls_def demo_pebr_def)

text \<open>
  \<^verbatim>\<open>HMList\<close> over pointer-and-epoch-based reclamation refines a finite map, under
  any finite number of ejections.
\<close>

theorem pebr_HMList_refines_map:
  assumes "crossbeam_api X view ok" "ok s" "list_repr self (view s) M b"
    and "b + length qs + ejections (view s) \<le> n"
  shows "completes X view ok (psession pebr_HMList_ops self n qs) s
    (\<lambda>rs m'. \<exists>M'. spec_calls qs M = (rs, M') \<and> list_repr self m' M' (b + length qs))"
  using assms by (intro wp_completes pebr_HMList.psession_wp)

theorem pebr_HMList_refines_map_witness:
  "completes sc_api sc_view sc_ok (psession pebr_HMList_ops 1 10 demo_calls) demo_pebr
     (\<lambda>rs m'. \<exists>M'. spec_calls demo_calls [10 \<mapsto> 100, 30 \<mapsto> 300] = (rs, M') \<and>
        list_repr 1 m' M' (3 + length demo_calls))"
  by (rule pebr_HMList_refines_map[OF demo_pebr_facts demo_pebr_repr]) (simp add: demo_calls_def demo_pebr_def)

text \<open>
  C29: \<^verbatim>\<open>HHSList\<close> over pointer-and-epoch-based reclamation refines a finite map, under
  any finite number of ejections.
\<close>

theorem pebr_HHSList_refines_map:
  assumes "crossbeam_api X view ok" "ok s" "list_repr self (view s) M b"
    and "b + length qs + ejections (view s) \<le> n"
  shows "completes X view ok (psession pebr_HHSList_ops self n qs) s
    (\<lambda>rs m'. \<exists>M'. spec_calls qs M = (rs, M') \<and> list_repr self m' M' (b + length qs))"
  using assms by (intro wp_completes pebr_HHSList.psession_wp)

theorem pebr_HHSList_refines_map_witness:
  "completes sc_api sc_view sc_ok (psession pebr_HHSList_ops 1 10 demo_calls) demo_pebr
     (\<lambda>rs m'. \<exists>M'. spec_calls demo_calls [10 \<mapsto> 100, 30 \<mapsto> 300] = (rs, M') \<and>
        list_repr 1 m' M' (3 + length demo_calls))"
  by (rule pebr_HHSList_refines_map[OF demo_pebr_facts demo_pebr_repr]) (simp add: demo_calls_def demo_pebr_def)

text \<open>
  One \<^verbatim>\<open>remove\<close> with a handle, in detail: the effect is that of a removal without
  ejections (the right value, the key gone, exactly the unlinked nodes retired, once each), the
  handle comes back usable with the same two shields, possibly exchanged, and no other shield is
  touched.
\<close>

theorem pebr_harris_michael_remove_correct:
  assumes "crossbeam_api X view ok" "ok s" "list_inv (view s) self xs" "handle_ok c (view s)"
    and "length xs < n" "ejections (view s) < n"
  shows "completes X view ok (pebr_harris_michael_remove n self c k) s
    (\<lambda>(r, c') m'. handle_step c (view s) c' m' \<and> remove_post self k (view s) xs r m')"
  unfolding pebr_harris_michael_remove_def
  using assms by (intro wp_completes pebr_harris_michael.pebr_list_remove_wp)

definition demo_handle :: "(list_field, (int, int) node) sc" where
  "demo_handle = sc_upd (set_shield 0 (Some null) \<circ> set_shield 1 (Some null)) demo_pebr\<lparr>sc_next_shield := 2\<rparr>"

lemma demo_handle_facts:
  "sc_ok demo_handle" "list_inv (sc_view demo_handle) 1 [2, 3, 4]" "ejections (sc_view demo_handle) = 2"
  "handle_ok \<lparr>prev_shield = 0, curr_shield = 1\<rparr> (sc_view demo_handle)"
proof -
  have "same_data (sc_view demo_pebr) (sc_view demo_handle)"
    by (simp add: demo_handle_def same_data_def)
  then show "list_inv (sc_view demo_handle) 1 [2, 3, 4]"
    using demo_pebr_inv same_data_list(5) by blast
  show "sc_ok demo_handle"
    using demo_pebr_ok by (auto simp: demo_handle_def sc_ok_def demo_pebr_def demo_list_def)
  show "ejections (sc_view demo_handle) = 2"
    by (simp add: demo_handle_def demo_pebr_def)
  show "handle_ok \<lparr>prev_shield = 0, curr_shield = 1\<rparr> (sc_view demo_handle)"
    by (simp add: demo_handle_def handle_ok_def)
qed

theorem pebr_harris_michael_remove_correct_witness:
  "completes sc_api sc_view sc_ok (pebr_harris_michael_remove 4 1 \<lparr>prev_shield = 0, curr_shield = 1\<rparr> 30) demo_handle
    (\<lambda>(r, c') m'. handle_step \<lparr>prev_shield = 0, curr_shield = 1\<rparr> (sc_view demo_handle) c' m' \<and>
       remove_post 1 30 (sc_view demo_handle) [2, 3, 4] r m')"
  using demo_handle_facts(3)
  by (intro pebr_harris_michael_remove_correct[OF sc.crossbeam_api_axioms demo_handle_facts(1,2,4)]) simp_all

end
