(* ===== verification/Pebr_Hash_Map.thy ===== *)
theory Pebr_Hash_Map
  imports Ebr_Hash_Map Pebr_List_Correct
begin

text \<open>
  \<^verbatim>\<open>src/src/pebr/michael_hash_map.rs\<close>: the hash map over pointer-and-epoch-based
  reclamation.  One cursor serves all buckets.
\<close>

section \<open>The code\<close>

fun pebr_with_capacity_loop :: "nat \<Rightarrow> addr list \<Rightarrow> addr list \<Rightarrow> ('k, 'v, addr list) list_prog" where
  "pebr_with_capacity_loop 0 places bs = Ret bs"
| "pebr_with_capacity_loop (Suc n) [] bs = Panic"
| "pebr_with_capacity_loop (Suc n) (p # places) bs =
     bind (pebr_HMList_new p) (\<lambda>_. pebr_with_capacity_loop n places (bs @ [p]))"

definition pebr_with_capacity :: "nat \<Rightarrow> addr list \<Rightarrow> ('k, 'v, addr list) list_prog" where
  "pebr_with_capacity n places = pebr_with_capacity_loop n places []"

definition pebr_get_bucket ::
  "'k hash_map \<Rightarrow> usize \<Rightarrow> (addr \<Rightarrow> ('k, 'v, 'a) list_prog) \<Rightarrow> ('k, 'v, 'a) list_prog" where
  "pebr_get_bucket self i f =
     (if buckets self = [] then Panic else f (buckets self ! (unat i mod length (buckets self))))"

definition pebr_hash_key :: "'k hash_map \<Rightarrow> 'k \<Rightarrow> usize" where
  "pebr_hash_key self k = ucast (hasher self k)"

definition pebr_hash_map_get ::
  "'k::linorder hash_map \<Rightarrow> nat \<Rightarrow> pebr_cursor \<Rightarrow> 'k \<Rightarrow> ('k, 'v, 'v option \<times> pebr_cursor) list_prog" where
  "pebr_hash_map_get self n cursor k =
     pebr_get_bucket self (pebr_hash_key self k) (\<lambda>b. pebr_HMList_get b n cursor k)"

definition pebr_hash_map_insert ::
  "'k::linorder hash_map \<Rightarrow> nat \<Rightarrow> pebr_cursor \<Rightarrow> 'k \<Rightarrow> 'v \<Rightarrow> ('k, 'v, bool \<times> pebr_cursor) list_prog" where
  "pebr_hash_map_insert self n cursor k v =
     pebr_get_bucket self (pebr_hash_key self k) (\<lambda>b. pebr_HMList_insert b n cursor k v)"

definition pebr_hash_map_remove ::
  "'k::linorder hash_map \<Rightarrow> nat \<Rightarrow> pebr_cursor \<Rightarrow> 'k \<Rightarrow> ('k, 'v, 'v option \<times> pebr_cursor) list_prog" where
  "pebr_hash_map_remove self n cursor k =
     pebr_get_bucket self (pebr_hash_key self k) (\<lambda>b. pebr_HMList_remove b n cursor k)"

definition pebr_hash_map_new :: "'k hash_map \<Rightarrow> ('k, 'v, unit) list_prog" where
  "pebr_hash_map_new self = bind (pebr_with_capacity 30000 (buckets self)) (\<lambda>_. Ret ())"

definition pebr_hash_map_handle :: "('k, 'v, pebr_cursor) list_prog" where
  "pebr_hash_map_handle = pebr_cursor_new"

definition pebr_hash_map_clear :: "pebr_cursor \<Rightarrow> ('k, 'v, unit) list_prog" where
  "pebr_hash_map_clear handle = pebr_cursor_release handle"

definition pebr_hash_map_ops ::
  "('k::linorder hash_map, pebr_cursor, 'k, 'v, list_field, ('k, 'v) node) pebr_map" where
  "pebr_hash_map_ops = \<lparr>pmap_new = pebr_hash_map_new, pmap_handle = pebr_hash_map_handle,
     pmap_clear = pebr_hash_map_clear, pmap_drop = pebr_cursor_drop, pmap_get = pebr_hash_map_get, pmap_insert = pebr_hash_map_insert,
     pmap_remove = pebr_hash_map_remove\<rparr>"

section \<open>Correctness\<close>

lemma pebr_get_bucket_key:
  "hash_inv self m xss \<Longrightarrow> pebr_get_bucket self (pebr_hash_key self k) f = f (buckets self ! key_index self k)"
  by (simp add: pebr_get_bucket_def pebr_hash_key_def hash_inv_def key_index_def bucket_index_def hash_key_def)

lemma same_data_hash:
  fixes m :: "('k::linorder, 'v) list_mem"
  shows "same_data m m' \<Longrightarrow> hash_repr self m' M s = hash_repr self m M s"
  using same_data_list(5,6)[of m m'] by (simp add: hash_repr_def hash_inv_def hash_contents_def fun_eq_iff)

text \<open>A call goes to one bucket of a well-formed table that has enough fuel.\<close>

lemma hash_repr_bucket:
  assumes "hash_repr self m M s" "s + e < n"
  obtains xss where "hash_inv self m xss" "M = hash_contents self m xss" "\<forall>xs\<in>set xss. length xs \<le> s"
    "list_inv m (buckets self ! key_index self k) (xss ! key_index self k)"
    "length (xss ! key_index self k) < n" "length (xss ! key_index self k) \<le> s" "e < n"
proof -
  from assms obtain xss where x: "hash_inv self m xss" "hash_contents self m xss = M" "\<forall>xs\<in>set xss. length xs \<le> s"
    by (auto simp: hash_repr_def)
  have i: "key_index self k < length xss" using key_index_less[OF x(1)] .
  then have "length (xss ! key_index self k) \<le> s" using x(3) by simp
  with that[of xss] x hash_inv_bucket[OF x(1) i] assms(2) show thesis by simp
qed

lemma pebr_hash_map_get_wp:
  assumes "hash_repr self m M s" "handle_ok c m" "s + ejections m < n"
  shows "wp (pebr_hash_map_get self n c k)
    (\<lambda>(r, c') m'. r = M k \<and> hash_repr self m' M s \<and> handle_ok c' m' \<and> ejections m' \<le> ejections m) m"
    (is "wp _ ?Q m")
proof -
  obtain xss where x: "hash_inv self m xss" "M = hash_contents self m xss" "\<forall>xs\<in>set xss. length xs \<le> s"
      "list_inv m (buckets self ! key_index self k) (xss ! key_index self k)"
      "length (xss ! key_index self k) < n" "length (xss ! key_index self k) \<le> s" "ejections m < n"
    using hash_repr_bucket[OF assms(1,3)] .
  have "wp (pebr_list_get n (buckets self ! key_index self k) k (pebr_find_harris_michael n) c) ?Q m"
    using x(2,6)
    by (intro wp_mono[OF pebr_harris_michael.pebr_list_get_wp[OF x(4,5) assms(2) x(7)]])
      (auto simp: handle_step_def tidied_def hash_contents_def fun_eq_iff intro!: hash_repr_step[OF x(1,3)])
  with x(1) show ?thesis by (simp add: pebr_hash_map_get_def pebr_get_bucket_key pebr_list_map_defs)
qed

lemma pebr_hash_map_insert_wp:
  assumes "hash_repr self m M s" "handle_ok c m" "s + ejections m < n"
  shows "wp (pebr_hash_map_insert self n c k v)
    (\<lambda>(r, c') m'. r = (M k = None) \<and> hash_repr self m' (if M k = None then M(k \<mapsto> v) else M) (Suc s) \<and>
       handle_ok c' m' \<and> ejections m' \<le> ejections m) m"
    (is "wp _ ?Q m")
proof -
  obtain xss where x: "hash_inv self m xss" "M = hash_contents self m xss" "\<forall>xs\<in>set xss. length xs \<le> s"
      "list_inv m (buckets self ! key_index self k) (xss ! key_index self k)"
      "length (xss ! key_index self k) < n" "length (xss ! key_index self k) \<le> s" "ejections m < n"
    using hash_repr_bucket[OF assms(1,3)] .
  have "wp (pebr_list_insert n (buckets self ! key_index self k) k v (pebr_find_harris_michael n) c) ?Q m"
    using x(2,6)
    by (intro wp_mono[OF pebr_harris_michael.pebr_list_insert_wp[OF x(4,5,7) assms(2)]])
      (auto simp: handle_step_def insert_post_def hash_contents_def fun_eq_iff intro!: hash_repr_step[OF x(1,3)]
        split: if_splits)
  with x(1) show ?thesis by (simp add: pebr_hash_map_insert_def pebr_get_bucket_key pebr_list_map_defs)
qed

lemma pebr_hash_map_remove_wp:
  assumes "hash_repr self m M s" "handle_ok c m" "s + ejections m < n"
  shows "wp (pebr_hash_map_remove self n c k)
    (\<lambda>(r, c') m'. r = M k \<and> hash_repr self m' (M(k := None)) s \<and> handle_ok c' m' \<and> ejections m' \<le> ejections m) m"
    (is "wp _ ?Q m")
proof -
  obtain xss where x: "hash_inv self m xss" "M = hash_contents self m xss" "\<forall>xs\<in>set xss. length xs \<le> s"
      "list_inv m (buckets self ! key_index self k) (xss ! key_index self k)"
      "length (xss ! key_index self k) < n" "length (xss ! key_index self k) \<le> s" "ejections m < n"
    using hash_repr_bucket[OF assms(1,3)] .
  have "wp (pebr_list_remove n (buckets self ! key_index self k) k (pebr_find_harris_michael n) c) ?Q m"
    using x(2,6)
    by (intro wp_mono[OF pebr_harris_michael.pebr_list_remove_wp[OF x(4,5,7) assms(2)]])
      (auto simp: handle_step_def remove_post_def hash_contents_def fun_eq_iff intro!: hash_repr_step[OF x(1,3)])
  with x(1) show ?thesis by (simp add: pebr_hash_map_remove_def pebr_get_bucket_key pebr_list_map_defs)
qed

lemma pebr_with_capacity_loop_eq: "pebr_with_capacity_loop n places bs = with_capacity_loop n places bs"
  by (induction n places bs rule: with_capacity_loop.induct)
    (simp_all add: pebr_HMList_new_def pebr_list_new_def HMList_new_def list_new_def)

lemma with_capacity_ejections:
  "wp (with_capacity_loop n places bs) (\<lambda>_. P) m \<Longrightarrow>
    wp (with_capacity_loop n places bs) (\<lambda>_ m'. P m' \<and> ejections m' = ejections m) m"
proof (induction n places bs arbitrary: m rule: with_capacity_loop.induct)
  case (3 n p places bs)
  from "3.IH"[of "set_cell (p, Next) null m"] "3.prems" show ?case
    by (simp add: HMList_new_def list_new_def)
qed auto

lemma pebr_hash_map_new_wp:
  assumes "hash_place self m"
  shows "wp (pebr_hash_map_new self) (\<lambda>_ m'. hash_repr self m' Map.empty 0 \<and> ejections m' \<le> ejections m) m"
proof -
  have "wp (with_capacity_loop 30000 (buckets self) []) (\<lambda>_ m'. hash_repr self m' Map.empty 0) m"
    using hash_map_new_wp[OF assms] by (simp add: hash_map_new_def with_capacity_def wp_bind)
  from with_capacity_ejections[OF this] show ?thesis
    by (auto simp: pebr_hash_map_new_def pebr_with_capacity_def pebr_with_capacity_loop_eq wp_bind elim!: wp_mono)
qed

lemma pebr_hash_map_handle_wp:
  "hash_repr self m M s \<Longrightarrow>
    wp pebr_hash_map_handle (\<lambda>c m'. hash_repr self m' M s \<and> handle_ok c m' \<and> ejections m' \<le> ejections m) m"
  unfolding pebr_hash_map_handle_def by (rule wp_mono[OF pebr_cursor_new_wp]) (auto simp: same_data_hash)

lemma pebr_hash_map_clear_wp:
  "hash_repr self m M s \<Longrightarrow> handle_ok c m \<Longrightarrow>
    wp (pebr_hash_map_clear c) (\<lambda>_ m'. hash_repr self m' M s \<and> handle_ok c m' \<and> ejections m' \<le> ejections m) m"
  unfolding pebr_hash_map_clear_def by (rule wp_mono[OF pebr_cursor_release_wp]) (auto simp: same_data_hash)

lemma pebr_hash_map_drop_wp:
  "hash_repr self m M s \<Longrightarrow> handle_ok c m \<Longrightarrow>
    wp (pebr_cursor_drop c) (\<lambda>_ m'. hash_repr self m' M s \<and> ejections m' \<le> ejections m) m"
  by (rule wp_mono[OF pebr_cursor_drop_wp]) (auto simp: same_data_hash)

interpretation pebr_hash_map: pebr_map_impl pebr_hash_map_ops hash_place hash_repr handle_ok
  by unfold_locales
    (simp_all only: pebr_hash_map_ops_def pebr_map.simps pebr_hash_map_new_wp pebr_hash_map_handle_wp
      pebr_hash_map_clear_wp pebr_hash_map_drop_wp pebr_hash_map_get_wp pebr_hash_map_insert_wp pebr_hash_map_remove_wp hash_repr_mono)

section \<open>Runs\<close>

text \<open>
  C31: the hash map over pointer-and-epoch-based reclamation refines a finite map, for every hash
  function and under any finite number of ejections.
\<close>

theorem pebr_hash_map_refines_map:
  assumes "crossbeam_api X view ok" "ok s" "hash_repr self (view s) M b"
    and "b + length qs + ejections (view s) \<le> n"
  shows "completes X view ok (psession pebr_hash_map_ops self n qs) s
    (\<lambda>rs m'. \<exists>M'. spec_calls qs M = (rs, M') \<and> hash_repr self m' M' (b + length qs))"
  using assms by (intro wp_completes pebr_hash_map.psession_wp)

definition demo_pebr_hash :: "(list_field, (int, int) node) sc" where
  "demo_pebr_hash = demo_hash\<lparr>sc_eject := [True, False, True]\<rparr>"

lemma demo_pebr_hash_facts:
  "sc_ok demo_pebr_hash" "hash_repr demo_table (sc_view demo_pebr_hash) [10 \<mapsto> 100, 30 \<mapsto> 300] 3"
proof -
  show "sc_ok demo_pebr_hash" using demo_hash_ok by (simp add: demo_pebr_hash_def sc_ok_def)
  have "same_data (sc_view demo_hash) (sc_view demo_pebr_hash)"
    by (simp add: demo_pebr_hash_def same_data_def)
  then show "hash_repr demo_table (sc_view demo_pebr_hash) [10 \<mapsto> 100, 30 \<mapsto> 300] 3"
    using demo_hash_repr same_data_hash by blast
qed

theorem pebr_hash_map_refines_map_witness:
  "completes sc_api sc_view sc_ok (psession pebr_hash_map_ops demo_table 10 demo_calls) demo_pebr_hash
     (\<lambda>rs m'. \<exists>M'. spec_calls demo_calls [10 \<mapsto> 100, 30 \<mapsto> 300] = (rs, M') \<and>
        hash_repr demo_table m' M' (3 + length demo_calls))"
  by (rule pebr_hash_map_refines_map[OF sc.crossbeam_api_axioms demo_pebr_hash_facts])
    (simp add: demo_calls_def demo_pebr_hash_def)

end
