(* ===== verification/Pebr_Nm_Tree.thy ===== *)
theory Pebr_Nm_Tree
  imports Ebr_Nm_Tree
begin

text \<open>
  \<^verbatim>\<open>src/src/pebr/natarajan_mittal_tree.rs\<close>: the Natarajan-Mittal tree over pointer- and epoch-based
  reclamation.  The record of a search owns four shields; a search fails when the guard is ejected, and the outer loops repin and
  start over.  \<^verbatim>\<open>Marks\<close>, \<^verbatim>\<open>Key\<close>, \<^verbatim>\<open>Node\<close> and \<^verbatim>\<open>Direction\<close>
  are those of \<^verbatim>\<open>Ebr_Nm_Tree\<close>, which the file repeats; everything else carries the prefix \<open>pebr_\<close>.
\<close>

section \<open>The record of a search\<close>

text \<open>The four shields are given by their numbers.\<close>

record pebr_seek_record =
  ancestor_shield :: nat
  successor_shield :: nat
  pebr_successor_dir :: direction
  parent_shield :: nat
  leaf_shield :: nat
  pebr_leaf_dir :: direction

definition pebr_seek_record_new :: "('k, 'v, pebr_seek_record) nm_prog" where
  "pebr_seek_record_new =
     Shield_null (\<lambda>a. Shield_null (\<lambda>s. Shield_null (\<lambda>p. Shield_null (\<lambda>l.
       Ret \<lparr>ancestor_shield = a, successor_shield = s, pebr_successor_dir = Dir_L,
            parent_shield = p, leaf_shield = l, pebr_leaf_dir = Dir_L\<rparr>))))"

definition pebr_seek_record_release :: "pebr_seek_record \<Rightarrow> ('k, 'v, unit) nm_prog" where
  "pebr_seek_record_release self =
     Release (ancestor_shield self) (Release (successor_shield self)
       (Release (parent_shield self) (Release (leaf_shield self) (Ret ()))))"

text \<open>A record is dropped field by field.\<close>

definition pebr_seek_record_drop :: "pebr_seek_record \<Rightarrow> ('k, 'v, unit) nm_prog" where
  "pebr_seek_record_drop self =
     Shield_drop (ancestor_shield self) (Shield_drop (successor_shield self)
       (Shield_drop (parent_shield self) (Shield_drop (leaf_shield self) (Ret ()))))"

definition pebr_successor_addr :: "pebr_seek_record \<Rightarrow> (nm_field loc \<Rightarrow> ('k, 'v, 'a) nm_prog) \<Rightarrow> ('k, 'v, 'a) nm_prog" where
  "pebr_successor_addr self k =
     Shield_shared (ancestor_shield self) (\<lambda>p.
       k (case pebr_successor_dir self of Dir_L \<Rightarrow> (raw p, Nm_left) | Dir_R \<Rightarrow> (raw p, Nm_right)))"

definition pebr_leaf_addr :: "pebr_seek_record \<Rightarrow> (nm_field loc \<Rightarrow> ('k, 'v, 'a) nm_prog) \<Rightarrow> ('k, 'v, 'a) nm_prog" where
  "pebr_leaf_addr self k =
     Shield_shared (parent_shield self) (\<lambda>p.
       k (case pebr_leaf_dir self of Dir_L \<Rightarrow> (raw p, Nm_left) | Dir_R \<Rightarrow> (raw p, Nm_right)))"

definition pebr_leaf_sibling_addr ::
  "pebr_seek_record \<Rightarrow> (nm_field loc \<Rightarrow> ('k, 'v, 'a) nm_prog) \<Rightarrow> ('k, 'v, 'a) nm_prog" where
  "pebr_leaf_sibling_addr self k =
     Shield_shared (parent_shield self) (\<lambda>p.
       k (case pebr_leaf_dir self of Dir_L \<Rightarrow> (raw p, Nm_right) | Dir_R \<Rightarrow> (raw p, Nm_left)))"

section \<open>The tree\<close>

definition pebr_nm_new :: "addr \<Rightarrow> ('k, 'v, unit) nm_prog" where
  "pebr_nm_new self =
     (let inf0 = new_leaf Inf None; inf1 = new_leaf Inf None; inf2 = new_leaf Inf None in
      bind (new_internal inf0 inf1) (\<lambda>s.
      bind (new_internal s inf2) (\<lambda>r.
      Store (self, Nm_left) (the (map_of (snd r) Nm_left)) (
      Store (self, Nm_right) (the (map_of (snd r) Nm_right)) (Ret ())))))"

fun pebr_nm_drop_loop :: "nat \<Rightarrow> shared list \<Rightarrow> ('k, 'v, unit) nm_prog" where
  "pebr_nm_drop_loop 0 stack = Out_of_fuel"
| "pebr_nm_drop_loop (Suc n) [] = Ret ()"
| "pebr_nm_drop_loop (Suc n) (node # stack) =
     (if is_null node then pebr_nm_drop_loop n stack
      else Load (raw node, Nm_left) (\<lambda>left.
        Load (raw node, Nm_right) (\<lambda>right.
          Drop_owned node (pebr_nm_drop_loop n (right # left # stack)))))"

text \<open>
  \<^verbatim>\<open>assert!(self.r.value.is_none())\<close> cannot fail and is left out: the root is a field of the map, its value is set to \<^verbatim>\<open>None\<close>
  by \<^verbatim>\<open>new\<close> and never written, and only its links are part of the model.
\<close>

definition pebr_nm_drop :: "nat \<Rightarrow> addr \<Rightarrow> ('k, 'v, unit) nm_prog" where
  "pebr_nm_drop n self =
     Load (self, Nm_left) (\<lambda>left. Load (self, Nm_right) (\<lambda>right. pebr_nm_drop_loop n [right, left]))"

text \<open>
  Moving the record one edge down: \<^verbatim>\<open>mem::swap\<close> exchanges the shields of the parent and the leaf, then the shield of
  the leaf is made to protect the next node.
\<close>

fun pebr_seek_loop ::
  "nat \<Rightarrow> 'k::linorder \<Rightarrow> pebr_seek_record \<Rightarrow> bool \<Rightarrow> direction \<Rightarrow> shared \<Rightarrow>
    ('k, 'v, (shield_error + unit) \<times> pebr_seek_record) nm_prog" where
  "pebr_seek_loop 0 k record prev_tag curr_dir cur = Out_of_fuel"
| "pebr_seek_loop (Suc n) k record prev_tag curr_dir cur =
     (if is_null cur then Ret (Inr (), record)
      else
        let advance = (\<lambda>record.
          let record = record\<lparr>parent_shield := leaf_shield record, leaf_shield := parent_shield record\<rparr> in
          Defend (leaf_shield record) (with_tag cur 0) (\<lambda>d.
            case d of
              Inl e \<Rightarrow> Ret (Inl e, record)
            | Inr _ \<Rightarrow>
                let record = record\<lparr>pebr_leaf_dir := curr_dir\<rparr>;
                    prev_tag = marks_tag (from_bits_truncate (tag cur))
                in Shield_shared (leaf_shield record) (\<lambda>p.
                   Deref p (\<lambda>curr_node.
                     if nm_key_cmp (nkey curr_node) k = Greater
                     then Load (raw p, Nm_left) (\<lambda>cur. pebr_seek_loop n k record prev_tag Dir_L cur)
                     else Load (raw p, Nm_right) (\<lambda>cur. pebr_seek_loop n k record prev_tag Dir_R cur)))))
        in if \<not> prev_tag
           then Shield_shared (parent_shield record) (\<lambda>p.
             Defend (ancestor_shield record) p (\<lambda>d.
               case d of
                 Inl e \<Rightarrow> Ret (Inl e, record)
               | Inr _ \<Rightarrow>
                   Shield_shared (leaf_shield record) (\<lambda>l.
                     Defend (successor_shield record) l (\<lambda>d.
                       case d of
                         Inl e \<Rightarrow> Ret (Inl e, record)
                       | Inr _ \<Rightarrow> advance (record\<lparr>pebr_successor_dir := pebr_leaf_dir record\<rparr>)))))
           else advance record)"

definition pebr_seek ::
  "nat \<Rightarrow> addr \<Rightarrow> 'k::linorder \<Rightarrow> pebr_seek_record \<Rightarrow> ('k, 'v, (shield_error + unit) \<times> pebr_seek_record) nm_prog" where
  "pebr_seek n self k record =
     Load (self, Nm_left) (\<lambda>s.
     Defend_fake (ancestor_shield record) (Shared self 0) (
     Defend_fake (successor_shield record) s (
       let record = record\<lparr>pebr_successor_dir := Dir_L\<rparr> in
       Load (raw s, Nm_left) (\<lambda>p.
         let lf = with_tag p 0 in
         Defend_fake (parent_shield record) s (
         Defend (leaf_shield record) lf (\<lambda>d.
           case d of
             Inl e \<Rightarrow> Ret (Inl e, record)
           | Inr _ \<Rightarrow>
               let record = record\<lparr>pebr_leaf_dir := Dir_L\<rparr>;
                   prev_tag = marks_tag (from_bits_truncate (tag lf))
               in Shield_shared (leaf_shield record) (\<lambda>l.
                  Load (raw l, Nm_left) (\<lambda>cur. pebr_seek_loop n k record prev_tag Dir_L cur))))))))"

fun pebr_destroy_subtree :: "nat \<Rightarrow> shared \<Rightarrow> shared list \<Rightarrow> ('k, 'v, unit) nm_prog" where
  "pebr_destroy_subtree 0 target_sibling stack = Out_of_fuel"
| "pebr_destroy_subtree (Suc n) target_sibling [] = Ret ()"
| "pebr_destroy_subtree (Suc n) target_sibling (node # stack) =
     (if is_null node \<or> with_tag node 0 = with_tag target_sibling 0 then pebr_destroy_subtree n target_sibling stack
      else Load (raw node, Nm_left) (\<lambda>left.
        Load (raw node, Nm_right) (\<lambda>right.
          Defer_destroy node (pebr_destroy_subtree n target_sibling (right # left # stack)))))"

definition pebr_cleanup :: "nat \<Rightarrow> pebr_seek_record \<Rightarrow> ('k, 'v, bool) nm_prog" where
  "pebr_cleanup n record =
     pebr_leaf_addr record (\<lambda>la.
     Load la (\<lambda>leaf_marked.
       let leaf_flag = marks_flag (from_bits_truncate (tag leaf_marked)) in
       (if leaf_flag then pebr_leaf_sibling_addr record else pebr_leaf_addr record) (\<lambda>target_sibling_addr.
       Fetch_or target_sibling_addr MARK_TAG (\<lambda>_.
       Load target_sibling_addr (\<lambda>target_sibling.
         let flag = marks_flag (from_bits_truncate (tag target_sibling)) in
         pebr_successor_addr record (\<lambda>sa.
         Shield_shared (successor_shield record) (\<lambda>succ.
         Compare_and_set sa succ (with_tag target_sibling (marks_new flag False)) (\<lambda>r.
           case r of
             Inl _ \<Rightarrow> Ret False
           | Inr _ \<Rightarrow>
               Shield_shared (successor_shield record) (\<lambda>succ.
                 bind (pebr_destroy_subtree n target_sibling [succ]) (\<lambda>_. Ret True))))))))))"

section \<open>Lookup\<close>

definition pebr_nm_get_inner ::
  "nat \<Rightarrow> addr \<Rightarrow> 'k::linorder \<Rightarrow> pebr_seek_record \<Rightarrow> ('k, 'v, (shield_error + 'v option) \<times> pebr_seek_record) nm_prog" where
  "pebr_nm_get_inner n self k record =
     bind (pebr_seek n self k record) (\<lambda>(r, record).
       case r of
         Inl e \<Rightarrow> Ret (Inl e, record)
       | Inr _ \<Rightarrow>
           Shield_shared (leaf_shield record) (\<lambda>l. Deref l (\<lambda>leaf_node.
             if nm_key_cmp (nkey leaf_node) k \<noteq> Equal then Ret (Inr None, record)
             else case nvalue leaf_node of None \<Rightarrow> Panic | Some v \<Rightarrow> Ret (Inr (Some v), record))))"

fun pebr_nm_get_loop ::
  "nat \<Rightarrow> nat \<Rightarrow> addr \<Rightarrow> 'k::linorder \<Rightarrow> pebr_seek_record \<Rightarrow> ('k, 'v, 'v option \<times> pebr_seek_record) nm_prog" where
  "pebr_nm_get_loop 0 n self k record = Out_of_fuel"
| "pebr_nm_get_loop (Suc i) n self k record =
     bind (pebr_nm_get_inner n self k record) (\<lambda>(r, record).
       case r of
         Inr v \<Rightarrow> Ret (v, record)
       | Inl Ejected \<Rightarrow> Repin (pebr_nm_get_loop i n self k record))"

definition pebr_nm_get ::
  "nat \<Rightarrow> addr \<Rightarrow> 'k::linorder \<Rightarrow> pebr_seek_record \<Rightarrow> ('k, 'v, 'v option \<times> pebr_seek_record) nm_prog" where
  "pebr_nm_get n self k record = pebr_nm_get_loop n n self k record"

section \<open>Insertion\<close>

text \<open>Giving the two nodes of an insertion back; \<open>f\<close> makes the answer from the value taken out of the leaf.\<close>

definition pebr_take_back :: "shared \<Rightarrow> shared \<Rightarrow> ('v \<Rightarrow> 'a) \<Rightarrow> ('k, 'v, 'a) nm_prog" where
  "pebr_take_back nleaf ninternal f =
     Deref nleaf (\<lambda>nd.
       Deref_mut nleaf (nd\<lparr>nvalue := None\<rparr>) (
         case nvalue nd of
           None \<Rightarrow> Panic
         | Some v \<Rightarrow> Drop_owned nleaf (Drop_owned ninternal (Ret (f v)))))"

fun pebr_nm_insert_inner_loop ::
  "nat \<Rightarrow> nat \<Rightarrow> addr \<Rightarrow> 'k::linorder \<Rightarrow> shared \<Rightarrow> shared \<Rightarrow> pebr_seek_record \<Rightarrow>
    ('k, 'v, ('v \<times> shield_error option + unit) \<times> pebr_seek_record) nm_prog" where
  "pebr_nm_insert_inner_loop 0 n self k nleaf ninternal record = Out_of_fuel"
| "pebr_nm_insert_inner_loop (Suc i) n self k nleaf ninternal record =
     bind (pebr_seek n self k record) (\<lambda>(r, record).
       case r of
         Inl e \<Rightarrow> pebr_take_back nleaf ninternal (\<lambda>v. (Inl (v, Some e), record))
       | Inr _ \<Rightarrow>
         Shield_shared (leaf_shield record) (\<lambda>lf.
         Deref lf (\<lambda>leaf_node.
           let go = (\<lambda>new_left new_right.
             Deref ninternal (\<lambda>new_internal_node.
             Deref new_right (\<lambda>right_node.
             Deref_mut ninternal (new_internal_node\<lparr>nkey := nkey right_node\<rparr>) (
             Store (raw ninternal, Nm_left) new_left (
             Store (raw ninternal, Nm_right) new_right (
             pebr_leaf_addr record (\<lambda>la.
             Compare_and_set la lf ninternal (\<lambda>r.
               case r of
                 Inr _ \<Rightarrow> Ret (Inr (), record)
               | Inl e \<Rightarrow>
                   if with_tag e 0 = lf
                   then bind (pebr_cleanup n record) (\<lambda>_. pebr_nm_insert_inner_loop i n self k nleaf ninternal record)
                   else pebr_nm_insert_inner_loop i n self k nleaf ninternal record))))))))
           in case nm_key_cmp (nkey leaf_node) k of
                Equal \<Rightarrow> pebr_take_back nleaf ninternal (\<lambda>v. (Inl (v, None), record))
              | Greater \<Rightarrow> go nleaf lf
              | Less \<Rightarrow> go lf nleaf)))"

definition pebr_nm_insert_inner ::
  "nat \<Rightarrow> addr \<Rightarrow> 'k::linorder \<Rightarrow> 'v \<Rightarrow> pebr_seek_record \<Rightarrow>
    ('k, 'v, ('v \<times> shield_error option + unit) \<times> pebr_seek_record) nm_prog" where
  "pebr_nm_insert_inner n self k v record =
     atomic_from (new_leaf (Fin k) (Some v)) (\<lambda>nleaf.
     Owned_new \<lparr>nkey = Inf, nvalue = None\<rparr> [(Nm_left, null), (Nm_right, null)] (\<lambda>ninternal.
       pebr_nm_insert_inner_loop n n self k nleaf ninternal record))"

fun pebr_nm_insert_loop ::
  "nat \<Rightarrow> nat \<Rightarrow> addr \<Rightarrow> 'k::linorder \<Rightarrow> 'v \<Rightarrow> pebr_seek_record \<Rightarrow> ('k, 'v, ('k \<times> 'v + unit) \<times> pebr_seek_record) nm_prog" where
  "pebr_nm_insert_loop 0 n self k v record = Out_of_fuel"
| "pebr_nm_insert_loop (Suc i) n self k v record =
     bind (pebr_nm_insert_inner n self k v record) (\<lambda>(r, record).
       case r of
         Inr _ \<Rightarrow> Ret (Inr (), record)
       | Inl (v, None) \<Rightarrow> Ret (Inl (k, v), record)
       | Inl (v, Some Ejected) \<Rightarrow> Repin (pebr_nm_insert_loop i n self k v record))"

definition pebr_nm_insert ::
  "nat \<Rightarrow> addr \<Rightarrow> 'k::linorder \<Rightarrow> 'v \<Rightarrow> pebr_seek_record \<Rightarrow> ('k, 'v, ('k \<times> 'v + unit) \<times> pebr_seek_record) nm_prog" where
  "pebr_nm_insert n self k v record = pebr_nm_insert_loop n n self k v record"

section \<open>Removal\<close>

fun pebr_nm_remove_cleanup ::
  "nat \<Rightarrow> nat \<Rightarrow> addr \<Rightarrow> 'k::linorder \<Rightarrow> shared \<Rightarrow> 'v \<Rightarrow> pebr_seek_record \<Rightarrow>
    ('k, 'v, (shield_error + 'v option) \<times> pebr_seek_record) nm_prog" where
  "pebr_nm_remove_cleanup 0 n self k lf v record = Out_of_fuel"
| "pebr_nm_remove_cleanup (Suc i) n self k lf v record =
     bind (pebr_seek n self k record) (\<lambda>(r, record).
       case r of
         Inl e \<Rightarrow> Ret (Inl e, record)
       | Inr _ \<Rightarrow>
           Shield_shared (leaf_shield record) (\<lambda>l.
             if l \<noteq> lf then Ret (Inr (Some v), record)
             else bind (pebr_cleanup n record) (\<lambda>unlinked.
               if unlinked then Ret (Inr (Some v), record)
               else pebr_nm_remove_cleanup i n self k lf v record)))"

fun pebr_nm_remove_inner_loop ::
  "nat \<Rightarrow> nat \<Rightarrow> addr \<Rightarrow> 'k::linorder \<Rightarrow> pebr_seek_record \<Rightarrow>
    ('k, 'v, (shield_error + 'v option) \<times> pebr_seek_record) nm_prog" where
  "pebr_nm_remove_inner_loop 0 n self k record = Out_of_fuel"
| "pebr_nm_remove_inner_loop (Suc i) n self k record =
     bind (pebr_seek n self k record) (\<lambda>(r, record).
       case r of
         Inl e \<Rightarrow> Ret (Inl e, record)
       | Inr _ \<Rightarrow>
         Shield_shared (leaf_shield record) (\<lambda>lf.
           if is_null lf then Panic
           else Deref lf (\<lambda>leaf_node.
             if nm_key_cmp (nkey leaf_node) k \<noteq> Equal then Ret (Inr None, record)
             else case nvalue leaf_node of
               None \<Rightarrow> Panic
             | Some v \<Rightarrow>
                 pebr_leaf_addr record (\<lambda>la.
                 Compare_and_set la lf (with_tag lf (marks_new True False)) (\<lambda>r.
                   case r of
                     Inr _ \<Rightarrow>
                       bind (pebr_cleanup n record) (\<lambda>unlinked.
                         if unlinked then Ret (Inr (Some v), record)
                         else pebr_nm_remove_cleanup n n self k (Shared (raw lf) 0) v record)
                   | Inl e \<Rightarrow>
                       if lf = with_tag e 0
                       then bind (pebr_cleanup n record) (\<lambda>_. pebr_nm_remove_inner_loop i n self k record)
                       else pebr_nm_remove_inner_loop i n self k record)))))"

definition pebr_nm_remove_inner ::
  "nat \<Rightarrow> addr \<Rightarrow> 'k::linorder \<Rightarrow> pebr_seek_record \<Rightarrow> ('k, 'v, (shield_error + 'v option) \<times> pebr_seek_record) nm_prog" where
  "pebr_nm_remove_inner n self k record = pebr_nm_remove_inner_loop n n self k record"

fun pebr_nm_remove_loop ::
  "nat \<Rightarrow> nat \<Rightarrow> addr \<Rightarrow> 'k::linorder \<Rightarrow> pebr_seek_record \<Rightarrow> ('k, 'v, 'v option \<times> pebr_seek_record) nm_prog" where
  "pebr_nm_remove_loop 0 n self k record = Out_of_fuel"
| "pebr_nm_remove_loop (Suc i) n self k record =
     bind (pebr_nm_remove_inner n self k record) (\<lambda>(r, record).
       case r of
         Inr v \<Rightarrow> Ret (v, record)
       | Inl Ejected \<Rightarrow> Repin (pebr_nm_remove_loop i n self k record))"

definition pebr_nm_remove ::
  "nat \<Rightarrow> addr \<Rightarrow> 'k::linorder \<Rightarrow> pebr_seek_record \<Rightarrow> ('k, 'v, 'v option \<times> pebr_seek_record) nm_prog" where
  "pebr_nm_remove n self k record = pebr_nm_remove_loop n n self k record"

section \<open>The map\<close>

text \<open>The fuel of a call has the six extra units of the EBR version.\<close>

definition pebr_NMTreeMap_new :: "addr \<Rightarrow> ('k, 'v, unit) nm_prog" where
  "pebr_NMTreeMap_new self = pebr_nm_new self"

definition pebr_NMTreeMap_handle :: "('k, 'v, pebr_seek_record) nm_prog" where
  "pebr_NMTreeMap_handle = pebr_seek_record_new"

definition pebr_NMTreeMap_clear :: "pebr_seek_record \<Rightarrow> ('k, 'v, unit) nm_prog" where
  "pebr_NMTreeMap_clear handle = pebr_seek_record_release handle"

definition pebr_NMTreeMap_get ::
  "addr \<Rightarrow> nat \<Rightarrow> pebr_seek_record \<Rightarrow> 'k::linorder \<Rightarrow> ('k, 'v, 'v option \<times> pebr_seek_record) nm_prog" where
  "pebr_NMTreeMap_get self n handle k = pebr_nm_get (n + 6) self k handle"

definition pebr_NMTreeMap_insert ::
  "addr \<Rightarrow> nat \<Rightarrow> pebr_seek_record \<Rightarrow> 'k::linorder \<Rightarrow> 'v \<Rightarrow> ('k, 'v, bool \<times> pebr_seek_record) nm_prog" where
  "pebr_NMTreeMap_insert self n handle k v = bind (pebr_nm_insert (n + 6) self k v handle) (\<lambda>(r, handle). Ret (\<not> isl r, handle))"

definition pebr_NMTreeMap_remove ::
  "addr \<Rightarrow> nat \<Rightarrow> pebr_seek_record \<Rightarrow> 'k::linorder \<Rightarrow> ('k, 'v, 'v option \<times> pebr_seek_record) nm_prog" where
  "pebr_NMTreeMap_remove self n handle k = pebr_nm_remove (n + 6) self k handle"

end
