(* ===== verification/Pebr_Nm_Tree_Correct.thy ===== *)
theory Pebr_Nm_Tree_Correct
  imports Pebr_Nm_Tree Ebr_Nm_Tree_Correct Pebr_Concurrent_Map
begin

text \<open>
  Correctness of \<^verbatim>\<open>src/src/pebr/natarajan_mittal_tree.rs\<close> run without interference, but with a guard that may be
  ejected at any protection, finitely often.  The search is shown to refine the search of \<^verbatim>\<open>Ebr_Nm_Tree\<close>: when it succeeds,
  its four shields protect the four nodes of the record that the other one returns.  What follows a search then has the
  contracts of \<^verbatim>\<open>Ebr_Nm_Tree_Correct\<close>.
\<close>

section \<open>Memories with the same tree\<close>

lemma tree_cong:
  assumes "\<forall>a\<in>set (addrs t). nkey_at m' a = nkey_at m a"
  shows "prune m' k t = prune m k t" "above m' k t = above m k t" "graft m' k y w t = graft m k y w t"
proof -
  show "prune m' k t = prune m k t" using assms by (induction t) auto
  show "above m' k t = above m k t" using assms by (induction t) auto
  show "graft m' k y w t = graft m k y w t" using assms by (induction t) auto
qed

lemma untouched_tree:
  assumes inv: "nm_inv m self z t" and u: "untouched fs m m'"
  shows "nm_inv m' self z t" "nm_contents m' t = nm_contents m t" "seek_at m' k g gd p pd t = seek_at m k g gd p pd t"
    "target m' k t = target m k t" "prune m' k t = prune m k t" "above m' k t = above m k t" "graft m' k y w t = graft m k y w t"
proof -
  obtain s i1 i2 where z: "z = (s, i1, i2)" by (cases z)
  have nodes: "live m a \<and> a \<notin> set (garbage m)" if "a \<in> set (nm_nodes z t)" for a
    using inv that shaped_obj[of m t a] by (auto simp: z live_def)
  have selfm: "live m self" "self \<notin> set (garbage m)" "garbage_ok m" using inv by (auto simp: z live_def garbage_ok_def)
  have keep: "obj m' a = obj m a" "\<forall>f. cell m' (a, f) = cell m (a, f)" if "live m a" "a \<notin> set (garbage m)" for a
    using u that unfolding untouched_def by blast+
  have g: "statics m' = statics m" "garbage_ok m'" using u selfm(3) unfolding untouched_def by blast+
  have 1: "\<forall>a\<in>set (nm_nodes z t). obj m' a = obj m a \<and> a \<notin> set (garbage m')"
    using u nodes keep unfolding untouched_def by (auto simp del: nm_nodes.simps)
  have 2: "\<forall>a\<in>insert self (set (nm_nodes z t)). \<forall>f. cell m' (a, f) = cell m (a, f)"
    using nodes selfm keep by (auto simp del: nm_nodes.simps)
  note fr = nm_frame[OF inv g 1 2]
  show "nm_inv m' self z t" "nm_contents m' t = nm_contents m t" "seek_at m' k g gd p pd t = seek_at m k g gd p pd t"
    "target m' k t = target m k t" by (rule fr)+
  have "\<forall>a\<in>set (addrs t). nkey_at m' a = nkey_at m a" using 1 by (auto simp: z nkey_at_def)
  then show "prune m' k t = prune m k t" "above m' k t = above m k t" "graft m' k y w t = graft m k y w t" by (rule tree_cong)+
qed

section \<open>Search\<close>

definition ids :: "pebr_seek_record \<Rightarrow> nat list" where
  "ids rec = [ancestor_shield rec, successor_shield rec, parent_shield rec, leaf_shield rec]"

text \<open>The shields of a record protect the nodes of a record of the other implementation.\<close>

definition held :: "pebr_seek_record \<Rightarrow> ('k, 'v) nm_mem \<Rightarrow> seek_record \<Rightarrow> bool" where
  "held rec m rc \<longleftrightarrow> shield m (ancestor_shield rec) = Some (ancestor rc) \<and> shield m (successor_shield rec) = Some (successor rc) \<and>
     shield m (parent_shield rec) = Some (parent rc) \<and> shield m (leaf_shield rec) = Some (leaf rc) \<and>
     pebr_successor_dir rec = successor_dir rc \<and> pebr_leaf_dir rec = leaf_dir rc"

definition sought ::
  "(seek_record \<Rightarrow> bool) \<Rightarrow> ('k, 'v) nm_mem \<Rightarrow> ('k, 'v) nm_mem \<Rightarrow> pebr_seek_record \<Rightarrow>
    (shield_error + unit) \<times> pebr_seek_record \<Rightarrow> ('k, 'v) nm_mem \<Rightarrow> bool" where
  "sought Q m m1 rec x m' \<longleftrightarrow> same_data m m' \<and> shields_step (ids rec) m1 (ids (snd x)) m' \<and>
     (case fst x of Inl e \<Rightarrow> ejections m' < ejections m1 | Inr _ \<Rightarrow> \<exists>rc. held (snd x) m' rc \<and> Q rc)"

lemma sought_trans:
  "shields_step (ids rec) m1 (ids rec2) m2 \<Longrightarrow> sought Q m m2 rec2 x m' \<Longrightarrow> sought Q m m1 rec x m'"
  unfolding sought_def using shields_step_trans[of "ids rec" m1 "ids rec2" m2 "ids (snd x)" m']
  by (auto simp: shields_step_def split: sum.splits)

text \<open>One step of the loop after the ancestor and the successor have been dealt with.\<close>

lemma seek_advance_wp:
  assumes rec: "shields_ok (ids rec) m1" "held rec m1 rc" "same_data m m1" and nd: "obj m (raw cur) = Some nd"
    and new: "rec2 = rec\<lparr>parent_shield := leaf_shield rec, leaf_shield := parent_shield rec\<rparr>" "rec3 = rec2\<lparr>pebr_leaf_dir := d\<rparr>"
    and IH: "\<And>m2. same_data m m2 \<Longrightarrow> held rec3 m2 (rc\<lparr>parent := leaf rc, leaf := with_tag cur 0, leaf_dir := d\<rparr>) \<Longrightarrow>
      shields_ok (ids rec3) m2 \<Longrightarrow> wp (K nd (with_tag cur 0)) (sought Q m m2 rec3) m2"
  shows "wp (Defend (leaf_shield rec2) (with_tag cur 0) (\<lambda>d.
      case d of Inl e \<Rightarrow> Ret (Inl e, rec2)
      | Inr _ \<Rightarrow> Shield_shared (leaf_shield rec3) (\<lambda>p. Deref p (\<lambda>nd. K nd p)))) (sought Q m m1 rec) m1"
proof -
  have sh: "shields_step (ids rec) m1 (ids rec3) (set_shield (leaf_shield rec2) q m1)"
    "shields_step (ids rec) m1 (ids rec2) (use_ejection (set_shield (leaf_shield rec2) q m1))" if "q \<noteq> None" for q
    using rec(1) that by (auto simp: shields_step_def shields_ok_def ids_def new)
  let ?m2 = "set_shield (leaf_shield rec2) (Some (with_tag cur 0)) m1"
  have "held rec3 ?m2 (rc\<lparr>parent := leaf rc, leaf := with_tag cur 0, leaf_dir := d\<rparr>)"
    using rec(1,2) by (auto simp: held_def ids_def shields_ok_def new)
  then have "wp (K nd (with_tag cur 0)) (sought Q m ?m2 rec3) ?m2"
    using rec(3) shields_step_ok[OF sh(1)[of "Some (with_tag cur 0)"]] by (intro IH) simp_all
  then have "wp (K nd (with_tag cur 0)) (sought Q m m1 rec) ?m2"
    by (rule wp_mono) (rule sought_trans[OF sh(1)], simp_all)
  moreover have "sought Q m m1 rec (Inl e, rec2) (use_ejection (set_shield (leaf_shield rec2) (Some q) m1))" if "0 < ejections m1" for e q
    using sh(2)[of "Some q"] rec(3) that by (simp add: sought_def)
  moreover have "shield m1 (leaf_shield rec2) \<noteq> None" "leaf_shield rec3 = leaf_shield rec2" using rec(1) by (auto simp: shields_ok_def ids_def new)
  moreover have "obj m1 (raw cur) = Some nd" using rec(3) nd by (simp add: same_data_def)
  ultimately show ?thesis by simp
qed

lemma pebr_seek_loop_wp:
  fixes m :: "('k::linorder, 'v) nm_mem"
  assumes "wp (seek_loop n k rc prev_tag d cur) (\<lambda>r _. Q r) m" "same_data m m1" "held rec m1 rc" "shields_ok (ids rec) m1"
  shows "wp (pebr_seek_loop n k rec prev_tag d cur) (sought Q m m1 rec) m1"
  using assms
proof (induction n arbitrary: rc prev_tag d cur m1 rec)
  case (Suc n)
  show ?case
  proof (cases "is_null cur")
    case True
    with Suc.prems show ?thesis by (auto simp: sought_def)
  next
    case False
    let ?rc = "if \<not> prev_tag then rc\<lparr>ancestor := parent rc, successor := leaf rc, successor_dir := leaf_dir rc\<rparr> else rc"
    let ?rc' = "?rc\<lparr>parent := leaf ?rc, leaf := with_tag cur 0, leaf_dir := d\<rparr>" and ?tag = "marks_tag (from_bits_truncate (tag cur))"
    obtain nd where nd: "obj m (raw cur) = Some nd"
      and go: "nm_key_cmp (nkey nd) k = Greater \<Longrightarrow> live m (raw cur) \<and> wp (seek_loop n k ?rc' ?tag Dir_L (cell m (raw cur, Nm_left))) (\<lambda>r _. Q r) m"
        "nm_key_cmp (nkey nd) k \<noteq> Greater \<Longrightarrow> live m (raw cur) \<and> wp (seek_loop n k ?rc' ?tag Dir_R (cell m (raw cur, Nm_right))) (\<lambda>r _. Q r) m"
      using Suc.prems(1) False by (auto simp: Let_def split: if_splits)
    define K :: "pebr_seek_record \<Rightarrow> ('k, 'v) nm_node \<Rightarrow> shared \<Rightarrow> ('k, 'v, (shield_error + unit) \<times> pebr_seek_record) nm_prog"
      where "K rec nd p = (if nm_key_cmp (nkey nd) k = Greater
      then Load (raw p, Nm_left) (\<lambda>cur. pebr_seek_loop n k rec ?tag Dir_L cur)
      else Load (raw p, Nm_right) (\<lambda>cur. pebr_seek_loop n k rec ?tag Dir_R cur))"
      for rec nd p
    define A where "A rec = (let record = rec\<lparr>parent_shield := leaf_shield rec, leaf_shield := parent_shield rec\<rparr> in
      Defend (leaf_shield record) (with_tag cur 0) (\<lambda>e. case e of Inl e \<Rightarrow> Ret (Inl e, record)
      | Inr _ \<Rightarrow> Shield_shared (leaf_shield (record\<lparr>pebr_leaf_dir := d\<rparr>)) (\<lambda>p. Deref p (\<lambda>nd. K (record\<lparr>pebr_leaf_dir := d\<rparr>) nd p))))" for rec
    have adv: "wp (A rec2) (sought Q m m2 rec2) m2" if r: "shields_ok (ids rec2) m2" "held rec2 m2 ?rc" "same_data m m2" for rec2 m2
      unfolding A_def Let_def
    proof (rule seek_advance_wp[OF r nd refl refl])
      fix m3 let ?rec3 = "rec2\<lparr>parent_shield := leaf_shield rec2, leaf_shield := parent_shield rec2\<rparr>\<lparr>pebr_leaf_dir := d\<rparr>"
      assume m3: "same_data m m3" "held ?rec3 m3 ?rc'" "shields_ok (ids ?rec3) m3"
      have "cell m3 = cell m" "live m3 = live m" using m3(1) same_data_basic(1)[OF m3(1)] by (simp_all add: same_data_def)
      with go Suc.IH[OF _ m3] show "wp (K ?rec3 nd (with_tag cur 0)) (sought Q m m3 ?rec3) m3" by (auto simp: K_def)
    qed
    have eq: "pebr_seek_loop (Suc n) k rec prev_tag d cur = (if \<not> prev_tag
           then Shield_shared (parent_shield rec) (\<lambda>p.
             Defend (ancestor_shield rec) p (\<lambda>e. case e of Inl e \<Rightarrow> Ret (Inl e, rec)
               | Inr _ \<Rightarrow> Shield_shared (leaf_shield rec) (\<lambda>l.
                     Defend (successor_shield rec) l (\<lambda>e. case e of Inl e \<Rightarrow> Ret (Inl e, rec)
                       | Inr _ \<Rightarrow> A (rec\<lparr>pebr_successor_dir := pebr_leaf_dir rec\<rparr>)))))
           else A rec)"
      by (simp only: pebr_seek_loop.simps A_def K_def Let_def False if_False)
    show ?thesis
    proof (cases prev_tag)
      case True
      with adv[of rec m1] Suc.prems show ?thesis unfolding eq by simp
    next
      case tag: False
      let ?rec = "rec\<lparr>pebr_successor_dir := pebr_leaf_dir rec\<rparr>"
      let ?m2 = "set_shield (successor_shield rec) (Some (leaf rc)) (set_shield (ancestor_shield rec) (Some (parent rc)) m1)"
      have d: "distinct (ids rec)" "\<forall>i\<in>set (ids rec). shield m1 i \<noteq> None" using Suc.prems(4) by (auto simp: shields_ok_def)
      have st: "shields_step (ids rec) m1 (ids ?rec) ?m2" using d by (auto simp: shields_step_def shields_ok_def ids_def)
      have "held ?rec ?m2 ?rc" using Suc.prems(3) d(1) tag by (auto simp: held_def ids_def)
      then have "wp (A ?rec) (sought Q m ?m2 ?rec) ?m2"
        using Suc.prems(2) shields_step_ok[OF st] by (intro adv) simp_all
      then have "wp (A ?rec) (sought Q m m1 rec) ?m2" by (rule wp_mono) (rule sought_trans[OF st])
      moreover have "sought Q m m1 rec (Inl e, rec) (use_ejection (set_shield i (Some q) m2))"
        if "0 < ejections m2" "i \<in> set (ids rec)" "shields_step (ids rec) m1 (ids rec) m2" "same_data m m2" for e i q m2
        using that by (auto simp: sought_def shields_step_def shields_ok_def)
      moreover have "shields_step (ids rec) m1 (ids rec) (set_shield (ancestor_shield rec) (Some (parent rc)) m1)"
        using d by (auto simp: shields_step_def shields_ok_def ids_def)
      ultimately show ?thesis
        unfolding eq using tag Suc.prems(2-4) d by (auto simp: held_def ids_def)
    qed
  qed
qed simp

lemma pebr_seek_wp:
  assumes inv: "nm_inv m self (s, i1, i2) t" and n: "depth t + 2 \<le> n" and rec: "shields_ok (ids rec) m"
  shows "wp (pebr_seek n self k rec) (sought (\<lambda>rc. rc = seek_at m k self Dir_L s Dir_L t) m m rec) m"
proof -
  let ?Q = "\<lambda>rc. rc = seek_at m k self Dir_L s Dir_L t"
  let ?rc = "\<lparr>ancestor = Shared self 0, successor = Shared s 0, successor_dir = Dir_L, parent = Shared s 0, leaf = Shared (apex t) 0, leaf_dir = Dir_L\<rparr>"
  have live: "live m self" "live m s" "live m (apex t)" "cell m (self, Nm_left) = Shared s 0" "cell m (s, Nm_left) = Shared (apex t) 0"
    using inv shaped_obj[of m t "apex t"] by (auto simp: live_def)
  have go: "wp (seek_loop n k ?rc False Dir_L (cell m (apex t, Nm_left))) (\<lambda>r _. ?Q r) m"
    using seek_wp[OF inv n, of k] live by (simp add: seek_def Let_def with_tag_def) (auto elim: wp_mono)
  let ?rec1 = "rec\<lparr>pebr_successor_dir := Dir_L\<rparr>" and ?rec = "rec\<lparr>pebr_successor_dir := Dir_L, pebr_leaf_dir := Dir_L\<rparr>"
  let ?m1 = "set_shield (parent_shield rec) (Some (Shared s 0)) (set_shield (successor_shield rec) (Some (Shared s 0))
    (set_shield (ancestor_shield rec) (Some (Shared self 0)) m))"
  let ?m2 = "set_shield (leaf_shield rec) (Some (Shared (apex t) 0)) ?m1"
  have d: "distinct (ids rec)" "\<forall>i\<in>set (ids rec). shield m i \<noteq> None" using rec by (auto simp: shields_ok_def)
  have st: "shields_step (ids rec) m (ids ?rec) ?m2"
    "\<And>q. shields_step (ids rec) m (ids ?rec1) (use_ejection (set_shield (leaf_shield rec) (Some q) ?m1))"
    using d by (auto simp: shields_step_def shields_ok_def ids_def)
  have sd: "same_data m ?m2" "live ?m2 (apex t)" "live ?m1 s" using live by simp_all
  have "held ?rec ?m2 ?rc" using d(1) by (auto simp: held_def ids_def)
  from pebr_seek_loop_wp[OF go sd(1) this shields_step_ok[OF st(1)]]
  have main: "wp (pebr_seek_loop n k ?rec False Dir_L (cell m (apex t, Nm_left))) (sought ?Q m m rec) ?m2"
    by (rule wp_mono) (rule sought_trans[OF st(1)])
  have "sought ?Q m m rec (Inl e, ?rec1) (use_ejection (set_shield (leaf_shield rec) (Some q) ?m1))" if "0 < ejections m" for e q
    using st(2)[of q] that by (simp add: sought_def)
  with main live sd d show ?thesis by (simp add: pebr_seek_def Let_def with_tag_def ids_def)
qed

text \<open>How a search on a well-formed tree can end: ejected, or with the record of the other implementation.\<close>

lemma pebr_seek_cases:
  assumes "sought (\<lambda>rc. rc = seek_at m k self Dir_L s Dir_L t) m m rec x m'"
  obtains (ejected) rec' where "x = (Inl Ejected, rec')" "ejections m' < ejections m" "same_data m m'" "shields_step (ids rec) m (ids rec') m'"
  | (settled) rec' where "x = (Inr (), rec')" "held rec' m' (seek_at m k self Dir_L s Dir_L t)" "same_data m m'" "shields_step (ids rec) m (ids rec') m'"
  using assms by (cases x; cases "fst x"; cases "projl (fst x)") (auto simp: sought_def)

section \<open>Clean-up\<close>

lemma pebr_destroy_subtree_eq: "pebr_destroy_subtree n ts stack = destroy_subtree n ts stack"
  by (induction n ts stack rule: pebr_destroy_subtree.induct) (auto simp: fun_eq_iff)

lemma pebr_leaf_addr_wp: "held rec m rc \<Longrightarrow> wp (pebr_leaf_addr rec K) Q m = wp (K (leaf_addr rc)) Q m"
  by (simp add: pebr_leaf_addr_def held_def leaf_addr_def)

lemma held_set_cell [simp]: "held rec (set_cell l p m) rc = held rec m rc"
  by (simp add: held_def)

lemma pebr_cleanup_wp:
  assumes "held rec m rc"
  shows "wp (pebr_cleanup n rec) Q m = wp (cleanup n rc) Q m"
proof -
  note h = assms[unfolded held_def]
  have sib: "wp (pebr_leaf_sibling_addr rec K) Q m = wp (K (leaf_sibling_addr rc)) Q m" for K
    using h by (simp add: pebr_leaf_sibling_addr_def leaf_sibling_addr_def)
  have suc: "wp (pebr_successor_addr rec K) Q m' = wp (K (successor_addr rc)) Q m'" if "shield m' = shield m" for K m'
    using h that by (simp add: pebr_successor_addr_def successor_addr_def)
  show ?thesis
    using h by (simp add: pebr_cleanup_def cleanup_def Let_def pebr_leaf_addr_wp[OF assms] sib suc pebr_destroy_subtree_eq
        split: if_split) 
qed

section \<open>Attempts and retries\<close>

text \<open>
  One attempt of an operation either is ejected, having changed nothing in use, or has the effect \<open>P\<close>.
\<close>

definition attempted ::
  "('r \<Rightarrow> ('k, 'v) nm_mem \<Rightarrow> bool) \<Rightarrow> ('k, 'v) nm_mem \<Rightarrow> pebr_seek_record \<Rightarrow> (shield_error + 'r) \<times> pebr_seek_record \<Rightarrow> ('k, 'v) nm_mem \<Rightarrow> bool" where
  "attempted P m rec x m' \<longleftrightarrow> shields_step (ids rec) m (ids (snd x)) m' \<and>
     (case fst x of Inl _ \<Rightarrow> ejections m' < ejections m \<and> same_data m m' | Inr r \<Rightarrow> P r m')"

lemma shields_step_reclaim: "shields_step is m js m' \<Longrightarrow> shields_step is m js (reclaim R m')"
  by (rule shields_step_same) simp_all

lemma retry_wp:
  fixes loop :: "nat \<Rightarrow> pebr_seek_record \<Rightarrow> ('k, 'v, 'r \<times> pebr_seek_record) nm_prog"
  assumes loop: "\<And>i rec. loop (Suc i) rec = bind (inner rec) (\<lambda>(r, rec). case r of Inr v \<Rightarrow> Ret (v, rec) | Inl Ejected \<Rightarrow> Repin (loop i rec))"
    and inner: "\<And>m rec. I m \<Longrightarrow> shields_ok (ids rec) m \<Longrightarrow> wp (inner rec) (attempted (P m) m rec) m"
    and I: "\<And>m m'. I m \<Longrightarrow> untouched [] m m' \<Longrightarrow> I m'"
    and P: "\<And>m m1 r m'. I m \<Longrightarrow> untouched [] m m1 \<Longrightarrow> P m1 r m' \<Longrightarrow> P m r m'"
    and "I m" "shields_ok (ids rec) m" "ejections m < i"
  shows "wp (loop i rec) (\<lambda>(r, rec') m'. shields_step (ids rec) m (ids rec') m' \<and> P m r m') m"
  using assms(5-)
proof (induction i arbitrary: m rec)
  case (Suc i)
  show ?case
    unfolding loop
  proof (rule wp_bind_mono[OF inner[OF Suc.prems(1,2)]], goal_cases)
    case (1 x m')
    obtain r rec' where x: "x = (r, rec')" by (cases x)
    with 1 have st: "shields_step (ids rec) m (ids rec') m'" by (simp add: attempted_def)
    show ?case
    proof (cases r)
      case (Inr v)
      with 1 x st show ?thesis by (simp add: attempted_def)
    next
      case (Inl e)
      with 1 x have e: "ejections m' < ejections m" "same_data m m'" by (simp_all add: attempted_def)
      have "wp (loop i rec') (\<lambda>(r, rec') m'. shields_step (ids rec) m (ids rec') m' \<and> P m r m') (reclaim R m')" for R
      proof -
        have u: "untouched [] m (reclaim R m')"
          using untouched_trans[OF untouched_same_data[OF e(2)] untouched_reclaim] by simp
        note s = shields_step_reclaim[OF st, of R]
        have "wp (loop i rec') (\<lambda>(r, rec2) m2. shields_step (ids rec') (reclaim R m') (ids rec2) m2 \<and> P (reclaim R m') r m2) (reclaim R m')"
          using Suc.prems e I[OF Suc.prems(1) u] shields_step_ok[OF s] by (intro Suc.IH) simp_all
        then show ?thesis
          by (rule wp_mono) (auto intro: shields_step_trans[OF s] P[OF Suc.prems(1) u])
      qed
      with Inl x show ?thesis by (cases e) simp
    qed
  qed
qed simp

section \<open>Lookup\<close>

lemma pebr_nm_get_inner_wp:
  assumes inv: "nm_inv m self (s, i1, i2) t" and n: "depth t + 2 \<le> n" and rec: "shields_ok (ids rec) m"
  shows "wp (pebr_nm_get_inner n self k rec) (attempted (\<lambda>r m'. untouched [] m m' \<and> r = nm_contents m t k) m rec) m"
  unfolding pebr_nm_get_inner_def
proof (rule wp_bind_mono[OF pebr_seek_wp[OF inv n rec, of k]], goal_cases)
  case (1 x m')
  then show ?case
  proof (cases rule: pebr_seek_cases)
    case (ejected rec')
    then show ?thesis by (simp add: attempted_def)
  next
    case (settled rec')
    note lk = nm_lookup[OF inv, of k]
    obtain nd where nd: "obj m (target m k t) = Some nd" using lk(3) by blast
    then have "nkey_at m (target m k t) = nkey nd" "nval_at m (target m k t) = nvalue nd" by (simp_all add: nkey_at_def nval_at_def)
    with settled nd lk(1,2) untouched_same_data[OF settled(3)] show ?thesis
      by (auto simp: attempted_def held_def same_data_def split: option.splits)
  qed
qed

lemma pebr_nm_get_wp:
  assumes inv: "nm_inv m self z t" and n: "depth t + 2 \<le> n" "ejections m < n" and rec: "shields_ok (ids rec) m"
  shows "wp (pebr_nm_get n self k rec)
    (\<lambda>(r, rec') m'. shields_step (ids rec) m (ids rec') m' \<and> untouched [] m m' \<and> r = nm_contents m t k) m"
  unfolding pebr_nm_get_def
proof (rule retry_wp[where I = "\<lambda>m. nm_inv m self z t" and P = "\<lambda>m r m'. untouched [] m m' \<and> r = nm_contents m t k"
      and loop = "\<lambda>i rec. pebr_nm_get_loop i n self k rec" and inner = "pebr_nm_get_inner n self k"], goal_cases)
  case (2 m rec)
  then show ?case using n by (cases z) (simp add: pebr_nm_get_inner_wp del: nm_inv.simps)
next
  case (3 m m') then show ?case by (rule untouched_tree)
next
  case (4 m m1 r m')
  then show ?case using untouched_tree(2)[OF 4(1,2)] untouched_trans[OF 4(2), of "[]" m'] by simp
qed (use assms in simp_all)

section \<open>Removal\<close>

lemma pebr_nm_remove_inner_wp:
  assumes inv: "nm_inv m self (s, i1, i2) t" and n: "depth t + 6 \<le> n" and rec: "shields_ok (ids rec) m"
  shows "wp (pebr_nm_remove_inner n self k rec)
    (attempted (\<lambda>r m'. \<exists>m1. untouched [] m m1 \<and> remove_post m1 self (s, i1, i2) t k r m') m rec) m" (is "wp _ ?A m")
proof -
  define A where "A = ?A"
  from n obtain i where i: "n = Suc i" by (cases n) auto
  have n2: "depth t + 2 \<le> n" using n by simp
  show ?thesis
    unfolding A_def[symmetric] pebr_nm_remove_inner_def i pebr_nm_remove_inner_loop.simps
    unfolding i[symmetric]
  proof (rule wp_bind_mono[OF pebr_seek_wp[OF inv n2 rec, of k]], goal_cases)
    case (1 x m')
    then show ?case
    proof (cases rule: pebr_seek_cases)
      case (ejected rec')
      then show ?thesis by (simp add: A_def attempted_def)
    next
      case (settled rec')
      note u = untouched_same_data[OF settled(3)]
      note ut = untouched_tree[OF inv u]
      let ?x = "target m' k t" and ?rc = "seek_at m' k self Dir_L s Dir_L t"
      have held: "held rec' m' ?rc" using settled(2) ut(3) by simp
      note lk = nm_lookup[OF ut(1), of k]
      obtain nd where nd: "obj m' ?x = Some nd" using lk(3) by blast
      have nk: "nkey_at m' ?x = nkey nd" "nval_at m' ?x = nvalue nd" using nd by (simp_all add: nkey_at_def nval_at_def)
      have post: "A (Inr r, rec') m2"
        if "remove_post m' self (s, i1, i2) t k r m2" "shield m2 = shield m'" "ejections m2 = ejections m'" for r m2
        using that u settled(4) shields_step_same by (auto simp: A_def attempted_def)
      show ?thesis
      proof (cases "nkey nd = Fin k")
        case False
        then have "remove_post m' self (s, i1, i2) t k None m'" using lk(1) nk by (simp add: remove_post_def)
        from post[OF this] settled(1) held nd lk(4) False show ?thesis by (simp add: is_null_def held_def)
      next
        case True
        then have old: "nkey_at m' ?x = Fin k" using nk by simp
        then obtain v where v: "nvalue nd = Some v" "nm_contents m' t k = Some v" using lk(1,2) nk by auto
        obtain f where f: "leaf_addr ?rc = (above m' k t, f)" "cell m' (above m' k t, f) = Shared ?x 0" "obj m' (above m' k t) \<noteq> None"
          by (rule seek_found[OF ut(1) old refl])
        let ?m = "set_cell (leaf_addr ?rc) (Shared ?x 2) m'"
        have "wp (cleanup n ?rc) (\<lambda>b m2. b \<and> removed m' self (s, i1, i2) t k m2) ?m"
          by (rule cleanup_wp[OF ut(1) old _ refl]) (use n in simp)
        then have "wp (pebr_cleanup n rec') (\<lambda>b m2. b \<and> removed m' self (s, i1, i2) t k m2) ?m"
          using pebr_cleanup_wp[of rec' ?m ?rc] held by simp
        then have "wp (bind (pebr_cleanup n rec') (\<lambda>unlinked. if unlinked then Ret (Inr (Some v), rec')
              else pebr_nm_remove_cleanup n n self k (Shared (raw (Shared ?x 0)) 0) v rec'))
            A ?m"
        proof (rule wp_bind_mono, goal_cases)
          case (1 b m2)
          with v have "remove_post m' self (s, i1, i2) t k (Some v) m2" by (simp add: remove_post_def)
          from post[OF this] 1 show ?case by (simp add: removed_def)
        qed
        with settled(1) held[unfolded held_def] nd lk(4) v f True show ?thesis
          by (simp add: is_null_def live_def with_tag_def pebr_leaf_addr_wp[OF held])
      qed
    qed
  qed
qed

lemma pebr_nm_remove_wp:
  assumes inv: "nm_inv m self z t" and n: "depth t + 6 \<le> n" "ejections m < n" and rec: "shields_ok (ids rec) m"
  shows "wp (pebr_nm_remove n self k rec) (\<lambda>(r, rec') m'. shields_step (ids rec) m (ids rec') m' \<and>
      (\<exists>m1. untouched [] m m1 \<and> remove_post m1 self z t k r m')) m"
  unfolding pebr_nm_remove_def
proof (rule retry_wp[where I = "\<lambda>m. nm_inv m self z t" and P = "\<lambda>m r m'. \<exists>m1. untouched [] m m1 \<and> remove_post m1 self z t k r m'"
      and loop = "\<lambda>i rec. pebr_nm_remove_loop i n self k rec" and inner = "pebr_nm_remove_inner n self k"], goal_cases)
  case (2 m rec)
  then show ?case using n by (cases z) (simp add: pebr_nm_remove_inner_wp del: nm_inv.simps)
next
  case (3 m m') then show ?case by (rule untouched_tree)
next
  case (4 m m1 r m')
  then show ?case using untouched_trans[OF 4(2)] by fastforce
qed (use assms in simp_all)

section \<open>Insertion\<close>

lemma same_data_prepared:
  assumes "same_data (prepared m y w k v) m'"
  obtains m1 where "m' = prepared m1 y w k v" "same_data m m1" "shield m1 = shield m'" "ejections m1 = ejections m'"
proof
  let ?m = "m\<lparr>shield := shield m', ejections := ejections m'\<rparr>"
  show "m' = prepared ?m y w k v" using assms by (simp add: same_data_def prepared_def alloc_def)
  show "same_data m ?m" by (simp add: same_data_def)
qed simp_all

lemma pebr_take_back_wp:
  assumes inv: "nm_inv m self (s, i1, i2) t" and f: "fresh m y" "fresh m w" "y \<noteq> w"
  shows "wp (pebr_take_back (Shared y 0) (Shared w 0) g)
    (\<lambda>x m'. x = g v \<and> untouched [y, w] m m' \<and> shield m' = shield m \<and> ejections m' = ejections m \<and>
      (nm_contents m t k \<noteq> None \<longrightarrow> insert_post m self (s, i1, i2) t k v (Inl (k, v)) m')) (prepared m y w k v)"
proof -
  let ?m = "free w (free y (set_obj y \<lparr>nkey = Fin k, nvalue = None\<rparr> (prepared m y w k v)))"
  note pf = prepared_frame[OF inv f]
  have fo: "obj m y = None" "obj m w = None" "y \<notin> statics m" "w \<notin> statics m" using f by (auto simp: fresh_def)
  have ob: "obj ?m = obj m" using fo f(3) by (auto simp: prepared_fields fun_eq_iff)
  have u: "untouched [y, w] m ?m"
    using fo ob by (auto simp: untouched_def prepared_fields live_def garbage_ok_def)
  have "insert_post m self (s, i1, i2) t k v (Inl (k, v)) ?m" if "nm_contents m t k \<noteq> None"
    using take_back_wp[OF inv f that, of v] f(3) pf(4) by (simp add: take_back_def prepared_fields)
  with u f(3) pf(4) show ?thesis by (auto simp: pebr_take_back_def prepared_fields)
qed

text \<open>One attempt: ejected, with its two nodes freed again, or with the effect of an insertion.\<close>

definition insert_tried ::
  "('k::linorder, 'v) nm_mem \<Rightarrow> addr \<Rightarrow> sentinels \<Rightarrow> nm_tree \<Rightarrow> 'k \<Rightarrow> 'v \<Rightarrow> pebr_seek_record \<Rightarrow>
    ('v \<times> shield_error option + unit) \<times> pebr_seek_record \<Rightarrow> ('k, 'v) nm_mem \<Rightarrow> bool" where
  "insert_tried m self z t k v rec x m' \<longleftrightarrow> shields_step (ids rec) m (ids (snd x)) m' \<and>
     (case fst x of
        Inl (v', Some _) \<Rightarrow> v' = v \<and> ejections m' < ejections m \<and> (\<exists>y w. untouched [y, w] m m')
      | Inl (v', None) \<Rightarrow> v' = v \<and> (\<exists>m1. untouched [] m m1 \<and> insert_post m1 self z t k v (Inl (k, v)) m')
      | Inr _ \<Rightarrow> \<exists>m1. untouched [] m m1 \<and> insert_post m1 self z t k v (Inr ()) m')"

lemma insert_tried_done:
  assumes "insert_post m1 self z t k v r m'" "untouched [] m m1" "shields_step (ids rec) m (ids rec') m1"
    and "r = Inl (k, v) \<and> x = Inl (v, None) \<or> r = Inr () \<and> x = Inr ()"
  shows "insert_tried m self z t k v rec (x, rec') m'"
proof -
  have "shields_step (ids rec) m (ids rec') m'" using assms(1) by (intro shields_step_same[OF assms(3)]) (simp_all add: insert_post_def)
  with assms show ?thesis by (auto simp: insert_tried_def)
qed

text \<open>After a successful search, in the memory \<open>prepared m1 y w k v\<close>.\<close>

lemma insert_place_wp:
  assumes inv: "nm_inv m1 self (s, i1, i2) t" and f: "fresh m1 y" "fresh m1 w" "y \<noteq> w"
    and held: "held rec (prepared m1 y w k v) (seek_at m1 k self Dir_L s Dir_L t)"
    and A: "\<And>r m' x. insert_post m1 self (s, i1, i2) t k v r m' \<Longrightarrow>
      r = Inl (k, v) \<and> x = Inl (v, None) \<or> r = Inr () \<and> x = Inr () \<Longrightarrow> A (x, rec) m'"
  shows "wp (Shield_shared (leaf_shield rec) (\<lambda>lf. Deref lf (\<lambda>leaf_node.
           let go = (\<lambda>new_left new_right.
             Deref (Shared w 0) (\<lambda>new_internal_node.
             Deref new_right (\<lambda>right_node.
             Deref_mut (Shared w 0) (new_internal_node\<lparr>nkey := nkey right_node\<rparr>) (
             Store (raw (Shared w 0), Nm_left) new_left (
             Store (raw (Shared w 0), Nm_right) new_right (
             pebr_leaf_addr rec (\<lambda>la.
             Compare_and_set la lf (Shared w 0) (\<lambda>r.
               case r of Inr _ \<Rightarrow> Ret (Inr (), rec) | Inl e \<Rightarrow> F lf e))))))))
           in case nm_key_cmp (nkey leaf_node) k of
                Equal \<Rightarrow> pebr_take_back (Shared y 0) (Shared w 0) (\<lambda>v. (Inl (v, None), rec))
              | Greater \<Rightarrow> go (Shared y 0) lf
              | Less \<Rightarrow> go lf (Shared y 0)))) A (prepared m1 y w k v)"
proof -
  let ?x = "target m1 k t" and ?rc = "seek_at m1 k self Dir_L s Dir_L t" and ?p = "prepared m1 y w k v"
  note pf = prepared_frame[OF inv f] and lk = nm_lookup[OF inv, of k]
  obtain nd where nd: "obj m1 ?x = Some nd" using lk(3) by blast
  have nk: "nkey_at m1 ?x = nkey nd" using nd by (simp add: nkey_at_def)
  have "?x \<in> set (addrs t)" using leaves_addrs target_leaf by blast
  then have xn: "?x \<noteq> y" "?x \<noteq> w" using pf(4) by auto
  have "fst (leaf_addr ?rc) = s \<or> fst (leaf_addr ?rc) \<in> set (addrs t)" using leaf_addr_cases[of m1 k self Dir_L s Dir_L t] by auto
  then have lw: "fst (leaf_addr ?rc) \<noteq> y" "fst (leaf_addr ?rc) \<noteq> w" "live ?p (fst (leaf_addr ?rc))"
    using pf(4) inv shaped_obj[of m1 t "fst (leaf_addr ?rc)"] by (auto simp: live_def)
  have "cell m1 (leaf_addr ?rc) = Shared ?x 0" by (rule leaf_edge) (use inv in auto)
  with lw have ce: "cell ?p (leaf_addr ?rc) = Shared ?x 0" by (cases "leaf_addr ?rc") simp
  obtain q e where qe: "leaf_addr ?rc = (q, e)" by (cases "leaf_addr ?rc")
  have lf: "shield m1 (leaf_shield rec) = Some (Shared ?x 0)" using held by (simp add: held_def)
  have la: "wp (pebr_leaf_addr rec K) A m' = wp (K (leaf_addr ?rc)) A m'" if "shield m' = shield m1" for K m'
    by (rule pebr_leaf_addr_wp) (use held that in \<open>simp add: held_def\<close>)
  note facts = nd xn lw ce qe lf f(3) nk
  show ?thesis
  proof (cases "nkey nd" "Fin k" rule: linorder_cases)
    case equal
    then have "nm_contents m1 t k \<noteq> None" using lk(1,2) nk by simp
    then have "wp (pebr_take_back (Shared y 0) (Shared w 0) (\<lambda>v. (Inl (v, None), rec))) A ?p"
      using A by (intro wp_mono[OF pebr_take_back_wp[OF inv f]]) auto
    with equal facts show ?thesis by (simp add: nm_key_cmp_eq Let_def del: nm_key_cmp_simps)
  next
    case less
    then have new: "nm_contents m1 t k = None" "\<not> Fin k < nkey_at m1 ?x" "max (Fin k) (nkey_at m1 ?x) = Fin k" using lk(1) nk by auto
    from A[OF place_inv[OF inv f new(1) refl refl refl refl, of v], of "Inr ()"] new(2,3) less facts show ?thesis
      by (simp add: nm_key_cmp_eq live_def la Let_def del: nm_key_cmp_simps)
  next
    case greater
    then have new: "nm_contents m1 t k = None" "Fin k < nkey_at m1 ?x" "max (Fin k) (nkey_at m1 ?x) = nkey nd"
      "nkey nd \<noteq> Fin k" "\<not> nkey nd < Fin k" using lk(1) nk by auto
    from A[OF place_inv[OF inv f new(1) refl refl refl refl, of v], of "Inr ()"] new(2-5) facts show ?thesis
      by (simp add: nm_key_cmp_eq live_def la Let_def del: nm_key_cmp_simps)
  qed
qed

lemma pebr_nm_insert_inner_wp:
  assumes inv: "nm_inv m self (s, i1, i2) t" and n: "depth t + 2 \<le> n" and rec: "shields_ok (ids rec) m"
  shows "wp (pebr_nm_insert_inner n self k v rec) (insert_tried m self (s, i1, i2) t k v rec) m"
proof -
  from n obtain i where i: "n = Suc i" by (cases n) auto
  have "wp (pebr_nm_insert_inner_loop n n self k (Shared y 0) (Shared w 0) rec) (insert_tried m self (s, i1, i2) t k v rec) (prepared m y w k v)"
    if f: "fresh m y" "fresh m w" "y \<noteq> w" for y w
  proof -
    let ?p = "prepared m y w k v"
    note pf = prepared_frame[OF inv f]
    have rp: "shields_ok (ids rec) ?p" using rec by (simp add: shields_ok_def)
    have sk: "seek_at ?p k self Dir_L s Dir_L t = seek_at m k self Dir_L s Dir_L t" by (rule pf(2))
    show ?thesis
      unfolding i pebr_nm_insert_inner_loop.simps
      unfolding i[symmetric]
    proof (rule wp_bind_mono[OF pebr_seek_wp[OF pf(1) n rp, where k = k]], goal_cases)
      case (1 x m')
      then obtain rec' where x: "snd x = rec'" and sd: "same_data ?p m'" and st: "shields_step (ids rec) ?p (ids rec') m'"
        by (auto simp: sought_def)
      obtain m1 where m1: "m' = prepared m1 y w k v" "same_data m m1" "shield m1 = shield m'" "ejections m1 = ejections m'"
        using same_data_prepared[OF sd] by blast
      have u: "untouched [] m m1" by (rule untouched_same_data[OF m1(2)])
      note ut = untouched_tree[OF inv u]
      have f1: "fresh m1 y" "fresh m1 w" using f m1(2) by (auto simp: fresh_def same_data_def)
      have st1: "shields_step (ids rec) m (ids rec') m1" using st m1(3,4) by (auto simp: shields_step_def shields_ok_def)
      from 1 show ?case
      proof (cases rule: pebr_seek_cases)
        case (ejected r2)
        have "insert_tried m self (s, i1, i2) t k v rec (Inl (v, Some Ejected), rec') m2"
          if "untouched [y, w] m1 m2" "shield m2 = shield m1" "ejections m2 = ejections m1" for m2
          using that ejected(2) m1(4) untouched_trans[OF u that(1)] shields_step_same[OF st1 that(2,3)] by (auto simp: insert_tried_def)
        with ejected(1) x show ?thesis
          unfolding m1(1) by (auto intro!: wp_mono[OF pebr_take_back_wp[OF ut(1) f1 f(3)]])
      next
        case (settled r2)
        have "held rec' (prepared m1 y w k v) (seek_at m1 k self Dir_L s Dir_L t)" using settled(1,2) x m1(1) sk ut(3) by simp
        note place = insert_place_wp[OF ut(1) f1 f(3) this, where A = "insert_tried m self (s, i1, i2) t k v rec", OF insert_tried_done[OF _ u st1]]
        have "x = (Inr (), rec')" using settled(1) x by simp
        then show ?thesis unfolding m1(1) by (simp only: prod.case sum.case) (rule place)
      qed
    qed
  qed
  then show ?thesis
    by (auto simp: pebr_nm_insert_inner_def atomic_from_def new_leaf_def prepared_def fresh_def)
qed

lemma pebr_nm_insert_loop_wp:
  assumes "nm_inv m self z t" "depth t + 2 \<le> n" "shields_ok (ids rec) m" "ejections m < i"
  shows "wp (pebr_nm_insert_loop i n self k v rec) (\<lambda>(r, rec') m'. shields_step (ids rec) m (ids rec') m' \<and>
      (\<exists>fs j m1. untouched fs m m1 \<and> length fs = 2 * j \<and> j + ejections m' \<le> ejections m \<and> insert_post m1 self z t k v r m')) m"
  using assms
proof (induction i arbitrary: m rec)
  case (Suc i)
  have "wp (pebr_nm_insert_inner n self k v rec) (insert_tried m self z t k v rec) m"
    using Suc.prems by (cases z) (simp add: pebr_nm_insert_inner_wp del: nm_inv.simps)
  then show ?case
    unfolding pebr_nm_insert_loop.simps
  proof (rule wp_bind_mono, goal_cases)
    case (1 x m')
    obtain r rec' where x: "x = (r, rec')" by (cases x)
    with 1 have st: "shields_step (ids rec) m (ids rec') m'" by (simp add: insert_tried_def)
    show ?case
    proof (cases "\<exists>v' e. r = Inl (v', Some e)")
      case False
      with 1 x obtain m1 where m1: "untouched [] m m1" "insert_post m1 self z t k v (map_sum (\<lambda>(v, _). (k, v)) id r) m'"
        by (auto simp: insert_tried_def split: sum.splits option.splits)
      from st have "length ([] :: addr list) = 2 * 0 \<and> 0 + ejections m' \<le> ejections m" by (simp add: shields_step_def)
      with m1 have "\<exists>fs j m1. untouched fs m m1 \<and> length fs = 2 * j \<and> j + ejections m' \<le> ejections m \<and>
          insert_post m1 self z t k v (map_sum (\<lambda>(v, _). (k, v)) id r) m'" by blast
      with False x st show ?thesis by (auto split: sum.splits option.splits) blast+
    next
      case True
      with 1 x obtain e y w where e: "r = Inl (v, Some e)" "ejections m' < ejections m" "untouched [y, w] m m'"
        by (auto simp: insert_tried_def)
      have "wp (pebr_nm_insert_loop i n self k v rec') (\<lambda>(r, rec') m'. shields_step (ids rec) m (ids rec') m' \<and>
        (\<exists>fs j m1. untouched fs m m1 \<and> length fs = 2 * j \<and> j + ejections m' \<le> ejections m \<and> insert_post m1 self z t k v r m')) (reclaim R m')" for R
      proof -
        note u = untouched_trans[OF e(3) untouched_reclaim, of R] and s = shields_step_reclaim[OF st, of R]
        have IH: "wp (pebr_nm_insert_loop i n self k v rec') (\<lambda>(r, rec2) m2. shields_step (ids rec') (reclaim R m') (ids rec2) m2 \<and>
          (\<exists>fs j m1. untouched fs (reclaim R m') m1 \<and> length fs = 2 * j \<and> j + ejections m2 \<le> ejections (reclaim R m') \<and>
            insert_post m1 self z t k v r m2)) (reclaim R m')"
          using Suc.prems e(2) untouched_tree(1)[OF Suc.prems(1) u] shields_step_ok[OF s] by (intro Suc.IH) auto
        show ?thesis
        proof (rule wp_mono[OF IH], goal_cases)
          case (1 q m2)
          then obtain r rec2 fs j m1 where q: "q = (r, rec2)" "shields_step (ids rec') (reclaim R m') (ids rec2) m2"
            and m1: "untouched fs (reclaim R m') m1" "length fs = 2 * j" "j + ejections m2 \<le> ejections m'" "insert_post m1 self z t k v r m2"
            by (cases q) auto
          have "length (([y, w] @ []) @ fs) = 2 * Suc j" "Suc j + ejections m2 \<le> ejections m" using m1(2,3) e(2) by simp_all
          with untouched_trans[OF u m1(1)] shields_step_trans[OF s q(2)] m1(4) q(1) show ?case by blast
        qed
      qed
      with e(1) x show ?thesis by (cases e) simp
    qed
  qed
qed simp

section \<open>The map\<close>

definition pebr_NMTreeMap_ops :: "(addr, pebr_seek_record, 'k::linorder, 'v, nm_field, ('k, 'v) nm_node) pebr_map" where
  "pebr_NMTreeMap_ops = \<lparr>pmap_new = pebr_NMTreeMap_new, pmap_handle = pebr_NMTreeMap_handle, pmap_clear = pebr_NMTreeMap_clear, pmap_drop = pebr_seek_record_drop,
     pmap_get = pebr_NMTreeMap_get, pmap_insert = pebr_NMTreeMap_insert, pmap_remove = pebr_NMTreeMap_remove\<rparr>"

lemma pebr_nm_new_eq: "pebr_nm_new self = nm_new self"
  by (simp add: pebr_nm_new_def nm_new_def)

lemma pebr_nm_drop_loop_eq: "pebr_nm_drop_loop n stack = nm_drop_loop n stack"
  by (induction n stack rule: pebr_nm_drop_loop.induct) (auto simp: fun_eq_iff)

lemma pebr_nm_drop_eq: "pebr_nm_drop n self = nm_drop n self"
  by (simp add: pebr_nm_drop_def nm_drop_def pebr_nm_drop_loop_eq)

lemma nm_new_ejections: "wp (nm_new self) (\<lambda>_ m'. P m') m \<Longrightarrow> wp (nm_new self) (\<lambda>_ m'. P m' \<and> ejections m' \<le> ejections m) m"
  by (simp add: nm_new_def new_internal_def atomic_from_def new_leaf_def Let_def)

lemma pebr_seek_record_new_wp:
  "wp pebr_seek_record_new (\<lambda>c m'. same_data m m' \<and> shields_ok (ids c) m' \<and> ejections m' \<le> ejections m) m"
  by (auto simp: pebr_seek_record_new_def shields_ok_def ids_def split: if_splits)

lemma pebr_seek_record_release_wp:
  "shields_ok (ids c) m \<Longrightarrow>
    wp (pebr_seek_record_release c) (\<lambda>_ m'. same_data m m' \<and> shields_ok (ids c) m' \<and> ejections m' \<le> ejections m) m"
  by (auto simp: pebr_seek_record_release_def shields_ok_def ids_def)

lemma pebr_seek_record_drop_wp:
  "shields_ok (ids c) m \<Longrightarrow> wp (pebr_seek_record_drop c) (\<lambda>_ m'. same_data m m' \<and> ejections m' \<le> ejections m \<and>
    shield m' = (shield m) |` (- set (ids c))) m"
  by (auto simp: pebr_seek_record_drop_def shields_ok_def ids_def restrict_map_def)

lemma nm_repr_untouched: "nm_repr self m M b \<Longrightarrow> untouched fs m m' \<Longrightarrow> nm_repr self m' M b"
  unfolding nm_repr_def using untouched_tree(1,2) by metis

lemma pebr_NMTreeMap_get_wp:
  assumes "nm_repr self m M b" "shields_ok (ids c) m" "b + ejections m < n"
  shows "wp (pebr_NMTreeMap_get self n c k)
    (\<lambda>(r, c') m'. r = M k \<and> nm_repr self m' M b \<and> shields_ok (ids c') m' \<and> ejections m' \<le> ejections m) m"
proof -
  from assms(1) obtain z t where t: "nm_inv m self z t" "nm_contents m t = M" "length (leaves t) \<le> Suc b" by (auto simp: nm_repr_def)
  have n: "depth t + 2 \<le> n + 6" "ejections m < n + 6" using nm_repr_depth[OF t(3)] assms(3) by simp_all
  show ?thesis
    unfolding pebr_NMTreeMap_get_def
    by (rule wp_mono[OF pebr_nm_get_wp[OF t(1) n assms(2)]])
      (use t(2) nm_repr_untouched[OF assms(1)] in \<open>auto simp: shields_step_def\<close>)
qed

lemma pebr_NMTreeMap_insert_wp:
  assumes "nm_repr self m M b" "shields_ok (ids c) m" "b + ejections m < n"
  shows "wp (pebr_NMTreeMap_insert self n c k v) (\<lambda>(r, c') m'. r = (M k = None) \<and>
    nm_repr self m' (if M k = None then M(k \<mapsto> v) else M) (Suc b) \<and> shields_ok (ids c') m' \<and> ejections m' \<le> ejections m) m"
proof -
  from assms(1) obtain z t where t: "nm_inv m self z t" "nm_contents m t = M" "length (leaves t) \<le> Suc b" by (auto simp: nm_repr_def)
  have n: "depth t + 2 \<le> n + 6" "ejections m < n + 6" using nm_repr_depth[OF t(3)] assms(3) by simp_all
  show ?thesis
    unfolding pebr_NMTreeMap_insert_def pebr_nm_insert_def
  proof (rule wp_bind_mono[OF pebr_nm_insert_loop_wp[OF t(1) n(1) assms(2) n(2)]], goal_cases)
    case (1 x m')
    then obtain r c' fs m1 where x: "x = (r, c')" "shields_step (ids c) m (ids c') m'" and m1: "untouched fs m m1" "insert_post m1 self z t k v r m'"
      by (cases x) auto
    note ut = untouched_tree(1,2)[OF t(1) m1(1)]
    from insert_post_repr[OF m1(2) t(3), unfolded ut(2) t(2)] x show ?case by (simp add: shields_step_def)
  qed
qed

lemma pebr_NMTreeMap_remove_wp:
  assumes "nm_repr self m M b" "shields_ok (ids c) m" "b + ejections m < n"
  shows "wp (pebr_NMTreeMap_remove self n c k)
    (\<lambda>(r, c') m'. r = M k \<and> nm_repr self m' (M(k := None)) b \<and> shields_ok (ids c') m' \<and> ejections m' \<le> ejections m) m"
proof -
  from assms(1) obtain z t where t: "nm_inv m self z t" "nm_contents m t = M" "length (leaves t) \<le> Suc b" by (auto simp: nm_repr_def)
  have n: "depth t + 6 \<le> n + 6" "ejections m < n + 6" using nm_repr_depth[OF t(3)] assms(3) by simp_all
  show ?thesis
    unfolding pebr_NMTreeMap_remove_def
  proof (rule wp_mono[OF pebr_nm_remove_wp[OF t(1) n assms(2)]], goal_cases)
    case (1 x m')
    then obtain r c' m1 where x: "x = (r, c')" "shields_step (ids c) m (ids c') m'" and m1: "untouched [] m m1" "remove_post m1 self z t k r m'"
      by (cases x) auto
    note ut = untouched_tree(1,2)[OF t(1) m1(1)]
    from remove_post_repr[OF ut(1) m1(2) t(3), unfolded ut(2) t(2)] x show ?case by (simp add: shields_step_def)
  qed
qed

interpretation pebr_NMTreeMap: pebr_map_impl pebr_NMTreeMap_ops nm_place nm_repr "\<lambda>c. shields_ok (ids c)"
proof (unfold_locales, goal_cases)
  case (1 h m)
  then have "wp (nm_new h) (\<lambda>_ m'. nm_repr h m' Map.empty 0) m"
    by (auto simp: nm_repr_def simp del: nm_inv.simps intro!: wp_mono[OF nm_new_wp]) force
  then show ?case by (simp add: pebr_NMTreeMap_ops_def pebr_NMTreeMap_new_def pebr_nm_new_eq nm_new_ejections)
next
  case (2 h m M s)
  then show ?case unfolding pebr_NMTreeMap_ops_def pebr_NMTreeMap_handle_def pebr_map.simps
    by (intro wp_mono[OF pebr_seek_record_new_wp]) (auto intro: nm_repr_untouched untouched_same_data)
next
  case (3 h m M s c)
  then show ?case unfolding pebr_NMTreeMap_ops_def pebr_NMTreeMap_clear_def pebr_map.simps
    by (intro wp_mono[OF pebr_seek_record_release_wp]) (auto intro: nm_repr_untouched untouched_same_data)
next
  case (4 h m M s c)
  then show ?case unfolding pebr_NMTreeMap_ops_def pebr_map.simps
    by (intro wp_mono[OF pebr_seek_record_drop_wp]) (auto intro: nm_repr_untouched untouched_same_data)
next
  case (5 h m M s c n k)
  then show ?case by (simp add: pebr_NMTreeMap_ops_def pebr_NMTreeMap_get_wp)
next
  case (6 h m M s c n k v)
  then show ?case by (simp add: pebr_NMTreeMap_ops_def pebr_NMTreeMap_insert_wp)
next
  case (7 h m M s c n k)
  then show ?case by (simp add: pebr_NMTreeMap_ops_def pebr_NMTreeMap_remove_wp)
next
  case (8 h m M s s')
  then show ?case by (rule NMTreeMap.repr_mono)
qed

section \<open>Runs\<close>

text \<open>The tree of \<open>demo_nm\<close>, with a guard that is ejected at the second and the third protection.\<close>

definition demo_pebr_nm :: "(nm_field, (int, int) nm_node) sc" where
  "demo_pebr_nm = demo_nm\<lparr>sc_eject := [False, True, True, False]\<rparr>"

lemma demo_pebr_nm_ok: "sc_ok demo_pebr_nm"
  using demo_nm_ok by (simp add: demo_pebr_nm_def sc_ok_def)

lemma demo_pebr_nm_view: "same_data (sc_view demo_nm) (sc_view demo_pebr_nm)" "ejections (sc_view demo_pebr_nm) = 2"
  by (simp_all add: demo_pebr_nm_def same_data_def)

lemma demo_pebr_nm_repr: "nm_repr 1 (sc_view demo_pebr_nm) [10 \<mapsto> 100, 20 \<mapsto> 200] 2"
  by (rule nm_repr_untouched[OF demo_nm_repr untouched_same_data[OF demo_pebr_nm_view(1)]])

text \<open>
  C19: \<^verbatim>\<open>NMTreeMap\<close> over pointer- and epoch-based reclamation refines a finite map.  A thread makes a record of four shields,
  performs any sequence of calls with it and releases it.  Wherever the guard is ejected, finitely often, every call returns,
  no memory error is committed, and the answers are those of the finite map.
\<close>

theorem pebr_nm_tree_refines_map:
  assumes "crossbeam_api X view ok" "ok s" "nm_repr self (view s) M b" "b + length qs + ejections (view s) \<le> n"
  shows "completes X view ok (psession pebr_NMTreeMap_ops self n qs) s
    (\<lambda>rs m'. \<exists>M'. spec_calls qs M = (rs, M') \<and> nm_repr self m' M' (b + length qs))"
  using assms by (intro wp_completes pebr_NMTreeMap.psession_wp)

theorem pebr_nm_tree_refines_map_witness:
  "completes sc_api sc_view sc_ok (psession pebr_NMTreeMap_ops 1 10 nm_calls) demo_pebr_nm
     (\<lambda>rs m'. \<exists>M'. spec_calls nm_calls [10 \<mapsto> 100, 20 \<mapsto> 200] = (rs, M') \<and> nm_repr 1 m' M' (2 + length nm_calls))"
  by (rule pebr_nm_tree_refines_map[OF sc.crossbeam_api_axioms demo_pebr_nm_ok demo_pebr_nm_repr])
    (simp add: nm_calls_def demo_pebr_nm_def)

text \<open>
  C20: one \<^verbatim>\<open>insert\<close> with a record of shields, in detail.  Its effect is that of the EBR version, on a memory in which nothing
  in use has changed and nothing is left behind: the nodes freed before are two for each ejected attempt, and no node that
  such an attempt allocated is still there.  The record comes back with the same four
  shields, and no other shield is touched.
\<close>

theorem pebr_nm_insert_correct:
  assumes "crossbeam_api X view ok" "ok s" "nm_inv (view s) self z t" "shields_ok (ids rec) (view s)"
    and "depth t + 2 \<le> n" "ejections (view s) < n"
  shows "completes X view ok (pebr_nm_insert n self k v rec) s
    (\<lambda>(r, rec') m'. shields_step (ids rec) (view s) (ids rec') m' \<and>
      (\<exists>fs j m1. untouched fs (view s) m1 \<and> length fs = 2 * j \<and> j + ejections m' \<le> ejections (view s) \<and> insert_post m1 self z t k v r m'))"
  unfolding pebr_nm_insert_def by (rule wp_completes[OF assms(1,2) pebr_nm_insert_loop_wp[OF assms(3,5,4,6)]])

definition demo_nm_shields :: "(nm_field, (int, int) nm_node) sc" where
  "demo_nm_shields = sc_upd (set_shield 0 (Some null) \<circ> set_shield 1 (Some null) \<circ> set_shield 2 (Some null) \<circ> set_shield 3 (Some null))
     demo_pebr_nm\<lparr>sc_next_shield := 4\<rparr>"

definition demo_record :: pebr_seek_record where
  "demo_record = \<lparr>ancestor_shield = 0, successor_shield = 1, pebr_successor_dir = Dir_L, parent_shield = 2, leaf_shield = 3, pebr_leaf_dir = Dir_L\<rparr>"

lemma demo_nm_shields_facts:
  "sc_ok demo_nm_shields" "nm_inv (sc_view demo_nm_shields) 1 (2, 4, 5) demo_nm_tree" "ejections (sc_view demo_nm_shields) = 2"
  "shields_ok (ids demo_record) (sc_view demo_nm_shields)"
proof -
  have "same_data (sc_view demo_nm) (sc_view demo_nm_shields)" by (simp add: demo_nm_shields_def demo_pebr_nm_def same_data_def)
  then show "nm_inv (sc_view demo_nm_shields) 1 (2, 4, 5) demo_nm_tree"
    using untouched_tree(1)[OF demo_nm_inv untouched_same_data] by blast
  show "sc_ok demo_nm_shields" using demo_pebr_nm_ok by (auto simp: demo_nm_shields_def sc_ok_def demo_pebr_nm_def demo_nm_def)
  show "ejections (sc_view demo_nm_shields) = 2" by (simp add: demo_nm_shields_def demo_pebr_nm_def)
  show "shields_ok (ids demo_record) (sc_view demo_nm_shields)" by (simp add: demo_nm_shields_def shields_ok_def ids_def demo_record_def)
qed

theorem pebr_nm_insert_correct_witness:
  "completes sc_api sc_view sc_ok (pebr_nm_insert 4 1 15 5 demo_record) demo_nm_shields
    (\<lambda>(r, rec') m'. shields_step (ids demo_record) (sc_view demo_nm_shields) (ids rec') m' \<and>
      (\<exists>fs j m1. untouched fs (sc_view demo_nm_shields) m1 \<and> length fs = 2 * j \<and>
        j + ejections m' \<le> ejections (sc_view demo_nm_shields) \<and> insert_post m1 1 (2, 4, 5) demo_nm_tree 15 5 r m'))"
  by (rule pebr_nm_insert_correct[OF sc.crossbeam_api_axioms demo_nm_shields_facts(1,2,4)])
    (simp_all add: demo_nm_shields_def demo_pebr_nm_def demo_nm_tree_def)

end
