(* ===== verification/Shield_Pool.thy ===== *)
theory Shield_Pool
  imports Crossbeam
begin

text \<open>
  \<^verbatim>\<open>src/src/pebr/shield_pool.rs\<close>: a thread-local pool that recycles shields.  A pool keeps
  the shields it has ever created and a stack of the indices that are free; a handle is an index
  that is in use.
\<close>

section \<open>The code\<close>

record shield_pool =
  shields :: "nat list"
  available :: "nat list"

definition shield_pool_new :: shield_pool where
  "shield_pool_new = \<lparr>shields = [], available = []\<rparr>"

text \<open>
  \<^verbatim>\<open>get_unchecked\<close> is undefined out of range; the model panics there, and the results below
  show that this does not happen.  The result is the index of the handle and the pool.
\<close>

definition shield_pool_defend ::
  "shield_pool \<Rightarrow> shared \<Rightarrow> ('f, 'n, (shield_error + nat) \<times> shield_pool) prog" where
  "shield_pool_defend self ptr =
     (if available self \<noteq> [] then
        let index = last (available self); self = self\<lparr>available := butlast (available self)\<rparr> in
        if index < length (shields self) then
          Defend (shields self ! index) ptr (\<lambda>r.
            case r of Inl e \<Rightarrow> Ret (Inl e, self) | Inr _ \<Rightarrow> Ret (Inr index, self))
        else Panic
      else
        Shield_new ptr (\<lambda>r.
          case r of
            Inl e \<Rightarrow> Ret (Inl e, self)
          | Inr new_shield \<Rightarrow>
              Ret (Inr (length (shields self)), self\<lparr>shields := shields self @ [new_shield]\<rparr>)))"

fun shield_pool_drop_loop :: "nat list \<Rightarrow> ('f, 'n, unit) prog" where
  "shield_pool_drop_loop [] = Ret ()"
| "shield_pool_drop_loop (s # ss) = Shield_drop s (shield_pool_drop_loop ss)"

definition shield_pool_drop :: "shield_pool \<Rightarrow> ('f, 'n, unit) prog" where
  "shield_pool_drop self = shield_pool_drop_loop (shields self)"

definition shield_handle_drop :: "shield_pool \<Rightarrow> nat \<Rightarrow> ('f, 'n, shield_pool) prog" where
  "shield_handle_drop pool index =
     (if index < length (shields pool) then
        Release (shields pool ! index) (Ret (pool\<lparr>available := available pool @ [index]\<rparr>))
      else Panic)"

definition shield_handle_deref :: "shield_pool \<Rightarrow> nat \<Rightarrow> nat option" where
  "shield_handle_deref pool index =
     (if index < length (shields pool) then Some (shields pool ! index) else None)"

section \<open>The invariant\<close>

text \<open>
  \<open>held\<close> are the indices of the handles that exist.  Every index is free, held or lost;
  \<open>lost\<close> are those popped by a \<^verbatim>\<open>defend\<close> that then failed.
\<close>

definition pool_inv :: "shield_pool \<Rightarrow> nat list \<Rightarrow> nat list \<Rightarrow> ('f, 'n) mem \<Rightarrow> bool" where
  "pool_inv pool held lost m \<longleftrightarrow>
     distinct (shields pool) \<and> (\<forall>i\<in>set (shields pool). shield m i \<noteq> None) \<and>
     mset (available pool @ held @ lost) = mset [0..<length (shields pool)]"

lemma pool_inv_new [simp]: "pool_inv shield_pool_new [] [] m"
  by (simp add: pool_inv_def shield_pool_new_def)

lemma pool_inv_indices:
  assumes "pool_inv pool held lost m"
  shows "distinct (available pool @ held @ lost)"
    "set (available pool) \<union> set held \<union> set lost = {..<length (shields pool)}"
proof -
  have e: "mset (available pool @ held @ lost) = mset [0..<length (shields pool)]"
    using assms by (simp add: pool_inv_def)
  from mset_eq_imp_distinct_iff[OF this] show "distinct (available pool @ held @ lost)" by simp
  from mset_eq_setD[OF e] show "set (available pool) \<union> set held \<union> set lost = {..<length (shields pool)}"
    by (simp add: Un_assoc atLeast_upt)
qed

text \<open>Different handles are different shields.\<close>

lemma pool_inv_shield:
  assumes "pool_inv pool held lost m" "i < length (shields pool)" "j < length (shields pool)" "i \<noteq> j"
  shows "shields pool ! i \<noteq> shields pool ! j" "shield m (shields pool ! i) \<noteq> None"
  using assms by (auto simp: pool_inv_def nth_eq_iff_index_eq)

text \<open>Protecting with the pool touches no handle that is in use.\<close>

definition defend_post ::
  "shield_pool \<Rightarrow> nat list \<Rightarrow> nat list \<Rightarrow> shared \<Rightarrow> ('f, 'n) mem \<Rightarrow> shield_error + nat \<Rightarrow> shield_pool \<Rightarrow>
    ('f, 'n) mem \<Rightarrow> bool" where
  "defend_post pool held lost ptr m r pool' m' \<longleftrightarrow>
     (\<forall>j\<in>set held. shield_handle_deref pool' j = shield_handle_deref pool j \<and>
        shield m' (the (shield_handle_deref pool j)) = shield m (the (shield_handle_deref pool j))) \<and>
     (case r of
        Inr i \<Rightarrow> i \<notin> set held \<and> pool_inv pool' (held @ [i]) lost m' \<and>
          (\<exists>s. shield_handle_deref pool' i = Some s \<and> shield m' s = Some ptr)
      | Inl Ejected \<Rightarrow> shields pool' = shields pool \<and> ejections m' < ejections m \<and>
          (if available pool = [] then pool_inv pool' held lost m'
           else pool_inv pool' held (lost @ [last (available pool)]) m'))"

lemma pool_inv_mono:
  assumes "pool_inv pool held lost m" "\<And>i. shield m i \<noteq> None \<Longrightarrow> shield m' i \<noteq> None"
  shows "pool_inv pool held lost m'"
  using assms unfolding pool_inv_def by blast

lemma pool_inv_eject [simp]: "pool_inv pool held lost (use_ejection m) \<longleftrightarrow> pool_inv pool held lost m"
  by (simp add: pool_inv_def)

lemma shield_pool_defend_wp:
  assumes inv: "pool_inv pool held lost m"
  shows "wp (shield_pool_defend pool ptr) (\<lambda>(r, pool') m'. defend_post pool held lost ptr m r pool' m') m"
proof (cases "available pool = []")
  case False
  then obtain as i where av: "available pool = as @ [i]" by (cases "available pool" rule: rev_cases) auto
  let ?pool = "pool\<lparr>available := as\<rparr>"
  note ix = pool_inv_indices[OF inv]
  have i: "i < length (shields pool)" and out: "i \<notin> set held"
    using ix av by auto
  have ok: "pool_inv ?pool (held @ [i]) lost m" "pool_inv ?pool held (lost @ [i]) m"
    using inv av by (simp_all add: pool_inv_def)
  have sh: "shield m (shields pool ! i) \<noteq> None" using inv i by (simp add: pool_inv_def)
  have other: "shields pool ! j \<noteq> shields pool ! i" "j < length (shields pool)" if "j \<in> set held" for j
  proof -
    show "j < length (shields pool)" using ix that by auto
    with pool_inv_shield[OF inv _ i, of j] out that show "shields pool ! j \<noteq> shields pool ! i" by auto
  qed
  have up: "pool_inv p h l (set_shield s (Some q) m)" if "pool_inv p h l m" for p h l s q
    by (rule pool_inv_mono[OF that]) simp
  have "defend_post pool held lost ptr m (Inr i) ?pool (set_shield (shields pool ! i) (Some ptr) m)"
    using out i other up[OF ok(1)] by (simp add: defend_post_def shield_handle_deref_def)
  moreover have "defend_post pool held lost ptr m (Inl Ejected) ?pool
      (use_ejection (set_shield (shields pool ! i) (Some q) m))" if "0 < ejections m" for q
    using other that av up[OF ok(2)]
    by (simp add: defend_post_def shield_handle_deref_def)
  ultimately show ?thesis
    using av i sh by (simp add: shield_pool_defend_def Let_def)
next
  case True
  note ix = pool_inv_indices[OF inv]
  let ?pool = "\<lambda>s. pool\<lparr>shields := shields pool @ [s]\<rparr>"
  have held: "j < length (shields pool)" "shield m (shields pool ! j) \<noteq> None" if "j \<in> set held" for j
  proof -
    show "j < length (shields pool)" using ix that by auto
    with inv show "shield m (shields pool ! j) \<noteq> None" by (simp add: pool_inv_def)
  qed
  have "defend_post pool held lost ptr m (Inr (length (shields pool))) (?pool s) (set_shield s (Some ptr) m)"
    if "shield m s = None" for s
  proof -
    have "s \<notin> set (shields pool)" using inv that by (auto simp: pool_inv_def)
    with inv have "pool_inv (?pool s) (held @ [length (shields pool)]) lost (set_shield s (Some ptr) m)"
      by (auto simp: pool_inv_def)
    moreover have "length (shields pool) \<notin> set held" using held(1) by blast
    moreover have "shields pool ! j \<noteq> s" if "j \<in> set held" for j
      using held(2)[OF that] \<open>shield m s = None\<close> by auto
    ultimately show ?thesis
      using held(1) by (auto simp: defend_post_def shield_handle_deref_def nth_append intro: less_SucI)
  qed
  moreover have "defend_post pool held lost ptr m (Inl Ejected) pool (use_ejection m)" if "0 < ejections m"
    using that True inv by (simp add: defend_post_def pool_inv_def)
  ultimately show ?thesis
    using True by (simp add: shield_pool_defend_def)
qed

lemma shield_handle_drop_wp:
  assumes inv: "pool_inv pool held lost m" and i: "i \<in> set held"
  shows "wp (shield_handle_drop pool i) (\<lambda>pool' m'. pool_inv pool' (remove1 i held) lost m' \<and>
     available pool' = available pool @ [i] \<and> shields pool' = shields pool \<and>
     shield m' = (shield m)(shields pool ! i \<mapsto> null) \<and> ejections m' = ejections m) m"
proof -
  have len: "i < length (shields pool)" using pool_inv_indices(2)[OF inv] i by auto
  then have "shield m (shields pool ! i) \<noteq> None" using inv by (simp add: pool_inv_def)
  moreover have "mset (available pool @ [i] @ remove1 i held @ lost) =
      mset (available pool) + (add_mset i (mset held - {#i#}) + mset lost)" by simp
  then have "mset (available pool @ [i] @ remove1 i held @ lost) = mset (available pool @ held @ lost)"
    using i by simp
  then have "pool_inv (pool\<lparr>available := available pool @ [i]\<rparr>) (remove1 i held) lost
      (set_shield (shields pool ! i) (Some null) m)"
    using inv unfolding pool_inv_def by (simp del: mset_append)
  ultimately show ?thesis using len by (simp add: shield_handle_drop_def)
qed

lemma shield_pool_drop_loop_wp:
  assumes "distinct ss" "\<And>s. s \<in> set ss \<Longrightarrow> shield m s \<noteq> None"
    and "Q () (m\<lparr>shield := (shield m) |` (- set ss)\<rparr>)"
  shows "wp (shield_pool_drop_loop ss) Q m"
  using assms
proof (induction ss arbitrary: m)
  case Nil
  from Nil.prems(3) show ?case by (simp add: restrict_map_def)
next
  case (Cons s ss)
  have "wp (shield_pool_drop_loop ss) Q (set_shield s None m)"
  proof (rule Cons.IH)
    have "shield (set_shield s None m) |` (- set ss) = (shield m) |` (- set (s # ss))" by (auto simp: restrict_map_def fun_eq_iff)
    with Cons.prems(3) show "Q () ((set_shield s None m)\<lparr>shield := shield (set_shield s None m) |` (- set ss)\<rparr>)"
      by (simp add: set_shield_def)
  qed (use Cons.prems in auto)
  then show ?case using Cons.prems(2)[of s] by simp
qed

lemma shield_pool_drop_wp:
  assumes "pool_inv pool held lost m"
  shows "wp (shield_pool_drop pool) (\<lambda>_ m'. m' = m\<lparr>shield := (shield m) |` (- set (shields pool))\<rparr>) m"
  unfolding shield_pool_drop_def
  using assms by (intro shield_pool_drop_loop_wp) (auto simp: pool_inv_def)

lemma shield_pool_defend_outside:
  assumes "pool_inv pool held lost m"
  shows "wp (shield_pool_defend pool p) (\<lambda>(r, pool') m'. defend_post pool held lost p m r pool' m' \<and>
    shield m' |` (- set (shields pool')) = shield m |` (- set (shields pool))) m"
proof -
  have "shields pool ! last (available pool) \<in> set (shields pool)" if "available pool \<noteq> []"
    using pool_inv_indices(2)[OF assms] last_in_set[OF that] by (intro nth_mem) auto
  then show ?thesis
    using shield_pool_defend_wp[OF assms, of p]
    by (auto simp: shield_pool_defend_def Let_def restrict_map_def fun_eq_iff split: if_splits)
qed

section \<open>Clients\<close>

text \<open>
  A thread that acquires handles for pointers and discards the \<open>k\<close>-th handle it holds; a
  failed acquisition is ignored.  It remembers which pointer it acquired each handle for.
\<close>

datatype pool_request = Acquire shared | Discard nat

fun pool_client ::
  "pool_request list \<Rightarrow> shield_pool \<Rightarrow> (nat \<times> shared) list \<Rightarrow> ('f, 'n, shield_pool \<times> (nat \<times> shared) list) prog" where
  "pool_client [] pool held = Ret (pool, held)"
| "pool_client (Acquire p # qs) pool held =
     bind (shield_pool_defend pool p) (\<lambda>(r, pool).
       case r of Inr i \<Rightarrow> pool_client qs pool (held @ [(i, p)]) | Inl _ \<Rightarrow> pool_client qs pool held)"
| "pool_client (Discard k # qs) pool held =
     (if k < length held then
        bind (shield_handle_drop pool (fst (held ! k))) (\<lambda>pool. pool_client qs pool (remove1 (held ! k) held))
      else pool_client qs pool held)"

text \<open>
  A pool in use: besides its invariant, every handle protects the pointer it was acquired for, and the shields that are
  free protect nothing.
\<close>

definition pool_in_use :: "shield_pool \<Rightarrow> (nat \<times> shared) list \<Rightarrow> nat list \<Rightarrow> ('f, 'n) mem \<Rightarrow> bool" where
  "pool_in_use pool held lost m \<longleftrightarrow> pool_inv pool (map fst held) lost m \<and>
     (\<forall>(i, p)\<in>set held. shield m (shields pool ! i) = Some p) \<and>
     (\<forall>i\<in>set (available pool). shield m (shields pool ! i) = Some null)"

text \<open>Lost slots are paid for by ejections, and shields that are not in the pool are left alone.\<close>

definition pool_grows :: "shield_pool \<Rightarrow> nat list \<Rightarrow> ('f, 'n) mem \<Rightarrow> shield_pool \<Rightarrow> nat list \<Rightarrow> ('f, 'n) mem \<Rightarrow> bool" where
  "pool_grows pool lost m pool' lost' m' \<longleftrightarrow> length lost' + ejections m' \<le> length lost + ejections m \<and>
     shield m' |` (- set (shields pool')) = shield m |` (- set (shields pool))"

lemma pool_grows_refl [simp]: "pool_grows pool lost m pool lost m"
  by (simp add: pool_grows_def)

lemma pool_grows_trans: "pool_grows p l m p1 l1 m1 \<Longrightarrow> pool_grows p1 l1 m1 p2 l2 m2 \<Longrightarrow> pool_grows p l m p2 l2 m2"
  by (simp add: pool_grows_def)

lemma pool_index:
  assumes "pool_inv pool held lost m" "i \<in> set (available pool) \<union> set held"
  shows "i < length (shields pool)" "shields pool ! i \<in> set (shields pool)" "shield m (shields pool ! i) \<noteq> None"
proof -
  show i: "i < length (shields pool)" using pool_inv_indices(2)[OF assms(1)] assms(2) by auto
  then show "shields pool ! i \<in> set (shields pool)" "shield m (shields pool ! i) \<noteq> None" using assms(1) by (auto simp: pool_inv_def)
qed

lemma pool_acquire_wp:
  assumes use: "pool_in_use pool held lost m"
  shows "wp (shield_pool_defend pool p) (\<lambda>(r, pool') m'. \<exists>lost'. pool_grows pool lost m pool' lost' m' \<and>
    pool_in_use pool' (case r of Inr i \<Rightarrow> held @ [(i, p)] | Inl _ \<Rightarrow> held) lost' m') m"
proof -
  have inv: "pool_inv pool (map fst held) lost m" using use by (simp add: pool_in_use_def)
  note ix = pool_index[OF inv] and ds = pool_inv_indices(1)[OF inv]
  show ?thesis
  proof (cases "available pool" rule: rev_cases)
    case (snoc as j)
    let ?pool = "pool\<lparr>available := as\<rparr>"
    have j: "j < length (shields pool)" "shields pool ! j \<in> set (shields pool)" "shield m (shields pool ! j) \<noteq> None"
      using ix[of j] snoc by simp_all
    have ne: "shields pool ! i \<noteq> shields pool ! j" if "i \<in> set as \<union> fst ` set held" for i
      using pool_inv_shield(1)[OF inv, of i j] ix(1)[of i] that snoc ds j(1) by auto
    have inv': "pool_inv ?pool (map fst held @ [j]) lost m" "pool_inv ?pool (map fst held) (lost @ [j]) m"
      using inv snoc by (simp_all add: pool_inv_def)
    let ?m = "\<lambda>q. set_shield (shields pool ! j) (Some q) m"
    have up: "pool_inv ?pool h l (?m q)" if "pool_inv ?pool h l m" for h l q by (rule pool_inv_mono[OF that]) simp
    have "pool_in_use ?pool (held @ [(j, p)]) lost (?m p)"
      using use ne snoc up[OF inv'(1)] by (force simp: pool_in_use_def)
    moreover have "pool_in_use ?pool held (lost @ [j]) (use_ejection (?m q))" for q
      using use ne snoc up[OF inv'(2)] by (force simp: pool_in_use_def)
    moreover have "pool_grows pool lost m ?pool lost (?m p)"
      "0 < ejections m \<Longrightarrow> pool_grows pool lost m ?pool (lost @ [j]) (use_ejection (?m q))" for q
      using j(2) by (auto simp: pool_grows_def restrict_map_def fun_eq_iff)
    ultimately show ?thesis
      using snoc j(1,3) by (fastforce simp: shield_pool_defend_def Let_def)
  next
    case Nil
    let ?pool = "\<lambda>s. pool\<lparr>shields := shields pool @ [s]\<rparr>"
    have "pool_in_use (?pool s) (held @ [(length (shields pool), p)]) lost (set_shield s (Some p) m) \<and>
        pool_grows pool lost m (?pool s) lost (set_shield s (Some p) m)" if s: "shield m s = None" for s
    proof
      have out: "s \<notin> set (shields pool)" using inv s by (auto simp: pool_inv_def)
      have "pool_inv (?pool s) (map fst held @ [length (shields pool)]) lost (set_shield s (Some p) m)"
        using inv out by (auto simp: pool_inv_def)
      moreover have "(shields pool @ [s]) ! i = shields pool ! i" "shields pool ! i \<noteq> s" if "i \<in> fst ` set held" for i
        using ix(1,2)[of i] that out by (auto simp: nth_append)
      ultimately show "pool_in_use (?pool s) (held @ [(length (shields pool), p)]) lost (set_shield s (Some p) m)"
        using use Nil by (force simp: pool_in_use_def)
      show "pool_grows pool lost m (?pool s) lost (set_shield s (Some p) m)"
        using s by (auto simp: pool_grows_def restrict_map_def fun_eq_iff)
    qed
    moreover have "pool_in_use pool held lost (use_ejection m) \<and> pool_grows pool lost m pool lost (use_ejection m)"
      using use by (simp add: pool_in_use_def pool_grows_def)
    ultimately show ?thesis using Nil by (auto simp: shield_pool_defend_def)
  qed
qed

lemma pool_discard_wp:
  assumes use: "pool_in_use pool held lost m" and h: "h \<in> set held"
  shows "wp (shield_handle_drop pool (fst h)) (\<lambda>pool' m'. pool_grows pool lost m pool' lost m' \<and>
    pool_in_use pool' (remove1 h held) lost m') m"
proof -
  have inv: "pool_inv pool (map fst held) lost m" using use by (simp add: pool_in_use_def)
  note ix = pool_index[OF inv] and ds = pool_inv_indices(1)[OF inv]
  have d: "distinct (map fst held)" using ds by simp
  have i: "fst h \<in> set (map fst held)" using h by simp
  have r: "map fst (remove1 h held) = remove1 (fst h) (map fst held)"
    using d h by (induction held) auto
  show ?thesis
  proof (rule wp_mono[OF shield_handle_drop_wp[OF inv i]], goal_cases)
    case (1 pool' m')
    have hs: "shields pool ! fst h \<in> set (shields pool)" using ix(2) i by blast
    have rest: "shields pool ! j \<noteq> shields pool ! fst h" if "j \<in> set (available pool) \<union> fst ` set (remove1 h held)" for j
    proof -
      have "fst ` set (remove1 h held) = fst ` set held - {fst h}" using set_remove1_eq[OF d, of "fst h"] r by (metis set_map)
      then have "j \<noteq> fst h" using that ds i by auto
      moreover have "j < length (shields pool)" using ix(1)[of j] that r by (auto dest: set_mp[OF set_remove1_subset])
      ultimately show ?thesis using pool_inv_shield(1)[OF inv _ ix(1)[of "fst h"], of j] i by auto
    qed
    have "shield m' (shields pool ! j) = Some q" if "(j, q) \<in> set (remove1 h held)" for j q
      using that use rest[of j] 1 notin_set_remove1[of "(j, q)" held h] by (force simp: pool_in_use_def)
    moreover have "shield m' (shields pool ! j) = Some null" if "j \<in> set (available pool')" for j
      using that use rest[of j] 1 by (auto simp: pool_in_use_def)
    ultimately show ?case
      using 1 r hs by (auto simp: pool_in_use_def pool_grows_def restrict_map_def fun_eq_iff)
  qed
qed

lemma pool_client_wp:
  assumes "pool_in_use pool held lost m"
  shows "wp (pool_client qs pool held) (\<lambda>(pool', held') m'. \<exists>lost'. pool_grows pool lost m pool' lost' m' \<and>
    pool_in_use pool' held' lost' m') m"
  using assms
proof (induction qs pool held arbitrary: lost m rule: pool_client.induct)
  case (2 p qs pool held)
  show ?case
    unfolding pool_client.simps
  proof (rule wp_bind_mono[OF pool_acquire_wp[OF "2.prems"]], goal_cases)
    case (1 rp m1)
    then obtain r pool1 lost1 where rp: "rp = (r, pool1)" "pool_grows pool lost m pool1 lost1 m1"
      and use: "pool_in_use pool1 (case r of Inr i \<Rightarrow> held @ [(i, p)] | Inl _ \<Rightarrow> held) lost1 m1" by (cases rp) auto
    show ?case
    proof (cases r)
      case (Inl e)
      from "2.IH"(1)[OF Inl, of pool1 lost1 m1] use Inl have "wp (pool_client qs pool1 held) (\<lambda>(pool', held') m'.
        \<exists>lost'. pool_grows pool1 lost1 m1 pool' lost' m' \<and> pool_in_use pool' held' lost' m') m1" by simp
      then show ?thesis unfolding rp(1) Inl prod.case sum.case
        by (rule wp_mono) (use pool_grows_trans[OF rp(2)] in blast)
    next
      case (Inr i)
      from "2.IH"(2)[OF Inr, of pool1 lost1 m1] use Inr have "wp (pool_client qs pool1 (held @ [(i, p)])) (\<lambda>(pool', held') m'.
        \<exists>lost'. pool_grows pool1 lost1 m1 pool' lost' m' \<and> pool_in_use pool' held' lost' m') m1" by simp
      then show ?thesis unfolding rp(1) Inr prod.case sum.case
        by (rule wp_mono) (use pool_grows_trans[OF rp(2)] in blast)
    qed
  qed
next
  case (3 k qs pool held)
  show ?case
  proof (cases "k < length held")
    case True
    have "wp (bind (shield_handle_drop pool (fst (held ! k))) (\<lambda>pool. pool_client qs pool (remove1 (held ! k) held)))
      (\<lambda>(pool', held') m'. \<exists>lost'. pool_grows pool lost m pool' lost' m' \<and> pool_in_use pool' held' lost' m') m"
    proof (rule wp_bind_mono[OF pool_discard_wp[OF "3.prems" nth_mem[OF True]]], goal_cases)
      case (1 pool1 m1)
      from "3.IH"(1)[OF True conjunct2[OF 1]] show ?case
        by (rule wp_mono) (use pool_grows_trans[OF conjunct1[OF 1]] in blast)
    qed
    with True show ?thesis by simp
  next
    case False
    with "3.IH"(2)[OF False "3.prems"] show ?thesis by simp
  qed
qed (auto intro: pool_grows_refl)

lemma pool_in_use_new: "pool_in_use shield_pool_new [] [] m"
  by (simp add: pool_in_use_def shield_pool_new_def pool_inv_def)

lemma pool_session_wp:
  "wp (bind (pool_client qs shield_pool_new []) (\<lambda>(pool, _). shield_pool_drop pool)) (\<lambda>_ m'. shield m' = shield m) m"
proof (rule wp_bind_mono[OF pool_client_wp[OF pool_in_use_new]], goal_cases)
  case (1 ph m1)
  then obtain pool held lost where p: "ph = (pool, held)" "pool_inv pool (map fst held) lost m1"
    and out: "shield m1 |` (- set (shields pool)) = shield m"
    by (cases ph) (auto simp: pool_in_use_def pool_grows_def shield_pool_new_def restrict_map_def)
  from p out show ?case by (auto intro!: wp_mono[OF shield_pool_drop_wp[OF p(2)]])
qed

section \<open>Runs\<close>

text \<open>
  Protecting a pointer through the pool.  Whatever the pool's history, a successful
  \<^verbatim>\<open>defend\<close> returns a handle to a shield that protects the pointer and that no other
  handle uses; the handles in use keep their shields and what these protect; the index is always in
  range; and a failed \<^verbatim>\<open>defend\<close> leaves the handles in use intact.
\<close>

theorem shield_pool_defend_correct:
  assumes "crossbeam_api X view ok" "ok s" "pool_inv pool held lost (view s)"
  shows "completes X view ok (shield_pool_defend pool ptr) s
    (\<lambda>(r, pool') m'. defend_post pool held lost ptr (view s) r pool' m')"
  using assms by (intro wp_completes shield_pool_defend_wp)

definition pool_memory :: "(unit, unit) sc" where
  "pool_memory = sc_upd (set_shield 0 (Some null) \<circ> set_shield 1 (Some (Shared 7 0)))
     (sc_start {} 1 (\<lambda>_. null) Map.empty [True]) \<lparr>sc_next_shield := 2\<rparr>"

theorem shield_pool_defend_correct_witness:
  "completes sc_api sc_view sc_ok (shield_pool_defend \<lparr>shields = [0, 1], available = [0]\<rparr> (Shared 8 0)) pool_memory
    (\<lambda>(r, pool') m'. defend_post \<lparr>shields = [0, 1], available = [0]\<rparr> [1] [] (Shared 8 0) (sc_view pool_memory) r pool' m')"
proof (rule shield_pool_defend_correct[OF sc.crossbeam_api_axioms])
  show "sc_ok pool_memory" by (auto simp: pool_memory_def sc_ok_def sc_start_def)
  show "pool_inv \<lparr>shields = [0, 1], available = [0]\<rparr> [1] [] (sc_view pool_memory)"
    by (simp add: pool_inv_def pool_memory_def numeral_2_eq_2)
qed

text \<open>
  C34: a pool in use stays well formed.  After any sequence of acquisitions and discards, failed ones included: the shields of
  the pool are distinct and exist, every index is free, held by one handle, or lost, each once, and no more indices are lost
  than the guard was ejected; every handle protects the pointer it was acquired for, free shields protect nothing, and other
  shields are as they were.  Dropping the pool destroys exactly the shields it created.
\<close>

theorem shield_pool_balanced:
  assumes "crossbeam_api X view ok" "ok s"
  shows "completes X view ok (pool_client qs shield_pool_new []) s
      (\<lambda>(pool, held) m'. \<exists>lost. pool_in_use pool held lost m' \<and> pool_grows shield_pool_new [] (view s) pool lost m') \<and>
    completes X view ok (bind (pool_client qs shield_pool_new []) (\<lambda>(pool, _). shield_pool_drop pool)) s
      (\<lambda>_ m'. shield m' = shield (view s))"
proof
  show "completes X view ok (pool_client qs shield_pool_new []) s
      (\<lambda>(pool, held) m'. \<exists>lost. pool_in_use pool held lost m' \<and> pool_grows shield_pool_new [] (view s) pool lost m')"
    by (rule wp_completes[OF assms], rule wp_mono[OF pool_client_wp[OF pool_in_use_new]]) blast
  show "completes X view ok (bind (pool_client qs shield_pool_new []) (\<lambda>(pool, _). shield_pool_drop pool)) s
      (\<lambda>_ m'. shield m' = shield (view s))"
    using assms by (intro wp_completes pool_session_wp)
qed

definition pool_requests :: "pool_request list" where
  "pool_requests = [Acquire (Shared 3 0), Acquire (Shared 4 0), Discard 0, Acquire (Shared 5 0)]"

theorem shield_pool_balanced_witness:
  "completes sc_api sc_view sc_ok (pool_client pool_requests shield_pool_new []) pool_memory
      (\<lambda>(pool, held) m'. \<exists>lost. pool_in_use pool held lost m' \<and> pool_grows shield_pool_new [] (sc_view pool_memory) pool lost m') \<and>
    completes sc_api sc_view sc_ok (bind (pool_client pool_requests shield_pool_new []) (\<lambda>(pool, _). shield_pool_drop pool)) pool_memory
      (\<lambda>_ m'. shield m' = shield (sc_view pool_memory))"
proof (rule shield_pool_balanced[OF sc.crossbeam_api_axioms])
  show "sc_ok pool_memory" by (auto simp: pool_memory_def sc_ok_def sc_start_def)
qed

text \<open>
  C36: a failed \<^verbatim>\<open>defend\<close> forgets the index it took from the free stack: the slot is
  neither free nor held afterwards, so it is not used again before the pool is dropped.
\<close>

theorem shield_pool_defend_forgets:
  assumes "crossbeam_api X view ok" "ok s" "pool_inv pool held lost (view s)" "available pool \<noteq> []"
    and "run X (shield_pool_defend pool ptr) s = (Returned (Inl e, pool'), s')"
  shows "available pool' = butlast (available pool) \<and> shields pool' = shields pool \<and>
    pool_inv pool' held (lost @ [last (available pool)]) (view s')"
proof -
  from shield_pool_defend_wp[OF assms(3), of ptr]
  obtain x s'' where "run X (shield_pool_defend pool ptr) s = (Returned x, s'')"
    "case x of (r, pool') \<Rightarrow> defend_post pool held lost ptr (view s) r pool' (view s'')"
    using wp_completes[OF assms(1,2)] unfolding completes_def by blast
  with assms(5) have "defend_post pool held lost ptr (view s) (Inl e) pool' (view s')" by simp
  moreover have "available pool' = butlast (available pool)"
    using assms(4,5)
    by (auto simp: shield_pool_defend_def Let_def split: if_splits prod.splits sum.splits)
  ultimately show ?thesis
    using assms(4) by (cases e) (auto simp: defend_post_def)
qed

theorem shield_pool_defend_forgets_witness:
  "\<exists>s'. run sc_api (shield_pool_defend \<lparr>shields = [0, 1], available = [0]\<rparr> (Shared 8 0)) pool_memory =
       (Returned (Inl Ejected, \<lparr>shields = [0, 1], available = []\<rparr>), s') \<and>
     pool_inv \<lparr>shields = [0, 1], available = []\<rparr> [1] [0] (sc_view s')"
proof -
  have d: "x_defend sc_api = sc_defend" by (simp add: sc_api_def)
  obtain s' where r: "run sc_api (shield_pool_defend \<lparr>shields = [0, 1], available = [0]\<rparr> (Shared 8 0)) pool_memory =
       (Returned (Inl Ejected, \<lparr>shields = [0, 1], available = []\<rparr>), s')"
    by (simp add: shield_pool_defend_def Let_def d sc_defend_def pool_memory_def)
  have ok: "sc_ok pool_memory" by (auto simp: pool_memory_def sc_ok_def sc_start_def)
  have inv: "pool_inv \<lparr>shields = [0, 1], available = [0]\<rparr> [1] [] (sc_view pool_memory)"
    by (simp add: pool_inv_def pool_memory_def numeral_2_eq_2)
  from shield_pool_defend_forgets[OF sc.crossbeam_api_axioms ok inv _ r] r show ?thesis by simp
qed

end
