(* ===== verification/Pebr_Bonsai.thy ===== *)
theory Pebr_Bonsai
  imports Ebr_Bonsai Shield_Pool
begin

text \<open>
  \<^verbatim>\<open>src/src/pebr/bonsai_tree.rs\<close>: the Bonsai tree over pointer- and epoch-based reclamation.  A round protects every
  node it visits with a shield of a pool and is abandoned, its new nodes freed, when the guard is ejected.
  \<^verbatim>\<open>Retired\<close>, \<^verbatim>\<open>Node\<close> and the functions on nodes are those of \<^verbatim>\<open>Ebr_Bonsai\<close>, which the file
  repeats; everything else carries the prefix \<open>pebr_\<close>.
\<close>

section \<open>State\<close>

record pebr_bonsai_state = bonsai_state +
  root_shield :: nat
  state_shields :: shield_pool

text \<open>Rust's \<^verbatim>\<open>?\<close>: an error ends the function, with the state it has left.\<close>

definition try_bind ::
  "('f, 'n, (shield_error + 'a) \<times> 's) prog \<Rightarrow> ('a \<Rightarrow> 's \<Rightarrow> ('f, 'n, (shield_error + 'b) \<times> 's) prog) \<Rightarrow>
    ('f, 'n, (shield_error + 'b) \<times> 's) prog" where
  "try_bind p f = bind p (\<lambda>(r, self). case r of Inl e \<Rightarrow> Ret (Inl e, self) | Inr x \<Rightarrow> f x self)"

text \<open>A call that cannot fail, where a \<^verbatim>\<open>Result\<close> is expected: Rust's \<^verbatim>\<open>Ok(...)\<close>.\<close>

definition infallible :: "('f, 'n, 'a \<times> 's) prog \<Rightarrow> ('f, 'n, (shield_error + 'a) \<times> 's) prog" where
  "infallible p = bind p (\<lambda>(x, self). Ret (Inr x, self))"

text \<open>
  \<^verbatim>\<open>let _shield = self.shields.defend(ptr, guard)?\<close> and the rest of its scope, at the end of which the handle is dropped,
  whichever way the scope is left.
\<close>

definition with_shield ::
  "shared \<Rightarrow> pebr_bonsai_state \<Rightarrow>
    (pebr_bonsai_state \<Rightarrow> ('f, 'n, (shield_error + 'a) \<times> pebr_bonsai_state) prog) \<Rightarrow>
    ('f, 'n, (shield_error + 'a) \<times> pebr_bonsai_state) prog" where
  "with_shield ptr self scope =
     bind (shield_pool_defend (state_shields self) ptr) (\<lambda>(r, pool).
       let self = self\<lparr>state_shields := pool\<rparr> in
       case r of
         Inl e \<Rightarrow> Ret (Inl e, self)
       | Inr index \<Rightarrow>
           bind (scope self) (\<lambda>(r, self).
           bind (shield_handle_drop (state_shields self) index) (\<lambda>pool.
           Ret (r, self\<lparr>state_shields := pool\<rparr>))))"

definition pebr_state_new :: "('k, 'v, pebr_bonsai_state) bonsai_prog" where
  "pebr_state_new =
     Shield_null (\<lambda>s. Ret \<lparr>retired_nodes = [], new_nodes = [], root_shield = s, state_shields = shield_pool_new\<rparr>)"

fun pebr_state_abort_loop :: "shared list \<Rightarrow> ('k, 'v, unit) bonsai_prog" where
  "pebr_state_abort_loop [] = Ret ()"
| "pebr_state_abort_loop (node # nodes) = Drop_owned node (pebr_state_abort_loop nodes)"

definition pebr_state_abort :: "pebr_bonsai_state \<Rightarrow> ('k, 'v, pebr_bonsai_state) bonsai_prog" where
  "pebr_state_abort self =
     Release (root_shield self) (
       bind (pebr_state_abort_loop (new_nodes self)) (\<lambda>_. Ret (self\<lparr>retired_nodes := [], new_nodes := []\<rparr>)))"

fun pebr_state_commit_loop :: "shared list \<Rightarrow> ('k, 'v, unit) bonsai_prog" where
  "pebr_state_commit_loop [] = Ret ()"
| "pebr_state_commit_loop (node # nodes) =
     Store (raw node, Left) retired_node (
     Store (raw node, Right) retired_node (
     Defer_destroy node (pebr_state_commit_loop nodes)))"

definition pebr_state_commit :: "pebr_bonsai_state \<Rightarrow> ('k, 'v, pebr_bonsai_state) bonsai_prog" where
  "pebr_state_commit self =
     Release (root_shield self) (
       bind (pebr_state_commit_loop (retired_nodes self)) (\<lambda>_. Ret (self\<lparr>retired_nodes := [], new_nodes := []\<rparr>)))"

definition pebr_retire_node :: "pebr_bonsai_state \<Rightarrow> shared \<Rightarrow> pebr_bonsai_state" where
  "pebr_retire_node self node = self\<lparr>retired_nodes := retired_nodes self @ [node]\<rparr>"

definition pebr_add_new_node :: "pebr_bonsai_state \<Rightarrow> shared \<Rightarrow> pebr_bonsai_state" where
  "pebr_add_new_node self node = self\<lparr>new_nodes := new_nodes self @ [node]\<rparr>"

section \<open>Building trees\<close>

definition pebr_mk_node ::
  "pebr_bonsai_state \<Rightarrow> shared \<Rightarrow> shared \<Rightarrow> 'k \<Rightarrow> 'v \<Rightarrow> ('k, 'v, shared \<times> pebr_bonsai_state) bonsai_prog" where
  "pebr_mk_node self left right k v =
     bind (or_else (is_retired_spot left) (is_retired_spot right)) (\<lambda>b.
       if b then Ret (retired_node, self)
       else
         bind (node_size left) (\<lambda>left_size.
         bind (node_size right) (\<lambda>right_size.
         Owned_new \<lparr>bkey = k, bvalue = v, bsize = left_size + right_size + 1\<rparr> [(Left, left), (Right, right)]
           (\<lambda>new_node. Ret (new_node, pebr_add_new_node self new_node)))))"

definition pebr_single_left ::
  "pebr_bonsai_state \<Rightarrow> shared \<Rightarrow> shared \<Rightarrow> shared \<Rightarrow> shared \<Rightarrow> 'k \<Rightarrow> 'v \<Rightarrow> ('k, 'v, shared \<times> pebr_bonsai_state) bonsai_prog" where
  "pebr_single_left self left right right_left right_right k v =
     Deref right (\<lambda>right_ref.
       bind (pebr_mk_node self left right_left k v) (\<lambda>(new_left, self).
       bind (pebr_mk_node self new_left right_right (bkey right_ref) (bvalue right_ref)) (\<lambda>(res, self).
       Ret (res, pebr_retire_node self right))))"

definition pebr_double_left ::
  "pebr_bonsai_state \<Rightarrow> shared \<Rightarrow> shared \<Rightarrow> shared \<Rightarrow> shared \<Rightarrow> 'k \<Rightarrow> 'v \<Rightarrow>
    ('k, 'v, (shield_error + shared) \<times> pebr_bonsai_state) bonsai_prog" where
  "pebr_double_left self left right right_left right_right k v =
     Deref right (\<lambda>right_ref.
     Deref right_left (\<lambda>right_left_ref.
     Load (raw right_left, Left) (\<lambda>right_left_left.
     Load (raw right_left, Right) (\<lambda>right_left_right.
       with_shield right_left_left self (\<lambda>self.
       with_shield right_left_right self (\<lambda>self.
         bind (or_else (is_retired_spot right_left_left) (is_retired_spot right_left_right)) (\<lambda>b.
           if b then Ret (Inr retired_node, self)
           else
             bind (pebr_mk_node self left right_left_left k v) (\<lambda>(new_left, self).
             bind (pebr_mk_node self right_left_right right_right (bkey right_ref) (bvalue right_ref)) (\<lambda>(new_right, self).
             bind (pebr_mk_node self new_left new_right (bkey right_left_ref) (bvalue right_left_ref)) (\<lambda>(res, self).
             Ret (Inr res, pebr_retire_node (pebr_retire_node self right_left) right)))))))))))"

definition pebr_mk_balanced_left ::
  "pebr_bonsai_state \<Rightarrow> shared \<Rightarrow> shared \<Rightarrow> 'k \<Rightarrow> 'v \<Rightarrow> ('k, 'v, (shield_error + shared) \<times> pebr_bonsai_state) bonsai_prog" where
  "pebr_mk_balanced_left self left right k v =
     Load (raw right, Left) (\<lambda>right_left.
     Load (raw right, Right) (\<lambda>right_right.
       with_shield right_left self (\<lambda>self.
       with_shield right_right self (\<lambda>self.
         bind (or_else (is_retired_spot right_left) (is_retired_spot right_right)) (\<lambda>b.
           if b then Ret (Inr retired_node, self)
           else
             bind (node_size right_left) (\<lambda>sl.
             bind (node_size right_right) (\<lambda>sr.
             if sl < sr then infallible (pebr_single_left self left right right_left right_right k v)
             else pebr_double_left self left right right_left right_right k v)))))))"

definition pebr_single_right ::
  "pebr_bonsai_state \<Rightarrow> shared \<Rightarrow> shared \<Rightarrow> shared \<Rightarrow> shared \<Rightarrow> 'k \<Rightarrow> 'v \<Rightarrow> ('k, 'v, shared \<times> pebr_bonsai_state) bonsai_prog" where
  "pebr_single_right self left right left_right left_left k v =
     Deref left (\<lambda>left_ref.
       bind (pebr_mk_node self left_right right k v) (\<lambda>(new_right, self).
       bind (pebr_mk_node self left_left new_right (bkey left_ref) (bvalue left_ref)) (\<lambda>(res, self).
       Ret (res, pebr_retire_node self left))))"

definition pebr_double_right ::
  "pebr_bonsai_state \<Rightarrow> shared \<Rightarrow> shared \<Rightarrow> shared \<Rightarrow> shared \<Rightarrow> 'k \<Rightarrow> 'v \<Rightarrow>
    ('k, 'v, (shield_error + shared) \<times> pebr_bonsai_state) bonsai_prog" where
  "pebr_double_right self left right left_right left_left k v =
     Deref left (\<lambda>left_ref.
     Deref left_right (\<lambda>left_right_ref.
     Load (raw left_right, Left) (\<lambda>left_right_left.
     Load (raw left_right, Right) (\<lambda>left_right_right.
       with_shield left_right_left self (\<lambda>self.
       with_shield left_right_right self (\<lambda>self.
         bind (or_else (is_retired_spot left_right_left) (is_retired_spot left_right_right)) (\<lambda>b.
           if b then Ret (Inr retired_node, self)
           else
             bind (pebr_mk_node self left_left left_right_left (bkey left_ref) (bvalue left_ref)) (\<lambda>(new_left, self).
             bind (pebr_mk_node self left_right_right right k v) (\<lambda>(new_right, self).
             bind (pebr_mk_node self new_left new_right (bkey left_right_ref) (bvalue left_right_ref)) (\<lambda>(res, self).
             Ret (Inr res, pebr_retire_node (pebr_retire_node self left_right) left)))))))))))"

definition pebr_mk_balanced_right ::
  "pebr_bonsai_state \<Rightarrow> shared \<Rightarrow> shared \<Rightarrow> 'k \<Rightarrow> 'v \<Rightarrow> ('k, 'v, (shield_error + shared) \<times> pebr_bonsai_state) bonsai_prog" where
  "pebr_mk_balanced_right self left right k v =
     Load (raw left, Right) (\<lambda>left_right.
     Load (raw left, Left) (\<lambda>left_left.
       with_shield left_left self (\<lambda>self.
       with_shield left_right self (\<lambda>self.
         bind (or_else (is_retired_spot left_right) (is_retired_spot left_left)) (\<lambda>b.
           if b then Ret (Inr retired_node, self)
           else
             bind (node_size left_right) (\<lambda>sr.
             bind (node_size left_left) (\<lambda>sl.
             if sr < sl then infallible (pebr_single_right self left right left_right left_left k v)
             else pebr_double_right self left right left_right left_left k v)))))))"

text \<open>\<^verbatim>\<open>cur\<close> is retired even if making its replacement failed; the caller then aborts.\<close>

definition pebr_mk_balanced ::
  "pebr_bonsai_state \<Rightarrow> shared \<Rightarrow> shared \<Rightarrow> shared \<Rightarrow> ('k, 'v, (shield_error + shared) \<times> pebr_bonsai_state) bonsai_prog" where
  "pebr_mk_balanced self cur left right =
     bind (or_else (is_retired_spot cur) (or_else (is_retired_spot left) (is_retired_spot right))) (\<lambda>b.
       if b then Ret (Inr retired_node, self)
       else Deref cur (\<lambda>cur_ref.
         bind (node_size left) (\<lambda>l_size.
         bind (node_size right) (\<lambda>r_size.
         bind
           (if r_size > 0 \<and> (l_size > 0 \<and> r_size > WEIGHT * l_size \<or> l_size = 0 \<and> r_size > WEIGHT)
            then pebr_mk_balanced_left self left right (bkey cur_ref) (bvalue cur_ref)
            else if l_size > 0 \<and> (r_size > 0 \<and> l_size > WEIGHT * r_size \<or> r_size = 0 \<and> l_size > WEIGHT)
            then pebr_mk_balanced_right self left right (bkey cur_ref) (bvalue cur_ref)
            else infallible (pebr_mk_node self left right (bkey cur_ref) (bvalue cur_ref)))
           (\<lambda>(res, self). Ret (res, pebr_retire_node self cur))))))"

fun pebr_do_insert ::
  "nat \<Rightarrow> pebr_bonsai_state \<Rightarrow> shared \<Rightarrow> 'k::linorder \<Rightarrow> 'v \<Rightarrow>
    ('k, 'v, (shield_error + shared \<times> bool) \<times> pebr_bonsai_state) bonsai_prog" where
  "pebr_do_insert 0 self node k v = Out_of_fuel"
| "pebr_do_insert (Suc n) self node k v =
     bind (is_retired_spot node) (\<lambda>b.
       if b then Ret (Inr (retired_node, False), self)
       else if is_null node then
         bind (pebr_mk_node self null null k v) (\<lambda>(p, self). Ret (Inr (p, True), self))
       else Deref node (\<lambda>node_ref.
         Load (raw node, Left) (\<lambda>left.
         Load (raw node, Right) (\<lambda>right.
           with_shield left self (\<lambda>self.
           with_shield right self (\<lambda>self.
             bind (or_else (is_retired_spot left) (is_retired_spot right)) (\<lambda>b.
               if b then Ret (Inr (retired_node, False), self)
               else case cmp (bkey node_ref) k of
                 Equal \<Rightarrow> Ret (Inr (node, False), self)
               | Less \<Rightarrow>
                   try_bind (pebr_do_insert n self right k v) (\<lambda>(new_right, inserted) self.
                   try_bind (pebr_mk_balanced self node left new_right) (\<lambda>p self. Ret (Inr (p, inserted), self)))
               | Greater \<Rightarrow>
                   try_bind (pebr_do_insert n self left k v) (\<lambda>(new_left, inserted) self.
                   try_bind (pebr_mk_balanced self node new_left right) (\<lambda>p self. Ret (Inr (p, inserted), self))))))))))"

fun pebr_pull_leftmost ::
  "nat \<Rightarrow> pebr_bonsai_state \<Rightarrow> shared \<Rightarrow> ('k, 'v, (shield_error + shared \<times> shared) \<times> pebr_bonsai_state) bonsai_prog" where
  "pebr_pull_leftmost 0 self node = Out_of_fuel"
| "pebr_pull_leftmost (Suc n) self node =
     bind (is_retired_spot node) (\<lambda>b.
       if b then Ret (Inr (retired_node, retired_node), self)
       else Deref node (\<lambda>node_ref.
         Load (raw node, Left) (\<lambda>left.
         Load (raw node, Right) (\<lambda>right.
           with_shield left self (\<lambda>self.
           with_shield right self (\<lambda>self.
             bind (or_else (is_retired_spot left) (is_retired_spot right)) (\<lambda>b.
               if b then Ret (Inr (retired_node, retired_node), self)
               else if \<not> is_null left then
                 try_bind (pebr_pull_leftmost n self left) (\<lambda>(new_left, succ) self.
                 with_shield new_left self (\<lambda>self.
                 try_bind (pebr_mk_balanced self node new_left right) (\<lambda>p self. Ret (Inr (p, succ), self))))
               else
                 bind (pebr_mk_node self null null (bkey node_ref) (bvalue node_ref)) (\<lambda>(succ, self).
                 Ret (Inr (right, succ), pebr_retire_node self node)))))))))"

fun pebr_pull_rightmost ::
  "nat \<Rightarrow> pebr_bonsai_state \<Rightarrow> shared \<Rightarrow> ('k, 'v, (shield_error + shared \<times> shared) \<times> pebr_bonsai_state) bonsai_prog" where
  "pebr_pull_rightmost 0 self node = Out_of_fuel"
| "pebr_pull_rightmost (Suc n) self node =
     bind (is_retired_spot node) (\<lambda>b.
       if b then Ret (Inr (retired_node, retired_node), self)
       else Deref node (\<lambda>node_ref.
         Load (raw node, Left) (\<lambda>left.
         Load (raw node, Right) (\<lambda>right.
           with_shield left self (\<lambda>self.
           with_shield right self (\<lambda>self.
             bind (or_else (is_retired_spot left) (is_retired_spot right)) (\<lambda>b.
               if b then Ret (Inr (retired_node, retired_node), self)
               else if \<not> is_null right then
                 try_bind (pebr_pull_rightmost n self right) (\<lambda>(new_right, succ) self.
                 with_shield new_right self (\<lambda>self.
                 try_bind (pebr_mk_balanced self node left new_right) (\<lambda>p self. Ret (Inr (p, succ), self))))
               else
                 bind (pebr_mk_node self null null (bkey node_ref) (bvalue node_ref)) (\<lambda>(succ, self).
                 Ret (Inr (left, succ), pebr_retire_node self node)))))))))"

fun pebr_do_remove ::
  "nat \<Rightarrow> pebr_bonsai_state \<Rightarrow> shared \<Rightarrow> 'k::linorder \<Rightarrow>
    ('k, 'v, (shield_error + shared \<times> 'v option) \<times> pebr_bonsai_state) bonsai_prog" where
  "pebr_do_remove 0 self node k = Out_of_fuel"
| "pebr_do_remove (Suc n) self node k =
     bind (is_retired_spot node) (\<lambda>b.
       if b then Ret (Inr (retired_node, None), self)
       else if is_null node then Ret (Inr (null, None), self)
       else Deref node (\<lambda>node_ref.
         Load (raw node, Left) (\<lambda>left.
         Load (raw node, Right) (\<lambda>right.
           with_shield left self (\<lambda>self.
           with_shield right self (\<lambda>self.
             bind (or_else (is_retired_spot left) (is_retired_spot right)) (\<lambda>b.
               if b then Ret (Inr (retired_node, None), self)
               else case cmp (bkey node_ref) k of
                 Equal \<Rightarrow>
                   let v = Some (bvalue node_ref); self = pebr_retire_node self node in
                   if bsize node_ref = 1 then Ret (Inr (null, v), self)
                   else if \<not> is_null left then
                     try_bind (pebr_pull_rightmost n self left) (\<lambda>(new_left, succ) self.
                     with_shield new_left self (\<lambda>self.
                     try_bind (pebr_mk_balanced self succ new_left right) (\<lambda>p self. Ret (Inr (p, v), self))))
                   else
                     try_bind (pebr_pull_leftmost n self right) (\<lambda>(new_right, succ) self.
                     with_shield new_right self (\<lambda>self.
                     try_bind (pebr_mk_balanced self succ left new_right) (\<lambda>p self. Ret (Inr (p, v), self))))
               | Less \<Rightarrow>
                   try_bind (pebr_do_remove n self right k) (\<lambda>(new_right, v) self.
                   try_bind (pebr_mk_balanced self node left new_right) (\<lambda>p self. Ret (Inr (p, v), self)))
               | Greater \<Rightarrow>
                   try_bind (pebr_do_remove n self left k) (\<lambda>(new_left, v) self.
                   try_bind (pebr_mk_balanced self node new_left right) (\<lambda>p self. Ret (Inr (p, v), self))))))))))"

section \<open>BonsaiTreeMap\<close>

definition pebr_bonsai_new :: "addr \<Rightarrow> ('k, 'v, unit) bonsai_prog" where
  "pebr_bonsai_new self = Store (self, Root) null (Ret ())"

fun pebr_bonsai_search :: "nat \<Rightarrow> nat \<Rightarrow> shared \<Rightarrow> 'k::linorder \<Rightarrow> ('k, 'v, shield_error + shared) bonsai_prog" where
  "pebr_bonsai_search 0 sh node k = Out_of_fuel"
| "pebr_bonsai_search (Suc n) sh node k =
     (if \<not> is_null node \<and> \<not> is_retired node then
        Defend sh node (\<lambda>d.
          case d of
            Inl e \<Rightarrow> Ret (Inl e)
          | Inr _ \<Rightarrow>
              Shield_shared sh (\<lambda>p. Deref p (\<lambda>node_ref.
                case cmp k (bkey node_ref) of
                  Equal \<Rightarrow> Ret (Inr node)
                | Less \<Rightarrow> Load (raw p, Left) (\<lambda>node. pebr_bonsai_search n sh node k)
                | Greater \<Rightarrow> Load (raw p, Right) (\<lambda>node. pebr_bonsai_search n sh node k))))
      else Ret (Inr node))"

fun pebr_bonsai_get_inner :: "nat \<Rightarrow> nat \<Rightarrow> addr \<Rightarrow> 'k::linorder \<Rightarrow> nat \<Rightarrow> ('k, 'v, shield_error + 'v option) bonsai_prog" where
  "pebr_bonsai_get_inner 0 n self k sh = Out_of_fuel"
| "pebr_bonsai_get_inner (Suc i) n self k sh =
     Load (self, Root) (\<lambda>node.
       bind (pebr_bonsai_search n sh node k) (\<lambda>r.
         case r of
           Inl e \<Rightarrow> Ret (Inl e)
         | Inr node \<Rightarrow>
             bind (is_retired_spot node) (\<lambda>b.
               if b then pebr_bonsai_get_inner i n self k sh
               else if is_null node then Ret (Inr None)
               else Shield_shared sh (\<lambda>p. Deref p (\<lambda>node_ref. Ret (Inr (Some (bvalue node_ref))))))))"

fun pebr_bonsai_get_loop ::
  "nat \<Rightarrow> nat \<Rightarrow> addr \<Rightarrow> 'k::linorder \<Rightarrow> pebr_bonsai_state \<Rightarrow> ('k, 'v, 'v option \<times> pebr_bonsai_state) bonsai_prog" where
  "pebr_bonsai_get_loop 0 n self k state = Out_of_fuel"
| "pebr_bonsai_get_loop (Suc i) n self k state =
     bind (pebr_bonsai_get_inner n n self k (root_shield state)) (\<lambda>r.
       case r of
         Inr v \<Rightarrow> Ret (v, state)
       | Inl Ejected \<Rightarrow> Release (root_shield state) (Repin (pebr_bonsai_get_loop i n self k state)))"

definition pebr_bonsai_get ::
  "addr \<Rightarrow> nat \<Rightarrow> pebr_bonsai_state \<Rightarrow> 'k::linorder \<Rightarrow> ('k, 'v, 'v option \<times> pebr_bonsai_state) bonsai_prog" where
  "pebr_bonsai_get self n state k = pebr_bonsai_get_loop n n self k state"

text \<open>One round of an update: protecting the root, then working on a copy.\<close>

definition pebr_round ::
  "pebr_bonsai_state \<Rightarrow> shared \<Rightarrow>
    (pebr_bonsai_state \<Rightarrow> ('k, 'v, (shield_error + 'a) \<times> pebr_bonsai_state) bonsai_prog) \<Rightarrow>
    ('k, 'v, (shield_error + 'a) \<times> pebr_bonsai_state) bonsai_prog" where
  "pebr_round state old_root update =
     Defend (root_shield state) old_root (\<lambda>d. case d of Inl e \<Rightarrow> Ret (Inl e, state) | Inr _ \<Rightarrow> update state)"

fun pebr_bonsai_insert_loop ::
  "nat \<Rightarrow> nat \<Rightarrow> addr \<Rightarrow> pebr_bonsai_state \<Rightarrow> 'k::linorder \<Rightarrow> 'v \<Rightarrow> ('k, 'v, bool \<times> pebr_bonsai_state) bonsai_prog" where
  "pebr_bonsai_insert_loop 0 n self state k v = Out_of_fuel"
| "pebr_bonsai_insert_loop (Suc i) n self state k v =
     Load (self, Root) (\<lambda>old_root.
       bind (pebr_round state old_root (\<lambda>state. pebr_do_insert n state old_root k v)) (\<lambda>(r, state).
         case r of
           Inl Ejected \<Rightarrow> bind (pebr_state_abort state) (\<lambda>state. Repin (pebr_bonsai_insert_loop i n self state k v))
         | Inr (new_root, inserted) \<Rightarrow>
             if is_retired new_root then
               bind (pebr_state_abort state) (\<lambda>state. pebr_bonsai_insert_loop i n self state k v)
             else
               Compare_and_set (self, Root) old_root new_root (\<lambda>r.
                 case r of
                   Inr _ \<Rightarrow> bind (pebr_state_commit state) (\<lambda>state. Ret (inserted, state))
                 | Inl _ \<Rightarrow> bind (pebr_state_abort state) (\<lambda>state. pebr_bonsai_insert_loop i n self state k v))))"

definition pebr_bonsai_insert ::
  "addr \<Rightarrow> nat \<Rightarrow> pebr_bonsai_state \<Rightarrow> 'k::linorder \<Rightarrow> 'v \<Rightarrow> ('k, 'v, bool \<times> pebr_bonsai_state) bonsai_prog" where
  "pebr_bonsai_insert self n state k v = pebr_bonsai_insert_loop n n self state k v"

fun pebr_bonsai_remove_loop ::
  "nat \<Rightarrow> nat \<Rightarrow> addr \<Rightarrow> pebr_bonsai_state \<Rightarrow> 'k::linorder \<Rightarrow> ('k, 'v, 'v option \<times> pebr_bonsai_state) bonsai_prog" where
  "pebr_bonsai_remove_loop 0 n self state k = Out_of_fuel"
| "pebr_bonsai_remove_loop (Suc i) n self state k =
     Load (self, Root) (\<lambda>old_root.
       bind (pebr_round state old_root (\<lambda>state. pebr_do_remove n state old_root k)) (\<lambda>(r, state).
         case r of
           Inl Ejected \<Rightarrow> bind (pebr_state_abort state) (\<lambda>state. Repin (pebr_bonsai_remove_loop i n self state k))
         | Inr (new_root, v) \<Rightarrow>
             if is_retired new_root then
               bind (pebr_state_abort state) (\<lambda>state. pebr_bonsai_remove_loop i n self state k)
             else
               Compare_and_set (self, Root) old_root new_root (\<lambda>r.
                 case r of
                   Inr _ \<Rightarrow> bind (pebr_state_commit state) (\<lambda>state. Ret (v, state))
                 | Inl _ \<Rightarrow> bind (pebr_state_abort state) (\<lambda>state. pebr_bonsai_remove_loop i n self state k))))"

definition pebr_bonsai_remove ::
  "addr \<Rightarrow> nat \<Rightarrow> pebr_bonsai_state \<Rightarrow> 'k::linorder \<Rightarrow> ('k, 'v, 'v option \<times> pebr_bonsai_state) bonsai_prog" where
  "pebr_bonsai_remove self n state k = pebr_bonsai_remove_loop n n self state k"

fun pebr_bonsai_drop_loop :: "nat \<Rightarrow> shared list \<Rightarrow> ('k, 'v, unit) bonsai_prog" where
  "pebr_bonsai_drop_loop 0 stack = Out_of_fuel"
| "pebr_bonsai_drop_loop (Suc n) stack =
     (if stack = [] then Ret ()
      else
        let node = last stack; stack = butlast stack in
        if is_null node then pebr_bonsai_drop_loop n stack
        else Load (raw node, Left) (\<lambda>left.
          Load (raw node, Right) (\<lambda>right.
            Drop_owned node (pebr_bonsai_drop_loop n (stack @ [left, right])))))"

definition pebr_bonsai_drop :: "nat \<Rightarrow> addr \<Rightarrow> ('k, 'v, unit) bonsai_prog" where
  "pebr_bonsai_drop n self = Load (self, Root) (\<lambda>root. pebr_bonsai_drop_loop n [root])"

definition pebr_bonsai_handle :: "('k, 'v, pebr_bonsai_state) bonsai_prog" where
  "pebr_bonsai_handle = pebr_state_new"

definition pebr_bonsai_clear :: "pebr_bonsai_state \<Rightarrow> ('k, 'v, unit) bonsai_prog" where
  "pebr_bonsai_clear handle =
     Release (root_shield handle) (
       if retired_nodes handle \<noteq> [] then Panic else if new_nodes handle \<noteq> [] then Panic else Ret ())"

text \<open>A state is dropped field by field; the vectors hold no owned nodes.\<close>

definition pebr_state_drop :: "pebr_bonsai_state \<Rightarrow> ('k, 'v, unit) bonsai_prog" where
  "pebr_state_drop self = Shield_drop (root_shield self) (shield_pool_drop (state_shields self))"

end
