(* ===== verification/Shield_Free.thy ===== *)
theory Shield_Free
  imports Pebr_Concurrent_Map
begin

text \<open>
  Code that works on shields computes on the same memory as the code without them.  A program that uses no shield
  operation behaves the same on two memories that differ in their shields only, and keeps the shields; a program that only reads
  does so without changing anything.
\<close>

lemma wp_conj: "wp p Q m \<Longrightarrow> wp p R m \<Longrightarrow> wp p (\<lambda>x m'. Q x m' \<and> R x m') m"
  by (induction p arbitrary: m) auto

primrec shield_free :: "('f, 'n, 'a) prog \<Rightarrow> bool" where
  "shield_free (Ret x) = True"
| "shield_free (Load l k) = (\<forall>p. shield_free (k p))"
| "shield_free (Store l p k) = shield_free k"
| "shield_free (Compare_and_set l p q k) = (\<forall>r. shield_free (k r))"
| "shield_free (Fetch_or l t k) = (\<forall>p. shield_free (k p))"
| "shield_free (Deref p k) = (\<forall>n. shield_free (k n))"
| "shield_free (Deref_mut p n k) = shield_free k"
| "shield_free (Owned_new n fs k) = (\<forall>p. shield_free (k p))"
| "shield_free (Drop_owned p k) = shield_free k"
| "shield_free (Drop_value p k) = shield_free k"
| "shield_free (Defer_destroy p k) = shield_free k"
| "shield_free (Shield_null k) = False"
| "shield_free (Shield_new p k) = False"
| "shield_free (Shield_drop i k) = False"
| "shield_free (Defend i p k) = False"
| "shield_free (Defend_fake i p k) = False"
| "shield_free (Release i k) = False"
| "shield_free (Shield_shared i k) = False"
| "shield_free (Repin k) = False"
| "shield_free Panic = True"
| "shield_free Out_of_fuel = True"

lemma shield_free_bind: "shield_free p \<Longrightarrow> (\<And>x. shield_free (f x)) \<Longrightarrow> shield_free (bind p f)"
  by (induction p) auto

lemma same_data_ops:
  assumes "same_data m m1"
  shows "same_data (set_cell l p m) (set_cell l p m1)" "same_data (set_obj a n m) (set_obj a n m1)"
    "same_data (alloc a n fs m) (alloc a n fs m1)" "same_data (free a m) (free a m1)" "same_data (drop_val a m) (drop_val a m1)"
    "same_data (reclaim R (retire a m)) (reclaim R (retire a m1))"
    "cell m1 = cell m" "obj m1 = obj m" "garbage m1 = garbage m" "live m1 = live m" "fresh m1 = fresh m"
  using assms by (simp_all add: same_data_def live_def[abs_def] fresh_def[abs_def])

lemma shield_free_wp:
  assumes "shield_free p" "wp p Q m" "same_data m m1"
  shows "wp p (\<lambda>x m'. \<exists>m2. same_data m2 m' \<and> shield m' = shield m1 \<and> ejections m' = ejections m1 \<and> Q x m2) m1"
  using assms
proof (induction p arbitrary: m m1)
  case (Ret x)
  then show ?case by auto
next
  case (Load l k)
  then show ?case by (auto simp: same_data_ops[OF Load.prems(3)])
next
  case (Store l p k)
  from Store.IH[OF _ _ same_data_ops(1)[OF Store.prems(3)]] Store.prems show ?case by (simp add: same_data_ops[OF Store.prems(3)])
next
  case (Compare_and_set l p q k)
  from Compare_and_set.IH[OF _ _ _ same_data_ops(1)[OF Compare_and_set.prems(3)]] Compare_and_set.IH[OF _ _ _ Compare_and_set.prems(3)]
    Compare_and_set.prems show ?case by (simp add: same_data_ops[OF Compare_and_set.prems(3)])
next
  case (Fetch_or l t k)
  from Fetch_or.IH[OF _ _ _ same_data_ops(1)[OF Fetch_or.prems(3)]] Fetch_or.prems show ?case
    by (simp add: same_data_ops[OF Fetch_or.prems(3)])
next
  case (Deref p k)
  then show ?case by (auto simp: same_data_ops[OF Deref.prems(3)])
next
  case (Deref_mut p n k)
  from Deref_mut.IH[OF _ _ same_data_ops(2)[OF Deref_mut.prems(3)]] Deref_mut.prems show ?case
    by (simp add: same_data_ops[OF Deref_mut.prems(3)])
next
  case (Owned_new n fs k)
  from Owned_new.IH[OF _ _ _ same_data_ops(3)[OF Owned_new.prems(3)]] Owned_new.prems show ?case
    by (simp add: same_data_ops[OF Owned_new.prems(3)])
next
  case (Drop_owned p k)
  from Drop_owned.IH[OF _ _ same_data_ops(4)[OF Drop_owned.prems(3)]] Drop_owned.prems show ?case
    by (simp add: same_data_ops[OF Drop_owned.prems(3)])
next
  case (Drop_value p k)
  from Drop_value.IH[OF _ _ same_data_ops(5)[OF Drop_value.prems(3)]] Drop_value.prems show ?case
    by (simp add: same_data_ops[OF Drop_value.prems(3)])
next
  case (Defer_destroy p k)
  from Defer_destroy.IH[OF _ _ same_data_ops(6)[OF Defer_destroy.prems(3)]] Defer_destroy.prems show ?case
    by (simp add: same_data_ops[OF Defer_destroy.prems(3)])
qed simp_all

primrec reading :: "('f, 'n, 'a) prog \<Rightarrow> bool" where
  "reading (Ret x) = True"
| "reading (Load l k) = (\<forall>p. reading (k p))"
| "reading (Store l p k) = False"
| "reading (Compare_and_set l p q k) = False"
| "reading (Fetch_or l t k) = False"
| "reading (Deref p k) = (\<forall>n. reading (k n))"
| "reading (Deref_mut p n k) = False"
| "reading (Owned_new n fs k) = False"
| "reading (Drop_owned p k) = False"
| "reading (Drop_value p k) = False"
| "reading (Defer_destroy p k) = False"
| "reading (Shield_null k) = False"
| "reading (Shield_new p k) = False"
| "reading (Shield_drop i k) = False"
| "reading (Defend i p k) = False"
| "reading (Defend_fake i p k) = False"
| "reading (Release i k) = False"
| "reading (Shield_shared i k) = False"
| "reading (Repin k) = False"
| "reading Panic = True"
| "reading Out_of_fuel = True"

lemma reading_bind: "reading p \<Longrightarrow> (\<And>x. reading (f x)) \<Longrightarrow> reading (bind p f)"
  by (induction p) auto

lemma reading_wp:
  assumes "reading p" "wp p Q m" "same_data m m1"
  shows "wp p (\<lambda>x m'. m' = m1 \<and> Q x m) m1"
  using assms by (induction p) (auto simp: same_data_ops[OF assms(3)])

end
