(* ===== verification/Pebr_Bonsai_Correct.thy ===== *)
theory Pebr_Bonsai_Correct
  imports Pebr_Bonsai Ebr_Bonsai_Correct Shield_Free
begin

text \<open>
  Correctness of \<^verbatim>\<open>src/src/pebr/bonsai_tree.rs\<close> run without interference, but with a guard that may be ejected at any
  protection, finitely often.  The routines that build the copy are shown to simulate those of \<^verbatim>\<open>Ebr_Bonsai\<close>, step by step: when
  no ejection occurs they do to memory and to the two lists of nodes exactly what the others do, and when one occurs the list
  of new nodes is exact, so that aborting gives back what was allocated.
\<close>

section \<open>Simulation\<close>

text \<open>The part of a state that the EBR version has.\<close>

definition core :: "pebr_bonsai_state \<Rightarrow> bonsai_state" where
  "core st = \<lparr>retired_nodes = retired_nodes st, new_nodes = new_nodes st\<rparr>"

lemma core_simps [simp]:
  "retired_nodes (core st) = retired_nodes st" "new_nodes (core st) = new_nodes st"
  "core (st\<lparr>state_shields := p\<rparr>) = core st" "core (pebr_retire_node st q) = retire_node (core st) q"
  "core (pebr_add_new_node st q) = add_new_node (core st) q"
  by (simp_all add: core_def pebr_retire_node_def pebr_add_new_node_def retire_node_def add_new_node_def)

text \<open>
  The memory \<open>m\<close> of a round that started in \<open>m0\<close>: nothing has changed but that the new nodes were allocated.
\<close>

definition in_round :: "('f, 'n) mem \<Rightarrow> bonsai_state \<Rightarrow> ('f, 'n) mem \<Rightarrow> bool" where
  "in_round m0 st m \<longleftrightarrow> extends m0 m \<and>
     (\<exists>N. new_nodes st = ptrs N \<and> distinct N \<and> (\<forall>a\<in>set N. fresh m0 a \<and> obj m a \<noteq> None) \<and>
       dom (obj m) \<subseteq> dom (obj m0) \<union> set N)"

lemma in_round_same_data: "same_data m m' \<Longrightarrow> in_round m0 st m' = in_round m0 st m"
  by (simp add: in_round_def extends_def same_data_def)

lemma in_round_new: "new_nodes st' = new_nodes st \<Longrightarrow> in_round m0 st' m = in_round m0 st m"
  by (simp add: in_round_def)

text \<open>The shields of a state: the pool is well formed, with \<open>held\<close> in use, and the root shield is not one of the pool.\<close>

definition outside :: "pebr_bonsai_state \<Rightarrow> ('f, 'n) mem \<Rightarrow> nat \<rightharpoonup> shared" where
  "outside st m = shield m |` (- set (shields (state_shields st)))"

definition shields_held :: "pebr_bonsai_state \<Rightarrow> nat list \<Rightarrow> ('f, 'n) mem \<Rightarrow> bool" where
  "shields_held st held m \<longleftrightarrow> (\<exists>lost. pool_inv (state_shields st) held lost m) \<and> outside st m (root_shield st) \<noteq> None"

definition shields_kept :: "pebr_bonsai_state \<Rightarrow> nat list \<Rightarrow> ('f, 'n) mem \<Rightarrow> pebr_bonsai_state \<Rightarrow> ('f, 'n) mem \<Rightarrow> bool" where
  "shields_kept st held m st' m' \<longleftrightarrow> shields_held st' held m' \<and> root_shield st' = root_shield st \<and>
     outside st' m' = outside st m \<and> ejections m' \<le> ejections m"

lemma shields_kept_trans: "shields_kept st held m st1 m1 \<Longrightarrow> shields_kept st1 held m1 st2 m2 \<Longrightarrow> shields_kept st held m st2 m2"
  by (simp add: shields_kept_def)

lemma shields_kept_same:
  assumes "shields_kept st held m st1 m1" "shield m2 = shield m1" "ejections m2 = ejections m1"
    and "root_shield st2 = root_shield st1" "state_shields st2 = state_shields st1"
  shows "shields_kept st held m st2 m2"
proof -
  have "shields_held st2 held m2 = shields_held st1 held m1" "outside st2 m2 = outside st1 m1"
    using assms(2,4,5) by (simp_all add: shields_held_def outside_def pool_inv_def)
  with assms(1,3,4) show ?thesis by (simp add: shields_kept_def)
qed

lemma shields_kept_refl [simp]: "shields_kept st held m st m \<longleftrightarrow> shields_held st held m"
  by (simp add: shields_kept_def)

definition sim_post ::
  "('a \<times> bonsai_state \<Rightarrow> ('k, 'v) bonsai_mem \<Rightarrow> bool) \<Rightarrow> ('k, 'v) bonsai_mem \<Rightarrow> pebr_bonsai_state \<Rightarrow> nat list \<Rightarrow> ('k, 'v) bonsai_mem \<Rightarrow>
    (shield_error + 'a) \<times> pebr_bonsai_state \<Rightarrow> ('k, 'v) bonsai_mem \<Rightarrow> bool" where
  "sim_post Q m0 st held m1 x m' \<longleftrightarrow> shields_kept st held m1 (snd x) m' \<and> in_round m0 (core (snd x)) m' \<and>
     (case fst x of Inl _ \<Rightarrow> ejections m' < ejections m1 | Inr r \<Rightarrow> \<exists>m2. same_data m2 m' \<and> Q (r, core (snd x)) m2)"

definition simulates ::
  "('k, 'v, 'a \<times> bonsai_state) bonsai_prog \<Rightarrow> pebr_bonsai_state \<Rightarrow> ('k, 'v, (shield_error + 'a) \<times> pebr_bonsai_state) bonsai_prog \<Rightarrow> bool" where
  "simulates p st q \<longleftrightarrow> (\<forall>Q m0 m m1 held. wp p Q m \<longrightarrow> in_round m0 (core st) m \<longrightarrow> same_data m m1 \<longrightarrow> shields_held st held m1 \<longrightarrow>
     wp q (sim_post Q m0 st held m1) m1)"

lemma simulatesD:
  "simulates p st q \<Longrightarrow> wp p Q m \<Longrightarrow> in_round m0 (core st) m \<Longrightarrow> same_data m m1 \<Longrightarrow> shields_held st held m1 \<Longrightarrow>
    wp q (sim_post Q m0 st held m1) m1"
  unfolding simulates_def by blast

lemma simulatesI:
  "(\<And>Q m0 m m1 held. wp p Q m \<Longrightarrow> in_round m0 (core st) m \<Longrightarrow> same_data m m1 \<Longrightarrow> shields_held st held m1 \<Longrightarrow>
    wp q (sim_post Q m0 st held m1) m1) \<Longrightarrow> simulates p st q"
  unfolding simulates_def by blast

lemma sim_post_trans:
  assumes "shields_kept st held m1 st2 m2" "sim_post Q m0 st2 held m2 x m'"
  shows "sim_post Q m0 st held m1 x m'"
  using assms shields_kept_trans[of st held m1 st2 m2 "snd x" m'] by (auto simp: sim_post_def shields_kept_def split: sum.splits)

section \<open>Simulation, construct by construct\<close>

lemma sim_Ret:
  assumes "core st' = est" "root_shield st' = root_shield st" "state_shields st' = state_shields st" "new_nodes st' = new_nodes st"
  shows "simulates (Ret (x, est) :: ('k, 'v, _) bonsai_prog) st (Ret (Inr x, st'))"
proof (rule simulatesI)
  fix Q and m0 m m1 :: "('k, 'v) bonsai_mem" and held
  assume *: "wp (Ret (x, est)) Q m" "in_round m0 (core st) m" "same_data m m1" "shields_held st held m1"
  have "shields_kept st held m1 st' m1" using *(4) assms(2,3) by (auto intro: shields_kept_same[of st held m1 st m1 m1 st'])
  moreover have "in_round m0 (core st') m1" using *(2) assms(4) by (simp add: in_round_same_data[OF *(3)] in_round_new[of "core st'" "core st"])
  ultimately show "wp (Ret (Inr x, st')) (sim_post Q m0 st held m1) m1" using * assms(1) by (auto simp: sim_post_def)
qed

lemma sim_state:
  assumes "simulates p st' q" "root_shield st' = root_shield st" "state_shields st' = state_shields st" "new_nodes st' = new_nodes st"
  shows "simulates p st q"
proof (rule simulatesI)
  fix Q m0 m m1 held
  assume *: "wp p Q m" "in_round m0 (core st) m" "same_data m m1" "shields_held st held m1"
  have k: "shields_kept st held m1 st' m1" using *(4) assms(2,3) by (auto intro: shields_kept_same[of st held m1 st m1 m1 st'])
  have "wp q (sim_post Q m0 st' held m1) m1"
    using * assms(4) k by (intro simulatesD[OF assms(1) *(1)]) (simp_all add: shields_kept_def in_round_new[of "core st'" "core st"])
  then show "wp q (sim_post Q m0 st held m1) m1" by (rule wp_mono) (rule sim_post_trans[OF k])
qed

lemma sim_Load:
  assumes "\<And>p. simulates (P p) st (K p)"
  shows "simulates (Load l P) st (Load l K)"
proof (rule simulatesI)
  fix Q m0 m m1 held
  assume *: "wp (Load l P) Q m" "in_round m0 (core st) m" "same_data m m1" "shields_held st held m1"
  with simulatesD[OF assms _ *(2-4)] show "wp (Load l K) (sim_post Q m0 st held m1) m1" by (simp add: same_data_ops[OF *(3)])
qed

lemma sim_Deref:
  assumes "\<And>n. simulates (P n) st (K n)"
  shows "simulates (Deref p P) st (Deref p K)"
proof (rule simulatesI)
  fix Q m0 m m1 held
  assume *: "wp (Deref p P) Q m" "in_round m0 (core st) m" "same_data m m1" "shields_held st held m1"
  then obtain n where "obj m (raw p) = Some n" "wp (P n) Q m" by auto
  with simulatesD[OF assms _ *(2-4)] show "wp (Deref p K) (sim_post Q m0 st held m1) m1" by (simp add: same_data_ops[OF *(3)])
qed

lemma sim_Panic: "simulates Panic st K" "simulates Out_of_fuel st K"
  unfolding simulates_def by simp_all

lemma sim_read:
  assumes "reading r" "\<And>b. simulates (P b) st (K b)"
  shows "simulates (bind r P) st (bind r K)"
proof (rule simulatesI)
  fix Q m0 m m1 held
  assume *: "wp (bind r P) Q m" "in_round m0 (core st) m" "same_data m m1" "shields_held st held m1"
  have "wp r (\<lambda>b m'. m' = m1 \<and> wp (P b) Q m) m1" by (rule reading_wp[OF assms(1) _ *(3)]) (use *(1) in \<open>simp add: wp_bind\<close>)
  then show "wp (bind r K) (sim_post Q m0 st held m1) m1"
    by (rule wp_bind_mono) (use *(2-4) simulatesD[OF assms(2)] in blast)
qed

lemma sim_bind:
  assumes "simulates p st q" "\<And>x e st'. core st' = e \<Longrightarrow> simulates (P (x, e)) st' (K x st')"
  shows "simulates (bind p P) st (try_bind q K)"
proof (rule simulatesI)
  fix Q m0 m m1 held
  assume *: "wp (bind p P) Q m" "in_round m0 (core st) m" "same_data m m1" "shields_held st held m1"
  have "wp q (sim_post (\<lambda>x. wp (P x) Q) m0 st held m1) m1"
    by (rule simulatesD[OF assms(1) _ *(2-4)]) (use *(1) in \<open>simp add: wp_bind\<close>)
  then show "wp (try_bind q K) (sim_post Q m0 st held m1) m1"
    unfolding try_bind_def
  proof (rule wp_bind_mono, goal_cases)
    case (1 x m')
    obtain r st' where x: "x = (r, st')" by (cases x)
    show ?case
    proof (cases r)
      case (Inl e)
      with 1 x show ?thesis by (simp add: sim_post_def)
    next
      case (Inr y)
      with 1 x obtain m2 where m2: "same_data m2 m'" "wp (P (y, core st')) Q m2" and k: "shields_kept st held m1 st' m'" "in_round m0 (core st') m'"
        by (auto simp: sim_post_def)
      have "wp (K y st') (sim_post Q m0 st' held m') m'"
        using m2 k in_round_same_data[OF m2(1)] by (intro simulatesD[OF assms(2)[OF refl]]) (auto simp: shields_kept_def)
      then have "wp (K y st') (sim_post Q m0 st held m1) m'" by (rule wp_mono) (rule sim_post_trans[OF k(1)])
      with x Inr show ?thesis by simp
    qed
  qed
qed

text \<open>Whatever the outcome, a node is added to the list of those to be retired.\<close>

lemma sim_retire:
  assumes "simulates p st q"
  shows "simulates (bind p (\<lambda>(x, st). Ret (x, retire_node st c))) st (bind q (\<lambda>(r, st). Ret (r, pebr_retire_node st c)))"
proof (rule simulatesI)
  fix Q m0 m m1 held
  assume *: "wp (bind p (\<lambda>(x, st). Ret (x, retire_node st c))) Q m" "in_round m0 (core st) m" "same_data m m1" "shields_held st held m1"
  have "wp q (sim_post (\<lambda>(x, st). Q (x, retire_node st c)) m0 st held m1) m1"
    by (rule simulatesD[OF assms _ *(2-4)]) (use *(1) in \<open>simp add: wp_bind case_prod_unfold\<close>)
  then show "wp (bind q (\<lambda>(r, st). Ret (r, pebr_retire_node st c))) (sim_post Q m0 st held m1) m1"
  proof (rule wp_bind_mono, goal_cases)
    case (1 x m')
    obtain r st' where x: "x = (r, st')" by (cases x)
    have "shields_kept st held m1 (pebr_retire_node st' c) m'"
      by (rule shields_kept_same[of st held m1 st' m']) (use 1 x in \<open>simp_all add: sim_post_def pebr_retire_node_def\<close>)
    with 1 x show ?case by (auto simp: sim_post_def in_round_def retire_node_def split: sum.splits)
  qed
qed

lemma infallible_simps [simp]:
  "infallible (Ret (x, st)) = Ret (Inr x, st)" "infallible (Deref p K') = Deref p (\<lambda>n. infallible (K' n))"
  "infallible (Load l K) = Load l (\<lambda>q. infallible (K q))" "infallible (Owned_new n fs K) = Owned_new n fs (\<lambda>q. infallible (K q))"
  "infallible (bind r K2) = bind r (\<lambda>y. infallible (K2 y))"
  by (simp_all add: infallible_def bind_assoc)

lemma sim_bind_infallible:
  assumes "simulates p st (infallible q)" "\<And>x e st'. core st' = e \<Longrightarrow> simulates (P (x, e)) st' (K (x, st'))"
  shows "simulates (bind p P) st (bind q K)"
proof -
  have "try_bind (infallible q) (\<lambda>x st. K (x, st)) = bind q K"
    by (auto simp: try_bind_def infallible_def bind_assoc intro!: arg_cong[where f = "bind q"])
  with sim_bind[OF assms(1), of P "\<lambda>x st. K (x, st)"] assms(2) show ?thesis by simp
qed

lemma sim_with_shield:
  assumes "core st = e" and body: "\<And>st'. core st' = e \<Longrightarrow> simulates p st' (K st')"
  shows "simulates p st (with_shield ptr st K)"
proof (rule simulatesI)
  fix Q m0 m m1 held
  assume *: "wp p Q m" "in_round m0 (core st) m" "same_data m m1" "shields_held st held m1"
  then obtain lost where pool: "pool_inv (state_shields st) held lost m1" "outside st m1 (root_shield st) \<noteq> None"
    by (auto simp: shields_held_def)
  have data: "wp (shield_pool_defend (state_shields st) ptr) (\<lambda>_ m'. same_data m m' \<and> ejections m' \<le> ejections m1) m1"
    using pool_inv_indices(2)[OF pool(1)] *(3) pool(1)
    by (auto simp: shield_pool_defend_def Let_def pool_inv_def dest!: last_in_set)
  show "wp (with_shield ptr st K) (sim_post Q m0 st held m1) m1"
    unfolding with_shield_def
  proof (rule wp_bind_mono[OF wp_conj[OF shield_pool_defend_outside[OF pool(1), of ptr] data]], goal_cases)
    case (1 x m')
    obtain r pool' where x: "x = (r, pool')" by (cases x)
    let ?st = "st\<lparr>state_shields := pool'\<rparr>"
    from 1 x have d: "defend_post (state_shields st) held lost ptr m1 r pool' m'" "outside ?st m' = outside st m1"
      "same_data m m'" "ejections m' \<le> ejections m1" by (simp_all add: outside_def)
    have rd: "in_round m0 (core ?st) m'" using *(2) by (simp add: in_round_same_data[OF d(3)])
    have held: "shields_kept st held' m1 ?st m'" if "\<exists>lost. pool_inv pool' held' lost m'" for held'
      using that d(2,4) pool(2) by (simp add: shields_kept_def shields_held_def)
    show ?case
    proof (cases r)
      case (Inl e)
      then have "\<exists>lost. pool_inv pool' held lost m'" "ejections m' < ejections m1"
        using d(1) by (cases e; auto simp: defend_post_def split: if_splits)+
      with held[of held] rd x Inl show ?thesis by (simp add: sim_post_def Let_def)
    next
      case (Inr i)
      then have pi: "pool_inv pool' (held @ [i]) lost m'" "i \<notin> set held" using d(1) by (simp_all add: defend_post_def)
      have k: "shields_kept st (held @ [i]) m1 ?st m'" using held pi(1) by blast
      have "wp (K ?st) (sim_post Q m0 ?st (held @ [i]) m') m'"
        using body[of ?st] assms(1) *(1,2) d(3) k by (intro simulatesD[of p]) (simp_all add: shields_kept_def)
      then have "wp (bind (K ?st) (\<lambda>(r, self). bind (shield_handle_drop (state_shields self) i) (\<lambda>pool. Ret (r, self\<lparr>state_shields := pool\<rparr>))))
          (sim_post Q m0 st held m1) m'"
      proof (rule wp_bind_mono, goal_cases)
        case (1 y m2)
        obtain r2 st2 where y: "y = (r2, st2)" by (cases y)
        from 1 y have k2: "shields_kept ?st (held @ [i]) m' st2 m2" by (simp add: sim_post_def)
        then obtain lost2 where p2: "pool_inv (state_shields st2) (held @ [i]) lost2 m2" "outside st2 m2 (root_shield st2) \<noteq> None"
          by (auto simp: shields_kept_def shields_held_def)
        have ix: "i < length (shields (state_shields st2))" using pool_inv_indices(2)[OF p2(1)] by auto
        have data2: "wp (shield_handle_drop (state_shields st2) i) (\<lambda>_ m3. same_data m2 m3 \<and> ejections m3 = ejections m2) m2"
          using ix p2(1) by (auto simp: shield_handle_drop_def pool_inv_def)
        have iin: "i \<in> set (held @ [i])" by simp
        have "wp (bind (shield_handle_drop (state_shields st2) i) (\<lambda>pool. Ret (r2, st2\<lparr>state_shields := pool\<rparr>))) (sim_post Q m0 st held m1) m2"
        proof (rule wp_bind_mono[OF wp_conj[OF shield_handle_drop_wp[OF p2(1) iin] data2]], goal_cases)
          case (1 pool3 m3)
          let ?st3 = "st2\<lparr>state_shields := pool3\<rparr>"
          have rm: "remove1 i (held @ [i]) = held" using pi(2) by (simp add: remove1_append)
          have "outside ?st3 m3 = outside st2 m2" using 1 ix by (auto simp: outside_def restrict_map_def fun_eq_iff)
          then have k3: "shields_kept st held m1 ?st3 m3"
            using 1 k k2 rm by (auto simp: shields_kept_def shields_held_def)
          have sd: "same_data m2 m3" using 1 by simp
          have "in_round m0 (core ?st3) m3" using \<open>sim_post Q m0 ?st (held @ [i]) m' y m2\<close> y by (simp add: sim_post_def in_round_same_data[OF sd])
          with k3 show ?case
            using \<open>sim_post Q m0 ?st (held @ [i]) m' y m2\<close> y 1 d(4) k2 same_data_trans[OF _ sd]
            by (auto simp: sim_post_def shields_kept_def split: sum.splits)
        qed
        with y show ?case by simp
      qed
      with Inr x show ?thesis by (simp add: Let_def)
    qed
  qed
qed

lemma sim_new:
  assumes "core st = e"
  shows "simulates (Owned_new nd fs (\<lambda>p. Ret (p, add_new_node e p))) st (Owned_new nd fs (\<lambda>p. Ret (Inr p, pebr_add_new_node st p)))"
proof (rule simulatesI)
  fix Q m0 m m1 held
  assume *: "wp (Owned_new nd fs (\<lambda>p. Ret (p, add_new_node e p))) Q m" "in_round m0 (core st) m" "same_data m m1" "shields_held st held m1"
  note sd = same_data_ops[OF *(3)]
  have "sim_post Q m0 st held m1 (Inr (Shared a 0), pebr_add_new_node st (Shared a 0)) (alloc a nd fs m1)" if a: "fresh m a" for a
  proof -
    from *(2) obtain N where N: "extends m0 m" "new_nodes st = ptrs N" "distinct N" "\<forall>a\<in>set N. fresh m0 a \<and> obj m a \<noteq> None"
      "dom (obj m) \<subseteq> dom (obj m0) \<union> set N"
      by (auto simp: in_round_def)
    have "in_round m0 (core (pebr_add_new_node st (Shared a 0))) (alloc a nd fs m)"
      unfolding in_round_def
    proof (intro conjI exI[of _ "N @ [a]"])
      show "extends m0 (alloc a nd fs m)" using extends_trans[OF N(1) extends_alloc[OF a]] .
      show "distinct (N @ [a])" using N(3,4) a by (auto simp: fresh_def)
      show "\<forall>b\<in>set (N @ [a]). fresh m0 b \<and> obj (alloc a nd fs m) b \<noteq> None" using N(4) fresh_extends[OF N(1) a] by auto
      show "dom (obj (alloc a nd fs m)) \<subseteq> dom (obj m0) \<union> set (N @ [a])" using N(5) by auto
    qed (use N(2) in \<open>simp add: pebr_add_new_node_def\<close>)
    moreover have "shields_kept st held m1 (pebr_add_new_node st (Shared a 0)) (alloc a nd fs m1)"
      by (rule shields_kept_same[of st held m1 st m1]) (use *(4) in \<open>simp_all add: pebr_add_new_node_def\<close>)
    ultimately show ?thesis
      using *(1) a assms sd(3)[of a nd fs] by (auto simp: sim_post_def in_round_same_data[OF sd(3)])
  qed
  then show "wp (Owned_new nd fs (\<lambda>p. Ret (Inr p, pebr_add_new_node st p))) (sim_post Q m0 st held m1) m1"
    by (simp add: sd)
qed

section \<open>The routines of the state\<close>

lemma reading_routines [simp]:
  "reading (or_else p q) \<longleftrightarrow> reading (bind p (\<lambda>b. if b then Ret True else q))" "reading (is_retired_spot x)" "reading (node_size x)"
  by (auto simp: or_else_def is_retired_spot_def node_size_def intro: reading_bind)

lemma reading_spots: "reading (or_else (is_retired_spot x) (is_retired_spot y))"
  "reading (or_else (is_retired_spot x) (or_else (is_retired_spot y) (is_retired_spot z)))"
  by (auto simp: or_else_def intro!: reading_bind)

lemma sim_if: "(b \<Longrightarrow> simulates p st q) \<Longrightarrow> (\<not> b \<Longrightarrow> simulates p' st q') \<Longrightarrow> simulates (if b then p else p') st (if b then q else q')"
  by simp

lemma sim_cmp:
  "(c = Less \<Longrightarrow> simulates p1 st q1) \<Longrightarrow> (c = Equal \<Longrightarrow> simulates p2 st q2) \<Longrightarrow> (c = Greater \<Longrightarrow> simulates p3 st q3) \<Longrightarrow>
    simulates (case c of Less \<Rightarrow> p1 | Equal \<Rightarrow> p2 | Greater \<Rightarrow> p3) st (case c of Less \<Rightarrow> q1 | Equal \<Rightarrow> q2 | Greater \<Rightarrow> q3)"
  by (cases c) simp_all

text \<open>The rules for calls, with the pairs of their results taken apart.\<close>

lemma sim_call:
  assumes "simulates p st (infallible q)" "\<And>x e st'. core st' = e \<Longrightarrow> simulates (P x e) st' (K x st')"
  shows "simulates (bind p (\<lambda>(x, e). P x e)) st (bind q (\<lambda>(x, st). K x st))"
  by (rule sim_bind_infallible[OF assms(1)]) (simp add: assms(2))

lemma sim_try:
  assumes "simulates p st q" "\<And>x e st'. core st' = e \<Longrightarrow> simulates (P x e) st' (K x st')"
  shows "simulates (bind p (\<lambda>(x, e). P x e)) st (try_bind q K)"
  by (rule sim_bind[OF assms(1)]) (simp add: assms(2))

lemma sim_try_pair:
  assumes "simulates p st q" "\<And>x y e st'. core st' = e \<Longrightarrow> simulates (P x y e) st' (K x y st')"
  shows "simulates (bind p (\<lambda>((x, y), e). P x y e)) st (try_bind q (\<lambda>(x, y) st. K x y st))"
  by (rule sim_bind[OF assms(1)]) (auto simp: assms(2) split: prod.splits)

lemmas sim_rules = sim_Load sim_Deref sim_call sim_try_pair sim_try sim_with_shield sim_read reading_spots reading_routines(2,3)
  sim_if sim_cmp

lemma sim_mk_node: "core st = e \<Longrightarrow> simulates (mk_node e left right k v) st (infallible (pebr_mk_node st left right k v))"
  unfolding mk_node_def pebr_mk_node_def infallible_simps if_distrib[of infallible]
  by (intro sim_read sim_if sim_Ret sim_new reading_spots reading_routines) simp_all

lemma sim_return:
  "core st = e \<Longrightarrow> simulates (Ret (x, e)) st (Ret (Inr x, st))"
  "core st = e \<Longrightarrow> simulates (Ret (x, retire_node e p)) st (Ret (Inr x, pebr_retire_node st p))"
  "core st = e \<Longrightarrow> simulates (Ret (x, retire_node (retire_node e p) q)) st (Ret (Inr x, pebr_retire_node (pebr_retire_node st p) q))"
  by (auto intro!: sim_Ret simp: pebr_retire_node_def core_def retire_node_def)

lemma sim_single_left:
  "core st = e \<Longrightarrow> simulates (single_left e left right rl rr k v) st (infallible (pebr_single_left st left right rl rr k v))"
  unfolding single_left_def pebr_single_left_def infallible_simps prod.case_distrib[of infallible]
  by (assumption | rule sim_rules sim_mk_node sim_return)+

lemma sim_single_right:
  "core st = e \<Longrightarrow> simulates (single_right e left right lr ll k v) st (infallible (pebr_single_right st left right lr ll k v))"
  unfolding single_right_def pebr_single_right_def infallible_simps prod.case_distrib[of infallible]
  by (assumption | rule sim_rules sim_mk_node sim_return)+

lemma sim_double_left:
  "core st = e \<Longrightarrow> simulates (double_left e left right rl rr k v) st (pebr_double_left st left right rl rr k v)"
  unfolding double_left_def pebr_double_left_def
  by (assumption | rule sim_rules sim_mk_node sim_return)+

lemma sim_double_right:
  "core st = e \<Longrightarrow> simulates (double_right e left right lr ll k v) st (pebr_double_right st left right lr ll k v)"
  unfolding double_right_def pebr_double_right_def
  by (assumption | rule sim_rules sim_mk_node sim_return)+

lemma sim_mk_balanced_left:
  "core st = e \<Longrightarrow> simulates (mk_balanced_left e left right k v) st (pebr_mk_balanced_left st left right k v)"
  unfolding mk_balanced_left_def pebr_mk_balanced_left_def
  by (assumption | rule sim_rules sim_single_left sim_double_left sim_return)+

lemma sim_mk_balanced_right:
  "core st = e \<Longrightarrow> simulates (mk_balanced_right e left right k v) st (pebr_mk_balanced_right st left right k v)"
  unfolding mk_balanced_right_def pebr_mk_balanced_right_def
  by (assumption | rule sim_rules sim_single_right sim_double_right sim_return)+

lemma sim_mk_balanced:
  "core st = e \<Longrightarrow> simulates (mk_balanced e cur left right) st (pebr_mk_balanced st cur left right)"
  unfolding mk_balanced_def pebr_mk_balanced_def
  by (assumption | rule sim_rules(7-) sim_retire sim_Deref sim_mk_node sim_mk_balanced_left sim_mk_balanced_right sim_return)+

lemma sim_do_insert: "core st = e \<Longrightarrow> simulates (do_insert n e node k v) st (pebr_do_insert n st node k v)"
proof (induction n arbitrary: st e node)
  case (Suc n)
  show ?case
    unfolding do_insert.simps pebr_do_insert.simps
    by (assumption | rule Suc.prems sim_rules Suc.IH sim_mk_node sim_mk_balanced sim_return)+
qed (simp add: sim_Panic)

text \<open>Protecting the subtree that was just built costs no step of the simulated code.\<close>

lemma sim_rebalance:
  assumes "core st = e"
  shows "simulates (bind (mk_balanced e cur left right) (\<lambda>(p, e). Ret ((p, x), e))) st
    (with_shield q st (\<lambda>st. try_bind (pebr_mk_balanced st cur left right) (\<lambda>p st. Ret (Inr (p, x), st))))"
  by (assumption | rule assms sim_with_shield sim_try sim_mk_balanced sim_return)+

lemma sim_pull_leftmost: "core st = e \<Longrightarrow> simulates (pull_leftmost n e node) st (pebr_pull_leftmost n st node)"
proof (induction n arbitrary: st e node)
  case (Suc n)
  show ?case
    unfolding pull_leftmost.simps pebr_pull_leftmost.simps
    by (assumption | rule Suc.prems sim_rebalance sim_rules Suc.IH sim_mk_node sim_mk_balanced sim_return)+
qed (simp add: sim_Panic)

lemma sim_pull_rightmost: "core st = e \<Longrightarrow> simulates (pull_rightmost n e node) st (pebr_pull_rightmost n st node)"
proof (induction n arbitrary: st e node)
  case (Suc n)
  show ?case
    unfolding pull_rightmost.simps pebr_pull_rightmost.simps
    by (assumption | rule Suc.prems sim_rebalance sim_rules Suc.IH sim_mk_node sim_mk_balanced sim_return)+
qed (simp add: sim_Panic)

lemma sim_pull_after_retire:
  assumes "core st = e"
  shows "simulates (bind (pull_rightmost n (retire_node e c) x) (\<lambda>((q, succ), e). bind (mk_balanced e succ q r) (\<lambda>(p, e). Ret ((p, v), e)))) st
      (try_bind (pebr_pull_rightmost n (pebr_retire_node st c) x) (\<lambda>(q, succ) st.
        with_shield q st (\<lambda>st. try_bind (pebr_mk_balanced st succ q r) (\<lambda>p st. Ret (Inr (p, v), st)))))"
    "simulates (bind (pull_leftmost n (retire_node e c) x) (\<lambda>((q, succ), e). bind (mk_balanced e succ l q) (\<lambda>(p, e). Ret ((p, v), e)))) st
      (try_bind (pebr_pull_leftmost n (pebr_retire_node st c) x) (\<lambda>(q, succ) st.
        with_shield q st (\<lambda>st. try_bind (pebr_mk_balanced st succ l q) (\<lambda>p st. Ret (Inr (p, v), st)))))"
proof -
  have c: "core (pebr_retire_node st c) = retire_node e c" using assms by simp
  show "simulates (bind (pull_rightmost n (retire_node e c) x) (\<lambda>((q, succ), e). bind (mk_balanced e succ q r) (\<lambda>(p, e). Ret ((p, v), e)))) st
      (try_bind (pebr_pull_rightmost n (pebr_retire_node st c) x) (\<lambda>(q, succ) st.
        with_shield q st (\<lambda>st. try_bind (pebr_mk_balanced st succ q r) (\<lambda>p st. Ret (Inr (p, v), st)))))"
    by (rule sim_state[of _ "pebr_retire_node st c"], rule sim_try_pair[OF sim_pull_rightmost[OF c] sim_rebalance])
      (simp_all add: pebr_retire_node_def)
  show "simulates (bind (pull_leftmost n (retire_node e c) x) (\<lambda>((q, succ), e). bind (mk_balanced e succ l q) (\<lambda>(p, e). Ret ((p, v), e)))) st
      (try_bind (pebr_pull_leftmost n (pebr_retire_node st c) x) (\<lambda>(q, succ) st.
        with_shield q st (\<lambda>st. try_bind (pebr_mk_balanced st succ l q) (\<lambda>p st. Ret (Inr (p, v), st)))))"
    by (rule sim_state[of _ "pebr_retire_node st c"], rule sim_try_pair[OF sim_pull_leftmost[OF c] sim_rebalance])
      (simp_all add: pebr_retire_node_def)
qed

lemma sim_do_remove: "core st = e \<Longrightarrow> simulates (do_remove n e node k) st (pebr_do_remove n st node k)"
proof (induction n arbitrary: st e node)
  case (Suc n)
  show ?case
    unfolding do_remove.simps pebr_do_remove.simps Let_def
    by (assumption | rule Suc.prems sim_pull_after_retire sim_rules Suc.IH sim_mk_balanced sim_return)+
qed (simp add: sim_Panic)

section \<open>Rounds\<close>

lemma untouched_bonsai:
  assumes "bonsai_inv m self t" "untouched fs m m'"
  shows "bonsai_inv m' self t"
proof -
  have t: "tree_at m (cell m (self, Root)) t" "self \<in> statics m" "garbage_ok m" using assms(1) by (auto simp: bonsai_inv_def)
  have keep: "obj m' a = obj m a" "\<forall>f. cell m' (a, f) = cell m (a, f)" if "live m a" "a \<notin> set (garbage m)" for a
    using assms(2) that unfolding untouched_def by blast+
  have u: "statics m' = statics m" "set (garbage m') \<subseteq> set (garbage m)" "garbage_ok m'" using assms(2) t(3) unfolding untouched_def by blast+
  have "tree_at m' (cell m (self, Root)) t"
    by (rule tree_at_cong[OF t(1) u(1)]) (use keep tree_at_addr[OF t(1)] u(2) in \<open>auto simp: live_def\<close>)
  moreover have "live m self" "self \<notin> set (garbage m)" using t(2,3) by (auto simp: live_def garbage_ok_def)
  ultimately show ?thesis using assms(1) keep(2)[of self] u by (simp add: bonsai_inv_def)
qed

lemma same_data_bonsai:
  assumes "same_data m m'"
  shows "bonsai_inv m' self t = bonsai_inv m self t" "bonsai_step self m0 t0 m' t = bonsai_step self m0 t0 m t"
proof -
  have s: "same_data m' m" by (rule same_data_sym[OF assms])
  show "bonsai_inv m' self t = bonsai_inv m self t"
    using untouched_bonsai[OF _ untouched_same_data[OF assms]] untouched_bonsai[OF _ untouched_same_data[OF s]] by blast
  show "bonsai_step self m0 t0 m' t = bonsai_step self m0 t0 m t"
    using assms same_data_basic(4)[OF assms] by (simp add: bonsai_step_def same_data_def)
qed

text \<open>A handle between two points of a call: the same root shield, and no shield touched but that and those of the pool.\<close>

definition steady :: "pebr_bonsai_state \<Rightarrow> ('f, 'n) mem \<Rightarrow> pebr_bonsai_state \<Rightarrow> ('f, 'n) mem \<Rightarrow> bool" where
  "steady st m st' m' \<longleftrightarrow> shields_held st' [] m' \<and> root_shield st' = root_shield st \<and> ejections m' \<le> ejections m \<and>
     (\<forall>i. i \<noteq> root_shield st \<longrightarrow> outside st' m' i = outside st m i)"

lemma steady_trans: "steady st m st1 m1 \<Longrightarrow> steady st1 m1 st2 m2 \<Longrightarrow> steady st m st2 m2"
  by (simp add: steady_def)

lemma steady_refl [simp]: "steady st m st m \<longleftrightarrow> shields_held st [] m"
  by (simp add: steady_def)

lemma steady_root:
  assumes "steady st m st' m'"
  shows "steady st m st' (set_shield (root_shield st) (Some q) m')" "shield m' (root_shield st) \<noteq> None"
proof -
  show "shield m' (root_shield st) \<noteq> None" using assms by (auto simp: steady_def shields_held_def outside_def restrict_map_def split: if_splits)
  show "steady st m st' (set_shield (root_shield st) (Some q) m')"
    using assms by (auto simp: steady_def shields_held_def outside_def pool_inv_def restrict_map_def split: if_splits)
qed

lemma steady_same:
  assumes "steady st m st1 m1" "shield m2 = shield m1" "ejections m2 = ejections m1"
    and "root_shield st2 = root_shield st1" "state_shields st2 = state_shields st1"
  shows "steady st m st2 m2"
proof -
  have "shields_held st2 [] m2 = shields_held st1 [] m1" "outside st2 m2 = outside st1 m1"
    using assms(2,4,5) by (simp_all add: shields_held_def outside_def pool_inv_def)
  with assms(1,3,4) show ?thesis by (simp add: steady_def)
qed

lemma pebr_round_wp:
  assumes sim: "simulates p st (U st)" and p: "wp p Q m" and st: "core st = state_new" "shields_held st [] m"
  shows "wp (pebr_round st old U) (\<lambda>(r, st') m'. steady st m st' m' \<and> in_round m (core st') m' \<and>
    (case r of Inl _ \<Rightarrow> ejections m' < ejections m | Inr x \<Rightarrow> \<exists>m2. same_data m2 m' \<and> Q (x, core st') m2)) m"
proof -
  have s0: "steady st m st m" using st(2) by simp
  note root = steady_root[OF s0]
  have rd: "in_round m (core st) m" using st(1) by (auto simp: in_round_def state_new_def intro!: exI[of _ "[]"])
  let ?m1 = "set_shield (root_shield st) (Some old) m"
  have "wp (U st) (sim_post Q m st [] ?m1) ?m1"
    by (rule simulatesD[OF sim p rd]) (use root(1)[of old] in \<open>simp_all add: steady_def\<close>)
  then have "wp (U st) (\<lambda>(r, st') m'. steady st m st' m' \<and> in_round m (core st') m' \<and>
    (case r of Inl _ \<Rightarrow> ejections m' < ejections m | Inr x \<Rightarrow> \<exists>m2. same_data m2 m' \<and> Q (x, core st') m2)) ?m1"
  proof (rule wp_mono, goal_cases)
    case (1 x m')
    obtain r st' where x: "x = (r, st')" by (cases x)
    with 1 have k: "shields_kept st [] ?m1 st' m'" by (simp add: sim_post_def)
    then have "steady st ?m1 st' m'" by (simp add: steady_def shields_kept_def)
    with 1 x steady_trans[OF root(1)[of old]] show ?case by (auto simp: sim_post_def split: sum.splits)
  qed
  moreover have "steady st m st (use_ejection (set_shield (root_shield st) (Some q) m))" for q
    using root(1)[of q] by (auto simp: steady_def shields_held_def outside_def)
  moreover have "in_round m (core st) (use_ejection (set_shield (root_shield st) (Some q) m))" for q
    using rd by (simp add: in_round_def extends_def)
  ultimately show ?thesis using root(2) by (simp add: pebr_round_def)
qed

lemma pebr_state_abort_loop_eq: "pebr_state_abort_loop ns = state_abort_loop ns"
  by (induction ns) auto

lemma pebr_state_commit_loop_eq: "pebr_state_commit_loop ns = state_commit_loop ns"
  by (induction ns) auto

lemma shield_free_loops: "shield_free (state_abort_loop ns)" "shield_free (state_commit_loop ms)"
  by (induction ns, simp_all, induction ms, simp_all)

lemma core_cleared [simp]: "core (st\<lparr>retired_nodes := [], new_nodes := []\<rparr>) = state_new"
  by (simp add: core_def state_new_def)

text \<open>Giving up a round frees its nodes, and nothing else has changed.\<close>

lemma pebr_state_abort_wp:
  assumes rd: "in_round m (core st') m'" and g: "garbage_ok m" and s: "steady st m st' m'"
  shows "wp (pebr_state_abort st') (\<lambda>st2 m2. core st2 = state_new \<and> steady st m st2 m2 \<and> ejections m2 = ejections m' \<and>
    (\<exists>fs. untouched fs m m2)) m'"
proof -
  from rd obtain N where N: "extends m m'" "new_nodes st' = ptrs N" "distinct N" "\<forall>a\<in>set N. fresh m a \<and> obj m' a \<noteq> None"
    "dom (obj m') \<subseteq> dom (obj m) \<union> set N"
    by (auto simp: in_round_def)
  have r: "root_shield st' = root_shield st" using s by (simp add: steady_def)
  let ?m1 = "set_shield (root_shield st) (Some null) m'"
  note s1 = steady_root[OF s]
  have ng: "a \<notin> set (garbage m)" "\<not> live m a" if "a \<in> set N" for a
    using N(4) that garbage_ok_fresh[OF g] by (auto simp: fresh_def live_def)
  have un: "untouched N m m2" if f: "frees N ?m1 m2" for m2
  proof -
    have "garbage_ok m2"
      unfolding garbage_ok_def
    proof (intro conjI ballI)
      show "distinct (garbage m2)" using f g N(1) by (simp add: frees_def extends_def garbage_ok_def)
      fix a assume "a \<in> set (garbage m2)"
      then have a: "a \<in> set (garbage m)" using f N(1) by (simp add: frees_def extends_def)
      then have "obj m a \<noteq> None" "a \<notin> statics m" "a \<notin> set N" using g ng by (auto simp: garbage_ok_def)
      with f N(1) show "obj m2 a \<noteq> None" "a \<notin> statics m2" by (auto simp: frees_def extends_def live_def)
    qed
    moreover have "obj m2 a = obj m a" "\<forall>f. cell m2 (a, f) = cell m (a, f)" "a \<notin> set N" if "live m a" for a
      using f N(1) that ng by (auto simp: frees_def extends_def restrict_map_def)
    moreover have "dom (obj m2) \<subseteq> dom (obj m)" using f N(5) unfolding frees_def by auto
    ultimately show ?thesis using f N(1) by (simp add: untouched_def frees_def extends_def)
  qed
  have "wp (state_abort_loop (ptrs N)) (\<lambda>_ m2. \<exists>fs. untouched fs m m2) ?m1"
  proof (rule state_abort_loop_wp[OF N(3)])
    show "\<exists>fs. untouched fs m m2" if "frees N ?m1 m2" for m2 using un[OF that] by blast
  qed (use N(1,4) ng in \<open>auto simp: extends_def\<close>)
  from shield_free_wp[OF shield_free_loops(1) this same_data_refl]
  have "wp (state_abort_loop (ptrs N)) (\<lambda>_ m2. steady st m (st'\<lparr>retired_nodes := [], new_nodes := []\<rparr>) m2 \<and> ejections m2 = ejections m' \<and>
      (\<exists>fs. untouched fs m m2)) ?m1"
  proof (rule wp_mono, goal_cases)
    case (1 u m2)
    then obtain m3 fs where m3: "same_data m3 m2" "untouched fs m m3" and sh: "shield m2 = shield ?m1" "ejections m2 = ejections ?m1" by blast
    have "untouched (fs @ []) m m2" by (rule untouched_trans[OF m3(2) untouched_same_data[OF m3(1)]])
    moreover have "steady st m (st'\<lparr>retired_nodes := [], new_nodes := []\<rparr>) m2" by (rule steady_same[OF s1(1) sh]) simp_all
    ultimately show ?case using sh(2) by auto
  qed
  then show ?thesis using r s1(2) by (simp add: pebr_state_abort_def pebr_state_abort_loop_eq N(2) wp_bind)
qed

text \<open>Publishing a copy.\<close>

definition updated :: "addr \<Rightarrow> ('k::linorder, 'v) bonsai_mem \<Rightarrow> ('k, 'v) itree \<Rightarrow> ('k, 'v) btree \<Rightarrow> ('k, 'v) bonsai_mem \<Rightarrow> bool" where
  "updated self m t T m' \<longleftrightarrow> (\<exists>fs m1 t'. untouched fs m m1 \<and> bonsai_inv m' self t' \<and> erase t' = T \<and> bonsai_step self m1 t m' t')"

lemma updated_trans: "untouched fs m m1 \<Longrightarrow> updated self m1 t T m' \<Longrightarrow> updated self m t T m'"
  unfolding updated_def using untouched_trans by blast

lemma pebr_publish_wp:
  assumes inv: "bonsai_inv m self t" and b: "builds m state_new (mset (addrs t)) T q (core st') m2" and g: "garbage_ok m2"
    and T: "search_tree T" and sd: "same_data m2 m'" and s: "steady st m st' m'"
  shows "\<not> is_retired q" "live m' self" "cell m' (self, Root) = cell m (self, Root)"
    "wp (pebr_state_commit st') (\<lambda>st3 m3. core st3 = state_new \<and> steady st m st3 m3 \<and> updated self m t T m3) (set_cell (self, Root) q m')"
proof -
  from b obtain t' N R where "grows m state_new m2 (core st') N R" "tree_at m2 q t'" unfolding builds_def by blast
  then have e: "extends m m2" "\<not> is_retired q" by (auto simp: grows_def tree_at_live)
  show "\<not> is_retired q" by (rule e(2))
  have "self \<in> statics m" using inv by (simp add: bonsai_inv_def)
  then show "live m' self" "cell m' (self, Root) = cell m (self, Root)"
    using e(1) same_data_ops(7,10)[OF sd] by (auto simp: extends_def live_def)
  have r: "root_shield st' = root_shield st" using s by (simp add: steady_def)
  let ?m1 = "set_shield (root_shield st) (Some null) (set_cell (self, Root) q m')"
  have "wp (state_commit (core st')) (\<lambda>_ m3. \<exists>t'. bonsai_inv m3 self t' \<and> erase t' = T \<and> bonsai_step self m t m3 t') (set_cell (self, Root) q m2)"
    by (rule publish_wp[OF inv b g T]) blast
  then have "wp (state_commit_loop (retired_nodes st')) (\<lambda>_ m3. \<exists>t'. bonsai_inv m3 self t' \<and> erase t' = T \<and> bonsai_step self m t m3 t')
      (set_cell (self, Root) q m2)"
    by (simp add: state_commit_def wp_bind)
  moreover have "same_data (set_cell (self, Root) q m2) ?m1" using same_data_ops(1)[OF sd] by simp
  ultimately have "wp (state_commit_loop (retired_nodes st')) (\<lambda>_ m3. \<exists>m4. same_data m4 m3 \<and> shield m3 = shield ?m1 \<and>
      ejections m3 = ejections ?m1 \<and> (\<exists>t'. bonsai_inv m4 self t' \<and> erase t' = T \<and> bonsai_step self m t m4 t')) ?m1"
    by (rule shield_free_wp[OF shield_free_loops(2)])
  then have "wp (state_commit_loop (retired_nodes st')) (\<lambda>_ m3. steady st m (st'\<lparr>retired_nodes := [], new_nodes := []\<rparr>) m3 \<and>
      updated self m t T m3) ?m1"
  proof (rule wp_mono, goal_cases)
    case (1 u m3)
    then obtain m4 t' where m4: "same_data m4 m3" "bonsai_inv m4 self t'" "erase t' = T" "bonsai_step self m t m4 t'"
      and sh: "shield m3 = shield ?m1" "ejections m3 = ejections ?m1" by blast
    have "steady st m st' (set_shield (root_shield st) (Some null) m')" by (rule steady_root[OF s])
    then have "steady st m (st'\<lparr>retired_nodes := [], new_nodes := []\<rparr>) m3" by (rule steady_same) (simp_all add: sh)
    moreover have "updated self m t T m3"
      unfolding updated_def using m4 same_data_bonsai[OF m4(1)] untouched_same_data[OF same_data_refl] by blast
    ultimately show ?case by blast
  qed
  moreover have "shield m' (root_shield st) \<noteq> None" by (rule steady_root(2)[OF s])
  ultimately show "wp (pebr_state_commit st') (\<lambda>st3 m3. core st3 = state_new \<and> steady st m st3 m3 \<and> updated self m t T m3) (set_cell (self, Root) q m')"
    using r by (simp add: pebr_state_commit_def pebr_state_commit_loop_eq wp_bind)
qed

section \<open>Updates\<close>

text \<open>The loop of an update, whatever the routine \<open>U\<close> that makes the copy.\<close>

definition rounds ::
  "(nat \<Rightarrow> pebr_bonsai_state \<Rightarrow> ('k, 'v, 'r \<times> pebr_bonsai_state) bonsai_prog) \<Rightarrow> addr \<Rightarrow>
    (pebr_bonsai_state \<Rightarrow> shared \<Rightarrow> ('k, 'v, (shield_error + shared \<times> 'r) \<times> pebr_bonsai_state) bonsai_prog) \<Rightarrow>
    nat \<Rightarrow> pebr_bonsai_state \<Rightarrow> ('k, 'v, 'r \<times> pebr_bonsai_state) bonsai_prog" where
  "rounds L self U i st = Load (self, Root) (\<lambda>old.
     bind (pebr_round st old (\<lambda>st. U st old)) (\<lambda>(r, st).
       case r of
         Inl Ejected \<Rightarrow> bind (pebr_state_abort st) (\<lambda>st. Repin (L i st))
       | Inr (q, x) \<Rightarrow>
           if is_retired q then bind (pebr_state_abort st) (\<lambda>st. L i st)
           else Compare_and_set (self, Root) old q (\<lambda>e.
             case e of
               Inr _ \<Rightarrow> bind (pebr_state_commit st) (\<lambda>st. Ret (x, st))
             | Inl _ \<Rightarrow> bind (pebr_state_abort st) (\<lambda>st. L i st))))"

definition update_done ::
  "addr \<Rightarrow> ('k::linorder, 'v) bonsai_mem \<Rightarrow> pebr_bonsai_state \<Rightarrow> ('k, 'v) itree \<Rightarrow> ('k, 'v) btree \<Rightarrow> 'r \<Rightarrow>
    'r \<times> pebr_bonsai_state \<Rightarrow> ('k, 'v) bonsai_mem \<Rightarrow> bool" where
  "update_done self m st t T X = (\<lambda>(x, st') m'. x = X \<and> core st' = state_new \<and> steady st m st' m' \<and> updated self m t T m')"

lemma update_done_trans:
  assumes "steady st m st1 m1" "untouched fs m m1" "update_done self m1 st1 t T X y m'"
  shows "update_done self m st t T X y m'"
  using assms steady_trans[OF assms(1)] updated_trans[OF assms(2)] by (auto simp: update_done_def)

lemma steady_reclaim: "steady st m st' m' \<Longrightarrow> steady st m st' (reclaim R m')"
  by (rule steady_same) simp_all

text \<open>What the routine of the EBR version makes, from the tree \<open>t\<close>.\<close>

definition copied :: "('k::linorder, 'v) bonsai_mem \<Rightarrow> ('k, 'v) itree \<Rightarrow> ('k, 'v) btree \<Rightarrow> 'r \<Rightarrow> (shared \<times> 'r) \<times> bonsai_state \<Rightarrow> ('k, 'v) bonsai_mem \<Rightarrow> bool" where
  "copied m t T X = (\<lambda>((q, x), st) m'. builds m state_new (mset (addrs t)) T q st m' \<and> garbage_ok m' \<and> x = X)"

lemma rounds_wp:
  assumes L: "\<And>i st. L (Suc i) st = rounds L self U i st"
    and sim: "\<And>st old. core st = state_new \<Longrightarrow> simulates (E old) st (U st old)"
    and E: "\<And>m. bonsai_inv m self t \<Longrightarrow> wp (E (cell m (self, Root))) (copied m t T X) m"
    and T: "search_tree T"
    and "bonsai_inv m self t" "core st = state_new" "shields_held st [] m" "ejections m < i"
  shows "wp (L i st) (update_done self m st t T X) m"
  using assms(5-)
proof (induction i arbitrary: m st)
  case (Suc i)
  let ?old = "cell m (self, Root)"
  have lv: "live m self" and g: "garbage_ok m" using Suc.prems(1) by (auto simp: bonsai_inv_def)
  have "wp (bind (pebr_round st ?old (\<lambda>st. U st ?old)) (\<lambda>(r, st).
       case r of
         Inl Ejected \<Rightarrow> bind (pebr_state_abort st) (\<lambda>st. Repin (L i st))
       | Inr (q, x) \<Rightarrow>
           if is_retired q then bind (pebr_state_abort st) (\<lambda>st. L i st)
           else Compare_and_set (self, Root) ?old q (\<lambda>e.
             case e of
               Inr _ \<Rightarrow> bind (pebr_state_commit st) (\<lambda>st. Ret (x, st))
             | Inl _ \<Rightarrow> bind (pebr_state_abort st) (\<lambda>st. L i st)))) (update_done self m st t T X) m"
  proof (rule wp_bind_mono[OF pebr_round_wp[where U = "\<lambda>st. U st ?old", OF sim[OF Suc.prems(2)] E[OF Suc.prems(1)] Suc.prems(2,3)]], goal_cases)
    case (1 y m')
    obtain r st' where y: "y = (r, st')" by (cases y)
    with 1 have s: "steady st m st' m'" and rd: "in_round m (core st') m'" by auto
    show ?case
    proof (cases r)
      case (Inl e)
      with 1 y have ej: "ejections m' < ejections m" by simp
      have "wp (bind (pebr_state_abort st') (\<lambda>st. Repin (L i st))) (update_done self m st t T X) m'"
      proof (rule wp_bind_mono[OF pebr_state_abort_wp[OF rd g s]], goal_cases)
        case (1 st2 m2)
        then obtain fs where fs: "untouched fs m m2" by blast
        have "wp (L i st2) (update_done self m st t T X) (reclaim R m2)" for R
        proof -
          have u: "untouched (fs @ []) m (reclaim R m2)" by (rule untouched_trans[OF fs untouched_reclaim])
          have s2: "steady st m st2 (reclaim R m2)" using 1 by (simp add: steady_reclaim)
          have "wp (L i st2) (update_done self (reclaim R m2) st2 t T X) (reclaim R m2)"
            using 1 s2 ej Suc.prems(4) by (intro Suc.IH untouched_bonsai[OF Suc.prems(1) u]) (auto simp: steady_def)
          then show ?thesis by (rule wp_mono) (rule update_done_trans[OF s2 u])
        qed
        then show ?case by simp
      qed
      with y Inl show ?thesis by (cases e) simp
    next
      case (Inr z)
      obtain q x where z: "z = (q, x)" by (cases z)
      with Inr y 1 obtain m2 where sd: "same_data m2 m'" and b: "builds m state_new (mset (addrs t)) T q (core st') m2" "garbage_ok m2" and x: "x = X"
        by (auto simp: copied_def)
      note pub = pebr_publish_wp[OF Suc.prems(1) b T sd s]
      have "wp (bind (pebr_state_commit st') (\<lambda>st. Ret (x, st))) (update_done self m st t T X) (set_cell (self, Root) q m')"
        using pub(4) x by (simp add: wp_bind update_done_def)
      with y z Inr pub(1-3) show ?thesis by simp
    qed
  qed
  with lv show ?case by (simp add: L rounds_def)
qed simp

lemma pebr_bonsai_insert_wp:
  assumes "bonsai_inv m self t" "iheight t < n" "core st = state_new" "shields_held st [] m" "ejections m < n"
  shows "wp (pebr_bonsai_insert self n st k v) (update_done self m st t (tinsert k v (erase t)) (tlookup (erase t) k = None)) m"
  unfolding pebr_bonsai_insert_def
proof (rule rounds_wp[where L = "\<lambda>i st. pebr_bonsai_insert_loop i n self st k v" and U = "\<lambda>st old. pebr_do_insert n st old k v"
      and E = "\<lambda>old. do_insert n state_new old k v", OF _ _ _ _ assms(1,3-)], goal_cases)
  case (1 i st)
  show ?case by (simp add: rounds_def)
next
  case (2 st old)
  then show ?case by (rule sim_do_insert)
next
  case (3 m)
  then have t: "tree_at m (cell m (self, Root)) t" "garbage_ok m" by (auto simp: bonsai_inv_def)
  from do_insert_wp[OF t assms(2)] show ?case by (rule wp_mono) (auto simp: do_insert_post_def copied_def)
next
  case 4
  show ?case using assms(1) tinsert_correct(1) by (auto simp: bonsai_inv_def)
qed

lemma pebr_bonsai_remove_wp:
  assumes "bonsai_inv m self t" "iheight t < n" "core st = state_new" "shields_held st [] m" "ejections m < n"
  shows "wp (pebr_bonsai_remove self n st k) (update_done self m st t (tremove k (erase t)) (tlookup (erase t) k)) m"
  unfolding pebr_bonsai_remove_def
proof (rule rounds_wp[where L = "\<lambda>i st. pebr_bonsai_remove_loop i n self st k" and U = "\<lambda>st old. pebr_do_remove n st old k"
      and E = "\<lambda>old. do_remove n state_new old k", OF _ _ _ _ assms(1,3-)], goal_cases)
  case (1 i st)
  show ?case by (simp add: rounds_def)
next
  case (2 st old)
  then show ?case by (rule sim_do_remove)
next
  case (3 m)
  then have t: "tree_at m (cell m (self, Root)) t" "garbage_ok m" by (auto simp: bonsai_inv_def)
  from do_remove_wp[OF t assms(2)] show ?case by (rule wp_mono) (auto simp: do_remove_post_def copied_def)
next
  case 4
  show ?case using assms(1) tremove_correct(1) by (auto simp: bonsai_inv_def)
qed

section \<open>Lookup\<close>

text \<open>The shield \<open>sh\<close> has moved, and nothing else.\<close>

definition moved :: "nat \<Rightarrow> ('f, 'n) mem \<Rightarrow> ('f, 'n) mem \<Rightarrow> bool" where
  "moved sh m m' \<longleftrightarrow> same_data m m' \<and> shield m' sh \<noteq> None \<and> (\<forall>i. i \<noteq> sh \<longrightarrow> shield m' i = shield m i) \<and> ejections m' \<le> ejections m"

definition looked_up :: "nat \<Rightarrow> ('f, 'n) mem \<Rightarrow> ('r \<Rightarrow> ('f, 'n) mem \<Rightarrow> bool) \<Rightarrow> shield_error + 'r \<Rightarrow> ('f, 'n) mem \<Rightarrow> bool" where
  "looked_up sh m P r m' \<longleftrightarrow> moved sh m m' \<and> (case r of Inl _ \<Rightarrow> ejections m' < ejections m | Inr x \<Rightarrow> P x m')"

definition found :: "nat \<Rightarrow> ('k::linorder, 'v) bonsai_mem \<Rightarrow> ('k, 'v) itree \<Rightarrow> 'k \<Rightarrow> shared \<Rightarrow> ('k, 'v) bonsai_mem \<Rightarrow> bool" where
  "found sh m t k q m' \<longleftrightarrow> (\<exists>u. tree_at m q u \<and> tlookup (erase t) k = (case u of ITip \<Rightarrow> None | IBin _ _ _ v _ \<Rightarrow> Some v)) \<and>
     (is_null q \<or> shield m' sh = Some q)"

lemma pebr_bonsai_search_wp:
  assumes "tree_at m0 p t" "iheight t < n" "moved sh m0 m"
  shows "wp (pebr_bonsai_search n sh p k) (looked_up sh m0 (found sh m0 t k)) m"
  using assms
proof (induction t arbitrary: p n m)
  case ITip
  then obtain n' where "n = Suc n'" by (cases n) auto
  with ITip.prems show ?case by (auto simp: looked_up_def found_def intro!: exI[of _ ITip])
next
  case (IBin a l k' v' r)
  then obtain n' where n: "n = Suc n'" by (cases n) auto
  have at: "tree_at m0 (cell m0 (a, Left)) l" "tree_at m0 (cell m0 (a, Right)) r" "p = Shared a 0" "a \<noteq> 0"
    "iheight l < n'" "iheight r < n'" "live m0 a" and nd: "obj m0 a = Some \<lparr>bkey = k', bvalue = v', bsize = tsize (erase l) + tsize (erase r) + 1\<rparr>"
    using IBin.prems(1,2) n by (auto simp: live_def)
  let ?m = "set_shield sh (Some p) m"
  have mv: "moved sh m0 ?m" "same_data m0 m" "shield m sh \<noteq> None" using IBin.prems(3) by (auto simp: moved_def)
  have ej: "looked_up sh m0 (found sh m0 (IBin a l k' v' r) k) (Inl e) (use_ejection (set_shield sh (Some q) m))" if "0 < ejections m" for e q
    using IBin.prems(3) that by (auto simp: looked_up_def moved_def)
  have sub: "wp (pebr_bonsai_search n' sh (cell m0 (a, Left)) k) (looked_up sh m0 (found sh m0 l k)) ?m"
    "wp (pebr_bonsai_search n' sh (cell m0 (a, Right)) k) (looked_up sh m0 (found sh m0 r k)) ?m"
    by (rule IBin.IH(1)[OF at(1,5) mv(1)] IBin.IH(2)[OF at(2,6) mv(1)])+
  have hit: "looked_up sh m0 (found sh m0 (IBin a l k' v' r) k) (Inr p) ?m" if "k = k'"
    using that mv(1) IBin.prems(1) by (auto simp: looked_up_def found_def intro!: exI[of _ "IBin a l k' v' r"])
  have "found sh m0 (IBin a l k' v' r) k = (if k < k' then found sh m0 l k else found sh m0 r k)" if "k \<noteq> k'"
    using that by (auto simp: found_def fun_eq_iff)
  with sub hit ej nd at mv(3) same_data_ops(7,8,10)[OF mv(2)] show ?case
    by (cases k k' rule: cmp_cases) (auto simp: n split: ordering.splits)
qed

lemma pebr_bonsai_get_inner_wp:
  assumes inv: "bonsai_inv m self t" and n: "iheight t < n" and sh: "shield m sh \<noteq> None"
  shows "wp (pebr_bonsai_get_inner (Suc i) n self k sh) (looked_up sh m (\<lambda>r _. r = tlookup (erase t) k)) m"
proof -
  have t: "tree_at m (cell m (self, Root)) t" "live m self" using inv by (auto simp: bonsai_inv_def)
  have mv: "moved sh m m" using sh by (simp add: moved_def)
  show ?thesis
    unfolding pebr_bonsai_get_inner.simps wp.simps fst_conv
  proof (intro conjI wp_bind_mono[OF pebr_bonsai_search_wp[OF t(1) n mv, of k]], rule t(2), goal_cases)
    case (1 r m')
    then have m': "moved sh m m'" by (simp add: looked_up_def)
    then have same: "obj m' = obj m" by (simp add: moved_def same_data_def)
    show ?case
    proof (cases r)
      case (Inl e)
      with 1 show ?thesis by (simp add: looked_up_def)
    next
      case (Inr q)
      with 1 obtain u where u: "tree_at m q u" "tlookup (erase t) k = (case u of ITip \<Rightarrow> None | IBin _ _ _ v _ \<Rightarrow> Some v)"
        and prot: "is_null q \<or> shield m' sh = Some q" by (auto simp: looked_up_def found_def)
      have "wp (is_retired_spot q) (\<lambda>b m1. m1 = m \<and> \<not> b) m" by (rule is_retired_spot_wp[OF u(1)]) simp
      then have "wp (is_retired_spot q) (\<lambda>b m1. m1 = m' \<and> m = m \<and> \<not> b) m'"
        using m' reading_wp[OF reading_routines(2)] by (fastforce simp: moved_def)
      then have "wp (bind (is_retired_spot q) (\<lambda>b. if b then pebr_bonsai_get_inner i n self k sh
          else if is_null q then Ret (Inr None) else Shield_shared sh (\<lambda>p. Deref p (\<lambda>node_ref. Ret (Inr (Some (bvalue node_ref)))))))
          (looked_up sh m (\<lambda>r _. r = tlookup (erase t) k)) m'"
        by (rule wp_bind_mono) (use u prot m' same in \<open>cases u; auto simp: looked_up_def\<close>)
      with Inr show ?thesis by simp
    qed
  qed
qed

lemma moved_steady:
  assumes "moved (root_shield st) m m'" "shields_held st [] m"
  shows "steady st m st m'"
proof -
  have "root_shield st \<notin> set (shields (state_shields st))" using assms(2) by (auto simp: shields_held_def outside_def restrict_map_def split: if_splits)
  then have "shield m' i = shield m i" if "i \<in> set (shields (state_shields st))" for i using assms(1) that unfolding moved_def by metis
  with assms show ?thesis by (auto simp: steady_def shields_held_def outside_def moved_def pool_inv_def restrict_map_def split: if_splits)
qed

lemma pebr_bonsai_get_wp:
  assumes "bonsai_inv m self t" "iheight t < n" "shields_held st [] m" "ejections m < n"
  shows "wp (pebr_bonsai_get self n st k)
    (\<lambda>(r, st') m'. r = tlookup (erase t) k \<and> st' = st \<and> steady st m st m' \<and> untouched [] m m') m"
proof -
  obtain n' where n': "n = Suc n'" using assms(2) by (cases n) auto
  have "wp (pebr_bonsai_get_loop i n self k st)
    (\<lambda>(r, st') m'. r = tlookup (erase t) k \<and> st' = st \<and> steady st m st m' \<and> untouched [] m m') m"
    if "bonsai_inv m self t" "shields_held st [] m" "ejections m < i" for i m
    using that
  proof (induction i arbitrary: m)
    case (Suc i)
    have s0: "steady st m st m" using Suc.prems(2) by simp
    note inner = pebr_bonsai_get_inner_wp[OF Suc.prems(1) assms(2) steady_root(2)[OF s0], of n' k, folded n']
    show ?case
      unfolding pebr_bonsai_get_loop.simps
    proof (rule wp_bind_mono[OF inner], goal_cases)
      case (1 r m')
      then have sd: "same_data m m'" and s: "steady st m st m'"
        using moved_steady[OF _ Suc.prems(2)] by (auto simp: looked_up_def moved_def)
      show ?case
      proof (cases r)
        case (Inr x)
        with 1 s untouched_same_data[OF sd] show ?thesis by (simp add: looked_up_def)
      next
        case (Inl e)
        with 1 have ej: "ejections m' < ejections m" by (simp add: looked_up_def)
        let ?m = "\<lambda>R. reclaim R (set_shield (root_shield st) (Some null) m')"
        have "wp (pebr_bonsai_get_loop i n self k st)
          (\<lambda>(r, st') m'. r = tlookup (erase t) k \<and> st' = st \<and> steady st m st m' \<and> untouched [] m m') (?m R)" for R
        proof -
          have "untouched ([] @ []) m (?m R)"
            by (rule untouched_trans[OF untouched_same_data untouched_reclaim]) (simp add: sd)
          then have u: "untouched [] m (?m R)" by simp
          have s1: "steady st m st (?m R)" by (rule steady_reclaim[OF steady_root(1)[OF s]])
          have "wp (pebr_bonsai_get_loop i n self k st)
            (\<lambda>(r, st') m'. r = tlookup (erase t) k \<and> st' = st \<and> steady st (?m R) st m' \<and> untouched [] (?m R) m') (?m R)"
            using s1 ej Suc.prems(3) by (intro Suc.IH untouched_bonsai[OF Suc.prems(1) u]) (auto simp: steady_def)
          then show ?thesis by (rule wp_mono) (use steady_trans[OF s1] untouched_trans[OF u, of "[]"] in auto)
        qed
        with Inl steady_root(2)[OF s] show ?thesis by (cases e) simp
      qed
    qed
  qed simp
  with assms show ?thesis by (simp add: pebr_bonsai_get_def)
qed

section \<open>BonsaiTreeMap implements the trait\<close>

definition pebr_bonsai_ops :: "(addr, pebr_bonsai_state, 'k::linorder, 'v, bonsai_field, ('k, 'v) bonsai_node) pebr_map" where
  "pebr_bonsai_ops = \<lparr>pmap_new = pebr_bonsai_new, pmap_handle = pebr_bonsai_handle, pmap_clear = pebr_bonsai_clear, pmap_drop = pebr_state_drop,
     pmap_get = pebr_bonsai_get, pmap_insert = pebr_bonsai_insert, pmap_remove = pebr_bonsai_remove\<rparr>"

definition idle :: "pebr_bonsai_state \<Rightarrow> ('k, 'v) bonsai_mem \<Rightarrow> bool" where
  "idle st m \<longleftrightarrow> core st = state_new \<and> shields_held st [] m"

lemma pebr_bonsai_new_eq: "pebr_bonsai_new self = bonsai_new self"
  by (simp add: pebr_bonsai_new_def bonsai_new_def)

lemma pebr_bonsai_drop_loop_eq: "pebr_bonsai_drop_loop n stack = bonsai_drop_loop n stack"
  by (induction n arbitrary: stack) (simp_all add: Let_def)

lemma pebr_bonsai_drop_eq: "pebr_bonsai_drop n self = bonsai_drop n self"
  by (simp add: pebr_bonsai_drop_def bonsai_drop_def pebr_bonsai_drop_loop_eq)

lemma bonsai_repr_untouched: "bonsai_repr self m M b \<Longrightarrow> untouched fs m m' \<Longrightarrow> bonsai_repr self m' M b"
  unfolding bonsai_repr_def using untouched_bonsai by blast

lemma bonsai_repr_shield [simp]: "bonsai_repr self (set_shield i q m) M b = bonsai_repr self m M b"
  using same_data_bonsai(1)[of m "set_shield i q m"] by (simp add: bonsai_repr_def)

lemma pebr_bonsai_handle_wp:
  "wp pebr_bonsai_handle (\<lambda>st m'. same_data m m' \<and> idle st m' \<and> ejections m' = ejections m \<and>
    (\<forall>i. i \<noteq> root_shield st \<longrightarrow> shield m' i = shield m i)) m"
  by (auto simp: pebr_bonsai_handle_def pebr_state_new_def idle_def core_def state_new_def shields_held_def outside_def
      shield_pool_new_def pool_inv_def)

lemma pebr_bonsai_clear_wp:
  assumes "idle st m"
  shows "wp (pebr_bonsai_clear st) (\<lambda>_ m'. m' = set_shield (root_shield st) (Some null) m \<and> idle st m') m"
proof -
  have s: "steady st m st m" using assms by (simp add: idle_def)
  have "retired_nodes st = []" "new_nodes st = []" using assms by (simp_all add: idle_def core_def state_new_def)
  with steady_root[OF s] assms show ?thesis by (simp add: pebr_bonsai_clear_def idle_def steady_def)
qed

lemma pebr_state_drop_wp:
  assumes "idle st m"
  shows "wp (pebr_state_drop st) (\<lambda>_ m'. same_data m m' \<and> ejections m' = ejections m \<and>
    shield m' = (outside st m)(root_shield st := None)) m"
proof -
  from assms obtain lost where p: "pool_inv (state_shields st) [] lost m" and r: "outside st m (root_shield st) \<noteq> None"
    by (auto simp: idle_def shields_held_def)
  have out: "shield m (root_shield st) \<noteq> None" "root_shield st \<notin> set (shields (state_shields st))"
    using r by (auto simp: outside_def restrict_map_def split: if_splits)
  let ?m = "set_shield (root_shield st) None m"
  have "pool_inv (state_shields st) [] lost ?m" using p out(2) by (auto simp: pool_inv_def)
  from shield_pool_drop_wp[OF this] have "wp (shield_pool_drop (state_shields st)) (\<lambda>_ m'. same_data m m' \<and> ejections m' = ejections m \<and>
      shield m' = (outside st m)(root_shield st := None)) ?m"
    by (rule wp_mono) (use out in \<open>auto simp: same_data_def outside_def restrict_map_def fun_eq_iff\<close>)
  with out(1) show ?thesis by (simp add: pebr_state_drop_def)
qed

lemma update_repr_wp:
  assumes "wp p (update_done self m st t T X) m" "tmap T = M" "tsize T \<le> b" "X = r"
  shows "wp p (\<lambda>(x, st') m'. x = r \<and> bonsai_repr self m' M b \<and> idle st' m' \<and> ejections m' \<le> ejections m) m"
  using assms(1) by (rule wp_mono) (use assms(2-) in \<open>auto simp: update_done_def updated_def bonsai_repr_def idle_def steady_def\<close>)

interpretation pebr_bonsai: pebr_map_impl pebr_bonsai_ops bonsai_place bonsai_repr idle
proof (unfold_locales, unfold pebr_bonsai_ops_def pebr_map.simps, goal_cases)
  case (1 h m)
  then show ?case using bonsai_new_wp[OF 1] by (simp add: pebr_bonsai_new_eq bonsai_new_def)
next
  case (2 h m M s)
  then show ?case by (intro wp_mono[OF pebr_bonsai_handle_wp]) (auto intro: bonsai_repr_untouched untouched_same_data)
next
  case (3 h m M s c)
  then show ?case by (intro wp_mono[OF pebr_bonsai_clear_wp]) auto
next
  case (4 h m M s c)
  then show ?case by (intro wp_mono[OF pebr_state_drop_wp]) (auto intro: bonsai_repr_untouched untouched_same_data)
next
  case (5 h m M s c n k)
  then obtain t where t: "bonsai_inv m h t" "iheight t < n" "tlookup (erase t) k = M k"
    by (elim bonsai_repr_obtain[where n = n]) auto
  with 5 show ?case
    by (intro wp_mono[OF pebr_bonsai_get_wp[OF t(1,2)]]) (auto simp: idle_def steady_def intro: bonsai_repr_untouched)
next
  case (6 h m M s c n k v)
  then obtain t where t: "bonsai_inv m h t" "iheight t < n" "tmap (erase t) = M" "tsize (erase t) \<le> s"
    "search_tree (erase t)" "tlookup (erase t) k = M k"
    by (elim bonsai_repr_obtain[where n = n]) auto
  with 6 tinsert_correct[OF t(5), of k v] show ?case
    by (intro update_repr_wp[OF pebr_bonsai_insert_wp[OF t(1,2)]]) (auto simp: idle_def)
next
  case (7 h m M s c n k)
  then obtain t where t: "bonsai_inv m h t" "iheight t < n" "tmap (erase t) = M" "tsize (erase t) \<le> s"
    "search_tree (erase t)" "tlookup (erase t) k = M k"
    by (elim bonsai_repr_obtain[where n = n]) auto
  with 7 tremove_correct[OF t(5), of k] show ?case
    by (intro update_repr_wp[OF pebr_bonsai_remove_wp[OF t(1,2)]]) (auto simp: idle_def)
next
  case (8 h m M s s')
  then show ?case by (rule bonsai.repr_mono)
qed

section \<open>Runs\<close>

text \<open>The tree of \<open>demo_tree\<close>, with a guard that is ejected at the second and the third protection.\<close>

definition demo_pebr_tree :: "(bonsai_field, (int, int) bonsai_node) sc" where
  "demo_pebr_tree = demo_tree\<lparr>sc_eject := [False, True, True, False]\<rparr>"

lemma demo_pebr_tree_facts:
  "sc_ok demo_pebr_tree" "bonsai_repr 1 (sc_view demo_pebr_tree) [10 \<mapsto> 100, 20 \<mapsto> 200, 30 \<mapsto> 300] 3"
proof -
  show "sc_ok demo_pebr_tree" using demo_tree_ok by (simp add: demo_pebr_tree_def sc_ok_def)
  have "same_data (sc_view demo_tree) (sc_view demo_pebr_tree)" by (simp add: demo_pebr_tree_def same_data_def)
  then show "bonsai_repr 1 (sc_view demo_pebr_tree) [10 \<mapsto> 100, 20 \<mapsto> 200, 30 \<mapsto> 300] 3"
    using bonsai_repr_untouched[OF demo_tree_repr untouched_same_data] by blast
qed

text \<open>
  C21: \<^verbatim>\<open>BonsaiTreeMap\<close> over pointer- and epoch-based reclamation refines a finite map.  A thread makes a handle, performs
  any sequence of calls with it and clears it.  Wherever the guard is ejected, finitely often, every call returns, no memory
  error is committed, the assertions of \<^verbatim>\<open>clear\<close> hold, and the answers are those of the finite map.
\<close>

theorem pebr_bonsai_refines_map:
  assumes "crossbeam_api X view ok" "ok s" "bonsai_repr self (view s) M b" "b + length qs + ejections (view s) \<le> n"
  shows "completes X view ok (psession pebr_bonsai_ops self n qs) s
    (\<lambda>rs m'. \<exists>M'. spec_calls qs M = (rs, M') \<and> bonsai_repr self m' M' (b + length qs))"
  using assms by (intro wp_completes pebr_bonsai.psession_wp)

theorem pebr_bonsai_refines_map_witness:
  "completes sc_api sc_view sc_ok (psession pebr_bonsai_ops 1 10 bonsai_calls) demo_pebr_tree
     (\<lambda>rs m'. \<exists>M'. spec_calls bonsai_calls [10 \<mapsto> 100, 20 \<mapsto> 200, 30 \<mapsto> 300] = (rs, M') \<and>
        bonsai_repr 1 m' M' (3 + length bonsai_calls))"
  by (rule pebr_bonsai_refines_map[OF sc.crossbeam_api_axioms demo_pebr_tree_facts])
    (simp add: bonsai_calls_def demo_pebr_tree_def)

text \<open>
  C22: one \<^verbatim>\<open>remove\<close> with a handle, in detail.  Its effect is that of the EBR version, on a memory in which nothing in
  use has changed: each ejected round has freed every node it had allocated, and retired nothing.  It returns the value that was
  stored; the handle comes back empty, with every shield of its pool free again or lost to an ejection, and no shield of
  another handle is touched.
\<close>

theorem pebr_bonsai_remove_correct:
  assumes "crossbeam_api X view ok" "ok s" "bonsai_inv (view s) self t" "iheight t < n"
    and "core st = state_new" "shields_held st [] (view s)" "ejections (view s) < n"
  shows "completes X view ok (pebr_bonsai_remove self n st k) s
    (\<lambda>(r, st') m'. r = tmap (erase t) k \<and> core st' = state_new \<and> steady st (view s) st' m' \<and>
      (\<exists>fs m1 t'. untouched fs (view s) m1 \<and> bonsai_inv m' self t' \<and> erase t' = tremove k (erase t) \<and> bonsai_step self m1 t m' t'))"
proof (rule wp_completes[OF assms(1,2)], rule wp_mono[OF pebr_bonsai_remove_wp[OF assms(3-)]], goal_cases)
  case (1 y m')
  have "tlookup (erase t) k = tmap (erase t) k" using assms(3) by (simp add: bonsai_inv_def tlookup_tmap)
  with 1 show ?case by (simp add: update_done_def updated_def case_prod_unfold)
qed

definition demo_pebr_state :: pebr_bonsai_state where
  "demo_pebr_state = \<lparr>retired_nodes = [], new_nodes = [], root_shield = 0, state_shields = shield_pool_new\<rparr>"

definition demo_pebr_shielded :: "(bonsai_field, (int, int) bonsai_node) sc" where
  "demo_pebr_shielded = sc_upd (set_shield 0 (Some null)) demo_pebr_tree\<lparr>sc_next_shield := 1\<rparr>"

lemma demo_pebr_shielded_facts:
  "sc_ok demo_pebr_shielded" "bonsai_inv (sc_view demo_pebr_shielded) 1 demo_itree"
  "core demo_pebr_state = state_new" "shields_held demo_pebr_state [] (sc_view demo_pebr_shielded)"
proof -
  have "same_data (sc_view demo_tree) (sc_view demo_pebr_shielded)" by (simp add: demo_pebr_shielded_def demo_pebr_tree_def same_data_def)
  then show "bonsai_inv (sc_view demo_pebr_shielded) 1 demo_itree"
    using untouched_bonsai[OF demo_tree_inv untouched_same_data] by blast
  show "sc_ok demo_pebr_shielded" using demo_pebr_tree_facts(1) by (auto simp: demo_pebr_shielded_def sc_ok_def demo_pebr_tree_def demo_tree_def)
  show "core demo_pebr_state = state_new" by (simp add: demo_pebr_state_def core_def state_new_def)
  show "shields_held demo_pebr_state [] (sc_view demo_pebr_shielded)"
    by (simp add: shields_held_def demo_pebr_state_def demo_pebr_shielded_def outside_def pool_inv_def shield_pool_new_def)
qed

theorem pebr_bonsai_remove_correct_witness:
  "completes sc_api sc_view sc_ok (pebr_bonsai_remove 1 4 demo_pebr_state 20) demo_pebr_shielded
    (\<lambda>(r, st') m'. r = tmap (erase demo_itree) 20 \<and> core st' = state_new \<and> steady demo_pebr_state (sc_view demo_pebr_shielded) st' m' \<and>
      (\<exists>fs m1 t'. untouched fs (sc_view demo_pebr_shielded) m1 \<and> bonsai_inv m' 1 t' \<and> erase t' = tremove 20 (erase demo_itree) \<and>
        bonsai_step 1 m1 demo_itree m' t'))"
  by (rule pebr_bonsai_remove_correct[OF sc.crossbeam_api_axioms demo_pebr_shielded_facts(1,2) _ demo_pebr_shielded_facts(3,4)])
    (simp_all add: demo_pebr_shielded_def demo_pebr_tree_def demo_itree_def)

end
