(* ===== verification/Ejection_Discipline.thy ===== *)
theory Ejection_Discipline
  imports Pebr_Hash_Map Pebr_Nm_Tree_Correct Pebr_Bonsai_Correct
begin

text \<open>
  What the PEBR maps do once they know that their guard has been ejected.  A failed \<^verbatim>\<open>defend\<close> or
  \<^verbatim>\<open>Shield::new\<close> tells a thread that its guard no longer keeps anything alive; until \<^verbatim>\<open>guard.repin()\<close>
  it may only work on nodes it owns or has shielded.  The refinement results let every single protection succeed or fail and
  do not see whether the guard was repinned in between; the results of this theory do.
\<close>

section \<open>Programs that respect an ejection\<close>

text \<open>
  \<open>guarded p Q e\<close>: whatever the interface answers, \<open>p\<close> never loads, stores, updates, retires or asks for
  protection while it knows that its guard is ejected, where \<open>e\<close> says whether it knows so at the start, and
  \<open>Q x e'\<close> holds of its result \<open>x\<close> and of what it knows at the end.
\<close>

primrec guarded :: "('f, 'n, 'a) prog \<Rightarrow> ('a \<Rightarrow> bool \<Rightarrow> bool) \<Rightarrow> bool \<Rightarrow> bool" where
  "guarded (Ret x) Q e \<longleftrightarrow> Q x e"
| "guarded (Load l k) Q e \<longleftrightarrow> \<not> e \<and> (\<forall>p. guarded (k p) Q e)"
| "guarded (Store l p k) Q e \<longleftrightarrow> \<not> e \<and> guarded k Q e"
| "guarded (Compare_and_set l u v k) Q e \<longleftrightarrow> \<not> e \<and> (\<forall>r. guarded (k r) Q e)"
| "guarded (Fetch_or l t k) Q e \<longleftrightarrow> \<not> e \<and> (\<forall>p. guarded (k p) Q e)"
| "guarded (Deref p k) Q e \<longleftrightarrow> (\<forall>n. guarded (k n) Q e)"
| "guarded (Deref_mut p n k) Q e \<longleftrightarrow> guarded k Q e"
| "guarded (Owned_new n fs k) Q e \<longleftrightarrow> (\<forall>p. guarded (k p) Q e)"
| "guarded (Drop_owned p k) Q e \<longleftrightarrow> guarded k Q e"
| "guarded (Drop_value p k) Q e \<longleftrightarrow> guarded k Q e"
| "guarded (Defer_destroy p k) Q e \<longleftrightarrow> \<not> e \<and> guarded k Q e"
| "guarded (Shield_null k) Q e \<longleftrightarrow> (\<forall>i. guarded (k i) Q e)"
| "guarded (Shield_new p k) Q e \<longleftrightarrow> \<not> e \<and> (\<forall>x. guarded (k (Inl x)) Q True) \<and> (\<forall>i. guarded (k (Inr i)) Q False)"
| "guarded (Shield_drop i k) Q e \<longleftrightarrow> guarded k Q e"
| "guarded (Defend i p k) Q e \<longleftrightarrow> \<not> e \<and> (\<forall>x. guarded (k (Inl x)) Q True) \<and> guarded (k (Inr ())) Q False"
| "guarded (Defend_fake i p k) Q e \<longleftrightarrow> guarded k Q e"
| "guarded (Release i k) Q e \<longleftrightarrow> guarded k Q e"
| "guarded (Shield_shared i k) Q e \<longleftrightarrow> (\<forall>p. guarded (k p) Q e)"
| "guarded (Repin k) Q e \<longleftrightarrow> guarded k Q False"
| "guarded Panic Q e \<longleftrightarrow> True"
| "guarded Out_of_fuel Q e \<longleftrightarrow> True"

lemma guarded_bind [simp]: "guarded (bind p f) Q e = guarded p (\<lambda>x. guarded (f x) Q) e"
  by (induction p arbitrary: e) simp_all

text \<open>
  How a fallible routine ends: it knows of an ejection exactly when it answers so.  The searches of a list have a second error,
  a lost race, after which the guard is still good.
\<close>

definition res_post :: "((shield_error + 'a) \<times> 'c \<Rightarrow> bool \<Rightarrow> bool) \<Rightarrow> bool" where
  "res_post Q \<longleftrightarrow> (\<forall>x c. Q (Inr x, c) False) \<and> (\<forall>x c. Q (Inl x, c) True)"

definition search_ends :: "((find_error + 'a) \<times> 'c \<Rightarrow> bool \<Rightarrow> bool) \<Rightarrow> bool" where
  "search_ends Q \<longleftrightarrow> (\<forall>x c. Q (Inr x, c) False) \<and> (\<forall>c. Q (Inl Retry, c) False) \<and> (\<forall>x c. Q (Inl (Shield_error x), c) True)"

lemma search_endsI [intro!]:
  assumes "\<And>x c. Q (Inr x, c) False" "\<And>c. Q (Inl Retry, c) False" "\<And>x c. Q (Inl (Shield_error x), c) True"
  shows "search_ends Q"
  using assms by (simp add: search_ends_def)

lemma res_postI [intro!]:
  assumes "\<And>x c. Q (Inr x, c) False" "\<And>x c. Q (Inl x, c) True"
  shows "res_post Q"
  using assms by (simp add: res_post_def)

section \<open>Lists\<close>

lemma pebr_find_harris_loop_guarded:
  "search_ends Q \<Longrightarrow> guarded (pebr_find_harris_loop n k prev_s curr_s cur prev_next) Q False"
proof (induction n arbitrary: prev_s curr_s cur prev_next)
  case (Suc n)
  note IH = Suc.IH[OF Suc.prems]
  from Suc.prems show ?case by (auto simp: search_ends_def IH split: ordering.split)
qed simp

lemma pebr_destroy_chain_guarded: "(\<And>x. Q x False) \<Longrightarrow> guarded (pebr_destroy_chain n node stop) Q False"
  by (induction n arbitrary: node) auto

text \<open>What the wrappers rely on: a search reports every ejection and nothing else as one.\<close>

definition finder_guarded :: "('k, 'v) pebr_finder \<Rightarrow> bool" where
  "finder_guarded F \<longleftrightarrow> (\<forall>k c Q. search_ends Q \<longrightarrow> guarded (F k c) Q False)"

lemma pebr_find_harris_guarded: "finder_guarded (pebr_find_harris n)"
  unfolding finder_guarded_def pebr_find_harris_def
  by (auto simp: search_ends_def intro!: pebr_find_harris_loop_guarded pebr_destroy_chain_guarded split: sum.split)

lemma pebr_find_harris_michael_loop_guarded:
  "search_ends Q \<Longrightarrow> guarded (pebr_find_harris_michael_loop n k c cur) Q False"
proof (induction n arbitrary: c cur)
  case (Suc n)
  note IH = Suc.IH[OF Suc.prems]
  from Suc.prems show ?case by (auto simp: search_ends_def IH Let_def split: ordering.split sum.split)
qed simp

lemma pebr_find_harris_michael_guarded: "finder_guarded (pebr_find_harris_michael n)"
  unfolding finder_guarded_def pebr_find_harris_michael_def by (auto intro: pebr_find_harris_michael_loop_guarded)

lemma pebr_find_harris_herlihy_shavit_loop_guarded:
  "search_ends Q \<Longrightarrow> guarded (pebr_find_harris_herlihy_shavit_loop n k prev_s curr_s cur) Q False"
proof (induction n arbitrary: prev_s curr_s cur)
  case (Suc n)
  note IH = Suc.IH[OF Suc.prems]
  from Suc.prems show ?case by (auto simp: search_ends_def IH split: ordering.split)
qed simp

lemma pebr_find_harris_herlihy_shavit_guarded: "finder_guarded (pebr_find_harris_herlihy_shavit n)"
  unfolding finder_guarded_def pebr_find_harris_herlihy_shavit_def
  by (auto intro: pebr_find_harris_herlihy_shavit_loop_guarded)

lemma finder_guardedD: "finder_guarded F \<Longrightarrow> search_ends Q \<Longrightarrow> guarded (F k c) Q False"
  by (simp add: finder_guarded_def)

lemma pebr_list_find_guarded:
  "finder_guarded F \<Longrightarrow> (\<And>x. Q x False) \<Longrightarrow> guarded (pebr_list_find n self k F c) Q False"
  by (induction n arbitrary: c)
    (auto simp: pebr_init_find_def intro!: finder_guardedD[of F] split: find_error.split shield_error.split)

lemma pebr_list_get_guarded:
  "finder_guarded F \<Longrightarrow> (\<And>x. Q x False) \<Longrightarrow> guarded (pebr_list_get n self k F c) Q False"
  unfolding pebr_list_get_def by (auto intro!: pebr_list_find_guarded)

lemma pebr_insert_inner_guarded:
  "finder_guarded F \<Longrightarrow> search_ends Q \<Longrightarrow> guarded (pebr_insert_inner n self node F c) Q False"
  by (induction n arbitrary: c)
    (auto simp: pebr_init_find_def search_ends_def intro!: finder_guardedD[of F] split: sum.split)

lemma pebr_list_insert_guarded:
  assumes "finder_guarded F" "\<And>x. Q x False"
  shows "guarded (pebr_list_insert n self k v F c) Q False"
proof -
  have "guarded (pebr_list_insert_loop i n self node F c) Q False" for i node
    using assms by (induction i arbitrary: c)
      (auto intro!: pebr_insert_inner_guarded split: find_error.split shield_error.split)
  then show ?thesis by (simp add: pebr_list_insert_def)
qed

lemma pebr_remove_inner_guarded:
  "finder_guarded F \<Longrightarrow> search_ends Q \<Longrightarrow> guarded (pebr_remove_inner n self k F c) Q False"
  by (induction n arbitrary: c)
    (auto simp: pebr_init_find_def search_ends_def Let_def intro!: finder_guardedD[of F] split: sum.split)

lemma pebr_list_remove_guarded:
  assumes "finder_guarded F" "\<And>x. Q x False"
  shows "guarded (pebr_list_remove n self k F c) Q False"
proof -
  have "guarded (pebr_list_remove_loop i n self k F c) Q False" for i
    using assms by (induction i arbitrary: c)
      (auto intro!: pebr_remove_inner_guarded split: find_error.split shield_error.split)
  then show ?thesis by (simp add: pebr_list_remove_def)
qed

section \<open>The Natarajan-Mittal tree\<close>

lemma pebr_seek_loop_guarded:
  "res_post Q \<Longrightarrow> guarded (pebr_seek_loop n k sr prev_tag curr_dir cur) Q False"
proof (induction n arbitrary: sr prev_tag curr_dir cur)
  case (Suc n)
  note IH = Suc.IH[OF Suc.prems]
  from Suc.prems show ?case by (simp add: res_post_def IH Let_def)
qed simp

lemma pebr_seek_guarded: "res_post Q \<Longrightarrow> guarded (pebr_seek n self k sr) Q False"
  unfolding pebr_seek_def Let_def by (simp add: pebr_seek_loop_guarded) (simp add: res_post_def)

lemma pebr_destroy_subtree_guarded: "(\<And>x. Q x False) \<Longrightarrow> guarded (pebr_destroy_subtree n sib stack) Q False"
  by (induction n sib stack rule: pebr_destroy_subtree.induct) simp_all

lemmas pebr_addr_defs = pebr_leaf_addr_def pebr_successor_addr_def pebr_leaf_sibling_addr_def

lemma pebr_cleanup_guarded: "(\<And>x. Q x False) \<Longrightarrow> guarded (pebr_cleanup n sr) Q False"
  unfolding pebr_cleanup_def pebr_addr_defs Let_def
  by (auto intro!: pebr_destroy_subtree_guarded split: sum.split)

lemma pebr_take_back_guarded: "(\<And>v. Q (f v) e) \<Longrightarrow> guarded (pebr_take_back nleaf ninternal f) Q e"
  unfolding pebr_take_back_def by (simp split: option.split)

lemma pebr_nm_get_guarded:
  assumes "\<And>x. Q x False"
  shows "guarded (pebr_nm_get n self k sr) Q False"
proof -
  have "guarded (pebr_nm_get_loop i n self k sr) Q False" for i
    using assms by (induction i arbitrary: sr)
      (auto simp: pebr_nm_get_inner_def intro!: pebr_seek_guarded split: shield_error.split option.split)
  then show ?thesis by (simp add: pebr_nm_get_def)
qed

text \<open>An insertion that failed says whether the key was present or the guard was ejected.\<close>

definition insert_inner_post :: "(('v \<times> shield_error option + unit) \<times> pebr_seek_record \<Rightarrow> bool \<Rightarrow> bool) \<Rightarrow> bool" where
  "insert_inner_post Q \<longleftrightarrow> (\<forall>c. Q (Inr (), c) False) \<and> (\<forall>v c. Q (Inl (v, None), c) False) \<and>
     (\<forall>v x c. Q (Inl (v, Some x), c) True)"

lemma pebr_nm_insert_inner_loop_guarded:
  "insert_inner_post Q \<Longrightarrow> guarded (pebr_nm_insert_inner_loop i n self k nleaf ninternal sr) Q False"
proof (induction i arbitrary: sr)
  case (Suc i)
  note IH = Suc.IH[OF Suc.prems]
  from Suc.prems show ?case
    by (auto simp: insert_inner_post_def IH Let_def pebr_addr_defs
        intro!: pebr_seek_guarded pebr_take_back_guarded pebr_cleanup_guarded split: ordering.split sum.split)
qed simp

lemma pebr_nm_insert_guarded:
  assumes "\<And>x. Q x False"
  shows "guarded (pebr_nm_insert n self k v sr) Q False"
proof -
  have "guarded (pebr_nm_insert_loop i n self k v sr) Q False" for i
    using assms by (induction i arbitrary: sr v)
      (auto simp: pebr_nm_insert_inner_def atomic_from_def insert_inner_post_def
        intro!: pebr_nm_insert_inner_loop_guarded split: shield_error.split)
  then show ?thesis by (simp add: pebr_nm_insert_def)
qed

lemma pebr_nm_remove_cleanup_guarded:
  "res_post Q \<Longrightarrow> guarded (pebr_nm_remove_cleanup i n self k lf v sr) Q False"
proof (induction i arbitrary: sr)
  case (Suc i)
  note IH = Suc.IH[OF Suc.prems]
  from Suc.prems show ?case
    by (auto simp: res_post_def IH intro!: pebr_seek_guarded pebr_cleanup_guarded)
qed simp

lemma pebr_nm_remove_inner_loop_guarded:
  "res_post Q \<Longrightarrow> guarded (pebr_nm_remove_inner_loop i n self k sr) Q False"
proof (induction i arbitrary: sr)
  case (Suc i)
  note IH = Suc.IH[OF Suc.prems]
  from Suc.prems show ?case
    by (auto simp: res_post_def[of Q] IH pebr_addr_defs pebr_nm_remove_cleanup_guarded[OF Suc.prems]
        intro!: pebr_seek_guarded pebr_cleanup_guarded split: option.split sum.split)
qed simp

lemma pebr_nm_remove_guarded:
  assumes "\<And>x. Q x False"
  shows "guarded (pebr_nm_remove n self k sr) Q False"
proof -
  have "guarded (pebr_nm_remove_loop i n self k sr) Q False" for i
    using assms by (induction i arbitrary: sr)
      (auto simp: pebr_nm_remove_inner_def intro!: pebr_nm_remove_inner_loop_guarded split: shield_error.split)
  then show ?thesis by (simp add: pebr_nm_remove_def)
qed

section \<open>The Bonsai tree\<close>

lemma try_bind_guarded:
  assumes "\<And>Q. res_post Q \<Longrightarrow> guarded p Q False" "res_post Q" "\<And>x c. guarded (f x c) Q False"
  shows "guarded (try_bind p f) Q False"
  unfolding try_bind_def guarded_bind using assms(2,3) by (intro assms(1)) (auto simp: res_post_def)

lemma with_shield_guarded:
  assumes "res_post Q" "\<And>c Q. res_post Q \<Longrightarrow> guarded (scope c) Q False"
  shows "guarded (with_shield ptr self scope) Q False"
  using assms(1) unfolding with_shield_def shield_pool_defend_def Let_def
  by (auto simp: res_post_def[of Q] shield_handle_drop_def intro!: assms(2))

lemma is_retired_spot_guarded: "(\<And>b. Q b False) \<Longrightarrow> guarded (is_retired_spot node) Q False"
  by (simp add: is_retired_spot_def or_else_def)

lemma or_else_guarded:
  assumes "\<And>Q. (\<And>b. Q b False) \<Longrightarrow> guarded p Q False" "\<And>Q. (\<And>b. Q b False) \<Longrightarrow> guarded q Q False" "\<And>b. Q b False"
  shows "guarded (or_else p q) Q False"
  unfolding or_else_def guarded_bind using assms(3) by (intro assms(1)) (auto intro: assms(2))

lemma node_size_guarded: "(\<And>n. Q n False) \<Longrightarrow> guarded (node_size node) Q False"
  by (simp add: node_size_def)

lemma infallible_guarded:
  assumes "\<And>Q. (\<And>x. Q x False) \<Longrightarrow> guarded p Q False" "res_post Q"
  shows "guarded (infallible p) Q False"
  unfolding infallible_def guarded_bind using assms(2) by (intro assms(1)) (auto simp: res_post_def)

lemmas bonsai_node_guarded = is_retired_spot_guarded or_else_guarded node_size_guarded

lemma pebr_mk_node_guarded: "(\<And>x. Q x False) \<Longrightarrow> guarded (pebr_mk_node self left right k v) Q False"
  unfolding pebr_mk_node_def by (auto intro!: bonsai_node_guarded)

lemma pebr_single_left_guarded: "(\<And>x. Q x False) \<Longrightarrow> guarded (pebr_single_left self left right rl rr k v) Q False"
  unfolding pebr_single_left_def by (auto intro!: pebr_mk_node_guarded)

lemma pebr_single_right_guarded: "(\<And>x. Q x False) \<Longrightarrow> guarded (pebr_single_right self left right lr ll k v) Q False"
  unfolding pebr_single_right_def by (auto intro!: pebr_mk_node_guarded)

lemma res_postD: "res_post Q \<Longrightarrow> Q (Inr x, c) False" "res_post Q \<Longrightarrow> Q (Inl y, c) True"
  by (simp_all add: res_post_def)

lemma pebr_double_left_guarded: "res_post Q \<Longrightarrow> guarded (pebr_double_left self left right rl rr k v) Q False"
  unfolding pebr_double_left_def
  by (auto intro!: with_shield_guarded bonsai_node_guarded pebr_mk_node_guarded simp: res_postD)

lemma pebr_double_right_guarded: "res_post Q \<Longrightarrow> guarded (pebr_double_right self left right lr ll k v) Q False"
  unfolding pebr_double_right_def
  by (auto intro!: with_shield_guarded bonsai_node_guarded pebr_mk_node_guarded simp: res_postD)

lemma pebr_mk_balanced_left_guarded: "res_post Q \<Longrightarrow> guarded (pebr_mk_balanced_left self left right k v) Q False"
  unfolding pebr_mk_balanced_left_def
  by (auto intro!: with_shield_guarded bonsai_node_guarded infallible_guarded pebr_single_left_guarded
      pebr_double_left_guarded simp: res_postD)

lemma pebr_mk_balanced_right_guarded: "res_post Q \<Longrightarrow> guarded (pebr_mk_balanced_right self left right k v) Q False"
  unfolding pebr_mk_balanced_right_def
  by (auto intro!: with_shield_guarded bonsai_node_guarded infallible_guarded pebr_single_right_guarded
      pebr_double_right_guarded simp: res_postD)

lemma pebr_mk_balanced_guarded: "res_post Q \<Longrightarrow> guarded (pebr_mk_balanced self cur left right) Q False"
  unfolding pebr_mk_balanced_def
  by (auto intro!: bonsai_node_guarded infallible_guarded pebr_mk_node_guarded pebr_mk_balanced_left_guarded
      pebr_mk_balanced_right_guarded simp: res_postD)

lemmas bonsai_copy_guarded = with_shield_guarded try_bind_guarded bonsai_node_guarded pebr_mk_node_guarded
  pebr_mk_balanced_guarded

lemma pebr_do_insert_guarded: "res_post Q \<Longrightarrow> guarded (pebr_do_insert n self node k v) Q False"
  by (induction n arbitrary: self node Q)
    (auto intro!: bonsai_copy_guarded simp: res_postD split: ordering.split)

lemma pebr_pull_leftmost_guarded: "res_post Q \<Longrightarrow> guarded (pebr_pull_leftmost n self node) Q False"
  by (induction n arbitrary: self node Q) (auto intro!: bonsai_copy_guarded simp: res_postD)

lemma pebr_pull_rightmost_guarded: "res_post Q \<Longrightarrow> guarded (pebr_pull_rightmost n self node) Q False"
  by (induction n arbitrary: self node Q) (auto intro!: bonsai_copy_guarded simp: res_postD)

lemma pebr_do_remove_guarded: "res_post Q \<Longrightarrow> guarded (pebr_do_remove n self node k) Q False"
  by (induction n arbitrary: self node Q)
    (auto intro!: bonsai_copy_guarded pebr_pull_leftmost_guarded pebr_pull_rightmost_guarded
      simp: res_postD Let_def split: ordering.split)

text \<open>An abandoned round frees nodes that nobody else has seen, so it may run under an ejected guard; a committed one must not.\<close>

lemma pebr_state_abort_loop_guarded: "Q () e \<Longrightarrow> guarded (pebr_state_abort_loop ns) Q e"
  by (induction ns) auto

lemma pebr_state_abort_guarded: "(\<And>x. Q x e) \<Longrightarrow> guarded (pebr_state_abort self) Q e"
  unfolding pebr_state_abort_def by (auto intro!: pebr_state_abort_loop_guarded)

lemma pebr_state_commit_loop_guarded: "Q () False \<Longrightarrow> guarded (pebr_state_commit_loop ns) Q False"
  by (induction ns) auto

lemma pebr_state_commit_guarded: "(\<And>x. Q x False) \<Longrightarrow> guarded (pebr_state_commit self) Q False"
  unfolding pebr_state_commit_def by (auto intro!: pebr_state_commit_loop_guarded)

lemma pebr_round_guarded:
  assumes "res_post Q" "\<And>c Q. res_post Q \<Longrightarrow> guarded (update c) Q False"
  shows "guarded (pebr_round state old_root update) Q False"
  unfolding pebr_round_def using assms by (simp add: res_postD)

lemma pebr_bonsai_search_guarded:
  "(\<And>x. Q x (isl x)) \<Longrightarrow> guarded (pebr_bonsai_search n sh node k) Q False"
proof (induction n arbitrary: node)
  case (Suc n)
  from Suc.prems[of "Inl _"] Suc.prems[of "Inr _"] Suc.IH[OF Suc.prems] show ?case
    by (auto split: ordering.split)
qed simp

lemma pebr_bonsai_get_inner_guarded:
  "(\<And>x. Q x (isl x)) \<Longrightarrow> guarded (pebr_bonsai_get_inner i n self k sh) Q False"
proof (induction i)
  case (Suc i)
  from Suc.prems[of "Inl _"] Suc.prems[of "Inr _"] Suc.IH[OF Suc.prems] show ?case
    by (auto intro!: pebr_bonsai_search_guarded bonsai_node_guarded split: sum.split)
qed simp

lemma pebr_bonsai_get_guarded:
  assumes "\<And>x. Q x False"
  shows "guarded (pebr_bonsai_get self n state k) Q False"
proof -
  have "guarded (pebr_bonsai_get_loop i n self k state) Q False" for i
    using assms by (induction i) (auto intro!: pebr_bonsai_get_inner_guarded split: sum.split shield_error.split)
  then show ?thesis by (simp add: pebr_bonsai_get_def)
qed

lemma pebr_bonsai_insert_guarded:
  assumes "\<And>x. Q x False"
  shows "guarded (pebr_bonsai_insert self n state k v) Q False"
proof -
  have "guarded (pebr_bonsai_insert_loop i n self state k v) Q False" for i
    using assms by (induction i arbitrary: state)
      (auto intro!: pebr_round_guarded pebr_do_insert_guarded pebr_state_abort_guarded pebr_state_commit_guarded
        split: sum.split shield_error.split)
  then show ?thesis by (simp add: pebr_bonsai_insert_def)
qed

lemma pebr_bonsai_remove_guarded:
  assumes "\<And>x. Q x False"
  shows "guarded (pebr_bonsai_remove self n state k) Q False"
proof -
  have "guarded (pebr_bonsai_remove_loop i n self state k) Q False" for i
    using assms by (induction i arbitrary: state)
      (auto intro!: pebr_round_guarded pebr_do_remove_guarded pebr_state_abort_guarded pebr_state_commit_guarded
        split: sum.split shield_error.split)
  then show ?thesis by (simp add: pebr_bonsai_remove_def)
qed

lemma shield_pool_drop_loop_guarded: "Q () e \<Longrightarrow> guarded (shield_pool_drop_loop is) Q e"
  by (induction "is") auto

section \<open>The trait\<close>

text \<open>
  A map respects ejections if each of its calls, begun under a guard not known to be ejected, does so and returns under such a
  guard.  A thread that makes a handle, uses it in any way, clears it and drops it then respects ejections too.
\<close>

locale ejection_safe =
  fixes D :: "('h, 'c, 'k, 'v, 'f, 'n) pebr_map"
  assumes handle: "(\<And>c. Q c False) \<Longrightarrow> guarded (pmap_handle D) Q False"
    and clear: "Q' () False \<Longrightarrow> guarded (pmap_clear D c) Q' False"
    and drop: "Q' () False \<Longrightarrow> guarded (pmap_drop D c) Q' False"
    and get: "(\<And>x. P x False) \<Longrightarrow> guarded (pmap_get D h n c k) P False"
    and insert: "(\<And>x. R x False) \<Longrightarrow> guarded (pmap_insert D h n c k v) R False"
    and remove: "(\<And>x. P x False) \<Longrightarrow> guarded (pmap_remove D h n c k) P False"
begin

lemma call: "(\<And>x. Q x False) \<Longrightarrow> guarded (pcall D h n c q) Q False"
  by (cases q) (auto intro!: get insert remove)

lemma calls: "(\<And>x. Q x False) \<Longrightarrow> guarded (pcalls D h n c qs) Q False"
  by (induction qs arbitrary: c Q) (auto intro!: call)

lemma psession: "guarded (psession D h n qs) (\<lambda>_ e. \<not> e) False"
  unfolding psession_def by (auto intro!: handle calls clear drop)

end

lemmas pebr_cursor_guarded_defs = pebr_cursor_new_def pebr_cursor_release_def pebr_cursor_drop_def

interpretation hl: ejection_safe "pebr_HList_ops :: (addr, pebr_cursor, 'k::linorder, 'v, list_field, ('k, 'v) node) pebr_map"
  by unfold_locales (simp_all add: pebr_HList_ops_def pebr_HList_handle_def pebr_HList_clear_def pebr_HList_get_def
      pebr_HList_insert_def pebr_HList_remove_def pebr_harris_get_def pebr_harris_insert_def pebr_harris_remove_def
      pebr_list_get_guarded pebr_list_insert_guarded pebr_list_remove_guarded pebr_find_harris_guarded pebr_cursor_guarded_defs)

interpretation hml: ejection_safe "pebr_HMList_ops :: (addr, pebr_cursor, 'k::linorder, 'v, list_field, ('k, 'v) node) pebr_map"
  by unfold_locales (simp_all add: pebr_HMList_ops_def pebr_HMList_handle_def pebr_HMList_clear_def pebr_HMList_get_def
      pebr_HMList_insert_def pebr_HMList_remove_def pebr_harris_michael_get_def pebr_harris_michael_insert_def
      pebr_harris_michael_remove_def pebr_list_get_guarded pebr_list_insert_guarded pebr_list_remove_guarded
      pebr_find_harris_michael_guarded pebr_cursor_guarded_defs)

interpretation hhsl: ejection_safe "pebr_HHSList_ops :: (addr, pebr_cursor, 'k::linorder, 'v, list_field, ('k, 'v) node) pebr_map"
  by unfold_locales (simp_all add: pebr_HHSList_ops_def pebr_HHSList_handle_def pebr_HHSList_clear_def pebr_HHSList_get_def
      pebr_HHSList_insert_def pebr_HHSList_remove_def pebr_harris_herlihy_shavit_get_def
      pebr_harris_herlihy_shavit_insert_def pebr_harris_herlihy_shavit_remove_def pebr_list_get_guarded
      pebr_list_insert_guarded pebr_list_remove_guarded pebr_find_harris_michael_guarded
      pebr_find_harris_herlihy_shavit_guarded pebr_cursor_guarded_defs)

interpretation hm: ejection_safe
  "pebr_hash_map_ops :: ('k::linorder hash_map, pebr_cursor, 'k, 'v, list_field, ('k, 'v) node) pebr_map"
  by unfold_locales (simp_all add: pebr_hash_map_ops_def pebr_hash_map_handle_def pebr_hash_map_clear_def
      pebr_hash_map_get_def pebr_hash_map_insert_def pebr_hash_map_remove_def pebr_get_bucket_def
      pebr_HMList_get_def pebr_HMList_insert_def pebr_HMList_remove_def pebr_harris_michael_get_def
      pebr_harris_michael_insert_def pebr_harris_michael_remove_def pebr_list_get_guarded pebr_list_insert_guarded
      pebr_list_remove_guarded pebr_find_harris_michael_guarded pebr_cursor_guarded_defs)

interpretation nm: ejection_safe
  "pebr_NMTreeMap_ops :: (addr, pebr_seek_record, 'k::linorder, 'v, nm_field, ('k, 'v) nm_node) pebr_map"
  by unfold_locales (simp_all add: pebr_NMTreeMap_ops_def pebr_NMTreeMap_handle_def pebr_NMTreeMap_clear_def
      pebr_NMTreeMap_get_def pebr_NMTreeMap_insert_def pebr_NMTreeMap_remove_def pebr_seek_record_new_def
      pebr_seek_record_release_def pebr_seek_record_drop_def pebr_nm_get_guarded pebr_nm_insert_guarded
      pebr_nm_remove_guarded split_beta)

interpretation bt: ejection_safe
  "pebr_bonsai_ops :: (addr, pebr_bonsai_state, 'k::linorder, 'v, bonsai_field, ('k, 'v) bonsai_node) pebr_map"
  by unfold_locales (simp_all add: pebr_bonsai_ops_def pebr_bonsai_handle_def pebr_bonsai_clear_def pebr_state_new_def
      pebr_state_drop_def shield_pool_drop_def shield_pool_drop_loop_guarded pebr_bonsai_get_guarded
      pebr_bonsai_insert_guarded pebr_bonsai_remove_guarded)

text \<open>
  C37: no session of any of the six PEBR maps, of any length and whatever the memory and the
  library answer, reads or changes a shared location, retires a node or asks for protection between a failed protection and the
  next \<^verbatim>\<open>repin\<close>, and it returns under a guard that it does not know to be ejected.  Dropping one
  \<^verbatim>\<open>guard.repin()\<close>, or treating an ejection as a lost race, breaks it.
\<close>

theorem pebr_sessions_respect_ejections:
  fixes a :: addr and h :: "'k::linorder hash_map" and qs :: "('k, 'v) request list"
  shows "guarded (psession pebr_HList_ops a n qs) (\<lambda>_ e. \<not> e) False \<and>
     guarded (psession pebr_HMList_ops a n qs) (\<lambda>_ e. \<not> e) False \<and>
     guarded (psession pebr_HHSList_ops a n qs) (\<lambda>_ e. \<not> e) False \<and>
     guarded (psession pebr_hash_map_ops h n qs) (\<lambda>_ e. \<not> e) False \<and>
     guarded (psession pebr_NMTreeMap_ops a n qs) (\<lambda>_ e. \<not> e) False \<and>
     guarded (psession pebr_bonsai_ops a n qs) (\<lambda>_ e. \<not> e) False"
  by (intro conjI hl.psession hml.psession hhsl.psession hm.psession nm.psession bt.psession)

end
