(* ===== verification/Benchmark.thy ===== *)
theory Benchmark
  imports Decimal Pebr_Concurrent_Map
begin

text \<open>
  \<^verbatim>\<open>src/src/main.rs\<close>: the driver of the benchmark.  What it measures with is outside, so the clock, the random
  generator and the memory statistics are lists of readings, one entry per turn of a loop; a loop whose readings run out
  has not ended yet.  Everything the driver computes from them is modelled: the configuration, the prefilling, the loop of a
  worker thread, the loop of the auxiliary thread, and the figures that are reported.
\<close>

section \<open>Configuration\<close>

datatype DS = DS_HList | DS_HMList | DS_HHSList | DS_HashMap | DS_NMTree | DS_BonsaiTree

datatype MM = NR | EBR | PEBR

datatype OpsPerCs = One | Four

fun ops_per_cs_to_string :: "OpsPerCs \<Rightarrow> string" where
  "ops_per_cs_to_string One = ''1''"
| "ops_per_cs_to_string Four = ''4''"

datatype op = Op_Get | Op_Insert | Op_Remove

definition OPS :: "op list" where
  "OPS = [Op_Get, Op_Insert, Op_Remove]"

datatype PrefillStrategy = Random | Decreasing

text \<open>
  Durations are in nanoseconds.  \<^verbatim>\<open>op_dist\<close> is the list of weights, \<^verbatim>\<open>key_dist\<close> the upper end of the range.
\<close>

record bench_config =
  ds :: DS
  mm :: MM
  threads :: nat
  aux_thread :: nat
  aux_thread_period :: nat
  non_coop :: nat
  non_coop_period :: nat
  sampling :: bool
  sampling_period :: nat
  get_rate :: nat
  op_dist :: "nat list"
  key_dist :: nat
  prefill :: nat
  interval :: nat
  duration :: nat
  ops_per_cs :: OpsPerCs

text \<open>The arguments, as the command-line library has parsed them.\<close>

record bench_args =
  arg_ds :: DS
  arg_mm :: MM
  arg_threads :: nat
  arg_non_coop :: nat
  arg_get_rate :: nat
  arg_range :: nat
  arg_interval :: nat
  arg_sampling_period :: nat
  arg_ops_per_cs :: nat

definition from_secs :: "nat \<Rightarrow> nat" where
  "from_secs n = n * 1000000000"

definition from_millis :: "nat \<Rightarrow> nat" where
  "from_millis n = n * 1000000"

text \<open>The parts of \<^verbatim>\<open>setup\<close> that can panic, which is \<open>None\<close>: \<^verbatim>\<open>Uniform::from\<close> of an empty range, and an unexpected number of operations.\<close>

fun uniform_from :: "nat \<Rightarrow> nat option" where
  "uniform_from high = (if high = 0 then None else Some high)"

fun ops_per_cs_from :: "nat \<Rightarrow> OpsPerCs option" where
  "ops_per_cs_from n = (if n = 1 then Some One else if n = 4 then Some Four else None)"

fun op_weights :: "nat \<Rightarrow> nat list" where
  "op_weights g = (if g = 0 then [0, 1, 1] else if g = 1 then [2, 1, 1] else [18, 1, 1])"

text \<open>
  The configuration.  \<open>linux\<close> stands for the test \<^verbatim>\<open>cfg!(all(not(feature = "sanitize"), target_os = "linux"))\<close>.
\<close>

definition setup_config :: "bool \<Rightarrow> bench_args \<Rightarrow> bench_config option" where
  "setup_config linux m =
     (let sampling = arg_sampling_period m > 0 \<and> linux in
      case uniform_from (arg_range m) of
        None \<Rightarrow> None
      | Some dist \<Rightarrow>
        (case ops_per_cs_from (arg_ops_per_cs m) of
           None \<Rightarrow> None
         | Some ops \<Rightarrow>
             Some \<lparr>ds = arg_ds m, mm = arg_mm m, threads = arg_threads m,
               aux_thread = (if sampling \<or> arg_non_coop m > 0 then 1 else 0),
               aux_thread_period = from_millis 1,
               non_coop = arg_non_coop m,
               non_coop_period =
                 (if arg_non_coop m = 1 then from_millis 1
                  else if arg_non_coop m = 2 then from_millis 10
                  else from_secs (arg_interval m)),
               sampling = sampling,
               sampling_period = from_millis (arg_sampling_period m),
               get_rate = arg_get_rate m,
               op_dist = op_weights (arg_get_rate m),
               key_dist = dist,
               prefill = arg_range m div 2,
               interval = arg_interval m,
               duration = from_secs (arg_interval m),
               ops_per_cs = ops\<rparr>))"

text \<open>How each structure is prefilled, whatever the memory manager.\<close>

fun bench_strategy :: "DS \<Rightarrow> PrefillStrategy" where
  "bench_strategy DS_HList = Decreasing"
| "bench_strategy DS_HMList = Decreasing"
| "bench_strategy DS_HHSList = Decreasing"
| "bench_strategy DS_HashMap = Decreasing"
| "bench_strategy DS_NMTree = Random"
| "bench_strategy DS_BonsaiTree = Random"

section \<open>Prefilling\<close>

text \<open>The keys in the order of insertion, from the samples of the generator.\<close>

definition prefill_keys :: "PrefillStrategy \<Rightarrow> nat list \<Rightarrow> nat list" where
  "prefill_keys strategy samples = (case strategy of Random \<Rightarrow> samples | Decreasing \<Rightarrow> rev (sort samples))"

fun prefill_ebr_loop ::
  "('h, string, string, 'f, 'n) concurrent_map \<Rightarrow> 'h \<Rightarrow> nat \<Rightarrow> nat list \<Rightarrow> ('f, 'n, unit) prog" where
  "prefill_ebr_loop M h n [] = Ret ()"
| "prefill_ebr_loop M h n (k # keys) =
     (let key = usize_to_string k; value = key in
      bind (map_insert M h n key value) (\<lambda>_. prefill_ebr_loop M h n keys))"

definition prefill_ebr ::
  "('h, string, string, 'f, 'n) concurrent_map \<Rightarrow> PrefillStrategy \<Rightarrow> bench_config \<Rightarrow> 'h \<Rightarrow> nat \<Rightarrow> nat list \<Rightarrow> ('f, 'n, unit) prog" where
  "prefill_ebr M self config h n samples = prefill_ebr_loop M h n (prefill_keys self (take (prefill config) samples))"

fun prefill_pebr_loop ::
  "('h, 'c, string, string, 'f, 'n) pebr_map \<Rightarrow> 'h \<Rightarrow> nat \<Rightarrow> 'c \<Rightarrow> nat list \<Rightarrow> ('f, 'n, 'c) prog" where
  "prefill_pebr_loop M h n handle [] = Ret handle"
| "prefill_pebr_loop M h n handle (k # keys) =
     (let key = usize_to_string k; value = key in
      bind (pmap_insert M h n handle key value) (\<lambda>(_, handle). prefill_pebr_loop M h n handle keys))"

definition prefill_pebr ::
  "('h, 'c, string, string, 'f, 'n) pebr_map \<Rightarrow> PrefillStrategy \<Rightarrow> bench_config \<Rightarrow> 'h \<Rightarrow> nat \<Rightarrow> nat list \<Rightarrow> ('f, 'n, unit) prog" where
  "prefill_pebr M self config h n samples =
     bind (pmap_handle M) (\<lambda>handle.
     bind (prefill_pebr_loop M h n handle (prefill_keys self (take (prefill config) samples))) (\<lambda>handle.
     pmap_drop M handle))"

section \<open>Workers\<close>

text \<open>What one turn of a worker's loop reads: the time since the start, a key and the index of an operation.\<close>

record turn =
  elapsed :: nat
  sampled_key :: nat
  sampled_op :: nat

definition N_to_u64 :: "OpsPerCs \<Rightarrow> 64 word" where
  "N_to_u64 N = (case N of One \<Rightarrow> 1 | Four \<Rightarrow> 4)"

text \<open>The operation of a turn; an index out of range panics.\<close>

definition bench_op ::
  "('h, string, string, 'f, 'n) concurrent_map \<Rightarrow> 'h \<Rightarrow> nat \<Rightarrow> turn \<Rightarrow> ('f, 'n, unit) prog" where
  "bench_op M h n turn =
     (let key = usize_to_string (sampled_key turn) in
      if sampled_op turn < length OPS then
        (case OPS ! sampled_op turn of
           Op_Get \<Rightarrow> bind (map_get M h n key) (\<lambda>_. Ret ())
         | Op_Insert \<Rightarrow> bind (map_insert M h n key key) (\<lambda>_. Ret ())
         | Op_Remove \<Rightarrow> bind (map_remove M h n key) (\<lambda>_. Ret ()))
      else Panic)"

fun worker_nr ::
  "('h, string, string, 'f, 'n) concurrent_map \<Rightarrow> bench_config \<Rightarrow> 'h \<Rightarrow> nat \<Rightarrow> turn list \<Rightarrow> 64 word \<Rightarrow> ('f, 'n, 64 word) prog" where
  "worker_nr M config h n [] ops = Out_of_fuel"
| "worker_nr M config h n (turn # turns) ops =
     (if elapsed turn < duration config then
        bind (bench_op M h n turn) (\<lambda>_. worker_nr M config h n turns (ops + 1))
      else Ret ops)"

text \<open>Dropping the guard and pinning again lets the thread be seen unpinned in between: the effect of a repin.\<close>

fun worker_ebr ::
  "('h, string, string, 'f, 'n) concurrent_map \<Rightarrow> bench_config \<Rightarrow> 'h \<Rightarrow> nat \<Rightarrow> turn list \<Rightarrow> 64 word \<Rightarrow> ('f, 'n, 64 word) prog" where
  "worker_ebr M config h n [] ops = Out_of_fuel"
| "worker_ebr M config h n (turn # turns) ops =
     (if elapsed turn < duration config then
        bind (bench_op M h n turn) (\<lambda>_.
          let ops = ops + 1 in
          if ops mod N_to_u64 (ops_per_cs config) = 0 then Repin (worker_ebr M config h n turns ops)
          else worker_ebr M config h n turns ops)
      else Ret ops)"

definition bench_op_pebr ::
  "('h, 'c, string, string, 'f, 'n) pebr_map \<Rightarrow> 'h \<Rightarrow> nat \<Rightarrow> 'c \<Rightarrow> turn \<Rightarrow> ('f, 'n, 'c) prog" where
  "bench_op_pebr M h n map_handle turn =
     (let key = usize_to_string (sampled_key turn) in
      if sampled_op turn < length OPS then
        (case OPS ! sampled_op turn of
           Op_Get \<Rightarrow> bind (pmap_get M h n map_handle key) (\<lambda>(_, c). Ret c)
         | Op_Insert \<Rightarrow> bind (pmap_insert M h n map_handle key key) (\<lambda>(_, c). Ret c)
         | Op_Remove \<Rightarrow> bind (pmap_remove M h n map_handle key) (\<lambda>(_, c). Ret c))
      else Panic)"

fun worker_pebr_loop ::
  "('h, 'c, string, string, 'f, 'n) pebr_map \<Rightarrow> bench_config \<Rightarrow> 'h \<Rightarrow> nat \<Rightarrow> 'c \<Rightarrow> turn list \<Rightarrow> 64 word \<Rightarrow> ('f, 'n, 64 word \<times> 'c) prog" where
  "worker_pebr_loop M config h n map_handle [] ops = Out_of_fuel"
| "worker_pebr_loop M config h n map_handle (turn # turns) ops =
     (if elapsed turn < duration config then
        bind (bench_op_pebr M h n map_handle turn) (\<lambda>map_handle.
          let ops = ops + 1 in
          if ops mod N_to_u64 (ops_per_cs config) = 0 then
            bind (pmap_clear M map_handle) (\<lambda>_. Repin (worker_pebr_loop M config h n map_handle turns ops))
          else worker_pebr_loop M config h n map_handle turns ops)
      else Ret (ops, map_handle))"

text \<open>At the end of the thread the handle is dropped.\<close>

definition worker_pebr ::
  "('h, 'c, string, string, 'f, 'n) pebr_map \<Rightarrow> bench_config \<Rightarrow> 'h \<Rightarrow> nat \<Rightarrow> turn list \<Rightarrow> ('f, 'n, 64 word) prog" where
  "worker_pebr M config h n turns =
     bind (pmap_handle M) (\<lambda>map_handle.
     bind (worker_pebr_loop M config h n map_handle turns 0) (\<lambda>(ops, map_handle).
     bind (pmap_drop M map_handle) (\<lambda>_. Ret ops)))"

text \<open>The map, the prefilling and one worker.\<close>

definition bench_map_ebr_worker ::
  "('h, string, string, 'f, 'n) concurrent_map \<Rightarrow> PrefillStrategy \<Rightarrow> bench_config \<Rightarrow> 'h \<Rightarrow> nat \<Rightarrow> nat list \<Rightarrow> turn list \<Rightarrow> ('f, 'n, 64 word) prog" where
  "bench_map_ebr_worker M strategy config h n samples turns =
     bind (map_new M h) (\<lambda>_. bind (prefill_ebr M strategy config h n samples) (\<lambda>_. worker_ebr M config h n turns 0))"

definition bench_map_pebr_worker ::
  "('h, 'c, string, string, 'f, 'n) pebr_map \<Rightarrow> PrefillStrategy \<Rightarrow> bench_config \<Rightarrow> 'h \<Rightarrow> nat \<Rightarrow> nat list \<Rightarrow> turn list \<Rightarrow> ('f, 'n, 64 word) prog" where
  "bench_map_pebr_worker M strategy config h n samples turns =
     bind (pmap_new M h) (\<lambda>_. bind (prefill_pebr M strategy config h n samples) (\<lambda>_. worker_pebr M config h n turns))"

section \<open>The auxiliary thread\<close>

text \<open>What one turn of its loop reads: the time since the start, the time again a little later, and the memory in use.\<close>

record reading =
  at_check :: nat
  now :: nat
  allocated :: "64 word"

record aux_state =
  samples :: "64 word"
  acc_mem :: "64 word"
  peak :: "64 word"
  next_sampling :: nat

definition take_sample :: "bench_config \<Rightarrow> reading \<Rightarrow> aux_state \<Rightarrow> aux_state" where
  "take_sample config r st =
     (if now r > next_sampling st then
        st\<lparr>samples := samples st + 1, acc_mem := acc_mem st + allocated r, peak := max (peak st) (allocated r),
           next_sampling := now r + sampling_period config\<rparr>
      else st)"

text \<open>
  How the thread ends: it sends a pair, it panics (an assertion, a division by zero), it uses a guard that was dropped, or it
  is still in its loop.
\<close>

datatype aux_end = Sent "64 word" "64 word" | Aux_panicked | Used_after_drop | Still_running

definition send_samples :: "aux_state \<Rightarrow> aux_end" where
  "send_samples st = (if samples st = 0 then Aux_panicked else Sent (peak st) (acc_mem st div samples st))"

fun aux_nr_loop :: "bench_config \<Rightarrow> reading list \<Rightarrow> aux_state \<Rightarrow> aux_end" where
  "aux_nr_loop config [] st = Still_running"
| "aux_nr_loop config (r # rs) st =
     (if at_check r < duration config then aux_nr_loop config rs (take_sample config r st)
      else send_samples st)"

definition aux_start :: "bench_config \<Rightarrow> aux_state" where
  "aux_start config = \<lparr>samples = 0, acc_mem = 0, peak = 0, next_sampling = sampling_period config\<rparr>"

definition aux_nr :: "bench_config \<Rightarrow> reading list \<Rightarrow> aux_end" where
  "aux_nr config rs = (if \<not> sampling config then Aux_panicked else aux_nr_loop config rs (aux_start config))"

text \<open>The version with a guard, which is dropped at once if \<^verbatim>\<open>non_coop\<close> is 0; \<open>next_repin\<close> is a local variable.
  Times are natural numbers: the sum of an instant and a duration is taken not to overflow.\<close>

fun aux_loop :: "bench_config \<Rightarrow> bool \<Rightarrow> reading list \<Rightarrow> nat \<Rightarrow> aux_state \<Rightarrow> aux_end" where
  "aux_loop config guarded [] next_repin st = Still_running"
| "aux_loop config guarded (r # rs) next_repin st =
     (if at_check r < duration config then
        let st = take_sample config r st in
        if now r > next_repin then
          (if guarded then aux_loop config guarded rs (now r + non_coop_period config) st else Used_after_drop)
        else aux_loop config guarded rs next_repin st
      else if sampling config then send_samples st
      else Sent 0 0)"

definition aux_ebr :: "bench_config \<Rightarrow> reading list \<Rightarrow> aux_end" where
  "aux_ebr config rs = aux_loop config (non_coop config \<noteq> 0) rs (non_coop_period config) (aux_start config)"

text \<open>The thread of the PEBR benchmark is written out again with the same body.\<close>

definition aux_pebr :: "bench_config \<Rightarrow> reading list \<Rightarrow> aux_end" where
  "aux_pebr config rs = aux_loop config (non_coop config \<noteq> 0) rs (non_coop_period config) (aux_start config)"

section \<open>The report\<close>

text \<open>The sum of what the workers sent, per second; \<open>None\<close> is a division by zero.\<close>

definition ops_per_sec :: "bench_config \<Rightarrow> 64 word list \<Rightarrow> 64 word option" where
  "ops_per_sec config local_ops =
     (let ops = foldl (+) 0 local_ops in
      if (of_nat (interval config) :: 64 word) = 0 then None else Some (ops div of_nat (interval config)))"

text \<open>The line that is appended to the output file, below the header that a new file gets.\<close>

fun ds_to_string :: "DS \<Rightarrow> string" where
  "ds_to_string DS_HList = ''HList''"
| "ds_to_string DS_HMList = ''HMList''"
| "ds_to_string DS_HHSList = ''HHSList''"
| "ds_to_string DS_HashMap = ''HashMap''"
| "ds_to_string DS_NMTree = ''NMTree''"
| "ds_to_string DS_BonsaiTree = ''BonsaiTree''"

fun mm_to_string :: "MM \<Rightarrow> string" where
  "mm_to_string NR = ''NR''"
| "mm_to_string EBR = ''EBR''"
| "mm_to_string PEBR = ''PEBR''"

definition output_header :: "string list" where
  "output_header = [''ds'', ''mm'', ''threads'', ''sampling_period'', ''non_coop'', ''get_rate'', ''ops_per_cs'', ''throughput'',
     ''peak_mem'', ''avg_mem'']"

definition as_millis :: "nat \<Rightarrow> nat" where
  "as_millis d = d div 1000000"

definition output_record :: "bench_config \<Rightarrow> 64 word \<Rightarrow> 64 word \<Rightarrow> 64 word \<Rightarrow> string list" where
  "output_record config throughput peak_mem avg_mem =
     [ds_to_string (ds config), mm_to_string (mm config), usize_to_string (threads config),
      usize_to_string (as_millis (sampling_period config)), usize_to_string (non_coop config), usize_to_string (get_rate config),
      ops_per_cs_to_string (ops_per_cs config), usize_to_string (unat throughput), usize_to_string (unat peak_mem),
      usize_to_string (unat avg_mem)]"

end
