(* ===== verification/Benchmark_Correct.thy ===== *)
theory Benchmark_Correct
  imports Benchmark
begin

text \<open>
  Correctness of the driver, for any map that keeps its contract: what a worker thread leaves in the map and counts, and what
  the auxiliary thread reports.  The locales below add to the contracts of theories \<^verbatim>\<open>Concurrent_Map\<close> and
  \<^verbatim>\<open>Pebr_Concurrent_Map\<close> that a repin does not disturb the map.
\<close>

section \<open>What a worker asks for\<close>

definition turn_request :: "turn \<Rightarrow> (string, string) request" where
  "turn_request turn =
     (let key = usize_to_string (sampled_key turn) in
      case OPS ! sampled_op turn of Op_Get \<Rightarrow> Get_req key | Op_Insert \<Rightarrow> Insert_req key key | Op_Remove \<Rightarrow> Remove_req key)"

definition in_time :: "bench_config \<Rightarrow> turn list \<Rightarrow> turn list" where
  "in_time config turns = takeWhile (\<lambda>t. elapsed t < duration config) turns"

lemma in_time_simps [simp]:
  "in_time config (t # ts) = (if elapsed t < duration config then t # in_time config ts else [])"
  by (simp add: in_time_def)

lemma turn_cases:
  assumes "sampled_op turn < 3"
  obtains "OPS ! sampled_op turn = Op_Get" | "OPS ! sampled_op turn = Op_Insert" | "OPS ! sampled_op turn = Op_Remove"
proof -
  have "sampled_op turn = 0 \<or> sampled_op turn = 1 \<or> sampled_op turn = 2" using assms by auto
  with that show thesis by (auto simp: OPS_def)
qed

lemma length_OPS [simp]: "length OPS = 3"
  by (simp add: OPS_def)

text \<open>A turn is a call of the trait, the answer of which is ignored.\<close>

lemma bench_op_call:
  assumes "sampled_op turn < 3"
  shows "bench_op D h n turn = bind (call D h n (turn_request turn)) (\<lambda>_. Ret ())"
    and "bench_op_pebr P h n c turn = bind (pcall P h n c (turn_request turn)) (\<lambda>(_, c). Ret c)"
  by (rule turn_cases[OF assms]; use assms in \<open>simp add: bench_op_def bench_op_pebr_def turn_request_def Let_def bind_assoc case_prod_unfold\<close>)+

text \<open>The map that prefilling leaves.\<close>

definition filled :: "nat list \<Rightarrow> (string \<rightharpoonup> string) \<Rightarrow> string \<rightharpoonup> string" where
  "filled keys M = (\<lambda>s. if M s = None \<and> s \<in> usize_to_string ` set keys then Some s else M s)"

lemma filled_Cons: "filled (k # keys) M = filled keys (if M (usize_to_string k) = None then M(usize_to_string k \<mapsto> usize_to_string k) else M)"
  by (auto simp: filled_def fun_eq_iff)

lemma filled_Nil [simp]: "filled [] M = M"
  by (simp add: filled_def fun_eq_iff)

text \<open>Both strategies insert the same keys.\<close>

lemma filled_prefill_keys: "filled (prefill_keys strategy ks) M = filled ks M"
  by (cases strategy) (simp_all add: prefill_keys_def filled_def)

lemma length_prefill_keys [simp]: "length (prefill_keys strategy ks) = length ks"
  by (cases strategy) (simp_all add: prefill_keys_def)

lemma spec_calls_snd: "snd (spec_calls (q # qs) M) = snd (spec_calls qs (snd (spec_call q M)))"
  by (auto split: prod.splits)

section \<open>Maps without handles\<close>

locale bench_map = map_impl D place repr
  for D :: "('h, string, string, 'f, 'n) concurrent_map" and place repr +
  assumes repr_reclaim: "repr h m M s \<Longrightarrow> repr h (reclaim R m) M s"
begin

lemma prefill_ebr_loop_wp:
  assumes "repr h m M b" "b + length keys \<le> n"
  shows "wp (prefill_ebr_loop D h n keys) (\<lambda>_ m'. repr h m' (filled keys M) (b + length keys)) m"
  using assms
proof (induction keys arbitrary: m M b)
  case (Cons k keys)
  have b: "b < n" using Cons.prems(2) by simp
  show ?case
    unfolding prefill_ebr_loop.simps Let_def
  proof (rule wp_bind_mono[OF insert_wp[OF Cons.prems(1) b]], goal_cases)
    case (1 r m1)
    let ?s = "usize_to_string k"
    have "wp (prefill_ebr_loop D h n keys)
        (\<lambda>_ m'. repr h m' (filled keys (if M ?s = None then M(?s \<mapsto> ?s) else M)) (Suc b + length keys)) m1"
      by (rule Cons.IH) (use 1 Cons.prems(2) in auto)
    then show ?case by (simp add: filled_Cons)
  qed
qed simp

lemma bench_op_wp:
  assumes "repr h m M b" "b < n" "sampled_op turn < 3"
  shows "wp (bench_op D h n turn) (\<lambda>_ m'. repr h m' (snd (spec_call (turn_request turn) M)) (Suc b)) m"
  unfolding bench_op_call[OF assms(3)] by (rule wp_bind_mono[OF call_wp[OF assms(1,2)]]) auto

text \<open>The loop of a worker, whenever it repins.\<close>

lemma worker_wp:
  assumes W: "\<And>t ts ops. W (t # ts) ops = (if elapsed t < duration config then
      bind (bench_op D h n t) (\<lambda>_. if rp (ops + 1) then Repin (W ts (ops + 1)) else W ts (ops + 1)) else Ret ops)"
    and "repr h m M b" "\<exists>t\<in>set turns. duration config \<le> elapsed t" "\<forall>t\<in>set turns. sampled_op t < 3" "b + length turns \<le> n"
  shows "wp (W turns ops) (\<lambda>r m'. r = ops + of_nat (length (in_time config turns)) \<and>
    (\<exists>s. repr h m' (snd (spec_calls (map turn_request (in_time config turns)) M)) s)) m"
  using assms(2-)
proof (induction turns arbitrary: m M b ops)
  case (Cons t turns)
  show ?case
  proof (cases "elapsed t < duration config")
    case True
    let ?N = "snd (spec_call (turn_request t) M)"
    have b: "b < n" "sampled_op t < 3" using Cons.prems(3,4) by auto
    have rest: "wp (W turns (ops + 1)) (\<lambda>r m'. r = ops + 1 + of_nat (length (in_time config turns)) \<and>
        (\<exists>s. repr h m' (snd (spec_calls (map turn_request (in_time config turns)) ?N)) s)) m1" if "repr h m1 ?N (Suc b)" for m1
      by (rule Cons.IH[OF that]) (use Cons.prems True in auto)
    have "wp (bind (bench_op D h n t) (\<lambda>_. if rp (ops + 1) then Repin (W turns (ops + 1)) else W turns (ops + 1)))
        (\<lambda>r m'. r = ops + of_nat (length (in_time config (t # turns))) \<and>
          (\<exists>s. repr h m' (snd (spec_calls (map turn_request (in_time config (t # turns))) M)) s)) m"
    proof (rule wp_bind_mono[OF bench_op_wp[OF Cons.prems(1) b]], goal_cases)
      case (1 u m1)
      then show ?case using rest[OF 1] rest[OF repr_reclaim[OF 1]] True
        by (simp add: spec_calls_snd add.assoc del: spec_calls.simps)
    qed
    with True show ?thesis by (simp add: W)
  qed (use Cons.prems in \<open>auto simp: W\<close>)
qed simp

lemma worker_ebr_wp:
  assumes "repr h m M b" "\<exists>t\<in>set turns. duration config \<le> elapsed t" "\<forall>t\<in>set turns. sampled_op t < 3" "b + length turns \<le> n"
  shows "wp (worker_ebr D config h n turns ops) (\<lambda>r m'. r = ops + of_nat (length (in_time config turns)) \<and>
    (\<exists>s. repr h m' (snd (spec_calls (map turn_request (in_time config turns)) M)) s)) m"
  by (rule worker_wp[where rp = "\<lambda>ops. ops mod N_to_u64 (ops_per_cs config) = 0" and W = "worker_ebr D config h n", OF _ assms])
    (simp add: Let_def)

lemma worker_nr_wp:
  assumes "repr h m M b" "\<exists>t\<in>set turns. duration config \<le> elapsed t" "\<forall>t\<in>set turns. sampled_op t < 3" "b + length turns \<le> n"
  shows "wp (worker_nr D config h n turns ops) (\<lambda>r m'. r = ops + of_nat (length (in_time config turns)) \<and>
    (\<exists>s. repr h m' (snd (spec_calls (map turn_request (in_time config turns)) M)) s)) m"
  by (rule worker_wp[where rp = "\<lambda>_. False" and W = "worker_nr D config h n", OF _ assms]) simp

end

section \<open>Maps with handles\<close>

locale pebr_bench_map = pebr_map_impl D place repr hok
  for D :: "('h, 'c, string, string, 'f, 'n) pebr_map" and place repr hok +
  assumes repr_reclaim: "repr h m M s \<Longrightarrow> repr h (reclaim R m) M s"
    and hok_reclaim: "hok c m \<Longrightarrow> hok c (reclaim R m)"
begin

lemma prefill_pebr_loop_wp:
  assumes "repr h m M b" "hok c m" "b + length keys + ejections m \<le> n"
  shows "wp (prefill_pebr_loop D h n c keys) (\<lambda>c' m'. repr h m' (filled keys M) (b + length keys) \<and> hok c' m' \<and>
    ejections m' \<le> ejections m) m"
  using assms
proof (induction keys arbitrary: m M b c)
  case (Cons k keys)
  have b: "b + ejections m < n" using Cons.prems(3) by simp
  show ?case
    unfolding prefill_pebr_loop.simps Let_def
  proof (rule wp_bind_mono[OF insert_wp[OF Cons.prems(1,2) b]], goal_cases)
    case (1 rc m1)
    let ?s = "usize_to_string k"
    obtain r c1 where rc: "rc = (r, c1)" by (cases rc)
    have "wp (prefill_pebr_loop D h n c1 keys) (\<lambda>c' m'.
        repr h m' (filled keys (if M ?s = None then M(?s \<mapsto> ?s) else M)) (Suc b + length keys) \<and> hok c' m' \<and> ejections m' \<le> ejections m1) m1"
      by (rule Cons.IH) (use 1 rc Cons.prems(3) in auto)
    then show ?case unfolding rc prod.case filled_Cons by (rule wp_mono) (use 1 rc in auto)
  qed
qed simp

lemma worker_pebr_loop_wp:
  assumes "repr h m M b" "hok c m" "\<exists>t\<in>set turns. duration config \<le> elapsed t" "\<forall>t\<in>set turns. sampled_op t < 3"
    and "b + length turns + ejections m \<le> n"
  shows "wp (worker_pebr_loop D config h n c turns ops) (\<lambda>(r, c') m'. r = ops + of_nat (length (in_time config turns)) \<and> hok c' m' \<and>
    (\<exists>s. repr h m' (snd (spec_calls (map turn_request (in_time config turns)) M)) s)) m"
  using assms
proof (induction turns arbitrary: m M b c ops)
  case (Cons t turns)
  show ?case
  proof (cases "elapsed t < duration config")
    case True
    let ?N = "snd (spec_call (turn_request t) M)"
    have b: "b + ejections m < n" "sampled_op t < 3" using Cons.prems(4,5) by auto
    have rest: "wp (worker_pebr_loop D config h n c1 turns (ops + 1)) (\<lambda>(r, c') m'. r = ops + 1 + of_nat (length (in_time config turns)) \<and> hok c' m' \<and>
        (\<exists>s. repr h m' (snd (spec_calls (map turn_request (in_time config turns)) ?N)) s)) m1"
      if "repr h m1 ?N (Suc b)" "hok c1 m1" "ejections m1 \<le> ejections m" for m1 c1
      by (rule Cons.IH[OF that(1,2)]) (use Cons.prems True that(3) in auto)
    have "wp (bind (bench_op_pebr D h n c t) (\<lambda>map_handle. let ops = ops + 1 in
          if ops mod N_to_u64 (ops_per_cs config) = 0 then
            bind (pmap_clear D map_handle) (\<lambda>_. Repin (worker_pebr_loop D config h n map_handle turns ops))
          else worker_pebr_loop D config h n map_handle turns ops))
        (\<lambda>(r, c') m'. r = ops + of_nat (length (in_time config (t # turns))) \<and> hok c' m' \<and>
          (\<exists>s. repr h m' (snd (spec_calls (map turn_request (in_time config (t # turns))) M)) s)) m"
      unfolding bench_op_call(2)[OF b(2)] bind_assoc
    proof (rule wp_bind_mono[OF pcall_wp[OF Cons.prems(1,2) b(1)]], goal_cases)
      case (1 rc m1)
      obtain r c1 where rc: "rc = (r, c1)" by (cases rc)
      from 1 rc have m1: "repr h m1 ?N (Suc b)" "hok c1 m1" "ejections m1 \<le> ejections m" by auto
      have cl: "wp (bind (pmap_clear D c1) (\<lambda>_. Repin (worker_pebr_loop D config h n c1 turns (ops + 1))))
          (\<lambda>(r, c') m'. r = ops + 1 + of_nat (length (in_time config turns)) \<and> hok c' m' \<and>
            (\<exists>s. repr h m' (snd (spec_calls (map turn_request (in_time config turns)) ?N)) s)) m1"
        by (rule wp_bind_mono[OF clear_wp[OF m1(1,2)]]) (use m1(3) in \<open>auto intro!: rest repr_reclaim hok_reclaim\<close>)
      with rest[OF m1] True rc show ?case by (simp add: Let_def spec_calls_snd add.assoc del: spec_calls.simps)
    qed
    with True show ?thesis by simp
  qed (use Cons.prems in auto)
qed simp

end

section \<open>A worker thread from beginning to end\<close>

context bench_map
begin

lemma bench_map_ebr_worker_wp:
  assumes "place h m" "prefill config + length turns \<le> n"
    and turns: "\<exists>t\<in>set turns. duration config \<le> elapsed t" "\<forall>t\<in>set turns. sampled_op t < 3"
  shows "wp (bench_map_ebr_worker D strategy config h n ks turns) (\<lambda>r m'. r = of_nat (length (in_time config turns)) \<and>
    (\<exists>s. repr h m' (snd (spec_calls (map turn_request (in_time config turns)) (filled (take (prefill config) ks) Map.empty))) s)) m"
  unfolding bench_map_ebr_worker_def
proof (rule wp_bind_mono[OF new_wp[OF assms(1)]], goal_cases)
  case (1 u m1)
  let ?ks = "take (prefill config) ks"
  have fuel: "0 + length (prefill_keys strategy ?ks) \<le> n" using assms(2) by simp
  show ?case
    unfolding prefill_ebr_def
  proof (rule wp_bind_mono[OF prefill_ebr_loop_wp[OF 1 fuel]], goal_cases)
    case (1 v m2)
    then have r: "repr h m2 (filled ?ks Map.empty) (length ?ks)" by (simp add: filled_prefill_keys)
    have "length ?ks + length turns \<le> n" using assms(2) by simp
    from worker_ebr_wp[OF r turns this, of 0] show ?case by simp
  qed
qed

end

context pebr_bench_map
begin

lemma worker_pebr_wp:
  assumes "repr h m M b" "\<exists>t\<in>set turns. duration config \<le> elapsed t" "\<forall>t\<in>set turns. sampled_op t < 3"
    and "b + length turns + ejections m \<le> n"
  shows "wp (worker_pebr D config h n turns) (\<lambda>r m'. r = of_nat (length (in_time config turns)) \<and>
    (\<exists>s. repr h m' (snd (spec_calls (map turn_request (in_time config turns)) M)) s)) m"
  unfolding worker_pebr_def
proof (rule wp_bind_mono[OF handle_wp[OF assms(1)]], goal_cases)
  case (1 c m1)
  then have r: "repr h m1 M b" "hok c m1" and "b + length turns + ejections m1 \<le> n" using assms(4) by auto
  from worker_pebr_loop_wp[OF r assms(2,3) this(3), of 0] show ?case
    by (rule wp_bind_mono) (auto simp: wp_bind intro!: wp_mono[OF drop_wp])
qed

lemma prefill_pebr_wp:
  assumes "repr h m M b" "b + prefill config + ejections m \<le> n"
  shows "wp (prefill_pebr D strategy config h n ks) (\<lambda>_ m'. repr h m' (filled (take (prefill config) ks) M) (b + length (take (prefill config) ks)) \<and>
    ejections m' \<le> ejections m) m"
  unfolding prefill_pebr_def
proof (rule wp_bind_mono[OF handle_wp[OF assms(1)]], goal_cases)
  case (1 c m1)
  let ?keys = "prefill_keys strategy (take (prefill config) ks)"
  from 1 have r: "repr h m1 M b" "hok c m1" and fuel: "b + length ?keys + ejections m1 \<le> n" using assms(2) by auto
  from prefill_pebr_loop_wp[OF r fuel] show ?case
    by (rule wp_bind_mono) (use 1 in \<open>auto simp: filled_prefill_keys intro!: wp_mono[OF drop_wp]\<close>)
qed

lemma bench_map_pebr_worker_wp:
  assumes "place h m" "prefill config + length turns + ejections m \<le> n"
    and turns: "\<exists>t\<in>set turns. duration config \<le> elapsed t" "\<forall>t\<in>set turns. sampled_op t < 3"
  shows "wp (bench_map_pebr_worker D strategy config h n ks turns) (\<lambda>r m'. r = of_nat (length (in_time config turns)) \<and>
    (\<exists>s. repr h m' (snd (spec_calls (map turn_request (in_time config turns)) (filled (take (prefill config) ks) Map.empty))) s)) m"
  unfolding bench_map_pebr_worker_def
proof (rule wp_bind_mono[OF new_wp[OF assms(1)]], goal_cases)
  case (1 u m1)
  then have r: "repr h m1 Map.empty 0" and e: "0 + prefill config + ejections m1 \<le> n" using assms(2) by auto
  show ?case
  proof (rule wp_bind_mono[OF prefill_pebr_wp[OF r e]], goal_cases)
    case (1 v m2)
    with e assms(2) \<open>repr h m1 Map.empty 0 \<and> ejections m1 \<le> ejections m\<close> show ?case by (intro worker_pebr_wp[OF _ turns]) auto
  qed
qed

end

section \<open>The auxiliary thread\<close>

text \<open>The readings of memory that are taken as samples.\<close>

fun taken :: "bench_config \<Rightarrow> reading list \<Rightarrow> nat \<Rightarrow> 64 word list" where
  "taken config [] next = []"
| "taken config (r # rs) next =
     (if at_check r < duration config then
        (if now r > next then allocated r # taken config rs (now r + sampling_period config) else taken config rs next)
      else [])"

abbreviation in_loop :: "bench_config \<Rightarrow> reading list \<Rightarrow> reading list" where
  "in_loop config rs \<equiv> takeWhile (\<lambda>r. at_check r < duration config) rs"

definition sampled :: "aux_state \<Rightarrow> 64 word list \<Rightarrow> aux_end" where
  "sampled st ws = send_samples (st\<lparr>samples := samples st + of_nat (length ws), acc_mem := acc_mem st + sum_list ws,
     peak := foldl max (peak st) ws\<rparr>)"

lemma sampled_Cons:
  assumes "next_sampling st < now r"
  shows "sampled (take_sample config r st) ws = sampled st (allocated r # ws)"
  using assms by (simp add: sampled_def take_sample_def send_samples_def add.assoc)

lemma sampled_Nil [simp]: "sampled st [] = send_samples st"
  by (simp add: sampled_def send_samples_def)

lemma next_sampling_take: "next_sampling (take_sample config r st) = (if next_sampling st < now r then now r + sampling_period config else next_sampling st)"
  by (simp add: take_sample_def)

lemma take_sample_idle: "\<not> next_sampling st < now r \<Longrightarrow> take_sample config r st = st"
  by (simp add: take_sample_def)

lemma sampled_step:
  "at_check r < duration config \<Longrightarrow> sampled (take_sample config r st) (taken config rs (next_sampling (take_sample config r st))) =
    sampled st (taken config (r # rs) (next_sampling st))"
  by (cases "next_sampling st < now r") (simp_all add: sampled_Cons next_sampling_take take_sample_idle)

lemma aux_nr_loop_end:
  "\<exists>r\<in>set rs. duration config \<le> at_check r \<Longrightarrow> aux_nr_loop config rs st = sampled st (taken config rs (next_sampling st))"
proof (induction rs arbitrary: st)
  case (Cons r rs)
  then show ?case using Cons.IH[of "take_sample config r st"] sampled_step[of r config st rs] by fastforce
qed simp

lemma aux_loop_guarded:
  "\<exists>r\<in>set rs. duration config \<le> at_check r \<Longrightarrow>
    aux_loop config True rs next_repin st = (if sampling config then sampled st (taken config rs (next_sampling st)) else Sent 0 0)"
proof (induction rs arbitrary: st next_repin)
  case (Cons r rs)
  show ?case
  proof (cases "at_check r < duration config")
    case True
    then have "\<exists>r\<in>set rs. duration config \<le> at_check r" using Cons.prems by auto
    note IH = Cons.IH[OF this, of _ "take_sample config r st"]
    show ?thesis using True unfolding aux_loop.simps Let_def IH sampled_step[OF True] by simp
  qed simp
qed simp

lemma aux_loop_dropped:
  "\<exists>r\<in>set rs. duration config \<le> at_check r \<Longrightarrow>
    aux_loop config False rs next_repin st =
      (if \<exists>r\<in>set (in_loop config rs). next_repin < now r then Used_after_drop
       else if sampling config then sampled st (taken config rs (next_sampling st)) else Sent 0 0)"
proof (induction rs arbitrary: st)
  case (Cons r rs)
  show ?case
  proof (cases "at_check r < duration config")
    case True
    then have "\<exists>r\<in>set rs. duration config \<le> at_check r" using Cons.prems by auto
    note IH = Cons.IH[OF this, of "take_sample config r st"]
    show ?thesis using True unfolding aux_loop.simps Let_def IH sampled_step[OF True] by auto
  qed simp
qed simp

text \<open>The pair that is sent, when nothing overflows.\<close>

definition mem_report :: "64 word list \<Rightarrow> aux_end" where
  "mem_report ws = (if ws = [] then Aux_panicked else Sent (Max (set ws)) (of_nat (sum_list (map unat ws) div length ws)))"

lemma sum_list_unat: "(sum_list ws :: 64 word) = of_nat (sum_list (map unat ws))"
  by (induction ws) simp_all

lemma sampled_start:
  assumes "length ws < 2 ^ 64" "sum_list (map unat ws) < 2 ^ 64"
  shows "sampled (aux_start config) ws = mem_report ws"
proof (cases "ws = []")
  case False
  let ?S = "sum_list (map unat ws)" and ?n = "of_nat (length ws) :: 64 word"
  have n: "unat ?n = length ws" using assms(1) by (simp add: unat_of_nat)
  then have n0: "?n \<noteq> 0" using False by (metis length_0_conv unat_0)
  have "of_nat ?S div ?n = of_nat (?S div length ws)"
    unfolding word_arith_nat_div using assms(2) n by (simp add: unat_of_nat)
  moreover have "foldl max 0 ws = Max (set ws)"
  proof -
    have "foldl max a ws = fold max ws a" for a :: "64 word" by (induction ws arbitrary: a) (simp_all add: max.commute)
    then have "foldl max 0 ws = max 0 (Max (set ws))" using False Max.set_eq_fold[of 0 ws] by simp
    then show ?thesis by simp
  qed
  ultimately show ?thesis using False n0 by (simp add: sampled_def send_samples_def aux_start_def mem_report_def sum_list_unat)
qed (simp add: mem_report_def send_samples_def aux_start_def)

lemma taken_bounds:
  "length (taken config rs next) \<le> length rs" "sum_list (map unat (taken config rs next)) \<le> sum_list (map (unat \<circ> allocated) rs)"
  by (induction config rs "next" rule: taken.induct) (auto simp: le_SucI trans_le_add2)

text \<open>
  C28: how the auxiliary thread ends, once its time is over and unless a counter overflows.  Without reclamation it panics if
  sampling is off, although it is also started for \<^verbatim>\<open>-n\<close> alone, or if it never took a sample, for then it divides by zero;
  otherwise it sends the largest sample and their average.  The two versions with a guard do the same, and send zeros if
  sampling is off; but with \<^verbatim>\<open>-n 0\<close>, when they have dropped their guard at the start, they repin it if the second reading
  of the clock in some turn is past the end of the interval.
\<close>

theorem aux_thread_outcome:
  assumes "\<exists>r\<in>set rs. duration config \<le> at_check r" "length rs < 2 ^ 64" "sum_list (map (unat \<circ> allocated) rs) < 2 ^ 64"
  shows "aux_nr config rs =
      (if sampling config then mem_report (taken config rs (sampling_period config)) else Aux_panicked) \<and>
    aux_ebr config rs =
      (if non_coop config = 0 \<and> (\<exists>r\<in>set (in_loop config rs). non_coop_period config < now r) then Used_after_drop
       else if sampling config then mem_report (taken config rs (sampling_period config)) else Sent 0 0) \<and>
    aux_pebr config rs = aux_ebr config rs"
proof -
  let ?ws = "taken config rs (sampling_period config)"
  have nx: "next_sampling (aux_start config) = sampling_period config" by (simp add: aux_start_def)
  have ws: "sampled (aux_start config) ?ws = mem_report ?ws"
    by (rule sampled_start) (use taken_bounds[of config rs "sampling_period config"] assms(2,3) in linarith)+
  have "aux_nr config rs = (if sampling config then mem_report ?ws else Aux_panicked)"
    unfolding aux_nr_def aux_nr_loop_end[OF assms(1)] nx ws by simp
  moreover have "aux_ebr config rs =
      (if non_coop config = 0 \<and> (\<exists>r\<in>set (in_loop config rs). non_coop_period config < now r) then Used_after_drop
       else if sampling config then mem_report ?ws else Sent 0 0)"
    unfolding aux_ebr_def
    using aux_loop_guarded[OF assms(1)] aux_loop_dropped[OF assms(1)] by (cases "non_coop config = 0") (simp_all add: nx ws)
  moreover have "aux_pebr config rs = aux_ebr config rs" by (simp add: aux_pebr_def aux_ebr_def)
  ultimately show ?thesis by blast
qed

text \<open>
  One second, a sample every millisecond, \<^verbatim>\<open>-n 0\<close>; in the second turn the clock passes the end of the second between the two
  readings.
\<close>

definition demo_args :: bench_args where
  "demo_args = \<lparr>arg_ds = DS_BonsaiTree, arg_mm = EBR, arg_threads = 1, arg_non_coop = 0, arg_get_rate = 1, arg_range = 10,
     arg_interval = 1, arg_sampling_period = 1, arg_ops_per_cs = 4\<rparr>"

definition demo_config :: bench_config where
  "demo_config = the (setup_config True demo_args)"

lemma demo_config_sel [simp]:
  "duration demo_config = 1000000000" "prefill demo_config = 5" "ops_per_cs demo_config = Four" "sampling demo_config"
  "sampling_period demo_config = 1000000" "non_coop demo_config = 0" "non_coop_period demo_config = 1000000000"
  by (simp_all add: demo_config_def demo_args_def setup_config_def from_secs_def from_millis_def)

definition demo_readings :: "reading list" where
  "demo_readings = [\<lparr>at_check = 10, now = 20, allocated = 7\<rparr>, \<lparr>at_check = 999999990, now = 1000000005, allocated = 9\<rparr>,
     \<lparr>at_check = 1001000000, now = 0, allocated = 0\<rparr>]"

theorem aux_thread_outcome_witness:
  "aux_nr demo_config demo_readings = mem_report [9] \<and> aux_ebr demo_config demo_readings = Used_after_drop"
  using aux_thread_outcome[of demo_readings demo_config] by (simp add: demo_readings_def)

section \<open>Configurations\<close>

lemma usize_to_string_1_4: "usize_to_string (Suc 0) = ''1''" "usize_to_string 4 = ''4''"
  by code_simp+

text \<open>
  C40: the configuration.  It is rejected exactly for an empty range of keys or a number of operations per critical section
  other than 1 and 4.  Otherwise half as many keys as the range has are prefilled, the weights of the operations give the
  documented shares of lookups, 0, 50 or 90 percent, with as many insertions as removals, and the auxiliary thread exists
  exactly if there is something to sample or \<^verbatim>\<open>-n\<close> asks for it.
\<close>

theorem setup_config_ok:
  "case setup_config linux m of
     None \<Rightarrow> \<not> (0 < arg_range m \<and> arg_ops_per_cs m \<in> {1, 4})
   | Some config \<Rightarrow> 0 < key_dist config \<and> ops_per_cs_to_string (ops_per_cs config) = usize_to_string (arg_ops_per_cs m) \<and>
       2 * prefill config \<le> key_dist config \<and> key_dist config \<le> 2 * prefill config + 1 \<and>
       (\<exists>g i. op_dist config = [g, i, i] \<and> 0 < i \<and>
          100 * g = (if arg_get_rate m = 0 then 0 else if arg_get_rate m = 1 then 50 else 90) * sum_list (op_dist config)) \<and>
       aux_thread config = (if sampling config \<or> 0 < non_coop config then 1 else 0)"
  by (auto simp: setup_config_def Let_def usize_to_string_1_4 split: if_splits)

lemma setup_config_sel:
  assumes "setup_config linux m = Some c"
  shows "ds c = arg_ds m" "mm c = arg_mm m" "threads c = arg_threads m" "as_millis (sampling_period c) = arg_sampling_period m"
    "non_coop c = arg_non_coop m" "get_rate c = arg_get_rate m" "arg_ops_per_cs m = (if ops_per_cs c = One then 1 else 4)"
    "interval c = arg_interval m" "threads c = arg_threads m"
  using assms by (auto simp: setup_config_def Let_def as_millis_def from_millis_def split: if_splits)

section \<open>The report\<close>

text \<open>The throughput is the exact sum of what the workers counted, divided by the interval, unless the sum overflows.\<close>

lemma foldl_add_word: "foldl (+) a ws = a + (of_nat (sum_list (map unat ws)) :: 64 word)"
  by (induction ws arbitrary: a) (simp_all add: add.assoc)

lemma ops_per_sec_exact:
  assumes "0 < interval config" "interval config < 2 ^ 64" "sum_list (map unat ws) < 2 ^ 64"
  shows "\<exists>t. ops_per_sec config ws = Some t \<and> unat t = sum_list (map unat ws) div interval config"
proof -
  have i: "unat (of_nat (interval config) :: 64 word) = interval config" using assms(2) by (simp add: unat_of_nat)
  with assms(1) have "(of_nat (interval config) :: 64 word) \<noteq> 0" by (metis less_not_refl unat_0)
  with assms(3) i show ?thesis by (simp add: ops_per_sec_def foldl_add_word unat_div unat_of_nat)
qed

text \<open>
  A line tells what was run and what was measured: two runs with the same line agree in everything the columns name.  The
  period of sampling survives although it is converted to milliseconds, because it was given in milliseconds.
\<close>

lemma ds_to_string_inj [simp]: "ds_to_string a = ds_to_string b \<longleftrightarrow> a = b"
  by (cases a; cases b) simp_all

lemma mm_to_string_inj [simp]: "mm_to_string a = mm_to_string b \<longleftrightarrow> a = b"
  by (cases a; cases b) simp_all

lemma ops_per_cs_to_string_inj [simp]: "ops_per_cs_to_string a = ops_per_cs_to_string b \<longleftrightarrow> a = b"
  by (cases a; cases b) simp_all

lemma usize_to_string_eq [simp]: "usize_to_string i = usize_to_string j \<longleftrightarrow> i = j"
  by (rule inj_eq[OF usize_to_string_inj])

definition report_line :: "bool \<Rightarrow> bench_args \<Rightarrow> 64 word \<Rightarrow> 64 word \<Rightarrow> 64 word \<Rightarrow> string list option" where
  "report_line linux m ops mem avg = map_option (\<lambda>config. output_record config ops mem avg) (setup_config linux m)"

text \<open>
  The line of a run in the output file has a field for every column of the header and loses nothing: equal lines come from
  runs with the same structure, memory manager, number of threads, period of sampling, mode of non-cooperation, rate of
  lookups and operations per critical section, and with the same measurements.
\<close>

lemma output_record_faithful:
  assumes "report_line linux m ops mem avg = Some line" "report_line linux m' ops' mem' avg' = Some line"
  shows "length line = length output_header \<and> arg_ds m' = arg_ds m \<and> arg_mm m' = arg_mm m \<and> arg_threads m' = arg_threads m \<and>
    arg_sampling_period m' = arg_sampling_period m \<and> arg_non_coop m' = arg_non_coop m \<and> arg_get_rate m' = arg_get_rate m \<and>
    arg_ops_per_cs m' = arg_ops_per_cs m \<and> ops' = ops \<and> mem' = mem \<and> avg' = avg"
proof -
  obtain c c' where c: "setup_config linux m = Some c" "setup_config linux m' = Some c'"
    and l: "line = output_record c ops mem avg" "output_record c' ops' mem' avg' = output_record c ops mem avg"
    using assms by (auto simp: report_line_def)
  from l have "length line = length output_header \<and> ds c' = ds c \<and> mm c' = mm c \<and> threads c' = threads c \<and>
      as_millis (sampling_period c') = as_millis (sampling_period c) \<and> non_coop c' = non_coop c \<and> get_rate c' = get_rate c \<and>
      ops_per_cs c' = ops_per_cs c \<and> ops' = ops \<and> mem' = mem \<and> avg' = avg"
    by (simp add: output_record_def output_header_def word_unat_eq_iff)
  then show ?thesis using setup_config_sel[OF c(1)] setup_config_sel[OF c(2)] by (auto split: if_splits)
qed

end
