(* ===== verification/Benchmark_Maps.thy ===== *)
theory Benchmark_Maps
  imports Benchmark_Correct Ebr_Progress Pebr_Nm_Tree_Correct Pebr_Bonsai_Correct Pebr_Hash_Map
    "HOL-Library.List_Lexorder" "HOL-Library.Char_ord"
begin

text \<open>
  The twelve maps that the driver can be started on, with strings as keys and values, keep the contracts that theory
  \<^verbatim>\<open>Benchmark_Correct\<close> asks for.  Strings are ordered as in Rust, lexicographically by character.
\<close>

section \<open>Maps without handles\<close>

lemma nm_repr_reclaim: "nm_repr self m M b \<Longrightarrow> nm_repr self (reclaim R m) M b"
  by (rule nm_repr_untouched[OF _ untouched_reclaim])

interpretation bench_HList: bench_map HList_ops list_place list_repr
  by (rule bench_map.intro[OF HList.map_impl_axioms]) (unfold_locales, rule list_repr_reclaim)

interpretation bench_HMList: bench_map HMList_ops list_place list_repr
  by (rule bench_map.intro[OF HMList.map_impl_axioms]) (unfold_locales, rule list_repr_reclaim)

interpretation bench_HHSList: bench_map HHSList_ops list_place list_repr
  by (rule bench_map.intro[OF HHSList.map_impl_axioms]) (unfold_locales, rule list_repr_reclaim)

interpretation bench_hash_map: bench_map hash_map_ops hash_place hash_repr
  by (rule bench_map.intro[OF hash_map.map_impl_axioms]) (unfold_locales, rule hash_repr_reclaim)

interpretation bench_NMTreeMap: bench_map NMTreeMap_ops nm_place nm_repr
  by (rule bench_map.intro[OF NMTreeMap.map_impl_axioms]) (unfold_locales, rule nm_repr_reclaim)

interpretation bench_bonsai: bench_map bonsai_ops bonsai_place bonsai_repr
  by (rule bench_map.intro[OF bonsai.map_impl_axioms]) (unfold_locales, rule bonsai_repr_reclaim)

section \<open>Maps with handles\<close>

lemma handle_reclaim: "handle_ok c m \<Longrightarrow> handle_ok c (reclaim R m)"
  by (simp add: handle_ok_def)

lemma shields_reclaim: "shields_ok is m \<Longrightarrow> shields_ok is (reclaim R m)"
  by (simp add: shields_ok_def)

lemma idle_reclaim: "idle st m \<Longrightarrow> idle st (reclaim R m)"
  by (simp add: idle_def shields_held_def outside_def pool_inv_def)

interpretation bench_pebr_HList: pebr_bench_map pebr_HList_ops list_place list_repr handle_ok
  by (rule pebr_bench_map.intro[OF pebr_HList.pebr_map_impl_axioms]) (unfold_locales, erule list_repr_reclaim, erule handle_reclaim)

interpretation bench_pebr_HMList: pebr_bench_map pebr_HMList_ops list_place list_repr handle_ok
  by (rule pebr_bench_map.intro[OF pebr_HMList.pebr_map_impl_axioms]) (unfold_locales, erule list_repr_reclaim, erule handle_reclaim)

interpretation bench_pebr_HHSList: pebr_bench_map pebr_HHSList_ops list_place list_repr handle_ok
  by (rule pebr_bench_map.intro[OF pebr_HHSList.pebr_map_impl_axioms]) (unfold_locales, erule list_repr_reclaim, erule handle_reclaim)

interpretation bench_pebr_hash_map: pebr_bench_map pebr_hash_map_ops hash_place hash_repr handle_ok
  by (rule pebr_bench_map.intro[OF pebr_hash_map.pebr_map_impl_axioms]) (unfold_locales, erule hash_repr_reclaim, erule handle_reclaim)

interpretation bench_pebr_NMTreeMap: pebr_bench_map pebr_NMTreeMap_ops nm_place nm_repr "\<lambda>c. shields_ok (ids c)"
  by (rule pebr_bench_map.intro[OF pebr_NMTreeMap.pebr_map_impl_axioms]) (unfold_locales, erule nm_repr_reclaim, erule shields_reclaim)

interpretation bench_pebr_bonsai: pebr_bench_map pebr_bonsai_ops bonsai_place bonsai_repr idle
  by (rule pebr_bench_map.intro[OF pebr_bonsai.pebr_map_impl_axioms]) (unfold_locales, erule bonsai_repr_reclaim, erule idle_reclaim)

section \<open>A worker with a map of its own\<close>

text \<open>
  C23: a worker of the EBR benchmark, with a map of its own: any map that keeps the contract, as the six above do.  It makes a map, prefills it by either strategy and works until
  its time is over.  Then it has returned, without a memory error, the number of turns it made; the map is what the
  prefilled keys and the operations of those turns give on a finite map, and the strategy has made no difference.
\<close>

theorem bench_ebr_worker_correct:
  assumes "bench_map D place repr" "crossbeam_api X view ok" "ok s" "place h (view s)" "prefill config + length turns \<le> n"
    and "\<exists>t\<in>set turns. duration config \<le> elapsed t" "\<forall>t\<in>set turns. sampled_op t < 3"
  shows "completes X view ok (bench_map_ebr_worker D strategy config h n ks turns) s
    (\<lambda>r m'. r = of_nat (length (in_time config turns)) \<and>
      (\<exists>b. repr h m' (snd (spec_calls (map turn_request (in_time config turns)) (filled (take (prefill config) ks) Map.empty))) b))"
  by (rule wp_completes[OF assms(2,3) bench_map.bench_map_ebr_worker_wp[OF assms(1,4-)]])

definition demo_turns :: "turn list" where
  "demo_turns = [\<lparr>elapsed = 10, sampled_key = 3, sampled_op = 1\<rparr>, \<lparr>elapsed = 20, sampled_key = 7, sampled_op = 2\<rparr>,
     \<lparr>elapsed = 30, sampled_key = 3, sampled_op = 0\<rparr>, \<lparr>elapsed = 1000000001, sampled_key = 0, sampled_op = 0\<rparr>]"

lemma demo_turns_facts:
  "length demo_turns = 4" "\<exists>t\<in>set demo_turns. duration demo_config \<le> elapsed t" "\<forall>t\<in>set demo_turns. sampled_op t < 3"
  "length (in_time demo_config demo_turns) = 3"
  by (simp_all add: demo_turns_def)

definition bench_start :: "bool list \<Rightarrow> ('f, 'n) sc" where
  "bench_start es = sc_start {1} 2 (\<lambda>_. null) Map.empty es"

lemma bench_start_facts:
  "sc_ok (bench_start es)" "bonsai_place 1 (sc_view (bench_start es))" "sc_eject (bench_start es) = es"
  by (simp_all add: bench_start_def sc_ok_start bonsai_place_def garbage_ok_def)

theorem bench_ebr_worker_correct_witness:
  "completes sc_api sc_view sc_ok (bench_map_ebr_worker bonsai_ops Random demo_config 1 9 [7, 2, 7, 10, 5] demo_turns) (bench_start [])
    (\<lambda>r m'. r = 3 \<and> (\<exists>b. bonsai_repr 1 m'
      (snd (spec_calls (map turn_request (in_time demo_config demo_turns)) (filled [7, 2, 7, 10, 5] Map.empty))) b))"
  using bench_ebr_worker_correct[OF bench_bonsai.bench_map_axioms sc.crossbeam_api_axioms bench_start_facts(1,2) _ demo_turns_facts(2,3),
    of 9 Random "[7, 2, 7, 10, 5]" "[]"]
  by (simp add: demo_turns_facts)

text \<open>
  C24: a worker of the PEBR benchmark, likewise: however often its guard is ejected, it returns, and counts and leaves in the
  map the same as the EBR one.
\<close>

theorem bench_pebr_worker_correct:
  assumes "pebr_bench_map D place repr hok" "crossbeam_api X view ok" "ok s" "place h (view s)"
    and "prefill config + length turns + ejections (view s) \<le> n"
    and "\<exists>t\<in>set turns. duration config \<le> elapsed t" "\<forall>t\<in>set turns. sampled_op t < 3"
  shows "completes X view ok (bench_map_pebr_worker D strategy config h n ks turns) s
    (\<lambda>r m'. r = of_nat (length (in_time config turns)) \<and>
      (\<exists>b. repr h m' (snd (spec_calls (map turn_request (in_time config turns)) (filled (take (prefill config) ks) Map.empty))) b))"
  by (rule wp_completes[OF assms(2,3) pebr_bench_map.bench_map_pebr_worker_wp[OF assms(1,4-)]])

theorem bench_pebr_worker_correct_witness:
  "completes sc_api sc_view sc_ok (bench_map_pebr_worker pebr_bonsai_ops Random demo_config 1 11 [7, 2, 7, 10, 5] demo_turns)
    (bench_start [False, True, False, True])
    (\<lambda>r m'. r = 3 \<and> (\<exists>b. bonsai_repr 1 m'
      (snd (spec_calls (map turn_request (in_time demo_config demo_turns)) (filled [7, 2, 7, 10, 5] Map.empty))) b))"
  using bench_pebr_worker_correct[OF bench_pebr_bonsai.pebr_bench_map_axioms sc.crossbeam_api_axioms bench_start_facts(1,2) _
    demo_turns_facts(2,3), of "[False, True, False, True]" 11 Random "[7, 2, 7, 10, 5]"]
  by (simp add: demo_turns_facts bench_start_facts)

end
