(* ===== verification/Bench_Threads.thy ===== *)
theory Bench_Threads
  imports Benchmark_Correct
begin

text \<open>
  The threads of a benchmark (\<^verbatim>\<open>bench_map_nr\<close>, \<^verbatim>\<open>bench_map_ebr\<close> and \<^verbatim>\<open>bench_map_pebr\<close> in
  \<^verbatim>\<open>src/src/main.rs\<close>) as a step relation: the main thread spawns the auxiliary thread and the workers, all of them meet
  at a barrier, each sends what it has measured through a channel, and the main thread joins them, receives and reports.
  What a worker counts and how the auxiliary thread ends are results of theory \<^verbatim>\<open>Benchmark\<close>.
\<close>

section \<open>Barriers\<close>

text \<open>\<^verbatim>\<open>std::sync::Barrier\<close>: a waiting thread goes on once the generation is not the one it came in.\<close>

record barrier =
  count :: nat
  generation :: nat

definition barrier_new :: barrier where
  "barrier_new = \<lparr>count = 0, generation = 0\<rparr>"

definition barrier_arrive :: "nat \<Rightarrow> barrier \<Rightarrow> barrier" where
  "barrier_arrive n b =
     (if Suc (count b) < n then b\<lparr>count := Suc (count b)\<rparr> else \<lparr>count = 0, generation = Suc (generation b)\<rparr>)"

section \<open>Threads\<close>

datatype worker_phase = Worker_spawned | Worker_waits nat | Worker_runs | Worker_done

datatype aux_phase = No_aux | Aux_spawned | Aux_waits nat | Aux_runs | Aux_done | Aux_failed | Aux_dead

datatype main_phase = Joining | Receiving "64 word list" | Reported "64 word" "64 word" "64 word" | Main_panicked

record bench_state =
  the_barrier :: barrier
  workers :: "nat \<Rightarrow> worker_phase"
  aux :: aux_phase
  ops_chan :: "64 word list"
  mem_chan :: "(64 word \<times> 64 word) list"
  main :: main_phase

definition parties :: "bench_config \<Rightarrow> nat" where
  "parties config = threads config + aux_thread config"

text \<open>Without an auxiliary thread the main thread sends the memory figures itself.\<close>

definition bench_init :: "bench_config \<Rightarrow> bench_state" where
  "bench_init config =
     \<lparr>the_barrier = barrier_new, workers = (\<lambda>_. Worker_spawned), aux = (if 0 < aux_thread config then Aux_spawned else No_aux),
      ops_chan = [], mem_chan = (if 0 < aux_thread config then [] else [(0, 0)]), main = Joining\<rparr>"

text \<open>
  \<open>asserts\<close> holds for \<^verbatim>\<open>bench_map_nr\<close>, whose auxiliary thread asserts that sampling is on before it waits; \<open>local_ops i\<close>
  is what worker \<open>i\<close> counts and \<open>outcome\<close> how the loop of the auxiliary thread ends.  The scope ends when all threads have; its
  \<^verbatim>\<open>unwrap\<close> panics if one of them has panicked.
\<close>

inductive bench_step ::
  "bool \<Rightarrow> bench_config \<Rightarrow> (nat \<Rightarrow> 64 word) \<Rightarrow> aux_end \<Rightarrow> bench_state \<Rightarrow> bench_state \<Rightarrow> bool"
  for asserts config local_ops outcome where
  worker_arrives: "i < threads config \<Longrightarrow> workers s i = Worker_spawned \<Longrightarrow>
    bench_step asserts config local_ops outcome s (s\<lparr>the_barrier := barrier_arrive (parties config) (the_barrier s),
      workers := (workers s)(i := Worker_waits (generation (the_barrier s)))\<rparr>)"
| worker_passes: "i < threads config \<Longrightarrow> workers s i = Worker_waits g \<Longrightarrow> generation (the_barrier s) \<noteq> g \<Longrightarrow>
    bench_step asserts config local_ops outcome s (s\<lparr>workers := (workers s)(i := Worker_runs)\<rparr>)"
| worker_sends: "i < threads config \<Longrightarrow> workers s i = Worker_runs \<Longrightarrow>
    bench_step asserts config local_ops outcome s
      (s\<lparr>workers := (workers s)(i := Worker_done), ops_chan := ops_chan s @ [local_ops i]\<rparr>)"
| aux_assertion: "aux s = Aux_spawned \<Longrightarrow> asserts \<Longrightarrow> \<not> sampling config \<Longrightarrow>
    bench_step asserts config local_ops outcome s (s\<lparr>aux := Aux_failed\<rparr>)"
| aux_arrives: "aux s = Aux_spawned \<Longrightarrow> \<not> asserts \<or> sampling config \<Longrightarrow>
    bench_step asserts config local_ops outcome s (s\<lparr>the_barrier := barrier_arrive (parties config) (the_barrier s),
      aux := Aux_waits (generation (the_barrier s))\<rparr>)"
| aux_passes: "aux s = Aux_waits g \<Longrightarrow> generation (the_barrier s) \<noteq> g \<Longrightarrow>
    bench_step asserts config local_ops outcome s (s\<lparr>aux := Aux_runs\<rparr>)"
| aux_sends: "aux s = Aux_runs \<Longrightarrow> outcome = Sent p a \<Longrightarrow>
    bench_step asserts config local_ops outcome s (s\<lparr>aux := Aux_done, mem_chan := mem_chan s @ [(p, a)]\<rparr>)"
| aux_panics: "aux s = Aux_runs \<Longrightarrow> outcome = Aux_panicked \<Longrightarrow>
    bench_step asserts config local_ops outcome s (s\<lparr>aux := Aux_dead\<rparr>)"
| joins: "main s = Joining \<Longrightarrow> \<forall>i<threads config. workers s i = Worker_done \<Longrightarrow> aux s \<in> {No_aux, Aux_done} \<Longrightarrow>
    bench_step asserts config local_ops outcome s (s\<lparr>main := Receiving []\<rparr>)"
| join_fails: "main s = Joining \<Longrightarrow> \<forall>i<threads config. workers s i = Worker_done \<Longrightarrow> aux s \<in> {Aux_failed, Aux_dead} \<Longrightarrow>
    bench_step asserts config local_ops outcome s (s\<lparr>main := Main_panicked\<rparr>)"
| receives: "main s = Receiving xs \<Longrightarrow> length xs < threads config \<Longrightarrow> ops_chan s = x # ys \<Longrightarrow>
    bench_step asserts config local_ops outcome s (s\<lparr>main := Receiving (xs @ [x]), ops_chan := ys\<rparr>)"
| divides_by_zero: "main s = Receiving xs \<Longrightarrow> length xs = threads config \<Longrightarrow> ops_per_sec config xs = None \<Longrightarrow>
    bench_step asserts config local_ops outcome s (s\<lparr>main := Main_panicked\<rparr>)"
| reports: "main s = Receiving xs \<Longrightarrow> length xs = threads config \<Longrightarrow> ops_per_sec config xs = Some t \<Longrightarrow>
    mem_chan s = (p, a) # ys \<Longrightarrow>
    bench_step asserts config local_ops outcome s (s\<lparr>main := Reported t p a, mem_chan := ys\<rparr>)"

inductive_cases bench_stepE: "bench_step asserts config local_ops outcome s s'"

text \<open>The three functions.\<close>

definition bench_map_nr :: "bench_config \<Rightarrow> (nat \<Rightarrow> 64 word) \<Rightarrow> reading list \<Rightarrow> bench_state \<Rightarrow> bench_state \<Rightarrow> bool" where
  "bench_map_nr config local_ops rs = bench_step True config local_ops (aux_nr config rs)"

definition bench_map_ebr :: "bench_config \<Rightarrow> (nat \<Rightarrow> 64 word) \<Rightarrow> reading list \<Rightarrow> bench_state \<Rightarrow> bench_state \<Rightarrow> bool" where
  "bench_map_ebr config local_ops rs = bench_step False config local_ops (aux_ebr config rs)"

definition bench_map_pebr :: "bench_config \<Rightarrow> (nat \<Rightarrow> 64 word) \<Rightarrow> reading list \<Rightarrow> bench_state \<Rightarrow> bench_state \<Rightarrow> bool" where
  "bench_map_pebr config local_ops rs = bench_step False config local_ops (aux_pebr config rs)"

text \<open>The choice that \<^verbatim>\<open>bench\<close> makes.\<close>

definition bench_run :: "bench_config \<Rightarrow> (nat \<Rightarrow> 64 word) \<Rightarrow> reading list \<Rightarrow> bench_state \<Rightarrow> bench_state \<Rightarrow> bool" where
  "bench_run config = (case mm config of NR \<Rightarrow> bench_map_nr config | EBR \<Rightarrow> bench_map_ebr config | PEBR \<Rightarrow> bench_map_pebr config)"

definition aux_outcome :: "bench_config \<Rightarrow> reading list \<Rightarrow> aux_end" where
  "aux_outcome config rs = (case mm config of NR \<Rightarrow> aux_nr config rs | EBR \<Rightarrow> aux_ebr config rs | PEBR \<Rightarrow> aux_pebr config rs)"

lemma bench_run_step: "bench_run config local_ops rs = bench_step (mm config = NR) config local_ops (aux_outcome config rs)"
  by (cases "mm config") (simp_all add: bench_run_def bench_map_nr_def bench_map_ebr_def bench_map_pebr_def aux_outcome_def)

section \<open>Every run ends\<close>

lemma sum_upd:
  fixes f :: "nat \<Rightarrow> 'b \<Rightarrow> 'a::comm_monoid_add"
  assumes "i < n"
  shows "(\<Sum>j<n. f j ((h(i := x)) j)) + f i (h i) = (\<Sum>j<n. f j (h j)) + f i x"
proof -
  have i: "i \<in> {..<n}" using assms by simp
  have "(\<Sum>j\<in>{..<n} - {i}. f j ((h(i := x)) j)) = (\<Sum>j\<in>{..<n} - {i}. f j (h j))" by (rule sum.cong) auto
  then show ?thesis
    using sum.remove[OF finite_lessThan i, of "\<lambda>j. f j ((h(i := x)) j)"] sum.remove[OF finite_lessThan i, of "\<lambda>j. f j (h j)"]
    by (simp add: ac_simps)
qed

fun worker_left :: "worker_phase \<Rightarrow> nat" where
  "worker_left Worker_spawned = 3"
| "worker_left (Worker_waits g) = 2"
| "worker_left Worker_runs = 1"
| "worker_left Worker_done = 0"

fun aux_left :: "aux_phase \<Rightarrow> nat" where
  "aux_left Aux_spawned = 3"
| "aux_left (Aux_waits g) = 2"
| "aux_left Aux_runs = 1"
| "aux_left _ = 0"

fun main_left :: "nat \<Rightarrow> main_phase \<Rightarrow> nat" where
  "main_left n Joining = n + 2"
| "main_left n (Receiving xs) = n + 1 - length xs"
| "main_left n _ = 0"

definition steps_left :: "bench_config \<Rightarrow> bench_state \<Rightarrow> nat" where
  "steps_left config s = (\<Sum>i<threads config. worker_left (workers s i)) + aux_left (aux s) + main_left (threads config) (main s)"

lemma steps_left_less:
  assumes "bench_step asserts config local_ops outcome s s'"
  shows "steps_left config s' < steps_left config s"
proof -
  have upd: "(\<Sum>j<threads config. worker_left (((workers s)(i := x)) j)) + worker_left (workers s i) =
      (\<Sum>j<threads config. worker_left (workers s j)) + worker_left x" if "i < threads config" for i x
    using sum_upd[OF that, of "\<lambda>_. worker_left" "workers s" x] .
  from assms show ?thesis
  proof cases
    case (worker_arrives i)
    then show ?thesis using upd[of i "Worker_waits (generation (the_barrier s))"] by (simp add: steps_left_def)
  next
    case (worker_passes i g)
    then show ?thesis using upd[of i Worker_runs] by (simp add: steps_left_def)
  next
    case (worker_sends i)
    then show ?thesis using upd[of i Worker_done] by (simp add: steps_left_def)
  qed (auto simp: steps_left_def)
qed

lemma run_bounded: "(bench_step asserts config local_ops outcome ^^ n) s s' \<Longrightarrow> n + steps_left config s' \<le> steps_left config s"
proof (induction n arbitrary: s')
  case (Suc n)
  then obtain s1 where "(bench_step asserts config local_ops outcome ^^ n) s s1" "bench_step asserts config local_ops outcome s1 s'" by auto
  from Suc.IH[OF this(1)] steps_left_less[OF this(2)] show ?case by simp
qed simp

section \<open>The invariant\<close>

text \<open>
  \<open>arrived\<close> counts the threads that have come to the barrier.  Nobody is past it before all have come.
\<close>

definition arrived :: "bench_config \<Rightarrow> bench_state \<Rightarrow> nat" where
  "arrived config s = (\<Sum>i<threads config. if workers s i = Worker_spawned then 0 else 1) +
     (if aux s \<in> {Aux_waits 0, Aux_runs, Aux_done, Aux_dead} then 1 else 0)"

definition sent_ops :: "bench_config \<Rightarrow> (nat \<Rightarrow> 64 word) \<Rightarrow> (nat \<Rightarrow> worker_phase) \<Rightarrow> 64 word" where
  "sent_ops config local_ops h = (\<Sum>i<threads config. if h i = Worker_done then local_ops i else 0)"

definition sent_number :: "bench_config \<Rightarrow> (nat \<Rightarrow> worker_phase) \<Rightarrow> nat" where
  "sent_number config h = (\<Sum>i<threads config. if h i = Worker_done then 1 else 0)"

definition received :: "bench_state \<Rightarrow> 64 word list" where
  "received s = (case main s of Receiving xs \<Rightarrow> xs | _ \<Rightarrow> [])"

definition barrier_inv :: "bench_config \<Rightarrow> bench_state \<Rightarrow> bool" where
  "barrier_inv config s \<longleftrightarrow>
     (if arrived config s < parties config
      then the_barrier s = \<lparr>count = arrived config s, generation = 0\<rparr> \<and>
        (\<forall>i<threads config. workers s i \<in> {Worker_spawned, Worker_waits 0}) \<and> aux s \<in> {No_aux, Aux_spawned, Aux_waits 0, Aux_failed}
      else generation (the_barrier s) = (if parties config = 0 then 0 else 1)) \<and>
     (\<forall>i g. i < threads config \<longrightarrow> workers s i = Worker_waits g \<longrightarrow> g = 0) \<and> (\<forall>g. aux s = Aux_waits g \<longrightarrow> g = 0) \<and>
     (aux s = No_aux \<longleftrightarrow> aux_thread config = 0)"

definition channel_inv :: "bench_config \<Rightarrow> (nat \<Rightarrow> 64 word) \<Rightarrow> aux_end \<Rightarrow> bench_state \<Rightarrow> bool" where
  "channel_inv config local_ops outcome s \<longleftrightarrow>
     (main s \<noteq> Joining \<longrightarrow> (\<forall>i<threads config. workers s i = Worker_done)) \<and> (aux s = Aux_done \<longrightarrow> (\<exists>p a. outcome = Sent p a)) \<and>
     (case main s of Joining \<Rightarrow> True | Receiving xs \<Rightarrow> length xs \<le> threads config \<and> aux s \<in> {No_aux, Aux_done} | _ \<Rightarrow> True) \<and>
     (main s = Joining \<or> (\<exists>xs. main s = Receiving xs) \<longrightarrow>
       sum_list (received s) + sum_list (ops_chan s) = sent_ops config local_ops (workers s) \<and>
       length (received s) + length (ops_chan s) = sent_number config (workers s) \<and>
       mem_chan s = (case aux s of No_aux \<Rightarrow> [(0, 0)] | Aux_done \<Rightarrow> (case outcome of Sent p a \<Rightarrow> [(p, a)] | _ \<Rightarrow> []) | _ \<Rightarrow> []))"

lemma sum_le_threads: "(\<Sum>i<n. if P i then 0 else (1::nat)) \<le> n"
  using sum_bounded_above[of "{..<n}" "\<lambda>i. if P i then 0 else 1" "1::nat"] by simp

lemma arrived_worker:
  assumes "i < threads config" "workers s i = Worker_spawned" "x \<noteq> Worker_spawned" "0 < aux_thread config \<or> aux s = No_aux"
  shows "arrived config (s\<lparr>the_barrier := b, workers := (workers s)(i := x)\<rparr>) = Suc (arrived config s)" "arrived config s < parties config"
proof -
  let ?f = "\<lambda>(j::nat) p. if p = Worker_spawned then 0 else (1::nat)"
  have u: "(\<Sum>j<threads config. ?f j (((workers s)(i := x)) j)) = Suc (\<Sum>j<threads config. ?f j (workers s j))"
    using sum_upd[OF assms(1), of ?f "workers s" x] assms(2,3) by simp
  then show "arrived config (s\<lparr>the_barrier := b, workers := (workers s)(i := x)\<rparr>) = Suc (arrived config s)"
    by (simp add: arrived_def)
  have "Suc (\<Sum>j<threads config. ?f j (workers s j)) \<le> threads config"
    unfolding u[symmetric] by (rule sum_le_threads)
  then show "arrived config s < parties config" using assms(4) by (auto simp: arrived_def parties_def)
qed

lemma arrived_same:
  assumes "i < threads config" "workers s i \<noteq> Worker_spawned" "x \<noteq> Worker_spawned"
  shows "arrived config (s\<lparr>workers := (workers s)(i := x), ops_chan := c\<rparr>) = arrived config s"
    "arrived config (s\<lparr>workers := (workers s)(i := x)\<rparr>) = arrived config s"
proof -
  let ?f = "\<lambda>(j::nat) p. if p = Worker_spawned then 0 else (1::nat)"
  have "(\<Sum>j<threads config. ?f j (((workers s)(i := x)) j)) = (\<Sum>j<threads config. ?f j (workers s j))"
    using sum_upd[OF assms(1), of ?f "workers s" x] assms(2,3) by simp
  then show "arrived config (s\<lparr>workers := (workers s)(i := x), ops_chan := c\<rparr>) = arrived config s"
    "arrived config (s\<lparr>workers := (workers s)(i := x)\<rparr>) = arrived config s" by (simp_all add: arrived_def)
qed

lemma barrier_init: "barrier_inv config (bench_init config)"
  by (auto simp: barrier_inv_def bench_init_def arrived_def barrier_new_def parties_def)

lemma barrier_kept:
  assumes "barrier_inv config s" "aux_thread config \<le> 1" "bench_step asserts config local_ops outcome s s'"
  shows "barrier_inv config s'"
proof -
  have aux: "0 < aux_thread config \<or> aux s = No_aux" using assms(1) by (auto simp: barrier_inv_def)
  from assms(3) show ?thesis
  proof cases
    case (worker_arrives i)
    note a = arrived_worker[OF worker_arrives(2,3) _ aux, of "Worker_waits (generation (the_barrier s))"]
    show ?thesis using assms(1) a worker_arrives by (auto simp: barrier_inv_def barrier_arrive_def)
  next
    case (worker_passes i g)
    then have "g = 0" "\<not> arrived config s < parties config" using assms(1) by (auto simp: barrier_inv_def split: if_splits)
    then show ?thesis using assms(1) arrived_same(2)[of i config s Worker_runs] worker_passes by (auto simp: barrier_inv_def)
  next
    case (worker_sends i)
    then have "\<not> arrived config s < parties config" using assms(1) by (auto simp: barrier_inv_def split: if_splits)
    then show ?thesis using assms(1) arrived_same(1)[of i config s Worker_done] worker_sends by (auto simp: barrier_inv_def)
  next
    case aux_arrives
    then have "aux_thread config = 1" using assms(1,2) by (auto simp: barrier_inv_def)
    then have p: "arrived config s < parties config" "generation (the_barrier s) = 0"
      using aux_arrives assms(1) sum_le_threads[of "\<lambda>i. workers s i = Worker_spawned" "threads config"]
      by (auto simp: arrived_def parties_def barrier_inv_def split: if_splits)
    have "arrived config s' = Suc (arrived config s)" using aux_arrives p(2) by (simp add: arrived_def)
    with p show ?thesis using assms(1) aux_arrives by (auto simp: barrier_inv_def barrier_arrive_def)
  qed (use assms(1) in \<open>auto simp: barrier_inv_def arrived_def split: if_splits\<close>)
qed

lemma sent_upd:
  assumes "i < threads config" "h i \<noteq> Worker_done"
  shows "sent_ops config local_ops (h(i := x)) = sent_ops config local_ops h + (if x = Worker_done then local_ops i else 0)"
    "sent_number config (h(i := x)) = sent_number config h + (if x = Worker_done then 1 else 0)"
  using sum_upd[OF assms(1), of "\<lambda>i p. if p = Worker_done then local_ops i else 0" h x]
    sum_upd[OF assms(1), of "\<lambda>i p. if p = Worker_done then 1 else (0::nat)" h x] assms(2)
  by (simp_all add: sent_ops_def sent_number_def)

lemma channel_init: "channel_inv config local_ops outcome (bench_init config)"
  by (simp add: channel_inv_def bench_init_def received_def sent_ops_def sent_number_def)

lemma channel_kept:
  assumes "channel_inv config local_ops outcome s" "bench_step asserts config local_ops outcome s s'"
  shows "channel_inv config local_ops outcome s'"
  using assms(2)
proof cases
  case (worker_arrives i)
  then have "main s = Joining" using assms(1) by (auto simp: channel_inv_def)
  then show ?thesis using assms(1) worker_arrives sent_upd[of i config "workers s"] by (auto simp: channel_inv_def received_def)
next
  case (worker_passes i g)
  then have "main s = Joining" using assms(1) by (auto simp: channel_inv_def)
  then show ?thesis using assms(1) worker_passes sent_upd[of i config "workers s"] by (auto simp: channel_inv_def received_def)
next
  case (worker_sends i)
  then have "main s = Joining" using assms(1) by (auto simp: channel_inv_def)
  then show ?thesis using assms(1) worker_sends sent_upd[of i config "workers s"] by (auto simp: channel_inv_def received_def add.assoc)
qed (use assms(1) in \<open>auto simp: channel_inv_def received_def add.assoc split: main_phase.splits\<close>)

section \<open>What a benchmark reports\<close>

lemma reachable_inv:
  assumes "(bench_step asserts config local_ops outcome)\<^sup>*\<^sup>* (bench_init config) s" "aux_thread config \<le> 1"
  shows "barrier_inv config s \<and> channel_inv config local_ops outcome s"
  using assms(1)
proof (induction rule: rtranclp_induct)
  case base
  show ?case using barrier_init channel_init by blast
next
  case (step s s')
  then show ?case using barrier_kept[OF _ assms(2) step(2)] channel_kept[OF _ step(2)] by blast
qed

text \<open>All runs are finite, and those that cannot go on end in a given way.\<close>

definition always_ends :: "('s \<Rightarrow> 's \<Rightarrow> bool) \<Rightarrow> 's \<Rightarrow> nat \<Rightarrow> ('s \<Rightarrow> bool) \<Rightarrow> bool" where
  "always_ends r s0 N P \<longleftrightarrow> (\<forall>n s. (r ^^ n) s0 s \<longrightarrow> n \<le> N \<and> ((\<exists>s'. r s s') \<or> P s))"

lemma always_endsI:
  assumes "\<And>s. (bench_step asserts config local_ops outcome)\<^sup>*\<^sup>* (bench_init config) s \<Longrightarrow>
      (\<exists>s'. bench_step asserts config local_ops outcome s s') \<or> P s"
  shows "always_ends (bench_step asserts config local_ops outcome) (bench_init config) (4 * threads config + 5) P"
  unfolding always_ends_def
proof (intro allI impI)
  fix n s assume run: "(bench_step asserts config local_ops outcome ^^ n) (bench_init config) s"
  have "n \<le> steps_left config (bench_init config)" using run_bounded[OF run] by simp
  also have "\<dots> \<le> 4 * threads config + 5" by (simp add: steps_left_def bench_init_def)
  finally show "n \<le> 4 * threads config + 5 \<and> ((\<exists>s'. bench_step asserts config local_ops outcome s s') \<or> P s)"
    using assms relpowp_imp_rtranclp[OF run] by blast
qed


lemma foldl_sum_list: "foldl (+) a xs = a + (sum_list xs :: 64 word)"
  by (induction xs arbitrary: a) (simp_all add: add.assoc)

text \<open>What is reported is the sum of what the workers sent and what the auxiliary thread sent.\<close>

lemma report_right:
  assumes "(bench_step asserts config local_ops outcome)\<^sup>*\<^sup>* (bench_init config) s" "aux_thread config \<le> 1"
    and "main s = Reported t p a"
  shows "ops_per_sec config (map local_ops [0..<threads config]) = Some t" "0 < aux_thread config \<Longrightarrow> outcome = Sent p a"
    "aux_thread config = 0 \<Longrightarrow> p = 0 \<and> a = 0"
proof -
  have "main s = Reported t p a \<longrightarrow> ops_per_sec config (map local_ops [0..<threads config]) = Some t \<and>
      (if 0 < aux_thread config then outcome = Sent p a else p = 0 \<and> a = 0)"
    using assms(1)
  proof (induction rule: rtranclp_induct)
    case (step s s')
    note inv = reachable_inv[OF step(1) assms(2)]
    from step(2) show ?case
    proof cases
      case (reports xs t' p' a' ys)
      then have wd: "\<forall>i<threads config. workers s i = Worker_done" and ax: "aux s \<in> {No_aux, Aux_done}"
        and sum: "sum_list xs + sum_list (ops_chan s) = sent_ops config local_ops (workers s)"
          "length xs + length (ops_chan s) = sent_number config (workers s)"
        and mem: "mem_chan s = (case aux s of No_aux \<Rightarrow> [(0, 0)] | Aux_done \<Rightarrow> (case outcome of Sent p a \<Rightarrow> [(p, a)] | _ \<Rightarrow> []) | _ \<Rightarrow> [])"
        using inv by (auto simp: channel_inv_def received_def)
      have "sent_number config (workers s) = threads config" using wd by (simp add: sent_number_def)
      then have "ops_chan s = []" using sum(2) reports by simp
      moreover have "sent_ops config local_ops (workers s) = (\<Sum>i<threads config. local_ops i)"
        unfolding sent_ops_def by (rule sum.cong) (use wd in auto)
      moreover have "(\<Sum>i<threads config. local_ops i) = sum_list (map local_ops [0..<threads config])"
        by (simp add: interv_sum_list_conv_sum_set_nat atLeast0LessThan)
      ultimately have "sum_list xs = sum_list (map local_ops [0..<threads config])" using sum(1) by simp
      then have "ops_per_sec config xs = ops_per_sec config (map local_ops [0..<threads config])"
        by (simp add: ops_per_sec_def foldl_sum_list)
      moreover have "aux s = No_aux \<longleftrightarrow> aux_thread config = 0" using inv by (simp add: barrier_inv_def)
      ultimately show ?thesis using reports mem ax by (auto split: aux_end.splits)
    qed (use step(3) in auto)
  qed (simp add: bench_init_def)
  with assms(3) show "ops_per_sec config (map local_ops [0..<threads config]) = Some t" "0 < aux_thread config \<Longrightarrow> outcome = Sent p a"
    "aux_thread config = 0 \<Longrightarrow> p = 0 \<and> a = 0" by auto
qed

lemma barrier_open:
  assumes "barrier_inv config s" "aux_thread config \<le> 1" "0 < parties config"
    and "\<forall>i<threads config. workers s i \<noteq> Worker_spawned" "aux s \<notin> {Aux_spawned, Aux_failed}"
  shows "generation (the_barrier s) = 1"
proof -
  have "(\<Sum>j<threads config. if workers s j = Worker_spawned then 0 else 1) = (\<Sum>j<threads config. 1::nat)"
    by (rule sum.cong) (use assms(4) in auto)
  then have "parties config \<le> arrived config s"
    using assms(1,2,5) by (cases "aux s") (auto simp: arrived_def parties_def barrier_inv_def)
  then show ?thesis using assms(1,3) by (simp add: barrier_inv_def)
qed

text \<open>A state in which nothing can happen: the benchmark is over, or the barrier waits for a thread that is dead.\<close>

lemma stuck:
  assumes st: "\<And>s'. \<not> bench_step asserts config local_ops outcome s s'"
    and inv: "barrier_inv config s" "channel_inv config local_ops outcome s" "aux_thread config \<le> 1"
    and out: "aux s = No_aux \<or> outcome = Aux_panicked \<or> (\<exists>p a. outcome = Sent p a)" and aux: "aux s \<noteq> Aux_failed"
  shows "main s = Main_panicked \<or> (\<exists>t p a. main s = Reported t p a)"
proof -
  have sp: "workers s i \<noteq> Worker_spawned" if "i < threads config" for i using st worker_arrives[OF that] by blast
  have as: "aux s \<noteq> Aux_spawned" using st aux_assertion aux_arrives by blast
  have gen: "generation (the_barrier s) = 1" if "0 < parties config" using barrier_open[OF inv(1,3) that] sp as aux by blast
  have wd: "workers s i = Worker_done" if i: "i < threads config" for i
  proof (cases "workers s i")
    case (Worker_waits g)
    moreover have "g = 0" using inv(1) i Worker_waits by (simp add: barrier_inv_def)
    moreover have "0 < parties config" using i by (simp add: parties_def)
    ultimately show ?thesis using st worker_passes[OF i Worker_waits] gen by auto
  next
    case Worker_runs
    then show ?thesis using st worker_sends[OF i Worker_runs] by blast
  qed (use sp[OF i] in auto)
  have ad: "aux s \<in> {No_aux, Aux_done, Aux_dead}"
  proof (cases "aux s")
    case (Aux_waits g)
    moreover have "g = 0" "0 < parties config" using inv(1) Aux_waits by (auto simp: barrier_inv_def parties_def)
    ultimately have "generation (the_barrier s) \<noteq> g" using gen by simp
    from aux_passes[OF Aux_waits this] st show ?thesis by blast
  next
    case Aux_runs
    with out consider p a where "outcome = Sent p a" | "outcome = Aux_panicked" by auto
    then show ?thesis using st aux_sends[OF Aux_runs] aux_panics[OF Aux_runs] by cases blast+
  qed (use as aux in auto)
  show ?thesis
  proof (cases "main s")
    case Joining
    then show ?thesis using st joins join_fails wd ad by blast
  next
    case (Receiving xs)
    have n: "sent_number config (workers s) = threads config" using wd by (simp add: sent_number_def)
    have len: "length xs + length (ops_chan s) = threads config" and ax: "aux s \<in> {No_aux, Aux_done}"
      and mem: "aux s = No_aux \<Longrightarrow> mem_chan s = [(0, 0)]" "aux s = Aux_done \<Longrightarrow> outcome = Sent p a \<Longrightarrow> mem_chan s = [(p, a)]" for p a
      using inv(2) Receiving n by (auto simp: channel_inv_def received_def)
    show ?thesis
    proof (cases "length xs < threads config")
      case True
      then obtain x ys where "ops_chan s = x # ys" using len by (cases "ops_chan s") auto
      then show ?thesis using st receives[OF Receiving True] by blast
    next
      case False
      then have eq: "length xs = threads config" using len by simp
      have "mem_chan s \<noteq> []" using ax mem inv(2) by (auto simp: channel_inv_def)
      then obtain p a ys where "mem_chan s = (p, a) # ys" by (cases "mem_chan s") auto
      then show ?thesis using st divides_by_zero[OF Receiving eq] reports[OF Receiving eq] by (cases "ops_per_sec config xs") blast+
    qed
  qed auto
qed



lemma setup_aux: "setup_config linux m = Some config \<Longrightarrow> aux_thread config = (if sampling config \<or> 0 < non_coop config then 1 else 0)"
  by (auto simp: setup_config_def Let_def split: if_splits)



text \<open>
  C26: the benchmark without reclamation deadlocks if \<^verbatim>\<open>-n\<close> asks for an auxiliary thread while sampling is off.  The thread
  fails its assertion before it comes to the barrier, which counts it; so no worker ever passes the barrier, and the main
  thread waits for them forever, however the threads are scheduled.
\<close>

theorem bench_nr_deadlocks:
  assumes "setup_config linux m = Some config" "mm config = NR" "\<not> sampling config" "0 < non_coop config" "0 < threads config"
  shows "always_ends (bench_run config local_ops rs) (bench_init config) (4 * threads config + 5)
    (\<lambda>s. main s = Joining \<and> aux s = Aux_failed \<and> (\<forall>i<threads config. workers s i = Worker_waits 0))"
  unfolding bench_run_step
proof (rule always_endsI)
  fix s assume run: "(bench_step (mm config = NR) config local_ops (aux_outcome config rs))\<^sup>*\<^sup>* (bench_init config) s"
  have at: "aux_thread config = 1" using setup_aux[OF assms(1)] assms(4) by simp
  note inv = reachable_inv[OF run, unfolded at, OF order_refl]
  have ax: "aux s \<in> {Aux_spawned, Aux_failed}"
    using run
  proof (induction rule: rtranclp_induct)
    case (step s s')
    from step(2) show ?case by cases (use step(3) assms(2,3) in auto)
  qed (simp add: bench_init_def at)
  then have "arrived config s < parties config"
    using sum_le_threads[of "\<lambda>i. workers s i = Worker_spawned" "threads config"] by (auto simp: arrived_def parties_def at)
  then have w: "\<forall>i<threads config. workers s i \<in> {Worker_spawned, Worker_waits 0}" using inv by (simp add: barrier_inv_def)
  then have j: "main s = Joining" using inv assms(5) by (force simp: channel_inv_def)
  show "(\<exists>s'. bench_step (mm config = NR) config local_ops (aux_outcome config rs) s s') \<or>
      main s = Joining \<and> aux s = Aux_failed \<and> (\<forall>i<threads config. workers s i = Worker_waits 0)"
  proof (cases "aux s = Aux_spawned \<or> (\<exists>i<threads config. workers s i = Worker_spawned)")
    case True
    then show ?thesis using aux_assertion[of s] worker_arrives[of _ config s] assms(2,3) by blast
  next
    case False
    with ax w j show ?thesis by auto
  qed
qed

theorem bench_nr_deadlocks_witness:
  "let config = the (setup_config True (demo_args\<lparr>arg_mm := NR, arg_non_coop := 1, arg_sampling_period := 0\<rparr>)) in
   always_ends (bench_run config (\<lambda>i. 40) []) (bench_init config) 9
    (\<lambda>s. main s = Joining \<and> aux s = Aux_failed \<and> workers s 0 = Worker_waits 0)"
proof -
  let ?m = "demo_args\<lparr>arg_mm := NR, arg_non_coop := 1, arg_sampling_period := 0\<rparr>"
  let ?c = "the (setup_config True ?m)"
  have c: "setup_config True ?m = Some ?c" "mm ?c = NR" "\<not> sampling ?c" "0 < non_coop ?c" "threads ?c = 1"
    by (simp_all add: demo_args_def setup_config_def)
  then show ?thesis using bench_nr_deadlocks[OF c(1-4), of "\<lambda>i. 40" "[]"] by (simp add: Let_def)
qed

text \<open>A division by zero in the auxiliary thread ends the benchmark with a panic instead.\<close>

lemma bench_panics:
  assumes "setup_config linux m = Some config" "mm config = NR \<longrightarrow> sampling config" "0 < aux_thread config" "aux_outcome config rs = Aux_panicked"
  shows "always_ends (bench_run config local_ops rs) (bench_init config) (4 * threads config + 5) (\<lambda>s. main s = Main_panicked)"
  unfolding bench_run_step
proof (rule always_endsI)
  fix s assume run: "(bench_step (mm config = NR) config local_ops (aux_outcome config rs))\<^sup>*\<^sup>* (bench_init config) s"
  have at: "aux_thread config \<le> 1" using setup_aux[OF assms(1)] by simp
  note inv = reachable_inv[OF run at]
  have "aux s \<noteq> Aux_failed"
    using run
  proof (induction rule: rtranclp_induct)
    case (step s s')
    from step(2) show ?case by cases (use step(3) assms(2) in auto)
  qed (simp add: bench_init_def)
  with stuck[of "mm config = NR" config local_ops "aux_outcome config rs" s] inv at assms(4) report_right(2)[OF run at _ assms(3)]
  show "(\<exists>s'. bench_step (mm config = NR) config local_ops (aux_outcome config rs) s s') \<or> main s = Main_panicked" by force
qed

end
