(* ===== verification/Command_Line.thy ===== *)
theory Command_Line
  imports Benchmark_Correct
begin

text \<open>
  The command line of \<^verbatim>\<open>src/src/main.rs\<close>: the table of arguments that \<^verbatim>\<open>main\<close> hands to the parser, what \<^verbatim>\<open>setup\<close>
  reads from the parsed arguments, and the output file, with every point at which the program can panic.  The parser itself is the crate \<^verbatim>\<open>clap\<close>; it appears as the map of
  values that it returns, with what it promises about them (\<open>accepted\<close>), and as the functions by which it reads the names
  of structures and memory managers.
\<close>

section \<open>The arguments\<close>

record arg_spec =
  arg_name :: string
  arg_short :: string
  possible_values :: "string list option"
  required :: bool
  case_insensitive :: bool
  default_value :: "string option"

definition DS_variants :: "DS list" where
  "DS_variants = [DS_HList, DS_HMList, DS_HHSList, DS_HashMap, DS_NMTree, DS_BonsaiTree]"

definition MM_variants :: "MM list" where
  "MM_variants = [NR, EBR, PEBR]"

definition plain_arg :: "string \<Rightarrow> string \<Rightarrow> arg_spec" where
  "plain_arg name short = \<lparr>arg_name = name, arg_short = short, possible_values = None, required = False, case_insensitive = False,
     default_value = None\<rparr>"

definition app_args :: "arg_spec list" where
  "app_args =
     [(plain_arg ''data structure'' ''d'')\<lparr>possible_values := Some (map ds_to_string DS_variants), required := True, case_insensitive := True\<rparr>,
      (plain_arg ''memory manager'' ''m'')\<lparr>possible_values := Some (map mm_to_string MM_variants), required := True, case_insensitive := True\<rparr>,
      (plain_arg ''threads'' ''t'')\<lparr>required := True\<rparr>,
      (plain_arg ''non-coop'' ''n'')\<lparr>possible_values := Some [''0'', ''1'', ''2'', ''3''], default_value := Some ''0''\<rparr>,
      (plain_arg ''get rate'' ''g'')\<lparr>possible_values := Some [''0'', ''1'', ''2''], default_value := Some ''0''\<rparr>,
      (plain_arg ''range'' ''r'')\<lparr>default_value := Some ''100000''\<rparr>,
      (plain_arg ''interval'' ''i'')\<lparr>default_value := Some ''10''\<rparr>,
      (plain_arg ''sampling period'' ''s'')\<lparr>default_value := Some ''1''\<rparr>,
      (plain_arg ''ops per cs'' ''c'')\<lparr>possible_values := Some [''1'', ''4''], default_value := Some ''1''\<rparr>,
      plain_arg ''output'' ''o'']"

text \<open>
  What the parser promises of the values it returns: a required argument has one, an argument with a default has one, and
  a value is one of the possible ones, up to the case of its letters if the argument says so.
\<close>

definition to_ascii_lowercase :: "string \<Rightarrow> string" where
  "to_ascii_lowercase = map (\<lambda>c. if 65 \<le> (of_char c :: nat) \<and> (of_char c :: nat) \<le> 90 then char_of ((of_char c :: nat) + 32) else c)"

definition value_accepted :: "arg_spec \<Rightarrow> string option \<Rightarrow> bool" where
  "value_accepted spec v =
     (case v of
        None \<Rightarrow> \<not> required spec \<and> default_value spec = None
      | Some s \<Rightarrow>
          (case possible_values spec of
             None \<Rightarrow> True
           | Some vs \<Rightarrow> if case_insensitive spec then to_ascii_lowercase s \<in> to_ascii_lowercase ` set vs else s \<in> set vs))"

definition accepted :: "(string \<rightharpoonup> string) \<Rightarrow> bool" where
  "accepted matches = list_all (\<lambda>spec. value_accepted spec (matches (arg_name spec))) app_args"

text \<open>\<^verbatim>\<open>arg_enum!\<close> reads the name of a variant without regard to case.\<close>

definition reads_names :: "(string \<Rightarrow> 'a option) \<Rightarrow> ('a \<Rightarrow> string) \<Rightarrow> bool" where
  "reads_names parse to_string \<longleftrightarrow> (\<forall>s d. to_ascii_lowercase s = to_ascii_lowercase (to_string d) \<longrightarrow> parse s = Some d)"

section \<open>Reading the values\<close>

text \<open>\<^verbatim>\<open>FromStr\<close> of 64-bit numbers: an optional plus, then at least one digit, and no overflow.\<close>

definition is_digit :: "char \<Rightarrow> bool" where
  "is_digit c \<longleftrightarrow> 48 \<le> (of_char c :: nat) \<and> (of_char c :: nat) \<le> 57"

definition usize_from_str :: "string \<Rightarrow> nat option" where
  "usize_from_str s =
     (let ds = (case s of c # cs \<Rightarrow> if c = CHR ''+'' then cs else s | [] \<Rightarrow> []) in
      if ds \<noteq> [] \<and> list_all is_digit ds \<and> parse_usize ds < 2 ^ 64 then Some (parse_usize ds) else None)"

text \<open>\<^verbatim>\<open>value_t!(m, name, T).unwrap()\<close>: \<open>None\<close> is a panic.\<close>

definition value_t :: "(string \<Rightarrow> 'a option) \<Rightarrow> (string \<rightharpoonup> string) \<Rightarrow> string \<Rightarrow> 'a option" where
  "value_t parse m name = Option.bind (m name) parse"

definition setup_args :: "(string \<Rightarrow> DS option) \<Rightarrow> (string \<Rightarrow> MM option) \<Rightarrow> (string \<rightharpoonup> string) \<Rightarrow> bench_args option" where
  "setup_args parse_ds parse_mm m =
     Option.bind (value_t parse_ds m ''data structure'') (\<lambda>ds.
     Option.bind (value_t parse_mm m ''memory manager'') (\<lambda>mm.
     Option.bind (value_t usize_from_str m ''threads'') (\<lambda>threads.
     Option.bind (value_t usize_from_str m ''non-coop'') (\<lambda>non_coop.
     Option.bind (value_t usize_from_str m ''get rate'') (\<lambda>get_rate.
     Option.bind (value_t usize_from_str m ''range'') (\<lambda>range.
     Option.bind (value_t usize_from_str m ''interval'') (\<lambda>interval.
     Option.bind (value_t usize_from_str m ''sampling period'') (\<lambda>sampling_period.
     Option.bind (value_t usize_from_str m ''ops per cs'') (\<lambda>ops_per_cs.
       Some \<lparr>arg_ds = ds, arg_mm = mm, arg_threads = threads, arg_non_coop = non_coop, arg_get_rate = get_rate, arg_range = range,
         arg_interval = interval, arg_sampling_period = sampling_period, arg_ops_per_cs = ops_per_cs\<rparr>)))))))))"

text \<open>The configuration that \<^verbatim>\<open>setup\<close> computes, before it touches the output file.\<close>

definition setup_from ::
  "(string \<Rightarrow> DS option) \<Rightarrow> (string \<Rightarrow> MM option) \<Rightarrow> bool \<Rightarrow> (string \<rightharpoonup> string) \<Rightarrow> bench_config option" where
  "setup_from parse_ds parse_mm linux m = Option.bind (setup_args parse_ds parse_mm m) (setup_config linux)"

section \<open>The output file\<close>

text \<open>
  Files are tables of fields.  What the operating system permits is a parameter that does not change during a run: whether the
  directory \<^verbatim>\<open>results\<close> exists or can be made, whether an existing file can be opened for reading and writing, whether a missing one
  can be made, whether what is written to a file gets there, and whether the allocator has statistics.
\<close>

type_synonym files = "string \<rightharpoonup> string list list"

record os =
  makes_results_dir :: bool
  opens :: "string \<Rightarrow> bool"
  creates :: "string \<Rightarrow> bool"
  writes :: "string \<Rightarrow> bool"
  has_stats :: bool

definition output_name :: "(string \<rightharpoonup> string) \<Rightarrow> DS \<Rightarrow> string" where
  "output_name m structure = (case m ''output'' of Some s \<Rightarrow> s | None \<Rightarrow> ''results/'' @ ds_to_string structure @ ''.csv'')"

text \<open>\<^verbatim>\<open>OpenOptions::open\<close>, without and with \<^verbatim>\<open>create(true)\<close>: whether the file is opened, and the files then.\<close>

definition open_existing :: "os \<Rightarrow> string \<Rightarrow> files \<Rightarrow> bool \<times> files" where
  "open_existing os name files = (files name \<noteq> None \<and> opens os name, files)"

definition open_create :: "os \<Rightarrow> string \<Rightarrow> files \<Rightarrow> bool \<times> files" where
  "open_create os name files =
     (case files name of
        Some _ \<Rightarrow> (opens os name, files)
      | None \<Rightarrow> if creates os name then (True, files(name \<mapsto> [])) else (False, files))"

text \<open>\<^verbatim>\<open>write_record\<close> and \<^verbatim>\<open>flush\<close>, each unwrapped: the record is at the end of the file, or the program panics.\<close>

definition write_record :: "os \<Rightarrow> string \<Rightarrow> string list \<Rightarrow> files \<Rightarrow> bool \<times> files" where
  "write_record os name row files =
     (if writes os name then (True, (case files name of Some rows \<Rightarrow> files(name \<mapsto> rows @ [row]) | None \<Rightarrow> files)) else (False, files))"

text \<open>An existing file is opened for appending; otherwise a new one is made and gets the header.  \<open>False\<close> is a panic.\<close>

definition open_output :: "os \<Rightarrow> string \<Rightarrow> files \<Rightarrow> bool \<times> files" where
  "open_output os name files =
     (case open_existing os name files of
        (True, files) \<Rightarrow> (True, files)
      | (False, files) \<Rightarrow>
          (case open_create os name files of
             (False, files) \<Rightarrow> (False, files)
           | (True, files) \<Rightarrow> write_record os name output_header files))"

text \<open>\<^verbatim>\<open>MemSampler::new\<close> asks the allocator for its statistics, on Linux only.\<close>

definition mem_sampler_new :: "bool \<Rightarrow> os \<Rightarrow> bool" where
  "mem_sampler_new linux os \<longleftrightarrow> \<not> linux \<or> has_stats os"

text \<open>\<^verbatim>\<open>setup\<close> from beginning to end: the configuration and the file to write to, or a panic, and the files it leaves.\<close>

definition setup_run ::
  "(string \<Rightarrow> DS option) \<Rightarrow> (string \<Rightarrow> MM option) \<Rightarrow> bool \<Rightarrow> os \<Rightarrow> (string \<rightharpoonup> string) \<Rightarrow> files \<Rightarrow> (bench_config \<times> string) option \<times> files" where
  "setup_run parse_ds parse_mm linux os m files =
     (case setup_from parse_ds parse_mm linux m of
        None \<Rightarrow> (None, files)
      | Some config \<Rightarrow>
          let name = output_name m (ds config) in
          if \<not> makes_results_dir os then (None, files)
          else
            (case open_output os name files of
               (False, files) \<Rightarrow> (None, files)
             | (True, files) \<Rightarrow> (if mem_sampler_new linux os then Some (config, name) else None, files)))"

text \<open>One run of the program, as the output file sees it: the configuration and the three figures.  \<open>False\<close> is a panic.\<close>

definition run_output :: "os \<Rightarrow> bench_config \<times> 64 word \<times> 64 word \<times> 64 word \<Rightarrow> string \<Rightarrow> files \<Rightarrow> bool \<times> files" where
  "run_output os = (\<lambda>(config, t, p, a) name files.
     case open_output os name files of
       (False, files) \<Rightarrow> (False, files)
     | (True, files) \<Rightarrow> write_record os name (output_record config t p a) files)"

section \<open>What can go wrong\<close>

text \<open>Reading a number that was printed gives it back.\<close>

lemma is_digit_char: "d < 10 \<Longrightarrow> is_digit (digit_char d)"
  by (simp add: is_digit_def digit_char_def)

lemma usize_to_string_shape: "usize_to_string n \<noteq> [] \<and> list_all is_digit (usize_to_string n)"
proof (induction n rule: usize_to_string.induct)
  case (1 n)
  then show ?case by (subst (1 2) usize_to_string.simps) (auto simp: is_digit_char)
qed

lemma usize_from_to_string: "n < 2 ^ 64 \<Longrightarrow> usize_from_str (usize_to_string n) = Some n"
proof -
  assume n: "n < 2 ^ 64"
  obtain c cs where c: "usize_to_string n = c # cs" using usize_to_string_shape[of n] by (cases "usize_to_string n") auto
  then have "is_digit c" using usize_to_string_shape[of n] by simp
  then have "c \<noteq> CHR ''+''" by (auto simp: is_digit_def)
  with n c usize_to_string_shape[of n] parse_usize_to_string[of n] show ?thesis by (simp add: usize_from_str_def)
qed

lemma usize_to_string_digits:
  "usize_to_string 0 = ''0''" "usize_to_string 1 = ''1''" "usize_to_string (Suc 0) = ''1''" "usize_to_string 2 = ''2''"
  "usize_to_string 3 = ''3''" "usize_to_string 4 = ''4''"
  by code_simp+

text \<open>What the parser promises of each argument that \<^verbatim>\<open>setup\<close> reads.\<close>

lemma value_acceptedD:
  assumes "value_accepted spec v"
  shows "required spec \<or> default_value spec \<noteq> None \<Longrightarrow> v \<noteq> None"
    "required spec \<or> default_value spec \<noteq> None \<Longrightarrow> possible_values spec = Some vs \<Longrightarrow> \<not> case_insensitive spec \<Longrightarrow> v \<in> Some ` set vs"
    "required spec \<or> default_value spec \<noteq> None \<Longrightarrow> possible_values spec = Some (map f xs) \<Longrightarrow> case_insensitive spec \<Longrightarrow>
      \<exists>s x. v = Some s \<and> to_ascii_lowercase s = to_ascii_lowercase (f x)"
  using assms by (cases v; auto simp: value_accepted_def)+

lemma acceptedD:
  assumes "accepted m"
  shows "\<exists>s d. m ''data structure'' = Some s \<and> to_ascii_lowercase s = to_ascii_lowercase (ds_to_string d)"
    "\<exists>s d. m ''memory manager'' = Some s \<and> to_ascii_lowercase s = to_ascii_lowercase (mm_to_string d)"
    "m ''threads'' \<noteq> None" "m ''range'' \<noteq> None" "m ''interval'' \<noteq> None" "m ''sampling period'' \<noteq> None"
    "m ''non-coop'' \<in> Some ` set [''0'', ''1'', ''2'', ''3'']" "m ''get rate'' \<in> Some ` set [''0'', ''1'', ''2'']"
    "m ''ops per cs'' \<in> Some ` set [''1'', ''4'']"
proof -
  have v: "value_accepted (app_args ! i) (m (arg_name (app_args ! i)))" if "i < 10" for i
    using assms that by (simp add: accepted_def list_all_length app_args_def)
  note v = v[unfolded app_args_def plain_arg_def]
  show "\<exists>s d. m ''data structure'' = Some s \<and> to_ascii_lowercase s = to_ascii_lowercase (ds_to_string d)"
    using value_acceptedD(3)[OF v[of 0], of ds_to_string DS_variants] by simp
  show "\<exists>s d. m ''memory manager'' = Some s \<and> to_ascii_lowercase s = to_ascii_lowercase (mm_to_string d)"
    using value_acceptedD(3)[OF v[of 1], of mm_to_string MM_variants] by simp
  show "m ''threads'' \<noteq> None" using value_acceptedD(1)[OF v[of 2]] by simp
  show "m ''range'' \<noteq> None" using value_acceptedD(1)[OF v[of 5]] by simp
  show "m ''interval'' \<noteq> None" using value_acceptedD(1)[OF v[of 6]] by simp
  show "m ''sampling period'' \<noteq> None" using value_acceptedD(1)[OF v[of 7]] by simp
  show "m ''non-coop'' \<in> Some ` set [''0'', ''1'', ''2'', ''3'']" using value_acceptedD(2)[OF v[of 3]] by simp
  show "m ''get rate'' \<in> Some ` set [''0'', ''1'', ''2'']" using value_acceptedD(2)[OF v[of 4]] by simp
  show "m ''ops per cs'' \<in> Some ` set [''1'', ''4'']" using value_acceptedD(2)[OF v[of 8]] by simp
qed

lemma setup_config_None: "setup_config linux m = None \<longleftrightarrow> arg_range m = 0 \<or> arg_ops_per_cs m \<notin> {1, 4}"
  by (auto simp: setup_config_def Let_def)

lemma setup_config_arrives:
  assumes "setup_config linux m = Some c"
  shows "ds c = arg_ds m" "mm c = arg_mm m" "threads c = arg_threads m" "non_coop c = arg_non_coop m" "get_rate c = arg_get_rate m"
    "key_dist c = arg_range m" "0 < arg_range m" "interval c = arg_interval m" "as_millis (sampling_period c) = arg_sampling_period m"
    "sampling c = (0 < arg_sampling_period m \<and> linux)" "ops_per_cs_to_string (ops_per_cs c) = usize_to_string (arg_ops_per_cs m)"
  using assms by (auto simp: setup_config_def Let_def usize_to_string_digits as_millis_def from_millis_def split: if_splits option.splits)

text \<open>What the arguments say, field by field.\<close>

definition arrived :: "(string \<rightharpoonup> string) \<Rightarrow> bench_config \<Rightarrow> bool" where
  "arrived m config \<longleftrightarrow>
     map_option to_ascii_lowercase (m ''data structure'') = Some (to_ascii_lowercase (ds_to_string (ds config))) \<and>
     map_option to_ascii_lowercase (m ''memory manager'') = Some (to_ascii_lowercase (mm_to_string (mm config))) \<and>
     value_t usize_from_str m ''threads'' = Some (threads config) \<and>
     m ''non-coop'' = Some (usize_to_string (non_coop config)) \<and>
     m ''get rate'' = Some (usize_to_string (get_rate config)) \<and>
     value_t usize_from_str m ''range'' = Some (key_dist config) \<and>
     value_t usize_from_str m ''interval'' = Some (interval config) \<and>
     value_t usize_from_str m ''sampling period'' = Some (as_millis (sampling_period config)) \<and>
     m ''ops per cs'' = Some (ops_per_cs_to_string (ops_per_cs config))"

definition bad_number :: "(string \<rightharpoonup> string) \<Rightarrow> bool" where
  "bad_number m \<longleftrightarrow> None \<in> value_t usize_from_str m ` {''threads'', ''range'', ''interval'', ''sampling period''} \<or>
     value_t usize_from_str m ''range'' = Some 0"

lemma setup_from_outcome:
  assumes "accepted m"
    and "reads_names parse_ds ds_to_string" "reads_names parse_mm mm_to_string"
  shows "case setup_from parse_ds parse_mm linux m of None \<Rightarrow> bad_number m | Some config \<Rightarrow> \<not> bad_number m \<and> arrived m config"
proof -
  note d = acceptedD[OF assms(1)]
  obtain s1 ds where ds: "m ''data structure'' = Some s1" "to_ascii_lowercase s1 = to_ascii_lowercase (ds_to_string ds)"
    "value_t parse_ds m ''data structure'' = Some ds" using d(1) assms(2) by (fastforce simp: value_t_def reads_names_def)
  obtain s2 mm where mm: "m ''memory manager'' = Some s2" "to_ascii_lowercase s2 = to_ascii_lowercase (mm_to_string mm)"
    "value_t parse_mm m ''memory manager'' = Some mm" using d(2) assms(3) by (fastforce simp: value_t_def reads_names_def)
  have digits: "set [''0'', ''1'', ''2'', ''3''] = usize_to_string ` {0, 1, 2, 3}" "set [''0'', ''1'', ''2''] = usize_to_string ` {0, 1, 2}"
    "set [''1'', ''4''] = usize_to_string ` {1, 4}" by (simp_all add: usize_to_string_digits)
  have num: "\<exists>n\<in>N. value_t usize_from_str m name = Some n \<and> m name = Some (usize_to_string n)"
    if "m name \<in> Some ` usize_to_string ` N" "\<forall>n\<in>N. n < 2 ^ 64" for name N
    using that by (auto simp: value_t_def usize_from_to_string)
  have "\<exists>n. value_t usize_from_str m ''non-coop'' = Some n \<and> m ''non-coop'' = Some (usize_to_string n)"
    "\<exists>n. value_t usize_from_str m ''get rate'' = Some n \<and> m ''get rate'' = Some (usize_to_string n)"
    "\<exists>n. n \<in> {1, 4} \<and> value_t usize_from_str m ''ops per cs'' = Some n \<and> m ''ops per cs'' = Some (usize_to_string n)"
    using num[OF d(7)[unfolded digits]] num[OF d(8)[unfolded digits]] num[OF d(9)[unfolded digits]] by fastforce+
  then obtain n g c where c: "value_t usize_from_str m ''non-coop'' = Some n" "m ''non-coop'' = Some (usize_to_string n)"
    "value_t usize_from_str m ''get rate'' = Some g" "m ''get rate'' = Some (usize_to_string g)"
    "c \<in> {1, 4}" "value_t usize_from_str m ''ops per cs'' = Some c" "m ''ops per cs'' = Some (usize_to_string c)" by metis
  let ?v = "value_t usize_from_str m"
  consider "None \<in> ?v ` {''threads'', ''range'', ''interval'', ''sampling period''}"
    | t r i p where "?v ''threads'' = Some t" "?v ''range'' = Some r" "?v ''interval'' = Some i" "?v ''sampling period'' = Some p"
    by (cases "?v ''threads''"; cases "?v ''range''"; cases "?v ''interval''"; cases "?v ''sampling period''") auto
  then show ?thesis
  proof cases
    case 1
    then have "setup_args parse_ds parse_mm m = None"
      unfolding setup_args_def ds mm c option.simps bind.simps
      by (cases "?v ''threads''"; cases "?v ''range''"; cases "?v ''interval''"; cases "?v ''sampling period''") simp_all
    with 1 show ?thesis by (simp add: setup_from_def bad_number_def)
  next
    case 2
    let ?a = "\<lparr>arg_ds = ds, arg_mm = mm, arg_threads = t, arg_non_coop = n, arg_get_rate = g, arg_range = r,
      arg_interval = i, arg_sampling_period = p, arg_ops_per_cs = c\<rparr>"
    have "setup_from parse_ds parse_mm linux m = setup_config linux ?a" by (simp add: setup_from_def setup_args_def ds mm c 2)
    moreover have "setup_config linux ?a = None \<longleftrightarrow> r = 0" using c(5) by (auto simp: setup_config_None)
    moreover have "arrived m config \<and> 0 < r" if "setup_config linux ?a = Some config" for config
      using setup_config_arrives[OF that] ds(1,2) mm(1,2) c(2,4,7) 2 by (simp add: arrived_def)
    ultimately show ?thesis using 2 by (auto simp: bad_number_def split: option.splits)
  qed
qed

text \<open>When the output file is there to be written to.\<close>

definition output_usable :: "os \<Rightarrow> files \<Rightarrow> string \<Rightarrow> bool" where
  "output_usable os files name \<longleftrightarrow> (if files name = None then creates os name \<and> writes os name else opens os name)"

lemma open_output_result:
  "fst (open_output os name files) = output_usable os files name"
  "files n \<noteq> None \<or> n \<noteq> name \<Longrightarrow> snd (open_output os name files) n = files n"
  "fst (open_output os name files) \<Longrightarrow>
     snd (open_output os name files) name = Some (case files name of Some rows \<Rightarrow> rows | None \<Rightarrow> [output_header])"
  by (auto simp: open_output_def open_existing_def open_create_def write_record_def output_usable_def split: option.splits bool.splits if_splits)

text \<open>
  C27: what can go wrong with the command line.  If the parser accepts the arguments, \<^verbatim>\<open>setup\<close> panics exactly if the number of threads, the
  range, the interval or the sampling period is not a 64-bit number, or the range is 0, or the directory \<^verbatim>\<open>results\<close> cannot be made (even
  if \<^verbatim>\<open>-o\<close> names a file elsewhere), or the output file can be neither opened nor made and given its header, or the allocator has no
  statistics; in particular its own check of the operations per critical section never fails.  Otherwise every choice arrives
  unchanged in the configuration, and the output file is the one asked for, with its rows, or with the header if it is new.  No
  existing file is changed, panic or not.
\<close>

theorem setup_outcome:
  assumes "accepted m"
    and "reads_names parse_ds ds_to_string" "reads_names parse_mm mm_to_string"
    and "setup_run parse_ds parse_mm linux os m files = (result, files')"
  shows "(result = None \<longleftrightarrow> bad_number m \<or> \<not> makes_results_dir os \<or>
        (\<exists>d. value_t parse_ds m ''data structure'' = Some d \<and> \<not> output_usable os files (output_name m d)) \<or>
        linux \<and> \<not> has_stats os) \<and>
    (case result of
       None \<Rightarrow> True
     | Some (config, name) \<Rightarrow> arrived m config \<and> name = output_name m (ds config) \<and>
         files' name = Some (case files name of Some rows \<Rightarrow> rows | None \<Rightarrow> [output_header])) \<and>
    (\<forall>n. files n \<noteq> None \<longrightarrow> files' n = files n)"
proof (cases "setup_from parse_ds parse_mm linux m")
  case None
  with setup_from_outcome[OF assms(1-3), where linux = linux] assms(4) show ?thesis by (auto simp: setup_run_def)
next
  case (Some config)
  let ?name = "output_name m (ds config)"
  have c: "\<not> bad_number m" "arrived m config" using setup_from_outcome[OF assms(1-3), where linux = linux] Some by simp_all
  have d: "value_t parse_ds m ''data structure'' = Some (ds config)"
    using c(2) assms(2) by (auto simp: arrived_def value_t_def reads_names_def)
  show ?thesis
  proof (cases "makes_results_dir os")
    case False
    with Some assms(4) show ?thesis by (auto simp: setup_run_def)
  next
    case True
    obtain b files1 where o: "open_output os ?name files = (b, files1)" by fastforce
    with True Some assms(4) have r: "files' = files1" "result = (if b \<and> mem_sampler_new linux os then Some (config, ?name) else None)"
      by (auto simp: setup_run_def split: bool.splits)
    note res = open_output_result[where os = os and name = ?name and files = files, unfolded o fst_conv snd_conv]
    from r res(1,3) res(2) c d True show ?thesis by (auto simp: mem_sampler_new_def)
  qed
qed

text \<open>The names are read by comparing without regard to case.\<close>

definition demo_parse_ds :: "string \<Rightarrow> DS option" where
  "demo_parse_ds s = find (\<lambda>d. to_ascii_lowercase s = to_ascii_lowercase (ds_to_string d)) DS_variants"

definition demo_parse_mm :: "string \<Rightarrow> MM option" where
  "demo_parse_mm s = find (\<lambda>d. to_ascii_lowercase s = to_ascii_lowercase (mm_to_string d)) MM_variants"

lemma demo_parse: "reads_names demo_parse_ds ds_to_string" "reads_names demo_parse_mm mm_to_string"
proof -
  have "to_ascii_lowercase s = to_ascii_lowercase (ds_to_string d) \<Longrightarrow> demo_parse_ds s = Some d" for s d
    by (cases d; simp add: demo_parse_ds_def DS_variants_def to_ascii_lowercase_def)
  then show "reads_names demo_parse_ds ds_to_string" by (simp add: reads_names_def)
  have "to_ascii_lowercase s = to_ascii_lowercase (mm_to_string c) \<Longrightarrow> demo_parse_mm s = Some c" for s c
    by (cases c; simp add: demo_parse_mm_def MM_variants_def to_ascii_lowercase_def)
  then show "reads_names demo_parse_mm mm_to_string" by (simp add: reads_names_def)
qed

definition demo_matches :: "string \<rightharpoonup> string" where
  "demo_matches = [''data structure'' \<mapsto> ''bonsaiTREE'', ''memory manager'' \<mapsto> ''pebr'', ''threads'' \<mapsto> ''8'', ''non-coop'' \<mapsto> ''0'',
     ''get rate'' \<mapsto> ''2'', ''range'' \<mapsto> ''+1000'', ''interval'' \<mapsto> ''10'', ''sampling period'' \<mapsto> ''1'', ''ops per cs'' \<mapsto> ''4'']"

lemma demo_accepted: "accepted demo_matches"
  by code_simp

text \<open>A machine on which nothing but one file can be made.\<close>

definition demo_os :: os where
  "demo_os = \<lparr>makes_results_dir = True, opens = (\<lambda>_. False), creates = (\<lambda>n. n = ''results/BonsaiTree.csv''), writes = (\<lambda>_. True), has_stats = True\<rparr>"

theorem setup_outcome_witness:
  "let (result, files') = setup_run demo_parse_ds demo_parse_mm True demo_os demo_matches Map.empty in
    (result = None \<longleftrightarrow> bad_number demo_matches \<or> \<not> makes_results_dir demo_os \<or>
        (\<exists>d. value_t demo_parse_ds demo_matches ''data structure'' = Some d \<and> \<not> output_usable demo_os Map.empty (output_name demo_matches d)) \<or>
        True \<and> \<not> has_stats demo_os) \<and>
    (case result of
       None \<Rightarrow> True
     | Some (config, name) \<Rightarrow> arrived demo_matches config \<and> name = output_name demo_matches (ds config) \<and>
         files' name = Some (case Map.empty name of Some rows \<Rightarrow> rows | None \<Rightarrow> [output_header])) \<and>
    (\<forall>n. Map.empty n \<noteq> None \<longrightarrow> files' n = Map.empty n)"
proof -
  obtain result files' where r: "setup_run demo_parse_ds demo_parse_mm True demo_os demo_matches Map.empty = (result, files')" by fastforce
  show ?thesis unfolding Let_def r prod.case using setup_outcome[OF demo_accepted demo_parse r] by simp
qed

section \<open>The lines of the output file\<close>

text \<open>
  Runs that share an output file, on a machine that lets them write it, leave the header, if the file is new, and one line
  each, in order; other files stay as they are.
\<close>

fun runs_output :: "os \<Rightarrow> (bench_config \<times> 64 word \<times> 64 word \<times> 64 word) list \<Rightarrow> string \<Rightarrow> files \<Rightarrow> bool \<times> files" where
  "runs_output os [] name files = (True, files)"
| "runs_output os (r # rs) name files =
     (case run_output os r name files of (False, files) \<Rightarrow> (False, files) | (True, files) \<Rightarrow> runs_output os rs name files)"

lemma run_output_result:
  assumes "writes os name" "opens os name" "creates os name"
  shows "\<exists>files'. run_output os (config, t, p, a) name files = (True, files') \<and>
    files' name = Some ((case files name of Some rows \<Rightarrow> rows | None \<Rightarrow> [output_header]) @ [output_record config t p a]) \<and>
    (\<forall>n. n \<noteq> name \<longrightarrow> files' n = files n)"
proof -
  obtain b files1 where o: "open_output os name files = (b, files1)" by fastforce
  note res = open_output_result[where os = os and name = name and files = files, unfolded o fst_conv snd_conv]
  have b: "b" using res(1) assms by (simp add: output_usable_def)
  with res o assms(1) show ?thesis by (auto simp: run_output_def write_record_def)
qed

lemma output_file:
  assumes "writes os name" "opens os name" "creates os name"
  shows "\<exists>files'. runs_output os (r # rs) name files = (True, files') \<and>
     files' name = Some ((case files name of Some rows \<Rightarrow> rows | None \<Rightarrow> [output_header]) @
       map (\<lambda>(config, t, p, a). output_record config t p a) (r # rs)) \<and> (\<forall>n. n \<noteq> name \<longrightarrow> files' n = files n)"
proof (induction rs arbitrary: r files)
  case Nil
  obtain config t p a where "r = (config, t, p, a)" by (cases r)
  with run_output_result[OF assms, of config t p a files] show ?case by auto
next
  case (Cons r' rs)
  obtain config t p a where r: "r = (config, t, p, a)" by (cases r)
  from run_output_result[OF assms, of config t p a files] obtain files1 where
    f: "run_output os r name files = (True, files1)"
      "files1 name = Some ((case files name of Some rows \<Rightarrow> rows | None \<Rightarrow> [output_header]) @ [output_record config t p a])"
      "\<forall>n. n \<noteq> name \<longrightarrow> files1 n = files n" using r by blast
  have "runs_output os (r # r' # rs) name files = runs_output os (r' # rs) name files1" by (subst runs_output.simps) (simp only: f(1) prod.case bool.case)
  with Cons.IH[of r' files1] f(2,3) show ?case by (simp only: option.case append_assoc append_Cons append_Nil list.map r prod.case) metis
qed

end
