(* ===== verification/Spec2Isabelle.thy ===== *)
theory Spec2Isabelle
  imports Ebr_Progress Ebr_Nm_Tree_Correct Ebr_Bonsai_Correct Pebr_List_Correct Pebr_Hash_Map Pebr_Nm_Tree_Correct Pebr_Bonsai_Correct Ejection_Discipline Shield_Pool Benchmark_Maps Bench_Threads Command_Line
begin

text \<open>
  A verification of the concurrent maps of the benchmark: sorted lists, hash tables and trees, each
  written once for epoch-based reclamation (EBR, \<^verbatim>\<open>src/src/ebr\<close>) and once for
  pointer- and epoch-based reclamation (PEBR, \<^verbatim>\<open>src/src/pebr\<close>).  Both kinds implement a
  trait \<^verbatim>\<open>ConcurrentMap\<close> with \<^verbatim>\<open>new\<close>, \<^verbatim>\<open>get\<close>,
  \<^verbatim>\<open>insert\<close> and \<^verbatim>\<open>remove\<close>; the PEBR one also has
  \<^verbatim>\<open>handle\<close> and \<^verbatim>\<open>clear\<close>, as its calls work through shields that the
  caller keeps.

  \<^bold>\<open>Memory and the reclamation libraries.\<close>  Theory \<^verbatim>\<open>Crossbeam\<close>.  The crates
  \<^verbatim>\<open>crossbeam_ebr\<close> and \<^verbatim>\<open>crossbeam_pebr\<close> are submodules without sources here.
  Code is therefore modelled as a tree of calls to their interface (datatype \<open>prog\<close>: loads,
  stores, compare-and-set, fetch-or, dereferencing, allocation, freeing, deferred destruction, the
  shield operations, repinning), with \<open>Panic\<close> for a failed assertion and
  \<open>Out_of_fuel\<close> for a loop that used up its bound.  \<open>run\<close> executes such a tree on any record of
  functions that provides the interface; the locale \<open>crossbeam_api\<close> states what those functions
  are documented to do, as an effect on an abstract memory \<open>mem\<close>: objects, atomic fields, which
  addresses wait for destruction, which were freed, which values were dropped, what each shield protects,
  and how many more times the thread can be ejected.  Reclamation may happen at any
  \<^verbatim>\<open>defer_destroy\<close> and of any part of the garbage; an allocation returns any fresh
  address; \<^verbatim>\<open>defend\<close> and \<^verbatim>\<open>Shield::new\<close> may fail with
  \<^verbatim>\<open>Ejected\<close> as long as ejections are left.  \<open>wp\<close> is the weakest precondition
  over that memory, sound for every implementation of the interface (\<open>wp_sound\<close>), and
  \<open>completes\<close> is the form in which results are stated: the run returns a value (it neither panics nor
  runs out of fuel), every pointer it follows is allocated, nothing is freed twice or retired twice, and
  the postcondition holds.  \<open>sc_api\<close> is a concrete implementation, on which the results are applied.

  \<^bold>\<open>The trait.\<close>  \<^verbatim>\<open>Concurrent_Map\<close> and \<^verbatim>\<open>Pebr_Concurrent_Map\<close> hold the two
  traits as records of methods, the finite-map specification (\<open>spec_calls\<close>), and the locales
  \<open>map_impl\<close> and \<open>pebr_map_impl\<close>: from the contract of the four methods follows that any
  sequence of calls answers as a finite map.  Every structure below interprets one of them.

  \<^bold>\<open>Lists.\<close>  \<^verbatim>\<open>Ebr_List\<close> and \<^verbatim>\<open>Pebr_List\<close> translate
  \<^verbatim>\<open>ebr/list.rs\<close> and \<^verbatim>\<open>pebr/list.rs\<close>: the searches of Harris, Harris-Michael and
  Harris-Herlihy-Shavit, the loops of \<^verbatim>\<open>insert\<close> and \<^verbatim>\<open>remove\<close> on top of any
  search, and \<^verbatim>\<open>drop\<close>.  \<^verbatim>\<open>List_Spec\<close> defines the shape of a list in memory
  (chains with marked nodes, keys increasing) and the map it represents.  The locales
  \<open>list_getter\<close> and \<open>list_finder\<close> (and their PEBR versions) say what a search promises;
  the operations are verified once against them, and the three searches interpret them.  The results
  (\<^verbatim>\<open>Ebr_List_Correct\<close>, \<^verbatim>\<open>Pebr_List_Correct\<close>) are refinement of a finite map,
  the exact sets of nodes retired, freed and dropped, and, for PEBR, that the result is unaffected by
  ejections and that the two shields of the cursor stay acquired.

  \<^bold>\<open>Hash tables.\<close>  \<^verbatim>\<open>Ebr_Hash_Map\<close> and \<^verbatim>\<open>Pebr_Hash_Map\<close>:
  a vector of lists, the hash of a key at 64 bits taken modulo the number of buckets.  The hash function
  is arbitrary.

  \<^bold>\<open>Bonsai tree.\<close>  \<^verbatim>\<open>Ebr_Bonsai\<close> translates \<^verbatim>\<open>ebr/bonsai_tree.rs\<close>, in
  which an update rebuilds the path from the root in fresh nodes, remembers which nodes it made and which
  it replaces, and publishes the copy by one compare-and-set.  \<^verbatim>\<open>Bonsai_Spec\<close> holds the
  functional trees it implements (insertion and removal with weight-balanced rotations, proved to
  be search-tree operations on finite maps) and the relation between such a tree and memory;
  \<^verbatim>\<open>Ebr_Bonsai_Correct\<close> shows that the code computes exactly those functions and accounts
  for every node it allocates, retires, or frees when a round is abandoned.  \<^verbatim>\<open>Bonsai_Rounds\<close>, \<^verbatim>\<open>Bonsai_Moves\<close> and
  \<^verbatim>\<open>Ebr_Bonsai_Concurrent\<close> verify the same code under interference: a round works on a snapshot of the tree as it was when the
  root was read, and either publishes what the functional trees give on that snapshot or changes nothing.  \<^verbatim>\<open>Pebr_Bonsai\<close> translates
  \<^verbatim>\<open>pebr/bonsai_tree.rs\<close>, where each node on the path is protected by a shield of a pool and a round ends
  early when the guard is ejected.  \<^verbatim>\<open>Shield_Free\<close> relates code with shields to code without;
  with it \<^verbatim>\<open>Pebr_Bonsai_Correct\<close> shows, routine by routine, that the PEBR code simulates the EBR code
  until an ejection, after which aborting frees exactly what was allocated.

  \<^bold>\<open>Natarajan-Mittal tree.\<close>  \<^verbatim>\<open>Ebr_Nm_Tree\<close> and \<^verbatim>\<open>Pebr_Nm_Tree\<close> translate the two
  files \<^verbatim>\<open>natarajan_mittal_tree.rs\<close>: marked edges, extended keys, the search with its record, clean-up
  with helping, insertion, the two phases of removal, and drop.  \<^verbatim>\<open>Nm_Spec\<close> describes the tree in memory, the
  path of a search, and the trees that updates leave.  \<^verbatim>\<open>Ebr_Nm_Tree_Correct\<close> and
  \<^verbatim>\<open>Pebr_Nm_Tree_Correct\<close> show refinement of a finite map and which nodes are retired and freed; the PEBR
  search is shown to find what the EBR search finds, with its four shields on the four nodes of the record.
  The tree is one in which no removal is under way, as one thread leaves it between its calls.

  \<^bold>\<open>Shield pool.\<close>  \<^verbatim>\<open>Shield_Pool\<close> models \<^verbatim>\<open>pebr/shield_pool.rs\<close>: every index is free, in the hands of one
  handle, or lost by a failed \<^verbatim>\<open>defend\<close>, whatever a client does with the pool.

  \<^bold>\<open>Ejections.\<close>  In the results on PEBR a failing protection is one of finitely many ejections and says nothing of the
  next one, so that they hold whether or not the guard is repinned in between.  \<^verbatim>\<open>Ejection_Discipline\<close> states what is left
  out there: \<open>guarded\<close> follows a program over all answers of the library and asks that, once a protection has failed, it
  touches no shared location, retires nothing and asks for no protection before it has repinned.  The locale
  \<open>ejection_safe\<close> gives it for a session from the methods of a map, and the six maps interpret it.

  \<^bold>\<open>Threads.\<close>  \<^verbatim>\<open>Interleaving\<close> lets any number of threads make calls on one map: a schedule is a list
  of thread numbers, and each entry lets that thread make its next access to memory.  The locale \<open>ebr_threads\<close>
  states what epoch-based reclamation promises to threads that share it (a node is not freed while a thread that was
  pinned when it was retired is still pinned), \<open>cwp\<close> is a weakest precondition under interference, and
  the locale \<open>concurrent_object\<close> derives linearizability; \<open>shared_map\<close> of \<^verbatim>\<open>Shared_Map\<close> extends it to a map that
  serves the calls of the trait.  \<^verbatim>\<open>Owned_Nodes\<close> says which nodes are private to a thread and which it has yet to retire,
  for the lists and the tree alike.  \<^verbatim>\<open>List_Family\<close> describes several lists in one memory and
  \<^verbatim>\<open>List_Moves\<close> what each step of a thread keeps of them; its notion of a route says what a thread may still rely on when
  the node it stands on has been unlinked.  \<^verbatim>\<open>Ebr_List_Concurrent\<close> verifies the operations of \<^verbatim>\<open>Ebr_List\<close> under
  interference once, against the locales \<open>concurrent_reader\<close> and \<open>concurrent_finder\<close>, which the three searches interpret
  (there and in \<^verbatim>\<open>Ebr_Harris_Concurrent\<close>).  \<^verbatim>\<open>Ebr_Concurrent\<close> states the results: every interleaving of calls of
  a \<^verbatim>\<open>HList\<close>, \<^verbatim>\<open>HMList\<close>, \<^verbatim>\<open>HHSList\<close> or hash map is linearizable to a finite map and free of memory
  errors, whatever each call's fuel, and no node is lost; \<^verbatim>\<open>Ebr_Bonsai_Concurrent\<close> states the same of
  \<^verbatim>\<open>BonsaiTreeMap\<close>.  \<^verbatim>\<open>Disjoint_Threads\<close> derives that
  threads with keys of their own see a sequential map; \<^verbatim>\<open>Solo_Runs\<close> that a thread which runs alone finishes (locale \<open>progressive_map\<close>).

  \<^bold>\<open>Smoke test.\<close>  \<^verbatim>\<open>Smoke_Test\<close> models the test of \<^verbatim>\<open>ebr/concurrent_map.rs\<close>, thirty threads in three
  scopes that insert, remove and look up, and proves in the locale \<open>smoke_map\<close> that no assertion fails under any
  schedule, what the map holds in the end, and that schedules exist under which the test ends.  \<^verbatim>\<open>Ebr_Progress\<close>
  interprets the locale on the hash map, the three lists and the Bonsai tree.

  \<^bold>\<open>Driver.\<close>  \<^verbatim>\<open>Benchmark\<close> models what \<^verbatim>\<open>main.rs\<close> computes: the configuration from the
  arguments, the prefilling, the loops of the worker and the auxiliary threads, the throughput and the line in the output
  file.  Clock, random generator and memory statistics are lists of readings.  \<^verbatim>\<open>Decimal\<close> is the conversion of keys to
  strings.  The locales \<open>bench_map\<close> and \<open>pebr_bench_map\<close> of \<^verbatim>\<open>Benchmark_Correct\<close> extend the contract of
  a map by what a worker needs, and a worker is verified once against them; \<^verbatim>\<open>Benchmark_Maps\<close> interprets them on the
  twelve maps of the crate.  \<^verbatim>\<open>Bench_Threads\<close> models how the threads of a benchmark run together, as a step relation:
  the barrier they meet at, the channels through which they send what they measured, and the joins.  Every run ends and
  reports the sums, if the auxiliary thread does not panic; without reclamation, an auxiliary thread that is started with
  sampling switched off leaves the others waiting at the barrier.  \<^verbatim>\<open>Command_Line\<close> models what becomes of the
  arguments: which are accepted, which make the program panic, which file is opened and what is written to it.  What the
  operating system permits (making the directory, opening, creating and writing files, reading statistics) is a parameter,
  the record \<open>os\<close>, and every refusal is a panic of \<^verbatim>\<open>setup\<close>, as in the code.  Of several
  workers on one map, the results on threads above speak for the lists, the hash map and the Bonsai tree of EBR.

  \<^bold>\<open>Fuel.\<close>  Every loop of the source takes a bound, the \<open>nat\<close> argument; the theorems about one thread ask for more
  than the number of nodes (lists), the height (Bonsai trees), the number of leaves plus six (Natarajan-Mittal trees), two or
  four times the number of nodes (dropping a tree), plus the number of ejections left (PEBR).  Since these results say
  that the run returns, the bounds are enough.  Results on interleavings hold for any fuel: a call that uses up its
  fuel, because others keep interfering, stops without an answer.

  \<^bold>\<open>Scope.\<close>  Except for the theories on threads, the theorems are about the calls of one thread: the
  interface behaves as a sequential memory between two of its calls, though reclamation by
  others is arbitrary.  Branches that only interference can reach (a failed
  compare-and-set, a retired root, helping a removal) are part of the definitions; of them, the theorems cover those of
  the EBR lists, hash map and Bonsai tree, but not those of the Natarajan-Mittal trees and of the PEBR maps.  Memory is sequentially consistent: orderings are not represented.
  \<^verbatim>\<open>usize\<close> is a 64-bit word where it is hashed, reduced or summed; sizes of trees are natural numbers, as they are
  bounded by the number of nodes in memory.  \<^verbatim>\<open>debug_assert!\<close> is taken as \<^verbatim>\<open>assert!\<close>.
  A shield is not needed to follow a pointer in the results on PEBR, as the calls of one thread do not overlap with removals by others.
  \<^verbatim>\<open>get\<close> returns the value that the node holds, not a reference to it: that a list's \<^verbatim>\<open>remove\<close> moves the value out of
  the node while such a reference may still be in use is not visible in the model.  Of the root of a Natarajan-Mittal tree, a field of the map
  and not a node of its own, only the two links are represented; its key and value are set by \<^verbatim>\<open>new\<close> and never change, so the
  assertion on its value in \<^verbatim>\<open>drop\<close>, which cannot fail, is left out.  A worker that drops its guard and pins again is
  taken to repin.  Sums of instants and durations do not overflow.

  \<^bold>\<open>Not modelled\<close>: of \<^verbatim>\<open>main.rs\<close>, the parser of the command line (its result is a parameter), the formatting of
  CSV records and the sampling of jemalloc statistics, all of which are calls of other crates; the smoke test of
  \<^verbatim>\<open>pebr/concurrent_map.rs\<close>, because what shields and ejections promise between threads is not documented in these
  sources; module declarations and re-exports in \<^verbatim>\<open>lib.rs\<close> and the \<^verbatim>\<open>mod.rs\<close> files, the choice of
  the global allocator, and the macros of \<^verbatim>\<open>utils.rs\<close>, which are expanded where the sources use them.
\<close>

end
